(* ===== verification/Prelude.thy ===== *)
theory Prelude
  imports Main "HOL-Library.Word"
begin

unbundle bit_operations_syntax

text \<open>
  The prelude of the development: the machine types of the i386 target, panics as values,
  the flat byte memory that the C library works on, and the generic lemmas on words, lists
  and byte ranges that the component theories share.
\<close>

section \<open>Machine types and outcomes\<close>

text \<open>
  The kernel is built for i386: \<open>char\<close> is 8 bits, \<open>int\<close>, \<open>long\<close>, \<open>size_t\<close> and every
  pointer are 32 bits, \<open>long long\<close> is 64 bits. A pointer is its address; the null
  pointer is 0.
\<close>

type_synonym u8 = "8 word"
type_synonym u16 = "16 word"
type_synonym u32 = "32 word"
type_synonym u64 = "64 word"

text \<open>The kernel runs this far above the memory that it is loaded into (X86/Parameters.hh).\<close>

definition KernelVirtualBase :: u32 where "KernelVirtualBase = 0xc0000000"

text \<open>
  \<open>Debug::panic\<close> does not return (Include/Debug.hh). A function that can panic has a sum as
  its result: \<open>Inl\<close> carries which check failed, \<open>Inr\<close> the value or the new state.
\<close>

datatype panic = KASSERT string | PANIC string

type_synonym 'a res = "panic + 'a"

definition bindr :: "'a res \<Rightarrow> ('a \<Rightarrow> 'b res) \<Rightarrow> 'b res" where
  "bindr x f = (case x of Inl e \<Rightarrow> Inl e | Inr y \<Rightarrow> f y)"

named_theorems mem_simps \<open>rewriting of reads and writes of the flat memory\<close>
named_theorems clist_simps \<open>rewriting of next and prev links of circular lists\<close>

section \<open>Words\<close>

lemma unat_minus_one_word:
  fixes n :: "'a::len word"
  assumes "n \<noteq> 0"
  shows "unat n = Suc (unat (n - 1))"
proof -
  have "unat (n - 1) = unat n - 1" using assms by (rule unat_minus_one)
  moreover have "0 < unat n" using assms by (simp add: unat_gt_0)
  ultimately show ?thesis by simp
qed

lemma unat_minus_one_less [simp]:
  fixes n :: "'a::len word"
  shows "n \<noteq> 0 \<Longrightarrow> unat (n - 1) < unat n"
  by (simp add: unat_minus_one_word)

lemma unat_add_of_nat:
  fixes p :: "'a::len word"
  assumes "unat p + i < 2 ^ LENGTH('a)"
  shows "unat (p + of_nat i) = unat p + i"
proof -
  have "unat (of_nat i :: 'a word) = i" using assms by (simp add: unat_of_nat)
  then show ?thesis using assms by (simp add: unat_word_ariths)
qed

lemma add_of_nat_inject:
  fixes p :: "'a::len word"
  assumes "i < 2 ^ LENGTH('a)" "j < 2 ^ LENGTH('a)"
  shows "p + of_nat i = p + of_nat j \<longleftrightarrow> i = j"
  using assms by (metis add_left_cancel of_nat_inverse)

lemma add_of_nat_eq_iff:
  fixes p q :: "'a::len word"
  assumes "unat p + i < 2 ^ LENGTH('a)" "unat q + j < 2 ^ LENGTH('a)"
  shows "p + of_nat i = q + of_nat j \<longleftrightarrow> unat p + i = unat q + j"
  using assms by (metis unat_add_of_nat word_unat_eq_iff)

lemma of_nat_word_eq_0:
  assumes "n < 2 ^ LENGTH('a)"
  shows "(of_nat n :: 'a::len word) = 0 \<longleftrightarrow> n = 0"
proof
  assume "(of_nat n :: 'a word) = 0"
  then have "unat (of_nat n :: 'a word) = 0" by simp
  then show "n = 0" using assms by (simp add: of_nat_inverse)
qed simp

lemma unat_and_mask:
  fixes x :: "'a::len word"
  shows "unat (x AND mask n) = unat x mod 2 ^ n"
  using take_bit_eq_mod [of n "unat x"]
  by (simp only: take_bit_eq_mask [symmetric] unsigned_take_bit_eq)

lemma unat_u32_less: "unat (x :: u32) < 2 ^ 32"
  using unsigned_less [of x] by simp

text \<open>What holds of all 256 bytes.\<close>

lemma all_bytes:
  assumes "list_all (\<lambda>i. P (of_nat i)) [0..<256]"
  shows "P (x :: u8)"
proof -
  have "unat x < 256" using unsigned_less [of x] by simp
  then have "P (of_nat (unat x))" using assms by (simp only: list_all_iff set_upt atLeastLessThan_iff le0 simp_thms)
  then show ?thesis by simp
qed

text \<open>Termination of the loops that end with \<open>while (--n != 0)\<close>.\<close>

lemma unat_minus_two_less [simp]: "(n :: u32) \<noteq> 1 \<Longrightarrow> unat (n - 2) < unat (n - 1)"
  using unat_minus_one_less [of "n - 1"] by simp

end
