(* ===== verification/Circular_List.thy ===== *)
theory Circular_List
  imports Prelude
begin

text \<open>
  Circular doubly linked lists with a sentinel. Three components of the kernel keep their
  elements this way: the page clusters (Include/Platform/PageCluster.hh), the free list of
  the heap (Include/SegmentList.hh) and the list template of Templates/DoublyLinkedList.hh.
  The theory gives the abstraction from a pair of link functions to the list of the nodes,
  the effect of relinking on it, and the interface (a locale) that a store of linked nodes
  has to satisfy for a component to use these facts.
\<close>

section \<open>Link functions and the list they represent\<close>

text \<open>
  \<open>links nx pv a xs b\<close>: following \<open>nx\<close> from \<open>a\<close> visits \<open>xs\<close> and then \<open>b\<close>, and
  \<open>pv\<close> leads back.
\<close>

fun links :: "('p \<Rightarrow> 'p) \<Rightarrow> ('p \<Rightarrow> 'p) \<Rightarrow> 'p \<Rightarrow> 'p list \<Rightarrow> 'p \<Rightarrow> bool" where
  "links nx pv a [] b \<longleftrightarrow> nx a = b \<and> pv b = a"
| "links nx pv a (x # xs) b \<longleftrightarrow> nx a = x \<and> pv x = a \<and> links nx pv x xs b"

definition clist :: "('p \<Rightarrow> 'p) \<Rightarrow> ('p \<Rightarrow> 'p) \<Rightarrow> 'p \<Rightarrow> 'p list \<Rightarrow> bool" where
  "clist nx pv h xs \<longleftrightarrow> distinct (h # xs) \<and> links nx pv h xs h"

lemma links_append:
  "links nx pv a (xs @ y # ys) b \<longleftrightarrow> links nx pv a xs y \<and> links nx pv y ys b"
  by (induction xs arbitrary: a) auto

lemma links_upd_next [clist_simps]:
  "u \<notin> set (a # xs) \<Longrightarrow> links (nx(u := v)) pv a xs b = links nx pv a xs b"
  by (induction xs arbitrary: a) auto

lemma links_upd_prev [clist_simps]:
  "u \<notin> set (xs @ [b]) \<Longrightarrow> links nx (pv(u := v)) a xs b = links nx pv a xs b"
  by (induction xs arbitrary: a) auto

lemma links_next: "links nx pv a xs b \<Longrightarrow> nx a = hd (xs @ [b])"
  by (cases xs) auto

lemma links_prev: "links nx pv a xs b \<Longrightarrow> pv b = last (a # xs)"
  by (induction xs arbitrary: a) auto

text \<open>The links determine the list.\<close>

lemma links_inj:
  "links nx pv a xs b \<Longrightarrow> links nx pv a ys b \<Longrightarrow> b \<notin> set xs \<Longrightarrow> b \<notin> set ys \<Longrightarrow> xs = ys"
proof (induction xs arbitrary: a ys)
  case Nil
  then show ?case by (cases ys) auto
next
  case (Cons x xs)
  then show ?case by (cases ys) auto
qed

lemma clist_unique: "clist nx pv h xs \<Longrightarrow> clist nx pv h ys \<Longrightarrow> xs = ys"
  by (auto simp: clist_def intro: links_inj)

lemma clist_distinct: "clist nx pv h xs \<Longrightarrow> distinct xs \<and> h \<notin> set xs"
  by (simp add: clist_def)

lemma clist_empty [simp]: "clist nx pv h [] \<longleftrightarrow> nx h = h \<and> pv h = h"
  by (simp add: clist_def)

lemma clist_next: "clist nx pv h xs \<Longrightarrow> nx h = hd (xs @ [h])"
  by (auto simp: clist_def dest: links_next)

lemma clist_prev: "clist nx pv h xs \<Longrightarrow> pv h = last (h # xs)"
  by (auto simp: clist_def dest: links_prev)

lemma clist_next_mem:
  assumes "clist nx pv h (xs @ x # ys)"
  shows "nx x = hd (ys @ [h])" and "pv x = last (h # xs)"
  using assms by (auto simp: clist_def links_append dest: links_next links_prev)

section \<open>Relinking\<close>

lemma links_snoc:
  "links nx pv a (xs @ [y]) b \<longleftrightarrow> links nx pv a xs y \<and> nx y = b \<and> pv b = y"
  by (simp add: links_append)

lemma links_insert:
  assumes "links nx pv h (xs @ ys) k" "distinct (h # xs @ ys)" "i \<notin> set (h # xs @ ys)" "i \<noteq> k"
    and "k \<notin> set (xs @ ys)"
    and a: "a = last (h # xs)" and b: "b = hd (ys @ [k])"
  shows "links (nx(i := b, a := i)) (pv(i := a, b := i)) h (xs @ i # ys) k"
proof (cases xs rule: rev_cases)
  case Nil
  then show ?thesis
    using assms by (cases ys) (auto simp: clist_simps)
next
  case (snoc xs' x)
  then show ?thesis
    using assms by (cases ys) (auto simp: clist_simps links_append links_snoc)
qed

lemma clist_insert:
  assumes "clist nx pv h (xs @ ys)" "i \<notin> set (h # xs @ ys)"
    and "a = last (h # xs)" "b = hd (ys @ [h])"
  shows "clist (nx(i := b, a := i)) (pv(i := a, b := i)) h (xs @ i # ys)"
  using assms links_insert [of nx pv h xs ys h i a b] by (auto simp: clist_def)

lemma links_remove:
  assumes "links nx pv h (xs @ x # ys) k" "distinct (h # xs @ x # ys)" "k \<notin> set (xs @ x # ys)"
  shows "links (nx(pv x := nx x)) (pv(nx x := pv x)) h (xs @ ys) k"
proof (cases xs rule: rev_cases)
  case Nil
  then show ?thesis
    using assms by (cases ys) (auto simp: clist_simps)
next
  case (snoc xs' z)
  then show ?thesis
    using assms by (cases ys) (auto simp: clist_simps links_append links_snoc)
qed

lemma clist_remove:
  assumes "clist nx pv h (xs @ x # ys)"
  shows "clist (nx(pv x := nx x)) (pv(nx x := pv x)) h (xs @ ys)"
  using assms links_remove [of nx pv h xs x ys h] by (auto simp: clist_def)

lemma clist_upd_outside:
  assumes "clist nx pv h xs" "u \<notin> set (h # xs)"
  shows "clist (nx(u := v)) (pv(u := w)) h xs"
  using assms by (auto simp: clist_def clist_simps)

lemma links_cong:
  "(\<And>p. p \<in> set (a # xs) \<Longrightarrow> nx' p = nx p) \<Longrightarrow>
   (\<And>p. p \<in> set (xs @ [b]) \<Longrightarrow> pv' p = pv p) \<Longrightarrow>
   links nx' pv' a xs b = links nx pv a xs b"
  by (induction xs arbitrary: a) auto

lemma clist_cong:
  assumes "\<And>p. p \<in> set (h # xs) \<Longrightarrow> nx' p = nx p \<and> pv' p = pv p"
  shows "clist nx' pv' h xs = clist nx pv h xs"
  using assms links_cong [of h xs nx' nx h pv' pv] by (auto simp: clist_def)

section \<open>The interface of a store of linked nodes\<close>

text \<open>
  What the list code relies on: the two links of a node can be read, each can be written,
  and a write changes that link of that node only. A component provides the four functions
  over its own store and gets the facts below for its list operations.
\<close>

locale linked_store =
  fixes next_of :: "'s \<Rightarrow> 'p \<Rightarrow> 'p"
    and prev_of :: "'s \<Rightarrow> 'p \<Rightarrow> 'p"
    and set_next :: "'p \<Rightarrow> 'p \<Rightarrow> 's \<Rightarrow> 's"
    and set_prev :: "'p \<Rightarrow> 'p \<Rightarrow> 's \<Rightarrow> 's"
  assumes next_set_next: "next_of (set_next p q s) = (next_of s)(p := q)"
    and prev_set_next: "prev_of (set_next p q s) = prev_of s"
    and next_set_prev: "next_of (set_prev p q s) = next_of s"
    and prev_set_prev: "prev_of (set_prev p q s) = (prev_of s)(p := q)"
begin

lemmas link_laws = next_set_next prev_set_next next_set_prev prev_set_prev

lemma insert_after_head:
  assumes "clist (next_of s) (prev_of s) h xs" "i \<notin> set (h # xs)"
    and "s' = set_next h i (set_next i (next_of s h) s)"
    and "s'' = set_prev i h (set_prev (next_of s h) i s')"
  shows "clist (next_of s'') (prev_of s'') h (i # xs)"
proof -
  have b: "next_of s h = hd (xs @ [h])" using assms(1) by (rule clist_next)
  then have "i \<noteq> next_of s h" using assms(2) by (cases xs) auto
  then have "next_of s'' = (next_of s)(i := next_of s h, h := i)"
    "prev_of s'' = (prev_of s)(i := h, next_of s h := i)"
    by (auto simp: assms link_laws fun_upd_twist)
  moreover have "clist ((next_of s)(i := next_of s h, h := i))
      ((prev_of s)(i := h, next_of s h := i)) h ([] @ i # xs)"
    by (rule clist_insert) (use assms b in auto)
  ultimately show ?thesis by simp
qed

lemma insert_before_head:
  assumes "clist (next_of s) (prev_of s) h xs" "i \<notin> set (h # xs)"
    and "s' = set_prev i (prev_of s h) (set_next i h s)"
    and "s'' = set_prev h i (set_next (prev_of s h) i s')"
  shows "clist (next_of s'') (prev_of s'') h (xs @ [i])"
proof -
  have a: "prev_of s h = last (h # xs)" using assms(1) by (rule clist_prev)
  then have "i \<noteq> prev_of s h" using assms(2) last_in_set [of "h # xs"] by auto
  then have "next_of s'' = (next_of s)(i := h, prev_of s h := i)"
    "prev_of s'' = (prev_of s)(i := prev_of s h, h := i)"
    by (auto simp: assms link_laws fun_upd_twist)
  moreover have "clist ((next_of s)(i := h, prev_of s h := i))
      ((prev_of s)(i := prev_of s h, h := i)) h (xs @ i # [])"
    by (rule clist_insert) (use assms a in auto)
  ultimately show ?thesis by simp
qed

lemma unlink:
  assumes "clist (next_of s) (prev_of s) h (xs @ x # ys)"
    and "s' = set_prev (next_of s x) (prev_of s x) (set_next (prev_of s x) (next_of s x) s)"
  shows "clist (next_of s') (prev_of s') h (xs @ ys)"
  using clist_remove [OF assms(1)] by (simp add: assms(2) link_laws)

end

end
