(* ===== verification/Page_Cluster.thy ===== *)
theory Page_Cluster
  imports Circular_List
begin

text \<open>
  The physical page descriptors (Include/Platform/PhysicalPage.hh) and the page clusters
  (Include/Platform/PageCluster.hh): circular lists of descriptors around a sentinel
  \<open>headM\<close>, with a counter. The descriptors live in a store indexed by their address; the
  sentinels are descriptors of the same store.
\<close>

section \<open>PhysicalPage\<close>

record phys_page =
  prev :: u32
  "next" :: u32
  address :: u32

type_synonym pstore = "u32 \<Rightarrow> phys_page"

definition PageSize :: u32 where "PageSize = 4096"
definition PageMask :: u32 where "PageMask = PageSize - 1"

definition Invalid :: u32 where "Invalid = NOT 0"
definition AddressMask :: u32 where "AddressMask = NOT PageMask"
definition ColorMask :: u32 where "ColorMask = PageMask"

definition page_init :: "u32 \<Rightarrow> pstore \<Rightarrow> pstore" where
  "page_init this s = s(this := \<lparr>prev = this, next = this, address = Invalid\<rparr>)"

definition page_init_at :: "u32 \<Rightarrow> u32 \<Rightarrow> pstore \<Rightarrow> pstore" where
  "page_init_at this addr s = s(this := \<lparr>prev = this, next = this, address = addr\<rparr>)"

definition getAddress :: "phys_page \<Rightarrow> u32" where
  "getAddress p = address p AND AddressMask"

definition setAddress :: "u32 \<Rightarrow> phys_page \<Rightarrow> phys_page" where
  "setAddress addr p = p\<lparr>address := addr\<rparr>"

definition setColor :: "u8 \<Rightarrow> phys_page \<Rightarrow> phys_page" where
  "setColor color p = p\<lparr>address := (address p AND AddressMask) OR ucast color\<rparr>"

definition getColor :: "phys_page \<Rightarrow> u8" where
  "getColor p = ucast (address p AND ColorMask)"

definition isValid :: "phys_page \<Rightarrow> bool" where
  "isValid p \<longleftrightarrow> address p = Invalid"

definition isInvalid :: "phys_page \<Rightarrow> bool" where
  "isInvalid p \<longleftrightarrow> \<not> isValid p"

section \<open>PageCluster\<close>

definition set_next :: "u32 \<Rightarrow> u32 \<Rightarrow> pstore \<Rightarrow> pstore" where
  "set_next p q s = s(p := (s p)\<lparr>next := q\<rparr>)"

definition set_prev :: "u32 \<Rightarrow> u32 \<Rightarrow> pstore \<Rightarrow> pstore" where
  "set_prev p q s = s(p := (s p)\<lparr>prev := q\<rparr>)"

record page_cluster =
  headM :: u32  \<comment> \<open>the address of the sentinel, a member of the cluster object\<close>
  countM :: u32

definition cluster_init :: "page_cluster \<times> pstore \<Rightarrow> page_cluster \<times> pstore" where
  "cluster_init = (\<lambda>(c, s).
     let s = page_init (headM c) s;
         s = set_next (headM c) (headM c) s;
         s = set_prev (headM c) (headM c) s
     in (c\<lparr>countM := 0\<rparr>, s))"

definition cluster_insert :: "u32 \<Rightarrow> page_cluster \<times> pstore \<Rightarrow> (page_cluster \<times> pstore) res" where
  "cluster_insert page = (\<lambda>(c, s).
     if page = 0 then Inl (KASSERT ''page != 0'')
     else let oldNext = next (s (headM c)) in
       if oldNext = 0 then Inl (KASSERT ''oldNext != 0'')
       else
         let s = set_next page (next (s (headM c))) s;
             s = set_next (headM c) page s;
             s = set_prev oldNext page s;
             s = set_prev page (headM c) s
         in Inr (c\<lparr>countM := countM c + 1\<rparr>, s))"

definition cluster_remove :: "u32 \<Rightarrow> page_cluster \<times> pstore \<Rightarrow> (page_cluster \<times> pstore) res" where
  "cluster_remove page = (\<lambda>(c, s).
     if page = 0 then Inl (KASSERT ''page != 0'')
     else let oldPrev = prev (s page); oldNext = next (s page) in
       if oldPrev = 0 then Inl (KASSERT ''oldPrev != 0'')
       else if oldNext = 0 then Inl (KASSERT ''oldNext != 0'')
       else
         let s = set_next oldPrev oldNext s;
             s = set_prev oldNext oldPrev s
         in Inr (c\<lparr>countM := countM c - 1\<rparr>, s))"

definition cluster_get :: "page_cluster \<times> pstore \<Rightarrow> (u32 \<times> page_cluster \<times> pstore) res" where
  "cluster_get = (\<lambda>(c, s).
     if getAddress (s (next (s (headM c)))) \<noteq> Invalid
     then let page = next (s (headM c)) in
       (case cluster_remove (next (s (headM c))) (c, s) of
          Inl e \<Rightarrow> Inl e
        | Inr cs \<Rightarrow> Inr (page, cs))
     else Inr (0, c, s))"

text \<open>
  The loop of \<open>find\<close> need not end, so it is an optional value: \<open>None\<close> is a loop that does
  not return.
\<close>

partial_function (option) find_loop :: "pstore \<Rightarrow> u32 \<Rightarrow> u32 \<Rightarrow> u32 option" where
  "find_loop s addr page =
     (if getAddress (s page) \<noteq> Invalid
      then if getAddress (s page) = addr then Some page
           else find_loop s addr (next (s page))
      else Some 0)"

declare find_loop.simps [code]

definition cluster_find :: "u32 \<Rightarrow> page_cluster \<times> pstore \<Rightarrow> u32 option" where
  "cluster_find addr = (\<lambda>(c, s). find_loop s addr (next (s (headM c))))"

definition cluster_count :: "page_cluster \<times> pstore \<Rightarrow> u32" where
  "cluster_count = (\<lambda>(c, s). countM c)"

section \<open>The abstraction: a cluster is a list of pages\<close>

abbreviation next_of :: "pstore \<Rightarrow> u32 \<Rightarrow> u32" where "next_of s p \<equiv> next (s p)"
abbreviation prev_of :: "pstore \<Rightarrow> u32 \<Rightarrow> u32" where "prev_of s p \<equiv> prev (s p)"

interpretation pages: linked_store next_of prev_of set_next set_prev
  by unfold_locales (auto simp: set_next_def set_prev_def fun_eq_iff)

definition cluster_repr :: "page_cluster \<times> pstore \<Rightarrow> u32 list \<Rightarrow> bool" where
  "cluster_repr = (\<lambda>(c, s) xs.
     clist (next_of s) (prev_of s) (headM c) xs \<and> 0 \<notin> set (headM c # xs) \<and>
     countM c = of_nat (length xs) \<and> length xs < 2 ^ 32)"

lemma set_next_address [simp]: "address (set_next p q s x) = address (s x)"
  by (simp add: set_next_def)

lemma set_prev_address [simp]: "address (set_prev p q s x) = address (s x)"
  by (simp add: set_prev_def)

lemma getAddress_cong: "address p = address q \<Longrightarrow> getAddress p = getAddress q"
  by (simp add: getAddress_def)

lemma cluster_repr_next_nonzero:
  "cluster_repr (c, s) xs \<Longrightarrow> next (s (headM c)) \<noteq> 0"
  using clist_next [of "next_of s" "prev_of s" "headM c" xs]
  by (cases xs) (auto simp: cluster_repr_def)

lemma cluster_init_repr:
  assumes "headM c \<noteq> 0"
  shows "cluster_repr (cluster_init (c, s)) []"
  using assms
  by (simp add: cluster_init_def cluster_repr_def Let_def page_init_def set_next_def set_prev_def)

lemma cluster_repr_frame:
  assumes "cluster_repr (c, s) xs" "\<And>x. x \<notin> S \<Longrightarrow> s' x = s x"
    and "set (headM c # xs) \<inter> S = {}"
  shows "cluster_repr (c, s') xs"
proof -
  have "\<And>x. x \<in> set (headM c # xs) \<Longrightarrow> s' x = s x" using assms(2,3) by blast
  then show ?thesis
    using assms(1) clist_cong [of "headM c" xs "next_of s'" "next_of s" "prev_of s'" "prev_of s"]
    by (auto simp: cluster_repr_def)
qed

text \<open>\<open>insert\<close> puts the page in front and touches only the cluster and the page.\<close>

lemma cluster_insert_repr:
  assumes repr: "cluster_repr (c, s) xs"
    and fresh: "page \<notin> set (headM c # xs)" "page \<noteq> 0" and len: "Suc (length xs) < 2 ^ 32"
  obtains c' s' where "cluster_insert page (c, s) = Inr (c', s')"
    "cluster_repr (c', s') (page # xs)" "headM c' = headM c"
    "\<And>x. address (s' x) = address (s x)"
    "\<And>x. x \<notin> set (page # headM c # xs) \<Longrightarrow> s' x = s x"
proof -
  have nz: "next (s (headM c)) \<noteq> 0" using repr by (rule cluster_repr_next_nonzero)
  have cl: "clist (next_of s) (prev_of s) (headM c) xs" using repr by (simp add: cluster_repr_def)
  define s1 where "s1 = set_next (headM c) page (set_next page (next (s (headM c))) s)"
  define s2 where "s2 = set_prev page (headM c) (set_prev (next (s (headM c))) page s1)"
  have eq: "cluster_insert page (c, s) = Inr (c\<lparr>countM := countM c + 1\<rparr>, s2)"
    using nz fresh by (simp add: cluster_insert_def Let_def s1_def s2_def)
  have "clist (next_of s2) (prev_of s2) (headM c) (page # xs)"
    by (rule pages.insert_after_head [OF cl fresh(1) s1_def s2_def])
  then have r: "cluster_repr (c\<lparr>countM := countM c + 1\<rparr>, s2) (page # xs)"
    using repr fresh len by (simp add: cluster_repr_def)
  have "next (s (headM c)) \<in> set (headM c # xs)"
    using clist_next [OF cl] by (cases xs) auto
  then have "\<And>x. x \<notin> set (page # headM c # xs) \<Longrightarrow> s2 x = s x"
    by (auto simp: s1_def s2_def set_next_def set_prev_def)
  then show ?thesis using that [OF eq r] by (simp add: s1_def s2_def)
qed

text \<open>\<open>remove\<close> takes a member out and leaves the rest in order.\<close>

lemma cluster_remove_repr:
  assumes repr: "cluster_repr (c, s) (xs @ page # ys)"
  obtains c' s' where "cluster_remove page (c, s) = Inr (c', s')"
    "cluster_repr (c', s') (xs @ ys)" "headM c' = headM c"
    "\<And>x. address (s' x) = address (s x)"
    "\<And>x. x \<notin> set (headM c # xs @ ys) \<Longrightarrow> s' x = s x"
proof -
  have cl: "clist (next_of s) (prev_of s) (headM c) (xs @ page # ys)"
    using repr by (simp add: cluster_repr_def)
  have mem: "next (s page) \<in> set (headM c # xs @ ys)" "prev (s page) \<in> set (headM c # xs @ ys)"
    using clist_next_mem [OF cl] by (cases ys; cases xs rule: rev_cases; auto)+
  moreover have "0 \<notin> set (headM c # xs @ page # ys)" using repr by (simp add: cluster_repr_def)
  ultimately have nz: "page \<noteq> 0" "next (s page) \<noteq> 0" "prev (s page) \<noteq> 0" by auto
  define s1 where "s1 = set_prev (next (s page)) (prev (s page)) (set_next (prev (s page)) (next (s page)) s)"
  have eq: "cluster_remove page (c, s) = Inr (c\<lparr>countM := countM c - 1\<rparr>, s1)"
    using nz by (simp add: cluster_remove_def Let_def s1_def)
  have "clist (next_of s1) (prev_of s1) (headM c) (xs @ ys)"
    by (rule pages.unlink [OF cl s1_def])
  then have r: "cluster_repr (c\<lparr>countM := countM c - 1\<rparr>, s1) (xs @ ys)"
    using repr by (simp add: cluster_repr_def)
  have "\<And>x. x \<notin> set (headM c # xs @ ys) \<Longrightarrow> s1 x = s x"
    using mem by (auto simp: s1_def set_next_def set_prev_def)
  then show ?thesis using that [OF eq r] by (simp add: s1_def)
qed

text \<open>
  The end-of-list test compares a page-aligned value with the all-ones constant, so it never
  succeeds: neither \<open>get\<close> nor \<open>find\<close> can recognise the sentinel.
\<close>

lemma getAddress_not_Invalid: "getAddress p \<noteq> Invalid"
proof
  assume "getAddress p = Invalid"
  then have "bit (getAddress p) 0 = bit Invalid 0" by simp
  then show False
    by (simp add: getAddress_def Invalid_def AddressMask_def PageMask_def PageSize_def bit_simps)
qed

lemma cluster_get_eq:
  "cluster_get (c, s) =
     (case cluster_remove (next (s (headM c))) (c, s) of
        Inl e \<Rightarrow> Inl e | Inr cs \<Rightarrow> Inr (next (s (headM c)), cs))"
  by (simp add: cluster_get_def getAddress_not_Invalid Let_def)

lemma cluster_get_repr:
  assumes "cluster_repr (c, s) (page # xs)"
  obtains c' s' where "cluster_get (c, s) = Inr (page, c', s')"
    "cluster_repr (c', s') xs" "headM c' = headM c"
    "\<And>x. address (s' x) = address (s x)"
    "\<And>x. x \<notin> set (headM c # xs) \<Longrightarrow> s' x = s x"
proof -
  have "next (s (headM c)) = page"
    using assms clist_next [of "next_of s" "prev_of s" "headM c" "page # xs"]
    by (simp add: cluster_repr_def)
  moreover have "cluster_repr (c, s) ([] @ page # xs)" using assms by simp
  ultimately show ?thesis
    using that by (elim cluster_remove_repr) (simp add: cluster_get_eq)
qed

section \<open>Searching\<close>

lemma find_loop_hit:
  assumes "getAddress (s page) = addr"
  shows "find_loop s addr page = Some page"
  using assms getAddress_not_Invalid [of "s page"] by (simp add: find_loop.simps)

lemma find_loop_step:
  assumes "getAddress (s page) \<noteq> addr"
  shows "find_loop s addr page = find_loop s addr (next (s page))"
  using assms by (subst find_loop.simps) (simp add: getAddress_not_Invalid)

lemma find_loop_links:
  assumes "links (next_of s) pv a xs h" "\<forall>x \<in> set xs. getAddress (s x) \<noteq> addr"
  shows "find_loop s addr (next (s a)) = find_loop s addr h"
  using assms
proof (induction xs arbitrary: a)
  case Nil
  then show ?case by simp
next
  case (Cons x xs)
  then have "find_loop s addr (next (s x)) = find_loop s addr h" by simp
  with Cons.prems show ?case by (simp add: find_loop_step)
qed

text \<open>A search for an address that the cluster holds returns its first page.\<close>

lemma cluster_find_present:
  assumes "cluster_repr (c, s) (xs @ page # ys)"
    and "getAddress (s page) = addr" "\<forall>x \<in> set xs. getAddress (s x) \<noteq> addr"
  shows "cluster_find addr (c, s) = Some page"
proof -
  have "links (next_of s) (prev_of s) (headM c) xs page"
    using assms(1) by (simp add: cluster_repr_def clist_def links_append)
  then have "find_loop s addr (next (s (headM c))) = find_loop s addr page"
    using assms(3) by (rule find_loop_links)
  then show ?thesis using assms(2) by (simp add: cluster_find_def find_loop_hit)
qed

text \<open>The sentinel is met after the last page, and its masked address is compared as well.\<close>

lemma cluster_find_sentinel:
  assumes "cluster_repr (c, s) xs" "\<forall>x \<in> set xs. getAddress (s x) \<noteq> getAddress (s (headM c))"
  shows "cluster_find (getAddress (s (headM c))) (c, s) = Some (headM c)"
proof -
  have "links (next_of s) (prev_of s) (headM c) xs (headM c)"
    using assms(1) by (simp add: cluster_repr_def clist_def)
  then show ?thesis
    using find_loop_links assms(2) by (simp add: cluster_find_def find_loop_hit)
qed

text \<open>A search that meets no page with the address never leaves the cycle.\<close>

lemma find_loop_diverges:
  assumes closed: "\<And>p. p \<in> C \<Longrightarrow> next (s p) \<in> C"
    and none: "\<And>p. p \<in> C \<Longrightarrow> getAddress (s p) \<noteq> addr" and "page \<in> C"
  shows "find_loop s addr page = None"
proof (rule ccontr)
  assume "find_loop s addr page \<noteq> None"
  then obtain r where r: "find_loop s addr page = Some r" by auto
  have "page \<in> C \<longrightarrow> s = s \<and> addr = addr \<longrightarrow> False"
  proof (rule find_loop.raw_induct
      [where P = "\<lambda>s' addr' page r. page \<in> C \<longrightarrow> s' = s \<and> addr' = addr \<longrightarrow> False", OF _ r])
    fix f s' addr' page r
    assume IH: "\<And>s' addr' page r. f s' addr' page = Some r \<Longrightarrow>
        page \<in> C \<longrightarrow> s' = s \<and> addr' = addr \<longrightarrow> False"
      and eq: "(if getAddress (s' page) \<noteq> Invalid
        then if getAddress (s' page) = addr' then Some page else f s' addr' (next (s' page))
        else Some 0) = Some r"
    show "page \<in> C \<longrightarrow> s' = s \<and> addr' = addr \<longrightarrow> False"
      using eq IH [of s' addr' "next (s' page)" r] closed none
      by (auto simp: getAddress_not_Invalid split: if_splits)
  qed
  with \<open>page \<in> C\<close> show False by simp
qed

lemma clist_next_closed:
  assumes "clist nx pv h xs" "p \<in> set (h # xs)"
  shows "nx p \<in> set (h # xs)"
proof (cases "p = h")
  case True
  then show ?thesis using clist_next [OF assms(1)] by (cases xs) auto
next
  case False
  then obtain as bs where "xs = as @ p # bs" using assms(2) by (auto dest: split_list)
  then show ?thesis using clist_next_mem(1) [of nx pv h as p bs] assms(1) by (cases bs) auto
qed

lemma cluster_find_absent:
  assumes repr: "cluster_repr (c, s) xs"
    and none: "\<forall>x \<in> set (headM c # xs). getAddress (s x) \<noteq> addr"
  shows "cluster_find addr (c, s) = None"
proof -
  have cl: "clist (next_of s) (prev_of s) (headM c) xs" using repr by (simp add: cluster_repr_def)
  have "find_loop s addr (next (s (headM c))) = None"
    by (rule find_loop_diverges [of "set (headM c # xs)"])
      (use none clist_next_closed [OF cl] in auto)
  then show ?thesis by (simp add: cluster_find_def)
qed

end
