(* ===== verification/Page_Allocator.thy ===== *)
theory Page_Allocator
  imports Page_Cluster
begin

text \<open>
  The physical page allocator of Kernel/Memory.cc: the clusters \<open>usedPages\<close> and
  \<open>freePages\<close> and the functions \<open>Memory::getPage\<close> and \<open>Memory::putPage\<close>, which move
  page descriptors between them. Both bodies run under \<open>pagesLock\<close>; the model is the
  critical section.
\<close>

record page_alloc =
  store :: pstore
  usedPages :: page_cluster
  freePages :: page_cluster

definition getPage :: "page_alloc \<Rightarrow> (u32 \<times> page_alloc) res" where
  "getPage a =
     (if cluster_count (freePages a, store a) = 0
      then Inl (PANIC ''Out of memory, free page cluster is empty'')
      else case cluster_get (freePages a, store a) of
        Inl e \<Rightarrow> Inl e
      | Inr (page, fr, st) \<Rightarrow>
          if page \<noteq> 0 then
            (case cluster_insert page (usedPages a, st) of
               Inl e \<Rightarrow> Inl e
             | Inr (us, st) \<Rightarrow>
                 Inr (getAddress (st page), a\<lparr>store := st, usedPages := us, freePages := fr\<rparr>))
          else Inr (0, a\<lparr>store := st, freePages := fr\<rparr>))"

text \<open>\<open>None\<close>: the search of \<open>putPage\<close> does not return.\<close>

definition putPage :: "u32 \<Rightarrow> page_alloc \<Rightarrow> page_alloc res option" where
  "putPage addr a =
     (case cluster_find addr (usedPages a, store a) of
        None \<Rightarrow> None
      | Some page \<Rightarrow>
          Some (if page = 0 then Inl (PANIC ''Trying to free an unallocated physical page'')
            else case cluster_remove page (usedPages a, store a) of
              Inl e \<Rightarrow> Inl e
            | Inr (us, st) \<Rightarrow>
                (case cluster_insert page (freePages a, st) of
                   Inl e \<Rightarrow> Inl e
                 | Inr (fr, st) \<Rightarrow> Inr (a\<lparr>store := st, usedPages := us, freePages := fr\<rparr>))))"

section \<open>Invariant\<close>

text \<open>
  \<open>alloc_repr a us fs\<close>: the used cluster is the list \<open>us\<close> of descriptors, the free cluster
  the list \<open>fs\<close>, and no descriptor is on both.
\<close>

definition alloc_repr :: "page_alloc \<Rightarrow> u32 list \<Rightarrow> u32 list \<Rightarrow> bool" where
  "alloc_repr a us fs \<longleftrightarrow>
     cluster_repr (usedPages a, store a) us \<and> cluster_repr (freePages a, store a) fs \<and>
     set (headM (usedPages a) # us) \<inter> set (headM (freePages a) # fs) = {} \<and>
     length us + length fs < 2 ^ 32"

lemma alloc_repr_count:
  assumes "alloc_repr a us fs"
  shows "cluster_count (freePages a, store a) = 0 \<longleftrightarrow> fs = []"
  using assms of_nat_word_eq_0 [of "length fs", where 'a = 32]
  by (simp add: alloc_repr_def cluster_repr_def cluster_count_def)

section \<open>Behaviour of the allocator\<close>

text \<open>With a free page, \<open>getPage\<close> moves the first one to the front of the used cluster.\<close>

lemma getPage_repr:
  assumes inv: "alloc_repr a us (page # fs)"
  obtains a' where "getPage a = Inr (getAddress (store a page), a')"
    "alloc_repr a' (page # us) fs" "\<And>x. address (store a' x) = address (store a x)"
    "headM (usedPages a') = headM (usedPages a)" "headM (freePages a') = headM (freePages a)"
proof -
  have f: "cluster_repr (freePages a, store a) (page # fs)"
    and u: "cluster_repr (usedPages a, store a) us"
    and disj: "set (headM (usedPages a) # us) \<inter> set (headM (freePages a) # page # fs) = {}"
    and len: "Suc (length us + length fs) < 2 ^ 32"
    using inv by (simp_all add: alloc_repr_def)
  obtain fr st where g: "cluster_get (freePages a, store a) = Inr (page, fr, st)"
    and gr: "cluster_repr (fr, st) fs" and gh: "headM fr = headM (freePages a)"
    and ga: "\<And>x. address (st x) = address (store a x)"
    and gs: "\<And>x. x \<notin> set (headM (freePages a) # fs) \<Longrightarrow> st x = store a x"
    using cluster_get_repr [OF f] by metis
  have pz: "page \<noteq> 0" "page \<notin> set (headM fr # fs)"
    using f by (auto simp: cluster_repr_def gh dest: clist_distinct)
  have u': "cluster_repr (usedPages a, st) us"
    by (rule cluster_repr_frame [OF u gs], assumption) (use disj in auto)
  have pu: "page \<notin> set (headM (usedPages a) # us)" using disj by auto
  have lu: "Suc (length us) < 2 ^ 32" using len by simp
  obtain us' st' where i: "cluster_insert page (usedPages a, st) = Inr (us', st')"
    and ir: "cluster_repr (us', st') (page # us)" and ih: "headM us' = headM (usedPages a)"
    and ia: "\<And>x. address (st' x) = address (st x)"
    and ifr: "\<And>x. x \<notin> set (page # headM (usedPages a) # us) \<Longrightarrow> st' x = st x"
    using cluster_insert_repr [OF u' pu pz(1) lu] by metis
  have f': "cluster_repr (fr, st') fs"
    by (rule cluster_repr_frame [OF gr ifr], assumption) (use disj pz gh in auto)
  define a' where "a' = a\<lparr>store := st', usedPages := us', freePages := fr\<rparr>"
  have "getPage a = Inr (getAddress (st' page), a')"
    using alloc_repr_count [OF inv] by (simp add: getPage_def g i pz a'_def)
  then have e: "getPage a = Inr (getAddress (store a page), a')"
    using getAddress_cong [of "st' page" "store a page"] by (simp add: ia ga)
  have r: "alloc_repr a' (page # us) fs"
    using ir f' disj pz len by (auto simp: alloc_repr_def a'_def ih gh)
  show ?thesis by (rule that [OF e r]) (simp_all add: a'_def ia ga ih gh)
qed

lemma getPage_empty:
  assumes "alloc_repr a us []"
  shows "getPage a = Inl (PANIC ''Out of memory, free page cluster is empty'')"
  using alloc_repr_count [OF assms] by (simp add: getPage_def)

text \<open>Freeing an address of the used cluster moves its descriptor to the free cluster.\<close>

lemma putPage_repr:
  assumes inv: "alloc_repr a (us @ page # vs) fs"
    and addr: "getAddress (store a page) = addr" "\<forall>x \<in> set us. getAddress (store a x) \<noteq> addr"
  obtains a' where "putPage addr a = Some (Inr a')"
    "alloc_repr a' (us @ vs) (page # fs)" "\<And>x. address (store a' x) = address (store a x)"
    "headM (usedPages a') = headM (usedPages a)" "headM (freePages a') = headM (freePages a)"
proof -
  have u: "cluster_repr (usedPages a, store a) (us @ page # vs)"
    and f: "cluster_repr (freePages a, store a) fs"
    and disj: "set (headM (usedPages a) # us @ page # vs) \<inter> set (headM (freePages a) # fs) = {}"
    and len: "Suc (length us + length vs + length fs) < 2 ^ 32"
    using inv by (simp_all add: alloc_repr_def)
  have fnd: "cluster_find addr (usedPages a, store a) = Some page"
    by (rule cluster_find_present [OF u addr])
  obtain us' st where r: "cluster_remove page (usedPages a, store a) = Inr (us', st)"
    and rr: "cluster_repr (us', st) (us @ vs)" and rh: "headM us' = headM (usedPages a)"
    and ra: "\<And>x. address (st x) = address (store a x)"
    and rs: "\<And>x. x \<notin> set (headM (usedPages a) # us @ vs) \<Longrightarrow> st x = store a x"
    using cluster_remove_repr [OF u] by metis
  have pz: "page \<noteq> 0" "page \<notin> set (headM us' # us @ vs)"
    using u by (auto simp: cluster_repr_def rh dest: clist_distinct)
  have f': "cluster_repr (freePages a, st) fs"
    by (rule cluster_repr_frame [OF f rs], assumption) (use disj in auto)
  have pf: "page \<notin> set (headM (freePages a) # fs)" using disj by auto
  have lf: "Suc (length fs) < 2 ^ 32" using len by simp
  obtain fr' st' where i: "cluster_insert page (freePages a, st) = Inr (fr', st')"
    and ir: "cluster_repr (fr', st') (page # fs)" and ih: "headM fr' = headM (freePages a)"
    and ia: "\<And>x. address (st' x) = address (st x)"
    and ifr: "\<And>x. x \<notin> set (page # headM (freePages a) # fs) \<Longrightarrow> st' x = st x"
    using cluster_insert_repr [OF f' pf pz(1) lf] by metis
  have u': "cluster_repr (us', st') (us @ vs)"
    by (rule cluster_repr_frame [OF rr ifr], assumption) (use disj pz rh in auto)
  define a' where "a' = a\<lparr>store := st', usedPages := us', freePages := fr'\<rparr>"
  have e: "putPage addr a = Some (Inr a')"
    by (simp add: putPage_def fnd r i pz a'_def)
  have rp: "alloc_repr a' (us @ vs) (page # fs)"
    using ir u' disj pz len by (auto simp: alloc_repr_def a'_def ih rh)
  show ?thesis by (rule that [OF e rp]) (simp_all add: a'_def ia ra ih rh)
qed

section \<open>Sequences of allocator calls\<close>

datatype page_op = GetPage | PutPage u32

text \<open>One successful call of \<open>getPage\<close> or \<open>putPage\<close>, by its operation.\<close>

inductive page_step :: "page_alloc \<Rightarrow> page_op \<Rightarrow> page_alloc \<Rightarrow> bool" where
  get: "getPage a = Inr (addr, a') \<Longrightarrow> page_step a GetPage a'"
| put: "putPage addr a = Some (Inr a') \<Longrightarrow> page_step a (PutPage addr) a'"

inductive_cases page_step_getE: "page_step a GetPage a'"
inductive_cases page_step_putE: "page_step a (PutPage addr) a'"

fun page_run :: "page_alloc \<Rightarrow> page_op list \<Rightarrow> page_alloc \<Rightarrow> bool" where
  "page_run a [] b \<longleftrightarrow> b = a"
| "page_run a (o1 # os) b \<longleftrightarrow> (\<exists>a'. page_step a o1 a' \<and> page_run a' os b)"

text \<open>The sentinels' masked address, which a caller of \<open>putPage\<close> must not pass.\<close>

definition sentinel_ok :: "page_alloc \<Rightarrow> bool" where
  "sentinel_ok a \<longleftrightarrow> address (store a (headM (usedPages a))) = Invalid"

lemma getAddress_sentinel:
  "sentinel_ok a \<Longrightarrow> getAddress (store a (headM (usedPages a))) = 0xFFFFF000"
  by (simp add: sentinel_ok_def getAddress_def Invalid_def AddressMask_def PageMask_def PageSize_def)

lemma page_step_repr:
  assumes "page_step a opn a'" "alloc_repr a us fs" "sentinel_ok a" "opn \<noteq> PutPage 0xFFFFF000"
  shows "\<exists>us' fs'. alloc_repr a' us' fs' \<and> sentinel_ok a' \<and>
    set us' \<union> set fs' = set us \<union> set fs \<and> (\<forall>x. address (store a' x) = address (store a x))"
proof (cases opn)
  case GetPage
  then obtain addr where g: "getPage a = Inr (addr, a')"
    using assms(1) by (auto elim: page_step_getE)
  obtain page fs' where fs: "fs = page # fs'"
    using g getPage_empty [of a us] assms(2) by (cases fs) auto
  obtain b where "getPage a = Inr (getAddress (store a page), b)"
    "alloc_repr b (page # us) fs'" "\<And>x. address (store b x) = address (store a x)"
    "headM (usedPages b) = headM (usedPages a)"
    using getPage_repr assms(2) fs by metis
  with g fs assms(3) show ?thesis
    by (intro exI [of _ "page # us"] exI [of _ fs']) (auto simp: sentinel_ok_def)
next
  case (PutPage addr)
  then have p: "putPage addr a = Some (Inr a')" using assms(1) by (auto elim: page_step_putE)
  have "\<exists>x \<in> set us. getAddress (store a x) = addr"
  proof (rule ccontr)
    assume "\<not> (\<exists>x \<in> set us. getAddress (store a x) = addr)"
    then have "cluster_find addr (usedPages a, store a) = None"
      using assms(2-4) PutPage getAddress_sentinel [OF assms(3)]
      by (intro cluster_find_absent) (auto simp: alloc_repr_def)
    with p show False by (simp add: putPage_def)
  qed
  then obtain us1 page us2 where us: "us = us1 @ page # us2" "getAddress (store a page) = addr"
    "\<forall>x \<in> set us1. getAddress (store a x) \<noteq> addr"
    using split_list_first_prop [of us "\<lambda>x. getAddress (store a x) = addr"] by auto
  obtain b where "putPage addr a = Some (Inr b)"
    "alloc_repr b (us1 @ us2) (page # fs)" "\<And>x. address (store b x) = address (store a x)"
    "headM (usedPages b) = headM (usedPages a)"
    using putPage_repr [of a us1 page us2 fs addr] assms(2) us by metis
  with p us assms(3) show ?thesis
    by (intro exI [of _ "us1 @ us2"] exI [of _ "page # fs"]) (auto simp: sentinel_ok_def)
qed

section \<open>Properties\<close>

text \<open>A concrete allocator: two sentinels, two free pages and no used one.\<close>

definition example_alloc :: page_alloc where
  "example_alloc = \<lparr>
     store = (\<lambda>_. \<lparr>prev = 0, next = 0, address = 0\<rparr>)
       (16 := \<lparr>prev = 16, next = 16, address = Invalid\<rparr>,
        32 := \<lparr>prev = 64, next = 48, address = Invalid\<rparr>,
        48 := \<lparr>prev = 32, next = 64, address = 0x1000\<rparr>,
        64 := \<lparr>prev = 48, next = 32, address = 0x2000\<rparr>),
     usedPages = \<lparr>headM = 16, countM = 0\<rparr>,
     freePages = \<lparr>headM = 32, countM = 2\<rparr>\<rparr>"

lemma example_alloc_repr: "alloc_repr example_alloc [] [48, 64]" "sentinel_ok example_alloc"
  by (simp_all add: alloc_repr_def cluster_repr_def clist_def example_alloc_def sentinel_ok_def)

text \<open>
  C1. \<open>Memory::getPage\<close>: as long as the free cluster is not empty, the call succeeds, hands
  out the first free page, whose descriptor becomes the first of the used cluster, keeps
  every other descriptor where it was and changes no physical address.
\<close>

theorem getPage_moves_first_free:
  assumes "alloc_repr a us (page # fs)"
  shows "\<exists>a'. getPage a = Inr (getAddress (store a page), a') \<and> alloc_repr a' (page # us) fs \<and>
    (\<forall>x. address (store a' x) = address (store a x))"
  using getPage_repr [OF assms] by metis

theorem getPage_moves_first_free_witness:
  "\<exists>a'. getPage example_alloc = Inr (0x1000, a') \<and> alloc_repr a' [48] [64]"
proof -
  have "getAddress (store example_alloc 48) = 0x1000"
    by (simp add: example_alloc_def getAddress_def AddressMask_def PageMask_def PageSize_def)
  then show ?thesis using getPage_moves_first_free [OF example_alloc_repr(1)] by auto
qed

text \<open>
  C2. Allocation and release are inverse: a page obtained by \<open>getPage\<close> and given back by
  \<open>putPage\<close> is again the first free page and the used cluster is as before.
\<close>

theorem getPage_putPage_roundtrip:
  assumes "alloc_repr a us (page # fs)"
  shows "\<exists>a1 a2. getPage a = Inr (getAddress (store a page), a1) \<and>
    putPage (getAddress (store a page)) a1 = Some (Inr a2) \<and> alloc_repr a2 us (page # fs)"
proof -
  obtain a1 where g: "getPage a = Inr (getAddress (store a page), a1)"
    and r: "alloc_repr a1 ([] @ page # us) fs" and ad: "\<And>x. address (store a1 x) = address (store a x)"
    using getPage_repr [OF assms] by (metis append_Nil)
  have "getAddress (store a1 page) = getAddress (store a page)" by (rule getAddress_cong) (rule ad)
  then obtain a2 where "putPage (getAddress (store a page)) a1 = Some (Inr a2)"
    "alloc_repr a2 us (page # fs)"
    using putPage_repr [OF r, of "getAddress (store a page)"] by (metis append_Nil empty_iff list.set(1))
  with g show ?thesis by blast
qed

theorem getPage_putPage_roundtrip_witness:
  "\<exists>a1 a2. getPage example_alloc = Inr (getAddress (store example_alloc 48), a1) \<and>
    putPage (getAddress (store example_alloc 48)) a1 = Some (Inr a2) \<and> alloc_repr a2 [] [48, 64]"
  by (rule getPage_putPage_roundtrip [OF example_alloc_repr(1)])

text \<open>
  C3. No sequence of successful \<open>getPage\<close> and \<open>putPage\<close> calls loses, duplicates or
  invents a page descriptor: the two clusters stay disjoint circular lists and their union
  stays the same (the address \<open>0xFFFFF000\<close>, which aliases the sentinel, excepted).
\<close>

theorem page_run_conserves:
  assumes "page_run a os b" "alloc_repr a us fs" "sentinel_ok a" "PutPage 0xFFFFF000 \<notin> set os"
  shows "\<exists>us' fs'. alloc_repr b us' fs' \<and> set us' \<union> set fs' = set us \<union> set fs"
  using assms
proof (induction os arbitrary: a us fs)
  case Nil
  then show ?case by auto
next
  case (Cons o1 os)
  then obtain a' where st: "page_step a o1 a'" and run: "page_run a' os b" by auto
  obtain us1 fs1 where r: "alloc_repr a' us1 fs1" "sentinel_ok a'"
    and u: "set us1 \<union> set fs1 = set us \<union> set fs"
    using page_step_repr [OF st Cons.prems(2,3)] Cons.prems(4) by auto
  have "PutPage 0xFFFFF000 \<notin> set os" using Cons.prems(4) by simp
  from Cons.IH [OF run r this] show ?case by (simp only: u)
qed

theorem page_run_conserves_witness:
  "\<exists>b us' fs'. page_run example_alloc [GetPage] b \<and> alloc_repr b us' fs' \<and>
    set us' \<union> set fs' = {48, 64}"
proof -
  obtain b where "getPage example_alloc = Inr (getAddress (store example_alloc 48), b)"
    using getPage_repr [OF example_alloc_repr(1)] by metis
  then have "page_run example_alloc [GetPage] b" by (auto intro: page_step.intros)
  with page_run_conserves [OF this example_alloc_repr] show ?thesis by auto
qed

text \<open>
  C4. Freeing an address that no used page has does not reach the panic that the code has for
  this case: the search compares page-aligned addresses with the all-ones sentinel value, so
  it never notices the end of the list, and \<open>Memory::putPage\<close> does not return. The one exception is
  the address \<open>0xFFFFF000\<close>, the aligned part of the sentinel's value: there the search finds the
  sentinel itself, and \<open>putPage\<close> returns. (The state is well-formed: two disjoint rings whose counts
  fit a word, and the sentinel of the used pages holds the value it was constructed with.)
\<close>

theorem putPage_unallocated_diverges:
  assumes "alloc_repr a us fs" "sentinel_ok a"
    and "\<forall>x \<in> set us. getAddress (store a x) \<noteq> addr"
  shows "(putPage addr a = None \<longleftrightarrow> addr \<noteq> 0xFFFFF000) \<and>
    (addr = 0xFFFFF000 \<longrightarrow> cluster_find addr (usedPages a, store a) = Some (headM (usedPages a)))"
proof -
  have u: "cluster_repr (usedPages a, store a) us" using assms(1) by (simp add: alloc_repr_def)
  note sent = getAddress_sentinel [OF assms(2)]
  show ?thesis
  proof (cases "addr = 0xFFFFF000")
    case True
    have "cluster_find addr (usedPages a, store a) = Some (headM (usedPages a))"
      using cluster_find_sentinel [OF u] sent assms(3) True by simp
    moreover have "headM (usedPages a) \<noteq> 0" using u by (simp add: cluster_repr_def clist_def)
    ultimately show ?thesis using True by (auto simp: putPage_def)
  next
    case False
    have "cluster_find addr (usedPages a, store a) = None"
      using assms(3) sent False by (intro cluster_find_absent [OF u]) auto
    then show ?thesis using False by (simp add: putPage_def)
  qed
qed

theorem putPage_unallocated_diverges_witness:
  "putPage 0x5000 example_alloc = None \<and> putPage 0xFFFFF000 example_alloc \<noteq> None"
  using putPage_unallocated_diverges [OF example_alloc_repr, of "0x5000"]
    putPage_unallocated_diverges [OF example_alloc_repr, of "0xFFFFF000"] by simp

end
