(* ===== verification/Paging.thy ===== *)
theory Paging
  imports Page_Allocator
begin

text \<open>
  The page tables of X86/PageDirectory.cc. The kernel edits them through the recursive entry
  1023 of the page directory: the directory appears at \<open>PageDirectoryBase\<close> and the page table
  of directory entry \<open>d\<close> at \<open>PageTableBase + d * 4096\<close>. The model has the physical memory (a
  32-bit word at every aligned physical address), the register \<open>cr3\<close> and the translation
  look-aside buffer as explicit state, and every access of the code to a table goes through
  the translation of the processor. Paging is as \<open>x86_init_paging\<close> sets it up: 4 KB pages only
  and no write protection in supervisor mode.
\<close>

section \<open>The processor\<close>

record machine =
  pmem :: "u32 \<Rightarrow> u32"
  cr3 :: u32
  tlb :: "u32 \<rightharpoonup> u32"
  pages :: page_alloc

definition Present :: u32 where "Present = 1"
definition Writable :: u32 where "Writable = 2"
definition User :: u32 where "User = 4"
definition DontCache :: u32 where "DontCache = 16"
definition Lazy :: u32 where "Lazy = 256"

definition FlagLazy :: u32 where "FlagLazy = 1"
definition FlagUncacheable :: u32 where "FlagUncacheable = 2"
definition FlagUser :: u32 where "FlagUser = 4"

definition PageTableBase :: u32 where "PageTableBase = 0xffc00000"
definition PageDirectoryBase :: u32 where "PageDirectoryBase = 0xfffff000"

definition addressToPdeIndex :: "u32 \<Rightarrow> u32" where
  "addressToPdeIndex a = drop_bit 22 a"

definition addressToPteIndex :: "u32 \<Rightarrow> u32" where
  "addressToPteIndex a = drop_bit 12 a AND 0x3ff"

definition addressToPde :: "u32 \<Rightarrow> u32 \<Rightarrow> u32" where
  "addressToPde a base = base + addressToPdeIndex a * 4"

definition addressToPte :: "u32 \<Rightarrow> u32 \<Rightarrow> u32" where
  "addressToPte a base = base + addressToPdeIndex a * 0x1000 + addressToPteIndex a * 4"

text \<open>The page and the offset of an address, and the entries of the two tables.\<close>

definition page_of :: "u32 \<Rightarrow> u32" where
  "page_of a = a AND NOT PageMask"

definition offset_of :: "u32 \<Rightarrow> u32" where
  "offset_of a = a AND PageMask"

definition pde_of :: "machine \<Rightarrow> u32 \<Rightarrow> u32" where
  "pde_of m a = pmem m (cr3 m + addressToPdeIndex a * 4)"

definition pte_of :: "machine \<Rightarrow> u32 \<Rightarrow> u32" where
  "pte_of m a = pmem m (page_of (pde_of m a) + addressToPteIndex a * 4)"

text \<open>The page walk, and the translation of an address with the look-aside buffer in front.\<close>

definition walk :: "machine \<Rightarrow> u32 \<Rightarrow> u32 option" where
  "walk m a =
     (if pde_of m a AND Present = 0 then None
      else if pte_of m a AND Present = 0 then None
      else Some (page_of (pte_of m a)))"

definition translate :: "machine \<Rightarrow> u32 \<Rightarrow> u32 option" where
  "translate m a =
     (case tlb m (page_of a) of
        Some f \<Rightarrow> Some (f + offset_of a)
      | None \<Rightarrow> map_option (\<lambda>f. f + offset_of a) (walk m a))"

definition invlpg :: "u32 \<Rightarrow> machine \<Rightarrow> machine" where
  "invlpg a m = m\<lparr>tlb := (tlb m)(page_of a := None)\<rparr>"

text \<open>The processor may enter a present translation into the buffer at any moment.\<close>

definition tlb_fill :: "u32 \<Rightarrow> machine \<Rightarrow> machine" where
  "tlb_fill a m = m\<lparr>tlb := (tlb m)(page_of a := walk m a)\<rparr>"

definition vread :: "u32 \<Rightarrow> machine \<Rightarrow> u32 res" where
  "vread a m = (case translate m a of None \<Rightarrow> Inl (PANIC ''page fault'') | Some p \<Rightarrow> Inr (pmem m p))"

definition vwrite :: "u32 \<Rightarrow> u32 \<Rightarrow> machine \<Rightarrow> machine res" where
  "vwrite a x m = (case translate m a of None \<Rightarrow> Inl (PANIC ''page fault'')
     | Some p \<Rightarrow> Inr (m\<lparr>pmem := (pmem m)(p := x)\<rparr>))"

text \<open>\<open>memset((void *)a, 0, 4 * n)\<close> on an aligned range.\<close>

fun vzero :: "nat \<Rightarrow> u32 \<Rightarrow> machine \<Rightarrow> machine res" where
  "vzero 0 a m = Inr m"
| "vzero (Suc n) a m = bindr (vwrite a 0 m) (vzero n (a + 4))"

section \<open>Operations\<close>

definition alloc_table :: "u32 \<Rightarrow> u32 \<Rightarrow> u32 \<Rightarrow> machine \<Rightarrow> machine res" where
  "alloc_table pdBase ptBase v m =
     (case getPage (pages m) of
        Inl e \<Rightarrow> Inl e
      | Inr (newPde, pg) \<Rightarrow>
          if newPde = 0 then Inl (KASSERT ''newPde != 0'')
          else
            bindr (vwrite (addressToPde v pdBase) (newPde OR (Present OR Writable)) (m\<lparr>pages := pg\<rparr>))
              (\<lambda>m. let newpte = addressToPte v ptBase AND NOT PageMask
                   in vzero 1024 newpte (invlpg newpte m)))"

definition pte_flags :: "u32 \<Rightarrow> u32" where
  "pte_flags flags =
     (let fl = Writable;
          fl = (if flags AND FlagUncacheable \<noteq> 0 then fl OR DontCache else fl);
          fl = (if flags AND FlagUser \<noteq> 0 then fl OR User else fl)
      in if flags AND FlagLazy \<noteq> 0 then fl OR Lazy else fl OR Present)"

definition set_user :: "u32 \<Rightarrow> u32 \<Rightarrow> u32 \<Rightarrow> machine \<Rightarrow> machine res" where
  "set_user pdBase v flags m =
     bindr (vread (addressToPde v pdBase) m)
       (\<lambda>pde. if flags AND FlagUser \<noteq> 0 \<and> pde AND User = 0
              then vwrite (addressToPde v pdBase) (pde OR User) m else Inr m)"

definition enter_page :: "u32 \<Rightarrow> u32 \<Rightarrow> u32 \<Rightarrow> u32 \<Rightarrow> machine \<Rightarrow> machine res" where
  "enter_page ptBase v p flags m =
     bindr (vread (addressToPte v ptBase) m)
       (\<lambda>pte. if pte AND Present \<noteq> 0
              then Inl (PANIC (if flags AND FlagLazy \<noteq> 0 then ''Trying to lazy map an already used address''
                               else ''Trying to map to an already used address''))
              else bindr (vwrite (addressToPte v ptBase) ((p AND NOT 0xfff) OR pte_flags flags) m)
                     (\<lambda>m. Inr (invlpg v m)))"

definition mapPage_at :: "u32 \<Rightarrow> u32 \<Rightarrow> u32 \<Rightarrow> u32 \<Rightarrow> u32 \<Rightarrow> machine \<Rightarrow> machine res" where
  "mapPage_at pdBase ptBase v p flags m =
     (if v AND PageMask \<noteq> 0 then Inl (KASSERT ''(vAddress & PageMask) == 0'')
      else if p AND PageMask \<noteq> 0 then Inl (KASSERT ''(pAddress & PageMask) == 0'')
      else
        bindr (vread (addressToPde v pdBase) m)
          (\<lambda>pde. bindr (if pde AND Present = 0 then alloc_table pdBase ptBase v m else Inr m)
          (\<lambda>m. bindr (set_user pdBase v flags m) (enter_page ptBase v p flags))))"

definition mapPage :: "u32 \<Rightarrow> u32 \<Rightarrow> u32 \<Rightarrow> machine \<Rightarrow> machine res" where
  "mapPage v p flags m = mapPage_at PageDirectoryBase PageTableBase v p flags m"

definition unmapPage :: "u32 \<Rightarrow> machine \<Rightarrow> machine res" where
  "unmapPage v m =
     (if v AND PageMask \<noteq> 0 then Inl (KASSERT ''(vAddress & PageMask) == 0'')
      else
        bindr (vread (addressToPde v PageDirectoryBase) m)
          (\<lambda>pde. if pde AND Present = 0
                 then Inl (PANIC ''Trying to unmap a not mapped page (invalid PDE)'')
                 else bindr (vread (addressToPte v PageTableBase) m)
                   (\<lambda>pte. if pte AND Present = 0
                          then Inl (PANIC ''Trying to unmap a not mapped page (invalid PTE)'')
                          else bindr (vwrite (addressToPte v PageTableBase) Writable m)
                            (\<lambda>m. Inr (invlpg v m)))))"

definition getPageTableEntry :: "u32 \<Rightarrow> machine \<Rightarrow> u32 res" where
  "getPageTableEntry v m =
     (if v AND PageMask \<noteq> 0 then Inl (KASSERT ''(vAddress & PageMask) == 0'')
      else
        bindr (vread (addressToPde v PageDirectoryBase) m)
          (\<lambda>pde. if pde AND Present = 0 then Inr 0 else vread (addressToPte v PageTableBase) m))"

definition getPhysicalPage :: "u32 \<Rightarrow> machine \<Rightarrow> u32 res" where
  "getPhysicalPage v m = bindr (getPageTableEntry v m) (\<lambda>e. Inr (e AND NOT PageMask))"

definition isMapped :: "u32 \<Rightarrow> machine \<Rightarrow> bool res" where
  "isMapped v m =
     (let v = v AND NOT PageMask
      in bindr (vread (addressToPde v PageDirectoryBase) m)
           (\<lambda>pde. if pde AND Present = 0 then Inr False
                  else bindr (vread (addressToPte v PageTableBase) m)
                         (\<lambda>pte. Inr (pte AND Present \<noteq> 0))))"

section \<open>Addresses\<close>

lemma PageMask_eq: "PageMask = mask 12"
  by (simp add: PageMask_def PageSize_def mask_eq_exp_minus_1)

lemma unat_offset_of: "unat (offset_of a) = unat a mod 4096"
  using unat_and_mask [of a 12] by (simp add: offset_of_def PageMask_eq)

lemma page_plus_offset: "page_of a + offset_of a = a"
  unfolding page_of_def offset_of_def PageMask_eq
  by (subst disjunctive_add) (auto simp: bit_simps intro!: bit_word_eqI)

lemma unat_page_of: "unat (page_of a) = unat a div 4096 * 4096"
proof -
  have "page_of a = a - offset_of a" using page_plus_offset [of a] by (simp add: eq_diff_eq)
  moreover have "offset_of a \<le> a"
    by (simp add: word_le_nat_alt unat_offset_of)
  ultimately have "unat (page_of a) = unat a - unat a mod 4096"
    by (simp add: unat_sub unat_offset_of)
  then show ?thesis by (simp add: minus_mod_eq_div_mult)
qed

lemma unat_pde_index: "unat (addressToPdeIndex a) = unat a div 2 ^ 22"
  by (simp add: addressToPdeIndex_def drop_bit_eq_div unat_div_distrib)

lemma unat_pte_index: "unat (addressToPteIndex a) = unat a div 4096 mod 1024"
proof -
  have "(0x3ff :: u32) = mask 10" by (simp add: mask_eq_exp_minus_1)
  then show ?thesis
    using unat_and_mask [of "drop_bit 12 a" 10]
    by (simp add: addressToPteIndex_def drop_bit_eq_div unat_div_distrib)
qed

lemma index_bounds: "unat (addressToPdeIndex a) < 1024" "unat (addressToPteIndex a) < 1024"
  using unat_u32_less [of a] by (simp_all add: unat_pde_index unat_pte_index)

lemma page_of_idem [simp]: "page_of (page_of a) = page_of a"
  by (simp add: word_unat_eq_iff unat_page_of)

lemma page_of_eq_iff: "page_of a = a \<longleftrightarrow> a AND PageMask = 0"
proof -
  have "a AND PageMask = 0 \<longleftrightarrow> unat a mod 4096 = 0"
    by (simp add: offset_of_def [symmetric] word_unat_eq_iff unat_offset_of)
  also have "\<dots> \<longleftrightarrow> page_of a = a"
    by (simp add: word_unat_eq_iff unat_page_of) (metis add_cancel_left_right div_mult_mod_eq)
  finally show ?thesis ..
qed

text \<open>An aligned address plus a small offset.\<close>

lemma unat_aligned_add:
  assumes "page_of f = f" "unat i < 4096"
  shows "unat (f + i) = unat f + unat i"
proof -
  have f: "unat f = unat f div 4096 * 4096" using unat_page_of [of f] assms(1) by simp
  have "unat f < 4096 * 1048576" using unat_u32_less [of f] by simp
  then have "unat f div 4096 < 1048576" by (simp add: less_mult_imp_div_less)
  then have "unat f + unat i < 4294967296" using f assms(2) by linarith
  then show ?thesis by (simp add: unat_word_ariths)
qed

lemma aligned_div_mod:
  assumes "page_of f = f" "unat i < 4096"
  shows "unat (f + i) div 4096 = unat f div 4096" "unat (f + i) mod 4096 = unat i"
proof -
  have f: "unat f = unat f div 4096 * 4096" using unat_page_of [of f] assms(1) by simp
  show "unat (f + i) div 4096 = unat f div 4096" "unat (f + i) mod 4096 = unat i"
    using assms(2) by (simp_all add: unat_aligned_add [OF assms]) (subst f; simp)+
qed

lemma page_of_add: "page_of f = f \<Longrightarrow> unat i < 4096 \<Longrightarrow> page_of (f + i) = f"
  using aligned_div_mod(1) [of f i] unat_page_of [of f]
  by (simp add: word_unat_eq_iff unat_page_of)

lemma offset_of_add: "page_of f = f \<Longrightarrow> unat i < 4096 \<Longrightarrow> offset_of (f + i) = i"
  using aligned_div_mod(2) [of f i] by (simp add: word_unat_eq_iff unat_offset_of)

lemma unat_mult4: "unat (i :: u32) < 1024 \<Longrightarrow> unat (i * 4) = unat i * 4"
  by (simp add: unat_word_ariths)

lemma entry_inject:
  assumes "page_of f = f" "page_of g = g" "unat i < 1024" "unat j < 1024"
  shows "f + i * 4 = g + j * 4 \<longleftrightarrow> f = g \<and> i = j"
proof
  assume eq: "f + i * 4 = g + j * 4"
  have "f = g"
    using page_of_add [OF assms(1), of "i * 4"] page_of_add [OF assms(2), of "j * 4"] assms(3,4)
    by (simp add: unat_mult4 eq)
  moreover have "i * 4 = j * 4" using eq calculation by simp
  then have "i = j" using unat_mult4 [OF assms(3)] unat_mult4 [OF assms(4)] by (simp add: word_unat_eq_iff)
  ultimately show "f = g \<and> i = j" by simp
qed simp

lemma nat_eq_div_mod: "k = l \<longleftrightarrow> k div 1024 = l div 1024 \<and> k mod 1024 = l mod (1024 :: nat)"
  by (metis div_mult_mod_eq)

lemma page_eq_iff:
  "page_of a = page_of b \<longleftrightarrow>
    addressToPdeIndex a = addressToPdeIndex b \<and> addressToPteIndex a = addressToPteIndex b"
proof -
  have div: "unat x div 2 ^ 22 = unat x div 4096 div 1024" for x :: u32
    using div_mult2_eq [of "unat x" 4096 1024] by simp
  have "page_of a = page_of b \<longleftrightarrow> unat a div 4096 = unat b div 4096"
    by (simp add: word_unat_eq_iff unat_page_of)
  also note nat_eq_div_mod
  finally show ?thesis
    by (simp only: word_unat_eq_iff unat_pde_index unat_pte_index div)
qed

lemma page_of_page_index [simp]:
  "addressToPdeIndex (page_of a) = addressToPdeIndex a" "addressToPteIndex (page_of a) = addressToPteIndex a"
  using page_eq_iff [of "page_of a" a] by simp_all

lemma page_of_or: "unat y < 4096 \<Longrightarrow> page_of (x OR y) = page_of x"
proof -
  assume "unat y < 4096"
  then have "page_of y = 0" by (simp add: word_unat_eq_iff unat_page_of)
  then show ?thesis by (simp add: page_of_def bit.conj_disj_distrib2)
qed

section \<open>The windows onto the tables\<close>

definition window :: "u32 \<Rightarrow> u32" where
  "window d = PageTableBase + d * 0x1000"

lemma addressToPte_window: "addressToPte a PageTableBase = window (addressToPdeIndex a) + addressToPteIndex a * 4"
  by (simp add: addressToPte_def window_def)

lemma unat_window: "unat d < 1024 \<Longrightarrow> unat (window d) = 0xffc00000 + unat d * 4096"
  by (simp add: window_def PageTableBase_def unat_word_ariths)

lemma window_aligned: "unat d < 1024 \<Longrightarrow> page_of (window d) = window d"
  by (simp add: word_unat_eq_iff unat_page_of unat_window)

lemma PageDirectoryBase_window: "PageDirectoryBase = window 1023"
  by (simp add: window_def PageDirectoryBase_def PageTableBase_def)

lemma window_index:
  assumes "unat d < 1024" "unat i < 4096"
  shows "addressToPdeIndex (window d + i) = 1023" "addressToPteIndex (window d + i) = d"
proof -
  have sum: "unat (window d + i) = 0xffc00000 + unat d * 4096 + unat i"
    using assms by (simp add: unat_aligned_add window_aligned unat_window)
  have "unat (window d + i) div 2 ^ 22 = 1023"
    unfolding sum using assms by (intro div_nat_eqI) simp_all
  then show "addressToPdeIndex (window d + i) = 1023"
    by (simp add: word_unat_eq_iff unat_pde_index)
  have "unat (window d + i) div 4096 = 1047552 + unat d"
    using aligned_div_mod(1) [OF window_aligned [OF assms(1)] assms(2)] assms(1) by (simp add: unat_window)
  also have "\<dots> = unat d + 1023 * 1024" by simp
  finally have "unat (window d + i) div 4096 mod 1024 = unat d"
    using assms(1) by (simp only: mod_mult_self1) simp
  then show "addressToPteIndex (window d + i) = d"
    by (simp only: word_unat_eq_iff unat_pte_index)
qed

section \<open>Well-formed tables\<close>

definition pd :: "machine \<Rightarrow> u32 \<Rightarrow> u32" where
  "pd m i = pmem m (cr3 m + i * 4)"

definition present :: "u32 \<Rightarrow> bool" where
  "present e \<longleftrightarrow> e AND Present \<noteq> 0"

lemma present_odd: "present e \<longleftrightarrow> odd e"
  by (simp add: present_def Present_def and_one_eq odd_iff_mod_2_eq_one)

text \<open>
  The directory is aligned, maps itself at entry 1023, and its other present entries
  refer to distinct tables, none of them the directory.
\<close>

definition dir_ok :: "machine \<Rightarrow> bool" where
  "dir_ok m \<longleftrightarrow>
     page_of (cr3 m) = cr3 m \<and> present (pd m 1023) \<and> page_of (pd m 1023) = cr3 m \<and>
     (\<forall>i < 1023. present (pd m i) \<longrightarrow> page_of (pd m i) \<noteq> cr3 m) \<and>
     (\<forall>i < 1023. \<forall>j < 1023. present (pd m i) \<longrightarrow> present (pd m j) \<longrightarrow>
        page_of (pd m i) = page_of (pd m j) \<longrightarrow> i = j)"

text \<open>What the look-aside buffer holds agrees with the tables.\<close>

definition coherent :: "machine \<Rightarrow> bool" where
  "coherent m \<longleftrightarrow> (\<forall>a f. tlb m a = Some f \<longrightarrow> page_of a = a \<and> walk m a = Some f)"

definition tables_ok :: "machine \<Rightarrow> bool" where
  "tables_ok m \<longleftrightarrow> dir_ok m \<and> coherent m"

text \<open>The physical pages that hold the directory and the tables.\<close>

definition table_frames :: "machine \<Rightarrow> u32 set" where
  "table_frames m = insert (cr3 m) ((\<lambda>i. page_of (pd m i)) ` {i. i < 1023 \<and> present (pd m i)})"

lemma table_frames_cong:
  "cr3 m' = cr3 m \<Longrightarrow> (\<And>i. i < 1023 \<Longrightarrow> pd m' i = pd m i) \<Longrightarrow> table_frames m' = table_frames m"
  unfolding table_frames_def by (intro arg_cong2 [where f = insert] image_cong) auto

lemma pde_of_pd: "pde_of m a = pd m (addressToPdeIndex a)"
  by (simp add: pde_of_def pd_def)

lemma walk_page [simp]: "walk m (page_of a) = walk m a"
  by (simp add: walk_def pde_of_def pte_of_def)

lemma walk_alt:
  "walk m a = (if present (pd m (addressToPdeIndex a)) \<and> present (pte_of m a)
     then Some (page_of (pte_of m a)) else None)"
  by (simp add: walk_def pde_of_pd present_def)

lemma translate_coherent:
  assumes "coherent m"
  shows "translate m a = map_option (\<lambda>f. f + offset_of a) (walk m a)"
proof (cases "tlb m (page_of a)")
  case (Some f)
  then have "walk m a = Some f" using assms unfolding coherent_def by (metis walk_page)
  then show ?thesis using Some by (simp add: translate_def)
qed (simp add: translate_def)

lemma tlb_fill_ok: "tables_ok m \<Longrightarrow> tables_ok (tlb_fill a m)"
  by (auto simp: tables_ok_def dir_ok_def coherent_def tlb_fill_def pd_def walk_def pde_of_def pte_of_def
    split: if_splits)

text \<open>Through the recursive entry, the page walk for a window ends at the table.\<close>

lemma walk_window:
  assumes "dir_ok m" "unat d < 1024" "unat i < 4096"
  shows "walk m (window d + i) = (if present (pd m d) then Some (page_of (pd m d)) else None)"
proof -
  have "pte_of m (window d + i) = pd m d"
    using assms by (simp add: pte_of_def pde_of_pd window_index dir_ok_def pd_def)
  then show ?thesis
    using assms by (simp add: walk_alt window_index dir_ok_def)
qed

lemma translate_pde:
  assumes "tables_ok m"
  shows "translate m (addressToPde a PageDirectoryBase) = Some (cr3 m + addressToPdeIndex a * 4)"
proof -
  let ?i = "addressToPdeIndex a * 4"
  have i: "unat ?i < 4096" using index_bounds(1) [of a] by (simp add: unat_mult4)
  have "walk m (window 1023 + ?i) = Some (cr3 m)"
    using assms i by (subst walk_window) (simp_all add: tables_ok_def dir_ok_def)
  then show ?thesis
    using assms i offset_of_add [of "window 1023" ?i]
    by (simp add: translate_coherent tables_ok_def addressToPde_def PageDirectoryBase_window window_aligned)
qed

lemma translate_pte:
  assumes "tables_ok m" "present (pde_of m a)"
  shows "translate m (addressToPte a PageTableBase) = Some (page_of (pde_of m a) + addressToPteIndex a * 4)"
proof -
  let ?d = "addressToPdeIndex a" and ?i = "addressToPteIndex a * 4"
  have i: "unat ?d < 1024" "unat ?i < 4096" using index_bounds [of a] by (simp_all add: unat_mult4)
  have "walk m (window ?d + ?i) = Some (page_of (pde_of m a))"
    using assms i by (subst walk_window) (simp_all add: tables_ok_def pde_of_pd)
  then show ?thesis
    using assms i offset_of_add [of "window ?d" ?i]
    by (simp add: translate_coherent tables_ok_def addressToPte_window window_aligned)
qed

lemma vread_pde: "tables_ok m \<Longrightarrow> vread (addressToPde a PageDirectoryBase) m = Inr (pde_of m a)"
  by (simp add: vread_def translate_pde pde_of_def)

lemma vread_pte:
  "tables_ok m \<Longrightarrow> present (pde_of m a) \<Longrightarrow> vread (addressToPte a PageTableBase) m = Inr (pte_of m a)"
  by (simp add: vread_def translate_pte pte_of_def)

section \<open>Effect of writing an entry\<close>

lemma pde_index_cases: "addressToPdeIndex a = 1023 \<or> addressToPdeIndex a < 1023"
  using index_bounds(1) [of a] by (auto simp: word_less_nat_alt word_unat_eq_iff)

lemma less_1023: "i < (1023 :: u32) \<Longrightarrow> unat i < 1024"
  by (simp add: word_less_nat_alt)

lemma dir_ok_cong:
  assumes "dir_ok m" "cr3 m' = cr3 m" "\<And>i. unat i < 1024 \<Longrightarrow> pd m' i = pd m i"
  shows "dir_ok m'"
proof -
  have "pd m' 1023 = pd m 1023" using assms(3) by simp
  moreover have "pd m' i = pd m i" if "i < 1023" for i using assms(3) less_1023 that by simp
  ultimately show ?thesis using assms(1,2) unfolding dir_ok_def by metis
qed

text \<open>Two present directory entries with the same table are the same entry.\<close>

lemma table_unique:
  assumes "dir_ok m" "present (pde_of m a)" "present (pde_of m b)" "addressToPdeIndex b \<noteq> 1023"
  shows "page_of (pde_of m a) = page_of (pde_of m b) \<longleftrightarrow> addressToPdeIndex a = addressToPdeIndex b"
proof
  assume eq: "page_of (pde_of m a) = page_of (pde_of m b)"
  have b: "addressToPdeIndex b < 1023" using pde_index_cases [of b] assms(4) by simp
  then have "page_of (pde_of m b) \<noteq> cr3 m" using assms(1,3) by (simp add: dir_ok_def pde_of_pd)
  then have "addressToPdeIndex a \<noteq> 1023" using eq assms(1) by (auto simp: dir_ok_def pde_of_pd)
  then have "addressToPdeIndex a < 1023" using pde_index_cases [of a] by simp
  then show "addressToPdeIndex a = addressToPdeIndex b"
    using b eq assms(1-3) by (simp add: dir_ok_def pde_of_pd)
qed (simp add: pde_of_pd)

definition set_pte :: "u32 \<Rightarrow> u32 \<Rightarrow> machine \<Rightarrow> machine" where
  "set_pte v x m = m\<lparr>pmem := (pmem m)(page_of (pde_of m v) + addressToPteIndex v * 4 := x)\<rparr>"

lemma set_pte_simps [simp]:
  "cr3 (set_pte v x m) = cr3 m" "tlb (set_pte v x m) = tlb m" "pages (set_pte v x m) = pages m"
  by (simp_all add: set_pte_def)

lemma vwrite_pte:
  "tables_ok m \<Longrightarrow> present (pde_of m v) \<Longrightarrow> vwrite (addressToPte v PageTableBase) x m = Inr (set_pte v x m)"
  by (simp add: vwrite_def translate_pte set_pte_def)

lemma pd_set_pte:
  assumes "dir_ok m" "present (pde_of m v)" "addressToPdeIndex v \<noteq> 1023" "unat i < 1024"
  shows "pd (set_pte v x m) i = pd m i"
proof -
  have "page_of (pde_of m v) \<noteq> cr3 m"
    using assms(1-3) pde_index_cases [of v] by (simp add: dir_ok_def pde_of_pd)
  then have "cr3 m + i * 4 \<noteq> page_of (pde_of m v) + addressToPteIndex v * 4"
    using assms entry_inject [of "cr3 m" "page_of (pde_of m v)" i "addressToPteIndex v"] index_bounds(2) [of v]
    by (simp add: dir_ok_def)
  then show ?thesis by (simp add: set_pte_def pd_def)
qed

lemma pte_of_set_pte:
  assumes "dir_ok m" "present (pde_of m v)" "addressToPdeIndex v \<noteq> 1023" "present (pde_of m a)"
  shows "pte_of (set_pte v x m) a = (if page_of a = page_of v then x else pte_of m a)"
proof -
  have "page_of (pde_of m a) + addressToPteIndex a * 4 = page_of (pde_of m v) + addressToPteIndex v * 4
      \<longleftrightarrow> page_of a = page_of v"
    using index_bounds(2) [of a] index_bounds(2) [of v] table_unique [OF assms(1,4,2,3)]
    by (simp add: entry_inject page_eq_iff)
  moreover have "pde_of (set_pte v x m) a = pde_of m a"
    using pd_set_pte [OF assms(1-3) index_bounds(1)] by (simp add: pde_of_pd)
  ultimately show ?thesis by (simp add: pte_of_def) (simp add: set_pte_def)
qed

lemma walk_set_pte:
  assumes "dir_ok m" "present (pde_of m v)" "addressToPdeIndex v \<noteq> 1023"
  shows "walk (set_pte v x m) a =
    (if page_of a = page_of v then if present x then Some (page_of x) else None else walk m a)"
proof -
  have pd: "pd (set_pte v x m) (addressToPdeIndex a) = pd m (addressToPdeIndex a)"
    by (rule pd_set_pte [OF assms index_bounds(1)])
  have v: "present (pd m (addressToPdeIndex a))" if "page_of a = page_of v"
    using that assms(2) by (simp add: page_eq_iff pde_of_pd)
  show ?thesis
    using pte_of_set_pte [OF assms, of a x] v by (auto simp: walk_alt pd pde_of_pd split: if_splits)
qed

text \<open>Writing the entry of a page and invalidating the page keeps the tables well-formed.\<close>

lemma walk_invlpg [simp]: "walk (invlpg v m) a = walk m a"
  by (simp add: walk_def pde_of_def pte_of_def invlpg_def)

lemma pd_invlpg [simp]: "pd (invlpg v m) i = pd m i"
  by (simp add: pd_def invlpg_def)

lemma invlpg_simps [simp]: "cr3 (invlpg v m) = cr3 m" "pages (invlpg v m) = pages m" "pmem (invlpg v m) = pmem m"
  by (simp_all add: invlpg_def)

lemma set_pte_ok:
  assumes "tables_ok m" "present (pde_of m v)" "addressToPdeIndex v \<noteq> 1023"
  shows "tables_ok (invlpg v (set_pte v x m))"
proof -
  have dir: "dir_ok m" using assms(1) by (simp add: tables_ok_def)
  have "dir_ok (invlpg v (set_pte v x m))"
    by (rule dir_ok_cong [OF dir]) (simp_all add: pd_set_pte [OF dir assms(2,3)])
  moreover have "coherent (invlpg v (set_pte v x m))"
    unfolding coherent_def
  proof (intro allI impI)
    fix a f
    assume "tlb (invlpg v (set_pte v x m)) a = Some f"
    then have "tlb m a = Some f" "a \<noteq> page_of v" by (auto simp: invlpg_def split: if_splits)
    then show "page_of a = a \<and> walk (invlpg v (set_pte v x m)) a = Some f"
      using assms(1) walk_set_pte [OF dir assms(2,3)] by (auto simp: tables_ok_def coherent_def)
  qed
  ultimately show ?thesis by (simp add: tables_ok_def)
qed

lemma table_frames_set_pte:
  assumes "dir_ok m" "present (pde_of m v)" "addressToPdeIndex v \<noteq> 1023"
  shows "table_frames (invlpg v (set_pte v x m)) = table_frames m"
  by (rule table_frames_cong) (simp_all add: pd_set_pte [OF assms less_1023])

text \<open>Writing a directory entry.\<close>

definition set_pde :: "u32 \<Rightarrow> u32 \<Rightarrow> machine \<Rightarrow> machine" where
  "set_pde v x m = m\<lparr>pmem := (pmem m)(cr3 m + addressToPdeIndex v * 4 := x)\<rparr>"

lemma set_pde_simps [simp]:
  "cr3 (set_pde v x m) = cr3 m" "tlb (set_pde v x m) = tlb m" "pages (set_pde v x m) = pages m"
  by (simp_all add: set_pde_def)

lemma vwrite_pde:
  "tables_ok m \<Longrightarrow> vwrite (addressToPde v PageDirectoryBase) x m = Inr (set_pde v x m)"
  by (simp add: vwrite_def translate_pde set_pde_def)

lemma pd_set_pde:
  assumes "dir_ok m" "unat i < 1024"
  shows "pd (set_pde v x m) i = (if i = addressToPdeIndex v then x else pd m i)"
  using assms entry_inject [of "cr3 m" "cr3 m" i "addressToPdeIndex v"] index_bounds(1) [of v]
  by (simp add: set_pde_def pd_def dir_ok_def)

text \<open>A frame outside the directory keeps its words.\<close>

lemma pmem_set_pde:
  assumes "dir_ok m" "page_of f = f" "f \<noteq> cr3 m" "unat i < 1024"
  shows "pmem (set_pde v x m) (f + i * 4) = pmem m (f + i * 4)"
  using assms entry_inject [of f "cr3 m" i "addressToPdeIndex v"] index_bounds(1) [of v]
  by (simp add: set_pde_def dir_ok_def)

text \<open>Setting flag bits of a present entry changes no translation.\<close>

lemma set_pde_flags:
  assumes "tables_ok m" "present (pde_of m v)" "unat y < 4096"
  defines "m' \<equiv> set_pde v (pde_of m v OR y) m"
  shows "tables_ok m'" "walk m' a = walk m a" "table_frames m' = table_frames m" "present (pde_of m' v)"
proof -
  have dir: "dir_ok m" using assms(1) by (simp add: tables_ok_def)
  have pr: "present (pde_of m v OR y)"
    using assms(2) by (simp add: present_odd even_or_iff)
  have pg: "page_of (pde_of m v OR y) = page_of (pde_of m v)" by (rule page_of_or [OF assms(3)])
  have pd: "present (pd m' i) = present (pd m i)" "page_of (pd m' i) = page_of (pd m i)" if "unat i < 1024" for i
    using that pd_set_pde [OF dir that, of v] pr pg assms(2) by (auto simp: m'_def pde_of_pd)
  have "present (pd m' 1023)" "page_of (pd m' 1023) = cr3 m"
    using pd [of 1023] dir by (simp_all add: dir_ok_def)
  moreover have cr: "cr3 m' = cr3 m" by (simp add: m'_def)
  ultimately have dir': "dir_ok m'"
    using dir pd [OF less_1023] unfolding dir_ok_def by simp
  show "present (pde_of m' v)" using pr by (simp add: m'_def set_pde_def pde_of_def)
  show "table_frames m' = table_frames m"
    unfolding table_frames_def using pd less_1023
    by (intro arg_cong2 [where f = insert] image_cong) (auto simp: m'_def)
  have walk: "walk m' a = walk m a" for a
  proof (cases "present (pd m (addressToPdeIndex a))")
    case pra: True
    show ?thesis
    proof (cases "addressToPdeIndex a = 1023")
      case True
      then have "pte_of m' a = pd m' (addressToPteIndex a)" "pte_of m a = pd m (addressToPteIndex a)"
        using dir dir' by (simp_all add: pte_of_def pde_of_pd dir_ok_def pd_def)
      then show ?thesis using pd [OF index_bounds(1)] pd [OF index_bounds(2)] by (simp add: walk_alt)
    next
      case False
      then have "page_of (pd m (addressToPdeIndex a)) \<noteq> cr3 m"
        using pra dir pde_index_cases [of a] by (simp add: dir_ok_def)
      then have "pte_of m' a = pte_of m a"
        using pd(2) [OF index_bounds(1)] pmem_set_pde [OF dir _ _ index_bounds(2), of "page_of (pde_of m a)"]
        by (simp add: pte_of_def pde_of_pd m'_def)
      then show ?thesis using pd [OF index_bounds(1)] by (simp add: walk_alt)
    qed
  qed (use pd [OF index_bounds(1)] in \<open>simp add: walk_alt\<close>)
  show "walk m' a = walk m a" by (rule walk)
  show "tables_ok m'"
    using dir' assms(1) walk by (simp add: tables_ok_def coherent_def) (simp add: m'_def)
qed

section \<open>A new page table\<close>

definition zeroed :: "u32 \<Rightarrow> nat \<Rightarrow> nat \<Rightarrow> (u32 \<Rightarrow> u32) \<Rightarrow> u32 \<Rightarrow> u32" where
  "zeroed f k n pm = (\<lambda>p. if p \<in> (\<lambda>i. f + of_nat i * 4) ` {k..<k + n} then 0 else pm p)"

lemma zeroed_0 [simp]: "zeroed f k 0 pm = pm"
  by (simp add: zeroed_def)

lemma zeroed_Suc: "zeroed f (Suc k) n (pm(f + of_nat k * 4 := 0)) = zeroed f k (Suc n) pm"
proof -
  have "{k..<k + Suc n} = insert k {Suc k..<Suc k + n}" by auto
  then show ?thesis by (simp add: zeroed_def fun_eq_iff)
qed

lemma zeroed_other:
  assumes "page_of f = f" "page_of g = g" "f \<noteq> g" "unat i < 1024"
  shows "zeroed f 0 1024 pm (g + i * 4) = pm (g + i * 4)"
proof -
  have "g + i * 4 \<notin> (\<lambda>i. f + of_nat i * 4) ` {0..<0 + 1024}"
  proof
    assume "g + i * 4 \<in> (\<lambda>i. f + of_nat i * 4) ` {0..<0 + 1024}"
    then obtain j where j: "g + i * 4 = f + of_nat j * 4" "j < 1024" by (elim imageE) simp
    then show False using entry_inject [of g f i "of_nat j"] assms by (simp add: unat_of_nat)
  qed
  then show ?thesis by (simp add: zeroed_def)
qed

lemma zeroed_same:
  assumes "unat i < 1024"
  shows "zeroed f 0 1024 pm (f + i * 4) = 0"
proof -
  have "f + i * 4 \<in> (\<lambda>i. f + of_nat i * 4) ` {0..<0 + 1024}"
    using assms by (intro image_eqI [of _ _ "unat i"]) simp_all
  then show ?thesis by (simp add: zeroed_def)
qed

lemma pd_upd_frame:
  assumes "dir_ok m" "page_of f = f" "f \<noteq> cr3 m" "unat k < 1024" "unat i < 1024"
  shows "pd (m\<lparr>pmem := (pmem m)(f + k * 4 := x)\<rparr>) i = pd m i"
  using assms entry_inject [of "cr3 m" f i k] by (simp add: pd_def dir_ok_def)

lemma vzero_window:
  assumes "dir_ok m" "unat d < 1024" "present (pd m d)" "page_of (pd m d) = f" "f \<noteq> cr3 m"
    "tlb m (window d) = None" "k + n \<le> 1024"
  shows "vzero n (window d + of_nat k * 4) m = Inr (m\<lparr>pmem := zeroed f k n (pmem m)\<rparr>)"
  using assms
proof (induction n arbitrary: k m)
  case (Suc n)
  have k: "unat (of_nat k :: u32) < 1024" "unat (of_nat k * 4 :: u32) < 4096"
    using Suc.prems(7) by (simp_all add: unat_of_nat unat_mult4)
  have f: "page_of f = f" using Suc.prems(4) by (metis page_of_idem)
  let ?m = "m\<lparr>pmem := (pmem m)(f + of_nat k * 4 := 0)\<rparr>"
  have "translate m (window d + of_nat k * 4) = Some (f + of_nat k * 4)"
    using Suc.prems(2-6) k page_of_add [OF window_aligned [OF Suc.prems(2)] k(2)]
      offset_of_add [OF window_aligned [OF Suc.prems(2)] k(2)] walk_window [OF Suc.prems(1,2) k(2)]
    by (simp add: translate_def)
  then have w: "vwrite (window d + of_nat k * 4) 0 m = Inr ?m" by (simp add: vwrite_def)
  have pd: "pd ?m i = pd m i" if "unat i < 1024" for i
    using pd_upd_frame [OF Suc.prems(1) f Suc.prems(5) k(1) that] .
  have "vzero n (window d + of_nat (Suc k) * 4) ?m = Inr (?m\<lparr>pmem := zeroed f (Suc k) n (pmem ?m)\<rparr>)"
  proof (rule Suc.IH)
    show "dir_ok ?m" by (rule dir_ok_cong [OF Suc.prems(1)]) (simp_all add: pd)
  qed (use Suc.prems pd in simp_all)
  then show ?case
    using w zeroed_Suc [of f k n "pmem m"] by (simp add: bindr_def algebra_simps)
qed simp

text \<open>
  The state after the directory entry of \<open>v\<close> has been pointed at the zeroed frame \<open>f\<close>.
\<close>

definition with_table :: "u32 \<Rightarrow> u32 \<Rightarrow> machine \<Rightarrow> machine" where
  "with_table v f m =
     (let m = invlpg (window (addressToPdeIndex v)) (set_pde v (f OR (Present OR Writable)) m)
      in m\<lparr>pmem := zeroed f 0 1024 (pmem m)\<rparr>)"

lemma with_table_simps [simp]:
  "cr3 (with_table v f m) = cr3 m" "pages (with_table v f m) = pages m"
  by (simp_all add: with_table_def Let_def)

lemma tlb_with_table: "tlb (with_table v f m) a = Some g \<Longrightarrow> tlb m a = Some g"
  by (auto simp: with_table_def Let_def invlpg_def split: if_splits)

lemma new_entry:
  assumes "page_of f = f"
  shows "present (f OR (Present OR Writable))" "page_of (f OR (Present OR Writable)) = f"
  using assms page_of_or [of "Present OR Writable" f]
  by (simp_all add: present_odd even_or_iff Present_def Writable_def)

lemma pd_with_table:
  assumes "dir_ok m" "page_of f = f" "f \<noteq> cr3 m" "unat i < 1024"
  shows "pd (with_table v f m) i = (if i = addressToPdeIndex v then f OR (Present OR Writable) else pd m i)"
  using assms pd_set_pde [OF assms(1,4), of v] zeroed_other [OF assms(2), of "cr3 m" i]
  by (simp add: with_table_def Let_def pd_def dir_ok_def)

lemma dir_ok_with_table:
  assumes "dir_ok m" "page_of f = f" "f \<notin> table_frames m" "addressToPdeIndex v < 1023"
  shows "dir_ok (with_table v f m)"
proof -
  have cr: "f \<noteq> cr3 m" and fr: "\<And>i. i < 1023 \<Longrightarrow> present (pd m i) \<Longrightarrow> page_of (pd m i) \<noteq> f"
    using assms(3) by (auto simp: table_frames_def)
  have pd: "pd (with_table v f m) i = (if i = addressToPdeIndex v then f OR (Present OR Writable) else pd m i)"
    if "i < 1023 \<or> i = 1023" for i
    using that less_1023 [of i] by (intro pd_with_table [OF assms(1,2) cr]) auto
  have "pd (with_table v f m) 1023 = pd m 1023" using pd [of 1023] assms(4) by auto
  then show ?thesis
    using assms(1,4) cr fr new_entry [OF assms(2)] unfolding dir_ok_def
    by (simp add: pd) (metis (no_types, lifting))
qed

lemma table_frames_with_table:
  assumes "dir_ok m" "page_of f = f" "f \<noteq> cr3 m" "addressToPdeIndex v < 1023" "\<not> present (pde_of m v)"
  shows "table_frames (with_table v f m) = insert f (table_frames m)"
proof -
  let ?d = "addressToPdeIndex v"
  have pd: "pd (with_table v f m) i = (if i = ?d then f OR (Present OR Writable) else pd m i)" if "i < 1023" for i
    by (rule pd_with_table [OF assms(1-3) less_1023 [OF that]])
  have "{i. i < 1023 \<and> present (pd (with_table v f m) i)} = insert ?d {i. i < 1023 \<and> present (pd m i)}"
    using assms(4) new_entry [OF assms(2)] pd by auto
  moreover have "(\<lambda>i. page_of (pd (with_table v f m) i)) ` {i. i < 1023 \<and> present (pd m i)} =
      (\<lambda>i. page_of (pd m i)) ` {i. i < 1023 \<and> present (pd m i)}"
    using assms(5) pd by (intro image_cong) (auto simp: pde_of_pd)
  ultimately show ?thesis
    using pd [OF assms(4)] new_entry [OF assms(2)] by (simp add: table_frames_def insert_commute)
qed

lemma walk_with_table:
  assumes "dir_ok m" "page_of f = f" "f \<notin> table_frames m" "addressToPdeIndex v < 1023" "\<not> present (pde_of m v)"
    and a: "addressToPdeIndex a \<noteq> 1023 \<or> addressToPteIndex a \<noteq> addressToPdeIndex v"
  shows "walk (with_table v f m) a = walk m a"
proof -
  let ?m = "with_table v f m" and ?d = "addressToPdeIndex v"
  have cr: "f \<noteq> cr3 m" using assms(3) by (simp add: table_frames_def)
  have pd: "pd ?m i = (if i = ?d then f OR (Present OR Writable) else pd m i)" if "unat i < 1024" for i
    by (rule pd_with_table [OF assms(1,2) cr that])
  note pda = pd [OF index_bounds(1) [of a]]
  consider "addressToPdeIndex a = ?d" | "addressToPdeIndex a = 1023" "addressToPteIndex a \<noteq> ?d"
    | "addressToPdeIndex a \<noteq> ?d" "addressToPdeIndex a < 1023"
    using a pde_index_cases [of a] by blast
  then show ?thesis
  proof cases
    case 1
    then have "pte_of ?m a = 0"
      using new_entry [OF assms(2)] pda zeroed_same [OF index_bounds(2)]
      by (simp add: pte_of_def pde_of_pd) (simp add: with_table_def Let_def)
    then show ?thesis using 1 assms(5) by (simp add: walk_alt present_odd pde_of_pd)
  next
    case 2
    then have "pd ?m 1023 = pd m 1023" using pd [of 1023] assms(4) by auto
    then have "pte_of ?m a = pte_of m a"
      using 2 assms(1) pd [OF index_bounds(2) [of a]] by (simp add: pte_of_def pde_of_pd dir_ok_def pd_def)
    then show ?thesis using 2 \<open>pd ?m 1023 = pd m 1023\<close> by (simp add: walk_alt)
  next
    case 3
    show ?thesis
    proof (cases "present (pd m (addressToPdeIndex a))")
      case True
      let ?g = "page_of (pd m (addressToPdeIndex a))"
      have g: "?g \<noteq> f" "?g \<noteq> cr3 m" using True 3 assms(1,3) by (auto simp: table_frames_def dir_ok_def)
      then have "pte_of ?m a = pte_of m a"
        using 3 pda zeroed_other [OF assms(2), of ?g] pmem_set_pde [OF assms(1) _ g(2) index_bounds(2)]
          index_bounds(2) [of a]
        by (simp add: pte_of_def pde_of_pd) (simp add: with_table_def Let_def)
      then show ?thesis using 3 pda by (simp add: walk_alt)
    qed (use 3 pda in \<open>simp add: walk_alt\<close>)
  qed
qed

lemma tables_ok_with_table:
  assumes "tables_ok m" "page_of f = f" "f \<notin> table_frames m" "addressToPdeIndex v < 1023" "\<not> present (pde_of m v)"
  shows "tables_ok (with_table v f m)"
proof -
  have dir: "dir_ok m" and coh: "coherent m" using assms(1) by (simp_all add: tables_ok_def)
  have "coherent (with_table v f m)"
    unfolding coherent_def
  proof (intro allI impI)
    fix a g
    assume "tlb (with_table v f m) a = Some g"
    then have "tlb m a = Some g" by (rule tlb_with_table)
    then have a: "page_of a = a" "walk m a = Some g" using coh by (simp_all add: coherent_def)
    have "addressToPdeIndex a \<noteq> 1023 \<or> addressToPteIndex a \<noteq> addressToPdeIndex v"
    proof (rule ccontr)
      assume "\<not> ?thesis"
      then have "walk m a = None"
        using assms(5) dir by (simp add: walk_alt pte_of_def pde_of_pd dir_ok_def pd_def)
      then show False using a(2) by simp
    qed
    then show "page_of a = a \<and> walk (with_table v f m) a = Some g"
      using walk_with_table [OF dir assms(2-5)] a by simp
  qed
  then show ?thesis using dir_ok_with_table [OF dir assms(2-4)] by (simp add: tables_ok_def)
qed

lemma tables_ok_pages [simp]: "tables_ok (m\<lparr>pages := pg\<rparr>) = tables_ok m"
  by (simp add: tables_ok_def dir_ok_def coherent_def pd_def walk_def pde_of_def pte_of_def)

lemma table_frames_pages [simp]: "table_frames (m\<lparr>pages := pg\<rparr>) = table_frames m"
  by (simp add: table_frames_def pd_def)

lemma walk_pages [simp]: "walk (m\<lparr>pages := pg\<rparr>) a = walk m a"
  by (simp add: walk_def pde_of_def pte_of_def)

lemma pde_of_pages [simp]: "pde_of (m\<lparr>pages := pg\<rparr>) a = pde_of m a"
  by (simp add: pde_of_def)

lemma alloc_table_eq:
  assumes ok: "tables_ok m" and pg: "getPage (pages m) = Inr (f, pg)" "f \<noteq> 0" "page_of f = f" "f \<notin> table_frames m"
    and v: "addressToPdeIndex v < 1023"
  shows "alloc_table PageDirectoryBase PageTableBase v m = Inr (with_table v f (m\<lparr>pages := pg\<rparr>))"
proof -
  let ?d = "addressToPdeIndex v" and ?x = "f OR (Present OR Writable)"
  let ?m = "set_pde v ?x (m\<lparr>pages := pg\<rparr>)"
  have dir: "dir_ok (m\<lparr>pages := pg\<rparr>)" using ok by (metis tables_ok_pages tables_ok_def)
  have cr: "f \<noteq> cr3 m" and fr: "\<And>i. i < 1023 \<Longrightarrow> present (pd m i) \<Longrightarrow> page_of (pd m i) \<noteq> f"
    using pg(4) by (auto simp: table_frames_def)
  have page: "addressToPte v PageTableBase AND NOT PageMask = window ?d"
    using page_of_add [OF window_aligned [OF index_bounds(1)], of "addressToPteIndex v * 4" v] index_bounds(2) [of v]
    by (simp add: page_of_def [symmetric] addressToPte_window unat_mult4)
  have pd: "pd (invlpg (window ?d) ?m) i = (if i = ?d then ?x else pd (m\<lparr>pages := pg\<rparr>) i)" if "unat i < 1024" for i
    using pd_set_pde [OF dir that] by simp
  have "vzero 1024 (window ?d + of_nat 0 * 4) (invlpg (window ?d) ?m) =
      Inr ((invlpg (window ?d) ?m)\<lparr>pmem := zeroed f 0 1024 (pmem (invlpg (window ?d) ?m))\<rparr>)"
  proof (rule vzero_window [OF _ index_bounds(1)])
    have "pd (invlpg (window ?d) ?m) i = (if i = ?d then ?x else pd (m\<lparr>pages := pg\<rparr>) i)" if "i < 1023" for i
      by (rule pd [OF less_1023 [OF that]])
    moreover have "pd (invlpg (window ?d) ?m) 1023 = pd (m\<lparr>pages := pg\<rparr>) 1023" using pd [of 1023] v by auto
    ultimately show "dir_ok (invlpg (window ?d) ?m)"
      using dir v cr fr new_entry [OF pg(3)] unfolding dir_ok_def
      by (simp add: pd_def [of "m\<lparr>pages := pg\<rparr>"] pd_def [of m]) (metis (no_types, lifting))
  qed (use pd [OF index_bounds(1)] new_entry [OF pg(3)] cr window_aligned [OF index_bounds(1)] in
      \<open>simp_all add: invlpg_def\<close>)
  then show ?thesis
    using ok pg(1,2) by (simp add: alloc_table_def bindr_def vwrite_pde page with_table_def Let_def)
qed

section \<open>Mapping and unmapping a page\<close>

lemma pte_flags_small: "unat (pte_flags flags) < 4096"
  by (simp add: pte_flags_def Writable_def DontCache_def User_def Lazy_def Present_def Let_def)

lemma pte_flags_present: "odd (pte_flags flags) \<longleftrightarrow> flags AND FlagLazy = 0"
  by (simp add: pte_flags_def Writable_def DontCache_def User_def Lazy_def Present_def Let_def even_or_iff)

lemma page_entry:
  assumes "page_of p = p"
  shows "page_of ((p AND NOT 0xfff) OR pte_flags flags) = p"
    "present ((p AND NOT 0xfff) OR pte_flags flags) \<longleftrightarrow> flags AND FlagLazy = 0"
proof -
  have p: "p AND NOT 0xfff = p" using assms by (simp add: page_of_def PageMask_def PageSize_def)
  have "even (page_of p)" by (simp add: page_of_def PageMask_def PageSize_def even_and_iff)
  then have "even p" using assms by simp
  then show "page_of ((p AND NOT 0xfff) OR pte_flags flags) = p"
    "present ((p AND NOT 0xfff) OR pte_flags flags) \<longleftrightarrow> flags AND FlagLazy = 0"
    unfolding p by (simp_all add: page_of_or [OF pte_flags_small] assms present_odd even_or_iff pte_flags_present)
qed

lemma set_user_eq:
  assumes "tables_ok m" "present (pde_of m v)"
  obtains m' where "set_user PageDirectoryBase v flags m = Inr m'" "tables_ok m'" "present (pde_of m' v)"
    "\<And>a. walk m' a = walk m a" "table_frames m' = table_frames m" "cr3 m' = cr3 m" "pages m' = pages m"
proof (cases "flags AND FlagUser \<noteq> 0 \<and> pde_of m v AND User = 0")
  case True
  have "unat User < 4096" by (simp add: User_def)
  from set_pde_flags [OF assms this] show ?thesis
    using that [of "set_pde v (pde_of m v OR User) m"] assms(1) True
    by (simp add: set_user_def bindr_def vread_pde vwrite_pde)
next
  case False
  then have "set_user PageDirectoryBase v flags m = Inr m"
    using assms(1) by (auto simp: set_user_def bindr_def vread_pde)
  then show ?thesis using that [of m] assms by simp
qed

text \<open>The page the allocator would hand out for a table, and that it is not in use as one.\<close>

definition spare :: "machine \<Rightarrow> u32 \<Rightarrow> page_alloc \<Rightarrow> bool" where
  "spare m f pg \<longleftrightarrow> getPage (pages m) = Inr (f, pg) \<and> f \<noteq> 0 \<and> page_of f = f \<and> f \<notin> table_frames m"

lemma mapPage_ok:
  assumes ok: "tables_ok m" and v: "page_of v = v" "addressToPdeIndex v < 1023" and p: "page_of p = p"
    and free: "walk m v = None" and sp: "present (pde_of m v) \<or> spare m f pg"
  obtains m' where "mapPage v p flags m = Inr m'" "tables_ok m'" "cr3 m' = cr3 m"
    "\<And>a. addressToPdeIndex a < 1023 \<Longrightarrow> walk m' a =
      (if page_of a = v then if flags AND FlagLazy = 0 then Some p else None else walk m a)"
    "pages m' = (if present (pde_of m v) then pages m else pg)"
    "table_frames m' = (if present (pde_of m v) then table_frames m else insert f (table_frames m))"
proof -
  let ?alloc = "if pde_of m v AND Present = 0 then alloc_table PageDirectoryBase PageTableBase v m else Inr m"
  have dir: "dir_ok m" using ok by (simp add: tables_ok_def)
  obtain m1 where m1: "?alloc = Inr m1" "tables_ok m1" "present (pde_of m1 v)" "cr3 m1 = cr3 m"
      "\<And>a. addressToPdeIndex a < 1023 \<Longrightarrow> walk m1 a = walk m a"
      "pages m1 = (if present (pde_of m v) then pages m else pg)"
      "table_frames m1 = (if present (pde_of m v) then table_frames m else insert f (table_frames m))"
  proof (cases "present (pde_of m v)")
    case True
    then show ?thesis using that [of m] ok by (simp add: present_def)
  next
    case False
    let ?m = "m\<lparr>pages := pg\<rparr>"
    have f: "getPage (pages m) = Inr (f, pg)" "f \<noteq> 0" "page_of f = f" "f \<notin> table_frames m"
      using sp False by (simp_all add: spare_def)
    have dir': "dir_ok ?m" using ok by (metis tables_ok_pages tables_ok_def)
    have cr: "f \<noteq> cr3 ?m" using f(4) by (simp add: table_frames_def)
    have fresh: "tables_ok ?m" "f \<notin> table_frames ?m" "\<not> present (pde_of ?m v)" using ok f False by simp_all
    have "present (pde_of (with_table v f ?m) v)"
      using new_entry [OF f(3)] pd_with_table [OF dir' f(3) cr index_bounds(1)] by (simp add: pde_of_pd)
    moreover have "walk (with_table v f ?m) a = walk m a" if "addressToPdeIndex a < 1023" for a
      using walk_with_table [OF dir' f(3) fresh(2) v(2) fresh(3), of a] less_imp_neq [OF that] by simp
    ultimately show ?thesis
      using that [of "with_table v f ?m"] alloc_table_eq [OF ok f v(2)] False
        tables_ok_with_table [OF fresh(1) f(3) fresh(2) v(2) fresh(3)]
        table_frames_with_table [OF dir' f(3) cr v(2) fresh(3)]
      by (simp add: present_def)
  qed
  obtain m2 where m2: "set_user PageDirectoryBase v flags m1 = Inr m2" "tables_ok m2" "present (pde_of m2 v)"
      "\<And>a. walk m2 a = walk m1 a" "table_frames m2 = table_frames m1" "cr3 m2 = cr3 m1" "pages m2 = pages m1"
    by (rule set_user_eq [OF m1(2,3), of flags]) blast
  have v': "addressToPdeIndex v \<noteq> 1023" using v(2) by auto
  have dir2: "dir_ok m2" using m2(2) by (simp add: tables_ok_def)
  have "\<not> present (pte_of m2 v)"
    using m2(3) free m1(5) [OF v(2)] m2(4) [of v] by (auto simp: walk_alt pde_of_pd split: if_splits)
  define x where "x = (p AND NOT 0xfff) OR pte_flags flags"
  have "enter_page PageTableBase v p flags m2 = Inr (invlpg v (set_pte v x m2))"
    using m2(2,3) \<open>\<not> present (pte_of m2 v)\<close>
    by (simp add: enter_page_def bindr_def vread_pte vwrite_pte x_def present_def [symmetric])
  then have "mapPage v p flags m = Inr (invlpg v (set_pte v x m2))"
    using ok v(1) p m1(1) m2(1)
    by (simp add: mapPage_def mapPage_at_def bindr_def vread_pde page_of_eq_iff)
  then show ?thesis
    using that [of "invlpg v (set_pte v x m2)"] set_pte_ok [OF m2(2,3) v'] walk_set_pte [OF dir2 m2(3) v']
      table_frames_set_pte [OF dir2 m2(3) v'] m1 m2 page_entry [OF p, of flags] v(1)
    by (simp add: x_def)
qed

lemma unmapPage_ok:
  assumes ok: "tables_ok m" and v: "page_of v = v" "addressToPdeIndex v < 1023" and used: "walk m v \<noteq> None"
  obtains m' where "unmapPage v m = Inr m'" "tables_ok m'" "cr3 m' = cr3 m" "pages m' = pages m"
    "\<And>a. walk m' a = (if page_of a = v then None else walk m a)" "table_frames m' = table_frames m"
proof -
  have dir: "dir_ok m" using ok by (simp add: tables_ok_def)
  have v': "addressToPdeIndex v \<noteq> 1023" using v(2) by auto
  have pr: "present (pde_of m v)" "present (pte_of m v)"
    using used by (auto simp: walk_alt pde_of_pd split: if_splits)
  have "unmapPage v m = Inr (invlpg v (set_pte v Writable m))"
    using ok v(1) pr by (simp add: unmapPage_def bindr_def vread_pde vread_pte vwrite_pte page_of_eq_iff
      present_def [symmetric])
  moreover have "\<not> present Writable" by (simp add: present_odd Writable_def)
  ultimately show ?thesis
    using that [of "invlpg v (set_pte v Writable m)"] set_pte_ok [OF ok pr(1) v'] v(1)
      walk_set_pte [OF dir pr(1) v'] table_frames_set_pte [OF dir pr(1) v'] by simp
qed

lemma getPageTableEntry_eq:
  "tables_ok m \<Longrightarrow> page_of v = v \<Longrightarrow>
    getPageTableEntry v m = Inr (if present (pde_of m v) then pte_of m v else 0)"
  by (simp add: getPageTableEntry_def bindr_def vread_pde vread_pte page_of_eq_iff)
    (simp add: present_def vread_pte)

lemma isMapped_eq: "tables_ok m \<Longrightarrow> isMapped v m = Inr (walk m v \<noteq> None)"
proof -
  assume ok: "tables_ok m"
  have idx: "pde_of m (page_of v) = pde_of m v" "pte_of m (page_of v) = pte_of m v"
    by (simp_all add: pde_of_def pte_of_def)
  show ?thesis
    using vread_pte [OF ok, of "page_of v"]
    by (simp add: isMapped_def bindr_def vread_pde [OF ok] Let_def page_of_def [symmetric] idx walk_def present_def)
qed

section \<open>Composition with the page allocator\<close>

definition frame_of :: "machine \<Rightarrow> u32 \<Rightarrow> u32" where
  "frame_of m x = getAddress (store (pages m) x)"

text \<open>
  The state of the memory manager: well-formed tables, clusters \<open>us\<close> and \<open>fs\<close> of used and free
  descriptors, and free frames that are distinct and hold no table.
\<close>

definition vm_ok :: "machine \<Rightarrow> u32 list \<Rightarrow> u32 list \<Rightarrow> bool" where
  "vm_ok m us fs \<longleftrightarrow>
     tables_ok m \<and> alloc_repr (pages m) us fs \<and> distinct (map (frame_of m) fs) \<and>
     (\<forall>x \<in> set fs. frame_of m x \<noteq> 0 \<and> frame_of m x \<notin> table_frames m)"

lemma getAddress_aligned: "page_of (getAddress q) = getAddress q"
  by (simp add: getAddress_def AddressMask_def page_of_def [symmetric])

lemma vm_getPage:
  assumes "vm_ok m us (x # fs)"
  obtains pg where "spare m (frame_of m x) pg" "alloc_repr pg (x # us) fs"
    "\<And>y. getAddress (store pg y) = frame_of m y"
proof -
  have "alloc_repr (pages m) us (x # fs)" using assms by (simp add: vm_ok_def)
  from getPage_repr [OF this] obtain pg where pg: "getPage (pages m) = Inr (frame_of m x, pg)"
      "alloc_repr pg (x # us) fs" "\<And>y. address (store pg y) = address (store (pages m) y)"
    unfolding frame_of_def by metis
  have "spare m (frame_of m x) pg"
    using assms pg(1) by (simp add: spare_def vm_ok_def) (simp add: frame_of_def getAddress_aligned)
  with that pg show ?thesis by (simp add: frame_of_def getAddress_def)
qed

lemma mapPage_vm:
  assumes vm: "vm_ok m us (x # fs)" and v: "page_of v = v" "addressToPdeIndex v < 1023" and p: "page_of p = p"
    and free: "walk m v = None"
  obtains m' where "mapPage v p flags m = Inr m'" "cr3 m' = cr3 m"
    "vm_ok m' (if present (pde_of m v) then us else x # us) (if present (pde_of m v) then x # fs else fs)"
    "\<And>a. addressToPdeIndex a < 1023 \<Longrightarrow> walk m' a =
      (if page_of a = v then if flags AND FlagLazy = 0 then Some p else None else walk m a)"
    "\<And>y. frame_of m' y = frame_of m y" "table_frames m' \<subseteq> insert (frame_of m x) (table_frames m)"
proof -
  obtain pg where pg: "spare m (frame_of m x) pg" "alloc_repr pg (x # us) fs"
      "\<And>y. getAddress (store pg y) = frame_of m y"
    by (rule vm_getPage [OF vm]) blast
  have ok: "tables_ok m" and al: "alloc_repr (pages m) us (x # fs)" and di: "distinct (map (frame_of m) (x # fs))"
    and fr: "\<And>y. y \<in> set (x # fs) \<Longrightarrow> frame_of m y \<noteq> 0 \<and> frame_of m y \<notin> table_frames m"
    using vm unfolding vm_ok_def by blast+
  obtain m' where m': "mapPage v p flags m = Inr m'" "tables_ok m'" "cr3 m' = cr3 m"
      "\<And>a. addressToPdeIndex a < 1023 \<Longrightarrow> walk m' a =
        (if page_of a = v then if flags AND FlagLazy = 0 then Some p else None else walk m a)"
      "pages m' = (if present (pde_of m v) then pages m else pg)"
      "table_frames m' = (if present (pde_of m v) then table_frames m else insert (frame_of m x) (table_frames m))"
    by (rule mapPage_ok [OF ok v p free disjI2 [OF pg(1)], of flags]) blast
  have frames: "frame_of m' y = frame_of m y" for y
    using m'(5) pg(3) by (simp add: frame_of_def)
  then have eq: "frame_of m' = frame_of m" by (rule ext)
  have "vm_ok m' (if present (pde_of m v) then us else x # us) (if present (pde_of m v) then x # fs else fs)"
  proof (cases "present (pde_of m v)")
    case True
    then show ?thesis using m'(2,5,6) al di fr by (simp add: vm_ok_def eq)
  next
    case False
    have "frame_of m y \<noteq> frame_of m x" if "y \<in> set fs" for y
      using di imageI [OF that, of "frame_of m"] by auto
    then show ?thesis using False m'(2,5,6) pg(2) di fr by (simp add: vm_ok_def eq)
  qed
  moreover have "table_frames m' \<subseteq> insert (frame_of m x) (table_frames m)" using m'(6) by auto
  ultimately show ?thesis using that m' frames by blast
qed

text \<open>Where the directory entry is present, no free page is needed.\<close>

lemma mapPage_vm_present:
  assumes vm: "vm_ok m us fs" and v: "page_of v = v" "addressToPdeIndex v < 1023" and p: "page_of p = p"
    and free: "walk m v = None" and pr: "present (pde_of m v)"
  obtains m' where "mapPage v p flags m = Inr m'" "vm_ok m' us fs"
    "\<And>a. addressToPdeIndex a < 1023 \<Longrightarrow> walk m' a =
      (if page_of a = v then if flags AND FlagLazy = 0 then Some p else None else walk m a)"
proof -
  have ok: "tables_ok m" using vm by (simp add: vm_ok_def)
  obtain m' where m': "mapPage v p flags m = Inr m'" "tables_ok m'"
      "\<And>a. addressToPdeIndex a < 1023 \<Longrightarrow> walk m' a =
        (if page_of a = v then if flags AND FlagLazy = 0 then Some p else None else walk m a)"
      "pages m' = (if present (pde_of m v) then pages m else pages m)"
      "table_frames m' = (if present (pde_of m v) then table_frames m else insert 0 (table_frames m))"
    by (rule mapPage_ok [OF ok v p free disjI1 [OF pr], where flags = flags and pg = "pages m" and f = 0]) blast
  have "frame_of m' = frame_of m" using m'(4) pr by (simp add: frame_of_def fun_eq_iff)
  then have "vm_ok m' us fs" using vm m'(2,4,5) pr by (simp add: vm_ok_def)
  with m' that show ?thesis by blast
qed

text \<open>Both cases: what \<open>mapPage\<close> does unless it needs a page for a table and there is none.\<close>

lemma mapPage_cases:
  assumes vm: "vm_ok m us fs" and v: "page_of v = v" "addressToPdeIndex v < 1023" and p: "page_of p = p"
    and free: "walk m v = None" and room: "pde_of m v AND Present = 0 \<Longrightarrow> fs \<noteq> []"
  obtains m' where "mapPage v p flags m = Inr m'"
    "if pde_of m v AND Present = 0 then vm_ok m' (hd fs # us) (tl fs) else vm_ok m' us fs"
    "\<And>a. addressToPdeIndex a < 1023 \<Longrightarrow> walk m' a =
      (if page_of a = v then if flags AND FlagLazy = 0 then Some p else None else walk m a)"
proof (cases "present (pde_of m v)")
  case True
  then show ?thesis
    using mapPage_vm_present [OF vm v p free True, of flags] that by (metis present_def)
next
  case False
  then have np: "pde_of m v AND Present = 0" by (simp add: present_def)
  obtain x fs' where fs: "fs = x # fs'" using room [OF np] by (cases fs) auto
  obtain m' where "mapPage v p flags m = Inr m'"
      "vm_ok m' (if present (pde_of m v) then us else x # us) (if present (pde_of m v) then x # fs' else fs')"
      "\<And>a. addressToPdeIndex a < 1023 \<Longrightarrow> walk m' a =
        (if page_of a = v then if flags AND FlagLazy = 0 then Some p else None else walk m a)"
    by (rule mapPage_vm [OF vm [unfolded fs] v p free, of flags]) blast
  then show ?thesis using that False np fs by simp
qed

section \<open>Properties\<close>

lemma below_window: "a < PageTableBase \<longleftrightarrow> addressToPdeIndex a < 1023"
proof -
  have "unat a < 4290772992 \<longleftrightarrow> unat a div 4194304 < 1023" by (simp add: div_less_iff_less_mult)
  then show ?thesis by (simp add: word_less_nat_alt PageTableBase_def unat_pde_index)
qed

text \<open>A machine whose directory has only the recursive entry, for the concrete instances.\<close>

definition example_machine :: machine where
  "example_machine = \<lparr>pmem = (\<lambda>a. if a = 0x8000 + 1023 * 4 then 0x8001 else 0), cr3 = 0x8000,
     tlb = Map.empty, pages = example_alloc\<rparr>"

lemma example_pd: "unat i < 1024 \<Longrightarrow> pd example_machine i = (if i = 1023 then 0x8001 else 0)"
  using entry_inject [of "0x8000" "0x8000" i 1023]
  by (simp add: pd_def example_machine_def page_of_def PageMask_def PageSize_def)

lemma example_vm_ok: "vm_ok example_machine [] [48, 64]"
proof -
  have low: "pd example_machine i = 0" if "i < 1023" for i
    using example_pd [OF less_1023 [OF that]] that by auto
  have "dir_ok example_machine"
    using low example_pd [of 1023]
    by (simp add: dir_ok_def present_odd) (simp add: example_machine_def page_of_def PageMask_def PageSize_def)
  moreover have "coherent example_machine" by (simp add: coherent_def example_machine_def)
  moreover have "table_frames example_machine = {0x8000}"
    using low by (auto simp: table_frames_def present_odd) (simp_all add: example_machine_def)
  moreover have "map (frame_of example_machine) [48, 64] = [0x1000, 0x2000]"
    by (simp add: frame_of_def example_machine_def example_alloc_def getAddress_def AddressMask_def
      PageMask_def PageSize_def)
  ultimately show ?thesis
    using example_alloc_repr(1) by (simp add: vm_ok_def tables_ok_def) (simp add: example_machine_def)
qed

lemma translate_ok: "tables_ok m \<Longrightarrow> translate m a = map_option (\<lambda>f. f + offset_of a) (walk m a)"
  by (simp add: tables_ok_def translate_coherent)

lemma translate_None_walk: "tables_ok m \<Longrightarrow> translate m a = None \<longleftrightarrow> walk m a = None"
  by (simp add: translate_ok)

text \<open>The example machine with one page mapped.\<close>

lemma example_unmapped: "translate example_machine 0xe0000000 = None"
proof -
  have "walk example_machine 0xe0000000 = None"
    using example_pd [OF index_bounds(1), of "0xe0000000"]
    by (simp add: walk_alt present_odd addressToPdeIndex_def)
  then show ?thesis using example_vm_ok by (simp add: translate_None_walk vm_ok_def)
qed

lemma example_mapped:
  obtains m' where "mapPage 0xe0000000 0x5000 0 example_machine = Inr m'" "vm_ok m' [48] [64]"
    "walk m' 0xe0000000 = Some 0x5000"
proof -
  have v: "page_of 0xe0000000 = 0xe0000000" "addressToPdeIndex 0xe0000000 < 1023" "page_of 0x5000 = 0x5000"
    by (simp_all add: page_of_def PageMask_def PageSize_def addressToPdeIndex_def)
  have w: "walk example_machine 0xe0000000 = None"
    using example_unmapped example_vm_ok by (simp add: translate_None_walk vm_ok_def)
  have new: "\<not> present (pde_of example_machine 0xe0000000)"
    using example_pd [OF index_bounds(1), of "0xe0000000"]
    by (simp add: pde_of_pd present_odd addressToPdeIndex_def)
  obtain m' where m': "mapPage 0xe0000000 0x5000 0 example_machine = Inr m'"
      "vm_ok m' (if present (pde_of example_machine 0xe0000000) then [] else [48])
        (if present (pde_of example_machine 0xe0000000) then [48, 64] else [64])"
      "\<And>a. addressToPdeIndex a < 1023 \<Longrightarrow> walk m' a =
        (if page_of a = 0xe0000000 then if (0 :: u32) AND FlagLazy = 0 then Some 0x5000 else None
         else walk example_machine a)"
    by (rule mapPage_vm [OF example_vm_ok v w, of 0]) blast
  show ?thesis using that [OF m'(1)] m'(2) m'(3) [OF v(2)] v(1) new by simp
qed

text \<open>
  C5. \<open>PageDirectory::mapPage\<close> refines the update of one page of the address space. From a well-formed
  state, for an aligned unmapped page below the table window and an aligned frame: when the directory
  entry is empty and no page is free, it panics; otherwise it succeeds, the first free page becoming a
  page table when the directory entry is empty and the clusters staying as they are when it is not.
  Afterwards the processor translates every address of the page into the frame (with the lazy flag:
  does not translate it) and every other address below the window as before, the recursive directory
  is well-formed, the look-aside buffer coherent with it, and no free page is in use as a table.
\<close>

theorem mapPage_refines:
  assumes "vm_ok m us fs" "v AND PageMask = 0" "p AND PageMask = 0" "v < PageTableBase" "translate m v = None"
  shows "if pde_of m v AND Present = 0 \<and> fs = []
    then mapPage v p flags m = Inl (PANIC ''Out of memory, free page cluster is empty'')
    else \<exists>m'. mapPage v p flags m = Inr m' \<and>
      (if pde_of m v AND Present = 0 then vm_ok m' (hd fs # us) (tl fs) else vm_ok m' us fs) \<and>
      (\<forall>a < PageTableBase. translate m' a =
        (if page_of a = v then if flags AND FlagLazy = 0 then Some (p + offset_of a) else None else translate m a))"
proof (cases "pde_of m v AND Present = 0 \<and> fs = []")
  case True
  then have "alloc_repr (pages m) us []" "tables_ok m" using assms(1) by (simp_all add: vm_ok_def)
  then show ?thesis using True assms(2,3) getPage_empty
    by (simp add: mapPage_def mapPage_at_def bindr_def vread_pde alloc_table_def)
next
  case False
  have ok: "tables_ok m" using assms(1) by (simp add: vm_ok_def)
  have v: "page_of v = v" "addressToPdeIndex v < 1023" "page_of p = p" "walk m v = None"
    using assms(2-5) ok by (simp_all add: page_of_eq_iff below_window [symmetric] translate_None_walk)
  obtain m' where m': "mapPage v p flags m = Inr m'"
      "if pde_of m v AND Present = 0 then vm_ok m' (hd fs # us) (tl fs) else vm_ok m' us fs"
      "\<And>a. addressToPdeIndex a < 1023 \<Longrightarrow> walk m' a =
        (if page_of a = v then if flags AND FlagLazy = 0 then Some p else None else walk m a)"
    using mapPage_cases [OF assms(1) v, of flags] False by blast
  have ok': "tables_ok m'" using m'(2) by (simp add: vm_ok_def split: if_splits)
  have "translate m' a = (if page_of a = v then if flags AND FlagLazy = 0 then Some (p + offset_of a) else None
      else translate m a)" if "a < PageTableBase" for a
    using that m'(3) [of a] by (simp add: translate_ok ok ok' below_window)
  then show ?thesis unfolding if_not_P [OF False] using m'(1,2) by blast
qed

theorem mapPage_refines_witness:
  "\<exists>m'. mapPage 0xe0000000 0x5000 0 example_machine = Inr m' \<and> translate m' 0xe0000123 = Some 0x5123"
proof -
  from mapPage_refines [OF example_vm_ok _ _ _ example_unmapped, of "0x5000" 0]
  obtain m' where "mapPage 0xe0000000 0x5000 0 example_machine = Inr m'"
      "\<forall>a < PageTableBase. translate m' a =
        (if page_of a = 0xe0000000 then Some (0x5000 + offset_of a) else translate example_machine a)"
    by (auto simp: PageMask_def PageSize_def PageTableBase_def)
  then show ?thesis
    by (auto simp: PageTableBase_def page_of_def offset_of_def PageMask_def PageSize_def
      dest!: spec [of _ "0xe0000123"])
qed

text \<open>
  C6. \<open>PageDirectory::unmapPage\<close> refines the removal of one page: for a mapped aligned page below the
  table window it succeeds, no address of the page is translated any more, also not from the
  look-aside buffer, and every other translation, the allocator and the tables' frames stay.
\<close>

theorem unmapPage_refines:
  assumes "vm_ok m us fs" "v AND PageMask = 0" "v < PageTableBase" "translate m v \<noteq> None"
  shows "\<exists>m'. unmapPage v m = Inr m' \<and> vm_ok m' us fs \<and>
    (\<forall>a. translate m' a = (if page_of a = v then None else translate m a))"
proof -
  have ok: "tables_ok m" using assms(1) by (simp add: vm_ok_def)
  have v: "page_of v = v" "addressToPdeIndex v < 1023" "walk m v \<noteq> None"
    using assms(2-4) ok by (simp_all add: page_of_eq_iff below_window [symmetric] translate_None_walk)
  obtain m' where m': "unmapPage v m = Inr m'" "tables_ok m'" "pages m' = pages m"
      "\<And>a. walk m' a = (if page_of a = v then None else walk m a)" "table_frames m' = table_frames m"
    by (rule unmapPage_ok [OF ok v]) blast
  have "frame_of m' = frame_of m" by (simp add: fun_eq_iff frame_of_def m'(3))
  then have "vm_ok m' us fs" using assms(1) m' by (simp add: vm_ok_def)
  then show ?thesis using m' by (simp add: translate_ok ok)
qed

theorem unmapPage_refines_witness:
  "\<exists>m m'. mapPage 0xe0000000 0x5000 0 example_machine = Inr m \<and> translate m 0xe0000123 = Some 0x5123 \<and>
    unmapPage 0xe0000000 m = Inr m' \<and> translate m' 0xe0000123 = None"
proof -
  obtain m where m: "mapPage 0xe0000000 0x5000 0 example_machine = Inr m" "vm_ok m [48] [64]"
      "walk m 0xe0000000 = Some 0x5000"
    by (rule example_mapped)
  have ok: "tables_ok m" using m(2) by (simp add: vm_ok_def)
  have page: "page_of 0xe0000123 = 0xe0000000" "offset_of 0xe0000123 = 0x123"
    by (simp_all add: page_of_def offset_of_def PageMask_def PageSize_def)
  have "walk m 0xe0000123 = Some 0x5000" using m(3) walk_page [of m "0xe0000123"] page by simp
  then have "translate m 0xe0000123 = Some 0x5123" using page by (simp add: translate_ok ok)
  moreover have "\<exists>m'. unmapPage 0xe0000000 m = Inr m' \<and> translate m' 0xe0000123 = None"
    using unmapPage_refines [OF m(2), of "0xe0000000"] m(3) page
    by (auto simp: translate_None_walk ok PageMask_def PageSize_def PageTableBase_def)
  ultimately show ?thesis using m(1) by blast
qed

text \<open>
  C7. Mapping, looking up and unmapping are inverse to each other. From a well-formed state, for an
  aligned unmapped page below the table window, an aligned frame and flags without the lazy one, and
  when the directory entry is present or a page is free for a table: after \<open>mapPage\<close> the page is
  reported as mapped and \<open>getPhysicalPage\<close> gives back the frame, and a following \<open>unmapPage\<close> restores
  the translation of every address below the table window (a page table allocated on the way
  stays allocated).
\<close>

theorem map_unmap_roundtrip:
  assumes "vm_ok m us fs" "v AND PageMask = 0" "p AND PageMask = 0" "v < PageTableBase"
    "translate m v = None" "flags AND FlagLazy = 0" "pde_of m v AND Present \<noteq> 0 \<or> fs \<noteq> []"
  shows "\<exists>m' m''. mapPage v p flags m = Inr m' \<and> isMapped v m' = Inr True \<and> getPhysicalPage v m' = Inr p \<and>
    unmapPage v m' = Inr m'' \<and> isMapped v m'' = Inr False \<and>
    (\<forall>a < PageTableBase. translate m'' a = translate m a)"
proof -
  have ok: "tables_ok m" using assms(1) by (simp add: vm_ok_def)
  have v: "page_of v = v" "addressToPdeIndex v < 1023" "page_of p = p" "walk m v = None"
    using assms(2-5) ok by (simp_all add: page_of_eq_iff below_window [symmetric] translate_None_walk)
  obtain m' where m': "mapPage v p flags m = Inr m'"
      "if pde_of m v AND Present = 0 then vm_ok m' (hd fs # us) (tl fs) else vm_ok m' us fs"
      "\<And>a. addressToPdeIndex a < 1023 \<Longrightarrow> walk m' a =
        (if page_of a = v then if flags AND FlagLazy = 0 then Some p else None else walk m a)"
    using mapPage_cases [OF assms(1) v, of flags] assms(7) by blast
  have ok': "tables_ok m'" using m'(2) by (simp add: vm_ok_def split: if_splits)
  have w: "walk m' v = Some p" using m'(3) [OF v(2)] v(1) assms(6) by simp
  then obtain m'' where m'': "unmapPage v m' = Inr m''" "tables_ok m''"
      "\<And>a. walk m'' a = (if page_of a = v then None else walk m' a)"
    using unmapPage_ok [OF ok' v(1,2)] by (metis option.distinct(1))
  have "getPhysicalPage v m' = Inr p"
    using w getPageTableEntry_eq [OF ok' v(1)]
    by (simp add: getPhysicalPage_def bindr_def walk_alt pde_of_pd page_of_def [symmetric] split: if_splits)
  moreover have "translate m'' a = translate m a" if "a < PageTableBase" for a
    using that m'(3) [of a] v(4) walk_page [of m a]
    by (auto simp: translate_ok ok m''(2,3) below_window simp del: walk_page)
  ultimately show ?thesis
    using m'(1) m''(1) w v(1) by (simp add: isMapped_eq ok' m''(2,3))
qed

theorem map_unmap_roundtrip_witness:
  "\<exists>m' m''. mapPage 0xe0000000 0x5000 0 example_machine = Inr m' \<and>
    getPhysicalPage 0xe0000000 m' = Inr 0x5000 \<and> unmapPage 0xe0000000 m' = Inr m'' \<and>
    isMapped 0xe0000000 m'' = Inr False"
  using map_unmap_roundtrip [OF example_vm_ok _ _ _ example_unmapped, of "0x5000" 0]
  by (auto simp: PageMask_def PageSize_def PageTableBase_def)

text \<open>
  Misuse is caught before anything is written: unaligned addresses fail an assertion, mapping
  a page that is already mapped and unmapping one that is not panic, and a mapping that needs a
  page table panics when the free cluster is empty.
\<close>

theorem mapping_errors:
  assumes "tables_ok m" "v < PageTableBase"
  shows "(v AND PageMask \<noteq> 0 \<longrightarrow>
      mapPage v p flags m = Inl (KASSERT ''(vAddress & PageMask) == 0'') \<and>
      unmapPage v m = Inl (KASSERT ''(vAddress & PageMask) == 0'')) \<and>
    (v AND PageMask = 0 \<longrightarrow> p AND PageMask \<noteq> 0 \<longrightarrow>
      mapPage v p flags m = Inl (KASSERT ''(pAddress & PageMask) == 0'')) \<and>
    (v AND PageMask = 0 \<longrightarrow> p AND PageMask = 0 \<longrightarrow> translate m v \<noteq> None \<longrightarrow>
      (\<exists>why. mapPage v p flags m = Inl (PANIC why))) \<and>
    (v AND PageMask = 0 \<longrightarrow> translate m v = None \<longrightarrow> (\<exists>why. unmapPage v m = Inl (PANIC why))) \<and>
    (v AND PageMask = 0 \<longrightarrow> p AND PageMask = 0 \<longrightarrow> pde_of m v AND Present = 0 \<longrightarrow>
      alloc_repr (pages m) us [] \<longrightarrow>
      mapPage v p flags m = Inl (PANIC ''Out of memory, free page cluster is empty''))"
proof (intro conjI impI)
  assume "v AND PageMask = 0" "p AND PageMask = 0" "translate m v \<noteq> None"
  then have pr: "present (pde_of m v)" "walk m v \<noteq> None"
    using assms(1) by (auto simp: translate_None_walk walk_alt pde_of_pd split: if_splits)
  obtain m2 where m2: "set_user PageDirectoryBase v flags m = Inr m2" "tables_ok m2" "present (pde_of m2 v)"
      "\<And>a. walk m2 a = walk m a"
    by (rule set_user_eq [OF assms(1) pr(1), of flags]) blast
  have "walk m2 v \<noteq> None" using pr(2) m2(4) by simp
  then have "present (pte_of m2 v)" by (auto simp: walk_alt split: if_splits)
  then show "\<exists>why. mapPage v p flags m = Inl (PANIC why)"
    using assms(1) pr(1) m2 \<open>v AND PageMask = 0\<close> \<open>p AND PageMask = 0\<close>
    by (simp add: mapPage_def mapPage_at_def bindr_def vread_pde enter_page_def vread_pte present_def)
next
  assume "v AND PageMask = 0" "translate m v = None"
  then have "\<not> present (pde_of m v) \<or> present (pde_of m v) \<and> \<not> present (pte_of m v)"
    using assms(1) by (auto simp: translate_None_walk walk_alt pde_of_pd split: if_splits)
  then show "\<exists>why. unmapPage v m = Inl (PANIC why)"
    using assms(1) vread_pte [OF assms(1), of v] \<open>v AND PageMask = 0\<close>
    by (auto simp: unmapPage_def bindr_def vread_pde present_def)
qed (use assms getPage_empty in
    \<open>simp_all add: mapPage_def unmapPage_def mapPage_at_def bindr_def vread_pde alloc_table_def\<close>)

theorem mapping_errors_witness:
  "(\<exists>why. unmapPage 0xe0000000 example_machine = Inl (PANIC why)) \<and>
   unmapPage 0xe0000010 example_machine = Inl (KASSERT ''(vAddress & PageMask) == 0'')"
  using mapping_errors [of example_machine "0xe0000000"] mapping_errors [of example_machine "0xe0000010"]
    example_unmapped example_vm_ok
  by (simp add: vm_ok_def PageMask_def PageSize_def PageTableBase_def)

end
