(* ===== verification/Memory_Map.thy ===== *)
theory Memory_Map
  imports Paging
begin

text \<open>
  The mapping functions of Kernel/Memory.cc on top of the page tables: anonymous mappings of
  a page, of a physical region and of fresh memory, which are carved downwards from \<open>mapEnd\<close>, and
  the kernel stacks. \<open>end_kernel\<close> is the address of the linker symbol \<open>__end_kernel\<close>. The loops over
  a region are partial functions, \<open>None\<close> for a loop that never ends; the critical sections under
  \<open>memoryMapLock\<close> are single updates of \<open>mapEnd\<close>.
\<close>

section \<open>Definitions\<close>

definition roundTo :: "u32 \<Rightarrow> u32 \<Rightarrow> u32" where
  "roundTo num sz = (num + (sz - 1)) AND NOT (sz - 1)"

definition roundDown :: "u32 \<Rightarrow> u32 \<Rightarrow> u32" where
  "roundDown num sz = num AND NOT (sz - 1)"

definition KernelStackSize :: u32 where "KernelStackSize = 0x10000"
definition MapStart :: u32 where "MapStart = PageTableBase - KernelStackSize"
definition MemoryMapMax :: nat where "MemoryMapMax = 32"

record memory =
  mach :: machine
  mapEnd :: u32
  memoryMap :: "(u32 \<times> u32) list"

definition addMemoryMapEntry :: "u32 \<Rightarrow> u32 \<Rightarrow> memory \<Rightarrow> memory res" where
  "addMemoryMapEntry start len s =
     (if length (memoryMap s) < MemoryMapMax
      then Inr (s\<lparr>memoryMap := memoryMap s @ [(start, len)]\<rparr>)
      else Inl (KASSERT ''memoryMapCount < MemoryMapMax''))"

definition mapAnonymousPage :: "u32 \<Rightarrow> u32 \<Rightarrow> u32 \<Rightarrow> memory \<Rightarrow> (u32 \<times> memory) res" where
  "mapAnonymousPage end_kernel phys flags s =
     (let virt = mapEnd s - PageSize;
          s = s\<lparr>mapEnd := virt\<rparr>
      in if virt \<le> end_kernel
         then Inl (PANIC ''Memory::mapPage: Kernel map namespace exhausted.'')
         else bindr (mapPage virt phys flags (mach s)) (\<lambda>m. Inr (virt, s\<lparr>mach := m\<rparr>)))"

partial_function (option) anon_loop :: "u32 \<Rightarrow> u32 \<Rightarrow> u32 \<Rightarrow> u32 \<Rightarrow> machine \<Rightarrow> machine res option" where
  "anon_loop vaddr rsize flags page m =
     (if page < rsize
      then case getPage (pages m) of
          Inl e \<Rightarrow> Some (Inl e)
        | Inr (emptyPage, pg) \<Rightarrow>
            if emptyPage = 0 then Some (Inl (KASSERT ''emptyPage != 0''))
            else case mapPage (vaddr + page) emptyPage flags (m\<lparr>pages := pg\<rparr>) of
                Inl e \<Rightarrow> Some (Inl e)
              | Inr m \<Rightarrow> anon_loop vaddr rsize flags (page + PageSize) m
      else Some (Inr m))"

definition mapAnonymousRegion :: "u32 \<Rightarrow> u32 \<Rightarrow> u32 \<Rightarrow> memory \<Rightarrow> (u32 \<times> memory) res option" where
  "mapAnonymousRegion end_kernel sz flags s =
     (if sz = 0 then Some (Inl (KASSERT ''size != 0''))
      else
        let rsize = roundTo sz PageSize;
            vaddr = mapEnd s - rsize;
            s = s\<lparr>mapEnd := vaddr\<rparr>
        in if vaddr \<le> end_kernel
           then Some (Inl (PANIC ''Memory::mapAnonymousRegion: Kernel map name space exhausted.''))
           else map_option (\<lambda>r. bindr r (\<lambda>m. Inr (vaddr, s\<lparr>mach := m\<rparr>)))
                  (anon_loop vaddr rsize flags 0 (mach s)))"

partial_function (option) region_loop :: "u32 \<Rightarrow> u32 \<Rightarrow> u32 \<Rightarrow> u32 \<Rightarrow> machine \<Rightarrow> machine res option" where
  "region_loop lastPage flags page vaddr m =
     (if page \<noteq> lastPage
      then case mapPage vaddr page flags m of
          Inl e \<Rightarrow> Some (Inl e)
        | Inr m \<Rightarrow> region_loop lastPage flags (page + PageSize) (vaddr + PageSize) m
      else Some (Inr m))"

definition mapRegion :: "u32 \<Rightarrow> u32 \<Rightarrow> u32 \<Rightarrow> u32 \<Rightarrow> memory \<Rightarrow> (u32 \<times> memory) res option" where
  "mapRegion end_kernel paddr sz flags s =
     (if sz = 0 then Some (Inl (KASSERT ''size != 0''))
      else
        let firstPage = roundDown paddr PageSize;
            lastPage = roundTo (paddr + sz) PageSize;
            rsize = lastPage - firstPage;
            vaddr = mapEnd s - rsize;
            s = s\<lparr>mapEnd := vaddr\<rparr>;
            offset = paddr - firstPage
        in if vaddr \<le> end_kernel
           then Some (Inl (PANIC ''Memory::mapRegion: Kernel map namespace exhausted.''))
           else map_option (\<lambda>r. bindr r (\<lambda>m. Inr (mapEnd s + offset, s\<lparr>mach := m\<rparr>)))
                  (region_loop lastPage flags firstPage vaddr (mach s)))"

partial_function (option) unmap_loop :: "u32 \<Rightarrow> u32 \<Rightarrow> machine \<Rightarrow> machine res option" where
  "unmap_loop lastPage page m =
     (if page \<noteq> lastPage
      then case unmapPage page m of
          Inl e \<Rightarrow> Some (Inl e)
        | Inr m \<Rightarrow> unmap_loop lastPage (page + PageSize) m
      else Some (Inr m))"

definition unmapRegion :: "u32 \<Rightarrow> u32 \<Rightarrow> memory \<Rightarrow> memory res option" where
  "unmapRegion paddr sz s =
     (if sz = 0 then Some (Inl (KASSERT ''size != 0''))
      else
        let firstPage = roundDown paddr PageSize;
            lastPage = roundTo (paddr + sz) PageSize
        in map_option (\<lambda>r. bindr r (\<lambda>m. Inr (s\<lparr>mach := m\<rparr>))) (unmap_loop lastPage firstPage (mach s)))"

definition createKernelStack :: "u32 \<Rightarrow> memory \<Rightarrow> (u32 \<times> memory) res" where
  "createKernelStack end_kernel s =
     (case getPage (pages (mach s)) of
        Inl e \<Rightarrow> Inl e
      | Inr (stackPage, pg) \<Rightarrow>
          if stackPage = 0 then Inl (KASSERT ''stackPage != 0'')
          else bindr (mapAnonymousPage end_kernel stackPage 0 (s\<lparr>mach := (mach s)\<lparr>pages := pg\<rparr>\<rparr>))
            (\<lambda>(bottom, s). if bottom = 0 then Inl (KASSERT ''bottom != 0'') else Inr (bottom + PageSize, s)))"

section \<open>Runs of pages\<close>

lemma offset_of_shift:
  assumes "page_of f = f"
  shows "offset_of (f + x) = offset_of x"
proof -
  have f: "unat f = unat f div 4096 * 4096" using unat_page_of [of f] assms by simp
  have "unat (f + x) mod 4096 = (unat f + unat x) mod 4294967296 mod 4096"
    by (simp add: unat_word_ariths)
  also have "\<dots> = (unat f + unat x) mod 4096" by (rule mod_mod_cancel) simp
  also have "\<dots> = unat x mod 4096" by (subst f) simp
  finally show ?thesis by (simp add: word_unat_eq_iff unat_offset_of)
qed

lemma page_of_shift:
  assumes "page_of f = f"
  shows "page_of (f + x) = f + page_of x"
proof -
  have "page_of (f + x) = f + x - offset_of (f + x)"
    using page_plus_offset [of "f + x"] by (simp add: eq_diff_eq)
  moreover have "page_of x = x - offset_of x" using page_plus_offset [of x] by (simp add: eq_diff_eq)
  ultimately show ?thesis by (simp add: offset_of_shift [OF assms] add_diff_eq)
qed

lemma page_of_diff: "page_of f = f \<Longrightarrow> page_of g = g \<Longrightarrow> page_of (g - f) = g - f"
  using page_of_shift [of f "g - f"] by (simp add: diff_eq_eq eq_diff_eq add.commute)

lemma PageSize_aligned: "page_of PageSize = PageSize"
  by (simp add: page_of_def PageMask_def PageSize_def)

lemma page_of_next: "page_of f = f \<Longrightarrow> page_of (f + PageSize) = f + PageSize"
  by (simp add: page_of_shift PageSize_aligned)

lemma roundTo_page: "roundTo x PageSize = page_of (x + 4095)"
  by (simp add: roundTo_def page_of_def PageMask_def PageSize_def)

lemma roundDown_page: "roundDown x PageSize = page_of x"
  by (simp add: roundDown_def page_of_def PageMask_def)

text \<open>The address \<open>a\<close> lies in one of the \<open>n\<close> pages from \<open>v\<close> on.\<close>

definition in_pages :: "u32 \<Rightarrow> nat \<Rightarrow> u32 \<Rightarrow> bool" where
  "in_pages v n a \<longleftrightarrow> unat (page_of a - v) < n * 4096"

lemma in_pages_0 [simp]: "\<not> in_pages v 0 a"
  by (simp add: in_pages_def)

lemma page_distance:
  assumes "page_of v = v" "page_of a \<noteq> v"
  shows "unat (page_of a - v) = unat (page_of a - (v + PageSize)) + 4096"
proof -
  let ?x = "page_of a - v"
  have "unat ?x = unat ?x div 4096 * 4096" "?x \<noteq> 0"
    using assms(2) unat_page_of [of ?x] page_of_diff [OF assms(1), of "page_of a"] by auto
  then have ge: "4096 \<le> unat ?x" by (metis word_unat_eq_iff unsigned_0 div_less mult_0 not_le)
  then have "unat (?x - 4096) = unat ?x - 4096"
    by (subst unat_sub) (simp_all add: word_le_nat_alt)
  then show ?thesis using ge by (simp add: PageSize_def diff_diff_eq)
qed

lemma in_pages_Suc:
  assumes "page_of v = v"
  shows "in_pages v (Suc n) a \<longleftrightarrow> page_of a = v \<or> in_pages (v + PageSize) n a"
  using page_distance [OF assms, of a] by (cases "page_of a = v") (simp_all add: in_pages_def)

definition page_index :: "u32 \<Rightarrow> u32 \<Rightarrow> nat" where
  "page_index v a = unat (page_of a - v) div 4096"

lemma page_index_simps:
  assumes "page_of v = v"
  shows "page_of a = v \<Longrightarrow> page_index v a = 0"
    "page_of a \<noteq> v \<Longrightarrow> page_index v a = Suc (page_index (v + PageSize) a)"
  using page_distance [OF assms, of a] by (simp_all add: page_index_def)

lemma in_pages_index: "in_pages v n a \<Longrightarrow> page_index v a < n"
  by (simp add: in_pages_def page_index_def div_less_iff_less_mult)

lemma in_pages_iff:
  assumes "page_of v = v" "unat v + n * 4096 \<le> 2 ^ 32 - 1"
  shows "in_pages v n a \<longleftrightarrow> unat v \<le> unat a \<and> unat a < unat v + n * 4096"
proof -
  have a: "unat (page_of a) = unat a div 4096 * 4096" "unat a = unat a div 4096 * 4096 + unat a mod 4096"
    using unat_page_of by simp_all
  have v: "unat v = unat v div 4096 * 4096" using unat_page_of [of v] assms(1) by simp
  show ?thesis
  proof (cases "v \<le> page_of a")
    case True
    then have "unat (page_of a - v) = unat (page_of a) - unat v" by (simp add: unat_sub)
    moreover have "unat v \<le> unat a div 4096 * 4096" using True a(1) by (simp add: word_le_nat_alt)
    moreover have "unat a div 4096 * 4096 < (unat v div 4096 + n) * 4096 \<longleftrightarrow>
        unat a < (unat v div 4096 + n) * 4096"
      using div_less_iff_less_mult [of 4096 "unat a" "unat v div 4096 + n"] by (simp only: mult_less_cancel2) simp
    ultimately show ?thesis using a v by (simp add: in_pages_def algebra_simps) linarith
  next
    case False
    then have lt: "unat a div 4096 * 4096 < unat v div 4096 * 4096" using a(1) v by (simp add: word_less_nat_alt not_le)
    then have "unat a div 4096 < unat v div 4096" by simp
    then have "unat a < unat v" by (metis not_less div_le_mono)
    moreover have "unat (page_of a - v) = 2 ^ 32 + unat (page_of a) - unat v"
      using False by (simp add: unat_sub_if' not_le word_le_nat_alt)
    ultimately show ?thesis using assms(2) by (simp add: in_pages_def)
  qed
qed

section \<open>Mapping a physical region\<close>

lemma in_pages_below:
  assumes "page_of v = v" "unat v + n * 4096 \<le> unat PageTableBase" "in_pages v n a"
  shows "addressToPdeIndex a < 1023"
proof -
  have "unat v + n * 4096 \<le> 2 ^ 32 - 1" using assms(2) by (simp add: PageTableBase_def)
  from in_pages_iff [OF assms(1) this] assms(2,3) have "a < PageTableBase" by (simp add: word_less_nat_alt)
  then show ?thesis by (simp add: below_window)
qed

lemma next_page_bound:
  assumes "unat v + Suc n * 4096 \<le> unat PageTableBase"
  shows "unat (v + PageSize) = unat v + 4096"
  using assms by (simp add: unat_word_ariths PageSize_def PageTableBase_def)

lemma of_nat_PageSize: "of_nat n * PageSize = of_nat (n * 4096)"
  by (simp only: of_nat_mult) (simp add: PageSize_def)

lemma pages_advance:
  assumes "Suc n * 4096 < 2 ^ 32"
  shows "page \<noteq> page + of_nat (Suc n) * PageSize"
proof -
  have "(of_nat (Suc n * 4096) :: u32) \<noteq> 0"
    using assms of_nat_word_eq_0 [of "Suc n * 4096", where 'a = 32] by (simp only: len_num1 len_bit0) simp
  then show ?thesis unfolding of_nat_PageSize by (metis add_cancel_left_right)
qed

lemma mapPage_step:
  assumes "vm_ok m us fs" "fs \<noteq> []" "page_of v = v" "addressToPdeIndex v < 1023" "page_of p = p"
    "walk m v = None" "flags AND FlagLazy = 0"
  shows "\<exists>m' us' fs'. mapPage v p flags m = Inr m' \<and> vm_ok m' us' fs' \<and>
    length fs \<le> Suc (length fs') \<and> set fs' \<subseteq> set fs \<and> frame_of m' = frame_of m \<and>
    table_frames m' \<subseteq> table_frames m \<union> frame_of m ` set fs \<and>
    (\<forall>a. addressToPdeIndex a < 1023 \<longrightarrow> walk m' a = (if page_of a = v then Some p else walk m a))"
proof -
  obtain x gs where fs: "fs = x # gs" using assms(2) by (cases fs) auto
  obtain m' where m': "mapPage v p flags m = Inr m'"
      "vm_ok m' (if present (pde_of m v) then us else x # us) (if present (pde_of m v) then x # gs else gs)"
      "\<And>a. addressToPdeIndex a < 1023 \<Longrightarrow> walk m' a =
        (if page_of a = v then if flags AND FlagLazy = 0 then Some p else None else walk m a)"
      "\<And>y. frame_of m' y = frame_of m y" "table_frames m' \<subseteq> insert (frame_of m x) (table_frames m)"
    by (rule mapPage_vm [OF assms(1) [unfolded fs] assms(3-6), of flags]) blast
  have "frame_of m' = frame_of m" using m'(4) by (rule ext)
  then show ?thesis
    using m'(1-3,5) assms(7) fs
    by (intro exI [of _ m'] exI [of _ "if present (pde_of m v) then us else x # us"]
      exI [of _ "if present (pde_of m v) then x # gs else gs"]) auto
qed

lemma region_loop_eq:
  assumes "vm_ok m us fs" "n \<le> length fs" "page_of page = page" "page_of vaddr = vaddr"
    "unat vaddr + n * 4096 \<le> unat PageTableBase" "\<And>a. in_pages vaddr n a \<Longrightarrow> walk m a = None"
    "flags AND FlagLazy = 0"
  shows "\<exists>m' us' fs'. region_loop (page + of_nat n * PageSize) flags page vaddr m = Some (Inr m') \<and>
    vm_ok m' us' fs' \<and> length fs \<le> length fs' + n \<and>
    (\<forall>a. addressToPdeIndex a < 1023 \<longrightarrow>
      walk m' a = (if in_pages vaddr n a then Some (page + (page_of a - vaddr)) else walk m a))"
  using assms
proof (induction n arbitrary: page vaddr m us fs)
  case 0
  then show ?case by (subst region_loop.simps) auto
next
  case (Suc n)
  have small: "Suc n * 4096 < 2 ^ 32" using Suc.prems(5) by (simp add: PageTableBase_def)
  have v: "page_of vaddr = vaddr" "addressToPdeIndex vaddr < 1023" "walk m vaddr = None"
    using Suc.prems(4,6) in_pages_below [OF Suc.prems(4,5), of vaddr] by (simp_all add: in_pages_def)
  have "fs \<noteq> []" using Suc.prems(2) by auto
  from mapPage_step [OF Suc.prems(1) this v(1,2) Suc.prems(3) v(3) Suc.prems(7)]
  obtain m1 us1 fs1 where m1: "mapPage vaddr page flags m = Inr m1" "vm_ok m1 us1 fs1"
      "length fs \<le> Suc (length fs1)"
      "\<And>a. addressToPdeIndex a < 1023 \<Longrightarrow> walk m1 a = (if page_of a = vaddr then Some page else walk m a)"
    by blast
  have len: "n \<le> length fs1" using Suc.prems(2) m1(3) by simp
  have nxt: "page_of (page + PageSize) = page + PageSize" "page_of (vaddr + PageSize) = vaddr + PageSize"
    "unat (vaddr + PageSize) + n * 4096 \<le> unat PageTableBase"
    using Suc.prems(3-5) next_page_bound [OF Suc.prems(5)] by (simp_all add: page_of_next)
  have split: "in_pages vaddr (Suc n) a \<longleftrightarrow> page_of a = vaddr \<or> in_pages (vaddr + PageSize) n a" for a
    by (rule in_pages_Suc [OF v(1)])
  have first: "\<not> in_pages (vaddr + PageSize) n a" if "page_of a = vaddr" for a
    using small that by (simp add: in_pages_def PageSize_def unat_minus_one_word)
  have "walk m1 a = None" if "in_pages (vaddr + PageSize) n a" for a
    using that m1(4) [of a] Suc.prems(6) [of a] in_pages_below [OF nxt(2,3) that] first split by auto
  from Suc.IH [OF m1(2) len nxt this Suc.prems(7)]
  obtain m' us' fs'' where IH:
    "region_loop (page + PageSize + of_nat n * PageSize) flags (page + PageSize) (vaddr + PageSize) m1 = Some (Inr m')"
    "vm_ok m' us' fs''" "length fs1 \<le> length fs'' + n"
    "\<And>a. addressToPdeIndex a < 1023 \<Longrightarrow> walk m' a =
      (if in_pages (vaddr + PageSize) n a then Some (page + PageSize + (page_of a - (vaddr + PageSize)))
       else walk m1 a)" by blast
  have "page \<noteq> page + of_nat (Suc n) * PageSize" by (rule pages_advance [OF small])
  then have "region_loop (page + of_nat (Suc n) * PageSize) flags page vaddr m = Some (Inr m')"
    using m1(1) IH(1) by (subst region_loop.simps) (simp add: algebra_simps)
  moreover have "walk m' a = (if in_pages vaddr (Suc n) a then Some (page + (page_of a - vaddr)) else walk m a)"
    if "addressToPdeIndex a < 1023" for a
    using IH(4) [OF that] m1(4) [OF that] split [of a] first [of a] by (auto simp: algebra_simps)
  ultimately show ?case using IH(2,3) m1(3) by (intro exI [of _ m'] exI [of _ us'] exI [of _ fs'']) simp
qed

text \<open>
  The state of the memory manager: on top of well-formed tables, everything from \<open>lo\<close> up to
  \<open>mapEnd\<close> is unmapped.
\<close>

definition mem_ok :: "u32 \<Rightarrow> memory \<Rightarrow> u32 list \<Rightarrow> u32 list \<Rightarrow> bool" where
  "mem_ok lo s us fs \<longleftrightarrow>
     vm_ok (mach s) us fs \<and> page_of (mapEnd s) = mapEnd s \<and> mapEnd s \<le> PageTableBase \<and>
     (\<forall>a. lo \<le> a \<longrightarrow> a < mapEnd s \<longrightarrow> walk (mach s) a = None)"

text \<open>The number of pages a physical region touches.\<close>

definition page_span :: "u32 \<Rightarrow> u32 \<Rightarrow> nat" where
  "page_span paddr sz = (unat paddr + unat sz + 4095) div 4096 - unat paddr div 4096"

lemma unat_of_nat_u32: "k < 2 ^ 32 \<Longrightarrow> unat (of_nat k :: u32) = k"
  by (simp only: unat_of_nat len_num1 len_bit0) simp

lemma region_size:
  assumes "unat paddr + unat sz + 4095 < 2 ^ 32"
  shows "page_of (paddr + sz + 4095) = page_of paddr + of_nat (page_span paddr sz) * PageSize"
    "unat paddr mod 4096 + unat sz \<le> page_span paddr sz * 4096" "page_span paddr sz * 4096 < 2 ^ 32"
proof -
  let ?e = "unat paddr + unat sz + 4095"
  have e: "unat (paddr + sz + 4095) = ?e" using assms by (simp add: unat_word_ariths)
  have le: "unat paddr div 4096 \<le> ?e div 4096" by (rule div_le_mono) simp
  have n: "page_span paddr sz * 4096 = ?e div 4096 * 4096 - unat paddr div 4096 * 4096"
    by (simp add: page_span_def diff_mult_distrib)
  have p: "unat paddr = unat paddr div 4096 * 4096 + unat paddr mod 4096" by simp
  have q: "?e = ?e div 4096 * 4096 + ?e mod 4096" "?e mod 4096 < 4096" by simp_all
  show "unat paddr mod 4096 + unat sz \<le> page_span paddr sz * 4096" unfolding n using p q by linarith
  show "page_span paddr sz * 4096 < 2 ^ 32" unfolding n using q assms by linarith
  then have "unat (of_nat (page_span paddr sz * 4096) :: u32) = page_span paddr sz * 4096"
    by (rule unat_of_nat_u32)
  moreover have "?e div 4096 * 4096 < 2 ^ 32" by (rule le_less_trans [OF _ assms]) simp
  ultimately have "unat (page_of paddr + of_nat (page_span paddr sz * 4096)) = ?e div 4096 * 4096"
    using n le by (subst unat_word_ariths) (simp add: unat_page_of)
  then show "page_of (paddr + sz + 4095) = page_of paddr + of_nat (page_span paddr sz) * PageSize"
    by (simp add: word_unat_eq_iff unat_page_of e of_nat_PageSize)
qed

lemma region_bottom:
  assumes "page_of hi = hi" "hi \<le> PageTableBase" "unat lo + n * 4096 \<le> unat hi"
  defines "v \<equiv> hi - of_nat n * PageSize"
  shows "page_of v = v" "unat v = unat hi - n * 4096" "unat v + n * 4096 \<le> unat PageTableBase"
    "in_pages v n a \<longleftrightarrow> v \<le> a \<and> a < hi" "lo \<le> v"
proof -
  have "n * 4096 \<le> unat hi" using assms(3) by simp
  then have un: "unat (of_nat (n * 4096) :: u32) = n * 4096"
    by (intro unat_of_nat_u32 le_less_trans [OF _ unat_u32_less])
  have "page_of (of_nat (n * 4096)) = of_nat (n * 4096)"
    using un by (simp add: word_unat_eq_iff unat_page_of)
  then show v: "page_of v = v"
    unfolding v_def of_nat_PageSize by (rule page_of_diff [OF _ assms(1)])
  show uv: "unat v = unat hi - n * 4096"
    unfolding v_def of_nat_PageSize using assms(3) un by (subst unat_sub) (simp_all add: word_le_nat_alt)
  show le: "unat v + n * 4096 \<le> unat PageTableBase"
    using uv assms(2,3) by (simp add: word_le_nat_alt)
  then have "unat v + n * 4096 \<le> 2 ^ 32 - 1" by (simp add: PageTableBase_def)
  from in_pages_iff [OF v this] show "in_pages v n a \<longleftrightarrow> v \<le> a \<and> a < hi"
    using uv assms(3) by (simp add: word_le_nat_alt word_less_nat_alt)
  show "lo \<le> v" using uv assms(3) by (simp add: word_le_nat_alt)
qed

lemma mapRegion_eq:
  assumes ok: "mem_ok lo s us fs" and sz: "sz \<noteq> 0" and phys: "unat paddr + unat sz + 4095 < 2 ^ 32"
    and room: "end_kernel < lo" "unat lo + page_span paddr sz * 4096 \<le> unat (mapEnd s)"
    and free: "page_span paddr sz \<le> length fs" and eager: "flags AND FlagLazy = 0"
  defines "v \<equiv> mapEnd s - of_nat (page_span paddr sz) * PageSize"
  shows "\<exists>s' us' fs'. mapRegion end_kernel paddr sz flags s = Some (Inr (v + offset_of paddr, s')) \<and>
    mem_ok lo s' us' fs' \<and> length fs \<le> length fs' + page_span paddr sz \<and> mapEnd s' = v \<and>
    (\<forall>a. addressToPdeIndex a < 1023 \<longrightarrow> walk (mach s') a =
      (if v \<le> a \<and> a < mapEnd s then Some (page_of paddr + (page_of a - v)) else walk (mach s) a))"
proof -
  let ?n = "page_span paddr sz"
  have vm: "vm_ok (mach s) us fs" and me: "page_of (mapEnd s) = mapEnd s" "mapEnd s \<le> PageTableBase"
    and unm: "\<And>a. lo \<le> a \<Longrightarrow> a < mapEnd s \<Longrightarrow> walk (mach s) a = None"
    using ok by (simp_all add: mem_ok_def)
  note rs = region_size [OF phys]
  note rb = region_bottom [OF me room(2), folded v_def]
  have "walk (mach s) a = None" if "in_pages v ?n a" for a
    using that rb(4) [of a] rb(5) unm [of a] by auto
  from region_loop_eq [OF vm free page_of_idem rb(1,3) this eager]
  obtain m' us' fs' where m': "region_loop (page_of paddr + of_nat ?n * PageSize) flags (page_of paddr) v (mach s) = Some (Inr m')"
      "vm_ok m' us' fs'" "length fs \<le> length fs' + ?n"
      "\<And>a. addressToPdeIndex a < 1023 \<Longrightarrow> walk m' a =
        (if in_pages v ?n a then Some (page_of paddr + (page_of a - v)) else walk (mach s) a)" by blast
  let ?s = "s\<lparr>mapEnd := v, mach := m'\<rparr>"
  have "\<not> v \<le> end_kernel" using room(1) rb(5) by (meson less_le_trans not_le)
  moreover have "paddr - page_of paddr = offset_of paddr"
    using page_plus_offset [of paddr] by (simp add: diff_eq_eq add.commute)
  ultimately have "mapRegion end_kernel paddr sz flags s = Some (Inr (v + offset_of paddr, ?s))"
    using sz m'(1) by (simp add: mapRegion_def Let_def roundTo_page roundDown_page rs(1) v_def bindr_def)
  moreover have "mem_ok lo ?s us' fs'"
  proof -
    have "walk m' a = None" if "lo \<le> a" "a < v" for a
    proof -
      have "a < mapEnd s" using that(2) rb(2) by (simp add: word_less_nat_alt)
      then show ?thesis
        using that m'(4) [of a] unm [of a] rb(4) [of a] me(2) by (simp add: below_window [symmetric] not_le)
    qed
    moreover have "v \<le> PageTableBase" using rb(3) by (simp add: word_le_nat_alt)
    ultimately show ?thesis using m'(2) rb(1) by (simp add: mem_ok_def)
  qed
  ultimately show ?thesis
    using m'(3,4) rb(4) by (intro exI [of _ ?s] exI [of _ us'] exI [of _ fs']) simp
qed

text \<open>Every byte of the physical region appears at its place.\<close>

lemma region_bytes:
  fixes lo :: u32
  assumes phys: "unat paddr + unat sz + 4095 < 2 ^ 32" and i: "i < sz"
    and me: "page_of hi = hi" "hi \<le> PageTableBase" "unat lo + page_span paddr sz * 4096 \<le> unat hi"
  defines "v \<equiv> hi - of_nat (page_span paddr sz) * PageSize"
  defines "a \<equiv> v + offset_of paddr + i"
  shows "v \<le> a \<and> a < hi" "page_of paddr + (page_of a - v) + offset_of a = paddr + i"
proof -
  let ?x = "offset_of paddr + i"
  note rs = region_size [OF phys]
  note rb = region_bottom [OF me, folded v_def]
  have i': "unat i < unat sz" using i by (simp add: word_less_nat_alt)
  have x: "unat ?x = unat paddr mod 4096 + unat i"
    using i' rs(2,3) by (simp add: unat_word_ariths unat_offset_of)
  have a: "page_of a - v = page_of ?x" "offset_of a = offset_of ?x"
    using page_of_shift [OF rb(1), of ?x] offset_of_shift [OF rb(1), of ?x] by (simp_all add: a_def add.assoc)
  have "unat (page_of ?x) \<le> unat ?x" by (simp add: unat_page_of)
  then have "in_pages v (page_span paddr sz) a" using x i' rs(2) by (simp add: in_pages_def a)
  then show "v \<le> a \<and> a < hi" using rb(4) by simp
  have "page_of paddr + ?x = paddr + i" using page_plus_offset [of paddr] by (metis add.assoc)
  then show "page_of paddr + (page_of a - v) + offset_of a = paddr + i"
    using page_plus_offset [of ?x] by (simp add: a add.assoc)
qed

section \<open>Mapping fresh memory\<close>

lemma vm_take:
  assumes "vm_ok m us (x # fs)"
  obtains pg where "getPage (pages m) = Inr (frame_of m x, pg)" "vm_ok (m\<lparr>pages := pg\<rparr>) (x # us) fs"
    "frame_of (m\<lparr>pages := pg\<rparr>) = frame_of m" "frame_of m x \<noteq> 0" "page_of (frame_of m x) = frame_of m x"
    "frame_of m x \<notin> table_frames m" "frame_of m x \<notin> frame_of m ` set fs"
proof -
  obtain pg where pg: "spare m (frame_of m x) pg" "alloc_repr pg (x # us) fs"
      "\<And>y. getAddress (store pg y) = frame_of m y"
    by (rule vm_getPage [OF assms]) blast
  have eq: "frame_of (m\<lparr>pages := pg\<rparr>) = frame_of m" using pg(3) by (simp add: fun_eq_iff frame_of_def)
  have "vm_ok (m\<lparr>pages := pg\<rparr>) (x # us) fs" using assms pg(2) by (simp add: vm_ok_def eq)
  then show ?thesis using that [of pg] pg(1) eq assms by (simp add: spare_def vm_ok_def)
qed

lemma not_in_next_pages: "Suc n * 4096 < 2 ^ 32 \<Longrightarrow> page_of a = v \<Longrightarrow> \<not> in_pages (v + PageSize) n a"
  by (simp add: in_pages_def PageSize_def unat_minus_one_word)

text \<open>
  The \<open>n\<close> pages from \<open>v\<close> on have been mapped to the distinct frames \<open>frames\<close>, which were free
  before and are neither free nor page tables afterwards; everything else is as before.
\<close>

definition anon_mapped ::
  "machine \<Rightarrow> u32 list \<Rightarrow> u32 \<Rightarrow> nat \<Rightarrow> machine \<Rightarrow> u32 list \<Rightarrow> u32 list \<Rightarrow> bool" where
  "anon_mapped m fs v n m' fs' frames \<longleftrightarrow>
     length fs \<le> length fs' + 2 * n \<and> set fs' \<subseteq> set fs \<and> frame_of m' = frame_of m \<and>
     table_frames m' \<subseteq> table_frames m \<union> frame_of m ` set fs \<and>
     length frames = n \<and> distinct frames \<and> set frames \<subseteq> frame_of m ` set fs \<and>
     set frames \<inter> (frame_of m ` set fs' \<union> table_frames m') = {} \<and>
     (\<forall>a. addressToPdeIndex a < 1023 \<longrightarrow>
        walk m' a = (if in_pages v n a then Some (frames ! page_index v a) else walk m a))"

lemma anon_mapped_0: "anon_mapped m fs v 0 m fs []"
  by (auto simp: anon_mapped_def)

lemma anon_mapped_Suc:
  assumes "anon_mapped m1 fs1 (v + PageSize) n m' fs' frames" "page_of v = v" "Suc n * 4096 < 2 ^ 32"
    and x: "frame_of m x \<notin> table_frames m" "frame_of m x \<notin> frame_of m ` set gs"
    and m1: "length gs \<le> Suc (length fs1)" "set fs1 \<subseteq> set gs" "frame_of m1 = frame_of m"
      "table_frames m1 \<subseteq> table_frames m \<union> frame_of m ` set gs"
      "\<And>a. addressToPdeIndex a < 1023 \<Longrightarrow> walk m1 a = (if page_of a = v then Some (frame_of m x) else walk m a)"
  shows "anon_mapped m (x # gs) v (Suc n) m' fs' (frame_of m x # frames)"
proof -
  have walk: "walk m' a =
      (if in_pages v (Suc n) a then Some ((frame_of m x # frames) ! page_index v a) else walk m a)"
    if "addressToPdeIndex a < 1023" for a
    using assms(1) that m1(5) [OF that] in_pages_Suc [OF assms(2), of n a] not_in_next_pages [OF assms(3), of a v]
      page_index_simps [OF assms(2), of a] by (cases "page_of a = v") (auto simp: anon_mapped_def)
  have old: "length fs1 \<le> length fs' + 2 * n" "set fs' \<subseteq> set fs1" "frame_of m' = frame_of m"
      "table_frames m' \<subseteq> table_frames m1 \<union> frame_of m ` set fs1" "length frames = n" "distinct frames"
      "set frames \<subseteq> frame_of m ` set fs1" "set frames \<inter> (frame_of m ` set fs' \<union> table_frames m') = {}"
    using assms(1) m1(3) by (simp_all add: anon_mapped_def)
  have img: "frame_of m ` set fs1 \<subseteq> frame_of m ` set gs" by (rule image_mono [OF m1(2)])
  have sub: "set fs' \<subseteq> set gs" "set frames \<subseteq> frame_of m ` set gs"
    using old(2,7) m1(2) img by (blast intro: subset_trans)+
  have tab: "table_frames m' \<subseteq> table_frames m \<union> frame_of m ` set gs" using old(4) img m1(4) by blast
  have "frame_of m x \<notin> set frames" "frame_of m x \<notin> frame_of m ` set fs'" "frame_of m x \<notin> table_frames m'"
    using x sub tab image_mono [OF sub(1), of "frame_of m"] by blast+
  then have "set (frame_of m x # frames) \<inter> (frame_of m ` set fs' \<union> table_frames m') = {}"
      "distinct (frame_of m x # frames)" "length (frame_of m x # frames) = Suc n"
    using old(5,6,8) by simp_all
  moreover have "set fs' \<subseteq> set (x # gs)" "set (frame_of m x # frames) \<subseteq> frame_of m ` set (x # gs)"
      "table_frames m' \<subseteq> table_frames m \<union> frame_of m ` set (x # gs)" "length (x # gs) \<le> length fs' + 2 * Suc n"
    using sub tab old(1) m1(1) by auto
  ultimately show ?thesis
    using old(3) walk unfolding anon_mapped_def by blast
qed

lemma anon_loop_eq:
  assumes "vm_ok m us fs" "2 * n \<le> length fs" "page_of vaddr = vaddr"
    "unat vaddr + (k + n) * 4096 \<le> unat PageTableBase"
    "\<forall>a. in_pages (vaddr + of_nat k * PageSize) n a \<longrightarrow> walk m a = None" "flags AND FlagLazy = 0"
  shows "\<exists>m' us' fs' frames.
    anon_loop vaddr (of_nat (k + n) * PageSize) flags (of_nat k * PageSize) m = Some (Inr m') \<and>
    vm_ok m' us' fs' \<and> anon_mapped m fs (vaddr + of_nat k * PageSize) n m' fs' frames"
  using assms
proof (induction n arbitrary: k m us fs)
  case 0
  have "anon_loop vaddr (of_nat (k + 0) * PageSize) flags (of_nat k * PageSize) m = Some (Inr m)"
    by (subst anon_loop.simps) simp
  then show ?case using 0 anon_mapped_0 by blast
next
  case (Suc n)
  have kn: "unat vaddr + (Suc k + n) * 4096 \<le> unat PageTableBase" "(k + Suc n) * 4096 < 2 ^ 32"
    using Suc.prems(4) by (simp_all add: PageTableBase_def)
  let ?v = "vaddr + of_nat k * PageSize"
  have un: "unat (of_nat j * PageSize) = j * 4096" if "j \<le> k + Suc n" for j
    unfolding of_nat_PageSize using that kn(2) by (intro unat_of_nat_u32) (auto intro: le_less_trans)
  have "page_of (of_nat k * PageSize) = of_nat k * PageSize"
    using un [of k] by (simp add: word_unat_eq_iff unat_page_of)
  then have v: "page_of ?v = ?v" by (simp add: page_of_shift [OF Suc.prems(3)])
  have uv: "unat ?v = unat vaddr + k * 4096"
    using un [of k] kn(1) by (subst unat_word_ariths) (simp add: PageTableBase_def)
  have vw: "addressToPdeIndex ?v < 1023" "walk m ?v = None"
    using in_pages_below [OF v, of "Suc n" ?v] Suc.prems(4,5) v uv by (simp_all add: in_pages_def)
  have small: "Suc n * 4096 < 2 ^ 32" using kn(2) by simp
  have step: "?v + PageSize = vaddr + of_nat (Suc k) * PageSize" by (simp add: algebra_simps)
  obtain x gs where "fs = x # gs" using Suc.prems(2) by (cases fs) auto
  moreover have "gs \<noteq> []" using Suc.prems(2) calculation by auto
  ultimately have fs: "fs = x # gs" "gs \<noteq> []" .
  obtain pg where pg: "getPage (pages m) = Inr (frame_of m x, pg)" "vm_ok (m\<lparr>pages := pg\<rparr>) (x # us) gs"
      "frame_of (m\<lparr>pages := pg\<rparr>) = frame_of m" "frame_of m x \<noteq> 0" "page_of (frame_of m x) = frame_of m x"
      "frame_of m x \<notin> table_frames m" "frame_of m x \<notin> frame_of m ` set gs"
    by (rule vm_take [OF Suc.prems(1) [unfolded fs(1)]]) blast
  have "walk (m\<lparr>pages := pg\<rparr>) ?v = None" using vw(2) by simp
  from mapPage_step [OF pg(2) fs(2) v vw(1) pg(5) this Suc.prems(6)]
  obtain m1 us1 fs1 where m1: "mapPage ?v (frame_of m x) flags (m\<lparr>pages := pg\<rparr>) = Inr m1" "vm_ok m1 us1 fs1"
      "length gs \<le> Suc (length fs1)" "set fs1 \<subseteq> set gs" "frame_of m1 = frame_of m"
      "table_frames m1 \<subseteq> table_frames m \<union> frame_of m ` set gs"
      "\<And>a. addressToPdeIndex a < 1023 \<Longrightarrow> walk m1 a = (if page_of a = ?v then Some (frame_of m x) else walk m a)"
    unfolding pg(3) table_frames_pages walk_pages by blast
  have fresh: "\<forall>a. in_pages (vaddr + of_nat (Suc k) * PageSize) n a \<longrightarrow> walk m1 a = None"
  proof (intro allI impI)
    fix a
    assume "in_pages (vaddr + of_nat (Suc k) * PageSize) n a"
    then have "in_pages ?v (Suc n) a" "page_of a \<noteq> ?v"
      using in_pages_Suc [OF v, of n a] not_in_next_pages [OF small, of a ?v] by (auto simp: step)
    then show "walk m1 a = None"
      using m1(7) [of a] Suc.prems(5) in_pages_below [OF v, of "Suc n" a] Suc.prems(4) uv by simp
  qed
  have len: "2 * n \<le> length fs1" using Suc.prems(2) m1(3) fs(1) by simp
  from Suc.IH [OF m1(2) len Suc.prems(3) kn(1) fresh Suc.prems(6)]
  obtain m' us' fs' frames where IH:
    "anon_loop vaddr (of_nat (Suc k + n) * PageSize) flags (of_nat (Suc k) * PageSize) m1 = Some (Inr m')"
    "vm_ok m' us' fs'" "anon_mapped m1 fs1 (?v + PageSize) n m' fs' frames"
    unfolding step by blast
  have "of_nat k * PageSize < of_nat (k + Suc n) * PageSize" by (simp only: word_less_nat_alt un) simp
  then have "anon_loop vaddr (of_nat (k + Suc n) * PageSize) flags (of_nat k * PageSize) m = Some (Inr m')"
    using pg(1,4) m1(1) IH(1) by (subst anon_loop.simps) (simp add: algebra_simps)
  then show ?case
    using IH(2) anon_mapped_Suc [OF IH(3) v small pg(6,7) m1(3-7)] fs(1) by blast
qed

lemma mapAnonymousRegion_eq:
  assumes ok: "mem_ok lo s us fs" and sz: "sz \<noteq> 0" "unat sz + 4095 < 2 ^ 32"
    and room: "end_kernel < lo" "unat lo + page_span 0 sz * 4096 \<le> unat (mapEnd s)"
    and free: "2 * page_span 0 sz \<le> length fs" and eager: "flags AND FlagLazy = 0"
  defines "v \<equiv> mapEnd s - of_nat (page_span 0 sz) * PageSize"
  shows "\<exists>s' us' fs' frames. mapAnonymousRegion end_kernel sz flags s = Some (Inr (v, s')) \<and>
    mem_ok lo s' us' fs' \<and> mapEnd s' = v \<and> anon_mapped (mach s) fs v (page_span 0 sz) (mach s') fs' frames"
proof -
  let ?n = "page_span 0 sz"
  have vm: "vm_ok (mach s) us fs" and me: "page_of (mapEnd s) = mapEnd s" "mapEnd s \<le> PageTableBase"
    and unm: "\<And>a. lo \<le> a \<Longrightarrow> a < mapEnd s \<Longrightarrow> walk (mach s) a = None"
    using ok by (simp_all add: mem_ok_def)
  note rb = region_bottom [OF me room(2), folded v_def]
  have rs: "roundTo sz PageSize = of_nat ?n * PageSize"
    using region_size(1) [of 0 sz] sz(2) by (simp add: roundTo_page page_of_def)
  have "\<forall>a. in_pages (v + of_nat 0 * PageSize) ?n a \<longrightarrow> walk (mach s) a = None"
    using rb(4) rb(5) unm by (auto intro: order_trans)
  from anon_loop_eq [OF vm free rb(1) _ this eager]
  obtain m' us' fs' frames where m': "anon_loop v (of_nat ?n * PageSize) flags 0 (mach s) = Some (Inr m')"
      "vm_ok m' us' fs'" "anon_mapped (mach s) fs v ?n m' fs' frames"
    using rb(3) by auto
  let ?s = "s\<lparr>mapEnd := v, mach := m'\<rparr>"
  have "\<not> v \<le> end_kernel" using room(1) rb(5) by (meson less_le_trans not_le)
  then have "mapAnonymousRegion end_kernel sz flags s = Some (Inr (v, ?s))"
    using sz(1) m'(1) by (simp add: mapAnonymousRegion_def Let_def rs v_def bindr_def)
  moreover have "mem_ok lo ?s us' fs'"
  proof -
    have "walk m' a = None" if "lo \<le> a" "a < v" for a
    proof -
      have "a < mapEnd s" using that(2) rb(2) by (simp add: word_less_nat_alt)
      then show ?thesis
        using that m'(3) unm [of a] rb(4) [of a] me(2)
        by (simp add: anon_mapped_def below_window [symmetric] not_le)
    qed
    moreover have "v \<le> PageTableBase" using rb(3) by (simp add: word_le_nat_alt)
    ultimately show ?thesis using m'(2) rb(1) by (simp add: mem_ok_def)
  qed
  ultimately show ?thesis
    using m'(3) by (intro exI [of _ ?s] exI [of _ us'] exI [of _ fs'] exI [of _ frames]) simp
qed

section \<open>Unmapping a region\<close>

lemma unmap_loop_eq:
  assumes "tables_ok m" "page_of page = page" "unat page + n * 4096 \<le> unat PageTableBase"
    "\<forall>a. in_pages page n a \<longrightarrow> walk m a \<noteq> None"
  shows "\<exists>m'. unmap_loop (page + of_nat n * PageSize) page m = Some (Inr m') \<and> tables_ok m' \<and>
    pages m' = pages m \<and> table_frames m' = table_frames m \<and>
    (\<forall>a. walk m' a = (if in_pages page n a then None else walk m a))"
  using assms
proof (induction n arbitrary: page m)
  case 0
  then show ?case by (subst unmap_loop.simps) auto
next
  case (Suc n)
  have small: "Suc n * 4096 < 2 ^ 32" using Suc.prems(3) by (simp add: PageTableBase_def)
  have p: "addressToPdeIndex page < 1023" "walk m page \<noteq> None"
    using Suc.prems(2,4) in_pages_below [OF Suc.prems(2,3), of page] by (simp_all add: in_pages_def)
  obtain m1 where m1: "unmapPage page m = Inr m1" "tables_ok m1" "pages m1 = pages m"
      "\<And>a. walk m1 a = (if page_of a = page then None else walk m a)" "table_frames m1 = table_frames m"
    by (rule unmapPage_ok [OF Suc.prems(1,2) p]) blast
  have nxt: "page_of (page + PageSize) = page + PageSize" "unat (page + PageSize) + n * 4096 \<le> unat PageTableBase"
    using Suc.prems(2,3) next_page_bound [OF Suc.prems(3)] by (simp_all add: page_of_next)
  have "\<forall>a. in_pages (page + PageSize) n a \<longrightarrow> walk m1 a \<noteq> None"
    using Suc.prems(4) m1(4) in_pages_Suc [OF Suc.prems(2), of n] not_in_next_pages [OF small] by auto
  from Suc.IH [OF m1(2) nxt this] obtain m' where IH:
    "unmap_loop (page + PageSize + of_nat n * PageSize) (page + PageSize) m1 = Some (Inr m')" "tables_ok m'"
    "pages m' = pages m1" "table_frames m' = table_frames m1"
    "\<And>a. walk m' a = (if in_pages (page + PageSize) n a then None else walk m1 a)" by blast
  have "unmap_loop (page + of_nat (Suc n) * PageSize) page m = Some (Inr m')"
    using m1(1) IH(1) pages_advance [OF small, of page] by (subst unmap_loop.simps) (simp add: algebra_simps)
  then show ?case
    using IH m1(3-5) in_pages_Suc [OF Suc.prems(2), of n] by (intro exI [of _ m']) auto
qed

lemma unmapRegion_eq:
  assumes ok: "tables_ok (mach s)" and phys: "unat paddr + unat sz + 4095 < 2 ^ 32" and sz: "sz \<noteq> 0"
    and v: "page_of v = v" "unat v + page_span paddr sz * 4096 \<le> unat PageTableBase"
    and mapped: "\<forall>a. in_pages v (page_span paddr sz) a \<longrightarrow> walk (mach s) a \<noteq> None"
  shows "\<exists>m'. unmapRegion (v + offset_of paddr) sz s = Some (Inr (s\<lparr>mach := m'\<rparr>)) \<and> tables_ok m' \<and>
    pages m' = pages (mach s) \<and> table_frames m' = table_frames (mach s) \<and>
    (\<forall>a. walk m' a = (if in_pages v (page_span paddr sz) a then None else walk (mach s) a))"
proof -
  have "paddr + sz + 4095 = page_of paddr + (offset_of paddr + sz + 4095)"
    using page_plus_offset [of paddr] by (simp add: add.assoc [symmetric])
  then have n: "page_of (offset_of paddr + sz + 4095) = of_nat (page_span paddr sz) * PageSize"
    using region_size(1) [OF phys] page_of_shift [of "page_of paddr" "offset_of paddr + sz + 4095"]
    by (metis add_left_cancel page_of_idem)
  have "page_of (offset_of paddr) = 0" by (simp add: word_unat_eq_iff unat_page_of unat_offset_of)
  then have "roundDown (v + offset_of paddr) PageSize = v"
      "roundTo (v + offset_of paddr + sz) PageSize = v + of_nat (page_span paddr sz) * PageSize"
    using page_of_shift [OF v(1)] n by (simp_all add: roundDown_page roundTo_page add.assoc)
  then show ?thesis
    using unmap_loop_eq [OF ok v mapped] sz by (auto simp: unmapRegion_def bindr_def)
qed

section \<open>Properties\<close>

definition example_memory :: memory where
  "example_memory = \<lparr>mach = example_machine, mapEnd = MapStart, memoryMap = []\<rparr>"

lemma example_mem_ok: "mem_ok 0xe0000000 example_memory [] [48, 64]"
proof -
  have "walk example_machine a = None" if "a < MapStart" for a
  proof -
    have "addressToPdeIndex a < 1023"
      using that by (auto simp: below_window [symmetric] MapStart_def KernelStackSize_def PageTableBase_def
        intro: less_trans)
    then show ?thesis using example_pd [OF index_bounds(1), of a] by (auto simp: walk_alt present_odd)
  qed
  then show ?thesis
    using example_vm_ok
    by (simp add: mem_ok_def example_memory_def MapStart_def KernelStackSize_def PageTableBase_def page_of_def
      PageMask_def PageSize_def)
qed

text \<open>
  C10. \<open>Memory::mapRegion\<close>, from a well-formed state of the memory manager, for a region that is not empty
  and does not reach the end of the physical address space, and flags without the lazy one. The
  addresses from \<open>lo\<close>, behind the kernel, to \<open>mapEnd\<close> are unmapped and have room for every page that the region
  touches, and at least as many pages are free (page tables are taken from them). Then the region is
  mapped below the old \<open>mapEnd\<close>, and every byte \<open>paddr + i\<close> of the physical region, whatever its
  alignment, is what the processor finds at the returned address plus \<open>i\<close>; no other address below the table
  window changes its translation. \<open>Memory::unmapRegion\<close> on the returned address succeeds and restores
  every translation below the table window.
\<close>

theorem mapRegion_maps:
  assumes "mem_ok lo s us fs" "sz \<noteq> 0" "unat paddr + unat sz + 4095 < 2 ^ 32" "end_kernel < lo"
    "unat lo + page_span paddr sz * 4096 \<le> unat (mapEnd s)" "page_span paddr sz \<le> length fs"
    "flags AND FlagLazy = 0"
  shows "\<exists>r s' us' fs' s''. mapRegion end_kernel paddr sz flags s = Some (Inr (r, s')) \<and> mem_ok lo s' us' fs' \<and>
    (\<forall>i < sz. translate (mach s') (r + i) = Some (paddr + i)) \<and>
    (\<forall>a < PageTableBase. a < mapEnd s' \<or> mapEnd s \<le> a \<longrightarrow> translate (mach s') a = translate (mach s) a) \<and>
    unmapRegion r sz s' = Some (Inr s'') \<and>
    (\<forall>a < PageTableBase. translate (mach s'') a = translate (mach s) a)"
proof -
  let ?n = "page_span paddr sz"
  define v where "v = mapEnd s - of_nat ?n * PageSize"
  from mapRegion_eq [OF assms] obtain s' us' fs' where
    s': "mapRegion end_kernel paddr sz flags s = Some (Inr (v + offset_of paddr, s'))" "mem_ok lo s' us' fs'"
      "mapEnd s' = v"
      "\<And>a. addressToPdeIndex a < 1023 \<Longrightarrow> walk (mach s') a =
        (if v \<le> a \<and> a < mapEnd s then Some (page_of paddr + (page_of a - v)) else walk (mach s) a)"
    unfolding v_def by blast
  have ok: "tables_ok (mach s)" "tables_ok (mach s')" using assms(1) s'(2) by (simp_all add: mem_ok_def vm_ok_def)
  have me: "page_of (mapEnd s) = mapEnd s" "mapEnd s \<le> PageTableBase"
    and unm: "\<And>a. lo \<le> a \<Longrightarrow> a < mapEnd s \<Longrightarrow> walk (mach s) a = None" using assms(1) by (simp_all add: mem_ok_def)
  note rb = region_bottom [OF me assms(5), folded v_def]
  have "translate (mach s') (v + offset_of paddr + i) = Some (paddr + i)" if "i < sz" for i
  proof -
    note b = region_bytes [OF assms(3) that me assms(5), folded v_def]
    have "addressToPdeIndex (v + offset_of paddr + i) < 1023"
      using b(1) me(2) by (auto simp: below_window [symmetric] intro: less_le_trans)
    from s'(4) [OF this] b show ?thesis by (simp add: translate_ok ok)
  qed
  moreover have "translate (mach s') a = translate (mach s) a"
    if "a < PageTableBase" "a < mapEnd s' \<or> mapEnd s \<le> a" for a
    using that s'(3) s'(4) [of a] by (auto simp: translate_ok ok below_window not_le)
  moreover obtain m' where m': "unmapRegion (v + offset_of paddr) sz s' = Some (Inr (s'\<lparr>mach := m'\<rparr>))" "tables_ok m'"
      "\<And>a. walk m' a = (if in_pages v ?n a then None else walk (mach s') a)"
  proof -
    have "\<forall>a. in_pages v ?n a \<longrightarrow> walk (mach s') a \<noteq> None"
      using s'(4) rb(4) in_pages_below [OF rb(1,3)] by auto
    from unmapRegion_eq [OF ok(2) assms(3,2) rb(1,3) this] that show ?thesis by blast
  qed
  moreover have "translate m' a = translate (mach s) a" if "a < PageTableBase" for a
    using that s'(4) [of a] rb(4) [of a] unm [of a] order_trans [OF rb(5), of a]
    by (auto simp: translate_ok ok m'(2,3) below_window)
  ultimately show ?thesis
    using s'(1,2) by (intro exI [of _ "v + offset_of paddr"] exI [of _ s'] exI [of _ us'] exI [of _ fs']
      exI [of _ "s'\<lparr>mach := m'\<rparr>"]) simp
qed

theorem mapRegion_maps_witness:
  "\<exists>r s'. mapRegion 0xc0100000 0xb8ffe 4 0 example_memory = Some (Inr (r, s')) \<and>
    translate (mach s') (r + 3) = Some 0xb9001"
  using mapRegion_maps [OF example_mem_ok, of 4 "0xb8ffe" "0xc0100000" 0]
  by (auto simp: page_span_def example_memory_def MapStart_def KernelStackSize_def PageTableBase_def)

text \<open>
  C11. \<open>Memory::mapAnonymousRegion\<close> hands out memory nobody else uses. From a well-formed state of the
  memory manager, for a size that is not 0 and can be rounded to pages, and flags without the lazy one; the
  addresses from \<open>lo\<close>, behind the kernel, to \<open>mapEnd\<close> are unmapped and have room for the region, and two pages
  are free for every page of the rounded size. Then it succeeds, the pages of the region, directly below
  the old \<open>mapEnd\<close>, are mapped to pairwise different frames that came from the free cluster, and
  afterwards none of these frames is free or in use as a page table; every address below the table
  window and outside the region keeps its translation.
\<close>

theorem mapAnonymousRegion_fresh:
  assumes "mem_ok lo s us fs" "sz \<noteq> 0" "unat sz + 4095 < 2 ^ 32" "end_kernel < lo"
    "unat lo + page_span 0 sz * 4096 \<le> unat (mapEnd s)" "2 * page_span 0 sz \<le> length fs"
    "flags AND FlagLazy = 0"
  shows "\<exists>v s' us' fs' frames. mapAnonymousRegion end_kernel sz flags s = Some (Inr (v, s')) \<and>
    mem_ok lo s' us' fs' \<and> mapEnd s' = v \<and> v = mapEnd s - of_nat (page_span 0 sz) * PageSize \<and>
    length frames = page_span 0 sz \<and> distinct frames \<and> set frames \<subseteq> frame_of (mach s) ` set fs \<and>
    set frames \<inter> (frame_of (mach s') ` set fs' \<union> table_frames (mach s')) = {} \<and>
    (\<forall>a < PageTableBase. translate (mach s') a =
      (if v \<le> a \<and> a < mapEnd s then Some (frames ! page_index v a + offset_of a) else translate (mach s) a))"
proof -
  define v where "v = mapEnd s - of_nat (page_span 0 sz) * PageSize"
  from mapAnonymousRegion_eq [OF assms] obtain s' us' fs' frames where
    s': "mapAnonymousRegion end_kernel sz flags s = Some (Inr (v, s'))" "mem_ok lo s' us' fs'" "mapEnd s' = v"
      "anon_mapped (mach s) fs v (page_span 0 sz) (mach s') fs' frames"
    unfolding v_def by blast
  have ok: "tables_ok (mach s)" "tables_ok (mach s')" using assms(1) s'(2) by (simp_all add: mem_ok_def vm_ok_def)
  have me: "page_of (mapEnd s) = mapEnd s" "mapEnd s \<le> PageTableBase" using assms(1) by (simp_all add: mem_ok_def)
  note rb = region_bottom [OF me assms(5), folded v_def]
  have "translate (mach s') a =
      (if v \<le> a \<and> a < mapEnd s then Some (frames ! page_index v a + offset_of a) else translate (mach s) a)"
    if "a < PageTableBase" for a
    using that s'(4) rb(4) [of a] by (simp add: anon_mapped_def translate_ok ok below_window)
  then show ?thesis
    using s' by (intro exI [of _ v] exI [of _ s'] exI [of _ us'] exI [of _ fs'] exI [of _ frames])
      (simp add: anon_mapped_def v_def)
qed

theorem mapAnonymousRegion_fresh_witness:
  "\<exists>s' us' fs' frames. mapAnonymousRegion 0xc0100000 100 0 example_memory = Some (Inr (0xffbef000, s')) \<and>
    mem_ok 0xe0000000 s' us' fs' \<and> length frames = 1 \<and> set frames \<inter> table_frames (mach s') = {}"
proof -
  have span: "page_span 0 100 = 1" by (simp add: page_span_def)
  have mapEnd: "mapEnd example_memory = 0xffbf0000"
    by (simp add: example_memory_def MapStart_def KernelStackSize_def PageTableBase_def)
  have prems: "(100 :: u32) \<noteq> 0" "unat (100 :: u32) + 4095 < 2 ^ 32" "(0xc0100000 :: u32) < 0xe0000000"
      "unat (0xe0000000 :: u32) + page_span 0 100 * 4096 \<le> unat (mapEnd example_memory)"
      "2 * page_span 0 100 \<le> length [48, 64 :: u32]" "(0 :: u32) AND FlagLazy = 0"
    by (simp_all add: span mapEnd)
  from mapAnonymousRegion_fresh [OF example_mem_ok prems] show ?thesis
  proof (elim exE conjE)
    fix v s' us' fs' frames
    assume call: "mapAnonymousRegion 0xc0100000 100 0 example_memory = Some (Inr (v, s'))"
      and ok: "mem_ok 0xe0000000 s' us' fs'"
      and v: "v = mapEnd example_memory - of_nat (page_span 0 100) * PageSize"
      and frames: "length frames = page_span 0 100"
        "set frames \<inter> (frame_of (mach s') ` set fs' \<union> table_frames (mach s')) = {}"
    have "v = 0xffbef000" using v by (simp add: mapEnd span PageSize_def)
    moreover have "set frames \<inter> table_frames (mach s') = {}" using frames(2) by blast
    ultimately show ?thesis
      using call ok frames(1) span by (intro exI [of _ s'] exI [of _ us'] exI [of _ fs'] exI [of _ frames]) simp
  qed
qed

end
