(* ===== verification/C_Memory.thy ===== *)
theory C_Memory
  imports Prelude
begin

text \<open>
  The flat memory of the C library: a byte for every 32-bit address, so pointer arithmetic
  wraps as it does on the machine. Aligned or not, a \<open>long\<close> is four bytes in little-endian
  order. \<open>moved\<close> is the reference for the copying functions and \<open>TLOOP1\<close> the loop they use.
\<close>

type_synonym mem = "u32 \<Rightarrow> u8"

definition read_long :: "mem \<Rightarrow> u32 \<Rightarrow> u32" where
  "read_long m p = ucast (m p) OR push_bit 8 (ucast (m (p + 1)))
     OR push_bit 16 (ucast (m (p + 2))) OR push_bit 24 (ucast (m (p + 3)))"

definition write_long :: "mem \<Rightarrow> u32 \<Rightarrow> u32 \<Rightarrow> mem" where
  "write_long m p w = m(p := ucast w, p + 1 := ucast (drop_bit 8 w),
     p + 2 := ucast (drop_bit 16 w), p + 3 := ucast (drop_bit 24 w))"

text \<open>The macro \<open>TLOOP1\<close>: \<open>do { s; } while (--t)\<close>. With \<open>t = 0\<close> it runs \<open>2 ^ 32\<close> times.\<close>

function TLOOP1 :: "('s \<Rightarrow> 's) \<Rightarrow> u32 \<Rightarrow> 's \<Rightarrow> 's" where
  "TLOOP1 s t st = (if t - 1 \<noteq> 0 then TLOOP1 s (t - 1) (s st) else s st)"
  by pat_completeness auto
termination
proof (relation "measure (\<lambda>(s, t, st). unat (t - 1))")
  fix s :: "'s \<Rightarrow> 's" and t :: u32 and st
  assume "t - 1 \<noteq> 0"
  from unat_minus_one_less [OF this]
  show "((s, t - 1, s st), s, t, st) \<in> measure (\<lambda>(s, t, st). unat (t - 1))" by simp
qed simp

declare TLOOP1.simps [simp del]

definition TLOOP :: "('s \<Rightarrow> 's) \<Rightarrow> u32 \<Rightarrow> 's \<Rightarrow> 's" where
  "TLOOP s t st = (if t \<noteq> 0 then TLOOP1 s t st else st)"

lemma TLOOP1_eq: "t \<noteq> 0 \<Longrightarrow> TLOOP1 s t st = (s ^^ unat t) st"
proof (induction s t st rule: TLOOP1.induct)
  case (1 s t st)
  have t: "unat t = Suc (unat (t - 1))" using "1.prems" by (rule unat_minus_one_word)
  then show ?case
  proof (cases "t - 1 = 0")
    case True
    with t show ?thesis by (subst TLOOP1.simps) simp
  next
    case False
    with 1 t show ?thesis by (subst TLOOP1.simps) (simp add: funpow_swap1)
  qed
qed

lemma TLOOP_eq: "TLOOP s t st = (s ^^ unat t) st"
  by (simp add: TLOOP_def TLOOP1_eq)

section \<open>Byte ranges\<close>

text \<open>The bytes of a range, and a memory with the bytes of a range replaced.\<close>

definition bytes :: "mem \<Rightarrow> u32 \<Rightarrow> nat \<Rightarrow> u8 list" where
  "bytes m p n = map (\<lambda>i. m (p + of_nat i)) [0..<n]"

definition in_range :: "u32 \<Rightarrow> nat \<Rightarrow> u32 \<Rightarrow> bool" where
  "in_range p n a \<longleftrightarrow> unat (a - p) < n"

definition moved :: "mem \<Rightarrow> u32 \<Rightarrow> u32 \<Rightarrow> nat \<Rightarrow> mem" where
  "moved m d s n = (\<lambda>a. if in_range d n a then m (s + (a - d)) else m a)"

lemma length_bytes [simp]: "length (bytes m p n) = n"
  by (simp add: bytes_def)

lemma nth_bytes [simp]: "i < n \<Longrightarrow> bytes m p n ! i = m (p + of_nat i)"
  by (simp add: bytes_def)

lemma in_range_of_nat: "i < 2 ^ 32 \<Longrightarrow> in_range p n (p + of_nat i) \<longleftrightarrow> i < n"
  by (simp add: in_range_def unat_of_nat)

lemma bytes_cong:
  "(\<And>i. i < n \<Longrightarrow> m (p + of_nat i) = m' (q + of_nat i)) \<Longrightarrow> bytes m p n = bytes m' q n"
  by (simp add: bytes_def)

lemma bytes_moved: "n \<le> 2 ^ 32 \<Longrightarrow> bytes (moved m d s n) d n = bytes m s n"
  by (rule bytes_cong) (simp add: moved_def in_range_of_nat)

lemma moved_outside: "\<not> in_range d n a \<Longrightarrow> moved m d s n a = m a"
  by (simp add: moved_def)

lemma moved_0 [simp]: "moved m d s 0 = m"
  by (simp add: moved_def in_range_def)

lemma moved_self: "moved m d d n = m"
  by (simp add: moved_def fun_eq_iff)

lemma moved_1: "moved m d s 1 = m(d := m s)"
  by (rule ext) (simp add: moved_def in_range_def unat_eq_0)

lemma unat_diff_shift:
  assumes "k \<le> 2 ^ 32"
  shows "unat ((x :: u32) - of_nat k) = (if k \<le> unat x then unat x - k else unat x + 2 ^ 32 - k)"
proof (cases "k = 2 ^ 32")
  case True
  then have "(of_nat k :: u32) = 0" by (simp only: word_unat_eq_iff unat_of_nat) simp
  then have "unat (x - of_nat k) = unat x" by (simp only: diff_zero)
  also have "\<dots> = (if k \<le> unat x then unat x - k else unat x + 2 ^ 32 - k)"
    using True unat_u32_less [of x] by simp
  finally show ?thesis .
next
  case False
  then have k: "unat (of_nat k :: u32) = k" using assms by (simp add: unat_of_nat)
  show ?thesis
    using unat_u32_less [of x] False assms
    by (auto simp: unat_sub_if_size word_size k word_le_nat_alt)
qed

text \<open>
  Two copies of adjacent ranges are one copy, when what the second one reads was not written
  by the first: in ascending and in descending order.
\<close>

lemma moved_ascending:
  assumes "k + j \<le> 2 ^ 32" "\<And>i i'. i < k \<Longrightarrow> k \<le> i' \<Longrightarrow> i' < k + j \<Longrightarrow> d + of_nat i \<noteq> s + of_nat i'"
  shows "moved (moved m d s k) (d + of_nat k) (s + of_nat k) j = moved m d s (k + j)"
proof
  fix a
  let ?x = "unat (a - d)"
  have a: "a = d + of_nat ?x" by simp
  have x: "unat (a - (d + of_nat k)) = (if k \<le> ?x then ?x - k else ?x + 2 ^ 32 - k)"
    using unat_diff_shift [of k "a - d"] assms(1) by (simp add: algebra_simps)
  have src: "s + of_nat k + (a - (d + of_nat k)) = s + (a - d)" by (simp add: algebra_simps)
  have fresh: "\<not> in_range d k (s + (a - d))" if "k \<le> ?x" "?x < k + j"
  proof
    assume "in_range d k (s + (a - d))"
    then have "unat (s + (a - d) - d) < k" by (simp add: in_range_def)
    moreover have "d + of_nat (unat (s + (a - d) - d)) = s + of_nat ?x" by simp
    ultimately show False using assms(2) that by blast
  qed
  show "moved (moved m d s k) (d + of_nat k) (s + of_nat k) j a = moved m d s (k + j) a"
  proof (cases "k \<le> ?x \<and> ?x < k + j")
    case True
    then have "in_range (d + of_nat k) j a" "in_range d (k + j) a"
      using x by (simp_all add: in_range_def less_diff_conv2)
    then show ?thesis using fresh True by (simp add: moved_def src)
  next
    case False
    then have "\<not> in_range (d + of_nat k) j a" "in_range d (k + j) a = in_range d k a"
      using x assms(1) by (auto simp: in_range_def)
    then show ?thesis by (simp add: moved_def)
  qed
qed

lemma moved_descending:
  assumes "k + j \<le> 2 ^ 32" "\<And>i i'. i < k \<Longrightarrow> k \<le> i' \<Longrightarrow> i' < k + j \<Longrightarrow> s + of_nat i \<noteq> d + of_nat i'"
  shows "moved (moved m (d + of_nat k) (s + of_nat k) j) d s k = moved m d s (k + j)"
proof
  fix a
  let ?x = "unat (a - d)"
  have x: "unat (b - (d + of_nat k)) = (if k \<le> unat (b - d) then unat (b - d) - k else unat (b - d) + 2 ^ 32 - k)" for b
    using unat_diff_shift [of k "b - d"] assms(1) by (simp add: algebra_simps)
  have src: "s + of_nat k + (a - (d + of_nat k)) = s + (a - d)" by (simp add: algebra_simps)
  have fresh: "\<not> in_range (d + of_nat k) j (s + (a - d))" if "?x < k"
  proof
    let ?i = "unat (s + (a - d) - d)"
    assume "in_range (d + of_nat k) j (s + (a - d))"
    then have "k \<le> ?i" "?i < k + j"
      using x [of "s + (a - d)"] assms(1) by (auto simp: in_range_def split: if_splits)
    moreover have "s + of_nat ?x = d + of_nat ?i" by simp
    ultimately show False using assms(2) that by blast
  qed
  show "moved (moved m (d + of_nat k) (s + of_nat k) j) d s k a = moved m d s (k + j) a"
  proof (cases "?x < k")
    case True
    then show ?thesis using fresh by (simp add: moved_def in_range_def)
  next
    case False
    then have "in_range (d + of_nat k) j a = in_range d (k + j) a" "\<not> in_range d k a"
      using x [of a] by (auto simp: in_range_def)
    then show ?thesis by (simp add: moved_def src)
  qed
qed

lemma bytes_0 [simp]: "bytes m p 0 = []"
  by (simp add: bytes_def)

lemma bytes_Suc [simp]: "bytes m p (Suc n) = m p # bytes m (p + 1) n"
  by (rule nth_equalityI) (auto simp: nth_Cons algebra_simps split: nat.split)

lemma bytes_snoc: "bytes m p (Suc n) = bytes m p n @ [m (p + of_nat n)]"
  by (simp add: bytes_def)

lemma bytes_unat: "n \<noteq> 0 \<Longrightarrow> bytes m p (unat n) = m p # bytes m (p + 1) (unat (n - 1))"
  by (simp add: unat_minus_one_word [of n])

text \<open>A range filled with one byte.\<close>

definition filled :: "mem \<Rightarrow> u32 \<Rightarrow> nat \<Rightarrow> u8 \<Rightarrow> mem" where
  "filled m d n b = (\<lambda>a. if in_range d n a then b else m a)"

lemma in_range_0 [simp]: "\<not> in_range p 0 a"
  by (simp add: in_range_def)

lemma in_range_Suc: "in_range p (Suc n) a \<longleftrightarrow> a = p \<or> in_range (p + 1) n a"
proof (cases "a = p")
  case False
  then have "unat (a - p) = Suc (unat (a - p - 1))" by (intro unat_minus_one_word) simp
  then show ?thesis using False by (simp add: in_range_def algebra_simps)
qed (simp add: in_range_def)

lemma in_range_mono: "in_range p k a \<Longrightarrow> k \<le> n \<Longrightarrow> in_range p n a"
  by (simp add: in_range_def)

lemma filled_0 [simp]: "filled m d 0 b = m"
  by (simp add: filled_def)

lemma filled_Suc: "filled (m(d := b)) (d + 1) n b = filled m d (Suc n) b"
  by (rule ext) (simp add: filled_def in_range_Suc)

lemma bytes_filled: "n \<le> 2 ^ 32 \<Longrightarrow> bytes (filled m d n b) d n = replicate n b"
  by (rule nth_equalityI) (simp_all add: filled_def in_range_of_nat)

text \<open>A list of bytes stored at an address.\<close>

definition stored :: "mem \<Rightarrow> u32 \<Rightarrow> u8 list \<Rightarrow> mem" where
  "stored m p xs = (\<lambda>a. if in_range p (length xs) a then xs ! unat (a - p) else m a)"

lemma stored_Nil [simp]: "stored m p [] = m"
  by (simp add: stored_def)

lemma stored_outside: "\<not> in_range p (length xs) a \<Longrightarrow> stored m p xs a = m a"
  by (simp add: stored_def)

lemma stored_Cons:
  assumes "length xs < 2 ^ 32"
  shows "stored (m(p := x)) (p + 1) xs = stored m p (x # xs)"
proof
  fix a
  show "stored (m(p := x)) (p + 1) xs a = stored m p (x # xs) a"
  proof (cases "a = p")
    case True
    have "\<not> in_range (p + 1) (length xs) p"
      using assms by (simp add: in_range_def unsigned_minus_1_eq_mask mask_eq_exp_minus_1)
    then show ?thesis using True by (simp add: stored_def in_range_def)
  next
    case False
    then have "unat (a - p) = Suc (unat (a - p - 1))" by (intro unat_minus_one_word) simp
    then show ?thesis using False by (simp add: stored_def in_range_Suc in_range_def algebra_simps)
  qed
qed

lemma stored_single: "stored m p [x] = m(p := x)"
  using stored_Cons [of "[]" m p x] by simp

lemma bytes_stored: "length xs \<le> 2 ^ 32 \<Longrightarrow> bytes (stored m p xs) p (length xs) = xs"
  by (rule nth_equalityI) (simp_all add: stored_def in_range_of_nat unat_of_nat)

lemma stored_nth: "i < length xs \<Longrightarrow> length xs \<le> 2 ^ 32 \<Longrightarrow> stored m p xs (p + of_nat i) = xs ! i"
  by (simp add: stored_def in_range_of_nat unat_of_nat)

lemma stored_snoc:
  "length ys < 2 ^ 32 \<Longrightarrow> (stored m p ys)(p + of_nat (length ys) := b) = stored m p (ys @ [b])"
proof (induction ys arbitrary: m p)
  case (Cons y ys)
  then have "(stored (m(p := y)) (p + 1) ys)(p + 1 + of_nat (length ys) := b) = stored (m(p := y)) (p + 1) (ys @ [b])"
    by (intro Cons.IH) simp
  then show ?case using Cons.prems by (simp add: stored_Cons add.assoc)
qed (simp add: stored_single)

text \<open>Two ranges without a common address.\<close>

definition disjoint :: "u32 \<Rightarrow> nat \<Rightarrow> u32 \<Rightarrow> nat \<Rightarrow> bool" where
  "disjoint d n s k \<longleftrightarrow> (\<forall>i < n. \<forall>j < k. d + of_nat i \<noteq> s + of_nat j)"

lemma disjointD: "disjoint d n s k \<Longrightarrow> i < n \<Longrightarrow> j < k \<Longrightarrow> d + of_nat i \<noteq> s + of_nat j"
  by (simp add: disjoint_def)

lemma disjoint_Suc:
  assumes "disjoint d (Suc n) s (Suc k)"
  shows "disjoint (d + 1) n (s + 1) k" "disjoint d (Suc n) (s + 1) k" "j < Suc k \<Longrightarrow> d \<noteq> s + of_nat j"
proof -
  show "disjoint (d + 1) n (s + 1) k"
    unfolding disjoint_def using disjointD [OF assms, of "Suc _" "Suc _"] by (simp add: add.assoc)
  show "disjoint d (Suc n) (s + 1) k"
    unfolding disjoint_def using disjointD [OF assms, of _ "Suc _"] by (simp add: add.assoc)
  show "j < Suc k \<Longrightarrow> d \<noteq> s + of_nat j" using disjointD [OF assms, of 0 j] by simp
qed

lemma disjoint_mono: "disjoint d n s k \<Longrightarrow> n' \<le> n \<Longrightarrow> k' \<le> k \<Longrightarrow> disjoint d n' s k'"
  by (auto simp: disjoint_def)

lemma disjoint_shift: "disjoint d (j + n) s k \<Longrightarrow> disjoint (d + of_nat j) n s k"
  unfolding disjoint_def
proof (intro allI impI)
  fix i i' assume d: "\<forall>i < j + n. \<forall>i' < k. d + of_nat i \<noteq> s + of_nat i'" "i < n" "i' < k"
  then show "d + of_nat j + of_nat i \<noteq> s + of_nat i'"
    using d(1) [rule_format, of "j + i" i'] by (simp add: add.assoc)
qed

lemma disjoint_nowrap:
  assumes "unat d + n \<le> 2 ^ 32" "unat s + k \<le> 2 ^ 32" "unat d + n \<le> unat s \<or> unat s + k \<le> unat d"
  shows "disjoint d n s k"
  unfolding disjoint_def
proof (intro allI impI)
  fix i j assume ij: "i < n" "j < k"
  then have "d + of_nat i = s + of_nat j \<longleftrightarrow> unat d + i = unat s + j"
    using assms(1,2) by (intro add_of_nat_eq_iff) simp_all
  then show "d + of_nat i \<noteq> s + of_nat j" using assms(3) ij by auto
qed

text \<open>Copying a long through a register moves its four bytes, whatever the overlap.\<close>

lemma bit_u8_high: "8 \<le> n \<Longrightarrow> \<not> bit (b :: u8) n"
  using bit_imp_le_length [of b n] by auto

lemma read_long_bytes:
  "ucast (read_long m p) = m p" "ucast (drop_bit 8 (read_long m p)) = m (p + 1)"
  "ucast (drop_bit 16 (read_long m p)) = m (p + 2)" "ucast (drop_bit 24 (read_long m p)) = m (p + 3)"
  by (rule bit_word_eqI, auto simp: read_long_def bit_simps bit_u8_high)+

lemma in_range_4: "in_range d 4 a \<longleftrightarrow> a = d \<or> a = d + 1 \<or> a = d + 2 \<or> a = d + 3"
proof -
  have "in_range d 4 a \<longleftrightarrow> unat (a - d) \<in> {0, 1, 2, 3}" by (auto simp: in_range_def)
  also have "\<dots> \<longleftrightarrow> a - d \<in> {0, 1, 2, 3}" by (auto simp: word_unat_eq_iff)
  finally show ?thesis by (auto simp: algebra_simps)
qed

lemma moved_long: "write_long m d (read_long m s) = moved m d s 4"
proof
  fix a
  have "moved m d s 4 a = (if a = d + 3 then m (s + 3) else if a = d + 2 then m (s + 2)
      else if a = d + 1 then m (s + 1) else if a = d then m s else m a)"
    by (auto simp: moved_def in_range_4)
  then show "write_long m d (read_long m s) a = moved m d s 4 a"
    by (simp add: write_long_def read_long_bytes)
qed

end
