(* ===== verification/Mem_Copy.thy ===== *)
theory Mem_Copy
  imports C_Memory
begin

text \<open>
  \<open>memcpy\<close>, \<open>memmove\<close> and \<open>bcopy\<close> (CLibrary/string): copying by aligned longs where the low
  address bits agree, ascending or descending. The code of the three functions is the same
  apart from the overlap check of \<open>memcpy\<close>; the state of their loops is the memory with the
  two running pointers.
\<close>

section \<open>Model\<close>

type_synonym copy_state = "mem \<times> u32 \<times> u32"

definition wsize :: u32 where "wsize = 4"
definition wmask :: u32 where "wmask = wsize - 1"

definition byte_up :: "copy_state \<Rightarrow> copy_state" where
  "byte_up = (\<lambda>(m, dst, src). (m(dst := m src), dst + 1, src + 1))"

definition long_up :: "copy_state \<Rightarrow> copy_state" where
  "long_up = (\<lambda>(m, dst, src). (write_long m dst (read_long m src), dst + wsize, src + wsize))"

definition byte_down :: "copy_state \<Rightarrow> copy_state" where
  "byte_down = (\<lambda>(m, dst, src).
     let dst = dst - 1; src = src - 1 in (m(dst := m src), dst, src))"

definition long_down :: "copy_state \<Rightarrow> copy_state" where
  "long_down = (\<lambda>(m, dst, src).
     let src = src - wsize; dst = dst - wsize in (write_long m dst (read_long m src), dst, src))"

definition copy_forward :: "mem \<Rightarrow> u32 \<Rightarrow> u32 \<Rightarrow> u32 \<Rightarrow> mem" where
  "copy_forward m dst src len =
     (let t = src;
          (st, len) =
            (if (t OR dst) AND wmask \<noteq> 0
             then
               let t = (if (t XOR dst) AND wmask \<noteq> 0 \<or> len < wsize
                        then len else wsize - (t AND wmask));
                   len = len - t
               in (TLOOP1 byte_up t (m, dst, src), len)
             else ((m, dst, src), len));
          t = len div wsize;
          st = TLOOP long_up t st;
          t = len AND wmask;
          st = TLOOP byte_up t st
      in fst st)"

definition copy_backward :: "mem \<Rightarrow> u32 \<Rightarrow> u32 \<Rightarrow> u32 \<Rightarrow> mem" where
  "copy_backward m dst src len =
     (let src = src + len;
          dst = dst + len;
          t = src;
          (st, len) =
            (if (t OR dst) AND wmask \<noteq> 0
             then
               let t = (if (t XOR dst) AND wmask \<noteq> 0 \<or> len \<le> wsize
                        then len else t AND wmask);
                   len = len - t
               in (TLOOP1 byte_down t (m, dst, src), len)
             else ((m, dst, src), len));
          t = len div wsize;
          st = TLOOP long_down t st;
          t = len AND wmask;
          st = TLOOP byte_down t st
      in fst st)"

text \<open>The functions return the memory and the pointer the source returns.\<close>

definition memmove :: "mem \<Rightarrow> u32 \<Rightarrow> u32 \<Rightarrow> u32 \<Rightarrow> mem \<times> u32" where
  "memmove m dst0 src0 len =
     (if len = 0 \<or> dst0 = src0 then (m, dst0)
      else if dst0 < src0 then (copy_forward m dst0 src0 len, dst0)
      else (copy_backward m dst0 src0 len, dst0))"

definition bcopy :: "mem \<Rightarrow> u32 \<Rightarrow> u32 \<Rightarrow> u32 \<Rightarrow> mem" where
  "bcopy m src0 dst0 len =
     (if len = 0 \<or> dst0 = src0 then m
      else if dst0 < src0 then copy_forward m dst0 src0 len
      else copy_backward m dst0 src0 len)"

definition memcpy :: "mem \<Rightarrow> u32 \<Rightarrow> u32 \<Rightarrow> u32 \<Rightarrow> (mem \<times> u32) res" where
  "memcpy m dst0 src0 len =
     (if len = 0 \<or> dst0 = src0 then Inr (m, dst0)
      else if (dst0 < src0 \<and> dst0 + len > src0) \<or> (src0 < dst0 \<and> src0 + len > dst0)
      then Inl (PANIC ''Aborted!'')
      else Inr (copy_forward m dst0 src0 len, dst0))"

section \<open>The loops\<close>

definition ascending_safe :: "u32 \<Rightarrow> u32 \<Rightarrow> nat \<Rightarrow> bool" where
  "ascending_safe d s n \<longleftrightarrow> (\<forall>i i'. i < i' \<longrightarrow> i' < n \<longrightarrow> d + of_nat i \<noteq> s + of_nat i')"

definition descending_safe :: "u32 \<Rightarrow> u32 \<Rightarrow> nat \<Rightarrow> bool" where
  "descending_safe d s n \<longleftrightarrow> (\<forall>i i'. i < i' \<longrightarrow> i' < n \<longrightarrow> s + of_nat i \<noteq> d + of_nat i')"

lemma ascending_safe_mono: "ascending_safe d s n \<Longrightarrow> k \<le> n \<Longrightarrow> ascending_safe d s k"
  by (auto simp: ascending_safe_def)

lemma ascending_safe_shift:
  assumes "ascending_safe d s (k + n)"
  shows "ascending_safe (d + of_nat k) (s + of_nat k) n"
  unfolding ascending_safe_def
proof (intro allI impI)
  fix i i' :: nat
  assume "i < i'" "i' < n"
  then show "d + of_nat k + of_nat i \<noteq> s + of_nat k + of_nat i'"
    using assms [unfolded ascending_safe_def, rule_format, of "k + i" "k + i'"]
    by (simp add: add.assoc)
qed

lemma descending_safe_shift:
  assumes "descending_safe d s (k + n)"
  shows "descending_safe (d + of_nat k) (s + of_nat k) n"
  using ascending_safe_shift [of s d k n] assms
  by (auto simp: ascending_safe_def descending_safe_def)

lemma moved_ascending_safe:
  assumes "ascending_safe d s (k + j)" "k + j \<le> 2 ^ 32"
  shows "moved (moved m d s k) (d + of_nat k) (s + of_nat k) j = moved m d s (k + j)"
  using assms by (intro moved_ascending) (auto simp: ascending_safe_def)

lemma moved_descending_safe:
  assumes "descending_safe d s (k + j)" "k + j \<le> 2 ^ 32"
  shows "moved (moved m (d + of_nat k) (s + of_nat k) j) d s k = moved m d s (k + j)"
  using assms by (intro moved_descending) (auto simp: descending_safe_def)

text \<open>A step that moves \<open>w\<close> bytes and advances both pointers past them.\<close>

locale ascending_step =
  fixes step :: "copy_state \<Rightarrow> copy_state" and w :: nat
  assumes step: "step (m, d, s) = (moved m d s w, d + of_nat w, s + of_nat w)"
begin

lemma loop:
  assumes "ascending_safe d s (k * w)" "k * w \<le> 2 ^ 32"
  shows "(step ^^ k) (m, d, s) = (moved m d s (k * w), d + of_nat (k * w), s + of_nat (k * w))"
  using assms
proof (induction k)
  case (Suc k)
  have "ascending_safe d s (k * w + w)" "k * w + w \<le> 2 ^ 32"
    using Suc.prems by (simp_all add: add.commute)
  moreover from this have "ascending_safe d s (k * w)" "k * w \<le> 2 ^ 32"
    by (auto intro: ascending_safe_mono)
  ultimately show ?case
    using Suc.IH moved_ascending_safe [of d s "k * w" w] by (simp add: step add.commute [of w] add.assoc)
qed simp

end

text \<open>A step that moves the \<open>w\<close> bytes below the pointers and lowers both pointers.\<close>

locale descending_step =
  fixes step :: "copy_state \<Rightarrow> copy_state" and w :: nat
  assumes step: "step (m, d + of_nat w, s + of_nat w) = (moved m d s w, d, s)"
begin

lemma loop:
  assumes "descending_safe d s (k * w)" "k * w \<le> 2 ^ 32"
  shows "(step ^^ k) (m, d + of_nat (k * w), s + of_nat (k * w)) = (moved m d s (k * w), d, s)"
  using assms
proof (induction k arbitrary: d s)
  case (Suc k)
  have safe: "descending_safe d s (w + k * w)" "w + k * w \<le> 2 ^ 32" using Suc.prems by simp_all
  have "(step ^^ k) (m, d + of_nat w + of_nat (k * w), s + of_nat w + of_nat (k * w)) =
      (moved m (d + of_nat w) (s + of_nat w) (k * w), d + of_nat w, s + of_nat w)"
    using safe by (intro Suc.IH descending_safe_shift) simp_all
  then show ?case
    using moved_descending_safe [OF safe] by (simp add: step add.assoc)
qed simp

end

interpretation byte_up: ascending_step byte_up 1
  by unfold_locales (simp add: byte_up_def moved_1 [unfolded One_nat_def])

interpretation long_up: ascending_step long_up 4
  by unfold_locales (simp add: long_up_def moved_long wsize_def)

interpretation byte_down: descending_step byte_down 1
  by unfold_locales (simp add: byte_down_def moved_1 [unfolded One_nat_def])

interpretation long_down: descending_step long_down 4
  by unfold_locales (simp add: long_down_def moved_long wsize_def Let_def)

section \<open>The copies\<close>

text \<open>The number of bytes copied singly first, so that the pointers become aligned.\<close>

lemma and_wmask: "unat (x AND wmask) = unat x mod 4"
proof -
  have "x AND wmask = x AND mask 2" by (simp add: wmask_def wsize_def mask_eq_exp_minus_1)
  then show ?thesis by (simp only: unat_and_mask) simp
qed

lemma aligned_low_bits:
  assumes "(t OR d) AND wmask \<noteq> 0" "(t XOR d) AND wmask = 0"
  shows "(t :: u32) AND wmask \<noteq> 0"
proof
  assume z: "t AND wmask = 0"
  have "d AND wmask = ((t XOR d) AND wmask) XOR (t AND wmask)"
    by (rule bit_word_eqI) (auto simp: bit_simps)
  then have "d AND wmask = 0" using assms(2) z by simp
  moreover have "(t OR d) AND wmask = (t AND wmask) OR (d AND wmask)"
    by (rule bit_word_eqI) (auto simp: bit_simps)
  ultimately show False using assms(1) z by simp
qed

lemma unat_len_parts:
  assumes "(t :: u32) \<le> len"
  shows "unat t + (unat ((len - t) div wsize) * 4 + unat ((len - t) AND wmask)) = unat len"
proof -
  have "unat (len - t) = unat len - unat t" using assms by (rule unat_sub)
  moreover have "unat t \<le> unat len" using assms by (simp add: word_le_nat_alt)
  ultimately show ?thesis
    by (simp add: unat_div wsize_def and_wmask)
qed

lemma forward_head_le:
  "\<not> len < wsize \<Longrightarrow> wsize - (t AND wmask) \<le> len" "wsize - (t AND wmask) \<noteq> 0"
proof -
  have "unat (t AND wmask) < 4" by (simp add: and_wmask)
  then have "unat (wsize - (t AND wmask)) = 4 - unat (t AND wmask)"
    by (subst unat_sub) (simp_all add: word_le_nat_alt wsize_def)
  then have u: "unat (wsize - (t AND wmask)) \<le> 4" "unat (wsize - (t AND wmask)) \<noteq> 0"
    using \<open>unat (t AND wmask) < 4\<close> by simp_all
  show "wsize - (t AND wmask) \<le> len" if "\<not> len < wsize"
    using u(1) that by (simp add: word_le_nat_alt word_less_nat_alt wsize_def)
  show "wsize - (t AND wmask) \<noteq> 0" using u(2) by (metis unsigned_0)
qed

text \<open>The three loops of a copy, from the head \<open>t\<close> on, move the whole range.\<close>

lemma ascending_parts:
  assumes "ascending_safe d s (unat len)" "t \<le> len"
  shows "fst (TLOOP byte_up ((len - t) AND wmask) (TLOOP long_up ((len - t) div wsize)
    (TLOOP byte_up t (m, d, s)))) = moved m d s (unat len)"
proof -
  let ?a = "unat t" and ?b = "unat ((len - t) div wsize) * 4" and ?c = "unat ((len - t) AND wmask)"
  have n: "?a + (?b + ?c) = unat len" using assms(2) by (rule unat_len_parts)
  then have lim: "?a + (?b + ?c) \<le> 2 ^ 32" using unat_u32_less [of len] by linarith
  have safe: "ascending_safe d s (?a + (?b + ?c))" using assms(1) n by simp
  have 1: "ascending_safe d s ?a" using safe by (rule ascending_safe_mono) simp
  have 23: "ascending_safe (d + of_nat ?a) (s + of_nat ?a) (?b + ?c)"
    using safe by (rule ascending_safe_shift)
  then have 2: "ascending_safe (d + of_nat ?a) (s + of_nat ?a) ?b" by (rule ascending_safe_mono) simp
  have 3: "ascending_safe (d + of_nat ?a + of_nat ?b) (s + of_nat ?a + of_nat ?b) ?c"
    using 23 by (rule ascending_safe_shift)
  have "TLOOP byte_up t (m, d, s) = (moved m d s ?a, d + of_nat ?a, s + of_nat ?a)"
    using byte_up.loop [of d s ?a m] 1 lim by (simp add: TLOOP_eq)
  moreover have "TLOOP long_up ((len - t) div wsize) (m', d + of_nat ?a, s + of_nat ?a) =
      (moved m' (d + of_nat ?a) (s + of_nat ?a) ?b, d + of_nat ?a + of_nat ?b, s + of_nat ?a + of_nat ?b)" for m'
    using long_up.loop [OF 2] lim by (simp add: TLOOP_eq)
  moreover have "fst (TLOOP byte_up ((len - t) AND wmask)
      (m', d + of_nat ?a + of_nat ?b, s + of_nat ?a + of_nat ?b)) =
      moved m' (d + of_nat ?a + of_nat ?b) (s + of_nat ?a + of_nat ?b) ?c" for m'
    using byte_up.loop [of "d + of_nat ?a + of_nat ?b" "s + of_nat ?a + of_nat ?b" ?c m'] 3 lim
    by (simp add: TLOOP_eq)
  ultimately show ?thesis
    using moved_ascending_safe [OF 23] moved_ascending_safe [OF safe lim] lim n by simp
qed

lemma descending_safe_mono: "descending_safe d s n \<Longrightarrow> k \<le> n \<Longrightarrow> descending_safe d s k"
  by (auto simp: descending_safe_def)

lemma descending_parts:
  assumes "descending_safe d s (unat len)" "t \<le> len"
  shows "fst (TLOOP byte_down ((len - t) AND wmask) (TLOOP long_down ((len - t) div wsize)
    (TLOOP byte_down t (m, d + len, s + len)))) = moved m d s (unat len)"
proof -
  let ?a = "unat t" and ?b = "unat ((len - t) div wsize) * 4" and ?c = "unat ((len - t) AND wmask)"
  have "?a + (?b + ?c) = unat len" using assms(2) by (rule unat_len_parts)
  then have n: "?c + (?b + ?a) = unat len" by linarith
  then have lim: "?c + (?b + ?a) \<le> 2 ^ 32" using unat_u32_less [of len] by linarith
  have safe: "descending_safe d s (?c + (?b + ?a))" using assms(1) n by simp
  have 3: "descending_safe d s ?c" using safe by (rule descending_safe_mono) simp
  let ?d = "d + of_nat ?c" and ?s = "s + of_nat ?c"
  have 12: "descending_safe ?d ?s (?b + ?a)" using safe by (rule descending_safe_shift)
  then have 2: "descending_safe ?d ?s ?b" by (rule descending_safe_mono) simp
  have 1: "descending_safe (?d + of_nat ?b) (?s + of_nat ?b) ?a"
    using 12 by (rule descending_safe_shift)
  have "len = of_nat (?c + (?b + ?a))" using n by simp
  then have ends: "d + len = ?d + of_nat ?b + of_nat ?a" "s + len = ?s + of_nat ?b + of_nat ?a"
    by (simp_all only: of_nat_add add.assoc)
  have "TLOOP byte_down t (m, d + len, s + len) =
      (moved m (?d + of_nat ?b) (?s + of_nat ?b) ?a, ?d + of_nat ?b, ?s + of_nat ?b)"
    using byte_down.loop [of "?d + of_nat ?b" "?s + of_nat ?b" ?a m] 1 lim
    by (simp only: TLOOP_eq ends mult_1_right)
  moreover have "TLOOP long_down ((len - t) div wsize) (m', ?d + of_nat ?b, ?s + of_nat ?b) =
      (moved m' ?d ?s ?b, ?d, ?s)" for m'
    using long_down.loop [OF 2] lim by (simp only: TLOOP_eq)
  moreover have "fst (TLOOP byte_down ((len - t) AND wmask) (m', ?d, ?s)) = moved m' d s ?c" for m'
    using byte_down.loop [of d s ?c m'] 3 lim by (simp add: TLOOP_eq)
  ultimately show ?thesis
    using moved_descending_safe [OF 12] moved_descending_safe [OF safe lim] lim n by simp
qed

lemma TLOOP1_TLOOP: "t \<noteq> 0 \<Longrightarrow> TLOOP1 s t st = TLOOP s t st"
  by (simp add: TLOOP_def)

lemma copy_forward_eq:
  assumes "ascending_safe d s (unat len)" "len \<noteq> 0"
  shows "copy_forward m d s len = moved m d s (unat len)"
proof -
  define t where "t = (if (s OR d) AND wmask = 0 then 0
    else if (s XOR d) AND wmask \<noteq> 0 \<or> len < wsize then len else wsize - (s AND wmask))"
  have le: "t \<le> len" using forward_head_le(1) [of len s] by (auto simp: t_def)
  have "copy_forward m d s len = fst (TLOOP byte_up ((len - t) AND wmask)
      (TLOOP long_up ((len - t) div wsize) (TLOOP byte_up t (m, d, s))))"
    using assms(2) forward_head_le(2) [of s]
    by (auto simp: copy_forward_def t_def Let_def TLOOP1_TLOOP TLOOP_def [of _ 0])
  then show ?thesis using ascending_parts [OF assms(1) le] by simp
qed

lemma copy_backward_eq:
  assumes "descending_safe d s (unat len)" "len \<noteq> 0"
  shows "copy_backward m d s len = moved m d s (unat len)"
proof -
  let ?s = "s + len" and ?d = "d + len"
  define t where "t = (if (?s OR ?d) AND wmask = 0 then 0
    else if (?s XOR ?d) AND wmask \<noteq> 0 \<or> len \<le> wsize then len else ?s AND wmask)"
  have "?s AND wmask \<le> len" if "\<not> len \<le> wsize"
    using that mod_less_divisor [of 4 "unat ?s"] by (simp add: word_le_nat_alt and_wmask wsize_def)
  then have le: "t \<le> len" by (auto simp: t_def)
  have "copy_backward m d s len = fst (TLOOP byte_down ((len - t) AND wmask)
      (TLOOP long_down ((len - t) div wsize) (TLOOP byte_down t (m, ?d, ?s))))"
    using assms(2) aligned_low_bits [of ?s ?d]
    by (auto simp: copy_backward_def t_def Let_def TLOOP1_TLOOP TLOOP_def [of _ 0])
  then show ?thesis using descending_parts [OF assms(1) le] by simp
qed

text \<open>Ranges that do not wrap around the address space.\<close>

definition fits_at :: "u32 \<Rightarrow> u32 \<Rightarrow> bool" where
  "fits_at p n \<longleftrightarrow> unat p + unat n \<le> 2 ^ 32"

lemma ascending_safe_lower:
  assumes "fits_at d n" "fits_at s n" "d < s \<or> unat s + unat n \<le> unat d"
  shows "ascending_safe d s (unat n)"
  unfolding ascending_safe_def
proof (intro allI impI)
  fix i i' :: nat
  assume i: "i < i'" "i' < unat n"
  then have "d + of_nat i = s + of_nat i' \<longleftrightarrow> unat d + i = unat s + i'"
    using assms(1,2) by (intro add_of_nat_eq_iff) (simp_all add: fits_at_def)
  then show "d + of_nat i \<noteq> s + of_nat i'"
    using assms(3) i by (auto simp: word_less_nat_alt)
qed

lemma descending_safe_upper:
  assumes "fits_at d n" "fits_at s n" "s < d"
  shows "descending_safe d s (unat n)"
  using ascending_safe_lower [OF assms(2,1)] assms(3)
  by (auto simp: ascending_safe_def descending_safe_def)

section \<open>The contract of a block move\<close>

locale block_move =
  fixes move :: "mem \<Rightarrow> u32 \<Rightarrow> u32 \<Rightarrow> u32 \<Rightarrow> mem"
  assumes move_eq: "fits_at d n \<Longrightarrow> fits_at s n \<Longrightarrow> move m d s n = moved m d s (unat n)"
begin

lemma move_spec:
  assumes "fits_at d n" "fits_at s n"
  shows "bytes (move m d s n) d (unat n) = bytes m s (unat n)"
    and "\<not> in_range d (unat n) a \<Longrightarrow> move m d s n a = m a"
  using assms unat_u32_less [of n]
  by (simp_all add: move_eq bytes_moved moved_outside less_imp_le)

text \<open>Moving a block away and back restores the memory if the two ranges are disjoint.\<close>

lemma move_back:
  assumes "fits_at d n" "fits_at s n" "unat d + unat n \<le> unat s \<or> unat s + unat n \<le> unat d"
    and "in_range s (unat n) a"
  shows "move (move m d s n) s d n a = m a"
proof -
  have n: "unat (a - s) < unat n" using assms(4) by (simp add: in_range_def)
  have "d + (a - s) = d + of_nat (unat (a - s))" by simp
  then have "in_range d (unat n) (d + (a - s))"
    using n by (simp add: in_range_def)
  then show ?thesis
    using assms n by (simp add: move_eq moved_def in_range_def)
qed

end

lemma memmove_moved:
  assumes "fits_at d n" "fits_at s n"
  shows "memmove m d s n = (moved m d s (unat n), d)"
proof -
  have "copy_forward m d s n = moved m d s (unat n)" if "n \<noteq> 0" "d < s"
    using assms that by (intro copy_forward_eq ascending_safe_lower) auto
  moreover have "copy_backward m d s n = moved m d s (unat n)" if "n \<noteq> 0" "s < d"
    using assms that by (intro copy_backward_eq descending_safe_upper) auto
  ultimately show ?thesis
    by (auto simp: memmove_def moved_self not_less_iff_gr_or_eq)
qed

lemma bcopy_memmove: "bcopy m s d n = fst (memmove m d s n)"
  by (simp add: bcopy_def memmove_def)

interpretation memmove: block_move "\<lambda>m d s n. fst (memmove m d s n)"
  by unfold_locales (simp add: memmove_moved)

interpretation bcopy: block_move "\<lambda>m d s n. bcopy m s d n"
  by unfold_locales (simp add: bcopy_memmove memmove_moved)

section \<open>Properties\<close>

text \<open>
  C33. \<open>memmove\<close> and \<open>bcopy\<close> move a block whatever the overlap and the alignment of source and
  destination: afterwards the destination range holds the bytes the source range held before,
  every byte outside the destination range is unchanged, and \<open>memmove\<close> returns its first
  argument. The only condition is that neither range runs past the end of the address space.
\<close>

theorem memmove_bcopy_move:
  assumes "unat d + unat n \<le> 2 ^ 32" "unat s + unat n \<le> 2 ^ 32"
  shows "bytes (fst (memmove m d s n)) d (unat n) = bytes m s (unat n) \<and>
    (\<forall>a. in_range d (unat n) a \<or> fst (memmove m d s n) a = m a) \<and>
    snd (memmove m d s n) = d \<and> bcopy m s d n = fst (memmove m d s n)"
proof -
  have f: "fits_at d n" "fits_at s n" using assms by (simp_all add: fits_at_def)
  show ?thesis
    using memmove.move_spec [OF f] by (auto simp: bcopy_memmove memmove_moved [OF f])
qed

definition ramp_mem :: mem where
  "ramp_mem = (\<lambda>a. ucast a)"

theorem memmove_bcopy_move_witness:
  "bytes (fst (memmove ramp_mem 0x1003 0x1001 9)) 0x1003 9 = [1, 2, 3, 4, 5, 6, 7, 8, 9] \<and>
   bcopy ramp_mem 0x1001 0x1003 9 0x1002 = 2"
proof -
  note p = memmove_bcopy_move [of "0x1003" 9 "0x1001" ramp_mem]
  have "bytes (fst (memmove ramp_mem 0x1003 0x1001 9)) 0x1003 9 = bytes ramp_mem 0x1001 9"
    using p by simp
  moreover have "bytes ramp_mem 0x1001 9 = [1, 2, 3, 4, 5, 6, 7, 8, 9]"
    by (simp add: bytes_def ramp_mem_def upt_rec)
  moreover have "\<not> in_range 0x1003 9 0x1002"
    by (simp add: in_range_def unsigned_minus_1_eq_mask mask_eq_exp_minus_1)
  then have "bcopy ramp_mem 0x1001 0x1003 9 0x1002 = ramp_mem 0x1002" using p by auto
  ultimately show ?thesis by (simp add: ramp_mem_def)
qed

text \<open>
  \<open>memcpy\<close> either copies or aborts: for ranges that end below the top of the address
  space it stops the kernel exactly when distinct source and destination overlap, and
  otherwise its result is that of \<open>memmove\<close>.
\<close>

theorem memcpy_copies_or_aborts:
  assumes "unat d + unat n < 2 ^ 32" "unat s + unat n < 2 ^ 32"
  shows "memcpy m d s n =
    (if n = 0 \<or> d = s \<or> unat d + unat n \<le> unat s \<or> unat s + unat n \<le> unat d
     then Inr (memmove m d s n) else Inl (PANIC ''Aborted!''))"
proof -
  have f: "fits_at d n" "fits_at s n" using assms by (simp_all add: fits_at_def)
  have add: "unat (d + n) = unat d + unat n" "unat (s + n) = unat s + unat n"
    using assms by (simp_all add: unat_word_ariths)
  have copy: "copy_forward m d s n = moved m d s (unat n)"
    if "n \<noteq> 0" "unat d + unat n \<le> unat s \<or> unat s + unat n \<le> unat d"
  proof (rule copy_forward_eq [OF _ that(1)])
    have "0 < unat n" using that(1) by (simp add: unat_gt_0)
    then show "ascending_safe d s (unat n)"
      using f that(2) by (intro ascending_safe_lower) (auto simp: word_less_nat_alt)
  qed
  show ?thesis
  proof (cases "d = s")
    case False
    then have "unat d < unat s \<or> unat s < unat d" by (auto simp: word_unat_eq_iff)
    then show ?thesis
      using memmove_moved [OF f] copy False
      by (auto simp: memcpy_def add word_less_nat_alt not_less)
  qed (simp add: memcpy_def memmove_def)
qed

theorem memcpy_copies_or_aborts_witness:
  "memcpy ramp_mem 0x2001 0x1001 9 = Inr (memmove ramp_mem 0x2001 0x1001 9) \<and>
   memcpy ramp_mem 0x1003 0x1001 9 = Inl (PANIC ''Aborted!'')"
  using memcpy_copies_or_aborts [of "0x2001" 9 "0x1001" ramp_mem]
    memcpy_copies_or_aborts [of "0x1003" 9 "0x1001" ramp_mem] by simp

end
