(* ===== verification/Mem_Functions.thy ===== *)
theory Mem_Functions
  imports Mem_Copy
begin

text \<open>
  The functions of CLibrary/string on blocks of bytes: \<open>memset\<close>, \<open>bzero\<close>, \<open>explicit_bzero\<close>,
  \<open>memcmp\<close>, \<open>bcmp\<close>, the two timing-safe comparisons, \<open>memchr\<close>, \<open>memrchr\<close>, \<open>memccpy\<close>, \<open>memmem\<close>,
  \<open>swab\<close>, and \<open>ffs\<close>. An \<open>int\<close> argument is its 32-bit pattern, an \<open>int\<close> result a mathematical
  integer; the null pointer is 0.
\<close>

section \<open>Filling\<close>

definition memset :: "mem \<Rightarrow> u32 \<Rightarrow> u32 \<Rightarrow> u32 \<Rightarrow> mem \<times> u32" where
  "memset m dst c n =
     (if n \<noteq> 0
      then (fst (TLOOP1 (\<lambda>(m, d). (m(d := ucast c), d + 1)) n (m, dst)), dst)
      else (m, dst))"

function bzero_loop :: "mem \<Rightarrow> u32 \<Rightarrow> u32 \<Rightarrow> mem" where
  "bzero_loop m p len = (if len \<noteq> 0 then bzero_loop (m(p := 0)) (p + 1) (len - 1) else m)"
  by pat_completeness auto
termination by (relation "measure (\<lambda>(m, p, len). unat len)") simp_all

declare bzero_loop.simps [simp del]

definition bzero :: "mem \<Rightarrow> u32 \<Rightarrow> u32 \<Rightarrow> mem" where
  "bzero m b len = bzero_loop m b len"

definition explicit_bzero :: "mem \<Rightarrow> u32 \<Rightarrow> u32 \<Rightarrow> mem" where
  "explicit_bzero m buf len = fst (memset m buf 0 len)"

section \<open>Comparing\<close>

function memcmp_loop :: "mem \<Rightarrow> u32 \<Rightarrow> u32 \<Rightarrow> u32 \<Rightarrow> int" where
  "memcmp_loop m p1 p2 n =
     (if m p1 \<noteq> m p2 then uint (m p1) - uint (m p2)
      else if n - 1 \<noteq> 0 then memcmp_loop m (p1 + 1) (p2 + 1) (n - 1) else 0)"
  by pat_completeness auto
termination by (relation "measure (\<lambda>(m, p1, p2, n). unat (n - 1))") simp_all

definition memcmp :: "mem \<Rightarrow> u32 \<Rightarrow> u32 \<Rightarrow> u32 \<Rightarrow> int" where
  "memcmp m s1 s2 n = (if n \<noteq> 0 then memcmp_loop m s1 s2 n else 0)"

function bcmp_loop :: "mem \<Rightarrow> u32 \<Rightarrow> u32 \<Rightarrow> u32 \<Rightarrow> int" where
  "bcmp_loop m p1 p2 len =
     (if m p1 \<noteq> m p2 then 1
      else if len - 1 \<noteq> 0 then bcmp_loop m (p1 + 1) (p2 + 1) (len - 1) else 0)"
  by pat_completeness auto
termination by (relation "measure (\<lambda>(m, p1, p2, n). unat (n - 1))") simp_all

definition bcmp :: "mem \<Rightarrow> u32 \<Rightarrow> u32 \<Rightarrow> u32 \<Rightarrow> int" where
  "bcmp m b1 b2 len = (if len = 0 then 0 else bcmp_loop m b1 b2 len)"

function timingsafe_bcmp_loop :: "mem \<Rightarrow> u32 \<Rightarrow> u32 \<Rightarrow> u32 \<Rightarrow> int \<Rightarrow> int" where
  "timingsafe_bcmp_loop m p1 p2 n ret =
     (if n > 0
      then timingsafe_bcmp_loop m (p1 + 1) (p2 + 1) (n - 1) (ret OR (uint (m p1) XOR uint (m p2)))
      else ret)"
  by pat_completeness auto
termination by (relation "measure (\<lambda>(m, p1, p2, n, ret). unat n)") (simp_all add: word_greater_zero_iff)

definition timingsafe_bcmp :: "mem \<Rightarrow> u32 \<Rightarrow> u32 \<Rightarrow> u32 \<Rightarrow> int" where
  "timingsafe_bcmp m b1 b2 n = (if timingsafe_bcmp_loop m b1 b2 n 0 \<noteq> 0 then 1 else 0)"

text \<open>The shift by \<open>CHAR_BIT\<close> of a negative difference is arithmetic and yields -1.\<close>

function timingsafe_memcmp_loop :: "mem \<Rightarrow> u32 \<Rightarrow> u32 \<Rightarrow> u32 \<Rightarrow> u32 \<Rightarrow> int \<Rightarrow> int \<Rightarrow> int" where
  "timingsafe_memcmp_loop m p1 p2 len i res don =
     (if i < len
      then
        let lt = drop_bit 8 (uint (m (p1 + i)) - uint (m (p2 + i)));
            gt = drop_bit 8 (uint (m (p2 + i)) - uint (m (p1 + i)));
            cmp = lt - gt;
            res = res OR (cmp AND NOT don);
            don = don OR (lt OR gt)
        in timingsafe_memcmp_loop m p1 p2 len (i + 1) res don
      else res)"
  by pat_completeness auto
termination
proof (relation "measure (\<lambda>(m, p1, p2, len, i, res, don). unat (len - i))")
  fix m :: mem and p1 p2 len i :: u32 and res don lt gt cmp res' don' :: int
  assume "i < len"
  then have "len - i \<noteq> 0" by auto
  from unat_minus_one_less [OF this]
  show "((m, p1, p2, len, i + 1, res', don'), m, p1, p2, len, i, res, don)
      \<in> measure (\<lambda>(m, p1, p2, len, i, res, don). unat (len - i))"
    by (simp add: algebra_simps)
qed simp

definition timingsafe_memcmp :: "mem \<Rightarrow> u32 \<Rightarrow> u32 \<Rightarrow> u32 \<Rightarrow> int" where
  "timingsafe_memcmp m b1 b2 len = timingsafe_memcmp_loop m b1 b2 len 0 0 0"

declare memcmp_loop.simps [simp del] bcmp_loop.simps [simp del]
  timingsafe_bcmp_loop.simps [simp del] timingsafe_memcmp_loop.simps [simp del]

section \<open>Searching\<close>

function memchr_loop :: "mem \<Rightarrow> u32 \<Rightarrow> u8 \<Rightarrow> u32 \<Rightarrow> u32" where
  "memchr_loop m p c n =
     (if m p = c then p
      else if n - 1 \<noteq> 0 then memchr_loop m (p + 1) c (n - 1) else 0)"
  by pat_completeness auto
termination by (relation "measure (\<lambda>(m, p, c, n). unat (n - 1))") simp_all

definition memchr :: "mem \<Rightarrow> u32 \<Rightarrow> u32 \<Rightarrow> u32 \<Rightarrow> u32" where
  "memchr m s c n = (if n \<noteq> 0 then memchr_loop m s (ucast c) n else 0)"

function memrchr_loop :: "mem \<Rightarrow> u32 \<Rightarrow> u8 \<Rightarrow> u32 \<Rightarrow> u32" where
  "memrchr_loop m cp c n =
     (let cp = cp - 1 in
      if m cp = c then cp
      else if n - 1 \<noteq> 0 then memrchr_loop m cp c (n - 1) else 0)"
  by pat_completeness auto
termination by (relation "measure (\<lambda>(m, cp, c, n). unat (n - 1))") simp_all

definition memrchr :: "mem \<Rightarrow> u32 \<Rightarrow> u32 \<Rightarrow> u32 \<Rightarrow> u32" where
  "memrchr m s c n = (if n \<noteq> 0 then memrchr_loop m (s + n) (ucast c) n else 0)"

function memccpy_loop :: "mem \<Rightarrow> u32 \<Rightarrow> u32 \<Rightarrow> u8 \<Rightarrow> u32 \<Rightarrow> mem \<times> u32" where
  "memccpy_loop m tp fp uc n =
     (let m' = m(tp := m fp) in
      if m fp = uc then (m', tp + 1)
      else if n - 1 \<noteq> 0 then memccpy_loop m' (tp + 1) (fp + 1) uc (n - 1) else (m', 0))"
  by pat_completeness auto
termination by (relation "measure (\<lambda>(m, tp, fp, uc, n). unat (n - 1))") simp_all

definition memccpy :: "mem \<Rightarrow> u32 \<Rightarrow> u32 \<Rightarrow> u32 \<Rightarrow> u32 \<Rightarrow> mem \<times> u32" where
  "memccpy m t f c n = (if n \<noteq> 0 then memccpy_loop m t f (ucast c) n else (m, 0))"

text \<open>The search of \<open>memmem\<close> compares pointers; it does not end if \<open>last\<close> is the top address.\<close>

partial_function (option) memmem_loop :: "mem \<Rightarrow> u32 \<Rightarrow> u32 \<Rightarrow> u32 \<Rightarrow> u32 \<Rightarrow> u32 option" where
  "memmem_loop m cur lst cs s_len =
     (if cur \<le> lst
      then if m cur = m cs \<and> memcmp m cur cs s_len = 0 then Some cur
           else memmem_loop m (cur + 1) lst cs s_len
      else Some 0)"

definition memmem :: "mem \<Rightarrow> u32 \<Rightarrow> u32 \<Rightarrow> u32 \<Rightarrow> u32 \<Rightarrow> u32 option" where
  "memmem m l l_len s s_len =
     (if s_len = 0 then Some l
      else if l_len < s_len then Some 0
      else if s_len = 1 then Some (memchr m l (scast (m s)) l_len)
      else memmem_loop m l (l + l_len - s_len) s s_len)"

declare memchr_loop.simps [simp del] memrchr_loop.simps [simp del] memccpy_loop.simps [simp del]

section \<open>Swapping bytes and finding bits\<close>

definition swab_STEP :: "mem \<times> u32 \<times> u32 \<Rightarrow> mem \<times> u32 \<times> u32" where
  "swab_STEP = (\<lambda>(m, fp, tp).
     let temp = m fp; m = m(tp := m (fp + 1)); m = m(tp + 1 := temp) in (m, fp + 2, tp + 2))"

function swab_round :: "u32 \<Rightarrow> mem \<times> u32 \<times> u32 \<Rightarrow> u32 \<times> (mem \<times> u32 \<times> u32)" where
  "swab_round n st =
     (let n = n - 1 in if n AND 7 \<noteq> 0 then swab_round n (swab_STEP st) else (n, st))"
  by pat_completeness auto
termination
proof (relation "measure (\<lambda>(n, st). unat (n - 1))")
  fix n n' :: u32 and st :: "mem \<times> u32 \<times> u32"
  assume n': "n' = n - 1" "n' AND 7 \<noteq> 0"
  then have "n - 1 \<noteq> 0" by auto
  from unat_minus_one_less [OF this]
  show "((n', swab_STEP st), n, st) \<in> measure (\<lambda>(n, st). unat (n - 1))" by (simp add: n'(1))
qed simp

function swab_loop :: "u32 \<Rightarrow> mem \<times> u32 \<times> u32 \<Rightarrow> mem \<times> u32 \<times> u32" where
  "swab_loop n st =
     (if n \<noteq> 0
      then swab_loop (n - 1) (swab_STEP (swab_STEP (swab_STEP (swab_STEP
        (swab_STEP (swab_STEP (swab_STEP (swab_STEP st))))))))
      else st)"
  by pat_completeness auto
termination by (relation "measure (\<lambda>(n, st). unat n)") simp_all

declare swab_round.simps [simp del] swab_loop.simps [simp del]

definition swab :: "mem \<Rightarrow> u32 \<Rightarrow> u32 \<Rightarrow> u32 \<Rightarrow> mem" where
  "swab m from to len =
     (let n = len div 2 + 1;
          (n, st) = swab_round n (m, from, to);
          n = drop_bit 3 n
      in if n = 0 then fst st else fst (swab_loop n st))"

definition ffs_t :: "int list" where
  "ffs_t = [-28, 1, 2, 1, 3, 1, 2, 1, 4, 1, 2, 1, 3, 1, 2, 1]"

definition ffs :: "u32 \<Rightarrow> int" where
  "ffs msk =
     (let r = msk; b = 0;
          (b, r) = (if r AND 0xffff = 0 then (b + 16, drop_bit 16 r) else (b, r));
          (b, r) = (if r AND 0xff = 0 then (b + 8, drop_bit 8 r) else (b, r));
          (b, r) = (if r AND 0xf = 0 then (b + 4, drop_bit 4 r) else (b, r))
      in b + ffs_t ! unat (r AND 0xf))"

section \<open>Filling: the result\<close>

lemma fill_loop:
  "((\<lambda>(m, d). (m(d := b), d + 1)) ^^ n) (m, d) = (filled m d n b, d + of_nat n)"
proof (induction n arbitrary: m d)
  case (Suc n)
  then show ?case by (simp add: funpow_Suc_right filled_Suc add.assoc del: funpow.simps fun_upd_apply)
qed simp

lemma memset_filled: "memset m d c n = (filled m d (unat n) (ucast c), d)"
  by (simp add: memset_def TLOOP1_eq fill_loop)

lemma bzero_filled: "bzero_loop m p n = filled m p (unat n) 0"
proof (induction m p n rule: bzero_loop.induct)
  case (1 m p n)
  then show ?case
    by (cases "n = 0"; subst bzero_loop.simps)
      (simp_all add: unat_minus_one_word [of n] filled_Suc del: fun_upd_apply)
qed

section \<open>Comparing: the result\<close>

text \<open>The reference: the difference of the first bytes that differ.\<close>

fun first_difference :: "u8 list \<Rightarrow> u8 list \<Rightarrow> int" where
  "first_difference (a # as) (b # bs) = (if a \<noteq> b then uint a - uint b else first_difference as bs)"
| "first_difference _ _ = 0"

lemma first_difference_eq_0:
  "length as = length bs \<Longrightarrow> first_difference as bs = 0 \<longleftrightarrow> as = bs"
  by (induction as bs rule: first_difference.induct) (auto simp: word_uint_eq_iff)

lemma memcmp_loop_eq:
  "n \<noteq> 0 \<Longrightarrow> memcmp_loop m p q n = first_difference (bytes m p (unat n)) (bytes m q (unat n))"
proof (induction m p q n rule: memcmp_loop.induct)
  case (1 m p q n)
  then show ?case
    by (cases "n - 1 = 0"; subst memcmp_loop.simps) (simp_all add: bytes_unat)
qed

lemma memcmp_eq: "memcmp m p q n = first_difference (bytes m p (unat n)) (bytes m q (unat n))"
  by (simp add: memcmp_def memcmp_loop_eq)

lemma bcmp_loop_eq:
  "n \<noteq> 0 \<Longrightarrow> bcmp_loop m p q n = (if bytes m p (unat n) = bytes m q (unat n) then 0 else 1)"
proof (induction m p q n rule: bcmp_loop.induct)
  case (1 m p q n)
  then show ?case
    by (cases "n - 1 = 0"; subst bcmp_loop.simps) (simp_all add: bytes_unat)
qed

lemma xor_eq_0_int: "(a :: int) XOR b = 0 \<longleftrightarrow> a = b"
  by (metis xor.assoc xor.left_neutral xor_self_eq)

lemma timingsafe_bcmp_loop_eq:
  "timingsafe_bcmp_loop m p q n ret = 0 \<longleftrightarrow> ret = 0 \<and> bytes m p (unat n) = bytes m q (unat n)"
proof (induction m p q n ret rule: timingsafe_bcmp_loop.induct)
  case (1 m p q n ret)
  have "(ret OR (uint (m p) XOR uint (m q)) = 0) = (ret = 0 \<and> m p = m q)"
    by (auto simp: or_eq_0_iff word_uint_eq_iff xor_eq_0_int)
  then show ?case
    using 1 by (cases "n = 0"; subst timingsafe_bcmp_loop.simps)
      (auto simp: bytes_unat word_greater_zero_iff)
qed

lemma neg_div_256: "- 256 \<le> x \<Longrightarrow> x < 0 \<Longrightarrow> x div 256 = (- 1 :: int)"
  by presburger

lemma shifted_difference:
  "drop_bit 8 (uint (a :: u8) - uint b) = (if a < b then - 1 else 0)"
proof -
  have lim: "0 \<le> uint a" "uint a < 256" "0 \<le> uint b" "uint b < 256"
    using uint_bounded [of a] uint_bounded [of b] by simp_all
  show ?thesis
  proof (cases "a < b")
    case True
    then have "uint a - uint b < 0" by (simp add: word_less_def)
    then have "(uint a - uint b) div 256 = - 1" using lim by (intro neg_div_256) linarith+
    then show ?thesis using True by (simp add: drop_bit_eq_div)
  next
    case False
    then have "0 \<le> uint a - uint b" by (simp add: word_less_def)
    then have "(uint a - uint b) div 256 = 0" using lim by (intro div_pos_pos_trivial) linarith+
    then show ?thesis using False by (simp add: drop_bit_eq_div)
  qed
qed

lemma timingsafe_memcmp_done: "timingsafe_memcmp_loop m p q len i res (- 1) = res"
proof (induction "unat (len - i)" arbitrary: i res rule: less_induct)
  case less
  show ?case
  proof (cases "i < len")
    case True
    then have "len - i \<noteq> 0" by auto
    from unat_minus_one_less [OF this] have "unat (len - (i + 1)) < unat (len - i)"
      by (simp add: algebra_simps)
    with less [of "i + 1"] True show ?thesis
      by (subst timingsafe_memcmp_loop.simps) (simp add: Let_def)
  next
    case False
    then show ?thesis by (subst timingsafe_memcmp_loop.simps) simp
  qed
qed

lemma timingsafe_memcmp_loop_eq:
  assumes "i \<le> len"
  shows "timingsafe_memcmp_loop m p q len i 0 0 =
    sgn (first_difference (bytes m (p + i) (unat (len - i))) (bytes m (q + i) (unat (len - i))))"
  using assms
proof (induction "unat (len - i)" arbitrary: i rule: less_induct)
  case less
  show ?case
  proof (cases "i = len")
    case False
    then have i: "i < len" using less.prems by simp
    then have "len - i \<noteq> 0" by auto
    note u = unat_minus_one_word [OF this]
    have nxt: "i + 1 \<le> len" using i by (rule inc_le)
    have shift: "len - i - 1 = len - (i + 1)" "p + i + 1 = p + (i + 1)" "q + i + 1 = q + (i + 1)"
      by simp_all
    have IH: "timingsafe_memcmp_loop m p q len (i + 1) 0 0 = sgn (first_difference
        (bytes m (p + (i + 1)) (unat (len - (i + 1)))) (bytes m (q + (i + 1)) (unat (len - (i + 1)))))"
      using u nxt by (intro less.hyps) (simp_all add: shift)
    have "timingsafe_memcmp_loop m p q len i 0 0 =
        (if m (p + i) = m (q + i) then timingsafe_memcmp_loop m p q len (i + 1) 0 0
         else sgn (uint (m (p + i)) - uint (m (q + i))))"
      using i by (subst timingsafe_memcmp_loop.simps)
        (auto simp: Let_def shifted_difference timingsafe_memcmp_done word_less_def word_uint_eq_iff)
    then show ?thesis unfolding u shift using IH by (simp add: shift)
  qed (subst timingsafe_memcmp_loop.simps, simp)
qed

section \<open>Searching: the result\<close>

text \<open>A (signed) \<open>char\<close> passed as an \<open>int\<close> and converted back to \<open>unsigned char\<close>.\<close>

lemma char_int_char: "ucast (scast (b :: u8) :: u32) = b"
proof (rule bit_word_eqI)
  fix n assume "n < LENGTH(8)"
  then have "n < 7 \<or> n = 7" by auto
  then show "bit (ucast (scast b :: u32) :: u8) n = bit b n" by (auto simp: bit_simps min_def)
qed

text \<open>A search result as a pointer: the null pointer or the offset from the start.\<close>

fun found :: "u32 \<Rightarrow> nat option \<Rightarrow> u32" where
  "found p None = 0"
| "found p (Some i) = p + of_nat i"

lemma found_Suc: "found p (map_option Suc r) = found (p + 1) r"
  by (cases r) (simp_all add: algebra_simps)

lemma find_map: "find P (map f xs) = map_option f (find (\<lambda>x. P (f x)) xs)"
  by (induction xs) simp_all

lemma find_upt_Suc:
  "find P [0..<Suc n] = (if P 0 then Some 0 else map_option Suc (find (\<lambda>i. P (Suc i)) [0..<n]))"
  by (simp add: upt_conv_Cons map_Suc_upt [symmetric] find_map del: upt_Suc)

lemma find_unat:
  "(n :: u32) \<noteq> 0 \<Longrightarrow> find P [0..<unat n] =
    (if P 0 then Some 0 else map_option Suc (find (\<lambda>i. P (Suc i)) [0..<unat (n - 1)]))"
  by (subst unat_minus_one_word, assumption) (simp only: find_upt_Suc)

lemma memchr_loop_eq:
  "n \<noteq> 0 \<Longrightarrow> memchr_loop m p c n = found p (find (\<lambda>i. m (p + of_nat i) = c) [0..<unat n])"
proof (induction m p c n rule: memchr_loop.induct)
  case (1 m p c n)
  then show ?case
    by (cases "n - 1 = 0"; subst memchr_loop.simps)
      (simp_all add: find_unat [of n] found_Suc add.assoc [symmetric])
qed

lemma memchr_eq: "memchr m s c n = found s (find (\<lambda>i. m (s + of_nat i) = ucast c) [0..<unat n])"
  by (simp add: memchr_def memchr_loop_eq)

lemma memrchr_loop_eq:
  "n \<noteq> 0 \<Longrightarrow> memrchr_loop m (p + n) c n = found p (find (\<lambda>i. m (p + of_nat i) = c) (rev [0..<unat n]))"
proof (induction "unat n" arbitrary: n rule: less_induct)
  case less
  let ?k = "unat (n - 1)"
  have u: "unat n = Suc ?k" using less.prems by (rule unat_minus_one_word)
  have cp: "p + n - 1 = p + of_nat ?k" by simp
  have IH: "memrchr_loop m (p + (n - 1)) c (n - 1) =
      found p (find (\<lambda>i. m (p + of_nat i) = c) (rev [0..<?k]))" if "n - 1 \<noteq> 0"
    using less.hyps [of "n - 1"] that u by simp
  then show ?case
    unfolding u by (subst memrchr_loop.simps) (simp add: Let_def cp add.assoc)
qed

lemma memrchr_eq:
  "memrchr m s c n = found s (find (\<lambda>i. m (s + of_nat i) = ucast c) (rev [0..<unat n]))"
  by (simp add: memrchr_def memrchr_loop_eq)

lemma memmem_match:
  "s_len \<noteq> 0 \<Longrightarrow> (m p = m s \<and> memcmp m p s s_len = 0) \<longleftrightarrow>
    bytes m p (unat s_len) = bytes m s (unat s_len)"
  by (auto simp: memcmp_eq first_difference_eq_0 bytes_unat)

lemma memmem_loop_eq:
  assumes "unat p + Suc k < 2 ^ 32" "s_len \<noteq> 0"
  shows "memmem_loop m p (p + of_nat k) s s_len = Some (found p (find (\<lambda>i.
    bytes m (p + of_nat i) (unat s_len) = bytes m s (unat s_len)) [0..<Suc k]))"
  using assms(1)
proof (induction k arbitrary: p)
  case 0
  then have "\<not> p + 1 \<le> p" using unat_add_of_nat [of p 1] by (simp add: word_le_nat_alt)
  then have "memmem_loop m (p + 1) p s s_len = Some 0" by (subst memmem_loop.simps) simp
  then show ?case
    using memmem_match [OF assms(2)] by (subst memmem_loop.simps) simp
next
  case (Suc k)
  have "unat (p + 1) = unat p + 1" using Suc.prems unat_add_of_nat [of p 1] by simp
  then have "unat (p + 1) + Suc k < 2 ^ 32" using Suc.prems by simp
  note IH = Suc.IH [OF this]
  have "p \<le> p + of_nat (Suc k)"
    using Suc.prems unat_add_of_nat [of p "Suc k"] by (simp add: word_le_nat_alt)
  moreover have "p + 1 + of_nat k = p + of_nat (Suc k)" by simp
  ultimately show ?case
    using memmem_match [OF assms(2)] IH
    by (subst memmem_loop.simps, subst find_upt_Suc) (simp add: found_Suc add.assoc)
qed

lemma memmem_eq:
  assumes "unat l + unat l_len < 2 ^ 32"
  shows "memmem m l l_len s s_len = Some (found l (find (\<lambda>i.
    bytes m (l + of_nat i) (unat s_len) = bytes m s (unat s_len)) [0..<Suc (unat l_len) - unat s_len]))"
proof (cases "s_len = 0 \<or> l_len < s_len")
  case True
  then show ?thesis
    by (cases "s_len = 0") (auto simp: memmem_def find_upt_Suc word_less_nat_alt simp del: upt_Suc)
next
  case False
  then have le: "s_len \<le> l_len" "s_len \<noteq> 0" by auto
  then have u: "unat (l_len - s_len) = unat l_len - unat s_len" "unat s_len \<le> unat l_len"
    by (simp_all add: unat_sub word_le_nat_alt)
  show ?thesis
  proof (cases "s_len = 1")
    case True
    then show ?thesis using le by (simp add: memmem_def memchr_eq char_int_char)
  next
    case False
    then have "1 < unat s_len" using le(2) by (metis One_nat_def Suc_lessI unat_gt_0 unsigned_1 word_unat_eq_iff)
    then have "unat l + Suc (unat (l_len - s_len)) < 2 ^ 32" using assms u by simp
    from memmem_loop_eq [OF this le(2), of m s]
    show ?thesis
      using False le u by (simp add: memmem_def Suc_diff_le algebra_simps del: upt_Suc)
  qed
qed

lemma memccpy_loop_eq:
  "n \<noteq> 0 \<Longrightarrow> ascending_safe t f (unat n) \<Longrightarrow> memccpy_loop m t f c n =
    (case find (\<lambda>i. m (f + of_nat i) = c) [0..<unat n] of
       None \<Rightarrow> (moved m t f (unat n), 0)
     | Some i \<Rightarrow> (moved m t f (Suc i), t + of_nat (Suc i)))"
proof (induction m t f c n rule: memccpy_loop.induct)
  case (1 m t f c n)
  let ?k = "unat (n - 1)"
  have u: "unat n = Suc ?k" using "1.prems"(1) by (rule unat_minus_one_word)
  then have lim: "Suc ?k \<le> 2 ^ 32" using unat_u32_less [of n] by simp
  have safe: "ascending_safe t f (Suc ?k)" using "1.prems"(2) u by simp
  have mv: "moved (m(t := m f)) (t + 1) (f + 1) j = moved m t f (Suc j)" if "j \<le> ?k" for j
    using moved_ascending_safe [of t f 1 j m] ascending_safe_mono [OF safe, of "Suc j"] that lim
    by (simp add: moved_1 [unfolded One_nat_def])
  have rd: "(m(t := m f)) (f + 1 + of_nat i) = m (f + 1 + of_nat i)" if "i < ?k" for i
    using safe [unfolded ascending_safe_def, rule_format, of 0 "Suc i"] that by (simp add: add.assoc)
  let ?P = "\<lambda>i. m (f + 1 + of_nat i) = c"
  have fd: "find (\<lambda>i. (m(t := m f)) (f + 1 + of_nat i) = c) [0..<?k] = find ?P [0..<?k]"
    by (rule find_cong) (simp_all add: rd del: fun_upd_apply)
  have safe1: "ascending_safe (t + 1) (f + 1) ?k" using ascending_safe_shift [of t f 1 ?k] safe by simp
  have IH: "memccpy_loop (m(t := m f)) (t + 1) (f + 1) c (n - 1) =
      (case find ?P [0..<?k] of None \<Rightarrow> (moved m t f (Suc ?k), 0)
       | Some i \<Rightarrow> (moved m t f (Suc (Suc i)), t + of_nat (Suc (Suc i))))"
    if "m f \<noteq> c" "n - 1 \<noteq> 0"
  proof (cases "find ?P [0..<?k]")
    case None
    then show ?thesis using "1.IH" [OF refl that] safe1 fd mv that
      by (simp del: fun_upd_apply)
  next
    case (Some i)
    then have "Suc i \<le> ?k" by (auto simp: find_Some_iff)
    then show ?thesis using "1.IH" [OF refl that] safe1 fd mv that Some
      by (simp add: add.assoc del: fun_upd_apply)
  qed
  show ?case
    unfolding u
    by (subst memccpy_loop.simps, subst find_upt_Suc)
      (use IH u in \<open>auto simp: Let_def moved_1 [unfolded One_nat_def] add.assoc
        simp del: fun_upd_apply split: option.splits\<close>)
qed

section \<open>Swapping bytes and finding bits: the results\<close>

lemma unat_and_7: "unat ((x :: u32) AND 7) = unat x mod 8"
proof -
  have "x AND 7 = x AND mask 3" by (simp add: mask_eq_exp_minus_1)
  then show ?thesis by (simp only: unat_and_mask) simp
qed

lemma and_7_pred:
  assumes "(k :: u32) AND 7 \<noteq> 0"
  shows "unat (k AND 7) = Suc (unat ((k - 1) AND 7))" "k - 1 - ((k - 1) AND 7) = k - (k AND 7)"
proof -
  have "k \<noteq> 0" using assms by auto
  then have u: "unat k = Suc (unat (k - 1))" by (rule unat_minus_one_word)
  have "unat k mod 8 \<noteq> 0" using assms by (metis unat_and_7 unat_eq_0)
  then show s: "unat (k AND 7) = Suc (unat ((k - 1) AND 7))"
    unfolding unat_and_7 u by (simp add: mod_Suc split: if_splits)
  then have "(of_nat (unat (k AND 7)) :: u32) = of_nat (Suc (unat ((k - 1) AND 7)))" by (rule arg_cong)
  then have "k AND 7 = ((k - 1) AND 7) + 1" by simp
  then show "k - 1 - ((k - 1) AND 7) = k - (k AND 7)" by simp
qed

lemma swab_round_eq:
  "swab_round n st = (n - 1 - ((n - 1) AND 7), (swab_STEP ^^ unat ((n - 1) AND 7)) st)"
proof (induction n st rule: swab_round.induct)
  case (1 n st)
  show ?case
  proof (cases "(n - 1) AND 7 = 0")
    case True
    then show ?thesis by (subst swab_round.simps) (simp add: Let_def)
  next
    case False
    with 1 [OF refl False] and_7_pred [OF False] show ?thesis
      by (subst swab_round.simps) (simp add: Let_def funpow_swap1 del: diff_diff_eq)
  qed
qed

lemma swab_loop_eq: "swab_loop n st = (swab_STEP ^^ (8 * unat n)) st"
proof (induction n st rule: swab_loop.induct)
  case (1 n st)
  then show ?case
    by (cases "n = 0"; subst swab_loop.simps)
      (simp_all add: unat_minus_one_word [of n] numeral_eq_Suc funpow_swap1)
qed

lemma swab_steps: "swab m from to len = fst ((swab_STEP ^^ (unat len div 2)) (m, from, to))"
proof -
  let ?k = "len div 2"
  have k: "unat ?k = unat len div 2" by (simp add: unat_div)
  have "unat (?k - (?k AND 7)) = unat ?k - unat ?k mod 8"
    by (subst unat_sub) (simp_all add: word_le_nat_alt unat_and_7)
  then have d: "unat (drop_bit 3 (?k - (?k AND 7))) = unat ?k div 8"
    by (simp add: drop_bit_eq_div unat_div) (metis div_mult_self1_is_m minus_mod_eq_mult_div zero_less_numeral)
  have "(swab_STEP ^^ (8 * (unat ?k div 8))) ((swab_STEP ^^ (unat ?k mod 8)) (m, from, to))
      = (swab_STEP ^^ unat ?k) (m, from, to)"
    using funpow_add [of "8 * (unat ?k div 8)" "unat ?k mod 8" swab_STEP]
    by (simp only: mult_div_mod_eq comp_apply)
  then show ?thesis
    using d by (auto simp: swab_def Let_def swab_round_eq swab_loop_eq unat_and_7 k unat_eq_0)
qed

text \<open>Swapping in place or upwards: each pair of bytes is exchanged.\<close>

definition swapped :: "mem \<Rightarrow> u32 \<Rightarrow> u32 \<Rightarrow> nat \<Rightarrow> mem" where
  "swapped m d s n = (\<lambda>a. if in_range d (2 * n) a then m (s + ((a - d) XOR 1)) else m a)"

lemma unat_offset: "unat ((a :: u32) - (d + of_nat k)) < j \<Longrightarrow> k + j \<le> 2 ^ 32 \<Longrightarrow>
  \<exists>i < j. a = d + of_nat (k + i)"
  by (rule exI [of _ "unat (a - (d + of_nat k))"]) simp

lemma in_range_add:
  assumes "k + j \<le> 2 ^ 32"
  shows "in_range d (k + j) a \<longleftrightarrow> in_range d k a \<or> in_range (d + of_nat k) j a"
proof -
  have x: "unat (a - (d + of_nat k)) = (if k \<le> unat (a - d) then unat (a - d) - k else unat (a - d) + 2 ^ 32 - k)"
    using unat_diff_shift [of k "a - d"] assms by (simp add: algebra_simps)
  show ?thesis using assms by (auto simp: in_range_def x)
qed

lemma even_xor_1: "(of_nat (2 * n) :: u32) XOR 1 = of_nat (2 * n) + 1"
  "((of_nat (2 * n) :: u32) + 1) XOR 1 = of_nat (2 * n)"
proof -
  have e: "even (of_nat (2 * n) :: u32)" by simp
  then show "(of_nat (2 * n) :: u32) XOR 1 = of_nat (2 * n) + 1" by (simp add: xor_one_eq)
  show "((of_nat (2 * n) :: u32) + 1) XOR 1 = of_nat (2 * n)" using e by (simp add: xor_one_eq)
qed

lemma swab_STEP_loop:
  assumes "ascending_safe d s (2 * n)" "2 * n \<le> 2 ^ 32"
  shows "(swab_STEP ^^ n) (m, s, d) = (swapped m d s n, s + of_nat (2 * n), d + of_nat (2 * n))"
  using assms
proof (induction n)
  case 0
  then show ?case by (simp add: swapped_def)
next
  case (Suc n)
  let ?d = "d + of_nat (2 * n)" and ?s = "s + of_nat (2 * n)" and ?m = "swapped m d s n"
  have IH: "(swab_STEP ^^ n) (m, s, d) = (?m, ?s, ?d)"
    using Suc ascending_safe_mono [of d s "2 * Suc n" "2 * n"] by simp
  have rd: "?m (s + of_nat i) = m (s + of_nat i)" if "2 * n \<le> i" "i < 2 * Suc n" for i
  proof -
    have "\<not> in_range d (2 * n) (s + of_nat i)"
    proof
      assume "in_range d (2 * n) (s + of_nat i)"
      then have "unat (s + of_nat i - d) < 2 * n" by (simp add: in_range_def)
      moreover have "d + of_nat (unat (s + of_nat i - d)) = s + of_nat i" by simp
      ultimately show False
        using Suc.prems(1) that unfolding ascending_safe_def by (metis order_less_le_trans)
    qed
    then show ?thesis by (simp add: swapped_def)
  qed
  have "?m(?d := m (?s + 1), ?d + 1 := m ?s) = swapped m d s (Suc n)"
  proof
    fix a
    have r: "in_range d (2 * Suc n) a \<longleftrightarrow> in_range d (2 * n) a \<or> a = ?d \<or> a = ?d + 1"
      using in_range_add [of "2 * n" 2 d a] Suc.prems(2) by (simp add: in_range_Suc numeral_2_eq_2 add.assoc)
    have fresh: "\<not> in_range d (2 * n) ?d" "\<not> in_range d (2 * n) (?d + 1)"
      using Suc.prems(2) in_range_of_nat [of "2 * n" d "2 * n"] in_range_of_nat [of "2 * n + 1" d "2 * n"]
      by (simp_all add: ac_simps)
    show "(?m(?d := m (?s + 1), ?d + 1 := m ?s)) a = swapped m d s (Suc n) a"
      using r fresh even_xor_1 [of n] by (auto simp: swapped_def add.assoc)
  qed
  then show ?case
    using IH rd [of "2 * n"] rd [of "2 * n + 1"] by (simp add: swab_STEP_def Let_def add.assoc algebra_simps)
qed

lemma low_bits_zero: "(r :: u32) AND mask w = 0 \<longleftrightarrow> (\<forall>j < w. \<not> bit r j)"
proof
  assume "r AND mask w = 0"
  then have "\<not> bit (r AND mask w) j" for j by simp
  then show "\<forall>j < w. \<not> bit r j" using bit_imp_le_length [of r] by (auto simp: bit_simps)
next
  assume "\<forall>j < w. \<not> bit r j"
  then show "r AND mask w = 0" by (intro bit_word_eqI) (auto simp: bit_simps)
qed

text \<open>The table holds the position of the lowest set bit of a nibble.\<close>

lemma nibble_cases:
  "(x :: u32) < 16 \<Longrightarrow> x \<in> {0, 1, 2, 3, 4, 5, 6, 7, 8, 9, 10, 11, 12, 13, 14, 15}"
proof -
  assume "x < 16"
  then have "unat x < 16" by (simp add: word_less_nat_alt)
  then have "unat x = 0 \<or> unat x = 1 \<or> unat x = 2 \<or> unat x = 3 \<or> unat x = 4 \<or> unat x = 5 \<or>
    unat x = 6 \<or> unat x = 7 \<or> unat x = 8 \<or> unat x = 9 \<or> unat x = 10 \<or> unat x = 11 \<or>
    unat x = 12 \<or> unat x = 13 \<or> unat x = 14 \<or> unat x = 15" by arith
  then show ?thesis by (auto simp: word_unat_eq_iff)
qed

lemma ffs_nibble:
  assumes "(r :: u32) AND 0xf \<noteq> 0"
  obtains k where "k < 4" "bit r k" "\<forall>j < k. \<not> bit r j" "ffs_t ! unat (r AND 0xf) = int k + 1"
proof -
  define x where "x = r AND 0xf"
  have m: "(0xf :: u32) = mask 4" by (simp add: mask_eq_exp_minus_1)
  have b: "bit r j \<longleftrightarrow> bit x j" if "j < 4" for j
    unfolding m x_def using that by (simp add: bit_simps)
  have "unat x < 2 ^ 4" unfolding m x_def by (simp only: unat_and_mask) simp
  then have "x < 16" by (simp add: word_less_nat_alt)
  then have "x \<in> {1, 2, 3, 4, 5, 6, 7, 8, 9, 10, 11, 12, 13, 14, 15}"
    using nibble_cases [of x] assms by (simp add: x_def)
  then consider "x \<in> {1, 3, 5, 7, 9, 11, 13, 15}" | "x \<in> {2, 6, 10, 14}" | "x \<in> {4, 12}" | "x = 8"
    by auto
  then show thesis
  proof cases
    case 1
    then have "bit x 0" "ffs_t ! unat x = int 0 + 1" by (auto simp: ffs_t_def bit_simps)
    then show thesis using that [of 0] b [of 0] by (simp add: x_def)
  next
    case 2
    then have "bit x 1" "\<not> bit x 0" "ffs_t ! unat x = int 1 + 1" by (auto simp: ffs_t_def)
    then show thesis using that [of 1] b [of 0] b [of 1] by (simp add: x_def)
  next
    case 3
    then have "bit x 2" "\<not> bit x 0" "\<not> bit x 1" "ffs_t ! unat x = int 2 + 1"
      by (auto simp: ffs_t_def)
    moreover from this have "\<forall>j < 2. \<not> bit x j" by (auto simp: less_2_cases_iff)
    ultimately show thesis using that [of 2] b by (simp add: x_def)
  next
    case 4
    then have "bit x 3" "\<not> bit x 0" "\<not> bit x 1" "\<not> bit x 2" "ffs_t ! unat x = int 3 + 1"
      by (auto simp: ffs_t_def)
    moreover from this have "\<forall>j < 3. \<not> bit x j"
      by (auto simp: numeral_3_eq_3 numeral_2_eq_2 less_Suc_eq)
    ultimately show thesis using that [of 3] b by (simp add: x_def)
  qed
qed

text \<open>One narrowing step of \<open>ffs\<close>: the lowest set bit is in the half that is kept.\<close>

definition narrows :: "u32 \<Rightarrow> int \<times> u32 \<Rightarrow> bool" where
  "narrows msk s \<longleftrightarrow> (\<exists>b. fst s = int b \<and> snd s = drop_bit b msk \<and> (\<forall>j < b. \<not> bit msk j))"

lemma narrows_step:
  assumes "narrows msk (b, r)"
  shows "narrows msk (if r AND mask w = 0 then (b + int w, drop_bit w r) else (b, r))"
proof (cases "r AND mask w = 0")
  case True
  obtain n where n: "b = int n" "r = drop_bit n msk" "\<forall>j < n. \<not> bit msk j"
    using assms by (auto simp: narrows_def)
  have "\<not> bit msk j" if "j < n + w" for j
  proof (cases "j < n")
    case False
    then have "bit msk j = bit r (j - n)" by (simp add: n(2) bit_simps)
    then show ?thesis using True that False low_bits_zero [of r w] by simp
  qed (use n(3) in simp)
  then show ?thesis using True n by (auto simp: narrows_def add.commute intro!: exI [of _ "n + w"])
qed (use assms in simp)

lemma narrows_nonzero:
  assumes "(r :: u32) AND mask (2 * w) \<noteq> 0"
  shows "(if r AND mask w = 0 then drop_bit w r else r) AND mask w \<noteq> 0"
proof (cases "r AND mask w = 0")
  case True
  obtain j where j: "j < 2 * w" "bit r j" using assms low_bits_zero [of r "2 * w"] by auto
  moreover have "w \<le> j" using True j low_bits_zero [of r w] by (meson not_le)
  ultimately have "j - w < w" "bit (drop_bit w r) (j - w)" by (simp_all add: bit_simps)
  then show ?thesis using True low_bits_zero [of "drop_bit w r" w] by auto
qed simp

lemma ffs_lowest:
  assumes "msk \<noteq> 0"
  shows "\<exists>k. bit msk k \<and> (\<forall>j < k. \<not> bit msk j) \<and> ffs msk = int k + 1"
proof -
  define stage where "stage w s = (if snd s AND mask w = 0 then (fst s + int w, drop_bit w (snd s)) else s)"
    for w and s :: "int \<times> u32"
  define s where "s = stage 4 (stage 8 (stage 16 (0, msk)))"
  have st: "narrows msk (stage w t)" if "narrows msk t" for w t
    using narrows_step [of msk "fst t" "snd t" w] that by (auto simp: stage_def split: if_splits)
  have nz: "snd (stage w t) AND mask w \<noteq> 0" if "snd t AND mask (2 * w) \<noteq> 0" for w t
    using narrows_nonzero [OF that] by (simp add: stage_def split: if_splits)
  have "narrows msk (0, msk)" by (simp add: narrows_def)
  then have "narrows msk s" by (simp add: s_def st)
  then obtain b where b: "fst s = int b" "snd s = drop_bit b msk" "\<forall>j < b. \<not> bit msk j"
    by (auto simp: narrows_def)
  have "msk AND mask 32 \<noteq> 0" using assms take_bit_length_eq [of msk] by (simp add: take_bit_eq_mask)
  then have "snd s AND mask 4 \<noteq> 0"
    unfolding s_def using nz [of "(0, msk)" 16] nz [of "stage 16 (0, msk)" 8]
      nz [of "stage 8 (stage 16 (0, msk))" 4] by simp
  then have "snd s AND 0xf \<noteq> 0" by (simp add: mask_eq_exp_minus_1)
  then obtain k where k: "bit (snd s) k" "\<forall>j < k. \<not> bit (snd s) j"
    "ffs_t ! unat (snd s AND 0xf) = int k + 1" by (rule ffs_nibble)
  have "ffs msk = fst s + ffs_t ! unat (snd s AND 0xf)"
    by (simp add: ffs_def s_def stage_def Let_def mask_eq_exp_minus_1)
  then have "ffs msk = int (b + k) + 1" using b(1) k(3) by simp
  moreover have "bit msk (b + k)" using k(1) by (simp add: b(2) bit_simps)
  moreover have "\<not> bit msk j" if "j < b + k" for j
  proof (cases "j < b")
    case False
    then have "bit msk j = bit (snd s) (j - b)" by (simp add: b(2) bit_simps)
    then show ?thesis using k(2) that False by simp
  qed (use b(3) in simp)
  ultimately show ?thesis by blast
qed

section \<open>Properties\<close>

text \<open>
  Filling: \<open>memset\<close> stores the low byte of its argument in exactly the \<open>n\<close> bytes from
  \<open>dst\<close> on and returns \<open>dst\<close>; \<open>bzero\<close> and \<open>explicit_bzero\<close> have the effect of \<open>memset\<close> with 0.
  The counts are 32-bit numbers and the range may wrap around the address space.
\<close>

theorem memset_fills:
  "bytes (fst (memset m dst c n)) dst (unat n) = replicate (unat n) (ucast c) \<and>
   (\<forall>a. in_range dst (unat n) a \<or> fst (memset m dst c n) a = m a) \<and>
   snd (memset m dst c n) = dst \<and>
   bzero m dst n = fst (memset m dst 0 n) \<and> explicit_bzero m dst n = fst (memset m dst 0 n)"
  using unat_u32_less [of n]
  by (simp add: memset_filled bytes_filled bzero_def bzero_filled explicit_bzero_def)
    (simp add: filled_def)

text \<open>
  The comparisons agree: \<open>memcmp\<close> is the difference of the first differing bytes of the
  two blocks, \<open>timingsafe_memcmp\<close>, which never branches on the data, is its sign, and \<open>bcmp\<close> and
  \<open>timingsafe_bcmp\<close> are 0 exactly when the blocks are equal and 1 otherwise.
\<close>

theorem comparisons_agree:
  "memcmp m p q n = first_difference (bytes m p (unat n)) (bytes m q (unat n)) \<and>
   timingsafe_memcmp m p q n = sgn (memcmp m p q n) \<and>
   bcmp m p q n = (if bytes m p (unat n) = bytes m q (unat n) then 0 else 1) \<and>
   timingsafe_bcmp m p q n = bcmp m p q n \<and>
   (memcmp m p q n = 0) = (bcmp m p q n = 0)"
  using timingsafe_memcmp_loop_eq [of 0 n m p q]
  by (simp add: memcmp_eq timingsafe_memcmp_def bcmp_def bcmp_loop_eq timingsafe_bcmp_def
    timingsafe_bcmp_loop_eq first_difference_eq_0)

text \<open>
  Searching: \<open>memchr\<close> returns the first and \<open>memrchr\<close> the last address of the block that
  holds the byte \<open>c\<close>, \<open>memmem\<close> the first address at which the second block occurs in the first
  (the first block itself for an empty second one); all return the null pointer when there
  is none, and the search of \<open>memmem\<close> ends for every block below the top of memory.
\<close>

theorem searches_find:
  assumes "unat s + unat n < 2 ^ 32"
  shows "memchr m s c n = found s (find (\<lambda>i. m (s + of_nat i) = ucast c) [0..<unat n]) \<and>
    memrchr m s c n = found s (find (\<lambda>i. m (s + of_nat i) = ucast c) (rev [0..<unat n])) \<and>
    memmem m s n t k = Some (found s (find (\<lambda>i. bytes m (s + of_nat i) (unat k) = bytes m t (unat k))
      [0..<Suc (unat n) - unat k]))"
  by (simp only: memchr_eq memrchr_eq memmem_eq [OF assms])

theorem searches_find_witness:
  "memchr ramp_mem 0x1000 5 8 = 0x1005 \<and> memrchr ramp_mem 0x1000 2 8 = 0x1002 \<and>
   memmem ramp_mem 0x1000 8 0x2003 2 = Some 0x1003"
  using searches_find [of "0x1000" 8 ramp_mem 5 "0x2003" 2] searches_find [of "0x1000" 8 ramp_mem 2 "0x2003" 2]
  by (simp add: ramp_mem_def upt_rec bytes_def)

text \<open>
  \<open>memccpy\<close> copies up to and including the first byte equal to \<open>c\<close> and returns the address
  after its copy, or copies all \<open>n\<close> bytes and returns the null pointer; \<open>swab\<close>, with its
  eightfold unrolled loop, exchanges the two bytes of each of the \<open>len / 2\<close> pairs and touches
  nothing else, in place or between blocks that do not run into each other.
\<close>

theorem memccpy_swab_copy:
  assumes "ascending_safe t f (unat n)"
  shows "memccpy m t f c n =
      (case find (\<lambda>i. m (f + of_nat i) = ucast c) [0..<unat n] of
         None \<Rightarrow> (moved m t f (unat n), 0)
       | Some i \<Rightarrow> (moved m t f (Suc i), t + of_nat (Suc i))) \<and>
    swab m f t n = swapped m t f (unat n div 2)"
proof -
  have "ascending_safe t f (2 * (unat n div 2))" "2 * (unat n div 2) \<le> 2 ^ 32"
    using assms ascending_safe_mono unat_u32_less [of n] by auto
  from swab_STEP_loop [OF this] show ?thesis
    using assms by (simp add: memccpy_def memccpy_loop_eq swab_steps)
qed

theorem memccpy_swab_copy_witness:
  "snd (memccpy ramp_mem 0x2000 0x1003 5 9) = 0x2003 \<and> swab ramp_mem 0x1003 0x2000 9 0x2000 = 4"
proof -
  have "ascending_safe 0x2000 0x1003 (unat (9 :: u32))"
    by (rule ascending_safe_lower) (simp_all add: fits_at_def)
  from memccpy_swab_copy [OF this, of ramp_mem 5] show ?thesis
    by (simp add: ramp_mem_def upt_rec swapped_def in_range_def)
qed

text \<open>
  \<open>ffs\<close> returns 0 for 0 and otherwise the position, counted from 1, of the lowest set bit
  of its argument.
\<close>

theorem ffs_lowest_set_bit:
  "ffs msk = (if msk = 0 then 0 else int (LEAST k. bit msk k) + 1)"
proof (cases "msk = 0")
  case False
  then obtain k where k: "bit msk k" "\<forall>j < k. \<not> bit msk j" "ffs msk = int k + 1"
    using ffs_lowest by blast
  then have "(LEAST k. bit msk k) = k" by (intro Least_equality) (auto simp: not_less [symmetric])
  then show ?thesis using False k(3) by simp
qed (simp add: ffs_def ffs_t_def)

end
