(* ===== verification/Heap.thy ===== *)
theory Heap
  imports Memory_Map Mem_Functions
begin

text \<open>
  The kernel heap: Include/Segment.hh, Include/SegmentList.hh and Kernel/Heap.cc. A block is a
  16-byte header (the \<open>Segment\<close>) followed by its payload. Free blocks are on a circular list, and
  fresh ones come page-wise from \<open>Memory::mapAnonymousRegion\<close>. The headers are a store indexed by
  address and the payloads a byte memory; that no payload overlaps a header or another payload
  is part of the invariant. The bodies that run under \<open>heapLock\<close> are atomic here.
\<close>

section \<open>Segment\<close>

record segment =
  sizeM :: u32
  prevM :: u32
  nextM :: u32
  allocated :: bool
  checksum :: u8
  pad1 :: u8
  pad2 :: u8

type_synonym sstore = "u32 \<Rightarrow> segment"

definition sizeof_Segment :: u32 where "sizeof_Segment = 16"

text \<open>The bytes of a header in memory order; the alignment to 16 leaves two bytes of padding.\<close>

definition word_bytes :: "u32 \<Rightarrow> u8 list" where
  "word_bytes w = [ucast w, ucast (drop_bit 8 w), ucast (drop_bit 16 w), ucast (drop_bit 24 w)]"

definition segment_bytes :: "segment \<Rightarrow> u8 list" where
  "segment_bytes g = word_bytes (sizeM g) @ word_bytes (prevM g) @ word_bytes (nextM g) @
     [of_bool (allocated g), checksum g, pad1 g, pad2 g]"

definition xor_bytes :: "u8 list \<Rightarrow> u8" where
  "xor_bytes bs = fold (\<lambda>b s. s XOR b) bs 0"

definition updateChecksum :: "segment \<Rightarrow> segment" where
  "updateChecksum g = (let g = g\<lparr>checksum := 0\<rparr> in g\<lparr>checksum := xor_bytes (segment_bytes g)\<rparr>)"

definition verifyChecksum :: "segment \<Rightarrow> bool" where
  "verifyChecksum g \<longleftrightarrow> xor_bytes (segment_bytes g) = 0"

definition segment_ctor :: "u32 \<Rightarrow> segment \<Rightarrow> segment" where
  "segment_ctor this g =
     updateChecksum (g\<lparr>sizeM := 0, prevM := this, nextM := this, allocated := False, checksum := 0\<rparr>)"

definition segment_address :: "u32 \<Rightarrow> u32" where
  "segment_address this = this + sizeof_Segment"

section \<open>SegmentList\<close>

record segment_list =
  freeHead :: u32
  freeCount :: u32

definition set_nextM :: "u32 \<Rightarrow> u32 \<Rightarrow> sstore \<Rightarrow> sstore" where
  "set_nextM p q st = st(p := (st p)\<lparr>nextM := q\<rparr>)"

definition set_prevM :: "u32 \<Rightarrow> u32 \<Rightarrow> sstore \<Rightarrow> sstore" where
  "set_prevM p q st = st(p := (st p)\<lparr>prevM := q\<rparr>)"

definition list_ctor :: "u32 \<Rightarrow> sstore \<Rightarrow> segment_list \<times> sstore" where
  "list_ctor this st = (\<lparr>freeHead = this, freeCount = 0\<rparr>, st(this := segment_ctor this (st this)))"

definition list_add :: "u32 \<Rightarrow> segment_list \<times> sstore \<Rightarrow> segment_list \<times> sstore" where
  "list_add item = (\<lambda>(l, st).
     let pv = prevM (st (freeHead l));
         nx = freeHead l;
         st = set_nextM item nx st;
         st = set_prevM item pv st;
         st = set_nextM pv item st;
         st = set_prevM nx item st
     in (l\<lparr>freeCount := freeCount l + 1\<rparr>, st))"

definition list_remove :: "u32 \<Rightarrow> segment_list \<times> sstore \<Rightarrow> segment_list \<times> sstore" where
  "list_remove item = (\<lambda>(l, st).
     let oldNext = nextM (st item);
         oldPrev = prevM (st item);
         st = set_nextM oldPrev oldNext st;
         st = set_prevM oldNext oldPrev st
     in (l\<lparr>freeCount := freeCount l - 1\<rparr>, st))"

section \<open>Heap\<close>

record heap =
  segs :: sstore
  freeList :: segment_list
  space :: memory
  payload :: mem

definition headerOf :: "u32 \<Rightarrow> u32" where
  "headerOf d = d - sizeof_Segment"

text \<open>The loop over the free list: the first segment that is large enough, or the end.\<close>

partial_function (option) fit_loop :: "sstore \<Rightarrow> u32 \<Rightarrow> u32 \<Rightarrow> u32 \<Rightarrow> u32 option" where
  "fit_loop st hd_addr sz s =
     (if s \<noteq> hd_addr
      then if sizeM (st s) \<ge> sz then Some s else fit_loop st hd_addr sz (nextM (st s))
      else Some hd_addr)"

definition allocateBackend :: "u32 \<Rightarrow> u32 \<Rightarrow> heap \<Rightarrow> (u32 \<times> heap) res option" where
  "allocateBackend end_kernel sz h =
     (let rsize = roundTo sz PageSize
      in map_option (\<lambda>r. bindr r (\<lambda>(d, sp).
           if d = 0 then Inl (KASSERT ''data != 0'')
           else Inr (d, h\<lparr>space := sp, payload := fst (memset (payload h) d 0 rsize)\<rparr>)))
         (mapAnonymousRegion end_kernel rsize 0 (space h)))"

definition allocate :: "u32 \<Rightarrow> u32 \<Rightarrow> heap \<Rightarrow> (u32 \<times> heap) res option" where
  "allocate end_kernel sz h =
     (case fit_loop (segs h) (freeHead (freeList h)) sz (nextM (segs h (freeHead (freeList h)))) of
        None \<Rightarrow> None
      | Some s \<Rightarrow>
          if s \<noteq> freeHead (freeList h)
          then
            let (fl, st) = list_remove s (freeList h, segs h);
                st = st(s := updateChecksum (st s));
                st = st(s := (st s)\<lparr>allocated := True\<rparr>);
                pl = fst (memset (payload h) (segment_address s) 0 (sizeM (st s)))
            in Some (Inr (segment_address s, h\<lparr>freeList := fl, segs := st, payload := pl\<rparr>))
          else
            let rsize = roundTo (sz + sizeof_Segment) PageSize
            in map_option (\<lambda>r. bindr r (\<lambda>(g, h).
                 let st = (segs h)(g := segment_ctor g \<lparr>sizeM = 0, prevM = 0, nextM = 0, allocated = False,
                       checksum = 0, pad1 = 0, pad2 = 0\<rparr>);
                     st = st(g := (st g)\<lparr>sizeM := rsize - sizeof_Segment\<rparr>);
                     st = st(g := (st g)\<lparr>allocated := True\<rparr>);
                     st = st(g := updateChecksum (st g))
                 in Inr (segment_address g, h\<lparr>segs := st\<rparr>)))
               (allocateBackend end_kernel rsize h))"

definition deallocate :: "u32 \<Rightarrow> heap \<Rightarrow> heap res" where
  "deallocate d h =
     (let g = headerOf d
      in if allocated (segs h g)
         then
           let st = (segs h)(g := (segs h g)\<lparr>allocated := False\<rparr>);
               (fl, st) = list_add g (freeList h, st);
               st = st(g := updateChecksum (st g))
           in Inr (h\<lparr>freeList := fl, segs := st\<rparr>)
         else Inl (KASSERT ''segment->isAllocated()''))"

definition reallocate :: "u32 \<Rightarrow> u32 \<Rightarrow> u32 \<Rightarrow> heap \<Rightarrow> (u32 \<times> heap) res option" where
  "reallocate end_kernel d sz h =
     (let oldSize = sizeM (segs h (headerOf d))
      in if sz = 0 then Some (bindr (deallocate d h) (\<lambda>h. Inr (0, h)))
         else map_option (\<lambda>r. bindr r (\<lambda>(newData, h).
             if d \<noteq> 0
             then bindr (memcpy (payload h) newData d oldSize) (\<lambda>(pl, e).
                 bindr (deallocate d (h\<lparr>payload := pl\<rparr>)) (\<lambda>h. Inr (newData, h)))
             else Inr (newData, h)))
           (allocate end_kernel sz h))"

section \<open>Checksums\<close>

lemma xor_fold: "fold (\<lambda>b s. s XOR b) bs a = a XOR xor_bytes bs"
proof (induction bs arbitrary: a)
  case (Cons b bs)
  have "fold (\<lambda>b s. s XOR b) (b # bs) a = (a XOR b) XOR xor_bytes bs" using Cons.IH by simp
  moreover have "xor_bytes (b # bs) = (0 XOR b) XOR xor_bytes bs"
    unfolding xor_bytes_def [of "b # bs"] using Cons.IH [of "0 XOR b"] by simp
  ultimately show ?case by (simp add: xor.assoc)
qed (simp add: xor_bytes_def)

lemma xor_bytes_Cons: "xor_bytes (b # bs) = b XOR xor_bytes bs"
  unfolding xor_bytes_def [of "b # bs"] by (simp add: xor_fold)

lemma xor_bytes_append: "xor_bytes (xs @ ys) = xor_bytes xs XOR xor_bytes ys"
  unfolding xor_bytes_def [of "xs @ ys"] by (simp add: xor_fold xor.assoc)

lemma xor_segment:
  "xor_bytes (segment_bytes g) = xor_bytes (word_bytes (sizeM g) @ word_bytes (prevM g) @ word_bytes (nextM g) @
     [pad1 g, pad2 g]) XOR of_bool (allocated g) XOR checksum g"
  unfolding segment_bytes_def xor_bytes_append
  by (simp only: xor_bytes_Cons xor_bytes_append) (simp add: xor_bytes_def ac_simps)

lemma xor_cancel: "(a XOR b) XOR a = (b :: u8)"
  by (auto simp: bit_eq_iff bit_xor_iff)

lemma verify_update: "verifyChecksum (updateChecksum g)"
  by (simp add: verifyChecksum_def updateChecksum_def Let_def xor_segment xor_cancel xor.assoc [symmetric])

text \<open>Marking a segment after its checksum was taken makes the checksum wrong.\<close>

lemma verify_marked_late:
  "\<not> allocated g \<Longrightarrow> \<not> verifyChecksum ((updateChecksum g)\<lparr>allocated := True\<rparr>)"
  by (simp add: verifyChecksum_def updateChecksum_def Let_def xor_segment xor_cancel xor.assoc [symmetric])

section \<open>The free list\<close>

interpretation segments: linked_store "\<lambda>st p. nextM (st p)" "\<lambda>st p. prevM (st p)" set_nextM set_prevM
  by unfold_locales (auto simp: set_nextM_def set_prevM_def fun_eq_iff)

definition list_repr :: "segment_list \<times> sstore \<Rightarrow> u32 list \<Rightarrow> bool" where
  "list_repr = (\<lambda>(l, st) xs. clist (\<lambda>p. nextM (st p)) (\<lambda>p. prevM (st p)) (freeHead l) xs \<and>
     freeCount l = of_nat (length xs))"

text \<open>The list operations change links only.\<close>

definition same_blocks :: "sstore \<Rightarrow> sstore \<Rightarrow> bool" where
  "same_blocks st st' \<longleftrightarrow> (\<forall>p. sizeM (st' p) = sizeM (st p) \<and> allocated (st' p) = allocated (st p))"

lemma same_blocks_sets [simp]:
  "sizeM (set_nextM p q st r) = sizeM (st r)" "sizeM (set_prevM p q st r) = sizeM (st r)"
  "allocated (set_nextM p q st r) = allocated (st r)" "allocated (set_prevM p q st r) = allocated (st r)"
  by (simp_all add: set_nextM_def set_prevM_def)

lemma list_add_repr:
  assumes "list_repr (l, st) xs" "item \<notin> set (freeHead l # xs)" "list_add item (l, st) = (l', st')"
  shows "list_repr (l', st') (xs @ [item])" "same_blocks st st'" "freeHead l' = freeHead l"
proof -
  have eq: "st' = set_prevM (freeHead l) item (set_nextM (prevM (st (freeHead l))) item
      (set_prevM item (prevM (st (freeHead l))) (set_nextM item (freeHead l) st)))"
      "l' = l\<lparr>freeCount := freeCount l + 1\<rparr>"
    using assms(3) by (auto simp: list_add_def Let_def)
  show "list_repr (l', st') (xs @ [item])"
    using segments.insert_before_head [OF _ assms(2) refl refl, of st] assms(1)
    by (simp add: eq list_repr_def)
  show "same_blocks st st'" "freeHead l' = freeHead l" by (simp_all add: eq same_blocks_def)
qed

lemma list_remove_repr:
  assumes "list_repr (l, st) (xs @ item # ys)" "list_remove item (l, st) = (l', st')"
  shows "list_repr (l', st') (xs @ ys)" "same_blocks st st'" "freeHead l' = freeHead l"
proof -
  have eq: "st' = set_prevM (nextM (st item)) (prevM (st item)) (set_nextM (prevM (st item)) (nextM (st item)) st)"
      "l' = l\<lparr>freeCount := freeCount l - 1\<rparr>"
    using assms(2) by (auto simp: list_remove_def Let_def)
  show "list_repr (l', st') (xs @ ys)"
    using segments.unlink [OF _ refl, of st "freeHead l" xs item ys] assms(1) by (simp add: eq list_repr_def)
  show "same_blocks st st'" "freeHead l' = freeHead l" by (simp_all add: eq same_blocks_def)
qed

text \<open>Changes of a segment that leave its links alone.\<close>

lemma list_repr_cong:
  assumes "list_repr (l, st) xs" "\<And>p. nextM (st' p) = nextM (st p) \<and> prevM (st' p) = prevM (st p)"
  shows "list_repr (l, st') xs"
  using assms by (simp add: list_repr_def)

lemma list_repr_outside:
  assumes "list_repr (l, st) xs" "g \<notin> set (freeHead l # xs)"
  shows "list_repr (l, st(g := x)) xs"
proof -
  have "clist (\<lambda>p. nextM ((st(g := x)) p)) (\<lambda>p. prevM ((st(g := x)) p)) (freeHead l) xs =
      clist (\<lambda>p. nextM (st p)) (\<lambda>p. prevM (st p)) (freeHead l) xs"
    by (rule clist_cong) (use assms(2) in auto)
  then show ?thesis using assms(1) by (simp add: list_repr_def)
qed

lemma fit_loop_links:
  "links (\<lambda>p. nextM (st p)) (\<lambda>p. prevM (st p)) a xs e \<Longrightarrow> e \<notin> set xs \<Longrightarrow>
    fit_loop st e sz (nextM (st a)) =
      Some (case find (\<lambda>s. sz \<le> sizeM (st s)) xs of Some s \<Rightarrow> s | None \<Rightarrow> e)"
proof (induction xs arbitrary: a)
  case Nil
  then show ?case by (subst fit_loop.simps) simp
next
  case (Cons x xs)
  then have "nextM (st a) = x" "x \<noteq> e" by auto
  then show ?case using Cons by (subst fit_loop.simps) simp
qed

lemma fit_loop_eq:
  "list_repr (l, st) xs \<Longrightarrow> fit_loop st (freeHead l) sz (nextM (st (freeHead l))) =
    Some (case find (\<lambda>s. sz \<le> sizeM (st s)) xs of Some s \<Rightarrow> s | None \<Rightarrow> freeHead l)"
  by (simp add: list_repr_def clist_def fit_loop_links)

section \<open>Invariant\<close>

text \<open>
  The addresses of a block, header and payload. \<open>heap_ok lo h us fs free live\<close>: the free list is
  \<open>free\<close>, the blocks in use are \<open>live\<close>, all blocks lie between \<open>mapEnd\<close> and the table window and are
  pairwise disjoint, and the list head, a static object of the kernel, lies below \<open>lo\<close>.
\<close>

definition block :: "sstore \<Rightarrow> u32 \<Rightarrow> nat set" where
  "block st g = {unat g ..< unat g + 16 + unat (sizeM (st g))}"

definition blocks_ok :: "u32 \<Rightarrow> sstore \<Rightarrow> u32 list \<Rightarrow> bool" where
  "blocks_ok bottom st gs \<longleftrightarrow>
     distinct gs \<and>
     (\<forall>g \<in> set gs. bottom \<le> g \<and> unat g + 16 + unat (sizeM (st g)) \<le> unat PageTableBase) \<and>
     (\<forall>g \<in> set gs. \<forall>g' \<in> set gs. g \<noteq> g' \<longrightarrow> block st g \<inter> block st g' = {})"

definition heap_ok :: "u32 \<Rightarrow> heap \<Rightarrow> u32 list \<Rightarrow> u32 list \<Rightarrow> u32 list \<Rightarrow> u32 list \<Rightarrow> bool" where
  "heap_ok lo h us fs free live \<longleftrightarrow>
     mem_ok lo (space h) us fs \<and> list_repr (freeList h, segs h) free \<and>
     freeHead (freeList h) < lo \<and> lo \<le> mapEnd (space h) \<and>
     blocks_ok (mapEnd (space h)) (segs h) (free @ live) \<and>
     (\<forall>g \<in> set free. \<not> allocated (segs h g)) \<and> (\<forall>g \<in> set live. allocated (segs h g))"

lemma blocks_ok_mono:
  assumes "blocks_ok b st gs" "b' \<le> b" "set gs' = set gs" "distinct gs'"
    "\<And>g. g \<in> set gs \<Longrightarrow> sizeM (st' g) = sizeM (st g)"
  shows "blocks_ok b' st' gs'"
  using assms by (auto simp: blocks_ok_def block_def intro: order_trans)

text \<open>A new block directly below all others.\<close>

lemma blocks_ok_below:
  assumes gs: "blocks_ok b st gs" and g: "g < b" "unat g + 16 + unat (sizeM x) = unat b" "b \<le> PageTableBase"
  shows "blocks_ok g (st(g := x)) (g # gs)"
proof -
  have above: "b \<le> y" if "y \<in> set gs" for y using gs that by (simp add: blocks_ok_def)
  then have new: "y \<noteq> g" if "y \<in> set gs" for y using leD [OF above [OF that]] g(1) by auto
  have blk: "block (st(g := x)) g = {unat g ..< unat b}" using g(2) by (simp add: block_def)
  have old: "block (st(g := x)) y = block st y" if "y \<in> set gs" for y
    using new [OF that] by (simp add: block_def)
  have "block st y \<inter> {unat g ..< unat b} = {}" if "y \<in> set gs" for y
    using above [OF that] by (auto simp: block_def word_le_nat_alt)
  then show ?thesis
    using gs g new above old blk unfolding blocks_ok_def
    by (auto simp: word_le_nat_alt word_less_nat_alt intro: less_imp_le order_trans)
qed

lemma head_not_block:
  assumes "heap_ok lo h us fs free live"
  shows "freeHead (freeList h) \<notin> set (free @ live)"
proof
  assume "freeHead (freeList h) \<in> set (free @ live)"
  then have "mapEnd (space h) \<le> freeHead (freeList h)"
    using assms unfolding heap_ok_def blocks_ok_def by blast
  moreover have "freeHead (freeList h) < mapEnd (space h)"
    using assms less_le_trans unfolding heap_ok_def by blast
  ultimately show False by simp
qed

text \<open>Filling a range changes no byte of a block that does not meet it.\<close>

lemma in_range_nat:
  assumes "unat p + n \<le> 2 ^ 32"
  shows "in_range p n a \<longleftrightarrow> unat p \<le> unat a \<and> unat a < unat p + n"
proof (cases "unat p \<le> unat a")
  case True
  then have "p \<le> a" by (simp only: word_le_nat_alt)
  from unat_sub [OF this] have e: "unat (a - p) = unat a - unat p" .
  show ?thesis unfolding in_range_def e using True by (simp add: less_diff_conv2 add.commute)
next
  case False
  then have e: "unat (a - p) = 4294967296 + unat a - unat p" by (subst unat_sub_if') (simp add: word_size)
  show ?thesis unfolding in_range_def e using assms False by simp
qed

lemma payload_address:
  fixes g :: u32
  assumes "unat g + 16 + n \<le> unat PageTableBase" "i < n"
  shows "unat (g + 16 + of_nat i) = unat g + 16 + i"
  using assms by (simp add: unat_word_ariths unat_of_nat PageTableBase_def)

lemma bytes_filled_other:
  assumes "unat p + n \<le> 2 ^ 32" "unat g + 16 + k \<le> unat PageTableBase"
    "{unat p ..< unat p + n} \<inter> {unat g ..< unat g + 16 + k} = {}"
  shows "bytes (filled m p n b) (g + 16) k = bytes m (g + 16) k"
proof (rule bytes_cong)
  fix i
  assume i: "i < k"
  then have "unat g + 16 + i \<in> {unat g ..< unat g + 16 + k}" by simp
  then have "\<not> in_range p n (g + 16 + of_nat i)"
    using assms(3) payload_address [OF assms(2) i] by (auto simp: in_range_nat [OF assms(1)])
  then show "filled m p n b (g + 16 + of_nat i) = m (g + 16 + of_nat i)" by (simp add: filled_def)
qed

section \<open>Operations keep the invariant\<close>

lemma updateChecksum_fields [simp]:
  "sizeM (updateChecksum g) = sizeM g" "prevM (updateChecksum g) = prevM g" "nextM (updateChecksum g) = nextM g"
  "allocated (updateChecksum g) = allocated g"
  by (simp_all add: updateChecksum_def Let_def)

lemma headerOf_address [simp]: "headerOf (segment_address g) = g"
  by (simp add: headerOf_def segment_address_def)

lemma deallocate_ok:
  assumes ok: "heap_ok lo h us fs free live" and g: "g \<in> set live"
  obtains h' where "deallocate (segment_address g) h = Inr h'" "heap_ok lo h' us fs (free @ [g]) (remove1 g live)"
    "payload h' = payload h" "space h' = space h" "\<And>x. sizeM (segs h' x) = sizeM (segs h x)"
proof -
  let ?st1 = "(segs h)(g := (segs h g)\<lparr>allocated := False\<rparr>)"
  obtain fl st where add: "list_add g (freeList h, ?st1) = (fl, st)" by fastforce
  define st' where "st' = st(g := updateChecksum (st g))"
  define h' where "h' = h\<lparr>freeList := fl, segs := st'\<rparr>"
  have rep: "list_repr (freeList h, segs h) free" and bl: "blocks_ok (mapEnd (space h)) (segs h) (free @ live)"
    and fr: "\<forall>x \<in> set free. \<not> allocated (segs h x)" and li: "\<forall>x \<in> set live. allocated (segs h x)"
    using ok by (simp_all add: heap_ok_def)
  have di: "distinct (free @ live)" using bl by (simp add: blocks_ok_def)
  have "list_repr (freeList h, ?st1) free" by (rule list_repr_cong [OF rep]) simp
  moreover have "g \<notin> set (freeHead (freeList h) # free)" using head_not_block [OF ok] g di by auto
  ultimately have l: "list_repr (fl, st) (free @ [g])" "same_blocks ?st1 st" "freeHead fl = freeHead (freeList h)"
    using list_add_repr add by blast+
  have sz: "sizeM (st' x) = sizeM (segs h x)" for x
    using l(2) by (cases "x = g") (simp_all add: st'_def same_blocks_def)
  have al: "allocated (st' x) \<longleftrightarrow> x \<noteq> g \<and> allocated (segs h x)" for x
    using l(2) by (cases "x = g") (simp_all add: st'_def same_blocks_def)
  have "list_repr (fl, st') (free @ [g])" by (rule list_repr_cong [OF l(1)]) (simp add: st'_def)
  moreover have "blocks_ok (mapEnd (space h)) st' ((free @ [g]) @ remove1 g live)"
    by (rule blocks_ok_mono [OF bl]) (use di g sz in \<open>auto simp: distinct_remove1\<close>)
  ultimately have "heap_ok lo h' us fs (free @ [g]) (remove1 g live)"
    using ok fr li al l(3) di g by (auto simp: heap_ok_def h'_def dest: notin_set_remove1)
  moreover have "deallocate (segment_address g) h = Inr h'"
    using li g add by (simp add: deallocate_def Let_def h'_def st'_def)
  ultimately show ?thesis using that [of h'] sz by (simp add: h'_def)
qed

lemma allocate_free_ok:
  assumes ok: "heap_ok lo h us fs free live" and fit: "find (\<lambda>s. sz \<le> sizeM (segs h s)) free = Some g"
  obtains h' where "allocate end_kernel sz h = Some (Inr (segment_address g, h'))"
    "heap_ok lo h' us fs (remove1 g free) (g # live)" "g \<in> set free" "sz \<le> sizeM (segs h' g)"
    "payload h' = filled (payload h) (segment_address g) (unat (sizeM (segs h' g))) 0" "space h' = space h"
    "\<And>x. sizeM (segs h' x) = sizeM (segs h x)" "\<not> verifyChecksum (segs h' g)"
proof -
  have g: "g \<in> set free" "sz \<le> sizeM (segs h g)" using fit by (auto simp: find_Some_iff)
  obtain xs ys where free: "free = xs @ g # ys" using g(1) by (meson split_list)
  obtain fl st where rem: "list_remove g (freeList h, segs h) = (fl, st)" by fastforce
  define st' where "st' = st(g := (updateChecksum (st g))\<lparr>allocated := True\<rparr>)"
  define h' where "h' = h\<lparr>freeList := fl, segs := st',
    payload := fst (memset (payload h) (segment_address g) 0 (sizeM (st' g)))\<rparr>"
  have rep: "list_repr (freeList h, segs h) free" and bl: "blocks_ok (mapEnd (space h)) (segs h) (free @ live)"
    and fr: "\<forall>x \<in> set free. \<not> allocated (segs h x)" and li: "\<forall>x \<in> set live. allocated (segs h x)"
    using ok by (simp_all add: heap_ok_def)
  have di: "distinct (free @ live)" using bl by (simp add: blocks_ok_def)
  have r1: "remove1 g free = xs @ ys" using di free by (simp add: remove1_append)
  have l: "list_repr (fl, st) (xs @ ys)" "same_blocks (segs h) st" "freeHead fl = freeHead (freeList h)"
    by (rule list_remove_repr [OF rep [unfolded free] rem])+
  have gl: "g \<notin> set (freeHead fl # xs @ ys)" using head_not_block [OF ok] l(3) di free by auto
  have sz: "sizeM (st' x) = sizeM (segs h x)" for x
    using l(2) by (cases "x = g") (simp_all add: st'_def same_blocks_def)
  have al: "allocated (st' x) \<longleftrightarrow> x = g \<or> allocated (segs h x)" for x
    using l(2) by (cases "x = g") (simp_all add: st'_def same_blocks_def)
  have "list_repr (fl, st') (xs @ ys)" unfolding st'_def by (rule list_repr_outside [OF l(1) gl])
  moreover have "blocks_ok (mapEnd (space h)) st' ((xs @ ys) @ g # live)"
    by (rule blocks_ok_mono [OF bl]) (use di sz free in auto)
  ultimately have "heap_ok lo h' us fs (xs @ ys) (g # live)"
    using ok fr li al l(3) gl free by (auto simp: heap_ok_def h'_def)
  then have "heap_ok lo h' us fs (remove1 g free) (g # live)" by (simp only: r1)
  moreover have "allocate end_kernel sz h = Some (Inr (segment_address g, h'))"
    using fit_loop_eq [OF rep, of sz] fit head_not_block [OF ok] g(1) rem
    by (auto simp: allocate_def Let_def h'_def st'_def)
  moreover have "\<not> verifyChecksum (st' g)"
    using verify_marked_late [of "st g"] l(2) fr g(1) by (simp add: st'_def same_blocks_def)
  ultimately show ?thesis
    using that [of h'] g sz by (simp add: h'_def memset_filled)
qed

text \<open>
  The backend path, for the number \<open>n\<close> of pages that the rounded size of the request comes to.
\<close>

lemma backend_size:
  assumes "rsize = of_nat n * PageSize" "0 < n" "n * 4096 \<le> unat PageTableBase"
  shows "unat rsize = n * 4096" "page_span 0 rsize = n" "roundTo rsize PageSize = rsize" "rsize \<noteq> 0"
    "unat rsize + 4095 < 2 ^ 32"
proof -
  show un: "unat rsize = n * 4096"
    unfolding assms(1) of_nat_PageSize using assms(3) by (intro unat_of_nat_u32) (simp add: PageTableBase_def)
  show "rsize \<noteq> 0" using un assms(2) by auto
  show "page_span 0 rsize = n" by (simp add: page_span_def un)
  have "unat (rsize + 4095) = n * 4096 + 4095"
    using un assms(3) by (simp add: unat_word_ariths PageTableBase_def)
  then show "roundTo rsize PageSize = rsize"
    by (simp add: roundTo_page word_unat_eq_iff unat_page_of un)
  show "unat rsize + 4095 < 2 ^ 32" using un assms(3) by (simp add: PageTableBase_def)
qed

lemma allocate_backend:
  assumes ok: "heap_ok lo h us fs free live" and fit: "find (\<lambda>s. sz \<le> sizeM (segs h s)) free = None"
    and size: "roundTo (sz + sizeof_Segment) PageSize = of_nat n * PageSize" "0 < n" and room: "end_kernel < lo"
      "unat lo + n * 4096 \<le> unat (mapEnd (space h))" "2 * n \<le> length fs"
  defines "g \<equiv> mapEnd (space h) - of_nat n * PageSize"
  obtains h' us' fs' where "allocate end_kernel sz h = Some (Inr (segment_address g, h'))"
    "heap_ok lo h' us' fs' free (g # live)" "g \<notin> set free" "unat (sizeM (segs h' g)) = n * 4096 - 16"
    "payload h' = filled (payload h) g (unat (sizeM (segs h' g)) + 16) 0"
    "\<And>x. x \<noteq> g \<Longrightarrow> segs h' x = segs h x" "verifyChecksum (segs h' g)"
proof -
  have mem: "mem_ok lo (space h) us fs" and rep: "list_repr (freeList h, segs h) free"
    and bl: "blocks_ok (mapEnd (space h)) (segs h) (free @ live)"
    and hd: "freeHead (freeList h) < lo" "lo \<le> mapEnd (space h)"
    and fr: "\<forall>x \<in> set free. \<not> allocated (segs h x)" and li: "\<forall>x \<in> set live. allocated (segs h x)"
    using ok by (simp_all add: heap_ok_def)
  have me: "page_of (mapEnd (space h)) = mapEnd (space h)" "mapEnd (space h) \<le> PageTableBase"
    using mem by (simp_all add: mem_ok_def)
  have fits: "n * 4096 \<le> unat PageTableBase" using room(2) me(2) by (simp add: word_le_nat_alt)
  define rsize where "rsize = roundTo (sz + sizeof_Segment) PageSize"
  note bs = backend_size [OF size(1) [folded rsize_def] size(2) fits]
  note rb = region_bottom [OF me room(2), folded g_def]
  from mapAnonymousRegion_eq [OF mem bs(4,5) room(1), of 0] room(2,3) bs(2)
  obtain sp us' fs' where sp: "mapAnonymousRegion end_kernel rsize 0 (space h) = Some (Inr (g, sp))"
      "mem_ok lo sp us' fs'" "mapEnd sp = g"
    unfolding g_def by auto
  have g0: "g \<noteq> 0" "g < mapEnd (space h)"
    using room rb(2,5) size(2) by (auto simp: word_less_nat_alt word_le_nat_alt)
  define x where "x = updateChecksum ((segment_ctor g \<lparr>sizeM = 0, prevM = 0, nextM = 0, allocated = False,
      checksum = 0, pad1 = 0, pad2 = 0\<rparr>)\<lparr>sizeM := rsize - sizeof_Segment, allocated := True\<rparr>)"
  define h' where "h' = h\<lparr>space := sp, payload := filled (payload h) g (unat rsize) 0, segs := (segs h)(g := x)\<rparr>"
  have low: "g \<notin> set (free @ live)" using bl leD [of "mapEnd (space h)" g] g0(2) unfolding blocks_ok_def by blast
  have "16 \<le> unat rsize" using bs(1) size(2) by simp
  then have sz: "unat (sizeM x) + 16 = unat rsize"
    by (simp add: x_def sizeof_Segment_def unat_sub word_le_nat_alt)
  have "allocateBackend end_kernel rsize h =
      Some (Inr (g, h\<lparr>space := sp, payload := filled (payload h) g (unat rsize) 0\<rparr>))"
    using sp(1) bs(3) g0(1) by (simp add: allocateBackend_def Let_def bindr_def memset_filled)
  then have "allocate end_kernel sz h = Some (Inr (segment_address g, h'))"
    using fit_loop_eq [OF rep, of sz] fit
    by (simp add: allocate_def rsize_def [symmetric] bindr_def Let_def h'_def x_def)
  moreover have "heap_ok lo h' us' fs' free (g # live)"
  proof -
    have "g \<notin> set (freeHead (freeList h) # free)" using hd(1) rb(5) low by auto
    then have "list_repr (freeList h, (segs h)(g := x)) free" by (rule list_repr_outside [OF rep])
    moreover have "blocks_ok g ((segs h)(g := x)) (free @ g # live)"
    proof (rule blocks_ok_mono [OF blocks_ok_below [OF bl g0(2) _ me(2)]])
      show "unat g + 16 + unat (sizeM x) = unat (mapEnd (space h))" using sz bs(1) rb(2) room(2) by simp
    qed (use bl low in \<open>auto simp: blocks_ok_def\<close>)
    ultimately show ?thesis
      using sp hd(1) rb(5) fr li low by (auto simp: heap_ok_def h'_def x_def)
  qed
  moreover have "verifyChecksum x" unfolding x_def by (rule verify_update)
  ultimately show ?thesis
    using that [of h' us' fs'] low sz bs(1) by (simp add: h'_def)
qed

text \<open>Pages needed for a request of \<open>sz\<close> bytes and its header, if the sum does not wrap.\<close>

definition heap_pages :: "u32 \<Rightarrow> nat" where
  "heap_pages sz = page_span 0 (sz + sizeof_Segment)"

lemma heap_pages_size:
  assumes "unat sz + 16 + 4095 < 2 ^ 32"
  shows "roundTo (sz + sizeof_Segment) PageSize = of_nat (heap_pages sz) * PageSize"
    "unat sz + 16 \<le> heap_pages sz * 4096" "0 < heap_pages sz"
proof -
  have s16: "unat (sz + sizeof_Segment) = unat sz + 16"
    using assms by (simp add: sizeof_Segment_def unat_word_ariths)
  show "unat sz + 16 \<le> heap_pages sz * 4096"
    using region_size(2) [of 0 "sz + sizeof_Segment"] assms by (simp add: heap_pages_def s16)
  then show "0 < heap_pages sz" by simp
  show "roundTo (sz + sizeof_Segment) PageSize = of_nat (heap_pages sz) * PageSize"
    using region_size(1) [of 0 "sz + sizeof_Segment"] assms
    by (simp add: roundTo_page heap_pages_def s16 page_of_def)
qed

section \<open>Properties\<close>

text \<open>The bytes of the blocks in use are not touched by an allocation.\<close>

lemma live_payload:
  assumes "heap_ok lo h us fs free live" "g \<in> set (free @ live)" "x \<in> set (free @ live)" "g \<noteq> x"
    "unat p + n \<le> 2 ^ 32" "{unat p ..< unat p + n} \<subseteq> block (segs h) g"
  shows "bytes (filled m p n b) (segment_address x) (unat (sizeM (segs h x))) =
    bytes m (segment_address x) (unat (sizeM (segs h x)))"
proof -
  have bl: "block (segs h) g \<inter> block (segs h) x = {}" "unat x + 16 + unat (sizeM (segs h x)) \<le> unat PageTableBase"
    using assms(1-4) unfolding heap_ok_def blocks_ok_def by blast+
  then have "{unat p ..< unat p + n} \<inter> {unat x ..< unat x + 16 + unat (sizeM (segs h x))} = {}"
    using assms(6) by (auto simp: block_def)
  from bytes_filled_other [OF assms(5) bl(2) this] show ?thesis
    by (simp add: segment_address_def sizeof_Segment_def)
qed

lemma block_range:
  assumes "heap_ok lo h us fs free live" "g \<in> set (free @ live)"
  shows "unat (segment_address g) = unat g + 16"
    "unat (segment_address g) + unat (sizeM (segs h g)) \<le> 2 ^ 32"
    "{unat (segment_address g) ..< unat (segment_address g) + unat (sizeM (segs h g))} \<subseteq> block (segs h) g"
    "unat g + (unat (sizeM (segs h g)) + 16) \<le> 2 ^ 32"
proof -
  have top: "unat g + 16 + unat (sizeM (segs h g)) \<le> unat PageTableBase"
    using assms unfolding heap_ok_def blocks_ok_def by blast
  then show a: "unat (segment_address g) = unat g + 16"
    by (simp add: segment_address_def sizeof_Segment_def unat_word_ariths PageTableBase_def)
  show "unat (segment_address g) + unat (sizeM (segs h g)) \<le> 2 ^ 32"
    "unat g + (unat (sizeM (segs h g)) + 16) \<le> 2 ^ 32"
    using top by (simp_all add: a PageTableBase_def)
  show "{unat (segment_address g) ..< unat (segment_address g) + unat (sizeM (segs h g))} \<subseteq> block (segs h) g"
    unfolding a block_def by auto
qed

lemma bytes_filled_tail:
  assumes "k + 16 \<le> 2 ^ 32"
  shows "bytes (filled m g (k + 16) b) (segment_address g) k = replicate k b"
proof (rule nth_equalityI)
  fix i
  assume "i < length (bytes (filled m g (k + 16) b) (segment_address g) k)"
  then have i: "i < k" by simp
  have "segment_address g + of_nat i = g + of_nat (16 + i)" by (simp add: segment_address_def sizeof_Segment_def)
  then have "in_range g (k + 16) (segment_address g + of_nat i)"
    using i assms in_range_of_nat [of "16 + i" g "k + 16"] by (simp only:)
  then show "bytes (filled m g (k + 16) b) (segment_address g) k ! i = replicate k b ! i"
    using i by (simp add: filled_def)
qed simp

text \<open>
  C12. \<open>Heap::allocate\<close>, on a well-formed heap, for a request that does not overflow the size computation,
  when a free segment is large enough, or else the addresses from \<open>lo\<close>, behind the kernel, to \<open>mapEnd\<close> have
  room for the pages of a new segment and two physical pages are free for each of them. Then the
  call returns a block of at least the requested size that is disjoint from every block in use, its payload is zero, and the size and the contents of every
  other block in use are unchanged. The invariant of the heap, and with it the disjointness of
  all blocks, is kept.
\<close>

theorem allocate_gives_block:
  assumes "heap_ok lo h us fs free live" "unat sz + 16 + 4095 < 2 ^ 32" "end_kernel < lo"
    "(\<exists>g \<in> set free. sz \<le> sizeM (segs h g)) \<or>
     unat lo + heap_pages sz * 4096 \<le> unat (mapEnd (space h)) \<and> 2 * heap_pages sz \<le> length fs"
  shows "\<exists>g h' us' fs' free'. allocate end_kernel sz h = Some (Inr (segment_address g, h')) \<and>
    heap_ok lo h' us' fs' free' (g # live) \<and> sz \<le> sizeM (segs h' g) \<and>
    bytes (payload h') (segment_address g) (unat (sizeM (segs h' g))) = replicate (unat (sizeM (segs h' g))) 0 \<and>
    (\<forall>x \<in> set live. sizeM (segs h' x) = sizeM (segs h x) \<and>
      bytes (payload h') (segment_address x) (unat (sizeM (segs h x))) =
      bytes (payload h) (segment_address x) (unat (sizeM (segs h x))))"
proof (cases "find (\<lambda>s. sz \<le> sizeM (segs h s)) free")
  case None
  then have room: "unat lo + heap_pages sz * 4096 \<le> unat (mapEnd (space h))" "2 * heap_pages sz \<le> length fs"
    using assms(4) by (auto simp: find_None_iff)
  note hp = heap_pages_size [OF assms(2)]
  define g where "g = mapEnd (space h) - of_nat (heap_pages sz) * PageSize"
  obtain h' us' fs' where h': "allocate end_kernel sz h = Some (Inr (segment_address g, h'))"
    "heap_ok lo h' us' fs' free (g # live)" "unat (sizeM (segs h' g)) = heap_pages sz * 4096 - 16"
    "payload h' = filled (payload h) g (unat (sizeM (segs h' g)) + 16) 0"
    "\<And>x. x \<noteq> g \<Longrightarrow> segs h' x = segs h x"
    by (rule allocate_backend [OF assms(1) None hp(1,3) assms(3) room, folded g_def]) blast
  note br = block_range [OF h'(2), of g]
  have sz: "sz \<le> sizeM (segs h' g)" using hp(2) h'(3) by (simp add: word_le_nat_alt)
  have "unat (sizeM (segs h' g)) + 16 \<le> 2 ^ 32" using br(4) by simp
  then have zero: "bytes (payload h') (segment_address g) (unat (sizeM (segs h' g))) =
      replicate (unat (sizeM (segs h' g))) 0" unfolding h'(4) by (rule bytes_filled_tail)
  have old: "sizeM (segs h' x) = sizeM (segs h x) \<and>
      bytes (payload h') (segment_address x) (unat (sizeM (segs h x))) =
      bytes (payload h) (segment_address x) (unat (sizeM (segs h x)))" if "x \<in> set live" for x
  proof -
    have "x \<noteq> g" using h'(2) that by (auto simp: heap_ok_def blocks_ok_def)
    then show ?thesis
      using live_payload [OF h'(2), of g x g "unat (sizeM (segs h' g)) + 16"] br(4) that h'(4,5)
      by (simp add: block_def add.commute)
  qed
  show ?thesis
    using h'(1,2) sz zero old by (intro exI [of _ g] exI [of _ h'] exI [of _ us'] exI [of _ fs'] exI [of _ free]) simp
next
  case (Some g)
  obtain h' where h': "allocate end_kernel sz h = Some (Inr (segment_address g, h'))"
    "heap_ok lo h' us fs (remove1 g free) (g # live)" "sz \<le> sizeM (segs h' g)"
    "payload h' = filled (payload h) (segment_address g) (unat (sizeM (segs h' g))) 0"
    "\<And>x. sizeM (segs h' x) = sizeM (segs h x)"
    by (rule allocate_free_ok [OF assms(1) Some, of end_kernel]) blast
  note br = block_range [OF h'(2), of g]
  have zero: "bytes (payload h') (segment_address g) (unat (sizeM (segs h' g))) =
      replicate (unat (sizeM (segs h' g))) 0"
    unfolding h'(4) by (rule bytes_filled [OF less_imp_le [OF unat_u32_less]])
  have old: "sizeM (segs h' x) = sizeM (segs h x) \<and>
      bytes (payload h') (segment_address x) (unat (sizeM (segs h x))) =
      bytes (payload h) (segment_address x) (unat (sizeM (segs h x)))" if "x \<in> set live" for x
  proof -
    have "x \<noteq> g" using h'(2) that by (auto simp: heap_ok_def blocks_ok_def)
    then show ?thesis
      using live_payload [OF h'(2), of g x "segment_address g" "unat (sizeM (segs h' g))"] br(2,3) that h'(4,5)
      by simp
  qed
  show ?thesis
    using h'(1,2,3) zero old
    by (intro exI [of _ g] exI [of _ h'] exI [of _ us] exI [of _ fs] exI [of _ "remove1 g free"]) simp
qed

definition example_heap :: heap where
  "example_heap = \<lparr>segs = (\<lambda>_. \<lparr>sizeM = 0, prevM = 0xc0001000, nextM = 0xc0001000, allocated = False,
       checksum = 0, pad1 = 0, pad2 = 0\<rparr>),
     freeList = \<lparr>freeHead = 0xc0001000, freeCount = 0\<rparr>, space = example_memory, payload = (\<lambda>_. 0xff)\<rparr>"

lemma example_heap_ok: "heap_ok 0xe0000000 example_heap [] [48, 64] [] []"
  using example_mem_ok
  by (simp add: heap_ok_def example_heap_def list_repr_def blocks_ok_def)
    (simp add: example_memory_def MapStart_def KernelStackSize_def PageTableBase_def)

lemma example_heap_room:
  "unat (0xe0000000 :: u32) + heap_pages 100 * 4096 \<le> unat (mapEnd (space example_heap))"
  "2 * heap_pages 100 \<le> length [48, 64 :: u32]"
  by (simp_all add: heap_pages_def page_span_def sizeof_Segment_def example_heap_def example_memory_def
    MapStart_def KernelStackSize_def PageTableBase_def)

theorem allocate_gives_block_witness:
  "\<exists>g h'. allocate 0xc0100000 100 example_heap = Some (Inr (segment_address g, h')) \<and>
    100 \<le> sizeM (segs h' g) \<and> payload h' (segment_address g) = 0"
proof -
  have prems: "unat (100 :: u32) + 16 + 4095 < 2 ^ 32" "(0xc0100000 :: u32) < 0xe0000000" by simp_all
  from allocate_gives_block [OF example_heap_ok prems disjI2 [OF conjI [OF example_heap_room]]]
  show ?thesis
  proof (elim exE conjE)
    fix g h'
    assume call: "allocate 0xc0100000 100 example_heap = Some (Inr (segment_address g, h'))"
      and sz: "100 \<le> sizeM (segs h' g)"
      and zero: "bytes (payload h') (segment_address g) (unat (sizeM (segs h' g))) =
        replicate (unat (sizeM (segs h' g))) 0"
    have "0 < unat (sizeM (segs h' g))" using sz by (simp add: word_le_nat_alt)
    with arg_cong [OF zero, of "\<lambda>xs. xs ! 0"] have "payload h' (segment_address g) = 0" by simp
    with call sz show ?thesis by blast
  qed
qed

lemma find_last_fit: "find P xs = None \<Longrightarrow> P x \<Longrightarrow> find P (xs @ [x]) = Some x"
  by (induction xs) (auto split: if_splits)

text \<open>
  C13. \<open>Heap::deallocate\<close> moves a block in use to the end of the free list and keeps the invariant; a
  second \<open>deallocate\<close> of the same block fails the assertion, and a following \<open>allocate\<close> that fits the
  block and nothing earlier on the list takes it back without asking for new pages.
\<close>

theorem deallocate_then_reuse:
  assumes "heap_ok lo h us fs free live" "g \<in> set live" "sz \<le> sizeM (segs h g)"
    "\<forall>x \<in> set free. \<not> sz \<le> sizeM (segs h x)"
  shows "\<exists>h' h''. deallocate (segment_address g) h = Inr h' \<and> heap_ok lo h' us fs (free @ [g]) (remove1 g live) \<and>
    deallocate (segment_address g) h' = Inl (KASSERT ''segment->isAllocated()'') \<and>
    allocate end_kernel sz h' = Some (Inr (segment_address g, h'')) \<and> space h'' = space h \<and>
    heap_ok lo h'' us fs free (g # remove1 g live)"
proof -
  obtain h' where h': "deallocate (segment_address g) h = Inr h'"
    "heap_ok lo h' us fs (free @ [g]) (remove1 g live)" "space h' = space h"
    "\<And>x. sizeM (segs h' x) = sizeM (segs h x)"
    by (rule deallocate_ok [OF assms(1,2)]) blast
  have gf: "g \<notin> set free" using assms(1,2) by (auto simp: heap_ok_def blocks_ok_def)
  have fr: "\<not> allocated (segs h' g)" using h'(2) by (simp add: heap_ok_def)
  have "find (\<lambda>s. sz \<le> sizeM (segs h' s)) free = None" using assms(4) by (simp add: find_None_iff h'(4))
  then have "find (\<lambda>s. sz \<le> sizeM (segs h' s)) (free @ [g]) = Some g"
    using assms(3) by (simp add: find_last_fit h'(4))
  then obtain h'' where h'': "allocate end_kernel sz h' = Some (Inr (segment_address g, h''))"
    "heap_ok lo h'' us fs (remove1 g (free @ [g])) (g # remove1 g live)" "space h'' = space h'"
    by (rule allocate_free_ok [OF h'(2), of sz g end_kernel]) blast
  have "deallocate (segment_address g) h' = Inl (KASSERT ''segment->isAllocated()'')"
    using fr by (simp add: deallocate_def)
  moreover have "remove1 g (free @ [g]) = free" using gf by (simp add: remove1_append)
  ultimately show ?thesis
    using h' h'' by (intro exI [of _ h'] exI [of _ h'']) simp
qed

text \<open>One block in use.\<close>

definition example_block :: heap where
  "example_block = example_heap\<lparr>segs := (segs example_heap)(0xffbf0000 := \<lparr>sizeM = 4080, prevM = 0, nextM = 0,
     allocated = True, checksum = 0, pad1 = 0, pad2 = 0\<rparr>)\<rparr>"

lemma example_block_ok: "heap_ok 0xe0000000 example_block [] [48, 64] [] [0xffbf0000]"
  using example_mem_ok
  by (simp add: heap_ok_def example_block_def example_heap_def list_repr_def blocks_ok_def)
    (simp add: example_memory_def MapStart_def KernelStackSize_def PageTableBase_def)

theorem deallocate_then_reuse_witness:
  "\<exists>h' h''. deallocate (segment_address 0xffbf0000) example_block = Inr h' \<and>
    deallocate (segment_address 0xffbf0000) h' = Inl (KASSERT ''segment->isAllocated()'') \<and>
    allocate 0xc0100000 100 h' = Some (Inr (segment_address 0xffbf0000, h''))"
proof -
  have fit: "100 \<le> sizeM (segs example_block 0xffbf0000)" by (simp add: example_block_def)
  from deallocate_then_reuse [OF example_block_ok _ fit, of "0xc0100000"] show ?thesis by auto
qed

text \<open>
  The size computation of \<open>Heap::allocate\<close> can wrap: a request of more than \<open>2^32 - 16\<close> bytes is served
  with a block of 4080 bytes.
\<close>

theorem allocate_size_wraps:
  assumes "heap_ok lo h us fs free live" "unat sz + 16 > 2 ^ 32" "end_kernel < lo"
    "unat lo + 4096 \<le> unat (mapEnd (space h))" "2 \<le> length fs"
  shows "\<exists>g h'. allocate end_kernel sz h = Some (Inr (segment_address g, h')) \<and> unat (sizeM (segs h' g)) = 4080"
proof -
  have "unat (sizeM (segs h x)) < unat sz" if "x \<in> set free" for x
  proof -
    have "unat x + 16 + unat (sizeM (segs h x)) \<le> unat PageTableBase"
      using assms(1) that unfolding heap_ok_def blocks_ok_def by auto
    then show ?thesis using assms(2) by (simp add: PageTableBase_def)
  qed
  then have fit: "find (\<lambda>s. sz \<le> sizeM (segs h s)) free = None"
    by (auto simp: find_None_iff word_le_nat_alt not_le)
  have "unat (sz + sizeof_Segment) = unat sz + 16 - 2 ^ 32"
    using assms(2) unat_u32_less [of sz] by (simp add: sizeof_Segment_def unat_word_ariths mod_if)
  then have "unat (sz + sizeof_Segment + 4095) = unat sz + 16 - 2 ^ 32 + 4095"
    using unat_u32_less [of sz] by (simp add: unat_word_ariths)
  then have "unat (sz + sizeof_Segment + 4095) div 4096 = 1"
    using assms(2) unat_u32_less [of sz] by (intro div_nat_eqI) simp_all
  then have size: "roundTo (sz + sizeof_Segment) PageSize = of_nat 1 * PageSize"
    unfolding roundTo_page by (simp add: word_unat_eq_iff unat_page_of PageSize_def)
  have room: "unat lo + 1 * 4096 \<le> unat (mapEnd (space h))" "2 * 1 \<le> length fs" using assms(4,5) by simp_all
  show ?thesis
    by (rule allocate_backend [OF assms(1) fit size _ assms(3) room]) (simp, force)
qed

end
