(* ===== verification/Scheduler.thy ===== *)
theory Scheduler
  imports Prelude
begin

text \<open>
  Threads (Kernel/Thread.cc, Include/Kernel/Thread.hh), their job queues (Kernel/Job.cc) and
  the scheduler (Kernel/Scheduler.cc). Thread objects live in a store indexed by address;
  the ready and blocked queues are lists of thread pointers, as \<open>std::list<Thread*>\<close> is.
  The bodies under \<open>schedulerLock\<close> are modelled as their critical sections.
\<close>

section \<open>Threads and jobs\<close>

datatype thread_type = UserThread | KernelThread | InterruptThread

datatype thread_state = Ready | Blocked | Running

record job =
  mainM :: u32
  argM :: u32

record thread =
  idM :: u64
  userStackM :: u32
  kernelStackM :: u32
  stateM :: thread_state
  typeM :: thread_type
  processM :: u32
  nextM :: u32
  nameM :: string
  onCpuM :: u32
  jobsM :: "job list"

definition setRunning :: "thread \<Rightarrow> thread" where
  "setRunning t = t\<lparr>stateM := Running, onCpuM := onCpuM t + 1\<rparr>"

definition setReady :: "thread \<Rightarrow> thread" where
  "setReady t = t\<lparr>stateM := Ready\<rparr>"

definition setBlocked :: "thread \<Rightarrow> thread" where
  "setBlocked t = t\<lparr>stateM := Blocked\<rparr>"

definition isReady :: "thread \<Rightarrow> bool" where "isReady t \<longleftrightarrow> stateM t = Ready"
definition isRunning :: "thread \<Rightarrow> bool" where "isRunning t \<longleftrightarrow> stateM t = Running"
definition isBlocked :: "thread \<Rightarrow> bool" where "isBlocked t \<longleftrightarrow> stateM t = Blocked"

record kernel =
  threads :: "u32 \<Rightarrow> thread"
  threadList :: "u32 list"
  nextId :: u64
  readyList :: "u32 list"
  blockedList :: "u32 list"
  currentThread :: u32
  currentProcess :: u32
  kernelProcess :: u32
  idleThread :: u32    \<comment> \<open>the static object of \<open>getIdleThread\<close>\<close>
  kernelThread :: u32  \<comment> \<open>the static object of \<open>getKernelThread\<close>\<close>

definition upd_thread :: "u32 \<Rightarrow> (thread \<Rightarrow> thread) \<Rightarrow> kernel \<Rightarrow> kernel" where
  "upd_thread p f k = k\<lparr>threads := (threads k)(p := f (threads k p))\<rparr>"

definition getNextId :: "kernel \<Rightarrow> u64 \<times> kernel" where
  "getNextId k = (nextId k, k\<lparr>nextId := nextId k + 1\<rparr>)"

definition thread_ctor :: "u32 \<Rightarrow> thread_type \<Rightarrow> kernel \<Rightarrow> kernel" where
  "thread_ctor this type k =
     (let (i, k) = getNextId k in
      upd_thread this (\<lambda>_. \<lparr>idM = i, userStackM = 0, kernelStackM = 0, stateM = Blocked,
        typeM = type, processM = 0, nextM = 0, nameM = '''', onCpuM = 0, jobsM = []\<rparr>) k)"

definition init0 :: "u32 \<Rightarrow> u32 \<Rightarrow> kernel \<Rightarrow> kernel" where
  "init0 this stack k =
     (let k = upd_thread this (\<lambda>t. t\<lparr>idM := 0, stateM := Running, nameM := ''Kernel'',
                kernelStackM := stack, processM := kernelProcess k\<rparr>) k
      in k\<lparr>threadList := threadList k @ [this]\<rparr>)"

section \<open>The scheduler\<close>

definition sched_insert :: "u32 \<Rightarrow> kernel \<Rightarrow> kernel res" where
  "sched_insert t k =
     (if \<not> isBlocked (threads k t) then Inl (KASSERT ''t->isBlocked()'')
      else if isBlocked (threads k t) then Inr (k\<lparr>blockedList := blockedList k @ [t]\<rparr>)
      else Inr (k\<lparr>readyList := readyList k @ [t]\<rparr>))"

text \<open>\<open>std::list::remove\<close> removes every element that is equal to its argument.\<close>

definition sched_remove :: "u32 \<Rightarrow> kernel \<Rightarrow> kernel" where
  "sched_remove t k =
     (let k = (if isBlocked (threads k t)
               then k\<lparr>blockedList := removeAll t (blockedList k)\<rparr>
               else k\<lparr>readyList := removeAll t (readyList k)\<rparr>)
      in if t = currentThread k then k\<lparr>currentThread := idleThread k\<rparr> else k)"

definition sched_setReady :: "u32 \<Rightarrow> kernel \<Rightarrow> kernel res" where
  "sched_setReady t k =
     (if \<not> isBlocked (threads k t) then Inl (KASSERT ''t->isBlocked()'')
      else
        let k = k\<lparr>blockedList := removeAll t (blockedList k)\<rparr>;
            k = upd_thread t setReady k
        in Inr (k\<lparr>readyList := readyList k @ [t]\<rparr>))"

definition schedule :: "kernel \<Rightarrow> kernel res" where
  "schedule k =
     (let lastRunning = currentThread k;
          k = (if lastRunning \<noteq> idleThread k
               then if isBlocked (threads k lastRunning)
                    then k\<lparr>blockedList := blockedList k @ [lastRunning]\<rparr>
                    else k\<lparr>readyList := readyList k @ [lastRunning]\<rparr>
               else k);
          (next_thread, k) =
            (if readyList k = [] then (idleThread k, k)
             else (hd (readyList k), k\<lparr>readyList := tl (readyList k)\<rparr>))
      in if next_thread = 0 then Inl (KASSERT ''next != 0'')
         else
           let k = upd_thread next_thread setRunning k;
               k = k\<lparr>currentThread := next_thread\<rparr>
           in Inr (k\<lparr>currentProcess := processM (threads k next_thread)\<rparr>))"

text \<open>
  \<open>Thread::~Thread\<close> and the part of \<open>Thread::init\<close> that registers a thread; the stack
  set-up in between is not part of this component.
\<close>

definition thread_dtor :: "u32 \<Rightarrow> kernel \<Rightarrow> kernel" where
  "thread_dtor this k = sched_remove this (k\<lparr>threadList := removeAll this (threadList k)\<rparr>)"

definition thread_register :: "u32 \<Rightarrow> kernel \<Rightarrow> kernel res" where
  "thread_register this k =
     (case sched_insert this k of
        Inl e \<Rightarrow> Inl e
      | Inr k \<Rightarrow> Inr (k\<lparr>threadList := threadList k @ [this]\<rparr>))"

text \<open>
  \<open>Scheduler::init\<close>. The addresses of the static objects and the idle thread's prepared
  kernel stack (from \<open>Memory::createKernelStack\<close> and \<open>ThreadContext::initKernelStack\<close>) are
  arguments.
\<close>

definition initIdle :: "u32 \<Rightarrow> u32 \<Rightarrow> kernel \<Rightarrow> kernel" where
  "initIdle this stack k =
     (let k = upd_thread this (\<lambda>t. t\<lparr>idM := 1, stateM := Ready, nameM := ''Idle'',
                processM := kernelProcess k, kernelStackM := stack\<rparr>) k
      in k\<lparr>threadList := threadList k @ [this]\<rparr>)"

definition KernelStackStart :: u32 where "KernelStackStart = 0xffc00000"

definition sched_init :: "u32 \<Rightarrow> u32 \<Rightarrow> u32 \<Rightarrow> u32 \<Rightarrow> kernel \<Rightarrow> kernel" where
  "sched_init process0 thread0 idle idleStack k =
     (let k = k\<lparr>readyList := [], blockedList := [], kernelProcess := process0\<rparr>;
          k = thread_ctor thread0 KernelThread (k\<lparr>kernelThread := thread0\<rparr>);
          k = init0 thread0 KernelStackStart k;
          k = k\<lparr>readyList := readyList k @ [thread0]\<rparr>;
          k = thread_ctor idle KernelThread (k\<lparr>idleThread := idle\<rparr>);
          k = initIdle idle idleStack k
      in k\<lparr>currentThread := thread0, currentProcess := process0\<rparr>)"

section \<open>Jobs of a thread\<close>

definition addJob :: "u32 \<Rightarrow> job \<Rightarrow> kernel \<Rightarrow> kernel res" where
  "addJob this job k =
     sched_setReady this (upd_thread this (\<lambda>t. t\<lparr>jobsM := jobsM t @ [job]\<rparr>) k)"

text \<open>
  One round of the outer loop of \<open>Thread::main\<close>, for jobs that queue no further jobs: the
  jobs executed, in order, and the thread afterwards. \<open>std::queue::back\<close> is the element
  queued last, \<open>pop\<close> removes the element queued first.
\<close>

function main_round :: "thread \<Rightarrow> job list \<times> thread" where
  "main_round t =
     (if jobsM t \<noteq> []
      then let job = last (jobsM t);
               (js, t') = main_round (t\<lparr>jobsM := tl (jobsM t)\<rparr>)
           in (job # js, t')
      else ([], t\<lparr>stateM := Blocked\<rparr>))"
  by pat_completeness auto
termination
  by (relation "measure (\<lambda>t. length (jobsM t))") auto

declare main_round.simps [simp del]

section \<open>Well-formed scheduler states\<close>

text \<open>
  Every thread is in at most one place: running, ready or blocked; the queues hold threads of
  the right kind and neither the idle thread nor a null pointer. A thread that was
  preempted keeps the state \<open>Running\<close> in the ready queue.
\<close>

definition sched_wf :: "kernel \<Rightarrow> bool" where
  "sched_wf k \<longleftrightarrow>
     distinct (currentThread k # readyList k @ blockedList k) \<and>
     idleThread k \<notin> set (readyList k @ blockedList k) \<and>
     0 \<notin> set (currentThread k # idleThread k # readyList k @ blockedList k) \<and>
     (\<forall>t \<in> set (readyList k). \<not> isBlocked (threads k t)) \<and>
     (\<forall>t \<in> set (blockedList k). isBlocked (threads k t))"

lemmas thread_simps = setRunning_def setReady_def setBlocked_def isBlocked_def isReady_def
  isRunning_def upd_thread_def

lemma schedule_idle_or_blocked:
  assumes "sched_wf k" "currentThread k = idleThread k \<or> isBlocked (threads k (currentThread k))"
  shows "\<exists>k'. schedule k = Inr k' \<and> sched_wf k' \<and>
    (case readyList k of
       [] \<Rightarrow> currentThread k' = idleThread k \<and> readyList k' = []
     | t # ts \<Rightarrow> currentThread k' = t \<and> readyList k' = ts)"
  using assms
  by (cases "readyList k") (auto simp: schedule_def sched_wf_def Let_def thread_simps)

lemma schedule_rotates:
  assumes "sched_wf k" "currentThread k \<noteq> idleThread k" "\<not> isBlocked (threads k (currentThread k))"
  obtains k' where "schedule k = Inr k'" "sched_wf k'"
    "currentThread k' # readyList k' = rotate1 (currentThread k # readyList k)"
    "blockedList k' = blockedList k" "idleThread k' = idleThread k"
    "isRunning (threads k' (currentThread k'))"
    "currentProcess k' = processM (threads k' (currentThread k'))"
proof (cases "readyList k")
  case Nil
  with assms show ?thesis
    by (intro that [of "(upd_thread (currentThread k) setRunning k)
      \<lparr>currentProcess := processM (threads k (currentThread k))\<rparr>"])
      (auto simp: schedule_def sched_wf_def Let_def thread_simps)
next
  case (Cons t ts)
  with assms show ?thesis
    by (intro that [of "(upd_thread t setRunning (k\<lparr>readyList := ts @ [currentThread k]\<rparr>))
      \<lparr>currentThread := t, currentProcess := processM (threads k t)\<rparr>"])
      (auto simp: schedule_def sched_wf_def Let_def thread_simps)
qed

lemma schedule_wf:
  assumes "sched_wf k"
  shows "\<exists>k'. schedule k = Inr k' \<and> sched_wf k'"
proof (cases "currentThread k = idleThread k \<or> isBlocked (threads k (currentThread k))")
  case True
  then show ?thesis using schedule_idle_or_blocked [OF assms] by blast
next
  case False
  then show ?thesis using schedule_rotates [OF assms] by blast
qed

section \<open>Steps of the scheduler\<close>

datatype sched_op =
  Schedule | Insert u32 | Remove u32 | SetReady u32 | BlockCurrent

text \<open>
  The calls the kernel makes, with what their callers guarantee: a thread that is inserted
  is not queued yet and is not the current or the idle thread, and a thread that is made
  ready waits in the blocked queue. \<open>BlockCurrent\<close> is the running thread blocking itself.
\<close>

inductive sched_step :: "kernel \<Rightarrow> sched_op \<Rightarrow> kernel \<Rightarrow> bool" where
  schedule: "schedule k = Inr k' \<Longrightarrow> sched_step k Schedule k'"
| insert: "sched_insert t k = Inr k' \<Longrightarrow>
     t \<notin> set (0 # currentThread k # idleThread k # readyList k @ blockedList k) \<Longrightarrow>
     sched_step k (Insert t) k'"
| remove: "sched_step k (Remove t) (sched_remove t k)"
| setReady: "sched_setReady t k = Inr k' \<Longrightarrow> t \<in> set (blockedList k) \<Longrightarrow>
     sched_step k (SetReady t) k'"
| block: "sched_step k BlockCurrent (upd_thread (currentThread k) setBlocked k)"

fun sched_run :: "kernel \<Rightarrow> sched_op list \<Rightarrow> kernel \<Rightarrow> bool" where
  "sched_run k [] k' \<longleftrightarrow> k' = k"
| "sched_run k (x # xs) k' \<longleftrightarrow> (\<exists>k1. sched_step k x k1 \<and> sched_run k1 xs k')"

lemma sched_insert_wf:
  assumes "sched_wf k" "sched_insert t k = Inr k'"
    and "t \<notin> set (0 # currentThread k # idleThread k # readyList k @ blockedList k)"
  shows "sched_wf k'"
  using assms by (auto simp: sched_insert_def sched_wf_def isBlocked_def split: if_splits)

lemma sched_setReady_wf:
  assumes "sched_wf k" "sched_setReady t k = Inr k'" "t \<in> set (blockedList k)"
  shows "sched_wf k'"
  using assms
  by (auto simp: sched_setReady_def sched_wf_def thread_simps Let_def distinct_removeAll split: if_splits)

lemma sched_remove_wf: "sched_wf k \<Longrightarrow> sched_wf (sched_remove t k)"
  by (auto simp: sched_remove_def sched_wf_def isBlocked_def Let_def distinct_removeAll)

lemma block_current_wf:
  "sched_wf k \<Longrightarrow> sched_wf (upd_thread (currentThread k) setBlocked k)"
  by (auto simp: sched_wf_def thread_simps)

lemma sched_step_wf: "sched_step k opn k' \<Longrightarrow> sched_wf k \<Longrightarrow> sched_wf k'"
proof (induction rule: sched_step.induct)
  case (schedule k k')
  then show ?case using schedule_wf [of k] by auto
qed (auto intro: sched_insert_wf sched_setReady_wf sched_remove_wf block_current_wf)

text \<open>
  The invariant for all threads but those of a set \<open>T\<close>. The state after \<open>Scheduler::init\<close> satisfies it
  with the boot thread exempt.
\<close>

definition sched_wf_except :: "u32 set \<Rightarrow> kernel \<Rightarrow> bool" where
  "sched_wf_except T k \<longleftrightarrow>
     distinct (filter (\<lambda>t. t \<notin> T) (currentThread k # readyList k @ blockedList k)) \<and>
     idleThread k \<notin> set (readyList k @ blockedList k) \<and>
     0 \<notin> set (currentThread k # idleThread k # readyList k @ blockedList k) \<and>
     (\<forall>t \<in> set (readyList k). t \<notin> T \<longrightarrow> \<not> isBlocked (threads k t)) \<and>
     (\<forall>t \<in> set (blockedList k). t \<notin> T \<longrightarrow> isBlocked (threads k t))"

text \<open>The queues after the last thread is put back, and the thread that is taken from them.\<close>

definition put_back :: "kernel \<Rightarrow> kernel" where
  "put_back k =
     (if currentThread k = idleThread k then k
      else if isBlocked (threads k (currentThread k)) then k\<lparr>blockedList := blockedList k @ [currentThread k]\<rparr>
      else k\<lparr>readyList := readyList k @ [currentThread k]\<rparr>)"

lemma schedule_put_back:
  "schedule k =
     (let t = (if readyList (put_back k) = [] then idleThread k else hd (readyList (put_back k)))
      in if t = 0 then Inl (KASSERT ''next != 0'')
         else Inr ((upd_thread t setRunning (put_back k))\<lparr>readyList := tl (readyList (put_back k)),
           currentThread := t, currentProcess := processM (threads k t)\<rparr>))"
  by (simp add: schedule_def put_back_def Let_def upd_thread_def setRunning_def)

definition queues_wf :: "u32 set \<Rightarrow> kernel \<Rightarrow> bool" where
  "queues_wf T k \<longleftrightarrow> distinct (filter (\<lambda>t. t \<notin> T) (readyList k @ blockedList k)) \<and>
     idleThread k \<notin> set (readyList k @ blockedList k) \<and> 0 \<notin> set (idleThread k # readyList k @ blockedList k) \<and>
     (\<forall>t \<in> set (readyList k). t \<notin> T \<longrightarrow> \<not> isBlocked (threads k t)) \<and>
     (\<forall>t \<in> set (blockedList k). t \<notin> T \<longrightarrow> isBlocked (threads k t))"

lemma put_back_wf: "sched_wf_except T k \<Longrightarrow> queues_wf T (put_back k)"
  by (auto simp: sched_wf_except_def put_back_def queues_wf_def split: if_splits)

lemma take_next_wf:
  assumes "queues_wf T k" "t = (if readyList k = [] then idleThread k else hd (readyList k))"
  shows "sched_wf_except T ((upd_thread t setRunning k)\<lparr>readyList := tl (readyList k), currentThread := t, currentProcess := p\<rparr>)"
proof (cases "readyList k")
  case Nil
  then show ?thesis using assms by (auto simp: queues_wf_def sched_wf_except_def thread_simps)
next
  case (Cons r rs)
  then show ?thesis using assms by (auto simp: queues_wf_def sched_wf_except_def thread_simps)
qed

lemma schedule_wf_except:
  assumes "sched_wf_except T k" "schedule k = Inr k'"
  shows "sched_wf_except T k'"
proof -
  let ?t = "if readyList (put_back k) = [] then idleThread k else hd (readyList (put_back k))"
  have "idleThread (put_back k) = idleThread k" by (simp add: put_back_def)
  then have "sched_wf_except T ((upd_thread ?t setRunning (put_back k))\<lparr>readyList := tl (readyList (put_back k)),
      currentThread := ?t, currentProcess := processM (threads k ?t)\<rparr>)"
    by (intro take_next_wf put_back_wf assms(1)) simp
  then show ?thesis using assms(2) unfolding schedule_put_back Let_def by (simp split: if_splits)
qed

lemma filter_removeAll: "filter P (removeAll x xs) = removeAll x (filter P xs)"
  by (induction xs) auto

lemma removeAll_wf_except:
  assumes "sched_wf_except T k"
  shows "sched_wf_except T (k\<lparr>blockedList := removeAll t (blockedList k)\<rparr>)"
    "sched_wf_except T (k\<lparr>readyList := removeAll t (readyList k)\<rparr>)"
    "t \<notin> T \<Longrightarrow> t \<in> set (blockedList k) \<Longrightarrow> t \<noteq> currentThread k \<and> t \<notin> set (readyList k)"
  using assms by (auto simp: sched_wf_except_def filter_removeAll distinct_removeAll)

lemma sched_remove_wf_except: "sched_wf_except T k \<Longrightarrow> sched_wf_except T (sched_remove t k)"
proof -
  let ?k = "if isBlocked (threads k t) then k\<lparr>blockedList := removeAll t (blockedList k)\<rparr>
    else k\<lparr>readyList := removeAll t (readyList k)\<rparr>"
  assume "sched_wf_except T k"
  then have "sched_wf_except T ?k" using removeAll_wf_except by simp
  moreover from this have "sched_wf_except T (?k\<lparr>currentThread := idleThread ?k\<rparr>)"
    by (auto simp only: sched_wf_except_def) (auto split: if_splits)
  ultimately show ?thesis unfolding sched_remove_def Let_def by (simp split: if_splits)
qed

lemma sched_setReady_wf_except:
  assumes "sched_wf_except T k" "sched_setReady t k = Inr k'" "t \<in> set (blockedList k)"
  shows "sched_wf_except T k'"
proof -
  let ?k = "k\<lparr>blockedList := removeAll t (blockedList k)\<rparr>"
  have "sched_wf_except T ?k" using assms(1) by (rule removeAll_wf_except)
  moreover have "t \<notin> set (blockedList ?k)" "t \<noteq> 0" "t \<noteq> idleThread k"
    using assms(1,3) by (auto simp: sched_wf_except_def)
  moreover have "t \<notin> T \<Longrightarrow> t \<noteq> currentThread k \<and> t \<notin> set (readyList k)"
    using removeAll_wf_except(3) [OF assms(1) _ assms(3)] .
  moreover have "k' = (upd_thread t setReady ?k)\<lparr>readyList := readyList k @ [t]\<rparr>"
    using assms(2) by (simp add: sched_setReady_def Let_def upd_thread_def split: if_splits)
  moreover have "sched_wf_except T ((upd_thread t setReady k0)\<lparr>readyList := readyList k0 @ [t]\<rparr>)"
    if "sched_wf_except T k0" "t \<notin> set (blockedList k0)" "t \<noteq> 0" "t \<noteq> idleThread k0"
      "t \<notin> T \<Longrightarrow> t \<noteq> currentThread k0 \<and> t \<notin> set (readyList k0)" for k0
    using that by (cases "t \<in> T") (auto simp: sched_wf_except_def upd_thread_def setReady_def isBlocked_def)
  from this [of ?k] calculation show ?thesis by simp
qed

lemma sched_insert_wf_except:
  assumes "sched_wf_except T k" "sched_insert t k = Inr k'"
    and "t \<notin> set (0 # currentThread k # idleThread k # readyList k @ blockedList k)"
  shows "sched_wf_except T k'"
proof -
  have k': "isBlocked (threads k t)" "k' = k\<lparr>blockedList := blockedList k @ [t]\<rparr>"
    using assms(2) by (simp_all add: sched_insert_def split: if_splits)
  moreover have "t \<notin> set (readyList k)" "t \<notin> set (blockedList k)" "t \<noteq> 0" "t \<noteq> currentThread k" "t \<noteq> idleThread k"
    using assms(3) by auto
  ultimately show ?thesis using assms(1) unfolding k'(2)
    by (cases "t \<in> T"; cases "currentThread k \<in> T") (simp_all add: sched_wf_except_def ball_Un)
qed

lemma block_current_wf_except:
  "sched_wf_except T k \<Longrightarrow> sched_wf_except T (upd_thread (currentThread k) setBlocked k)"
  by (cases "currentThread k \<in> T") (auto simp: sched_wf_except_def thread_simps)

lemma sched_step_wf_except: "sched_step k opn k' \<Longrightarrow> sched_wf_except T k \<Longrightarrow> sched_wf_except T k'"
  by (induction rule: sched_step.induct)
    (blast intro: schedule_wf_except sched_insert_wf_except sched_remove_wf_except sched_setReady_wf_except
      block_current_wf_except)+

lemma sched_init_wf_except:
  assumes "thread0 \<noteq> idle" "thread0 \<noteq> 0" "idle \<noteq> 0"
  shows "sched_wf_except {thread0} (sched_init process0 thread0 idle stack k)"
  using assms
  by (auto simp: sched_wf_except_def sched_init_def thread_ctor_def init0_def initIdle_def getNextId_def Let_def thread_simps)

lemma sched_run_wf_except: "sched_run k ops k' \<Longrightarrow> sched_wf_except T k \<Longrightarrow> sched_wf_except T k'"
  by (induction ops arbitrary: k) (auto dest: sched_step_wf_except)

section \<open>Round robin\<close>

fun schedule_times :: "nat \<Rightarrow> kernel \<Rightarrow> kernel res" where
  "schedule_times 0 k = Inr k"
| "schedule_times (Suc n) k =
     (case schedule k of Inl e \<Rightarrow> Inl e | Inr k' \<Rightarrow> schedule_times n k')"

text \<open>
  The running thread and all ready ones are runnable threads other than the idle thread. A thread
  may be queued twice, as the boot thread is.
\<close>

definition all_runnable :: "kernel \<Rightarrow> bool" where
  "all_runnable k \<longleftrightarrow> (\<forall>t \<in> set (currentThread k # readyList k).
     t \<noteq> 0 \<and> t \<noteq> idleThread k \<and> \<not> isBlocked (threads k t))"

lemma schedule_all_runnable:
  assumes "all_runnable k"
  obtains k' where "schedule k = Inr k'" "all_runnable k'"
    "currentThread k' # readyList k' = rotate1 (currentThread k # readyList k)"
    "blockedList k' = blockedList k"
proof (cases "readyList k")
  case Nil
  with assms show ?thesis
    by (intro that [of "(upd_thread (currentThread k) setRunning k)
      \<lparr>currentProcess := processM (threads k (currentThread k))\<rparr>"])
      (auto simp: schedule_def all_runnable_def Let_def thread_simps)
next
  case (Cons t ts)
  with assms show ?thesis
    by (intro that [of "(upd_thread t setRunning (k\<lparr>readyList := ts @ [currentThread k]\<rparr>))
      \<lparr>currentThread := t, currentProcess := processM (threads k t)\<rparr>"])
      (auto simp: schedule_def all_runnable_def Let_def thread_simps)
qed

lemma sched_init_runnable:
  assumes "thread0 \<noteq> idle" "thread0 \<noteq> 0"
  shows "all_runnable (sched_init process0 thread0 idle stack k)"
  using assms
  by (simp add: all_runnable_def sched_init_def thread_ctor_def init0_def initIdle_def getNextId_def Let_def thread_simps)

text \<open>What \<open>schedule\<close> needs to return at all.\<close>

definition no_null :: "kernel \<Rightarrow> bool" where
  "no_null k \<longleftrightarrow> 0 \<notin> set (currentThread k # idleThread k # readyList k)"

lemma schedule_no_null: "no_null k \<Longrightarrow> \<exists>k'. schedule k = Inr k' \<and> no_null k'"
  by (cases "readyList k") (auto simp: schedule_def no_null_def Let_def thread_simps)

section \<open>Properties\<close>

definition example_thread :: "thread_state \<Rightarrow> thread" where
  "example_thread st = \<lparr>idM = 7, userStackM = 0, kernelStackM = 0, stateM = st,
     typeM = KernelThread, processM = 0x500, nextM = 0, nameM = ''t'', onCpuM = 0, jobsM = []\<rparr>"

text \<open>Thread 16 runs, 32 and 48 are ready, 64 is blocked; 80 is the idle thread.\<close>

definition example_kernel :: kernel where
  "example_kernel = \<lparr>threads = (\<lambda>_. example_thread Ready)(16 := example_thread Running,
       64 := example_thread Blocked),
     threadList = [16, 32, 48, 64, 80], nextId = 8, readyList = [32, 48], blockedList = [64],
     currentThread = 16, currentProcess = 0x500, kernelProcess = 0x500, idleThread = 80,
     kernelThread = 16\<rparr>"

lemma example_kernel_runnable: "all_runnable example_kernel"
  by (simp add: all_runnable_def example_kernel_def example_thread_def isBlocked_def)

lemma example_kernel_wf: "sched_wf example_kernel"
  by (simp add: sched_wf_def example_kernel_def example_thread_def isBlocked_def)

text \<open>
  C14. Scheduler invariant, over every sequence of scheduling, insertion, removal, wake-up and blocking
  whose callers insert only threads that are not queued, not running and not the idle thread, and
  wake up only threads that wait in the blocked queue. From a well-formed state, no thread is ever in two
  of the places running, ready and blocked, the blocked queue holds exactly blocked threads, the ready
  queue none, and the idle thread is in no queue. The state that \<open>Scheduler::init\<close> leaves is not
  well-formed, because it queues the running boot thread; from that state the same holds for every
  other thread.
\<close>

theorem sched_run_keeps_wf:
  assumes "sched_run k ops k'"
  shows "(sched_wf k \<longrightarrow> sched_wf k') \<and>
    (thread0 \<noteq> idle \<and> thread0 \<noteq> 0 \<and> idle \<noteq> 0 \<and> k = sched_init process0 thread0 idle stack k0 \<longrightarrow>
      \<not> sched_wf k \<and> sched_wf_except {thread0} k')"
proof (intro conjI impI)
  show "sched_wf k'" if "sched_wf k"
    using assms that by (induction ops arbitrary: k) (auto dest: sched_step_wf)
  assume i: "thread0 \<noteq> idle \<and> thread0 \<noteq> 0 \<and> idle \<noteq> 0 \<and> k = sched_init process0 thread0 idle stack k0"
  then show "\<not> sched_wf k"
    by (simp add: sched_wf_def sched_init_def thread_ctor_def init0_def initIdle_def getNextId_def Let_def thread_simps)
  show "sched_wf_except {thread0} k'"
    using sched_run_wf_except [OF assms] sched_init_wf_except i by blast
qed

theorem sched_run_keeps_wf_witness:
  "\<exists>k'. sched_run example_kernel [SetReady 64, BlockCurrent] k' \<and> sched_wf k'"
proof -
  obtain k1 where k1: "sched_setReady 64 example_kernel = Inr k1"
    by (simp add: sched_setReady_def example_kernel_def example_thread_def isBlocked_def Let_def)
  then have "sched_step example_kernel (SetReady 64) k1"
    by (auto intro!: sched_step.setReady simp: example_kernel_def)
  then have "sched_run example_kernel [SetReady 64, BlockCurrent]
      (upd_thread (currentThread k1) setBlocked k1)"
    by (auto intro: sched_step.block)
  with sched_run_keeps_wf [OF this] example_kernel_wf show ?thesis by blast
qed

text \<open>
  C15. The scheduler never gets stuck: from a well-formed state \<open>Scheduler::schedule\<close> returns
  without an assertion failure, and the thread it selects is marked as running.
\<close>

theorem schedule_progress:
  assumes "sched_wf k"
  shows "\<exists>k'. schedule k = Inr k' \<and> isRunning (threads k' (currentThread k')) \<and>
    currentProcess k' = processM (threads k' (currentThread k'))"
  using assms
  by (cases "readyList k") (auto simp: schedule_def sched_wf_def Let_def thread_simps)

theorem schedule_progress_witness:
  "\<exists>k'. schedule example_kernel = Inr k' \<and> isRunning (threads k' (currentThread k')) \<and>
    currentProcess k' = processM (threads k' (currentThread k'))"
  using schedule_progress [OF example_kernel_wf] .

text \<open>
  C16. Round robin and fairness. While the running thread and all ready ones are runnable threads other
  than the idle thread, and none of them blocks, wakes up or is removed in between, \<open>n\<close> timer ticks rotate
  the running thread and the ready queue by \<open>n\<close>, so every ready thread runs after as many ticks as its
  position in the queue, and nothing is lost. A queue that holds a thread twice is included: the
  state after \<open>Scheduler::init\<close> is such a state (lemma \<open>sched_init_runnable\<close>).
\<close>

theorem schedule_round_robin:
  assumes "all_runnable k"
  shows "\<exists>k'. schedule_times n k = Inr k' \<and>
    currentThread k' # readyList k' = rotate n (currentThread k # readyList k) \<and>
    blockedList k' = blockedList k"
  using assms
proof (induction n arbitrary: k)
  case 0
  then show ?case by simp
next
  case (Suc n)
  obtain k1 where k1: "schedule k = Inr k1" "all_runnable k1"
    "currentThread k1 # readyList k1 = rotate1 (currentThread k # readyList k)"
    "blockedList k1 = blockedList k"
    using schedule_all_runnable [OF Suc.prems] by metis
  obtain k' where "schedule_times n k1 = Inr k'"
    "currentThread k' # readyList k' = rotate n (currentThread k1 # readyList k1)"
    "blockedList k' = blockedList k1"
    using Suc.IH [OF k1(2)] by blast
  then show ?case using k1 by (simp add: rotate1_rotate_swap rotate_def funpow_swap1)
qed

theorem schedule_round_robin_witness:
  "\<exists>k'. schedule_times 2 example_kernel = Inr k' \<and> currentThread k' = 48 \<and>
    readyList k' = [16, 32]"
  using schedule_round_robin [OF example_kernel_runnable, of 2]
  by (auto simp: example_kernel_def numeral_2_eq_2)

text \<open>
  \<open>Scheduler::init\<close> does not establish the invariant: the boot thread is made current
  and also queued as ready, so the first tick leaves it running and queued at the same time.
\<close>

theorem sched_init_queues_running_thread:
  assumes "thread0 \<noteq> idle" "thread0 \<noteq> 0"
  shows "\<exists>k'. schedule (sched_init process0 thread0 idle stack k) = Inr k' \<and>
    currentThread k' = thread0 \<and> readyList k' = [thread0]"
  using assms
  by (simp add: schedule_def sched_init_def thread_ctor_def init0_def initIdle_def getNextId_def
      Let_def thread_simps)

theorem sched_init_queues_running_thread_witness:
  "\<exists>k'. schedule (sched_init 0x500 16 80 0x900 example_kernel) = Inr k' \<and>
    currentThread k' = 16 \<and> readyList k' = [16]"
  by (rule sched_init_queues_running_thread) simp_all

text \<open>
  A kernel thread with several queued jobs does not run them all: the loop of
  \<open>Thread::main\<close> reads the job queued last and removes the job queued first, so for
  \<open>n\<close> queued jobs the last one is executed \<open>n\<close> times and the others never.
\<close>

theorem main_round_runs_last_job:
  assumes "jobsM t \<noteq> []"
  shows "main_round t = (replicate (length (jobsM t)) (last (jobsM t)),
    t\<lparr>jobsM := [], stateM := Blocked\<rparr>)"
  using assms
proof (induction t rule: main_round.induct)
  case (1 t)
  show ?case
  proof (cases "tl (jobsM t) = []")
    case True
    then obtain j where "jobsM t = [j]" using "1.prems" by (cases "jobsM t") auto
    then show ?thesis
      by (subst main_round.simps) (simp add: main_round.simps [of "t\<lparr>jobsM := []\<rparr>"])
  next
    case False
    then show ?thesis
      using "1.prems" "1.IH" by (subst main_round.simps) (cases "jobsM t"; simp)
  qed
qed

theorem main_round_runs_last_job_witness:
  "fst (main_round ((example_thread Running)\<lparr>jobsM := [\<lparr>mainM = 1, argM = 0\<rparr>, \<lparr>mainM = 2, argM = 0\<rparr>]\<rparr>))
    = [\<lparr>mainM = 2, argM = 0\<rparr>, \<lparr>mainM = 2, argM = 0\<rparr>]"
  by (subst main_round_runs_last_job) (simp_all add: example_thread_def numeral_2_eq_2)

end
