(* ===== verification/Spin_Lock.thy ===== *)
theory Spin_Lock
  imports Prelude
begin

text \<open>
  The locks of the kernel: the interrupt flag of a processor (X86/X86Cpu.cc), the atomic
  primitives (X86/SpinLockAtomic.S), the spin locks that may be taken by interrupt routines
  (X86/SpinLock.cc, Include/spinlock.h) and the class \<open>Mutex\<close> (Kernel/Mutex.cc). The functions
  are modelled twice: as functions of one processor that runs alone, and as the sequence of
  atomic accesses to the shared lock that they are on several processors. Memory is
  sequentially consistent.
\<close>

section \<open>The interrupt flag\<close>

definition InterruptEnable :: u32 where
  "InterruptEnable = 0x200"

definition x86_cli :: "u32 \<Rightarrow> u32" where
  "x86_cli eflags = eflags AND NOT InterruptEnable"

definition x86_sti :: "u32 \<Rightarrow> u32" where
  "x86_sti eflags = eflags OR InterruptEnable"

definition disableLocalInterrupts :: "u32 \<Rightarrow> u32" where
  "disableLocalInterrupts eflags = x86_cli eflags"

definition enableLocalInterrupts :: "u32 \<Rightarrow> u32" where
  "enableLocalInterrupts eflags = x86_sti eflags"

text \<open>The value that \<open>Cpu::saveLocalInterrupts\<close> stores into \<open>flags\<close>.\<close>

definition saveLocalInterrupts :: "u32 \<Rightarrow> u32" where
  "saveLocalInterrupts eflags = (if eflags AND InterruptEnable \<noteq> 0 then 1 else 0)"

definition restoreLocalInterrupts :: "u32 \<Rightarrow> u32 \<Rightarrow> u32" where
  "restoreLocalInterrupts flags eflags = (if flags = 0 then x86_cli eflags else x86_sti eflags)"

abbreviation interrupts_on :: "u32 \<Rightarrow> bool" where
  "interrupts_on eflags \<equiv> eflags AND InterruptEnable \<noteq> 0"

lemma interrupts_on_bit: "interrupts_on x \<longleftrightarrow> bit x 9"
proof -
  have "InterruptEnable = push_bit 9 1" by (simp add: InterruptEnable_def)
  then show ?thesis
    by (metis and_exp_eq_0_iff_not_bit push_bit_of_1)
qed

lemma bit_InterruptEnable: "bit InterruptEnable n \<longleftrightarrow> n = 9"
  unfolding InterruptEnable_def using bit_exp_iff [where 'a = u32, of 9 n] by auto

lemma cli_off [simp]: "x86_cli x AND InterruptEnable = 0"
  using interrupts_on_bit [of "x86_cli x"]
  by (auto simp: x86_cli_def bit_simps bit_InterruptEnable)

lemma sti_on [simp]: "x86_sti x AND InterruptEnable \<noteq> 0"
  using interrupts_on_bit [of "x86_sti x"]
  by (auto simp: x86_sti_def bit_simps bit_InterruptEnable)

lemma restore_saved:
  "interrupts_on (restoreLocalInterrupts (saveLocalInterrupts x) y) \<longleftrightarrow> interrupts_on x"
  by (simp add: restoreLocalInterrupts_def saveLocalInterrupts_def)

text \<open>No other flag is touched, so a save, a disable and a restore give the register back.\<close>

lemma save_disable_restore:
  "restoreLocalInterrupts (saveLocalInterrupts x) (disableLocalInterrupts x) = x"
proof (rule bit_word_eqI)
  fix n assume "n < LENGTH(32)"
  show "bit (restoreLocalInterrupts (saveLocalInterrupts x) (disableLocalInterrupts x)) n
          = bit x n"
    using interrupts_on_bit [of x] \<open>n < LENGTH(32)\<close>
    by (auto simp: restoreLocalInterrupts_def saveLocalInterrupts_def disableLocalInterrupts_def
        x86_cli_def x86_sti_def bit_simps bit_InterruptEnable)
qed

section \<open>One processor\<close>

text \<open>
  \<open>lock cmpxchg %ecx, (%edx)\<close> with 0 in \<open>%eax\<close> and 1 in \<open>%ecx\<close>: the new lock word and the new
  \<open>%eax\<close>. \<open>spinlock_try\<close> is this one instruction, \<open>spinlock_enter\<close> repeats it until it succeeds,
  which a processor that runs alone does not live to see when the lock is held.
\<close>

definition cmpxchg :: "u32 \<Rightarrow> u32 \<Rightarrow> u32 \<Rightarrow> u32 \<times> u32" where
  "cmpxchg eax ecx m = (if m = eax then (ecx, eax) else (m, m))"

definition spinlock_try :: "u32 \<Rightarrow> u32 \<times> u32" where
  "spinlock_try lock = cmpxchg 0 1 lock"

partial_function (option) spinlock_enter :: "u32 \<Rightarrow> (u32 \<times> u32) option" where
  "spinlock_enter lock = (case cmpxchg 0 1 lock of (lock', eax) \<Rightarrow>
      if eax = 0 then Some (lock', eax) else spinlock_enter lock')"

definition spinlock_exit :: "u32 \<Rightarrow> u32 \<times> u32" where
  "spinlock_exit lock = (0, lock)"

definition spinlock_is_held :: "u32 \<Rightarrow> bool" where
  "spinlock_is_held lock \<longleftrightarrow> lock \<noteq> 0"

text \<open>A \<open>spinlock_softirq_t\<close>, and the members of a \<open>Mutex\<close>.\<close>

record softirq =
  sl_lock :: u32
  sl_flags :: u32

record mutex =
  flagsM :: u32
  eflagsM :: u32
  lockM :: u32

definition spinlock_softirq_init :: "softirq \<Rightarrow> softirq" where
  "spinlock_softirq_init l = l\<lparr>sl_lock := 0, sl_flags := 0\<rparr>"

text \<open>The functions that touch the interrupt flag take the register and return the new one.\<close>

definition spinlock_softirq_enter :: "softirq \<Rightarrow> u32 \<Rightarrow> (softirq \<times> u32 \<times> u32) option" where
  "spinlock_softirq_enter l eflags =
     (let l1 = l\<lparr>sl_flags := saveLocalInterrupts eflags\<rparr>;
          eflags1 = disableLocalInterrupts eflags
      in map_option (\<lambda>(w, ret). (l1\<lparr>sl_lock := w\<rparr>, eflags1, ret)) (spinlock_enter (sl_lock l1)))"

definition spinlock_softirq_exit :: "softirq \<Rightarrow> u32 \<Rightarrow> softirq \<times> u32 \<times> u32" where
  "spinlock_softirq_exit l eflags =
     (let (w, ret) = spinlock_exit (sl_lock l);
          l1 = l\<lparr>sl_lock := w\<rparr>
      in (l1, restoreLocalInterrupts (sl_flags l1) eflags, ret))"

definition spinlock_softirq_is_held :: "softirq \<Rightarrow> bool" where
  "spinlock_softirq_is_held l = spinlock_is_held (sl_lock l)"

definition mutex_ctor :: "u32 \<Rightarrow> mutex" where
  "mutex_ctor flags = \<lparr>flagsM = flags, eflagsM = 0, lockM = 0\<rparr>"

definition mutex_dtor :: "mutex \<Rightarrow> unit res" where
  "mutex_dtor m = (if spinlock_is_held (lockM m)
     then Inl (KASSERT ''!spinlock_is_held(&lockM)'') else Inr ())"

definition mutex_enter :: "mutex \<Rightarrow> u32 \<Rightarrow> (mutex \<times> u32) res option" where
  "mutex_enter m eflags =
     (let m1 = m\<lparr>eflagsM := saveLocalInterrupts eflags\<rparr>;
          eflags1 = disableLocalInterrupts eflags
      in map_option (\<lambda>(w, ret). if ret = 0 then Inr (m1\<lparr>lockM := w\<rparr>, eflags1)
            else Inl (KASSERT ''ret == 0'')) (spinlock_enter (lockM m1)))"

definition mutex_tryEnter :: "mutex \<Rightarrow> mutex \<times> bool" where
  "mutex_tryEnter m = (let (w, ret) = spinlock_exit (lockM m) in (m\<lparr>lockM := w\<rparr>, ret = 0))"

definition mutex_exit :: "mutex \<Rightarrow> u32 \<Rightarrow> (mutex \<times> u32) res" where
  "mutex_exit m eflags =
     (let (w, ret) = spinlock_exit (lockM m);
          m1 = m\<lparr>lockM := w\<rparr>;
          eflags1 = restoreLocalInterrupts (eflagsM m1) eflags
      in if ret = 1 then Inr (m1, eflags1) else Inl (KASSERT ''ret == 1''))"

lemma spinlock_enter_free: "spinlock_enter 0 = Some (1, 0)"
  by (subst spinlock_enter.simps) (simp add: cmpxchg_def)

text \<open>
  A lock word that is not 0 stays what it is for ever: the loop has no value. The fixed point
  induction says that whatever the loop returns it returned from a free lock.
\<close>

lemma spinlock_enter_Some:
  assumes "spinlock_enter w = Some r"
  shows "w = 0 \<and> r = (1, 0)"
proof -
  have "spinlock_enter w = Some r \<longrightarrow> w = 0 \<and> r = (1, 0)"
  proof (induct arbitrary: w r rule: spinlock_enter.fixp_induct)
    case 1
    show ?case by (intro admissible_all option_admissible)
  next
    case 2
    show ?case by simp
  next
    case (3 f)
    show ?case
    proof (intro impI)
      fix w r
      assume *: "(case cmpxchg 0 1 w of (lock', eax) \<Rightarrow>
          if eax = 0 then Some (lock', eax) else f lock') = Some r"
      show "w = 0 \<and> r = (1, 0)"
        using * 3 [of w r] by (cases "w = 0") (auto simp: cmpxchg_def)
    qed
  qed
  with assms show ?thesis by simp
qed

lemma spinlock_enter_held: "w \<noteq> 0 \<Longrightarrow> spinlock_enter w = None"
  using spinlock_enter_Some by (cases "spinlock_enter w") auto

lemmas lock_ops = spinlock_exit_def spinlock_is_held_def spinlock_softirq_enter_def
  spinlock_softirq_exit_def mutex_enter_def mutex_exit_def mutex_dtor_def mutex_ctor_def
  mutex_tryEnter_def spinlock_enter_free spinlock_enter_held

text \<open>
  On one processor, entering a free mutex or a free interrupt-safe spin lock returns, takes
  the lock and leaves the interrupts off; entering it again never returns; and leaving it
  passes its assertion, frees the lock and gives back the flags register as it was before,
  with the interrupt flag on or off as the caller had it.
\<close>

theorem lock_enter_exit:
  assumes "lockM m = 0" "sl_lock l = 0"
  shows "\<exists>m1 l1 eflags1.
      mutex_enter m eflags = Some (Inr (m1, eflags1)) \<and> lockM m1 = 1 \<and>
      spinlock_softirq_enter l eflags = Some (l1, eflags1, 0) \<and> spinlock_softirq_is_held l1 \<and>
      \<not> interrupts_on eflags1 \<and>
      (\<forall>e. mutex_enter m1 e = None \<and> spinlock_softirq_enter l1 e = None) \<and>
      mutex_exit m1 eflags1 = Inr (m\<lparr>eflagsM := saveLocalInterrupts eflags\<rparr>, eflags) \<and>
      spinlock_softirq_exit l1 eflags1 = (l\<lparr>sl_flags := saveLocalInterrupts eflags\<rparr>, eflags, 1)"
proof -
  let ?f = "saveLocalInterrupts eflags"
  let ?m = "m\<lparr>eflagsM := ?f, lockM := 1\<rparr>" and ?l = "l\<lparr>sl_flags := ?f, sl_lock := 1\<rparr>"
  have "mutex_enter m eflags = Some (Inr (?m, disableLocalInterrupts eflags))"
    "spinlock_softirq_enter l eflags = Some (?l, disableLocalInterrupts eflags, 0)"
    using assms by (simp_all add: lock_ops)
  moreover have "mutex_enter ?m e = None \<and> spinlock_softirq_enter ?l e = None" for e
    by (simp add: lock_ops)
  moreover have "\<not> interrupts_on (disableLocalInterrupts eflags)"
    by (simp add: disableLocalInterrupts_def)
  moreover have "mutex_exit ?m (disableLocalInterrupts eflags) = Inr (m\<lparr>eflagsM := ?f\<rparr>, eflags)"
    "spinlock_softirq_exit ?l (disableLocalInterrupts eflags) = (l\<lparr>sl_flags := ?f\<rparr>, eflags, 1)"
    using assms by (simp_all add: lock_ops Let_def save_disable_restore)
  ultimately show ?thesis
    by (intro exI [of _ ?m] exI [of _ ?l] exI [of _ "disableLocalInterrupts eflags"])
      (simp add: spinlock_softirq_is_held_def spinlock_is_held_def)
qed

theorem lock_enter_exit_witness:
  "lockM (mutex_ctor 0) = 0 \<and>
   (\<exists>m1 l1 eflags1.
      mutex_enter (mutex_ctor 0) 0x202 = Some (Inr (m1, eflags1)) \<and>
      mutex_exit m1 eflags1 = Inr ((mutex_ctor 0)\<lparr>eflagsM := 1\<rparr>, 0x202) \<and>
      spinlock_softirq_exit l1 eflags1 = (\<lparr>sl_lock = 0, sl_flags = 1\<rparr>, 0x202, 1))"
proof -
  have f: "saveLocalInterrupts 0x202 = 1"
    by (simp add: saveLocalInterrupts_def InterruptEnable_def)
  have "lockM (mutex_ctor 0) = 0" by (simp add: mutex_ctor_def)
  with lock_enter_exit [of "mutex_ctor 0" "\<lparr>sl_lock = 0, sl_flags = 0\<rparr>" "0x202"]
  show ?thesis by (auto simp: f)
qed

section \<open>Several processors\<close>

text \<open>
  Every processor runs its own code; what they share is the lock word and the saved flags.
  The program counter stands before the next access to shared memory or to the flag
  register; \<open>Mutex\<close> and the interrupt-safe spin lock differ only in the assertions on the
  value that the primitive returns. \<open>Halted\<close> is a processor that has panicked.
\<close>

datatype lock_class = Softirq_Lock | Mutex_Lock

datatype lock_pc =
    Outside
  | Enter_save | Enter_cli | Enter_cmpxchg | Enter_ret
  | Inside
  | Exit_load | Exit_store | Exit_restore | Exit_ret
  | Try_load | Try_store | Try_ret
  | Halted

record processor =
  cpu_pc :: lock_pc
  cpu_eflags :: u32
  cpu_eax :: u32

record lock_system =
  lock_word :: u32
  saved_flags :: u32
  cpus :: "nat \<Rightarrow> processor"

definition set_cpu :: "nat \<Rightarrow> processor \<Rightarrow> lock_system \<Rightarrow> lock_system" where
  "set_cpu i c s = s\<lparr>cpus := (cpus s)(i := c)\<rparr>"

abbreviation goto_pc :: "nat \<Rightarrow> lock_pc \<Rightarrow> lock_system \<Rightarrow> lock_system" where
  "goto_pc i l s \<equiv> set_cpu i ((cpus s i)\<lparr>cpu_pc := l\<rparr>) s"

definition call_lock :: "nat \<Rightarrow> lock_pc \<Rightarrow> lock_system \<Rightarrow> lock_system" where
  "call_lock i l s = goto_pc i l s"

text \<open>One atomic step of \<open>enter\<close>, \<open>exit\<close> and \<open>tryEnter\<close> on processor \<open>i\<close>.\<close>

definition lock_step :: "lock_class \<Rightarrow> nat \<Rightarrow> lock_system \<Rightarrow> lock_system" where
  "lock_step k i s =
     (let c = cpus s i in
      case cpu_pc c of
        Enter_save \<Rightarrow>
          goto_pc i Enter_cli (s\<lparr>saved_flags := saveLocalInterrupts (cpu_eflags c)\<rparr>)
      | Enter_cli \<Rightarrow>
          set_cpu i (c\<lparr>cpu_pc := Enter_cmpxchg,
                       cpu_eflags := disableLocalInterrupts (cpu_eflags c)\<rparr>) s
      | Enter_cmpxchg \<Rightarrow>
          (case cmpxchg 0 1 (lock_word s) of (w, eax) \<Rightarrow>
             set_cpu i (c\<lparr>cpu_pc := (if eax = 0 then Enter_ret else Enter_cmpxchg),
                          cpu_eax := eax\<rparr>) (s\<lparr>lock_word := w\<rparr>))
      | Enter_ret \<Rightarrow>
          goto_pc i (if k = Mutex_Lock \<and> cpu_eax c \<noteq> 0 then Halted else Inside) s
      | Exit_load \<Rightarrow>
          set_cpu i (c\<lparr>cpu_pc := Exit_store, cpu_eax := lock_word s\<rparr>) s
      | Exit_store \<Rightarrow> goto_pc i Exit_restore (s\<lparr>lock_word := 0\<rparr>)
      | Exit_restore \<Rightarrow>
          set_cpu i (c\<lparr>cpu_pc := Exit_ret,
                       cpu_eflags := restoreLocalInterrupts (saved_flags s) (cpu_eflags c)\<rparr>) s
      | Exit_ret \<Rightarrow>
          goto_pc i (if k = Mutex_Lock \<and> cpu_eax c \<noteq> 1 then Halted else Outside) s
      | Try_load \<Rightarrow>
          set_cpu i (c\<lparr>cpu_pc := Try_store, cpu_eax := lock_word s\<rparr>) s
      | Try_store \<Rightarrow> goto_pc i Try_ret (s\<lparr>lock_word := 0\<rparr>)
      | Try_ret \<Rightarrow> goto_pc i (if cpu_eax c = 0 then Inside else Outside) s
      | Outside \<Rightarrow> s
      | Inside \<Rightarrow> s
      | Halted \<Rightarrow> s)"

text \<open>
  The steps of the system: a processor outside calls \<open>enter\<close>, or \<open>tryEnter\<close> where the parameter
  \<open>tries\<close> allows it, one inside calls \<open>exit\<close>, and one in the middle of a call goes on.
\<close>

inductive system_step :: "lock_class \<Rightarrow> bool \<Rightarrow> lock_system \<Rightarrow> lock_system \<Rightarrow> bool"
  for k tries where
  call_enter: "cpu_pc (cpus s i) = Outside \<Longrightarrow> system_step k tries s (call_lock i Enter_save s)"
| call_exit: "cpu_pc (cpus s i) = Inside \<Longrightarrow> system_step k tries s (call_lock i Exit_load s)"
| call_try: "tries \<Longrightarrow> cpu_pc (cpus s i) = Outside \<Longrightarrow>
    system_step k tries s (call_lock i Try_load s)"
| run: "system_step k tries s (lock_step k i s)"

inductive lock_reachable :: "lock_class \<Rightarrow> bool \<Rightarrow> lock_system \<Rightarrow> bool" for k tries where
  start: "lock_word s = 0 \<Longrightarrow> saved_flags s = 0 \<Longrightarrow> \<forall>i. cpu_pc (cpus s i) = Outside \<Longrightarrow>
    lock_reachable k tries s"
| step: "lock_reachable k tries s \<Longrightarrow> system_step k tries s s' \<Longrightarrow> lock_reachable k tries s'"

inductive_cases system_stepE: "system_step k tries s s'"

definition holds_lock :: "lock_system \<Rightarrow> nat \<Rightarrow> bool" where
  "holds_lock s i \<longleftrightarrow> cpu_pc (cpus s i) \<in> {Enter_ret, Inside, Exit_load, Exit_store}"

subsection \<open>The invariant\<close>

text \<open>
  What is true of one processor at each point of the code, and of the lock word: it is 1
  exactly when one processor holds the lock. The holder is made explicit as an owner.
\<close>

definition cpu_ok :: "processor \<Rightarrow> bool" where
  "cpu_ok c \<longleftrightarrow>
     cpu_pc c \<notin> {Try_load, Try_store, Try_ret, Halted} \<and>
     (cpu_pc c = Enter_ret \<longrightarrow> cpu_eax c = 0) \<and>
     (cpu_pc c \<in> {Exit_store, Exit_restore, Exit_ret} \<longrightarrow> cpu_eax c = 1) \<and>
     (cpu_pc c \<in> {Enter_cmpxchg, Enter_ret, Inside, Exit_load, Exit_store, Exit_restore} \<longrightarrow>
        \<not> interrupts_on (cpu_eflags c))"

definition owned_by :: "nat option \<Rightarrow> lock_system \<Rightarrow> bool" where
  "owned_by owner s \<longleftrightarrow>
     lock_word s = (if owner = None then 0 else 1) \<and>
     (\<forall>i. cpu_ok (cpus s i)) \<and> (\<forall>i. holds_lock s i \<longleftrightarrow> owner = Some i)"

lemma set_cpu_simps [simp]:
  "lock_word (set_cpu i c s) = lock_word s"
  "saved_flags (set_cpu i c s) = saved_flags s"
  "cpus (set_cpu i c s) j = (if j = i then c else cpus s j)"
  by (simp_all add: set_cpu_def)

lemma owned_byD:
  assumes "owned_by owner s"
  shows "lock_word s = (if owner = None then 0 else 1)" "cpu_ok (cpus s i)"
    "cpu_pc (cpus s i) \<in> {Enter_ret, Inside, Exit_load, Exit_store} \<longleftrightarrow> owner = Some i"
  using assms by (simp_all add: owned_by_def holds_lock_def)

text \<open>A step of processor \<open>i\<close> keeps the others as they are; only its own part has to be shown.\<close>

lemma owned_by_set_cpu:
  assumes "owned_by owner s" "cpu_ok c" "w = (if owner' = None then 0 else 1)"
    and "cpu_pc c \<in> {Enter_ret, Inside, Exit_load, Exit_store} \<longleftrightarrow> owner' = Some i"
    and "owner' = owner \<or> {owner, owner'} = {None, Some i}"
  shows "owned_by owner' (set_cpu i c (s\<lparr>lock_word := w, saved_flags := f\<rparr>))"
proof -
  have "holds_lock (set_cpu i c (s\<lparr>lock_word := w, saved_flags := f\<rparr>)) j \<longleftrightarrow> owner' = Some j" for j
    using assms(4,5) owned_byD(3) [OF assms(1), of j]
    by (auto simp: holds_lock_def doubleton_eq_iff)
  then show ?thesis
    using assms(1-3) by (simp add: owned_by_def)
qed

lemma lock_step_owned:
  assumes "owned_by owner s"
  shows "\<exists>owner'. owned_by owner' (lock_step k i s)"
proof -
  note D = owned_byD [OF assms] and put = owned_by_set_cpu [OF assms, of _ _ _ i]
  have keep: "owned_by owner (set_cpu i c (s\<lparr>saved_flags := f\<rparr>))"
    if "cpu_ok c" "cpu_pc c \<in> {Enter_ret, Inside, Exit_load, Exit_store} \<longleftrightarrow> owner = Some i" for c f
  proof -
    have "s\<lparr>lock_word := lock_word s, saved_flags := f\<rparr> = s\<lparr>saved_flags := f\<rparr>" by simp
    then show ?thesis using put [OF that(1) D(1) that(2), of f] by (simp only: simp_thms)
  qed
  have keep': "owned_by owner' (set_cpu i c s)"
    if "owner' = owner" "cpu_ok c"
      "cpu_pc c \<in> {Enter_ret, Inside, Exit_load, Exit_store} \<longleftrightarrow> owner' = Some i" for c owner'
    using keep [of c "saved_flags s"] that by simp
  have change: "owned_by owner' (set_cpu i c (s\<lparr>lock_word := w\<rparr>))"
    if "cpu_ok c" "w = (if owner' = None then 0 else 1)"
      "cpu_pc c \<in> {Enter_ret, Inside, Exit_load, Exit_store} \<longleftrightarrow> owner' = Some i"
      "owner' = owner \<or> {owner, owner'} = {None, Some i}" for c w owner'
    using put [OF that, of "saved_flags s"] by simp
  note ok = D(2) [of i] and own = D(3) [of i]
  show ?thesis
  proof (cases "cpu_pc (cpus s i)")
    case Enter_cmpxchg
    show ?thesis
    proof (cases owner)
      case None
      then show ?thesis using Enter_cmpxchg ok D(1)
        by (intro exI [of _ "Some i"]) (auto simp: lock_step_def cmpxchg_def cpu_ok_def intro!: change)
    next
      case (Some j)
      then show ?thesis using Enter_cmpxchg ok own D(1)
        by (intro exI [of _ owner]) (auto simp: lock_step_def cmpxchg_def cpu_ok_def intro!: change)
    qed
  next
    case Exit_store
    then show ?thesis using ok own
      by (intro exI [of _ None]) (auto simp: lock_step_def cpu_ok_def Let_def intro!: change)
  qed (use assms ok own D(1) in \<open>auto simp: lock_step_def cpu_ok_def Let_def
          disableLocalInterrupts_def intro!: exI [of _ owner] keep keep'\<close>)
qed

lemma call_owned:
  assumes "owned_by owner s" "cpu_ok ((cpus s i)\<lparr>cpu_pc := l\<rparr>)"
    and "l \<in> {Enter_ret, Inside, Exit_load, Exit_store} \<longleftrightarrow> holds_lock s i"
  shows "owned_by owner (call_lock i l s)"
proof -
  have "l \<in> {Enter_ret, Inside, Exit_load, Exit_store} \<longleftrightarrow> owner = Some i"
    using assms(1,3) by (simp add: owned_by_def)
  then have "owned_by owner (set_cpu i ((cpus s i)\<lparr>cpu_pc := l\<rparr>)
      (s\<lparr>lock_word := lock_word s, saved_flags := saved_flags s\<rparr>))"
    using owned_byD(1) [OF assms(1)]
    by (intro owned_by_set_cpu [OF assms(1,2)]) simp_all
  then show ?thesis by (simp add: call_lock_def)
qed

lemma calls_owned:
  assumes "owned_by owner s"
  shows "cpu_pc (cpus s i) = Outside \<Longrightarrow> owned_by owner (call_lock i Enter_save s)"
    and "cpu_pc (cpus s i) = Inside \<Longrightarrow> owned_by owner (call_lock i Exit_load s)"
  using owned_byD(2) [OF assms, of i]
  by (rule_tac [!] call_owned [OF assms]) (simp_all add: cpu_ok_def holds_lock_def)

lemma reachable_owned:
  assumes "lock_reachable k False s"
  shows "\<exists>owner. owned_by owner s"
  using assms
proof induction
  case (start s)
  then have "owned_by None s" by (simp add: owned_by_def holds_lock_def cpu_ok_def)
  then show ?case ..
next
  case (step s s')
  then obtain owner where "owned_by owner s" by blast
  from step.hyps(2) show ?case
    by (rule system_stepE)
      (use \<open>owned_by owner s\<close> in \<open>auto intro: calls_owned lock_step_owned\<close>)
qed

text \<open>
  C39. Mutual exclusion on any number of processors that call \<open>enter\<close> and \<open>exit\<close> of one lock in
  any interleaving of their atomic steps: at most one processor is between the two; the lock
  word is 0 exactly when nobody is; no assertion of \<open>Mutex\<close> ever fails; a processor that waits
  for the lock or holds it has its interrupts off, so that no handler can interrupt it there;
  and a processor that tries a free lock gets it with its next step.
\<close>

theorem mutual_exclusion:
  assumes "lock_reachable k False s"
  shows "(holds_lock s i \<and> holds_lock s j \<longrightarrow> i = j) \<and>
    (lock_word s = 0 \<longleftrightarrow> \<not> (\<exists>i. holds_lock s i)) \<and>
    cpu_pc (cpus s i) \<noteq> Halted \<and>
    (holds_lock s i \<or> cpu_pc (cpus s i) = Enter_cmpxchg \<longrightarrow>
       \<not> interrupts_on (cpu_eflags (cpus s i))) \<and>
    (cpu_pc (cpus s i) = Enter_cmpxchg \<and> lock_word s = 0 \<longrightarrow> holds_lock (lock_step k i s) i)"
proof -
  obtain owner where o: "owned_by owner s" using reachable_owned [OF assms] ..
  have h: "holds_lock s n \<longleftrightarrow> owner = Some n" for n using o by (simp add: owned_by_def)
  have "lock_word s = 0 \<longleftrightarrow> \<not> (\<exists>i. holds_lock s i)"
    using owned_byD(1) [OF o] h by (cases owner) auto
  moreover have "cpu_pc (cpus s i) = Enter_cmpxchg \<and> lock_word s = 0 \<longrightarrow>
      holds_lock (lock_step k i s) i"
    by (simp add: lock_step_def cmpxchg_def holds_lock_def)
  moreover have "cpu_pc (cpus s i) \<noteq> Halted"
      "holds_lock s i \<or> cpu_pc (cpus s i) = Enter_cmpxchg \<longrightarrow> \<not> interrupts_on (cpu_eflags (cpus s i))"
    using owned_byD(2) [OF o, of i] by (auto simp: cpu_ok_def holds_lock_def)
  moreover have "holds_lock s i \<and> holds_lock s j \<longrightarrow> i = j" by (auto simp: h)
  ultimately show ?thesis by (intro conjI)
qed

subsection \<open>Runs\<close>

datatype lock_act = Call_enter nat | Call_exit nat | Call_try nat | Run nat

fun lock_do :: "lock_class \<Rightarrow> lock_act \<Rightarrow> lock_system \<Rightarrow> lock_system" where
  "lock_do k (Call_enter i) s = (if cpu_pc (cpus s i) = Outside then call_lock i Enter_save s else s)"
| "lock_do k (Call_exit i) s = (if cpu_pc (cpus s i) = Inside then call_lock i Exit_load s else s)"
| "lock_do k (Call_try i) s = (if cpu_pc (cpus s i) = Outside then call_lock i Try_load s else s)"
| "lock_do k (Run i) s = lock_step k i s"

lemma lock_do_reachable:
  assumes "lock_reachable k tries s" "\<forall>i. a = Call_try i \<longrightarrow> tries"
  shows "lock_reachable k tries (lock_do k a s)"
  using assms by (cases a) (auto intro: lock_reachable.step system_step.intros)

lemma lock_run_reachable:
  assumes "lock_reachable k tries s" "\<forall>i. Call_try i \<in> set acts \<longrightarrow> tries"
  shows "lock_reachable k tries (fold (lock_do k) acts s)"
  using assms
proof (induction acts arbitrary: s)
  case (Cons a acts)
  have "lock_reachable k tries (lock_do k a s)"
    using Cons.prems by (intro lock_do_reachable) auto
  moreover have "\<forall>i. Call_try i \<in> set acts \<longrightarrow> tries" using Cons.prems(2) by simp
  ultimately show ?case using Cons.IH by (simp del: ex_simps all_simps)
qed simp

text \<open>Two processors, the first with its interrupts on, the second with them off.\<close>

definition lock_start :: lock_system where
  "lock_start = \<lparr>lock_word = 0, saved_flags = 0,
     cpus = (\<lambda>i. \<lparr>cpu_pc = Outside, cpu_eflags = (if i = 0 then 0x202 else 0x002), cpu_eax = 0\<rparr>)\<rparr>"

lemma lock_start_reachable: "lock_reachable k tries lock_start"
  by (rule lock_reachable.start) (simp_all add: lock_start_def)

definition enter_acts :: "nat \<Rightarrow> lock_act list" where
  "enter_acts i = Call_enter i # replicate 4 (Run i)"

definition exit_acts :: "nat \<Rightarrow> lock_act list" where
  "exit_acts i = Call_exit i # replicate 4 (Run i)"

definition try_acts :: "nat \<Rightarrow> lock_act list" where
  "try_acts i = Call_try i # replicate 3 (Run i)"

lemmas lock_run_simps = enter_acts_def exit_acts_def try_acts_def lock_start_def lock_step_def
  call_lock_def set_cpu_def cmpxchg_def Let_def numeral_eq_Suc holds_lock_def

text \<open>The second processor spins while the first is inside.\<close>

definition contended :: lock_system where
  "contended = fold (lock_do Mutex_Lock)
     (enter_acts 0 @ [Call_enter 1, Run 1, Run 1, Run 1]) lock_start"

lemma contended_state:
  "lock_reachable Mutex_Lock False contended" "cpu_pc (cpus contended 0) = Inside"
  "cpu_pc (cpus contended 1) = Enter_cmpxchg" "lock_word contended = 1"
proof -
  show "lock_reachable Mutex_Lock False contended"
    unfolding contended_def
    by (rule lock_run_reachable [OF lock_start_reachable]) (simp add: enter_acts_def numeral_eq_Suc)
qed (simp_all add: contended_def lock_run_simps)

theorem mutual_exclusion_witness:
  "lock_reachable Mutex_Lock False contended \<and> holds_lock contended 0 \<and>
   \<not> holds_lock contended 1 \<and>
   \<not> interrupts_on (cpu_eflags (cpus contended 0)) \<and> \<not> interrupts_on (cpu_eflags (cpus contended 1))"
  using mutual_exclusion [OF contended_state(1), of 0 1]
    mutual_exclusion [OF contended_state(1), of 1 0] contended_state
  by (simp add: holds_lock_def)

subsection \<open>Two hazards of the code\<close>

text \<open>
  \<open>Mutex::tryEnter\<close> calls \<open>spinlock_exit\<close> where \<open>spinlock_try\<close> is meant, so it releases the lock
  of whoever holds it: with it in the system two processors are inside at once. And the flags
  are saved in the shared lock before the lock is taken: a second processor that starts to
  wait overwrites the flags of the first, which then leaves with its interrupts off although it
  came with them on.
\<close>

theorem tryEnter_breaks_exclusion:
  "\<exists>s. lock_reachable Mutex_Lock True s \<and>
       cpu_pc (cpus s 0) = Inside \<and> cpu_pc (cpus s 1) = Inside"
proof -
  let ?s = "fold (lock_do Mutex_Lock) (enter_acts 0 @ try_acts 1 @ enter_acts 1) lock_start"
  have "lock_reachable Mutex_Lock True ?s"
    by (rule lock_run_reachable [OF lock_start_reachable]) simp
  moreover have "cpu_pc (cpus ?s 0) = Inside \<and> cpu_pc (cpus ?s 1) = Inside"
    by (simp add: lock_run_simps)
  ultimately show ?thesis by blast
qed

theorem saved_flags_overwritten:
  "\<exists>s. lock_reachable k False s \<and> interrupts_on (cpu_eflags (cpus lock_start 0)) \<and>
       s = fold (lock_do k) (enter_acts 0 @ [Call_enter 1, Run 1] @ exit_acts 0) lock_start \<and>
       cpu_pc (cpus s 0) = Outside \<and> \<not> interrupts_on (cpu_eflags (cpus s 0))"
proof -
  let ?s = "fold (lock_do k) (enter_acts 0 @ [Call_enter 1, Run 1] @ exit_acts 0) lock_start"
  have saved: "saveLocalInterrupts 2 = 0"
    by (simp add: saveLocalInterrupts_def InterruptEnable_def)
  have "lock_reachable k False ?s"
    by (rule lock_run_reachable [OF lock_start_reachable])
      (simp add: enter_acts_def exit_acts_def numeral_eq_Suc)
  moreover have "cpu_pc (cpus ?s 0) = Outside \<and> \<not> interrupts_on (cpu_eflags (cpus ?s 0))"
    by (simp add: lock_run_simps saved restoreLocalInterrupts_def)
  moreover have "interrupts_on (cpu_eflags (cpus lock_start 0))"
    by (simp add: lock_start_def InterruptEnable_def)
  ultimately show ?thesis by blast
qed

end
