(* ===== verification/Null_List.thy ===== *)
theory Null_List
  imports Prelude
begin

text \<open>
  Lists of objects that are linked through a pointer of their own and end with the null pointer, with
  the two ways the kernel uses them: an object is put in front when it is constructed, and a loop
  visits the objects in turn. Drivers, clocks, timers, watchdogs and PCI drivers are kept like this.
\<close>

section \<open>Calls that may panic or not return\<close>

text \<open>\<open>None\<close> says that a call does not return, \<open>Inl\<close> that it panics.\<close>

definition bindo :: "'a res option \<Rightarrow> ('a \<Rightarrow> 'b res option) \<Rightarrow> 'b res option" where
  "bindo x f = (case x of None \<Rightarrow> None | Some (Inl e) \<Rightarrow> Some (Inl e) | Some (Inr y) \<Rightarrow> f y)"

lemma bindo_simps [simp]:
  "bindo None f = None" "bindo (Some (Inl e)) f = Some (Inl e)" "bindo (Some (Inr y)) f = f y"
  by (simp_all add: bindo_def)

lemma bindo_assoc: "bindo (bindo x f) g = bindo x (\<lambda>y. bindo (f y) g)"
  by (auto simp: bindo_def split: option.split sum.split)

lemma bindo_cong: "(\<And>y. x = Some (Inr y) \<Longrightarrow> f y = g y) \<Longrightarrow> bindo x f = bindo x g"
  by (auto simp: bindo_def split: option.split sum.split)

lemma bindo_Some: "bindo x f = Some (Inr z) \<longleftrightarrow> (\<exists>y. x = Some (Inr y) \<and> f y = Some (Inr z))"
  by (auto simp: bindo_def split: option.splits sum.splits)

lemma bindo_mono [partial_function_mono]:
  assumes "\<And>y. mono_option (\<lambda>f. h f y)"
  shows "mono_option (\<lambda>f. bindo x (h f))"
  using assms
  by (auto simp: monotone_def bindo_def fun_ord_def flat_ord_def split: option.splits sum.splits)

primrec steps :: "('p \<Rightarrow> 's \<Rightarrow> 's res option) \<Rightarrow> 'p list \<Rightarrow> 's \<Rightarrow> 's res option" where
  "steps f [] s = Some (Inr s)"
| "steps f (x # xs) s = bindo (f x s) (steps f xs)"

lemma steps_append: "steps f (xs @ ys) s = bindo (steps f xs s) (steps f ys)"
  by (induction xs arbitrary: s) (auto simp: bindo_assoc intro: bindo_cong)

text \<open>What every step keeps, all of them keep.\<close>

lemma steps_keep:
  assumes "steps f xs s = Some (Inr s')" "P s"
    and "\<And>x s s'. x \<in> set xs \<Longrightarrow> P s \<Longrightarrow> f x s = Some (Inr s') \<Longrightarrow> P s'"
  shows "P s'"
  using assms
proof (induction xs arbitrary: s)
  case (Cons x xs)
  obtain s1 where s1: "f x s = Some (Inr s1)" "steps f xs s1 = Some (Inr s')"
    using Cons.prems(1) by (auto simp: bindo_Some)
  have "P s1" using Cons.prems(3) [OF _ Cons.prems(2) s1(1)] by simp
  then show ?case using Cons.IH [OF s1(2)] Cons.prems(3) by (meson list.set_intros(2))
qed simp

section \<open>The list\<close>

fun chain :: "(u32 \<Rightarrow> u32) \<Rightarrow> u32 \<Rightarrow> u32 list \<Rightarrow> bool" where
  "chain nx p [] \<longleftrightarrow> p = 0"
| "chain nx p (x # xs) \<longleftrightarrow> p = x \<and> x \<noteq> 0 \<and> chain nx (nx x) xs"

lemma chain_unique: "chain nx p xs \<Longrightarrow> chain nx p ys \<Longrightarrow> xs = ys"
proof (induction xs arbitrary: p ys)
  case Nil
  then show ?case by (cases ys) auto
next
  case (Cons x xs)
  then show ?case by (cases ys) auto
qed

lemma chain_suffix: "chain nx p (xs @ x # ys) \<Longrightarrow> chain nx x (x # ys)"
  by (induction xs arbitrary: p) auto

lemma chain_distinct: "chain nx p xs \<Longrightarrow> distinct xs"
proof (induction xs arbitrary: p)
  case (Cons x xs)
  have "x \<notin> set xs"
  proof
    assume "x \<in> set xs"
    then obtain as bs where xs: "xs = as @ x # bs" by (auto simp: in_set_conv_decomp)
    have "chain nx p ((x # as) @ x # bs)" using Cons.prems unfolding xs by simp
    then have "chain nx x (x # bs)" by (rule chain_suffix)
    moreover have "chain nx x (x # xs)" using Cons.prems by simp
    ultimately have "x # bs = x # xs" by (rule chain_unique)
    then show False using xs by simp
  qed
  then show ?case using Cons by auto
qed simp

lemma chain_not_null: "chain nx p xs \<Longrightarrow> 0 \<notin> set xs"
  by (induction xs arbitrary: p) auto

lemma chain_upd: "d \<notin> set xs \<Longrightarrow> chain (nx(d := v)) p xs = chain nx p xs"
  by (induction xs arbitrary: p) auto

lemma chain_front: "chain nx p xs \<Longrightarrow> d \<noteq> 0 \<Longrightarrow> d \<notin> set xs \<Longrightarrow> chain (nx(d := p)) d (d # xs)"
  by (simp add: chain_upd)

section \<open>A loop over the list\<close>

text \<open>
  The interface of such a loop: it stops at the null pointer, otherwise does its step at the object
  and goes on with the object's next pointer, which the step leaves alone.
\<close>

locale null_walk =
  fixes next_of :: "'s \<Rightarrow> u32 \<Rightarrow> u32"
    and step :: "u32 \<Rightarrow> 's \<Rightarrow> 's res option"
    and walk :: "u32 \<Rightarrow> 's \<Rightarrow> 's res option"
  assumes walk_unfold: "walk p s =
      (if p = 0 then Some (Inr s) else bindo (step p s) (\<lambda>s. walk (next_of s p) s))"
    and step_links: "step p s = Some (Inr s') \<Longrightarrow> next_of s' = next_of s"
begin

theorem walk_steps:
  assumes "chain (next_of s) p xs"
  shows "walk p s = steps step xs s"
  using assms
proof (induction xs arbitrary: p s)
  case Nil
  then show ?case by (subst walk_unfold) simp
next
  case (Cons x xs)
  then have p: "p = x" "x \<noteq> 0" "chain (next_of s) (next_of s x) xs" by auto
  have "bindo (step x s) (\<lambda>s. walk (next_of s x) s) = bindo (step x s) (steps step xs)"
    by (rule bindo_cong) (use p(3) step_links Cons.IH in auto)
  then show ?case using p by (subst walk_unfold) simp
qed

lemma walk_links:
  assumes "chain (next_of s) p xs" "walk p s = Some (Inr s')"
  shows "next_of s' = next_of s"
  using steps_keep [of step xs s s' "\<lambda>t. next_of t = next_of s"] assms step_links
  by (auto simp: walk_steps)

end

end
