(* ===== verification/Text_Console.thy ===== *)
theory Text_Console
  imports Prelude
begin

text \<open>
  The text console: the VGA text screen (Drivers/X86/Console/VgaConsole.cc,
  Include/X86/VgaConsole.hh), the cursor logic on top of it
  (Drivers/Common/Console/FrameBuffer.cc) and the console buffer with the functions that read
  from it (Kernel/StdioSupport.cc, CLibrary/stdio.c). Video memory is a function from cells;
  \<open>mapped\<close> is the number of cells that can be accessed, and an access beyond faults. The
  functions of the screen run under its lock.
\<close>

section \<open>The screen\<close>

record screen =
  vram :: "nat \<Rightarrow> u16"
  mapped :: nat
  backgroundColor :: u8
  foregroundColor :: u8
  crtLow :: u8
  crtHigh :: u8
  currentRow :: int
  currentColumn :: int

definition VgaColumns :: int where "VgaColumns = 80"

definition VgaRows :: int where "VgaRows = 25"

definition page_fault :: panic where
  "page_fault = PANIC ''page fault''"

definition vram_read :: "int \<Rightarrow> screen \<Rightarrow> u16 res" where
  "vram_read i s = (if 0 \<le> i \<and> i < int (mapped s) then Inr (vram s (nat i)) else Inl page_fault)"

definition vram_write :: "int \<Rightarrow> u16 \<Rightarrow> screen \<Rightarrow> screen res" where
  "vram_write i x s =
     (if 0 \<le> i \<and> i < int (mapped s) then Inr (s\<lparr>vram := (vram s)(nat i := x)\<rparr>)
      else Inl page_fault)"

definition asciiToVga :: "u8 \<Rightarrow> screen \<Rightarrow> u16" where
  "asciiToVga c s =
     ucast c OR push_bit 8 (push_bit 4 (ucast (backgroundColor s)) OR ucast (foregroundColor s))"

definition putCharUnlocked :: "u8 \<Rightarrow> int \<Rightarrow> int \<Rightarrow> screen \<Rightarrow> (int \<times> screen) res" where
  "putCharUnlocked ch row column s =
     (if row > VgaRows + 1 \<or> column > VgaColumns + 1 then Inr (0, s)
      else bindr (vram_write (row * VgaColumns + column) (asciiToVga ch s) s) (\<lambda>s. Inr (1, s)))"

definition vga_putChar :: "u8 \<Rightarrow> int \<Rightarrow> int \<Rightarrow> screen \<Rightarrow> (int \<times> screen) res" where
  "vga_putChar ch row column s = putCharUnlocked ch row column s"

definition setCursor :: "int \<Rightarrow> int \<Rightarrow> screen \<Rightarrow> screen" where
  "setCursor row column s =
     (let cursorIndex = word_of_int (row * VgaColumns + column) :: u16
      in s\<lparr>crtLow := ucast (cursorIndex AND 0xff), crtHigh := ucast (drop_bit 8 cursorIndex AND 0xff)\<rparr>)"

text \<open>\<open>for_each\<close> is a counting loop; it stops at a fault.\<close>

fun for_each :: "nat list \<Rightarrow> (nat \<Rightarrow> 's \<Rightarrow> 's res) \<Rightarrow> 's \<Rightarrow> 's res" where
  "for_each [] f s = Inr s"
| "for_each (i # is) f s = bindr (f i s) (for_each is f)"

definition clearScreen :: "screen \<Rightarrow> screen res" where
  "clearScreen s =
     bindr (for_each [0..<nat VgaColumns] (\<lambda>column.
              for_each [0..<nat VgaRows] (\<lambda>row s.
                bindr (putCharUnlocked 0x20 (int row) (int column) s) (\<lambda>(r, s). Inr s))) s)
       (\<lambda>s. Inr (setCursor 0 0 s))"

definition scrollScreen :: "screen \<Rightarrow> screen res" where
  "scrollScreen s =
     bindr (for_each [0..<nat (VgaRows * (VgaColumns - 1))] (\<lambda>i s.
              bindr (vram_read (int i + VgaColumns) s) (\<lambda>x. vram_write (int i) x s)) s)
       (for_each [nat ((VgaRows - 1) * VgaColumns)..<nat (VgaRows * VgaColumns)] (\<lambda>i s.
              vram_write (int i) (asciiToVga 0x20 s) s))"

definition vga_ctor :: "screen \<Rightarrow> screen res" where
  "vga_ctor s = clearScreen (s\<lparr>backgroundColor := 1, foregroundColor := 15, currentRow := 0, currentColumn := 0\<rparr>)"

section \<open>The cursor\<close>

definition stepRow :: "screen \<Rightarrow> screen res" where
  "stepRow s =
     (let s = s\<lparr>currentRow := currentRow s + 1\<rparr>
      in if currentRow s > VgaRows - 1
         then bindr (scrollScreen s) (\<lambda>s.
           let s = s\<lparr>currentColumn := 0\<rparr>;
               s = s\<lparr>currentRow := VgaRows - 1\<rparr>
           in Inr (setCursor (VgaRows - 1) 0 s))
         else Inr s)"

definition stepColumn :: "screen \<Rightarrow> screen res" where
  "stepColumn s =
     (let s = s\<lparr>currentColumn := currentColumn s + 1\<rparr>
      in if currentColumn s > VgaColumns - 1
         then stepRow (s\<lparr>currentColumn := 0\<rparr>)
         else Inr s)"

definition TABSIZE :: int where "TABSIZE = 8"

text \<open>The switch of \<open>putChar\<close> and the final update of the cursor.\<close>

definition fb_char :: "u8 \<Rightarrow> screen \<Rightarrow> screen res" where
  "fb_char ch s =
     (if ch = 0x0a then bindr (stepRow s) (\<lambda>s. Inr (s\<lparr>currentColumn := 0\<rparr>))
      else if ch = 0x0d then Inr s
      else if ch = 0x09 then
        let newcol = ((currentColumn s + TABSIZE) div TABSIZE) * TABSIZE;
            steps = newcol - currentColumn s
        in for_each [0..<nat steps] (\<lambda>i. stepColumn) s
      else
        bindr (vga_putChar ch (currentRow s) (currentColumn s) s) (\<lambda>(r, s). stepColumn s))"

definition fb_putChar :: "u8 \<Rightarrow> screen \<Rightarrow> screen res" where
  "fb_putChar ch s =
     bindr (fb_char ch s) (\<lambda>s. Inr (setCursor (currentRow s) (currentColumn s) s))"

section \<open>What the loops do\<close>

lemma for_each_append: "for_each (xs @ ys) f s = bindr (for_each xs f s) (for_each ys f)"
  by (induction xs arbitrary: s) (auto simp: bindr_def split: sum.splits)

lemma for_each_invariant:
  assumes "P 0 s" "\<And>i s. i < n \<Longrightarrow> P i s \<Longrightarrow> \<exists>s'. f i s = Inr s' \<and> P (Suc i) s'"
  shows "\<exists>s'. for_each [0..<n] f s = Inr s' \<and> P n s'"
  using assms(2)
proof (induction n)
  case 0
  then show ?case using assms(1) by simp
next
  case (Suc n)
  then obtain s1 where "for_each [0..<n] f s = Inr s1" "P n s1" by auto
  then show ?case using Suc.prems [of n s1] by (auto simp: for_each_append bindr_def)
qed

lemma copy_cells:
  assumes "n + 80 \<le> mapped s"
  shows "for_each [0..<n] (\<lambda>i s. bindr (vram_read (int i + VgaColumns) s) (\<lambda>x. vram_write (int i) x s)) s
    = Inr (s\<lparr>vram := (\<lambda>i. if i < n then vram s (i + 80) else vram s i)\<rparr>)"
  using assms
proof (induction n)
  case (Suc n)
  have "nat (int n + 80) = n + 80" by simp
  then show ?case using Suc
    by (auto simp: for_each_append bindr_def vram_read_def vram_write_def VgaColumns_def
        intro!: arg_cong [where f = "\<lambda>v. s\<lparr>vram := v\<rparr>"])
qed simp

lemma copy_cells_fault:
  assumes "mapped s < n + 80" "80 \<le> mapped s"
  shows "for_each [0..<n] (\<lambda>i s. bindr (vram_read (int i + VgaColumns) s) (\<lambda>x. vram_write (int i) x s)) s
    = Inl page_fault"
proof -
  let ?f = "\<lambda>i s. bindr (vram_read (int i + VgaColumns) s) (\<lambda>x. vram_write (int i) x s)"
  let ?k = "mapped s - 80"
  have e: "[0..<n] = [0..<?k] @ ?k # [Suc ?k..<n]"
    using assms upt_add_eq_append [of 0 ?k "n - ?k"] by (simp add: upt_conv_Cons)
  have "for_each [0..<?k] ?f s = Inr (s\<lparr>vram := (\<lambda>i. if i < ?k then vram s (i + 80) else vram s i)\<rparr>)"
    using assms by (intro copy_cells) simp
  then show ?thesis
    using assms unfolding e for_each_append
    by (simp add: bindr_def vram_read_def VgaColumns_def)
qed

lemma fill_cells:
  assumes "a \<le> b" "b \<le> mapped s"
  shows "for_each [a..<b] (\<lambda>i s. vram_write (int i) (asciiToVga c s) s) s
    = Inr (s\<lparr>vram := (\<lambda>i. if a \<le> i \<and> i < b then asciiToVga c s else vram s i)\<rparr>)"
  using assms
proof (induction b)
  case (Suc b)
  show ?case
  proof (cases "a \<le> b")
    case True
    then show ?thesis using Suc
      by (auto simp: for_each_append bindr_def vram_write_def asciiToVga_def
          intro!: arg_cong [where f = "\<lambda>v. s\<lparr>vram := v\<rparr>"])
  next
    case False
    then have "(\<lambda>i. if a \<le> i \<and> i < Suc b then asciiToVga c s else vram s i) = vram s"
      by (auto simp: fun_eq_iff)
    then show ?thesis using False Suc.prems by simp
  qed
qed simp

lemma scrollScreen_scrolls:
  assumes "2055 \<le> mapped s"
  shows "scrollScreen s = Inr (s\<lparr>vram := (\<lambda>i. if i < 1920 then vram s (i + 80)
      else if i < 2000 then asciiToVga 0x20 s else vram s i)\<rparr>)"
proof -
  let ?s = "s\<lparr>vram := (\<lambda>i. if i < 1975 then vram s (i + 80) else vram s i)\<rparr>"
  have "nat (VgaRows * (VgaColumns - 1)) = 1975" "nat ((VgaRows - 1) * VgaColumns) = 1920"
    "nat (VgaRows * VgaColumns) = 2000"
    by (simp_all add: VgaRows_def VgaColumns_def)
  then have "scrollScreen s = for_each [1920..<2000] (\<lambda>i s. vram_write (int i) (asciiToVga 0x20 s) s) ?s"
    unfolding scrollScreen_def using copy_cells [of 1975 s] assms by (simp add: bindr_def)
  also have "\<dots> = Inr (?s\<lparr>vram := (\<lambda>i. if 1920 \<le> i \<and> i < 2000 then asciiToVga 0x20 ?s else vram ?s i)\<rparr>)"
    using assms by (intro fill_cells) simp_all
  finally show ?thesis
    by (auto simp: asciiToVga_def fun_eq_iff intro!: arg_cong [where f = "\<lambda>v. s\<lparr>vram := v\<rparr>"])
qed

lemma scrollScreen_fault:
  assumes "80 \<le> mapped s" "mapped s < 2055"
  shows "scrollScreen s = Inl page_fault"
proof -
  have "nat (VgaRows * (VgaColumns - 1)) = 1975" by (simp add: VgaRows_def VgaColumns_def)
  then show ?thesis
    unfolding scrollScreen_def using copy_cells_fault [of s 1975] assms by (simp add: bindr_def)
qed

section \<open>What the console promises\<close>

text \<open>
  The specification: a terminal is 25 lines of 80 cells and a position. A character goes to the
  position; the end of a line leads to the next one, and below the last line everything moves
  up by one and a blank line appears.
\<close>

record terminal =
  rows :: "u16 list list"
  trow :: nat
  tcol :: nat

definition next_line :: "u16 \<Rightarrow> terminal \<Rightarrow> terminal" where
  "next_line b t =
     (if trow t + 1 < 25 then t\<lparr>trow := trow t + 1\<rparr>
      else t\<lparr>rows := tl (rows t) @ [replicate 80 b], trow := 24, tcol := 0\<rparr>)"

definition advance :: "u16 \<Rightarrow> terminal \<Rightarrow> terminal" where
  "advance b t =
     (if tcol t + 1 < 80 then t\<lparr>tcol := tcol t + 1\<rparr> else next_line b (t\<lparr>tcol := 0\<rparr>))"

definition type_char :: "(u8 \<Rightarrow> u16) \<Rightarrow> u8 \<Rightarrow> terminal \<Rightarrow> terminal" where
  "type_char cell ch t =
     (if ch = 0x0a then (next_line (cell 0x20) t)\<lparr>tcol := 0\<rparr>
      else if ch = 0x0d then t
      else if ch = 0x09 then (advance (cell 0x20) ^^ (8 - tcol t mod 8)) t
      else advance (cell 0x20)
        (t\<lparr>rows := (rows t)[trow t := (rows t ! trow t)[tcol t := cell ch]]\<rparr>))"

text \<open>The abstraction, and the invariant of the screen.\<close>

definition cell_of :: "screen \<Rightarrow> u8 \<Rightarrow> u16" where
  "cell_of s ch = asciiToVga ch s"

definition vram_rows :: "(nat \<Rightarrow> u16) \<Rightarrow> u16 list list" where
  "vram_rows v = map (\<lambda>r. map (\<lambda>c. v (r * 80 + c)) [0..<80]) [0..<25]"

definition terminal_of :: "screen \<Rightarrow> terminal" where
  "terminal_of s = \<lparr>rows = vram_rows (vram s), trow = nat (currentRow s), tcol = nat (currentColumn s)\<rparr>"

definition screen_ok :: "screen \<Rightarrow> bool" where
  "screen_ok s \<longleftrightarrow> 0 \<le> currentRow s \<and> currentRow s < 25 \<and> 0 \<le> currentColumn s \<and> currentColumn s < 80 \<and>
     2055 \<le> mapped s"

text \<open>What no operation changes: the colours, and the memory behind the screen.\<close>

definition same_frame :: "screen \<Rightarrow> screen \<Rightarrow> bool" where
  "same_frame s s' \<longleftrightarrow> cell_of s' = cell_of s \<and> mapped s' = mapped s \<and> (\<forall>i \<ge> 2000. vram s' i = vram s i)"

definition refines :: "screen \<Rightarrow> screen res \<Rightarrow> terminal \<Rightarrow> bool" where
  "refines s r t \<longleftrightarrow> (\<exists>s'. r = Inr s' \<and> screen_ok s' \<and> terminal_of s' = t \<and> same_frame s s')"

lemma refinesI:
  "r = Inr s' \<Longrightarrow> screen_ok s' \<Longrightarrow> terminal_of s' = t \<Longrightarrow> same_frame s s' \<Longrightarrow> refines s r t"
  by (auto simp: refines_def)

lemma refinesE:
  assumes "refines s r t"
  obtains s' where "r = Inr s'" "screen_ok s'" "terminal_of s' = t" "same_frame s s'"
  using assms by (auto simp: refines_def)

lemma cell_of_upd [simp]:
  "cell_of (s\<lparr>currentRow := r\<rparr>) = cell_of s" "cell_of (s\<lparr>currentColumn := r\<rparr>) = cell_of s"
  "cell_of (s\<lparr>vram := v\<rparr>) = cell_of s"
  by (simp_all add: cell_of_def asciiToVga_def fun_eq_iff)

lemma vram_cells:
  "length (vram_rows v) = 25" "i < 25 \<Longrightarrow> length (vram_rows v ! i) = 80"
  "i < 25 \<Longrightarrow> j < 80 \<Longrightarrow> vram_rows v ! i ! j = v (i * 80 + j)"
  unfolding vram_rows_def by (simp_all only: length_map length_upt nth_map nth_upt diff_zero add_0)

lemma vram_rows_eqI:
  assumes "length xs = 25" "\<And>i. i < 25 \<Longrightarrow> length (xs ! i) = 80"
    "\<And>i j. i < 25 \<Longrightarrow> j < 80 \<Longrightarrow> xs ! i ! j = v (i * 80 + j)"
  shows "vram_rows v = xs"
  by (intro nth_equalityI) (simp_all add: assms vram_cells)

lemma vram_rows_upd:
  assumes "r < 25" "c < 80"
  shows "vram_rows (v(r * 80 + c := x)) = (vram_rows v)[r := (vram_rows v ! r)[c := x]]"
proof (rule vram_rows_eqI)
  show "length ((vram_rows v)[r := (vram_rows v ! r)[c := x]]) = 25" by (simp add: vram_cells)
next
  fix i :: nat assume "i < 25"
  then show "length ((vram_rows v)[r := (vram_rows v ! r)[c := x]] ! i) = 80"
    using assms(1) by (cases "i = r") (simp_all add: vram_cells)
next
  fix i j :: nat assume ij: "i < 25" "j < 80"
  have "(i * 80 + j) div 80 = i" "(i * 80 + j) mod 80 = j" "(r * 80 + c) div 80 = r" "(r * 80 + c) mod 80 = c"
    using ij(2) assms(2) by simp_all
  then have cell: "i * 80 + j = r * 80 + c \<longleftrightarrow> i = r \<and> j = c" by metis
  show "(vram_rows v)[r := (vram_rows v ! r)[c := x]] ! i ! j = (v(r * 80 + c := x)) (i * 80 + j)"
    unfolding fun_upd_apply cell using ij assms
    by (cases "i = r"; cases "j = c") (simp_all add: vram_cells)
qed

lemma vram_rows_scroll:
  "vram_rows (\<lambda>i. if i < 1920 then v (i + 80) else if i < 2000 then x else v i)
     = tl (vram_rows v) @ [replicate 80 x]"
proof (rule vram_rows_eqI)
  fix i j :: nat assume ij: "i < 25" "j < 80"
  show "(tl (vram_rows v) @ [replicate 80 x]) ! i ! j
      = (if i * 80 + j < 1920 then v (i * 80 + j + 80) else if i * 80 + j < 2000 then x else v (i * 80 + j))"
  proof (cases "i < 24")
    case True
    then have "vram_rows v ! Suc i ! j = v (Suc i * 80 + j)" using ij by (intro vram_cells) simp_all
    then show ?thesis using True ij by (simp add: nth_append nth_tl vram_cells algebra_simps)
  next
    case False
    then have "i = 24" using ij by simp
    then show ?thesis using ij by (simp add: nth_append vram_cells)
  qed
qed (auto simp: vram_cells nth_append nth_tl)

section \<open>The console keeps the promise\<close>

lemma same_frame_trans: "same_frame s s' \<Longrightarrow> same_frame s' s'' \<Longrightarrow> same_frame s s''"
  by (simp add: same_frame_def)

lemma setCursor_frame:
  "screen_ok (setCursor r c s) = screen_ok s" "terminal_of (setCursor r c s) = terminal_of s"
  "same_frame s0 (setCursor r c s) = same_frame s0 s"
  by (simp_all add: setCursor_def Let_def screen_ok_def terminal_of_def same_frame_def cell_of_def
      asciiToVga_def fun_eq_iff)

lemma stepRow_next_line:
  assumes "screen_ok s"
  shows "refines s (stepRow s) (next_line (cell_of s 0x20) (terminal_of s))"
proof (cases "currentRow s + 1 < 25")
  case True
  then show ?thesis
    using assms by (auto simp: refines_def stepRow_def Let_def VgaRows_def screen_ok_def terminal_of_def
        next_line_def same_frame_def cell_of_def asciiToVga_def)
next
  case False
  let ?v = "\<lambda>i. if i < 1920 then vram s (i + 80) else if i < 2000 then asciiToVga 0x20 s else vram s i"
  have r: "currentRow s = 24" using False assms by (simp add: screen_ok_def)
  have "scrollScreen (s\<lparr>currentRow := 25\<rparr>) = Inr (s\<lparr>currentRow := 25, vram := ?v\<rparr>)"
    using assms scrollScreen_scrolls [of "s\<lparr>currentRow := 25\<rparr>"]
    by (simp add: screen_ok_def asciiToVga_def cong: if_cong)
  then have step: "stepRow s = Inr (setCursor 24 0 (s\<lparr>vram := ?v, currentColumn := 0, currentRow := 24\<rparr>))"
    by (simp add: stepRow_def Let_def r VgaRows_def bindr_def)
  have "terminal_of (s\<lparr>vram := ?v, currentColumn := 0, currentRow := 24\<rparr>)
      = next_line (cell_of s 0x20) (terminal_of s)"
    by (simp add: terminal_of_def next_line_def r vram_rows_scroll cell_of_def)
  moreover have "same_frame s (s\<lparr>vram := ?v, currentColumn := 0, currentRow := 24\<rparr>)"
    by (simp add: same_frame_def)
  moreover have "screen_ok (s\<lparr>vram := ?v, currentColumn := 0, currentRow := 24\<rparr>)"
    using assms by (simp add: screen_ok_def)
  ultimately show ?thesis
    unfolding step by (intro refinesI [OF refl]) (simp_all only: setCursor_frame)
qed

lemma stepColumn_advance:
  assumes "screen_ok s"
  shows "refines s (stepColumn s) (advance (cell_of s 0x20) (terminal_of s))"
proof (cases "currentColumn s + 1 < 80")
  case True
  then show ?thesis
    using assms by (auto simp: refines_def stepColumn_def Let_def VgaColumns_def screen_ok_def
        terminal_of_def advance_def same_frame_def cell_of_def asciiToVga_def)
next
  case False
  let ?s = "s\<lparr>currentColumn := 0\<rparr>"
  have c: "currentColumn s = 79" using False assms by (simp add: screen_ok_def)
  have "refines ?s (stepRow ?s) (next_line (cell_of ?s 0x20) (terminal_of ?s))"
    using assms by (intro stepRow_next_line) (simp add: screen_ok_def)
  moreover have "cell_of ?s = cell_of s" by (simp add: cell_of_def asciiToVga_def fun_eq_iff)
  ultimately show ?thesis
    by (simp add: stepColumn_def Let_def c VgaColumns_def advance_def terminal_of_def refines_def
        same_frame_def)
qed

lemma tab_advances:
  assumes "screen_ok s"
  shows "refines s (for_each [0..<n] (\<lambda>i. stepColumn) s)
           ((advance (cell_of s 0x20) ^^ n) (terminal_of s))"
proof -
  let ?P = "\<lambda>i s'. screen_ok s' \<and> terminal_of s' = (advance (cell_of s 0x20) ^^ i) (terminal_of s) \<and> same_frame s s'"
  have "\<exists>s'. for_each [0..<n] (\<lambda>i. stepColumn) s = Inr s' \<and> ?P n s'"
  proof (rule for_each_invariant [where P = ?P])
    show "?P 0 s" using assms by (simp add: same_frame_def)
    fix i s1 assume p: "?P i s1"
    then obtain s2 where s2: "stepColumn s1 = Inr s2" "screen_ok s2"
        "terminal_of s2 = advance (cell_of s1 0x20) (terminal_of s1)" "same_frame s1 s2"
      using stepColumn_advance [of s1] by (auto simp: refines_def)
    moreover have "cell_of s1 = cell_of s" using p by (simp add: same_frame_def)
    ultimately show "\<exists>s'. stepColumn s1 = Inr s' \<and> ?P (Suc i) s'"
      using p same_frame_trans [of s s1 s2] by simp
  qed
  then show ?thesis by (auto simp: refines_def)
qed

lemma fb_char_refines:
  assumes "screen_ok s"
  shows "refines s (fb_char ch s) (type_char (cell_of s) ch (terminal_of s))"
proof -
  consider "ch = 0x0a" | "ch = 0x0d" | "ch = 0x09" | "ch \<notin> {0x0a, 0x0d, 0x09}" by blast
  then show ?thesis
  proof cases
    case 1
    obtain s' where "stepRow s = Inr s'" "screen_ok s'" "same_frame s s'"
        and t: "terminal_of s' = next_line (cell_of s 0x20) (terminal_of s)"
      using stepRow_next_line [OF assms] by (auto simp: refines_def)
    moreover have "terminal_of (s'\<lparr>currentColumn := 0\<rparr>)
        = (next_line (cell_of s 0x20) (terminal_of s))\<lparr>tcol := 0\<rparr>"
      unfolding t [symmetric] by (simp add: terminal_of_def)
    ultimately show ?thesis
      using 1 by (auto simp: fb_char_def type_char_def bindr_def refines_def screen_ok_def
          same_frame_def)
  next
    case 2
    then show ?thesis using assms by (simp add: fb_char_def type_char_def refines_def same_frame_def)
  next
    case 3
    define c where "c = nat (currentColumn s)"
    have c: "currentColumn s = int c" using assms by (simp add: c_def screen_ok_def)
    have "(int c + 8) div 8 * 8 - int c = 8 - int c mod 8" by presburger
    then have "nat ((int c + 8) div 8 * 8 - int c) = 8 - c mod 8"
      by (simp add: nat_diff_distrib nat_mod_as_int)
    then show ?thesis
      using 3 tab_advances [OF assms, of "8 - c mod 8"]
      by (simp add: fb_char_def type_char_def TABSIZE_def Let_def c terminal_of_def)
  next
    case 4
    define r where "r = nat (currentRow s)"
    define c where "c = nat (currentColumn s)"
    have rc: "currentRow s = int r" "currentColumn s = int c" "r < 25" "c < 80"
      using assms by (auto simp: r_def c_def screen_ok_def)
    moreover have "2055 \<le> mapped s" using assms by (simp add: screen_ok_def)
    ultimately have m: "r * 80 + c < mapped s" by linarith
    have i: "nat (int r * 80 + int c) = r * 80 + c" by simp
    let ?s = "s\<lparr>vram := (vram s)(r * 80 + c := cell_of s ch)\<rparr>"
    have w: "vga_putChar ch (currentRow s) (currentColumn s) s = Inr (1, ?s)"
      using rc m by (simp add: vga_putChar_def putCharUnlocked_def VgaRows_def VgaColumns_def vram_write_def
          bindr_def i cell_of_def)
    have t: "terminal_of ?s = (terminal_of s)\<lparr>rows := (rows (terminal_of s))[r := (rows (terminal_of s) ! r)[c := cell_of s ch]]\<rparr>"
      using rc(3,4) by (simp add: terminal_of_def vram_rows_upd)
    have f: "same_frame s ?s" using rc(3,4) by (simp add: same_frame_def cell_of_def asciiToVga_def fun_eq_iff)
    obtain s' where "stepColumn ?s = Inr s'" "screen_ok s'" "same_frame ?s s'"
        "terminal_of s' = advance (cell_of ?s 0x20) (terminal_of ?s)"
      using stepColumn_advance [of ?s] assms by (auto simp: refines_def screen_ok_def)
    moreover have "cell_of ?s = cell_of s" using f by (simp add: same_frame_def)
    ultimately show ?thesis
      using 4 f same_frame_trans [OF f]
      by (auto simp: fb_char_def type_char_def w bindr_def refines_def t)
        (simp_all add: terminal_of_def rc)
  qed
qed

text \<open>The cursor of the hardware: the two registers hold the position as one number.\<close>

definition cursor_shown :: "screen \<Rightarrow> bool" where
  "cursor_shown s \<longleftrightarrow>
     int (unat (crtHigh s)) * 256 + int (unat (crtLow s)) = currentRow s * 80 + currentColumn s"

lemma split_u16:
  fixes x :: u16
  shows "unat (ucast (drop_bit 8 x AND 0xff) :: u8) * 256 + unat (ucast (x AND 0xff) :: u8) = unat x"
proof -
  have x: "unat x < 65536" using unsigned_less [of x] by simp
  have low: "unat (ucast (x AND 0xff) :: u8) = unat x mod 256"
    using unat_and_mask [of x 8] by (simp add: unsigned_ucast_eq mask_eq_exp_minus_1 take_bit_eq_mod)
  have "unat (drop_bit 8 x AND 0xff) = unat x div 256 mod 256"
    using unat_and_mask [of "drop_bit 8 x" 8] by (simp add: mask_eq_exp_minus_1 drop_bit_eq_div unat_div)
  then have "unat (ucast (drop_bit 8 x AND 0xff) :: u8) = unat x div 256"
    using x by (simp add: unsigned_ucast_eq take_bit_eq_mod)
  then show ?thesis using low by simp
qed

lemma setCursor_shown:
  assumes "0 \<le> r" "r < 25" "0 \<le> c" "c < 80" "currentRow s = r" "currentColumn s = c"
  shows "cursor_shown (setCursor r c s)"
proof -
  let ?x = "word_of_int (r * VgaColumns + c) :: u16"
  have "uint ?x = (r * 80 + c) mod 2 ^ LENGTH(16)"
    unfolding VgaColumns_def by (rule uint_word_of_int)
  also have "\<dots> = r * 80 + c" using assms by (intro mod_pos_pos_trivial) simp_all
  finally have "int (unat ?x) = r * 80 + c" by simp
  moreover have "int (unat (ucast (drop_bit 8 ?x AND 0xff) :: u8)) * 256 + int (unat (ucast (?x AND 0xff) :: u8))
      = int (unat ?x)"
    using arg_cong [OF split_u16 [of ?x], of int] by simp
  ultimately show ?thesis
    using assms(5,6) by (simp add: cursor_shown_def setCursor_def Let_def)
qed

lemma fb_putChar_refines:
  assumes "screen_ok s"
  obtains s' where "fb_putChar ch s = Inr s'" "screen_ok s'" "same_frame s s'" "cursor_shown s'"
    "terminal_of s' = type_char (cell_of s) ch (terminal_of s)"
proof -
  obtain s1 where s1: "fb_char ch s = Inr s1" "screen_ok s1" "same_frame s s1"
      "terminal_of s1 = type_char (cell_of s) ch (terminal_of s)"
    using fb_char_refines [OF assms] by (blast elim: refinesE)
  let ?s = "setCursor (currentRow s1) (currentColumn s1) s1"
  have "cursor_shown ?s" using s1(2) by (intro setCursor_shown) (simp_all add: screen_ok_def)
  then show ?thesis
    using s1 that [of ?s] by (simp add: fb_putChar_def bindr_def setCursor_frame)
qed

text \<open>The constructor clears column after column: \<open>j\<close> cells of column \<open>i\<close> are done.\<close>

definition cleared :: "screen \<Rightarrow> nat \<Rightarrow> nat \<Rightarrow> screen \<Rightarrow> bool" where
  "cleared s0 i j s \<longleftrightarrow> mapped s = mapped s0 \<and> cell_of s = cell_of s0 \<and>
     currentRow s = currentRow s0 \<and> currentColumn s = currentColumn s0 \<and>
     (\<forall>r < 25. \<forall>c < 80. c < i \<or> c = i \<and> r < j \<longrightarrow> vram s (r * 80 + c) = cell_of s0 0x20)"

lemma clear_cell:
  assumes "cleared s0 i j s" "i < 80" "j < 25" "2055 \<le> mapped s0"
  shows "\<exists>s'. bindr (putCharUnlocked 0x20 (int j) (int i) s) (\<lambda>(r, s). Inr s) = Inr s' \<and> cleared s0 i (Suc j) s'"
proof -
  let ?s = "s\<lparr>vram := (vram s)(j * 80 + i := cell_of s 0x20)\<rparr>"
  have "nat (int j * 80 + int i) = j * 80 + i" "j * 80 + i < mapped s"
    using assms by (simp_all add: cleared_def)
  then have "putCharUnlocked 0x20 (int j) (int i) s = Inr (1, ?s)"
    using assms(2,3) by (simp add: putCharUnlocked_def VgaRows_def VgaColumns_def vram_write_def bindr_def cell_of_def)
  moreover have "cleared s0 i (Suc j) ?s"
    using assms(1) by (auto simp: cleared_def less_Suc_eq)
  ultimately show ?thesis by (simp add: bindr_def)
qed

lemma clear_column:
  assumes "cleared s0 i 0 s" "i < 80" "2055 \<le> mapped s0"
  shows "\<exists>s'. for_each [0..<nat VgaRows] (\<lambda>row s.
      bindr (putCharUnlocked 0x20 (int row) (int i) s) (\<lambda>(r, s). Inr s)) s = Inr s' \<and> cleared s0 (Suc i) 0 s'"
proof -
  have "\<exists>s'. for_each [0..<nat VgaRows] (\<lambda>row s.
      bindr (putCharUnlocked 0x20 (int row) (int i) s) (\<lambda>(r, s). Inr s)) s = Inr s' \<and> cleared s0 i (nat VgaRows) s'"
    using assms clear_cell [OF _ assms(2)]
    by (intro for_each_invariant) (simp_all add: VgaRows_def)
  moreover have "cleared s0 (Suc i) 0 s'" if "cleared s0 i (nat VgaRows) s'" for s'
    using that by (auto simp: cleared_def VgaRows_def less_Suc_eq)
  ultimately show ?thesis by blast
qed

lemma clear_all:
  assumes "2055 \<le> mapped s"
  shows "\<exists>s'. for_each [0..<nat VgaColumns] (\<lambda>column. for_each [0..<nat VgaRows] (\<lambda>row s.
      bindr (putCharUnlocked 0x20 (int row) (int column) s) (\<lambda>(r, s). Inr s))) s = Inr s' \<and>
    cleared s (nat VgaColumns) 0 s'"
proof (rule for_each_invariant)
  show "cleared s 0 0 s" by (simp add: cleared_def)
  fix i s1
  assume "i < nat VgaColumns" "cleared s i 0 s1"
  then show "\<exists>s'. for_each [0..<nat VgaRows] (\<lambda>row s.
      bindr (putCharUnlocked 0x20 (int row) (int i) s) (\<lambda>(r, s). Inr s)) s1 = Inr s' \<and> cleared s (Suc i) 0 s'"
    using assms by (intro clear_column) (simp_all add: VgaColumns_def)
qed

lemma blank_rows:
  assumes "\<And>r c. r < 25 \<Longrightarrow> c < 80 \<Longrightarrow> v (r * 80 + c) = x"
  shows "vram_rows v = replicate 25 (replicate 80 x)"
proof (rule vram_rows_eqI)
  show "length (replicate 25 (replicate 80 x)) = 25" by (rule length_replicate)
  fix i :: nat assume i: "i < 25"
  then have n: "replicate 25 (replicate 80 x) ! i = replicate 80 x" by (rule nth_replicate)
  show "length (replicate 25 (replicate 80 x) ! i) = 80" unfolding n by (rule length_replicate)
  fix j :: nat assume j: "j < 80"
  show "replicate 25 (replicate 80 x) ! i ! j = v (i * 80 + j)"
    unfolding n using assms [OF i j] nth_replicate [OF j, of x] by (simp only:)
qed

lemma vga_ctor_ok:
  assumes "2055 \<le> mapped s"
  shows "\<exists>s'. vga_ctor s = Inr s' \<and> screen_ok s' \<and> cursor_shown s' \<and>
    terminal_of s' = \<lparr>rows = replicate 25 (replicate 80 (cell_of s' 0x20)), trow = 0, tcol = 0\<rparr>"
proof -
  let ?s = "s\<lparr>backgroundColor := 1, foregroundColor := 15, currentRow := 0, currentColumn := 0\<rparr>"
  have "2055 \<le> mapped ?s" using assms by simp
  from clear_all [OF this] obtain s1 where s1: "for_each [0..<nat VgaColumns] (\<lambda>column. for_each [0..<nat VgaRows] (\<lambda>row s.
      bindr (putCharUnlocked 0x20 (int row) (int column) s) (\<lambda>(r, s). Inr s))) ?s = Inr s1"
      "cleared ?s (nat VgaColumns) 0 s1"
    by blast
  let ?r = "setCursor 0 0 s1"
  have pos: "currentRow s1 = 0" "currentColumn s1 = 0" "mapped s1 = mapped s" "cell_of s1 = cell_of ?s"
    using s1(2) by (simp_all add: cleared_def)
  have "vram_rows (vram s1) = replicate 25 (replicate 80 (cell_of s1 0x20))"
    using s1(2) pos(4) by (intro blank_rows) (simp add: cleared_def VgaColumns_def)
  moreover have "cell_of ?r = cell_of s1" using setCursor_frame(3) [of ?r 0 0 s1]
    by (simp add: setCursor_def Let_def cell_of_def asciiToVga_def fun_eq_iff)
  ultimately have "terminal_of ?r = \<lparr>rows = replicate 25 (replicate 80 (cell_of ?r 0x20)), trow = 0, tcol = 0\<rparr>"
    unfolding setCursor_frame by (simp only: terminal_of_def pos nat_0)
  moreover have "cursor_shown ?r" using pos by (intro setCursor_shown) simp_all
  moreover have "screen_ok ?r" unfolding setCursor_frame using pos assms by (simp add: screen_ok_def)
  moreover have "vga_ctor s = Inr ?r" unfolding vga_ctor_def clearScreen_def s1(1) by (simp add: bindr_def)
  ultimately show ?thesis by blast
qed

end
