(* ===== verification/C_String.thy ===== *)
theory C_String
  imports Mem_Functions "HOL-Library.Monad_Syntax"
begin

text \<open>
  The functions of CLibrary/string on NUL-terminated strings. A loop that runs up to a NUL is
  a partial function: \<open>None\<close> is a scan that never ends. \<open>char\<close> is signed on this target, which
  matters where it is compared with an \<open>int\<close>; the null pointer is 0 and \<open>malloc\<close>, which the
  duplicating functions call, is a parameter.
\<close>

section \<open>Length and copying\<close>

partial_function (option) strlen_loop :: "mem \<Rightarrow> u32 \<Rightarrow> u32 option" where
  "strlen_loop m s = (if m s \<noteq> 0 then strlen_loop m (s + 1) else Some s)"

definition strlen :: "mem \<Rightarrow> u32 \<Rightarrow> u32 option" where
  "strlen m str = do { s \<leftarrow> strlen_loop m str; Some (s - str) }"

function strnlen_loop :: "mem \<Rightarrow> u32 \<Rightarrow> u32 \<Rightarrow> u32" where
  "strnlen_loop m cp maxlen =
     (if maxlen \<noteq> 0 \<and> m cp \<noteq> 0 then strnlen_loop m (cp + 1) (maxlen - 1) else cp)"
  by pat_completeness auto
termination by (relation "measure (\<lambda>(m, cp, n). unat n)") simp_all

definition strnlen :: "mem \<Rightarrow> u32 \<Rightarrow> u32 \<Rightarrow> u32" where
  "strnlen m str maxlen = strnlen_loop m str maxlen - str"

partial_function (option) stpcpy :: "mem \<Rightarrow> u32 \<Rightarrow> u32 \<Rightarrow> (mem \<times> u32) option" where
  "stpcpy m to from =
     (let m' = m(to := m from) in
      if m from \<noteq> 0 then stpcpy m' (to + 1) (from + 1) else Some (m', to))"

definition strcpy :: "mem \<Rightarrow> u32 \<Rightarrow> u32 \<Rightarrow> (mem \<times> u32) option" where
  "strcpy m to from = do { (m, e) \<leftarrow> stpcpy m to from; Some (m, to) }"

definition strcat :: "mem \<Rightarrow> u32 \<Rightarrow> u32 \<Rightarrow> (mem \<times> u32) option" where
  "strcat m s app = do {
     e \<leftarrow> strlen_loop m s;
     (m, e) \<leftarrow> stpcpy m e app;
     Some (m, s) }"

function strlcpy_copy :: "mem \<Rightarrow> u32 \<Rightarrow> u32 \<Rightarrow> u32 \<Rightarrow> mem \<times> u32 \<times> u32 \<times> u32" where
  "strlcpy_copy m d s n =
     (let n = n - 1 in
      if n \<noteq> 0
      then
        let m' = m(d := m s)
        in if m s = 0 then (m', d + 1, s + 1, n) else strlcpy_copy m' (d + 1) (s + 1) n
      else (m, d, s, n))"
  by pat_completeness auto
termination by (relation "measure (\<lambda>(m, d, s, n). unat (n - 1))") simp_all

partial_function (option) skip_string :: "mem \<Rightarrow> u32 \<Rightarrow> u32 option" where
  "skip_string m s = (if m s \<noteq> 0 then skip_string m (s + 1) else Some (s + 1))"

definition strlcpy :: "mem \<Rightarrow> u32 \<Rightarrow> u32 \<Rightarrow> u32 \<Rightarrow> (mem \<times> u32) option" where
  "strlcpy m dst src siz =
     (let (m, d, s, n) = (if siz \<noteq> 0 then strlcpy_copy m dst src siz else (m, dst, src, siz))
      in if n = 0
         then
           let m = (if siz \<noteq> 0 then m(d := 0) else m)
           in do { s \<leftarrow> skip_string m s; Some (m, s - src - 1) }
         else Some (m, s - src - 1))"

function strlcat_end :: "mem \<Rightarrow> u32 \<Rightarrow> u32 \<Rightarrow> u32" where
  "strlcat_end m d n = (if n \<noteq> 0 \<and> m d \<noteq> 0 then strlcat_end m (d + 1) (n - 1) else d)"
  by pat_completeness auto
termination by (relation "measure (\<lambda>(m, d, n). unat n)") simp_all

partial_function (option) strlcat_copy :: "mem \<Rightarrow> u32 \<Rightarrow> u32 \<Rightarrow> u32 \<Rightarrow> (mem \<times> u32 \<times> u32) option" where
  "strlcat_copy m d s n =
     (if m s \<noteq> 0
      then if n \<noteq> 1 then strlcat_copy (m(d := m s)) (d + 1) (s + 1) (n - 1)
           else strlcat_copy m d (s + 1) n
      else Some (m, d, s))"

definition strlcat :: "mem \<Rightarrow> u32 \<Rightarrow> u32 \<Rightarrow> u32 \<Rightarrow> (mem \<times> u32) option" where
  "strlcat m dst src siz =
     (let d = strlcat_end m dst siz;
          dlen = d - dst;
          n = siz - dlen
      in if n = 0 then do { l \<leftarrow> strlen m src; Some (m, dlen + l) }
         else do {
           (m, d, s) \<leftarrow> strlcat_copy m d src n;
           let m = m(d := 0);
           Some (m, dlen + (s - src)) })"

text \<open>\<open>strncpy\<close> and \<open>stpncpy\<close> share the loop; the latter remembers where the padding starts.\<close>

function nul_pad :: "mem \<Rightarrow> u32 \<Rightarrow> u32 \<Rightarrow> mem" where
  "nul_pad m d n = (if n - 1 \<noteq> 0 then nul_pad (m(d := 0)) (d + 1) (n - 1) else m)"
  by pat_completeness auto
termination by (relation "measure (\<lambda>(m, d, n). unat (n - 1))") simp_all

function stpncpy_loop :: "mem \<Rightarrow> u32 \<Rightarrow> u32 \<Rightarrow> u32 \<Rightarrow> u32 \<Rightarrow> mem \<times> u32" where
  "stpncpy_loop m dst d s n =
     (let m' = m(d := m s) in
      if m s = 0 then (nul_pad m' (d + 1) n, d)
      else if n - 1 \<noteq> 0 then stpncpy_loop m' dst (d + 1) (s + 1) (n - 1)
      else (m', dst))"
  by pat_completeness auto
termination by (relation "measure (\<lambda>(m, dst, d, s, n). unat (n - 1))") simp_all

definition stpncpy :: "mem \<Rightarrow> u32 \<Rightarrow> u32 \<Rightarrow> u32 \<Rightarrow> mem \<times> u32" where
  "stpncpy m dst src n = (if n \<noteq> 0 then stpncpy_loop m (dst + n) dst src n else (m, dst))"

definition strncpy :: "mem \<Rightarrow> u32 \<Rightarrow> u32 \<Rightarrow> u32 \<Rightarrow> mem \<times> u32" where
  "strncpy m dst src n = (if n \<noteq> 0 then (fst (stpncpy_loop m (dst + n) dst src n), dst) else (m, dst))"

function strncat_loop :: "mem \<Rightarrow> u32 \<Rightarrow> u32 \<Rightarrow> u32 \<Rightarrow> mem \<times> u32" where
  "strncat_loop m d s n =
     (let m' = m(d := m s) in
      if m s = 0 then (m', d)
      else if n - 1 \<noteq> 0 then strncat_loop m' (d + 1) (s + 1) (n - 1)
      else (m', d + 1))"
  by pat_completeness auto
termination by (relation "measure (\<lambda>(m, d, s, n). unat (n - 1))") simp_all

definition strncat :: "mem \<Rightarrow> u32 \<Rightarrow> u32 \<Rightarrow> u32 \<Rightarrow> (mem \<times> u32) option" where
  "strncat m dst src n =
     (if n \<noteq> 0
      then do {
        d \<leftarrow> strlen_loop m dst;
        let (m, d) = strncat_loop m d src n;
        Some (m(d := 0), dst) }
      else Some (m, dst))"

definition strxfrm :: "mem \<Rightarrow> u32 \<Rightarrow> u32 \<Rightarrow> u32 \<Rightarrow> (mem \<times> u32) option" where
  "strxfrm m dst src n =
     (if n = 0 then do { l \<leftarrow> strlen m src; Some (m, l) } else strlcpy m dst src n)"

declare strnlen_loop.simps [simp del] strlcpy_copy.simps [simp del] strlcat_end.simps [simp del]
  nul_pad.simps [simp del] stpncpy_loop.simps [simp del] strncat_loop.simps [simp del]

section \<open>Strings in memory\<close>

fun cstr :: "mem \<Rightarrow> u32 \<Rightarrow> u8 list \<Rightarrow> bool" where
  "cstr m p [] \<longleftrightarrow> m p = 0"
| "cstr m p (c # cs) \<longleftrightarrow> m p = c \<and> c \<noteq> 0 \<and> cstr m (p + 1) cs"

lemma cstr_iff:
  "cstr m p xs \<longleftrightarrow> bytes m p (length xs) = xs \<and> m (p + of_nat (length xs)) = 0 \<and> 0 \<notin> set xs"
  by (induction xs arbitrary: p) (auto simp: algebra_simps)

lemma cstr_length:
  assumes "cstr m p xs"
  shows "length xs < 2 ^ 32"
proof (rule ccontr)
  assume "\<not> length xs < 2 ^ 32"
  then have len: "2 ^ 32 \<le> length xs" by simp
  then have i: "length xs - 2 ^ 32 < length xs" by (cases xs) simp_all
  have "(of_nat (length xs - 2 ^ 32) :: u32) = of_nat (length xs)"
    using len by (simp only: word_unat_eq_iff unat_of_nat) (simp add: mod_if [of "length xs"])
  then have "m (p + of_nat (length xs - 2 ^ 32)) = 0" using assms by (simp add: cstr_iff)
  moreover have "xs ! (length xs - 2 ^ 32) = m (p + of_nat (length xs - 2 ^ 32))"
    using assms nth_bytes [OF i, of m p] by (simp add: cstr_iff)
  ultimately show False using i assms by (metis cstr_iff nth_mem)
qed

lemma cstr_nth: "cstr m p xs \<Longrightarrow> i < length xs \<Longrightarrow> m (p + of_nat i) = xs ! i"
  using nth_bytes [of i "length xs" m p] by (simp add: cstr_iff)

lemma cstr_drop: "cstr m p xs \<Longrightarrow> k \<le> length xs \<Longrightarrow> cstr m (p + of_nat k) (drop k xs)"
proof (induction k arbitrary: p xs)
  case (Suc k)
  then obtain y ys where "xs = y # ys" by (cases xs) auto
  then show ?case using Suc.IH [of "p + 1" ys] Suc.prems by (simp add: add.assoc)
qed simp

lemma cstr_cong:
  "(\<And>i. i \<le> length xs \<Longrightarrow> m' (p + of_nat i) = m (p + of_nat i)) \<Longrightarrow> cstr m' p xs = cstr m p xs"
  using bytes_cong [of "length xs" m' p m p] by (simp add: cstr_iff)

lemma cstr_upd:
  "(\<And>i. i < Suc (length xs) \<Longrightarrow> d \<noteq> p + of_nat i) \<Longrightarrow> cstr (m(d := b)) p xs = cstr m p xs"
  by (rule cstr_cong) (metis fun_upd_apply less_Suc_eq_le)

lemma cstr_stored_off:
  assumes "disjoint d (length ys) p (Suc (length xs))" "length ys \<le> 2 ^ 32"
  shows "cstr (stored m d ys) p xs = cstr m p xs"
proof (rule cstr_cong)
  fix i assume i: "i \<le> length xs"
  have "\<not> in_range d (length ys) (p + of_nat i)"
  proof
    assume "in_range d (length ys) (p + of_nat i)"
    then have "unat (p + of_nat i - d) < length ys" by (simp add: in_range_def)
    from disjointD [OF assms(1) this, of i] i show False by simp
  qed
  then show "stored m d ys (p + of_nat i) = m (p + of_nat i)" by (rule stored_outside)
qed

lemma cstr_stored:
  assumes "0 \<notin> set xs" "length xs < 2 ^ 32"
  shows "cstr (stored m p (xs @ [0])) p xs"
proof -
  have "bytes (stored m p (xs @ [0])) p (length xs) = xs"
    using assms(2) by (intro nth_equalityI) (simp_all add: stored_nth [of _ "xs @ [0]"] nth_append)
  moreover have "stored m p (xs @ [0]) (p + of_nat (length xs)) = 0"
    using assms(2) by (simp add: stored_nth [of "length xs" "xs @ [0]"])
  ultimately show ?thesis using assms(1) by (simp add: cstr_iff)
qed

text \<open>Storing at the end of a string appends to it.\<close>

lemma cstr_append:
  assumes "cstr m p ys" "0 \<notin> set xs" "length ys + length xs < 2 ^ 32"
  shows "cstr (stored m (p + of_nat (length ys)) (xs @ [0])) p (ys @ xs)"
  using assms
proof (induction ys arbitrary: p)
  case (Cons y ys)
  have "cstr (stored m (p + 1 + of_nat (length ys)) (xs @ [0])) (p + 1) (ys @ xs)"
    using Cons by simp
  moreover have "\<not> in_range (p + of_nat (Suc (length ys))) (length (xs @ [0])) p"
  proof
    assume "in_range (p + of_nat (Suc (length ys))) (length (xs @ [0])) p"
    moreover have "unat (p - (p + of_nat (Suc (length ys)))) = 2 ^ 32 - Suc (length ys)"
      using unat_diff_shift [of "Suc (length ys)" 0] Cons.prems(3) by simp
    ultimately show False using Cons.prems(3) by (simp add: in_range_def)
  qed
  ultimately show ?case using Cons.prems(1) by (simp add: stored_outside add.assoc)
qed (simp add: cstr_stored)

section \<open>Length and copying: the results\<close>

lemma strlen_loop_eq: "cstr m p xs \<Longrightarrow> strlen_loop m p = Some (p + of_nat (length xs))"
  by (induction xs arbitrary: p; subst strlen_loop.simps) (auto simp: algebra_simps)

lemma strlen_eq: "cstr m p xs \<Longrightarrow> strlen m p = Some (of_nat (length xs))"
  by (simp add: strlen_def strlen_loop_eq)

lemma skip_string_eq: "cstr m p xs \<Longrightarrow> skip_string m p = Some (p + of_nat (Suc (length xs)))"
  by (induction xs arbitrary: p; subst skip_string.simps) (auto simp: algebra_simps)

lemma strnlen_loop_eq:
  "cstr m p xs \<Longrightarrow> strnlen_loop m p n = p + of_nat (min (unat n) (length xs))"
proof (induction xs arbitrary: p n)
  case (Cons x xs)
  then show ?case
    by (cases "n = 0"; subst strnlen_loop.simps) (simp_all add: unat_minus_one_word [of n] add.assoc)
qed (subst strnlen_loop.simps, simp)

lemma stpcpy_eq:
  "cstr m s xs \<Longrightarrow> disjoint d (Suc (length xs)) s (Suc (length xs)) \<Longrightarrow>
    stpcpy m d s = Some (stored m d (xs @ [0]), d + of_nat (length xs))"
proof (induction xs arbitrary: m d s)
  case Nil
  then show ?case by (subst stpcpy.simps) (simp add: stored_single)
next
  case (Cons x xs)
  note off = disjoint_Suc [OF Cons.prems(2) [simplified]]
  have "cstr (m(d := x)) (s + 1) xs = cstr m (s + 1) xs"
    using off(3) [of "Suc _"] by (intro cstr_upd) (simp add: add.assoc)
  then have "stpcpy (m(d := x)) (d + 1) (s + 1) =
      Some (stored (m(d := x)) (d + 1) (xs @ [0]), d + 1 + of_nat (length xs))"
    using Cons off(1) by (intro Cons.IH) (simp_all del: fun_upd_apply)
  moreover have "stored (m(d := x)) (d + 1) (xs @ [0]) = stored m d (x # xs @ [0])"
    using cstr_length [OF Cons.prems(1)] by (intro stored_Cons) simp
  ultimately show ?case
    using Cons.prems(1) by (subst stpcpy.simps) (simp add: Let_def add.assoc)
qed

text \<open>One byte copied: what the induction steps of the copying loops share.\<close>

lemma copy_step:
  assumes "cstr m s (x # xs)" "disjoint d (Suc n) s (Suc (length (x # xs)))"
  shows "cstr (m(d := x)) (s + 1) xs" "disjoint (d + 1) n (s + 1) (Suc (length xs))"
proof -
  note off = disjoint_Suc [OF assms(2) [simplified]]
  have "cstr (m(d := x)) (s + 1) xs = cstr m (s + 1) xs"
    using off(3) [of "Suc _"] by (intro cstr_upd) (simp add: add.assoc)
  then show "cstr (m(d := x)) (s + 1) xs" using assms(1) by simp
  show "disjoint (d + 1) n (s + 1) (Suc (length xs))" by (rule off(1))
qed

lemma strlcpy_copy_eq:
  "n \<noteq> 0 \<Longrightarrow> cstr m s xs \<Longrightarrow> disjoint d (unat n) s (Suc (length xs)) \<Longrightarrow> strlcpy_copy m d s n =
    (if Suc (length xs) < unat n
     then (stored m d (xs @ [0]), d + of_nat (Suc (length xs)), s + of_nat (Suc (length xs)),
       n - of_nat (Suc (length xs)))
     else (stored m d (take (unat n - 1) xs), d + (n - 1), s + (n - 1), 0))"
proof (induction xs arbitrary: m d s n)
  case Nil
  then show ?case
    using unat_minus_one_word [OF Nil.prems(1)]
    by (subst strlcpy_copy.simps) (auto simp: Let_def stored_single unat_eq_0)
next
  case (Cons x xs)
  let ?k = "unat (n - 1)"
  have u: "unat n = Suc ?k" using Cons.prems(1) by (rule unat_minus_one_word)
  note c = copy_step [OF Cons.prems(2), of d ?k]
  have l: "length xs < 2 ^ 32" "length (xs @ [0]) < 2 ^ 32"
    using cstr_length [OF Cons.prems(2)] by simp_all
  show ?case
  proof (cases "n - 1 = 0")
    case True
    then show ?thesis using u by (subst strlcpy_copy.simps) (simp add: Let_def)
  next
    case False
    have d: "disjoint d (Suc ?k) s (Suc (length (x # xs)))" using Cons.prems(3) u by simp
    note IH = Cons.IH [OF False c(1,2) [OF d]]
    have k: "Suc (?k - 1) = ?k" using False by (simp add: unat_minus_one_word [OF False])
    have t: "take (unat n - 1) (x # xs) = x # take (?k - 1) xs"
      using k u by (cases ?k) simp_all
    have st: "stored (m(d := x)) (1 + d) ys = stored m d (x # ys)" if "length ys < 2 ^ 32" for ys
      using stored_Cons [OF that, of m d x] by (simp only: add.commute)
    have "m s = x" "x \<noteq> 0" using Cons.prems(2) by simp_all
    then have "strlcpy_copy m d s n = strlcpy_copy (m(d := x)) (d + 1) (s + 1) (n - 1)"
      using False by (subst strlcpy_copy.simps) (simp add: Let_def)
    also have "\<dots> = (if Suc (length (x # xs)) < unat n
       then (stored m d ((x # xs) @ [0]), d + of_nat (Suc (length (x # xs))),
         s + of_nat (Suc (length (x # xs))), n - of_nat (Suc (length (x # xs))))
       else (stored m d (take (unat n - 1) (x # xs)), d + (n - 1), s + (n - 1), 0))"
      unfolding IH t using l u by (simp add: st algebra_simps del: fun_upd_apply)
    finally show ?thesis .
  qed
qed

lemma strlcpy_eq:
  assumes "cstr m src xs" "disjoint dst (unat siz) src (Suc (length xs))"
  shows "strlcpy m dst src siz = Some (if siz = 0 then m
    else stored m dst (take (unat siz - 1) xs @ [0]), of_nat (length xs))"
proof (cases "siz = 0")
  case True
  then show ?thesis using assms by (simp add: strlcpy_def skip_string_eq)
next
  case False
  note c = strlcpy_copy_eq [OF False assms]
  show ?thesis
  proof (cases "Suc (length xs) < unat siz")
    case True
    then have "unat (of_nat (Suc (length xs)) :: u32) < unat siz"
      using cstr_length [OF assms(1)] unat_u32_less [of siz] by (simp add: unat_of_nat del: of_nat_Suc)
    then have "siz - of_nat (Suc (length xs)) \<noteq> 0" by auto
    then show ?thesis using c False True by (simp add: strlcpy_def Let_def)
  next
    case False
    let ?k = "unat (siz - 1)"
    have u: "unat siz = Suc ?k" using \<open>siz \<noteq> 0\<close> by (rule unat_minus_one_word)
    have k: "?k \<le> length xs" using False u by simp
    have lim: "length (take ?k xs) = ?k" "?k < 2 ^ 32" using k unat_u32_less [of "siz - 1"] by simp_all
    have z: "(stored m dst (take ?k xs))(dst + (siz - 1) := 0) = stored m dst (take ?k xs @ [0])"
      using stored_snoc [of "take ?k xs" m dst 0] lim by simp
    have "disjoint dst (length (take ?k xs @ [0])) src (Suc (length xs))"
      using assms(2) u lim(1) by simp
    then have s: "cstr (stored m dst (take ?k xs @ [0])) src xs"
      using assms(1) cstr_stored_off lim by simp
    from skip_string_eq [OF cstr_drop [OF s k]] show ?thesis
      using c \<open>siz \<noteq> 0\<close> False u z k by (simp add: strlcpy_def Let_def algebra_simps)
  qed
qed

lemma strlcat_end_eq:
  "cstr m p xs \<Longrightarrow> strlcat_end m p n = p + of_nat (min (unat n) (length xs))"
proof (induction xs arbitrary: p n)
  case (Cons x xs)
  then show ?case
    by (cases "n = 0"; subst strlcat_end.simps) (simp_all add: unat_minus_one_word [of n] add.assoc)
qed (subst strlcat_end.simps, simp)

lemma strlcat_copy_eq:
  "n \<noteq> 0 \<Longrightarrow> cstr m s xs \<Longrightarrow> disjoint d (unat n) s (Suc (length xs)) \<Longrightarrow> strlcat_copy m d s n =
    Some (stored m d (take (unat n - 1) xs), d + of_nat (min (unat n - 1) (length xs)),
      s + of_nat (length xs))"
proof (induction xs arbitrary: m d s n)
  case Nil
  then show ?case by (subst strlcat_copy.simps) simp
next
  case (Cons x xs)
  let ?k = "unat (n - 1)"
  have u: "unat n = Suc ?k" using Cons.prems(1) by (rule unat_minus_one_word)
  have d: "disjoint d (Suc ?k) s (Suc (length (x # xs)))" using Cons.prems(3) u by simp
  have x: "m s = x" "x \<noteq> 0" using Cons.prems(2) by simp_all
  show ?case
  proof (cases "n = 1")
    case True
    have "disjoint d 1 (s + 1) (Suc (length xs))"
      using disjoint_Suc(2) [OF d [simplified]] by (rule disjoint_mono) simp_all
    then have "strlcat_copy m d (s + 1) n = Some (m, d, s + 1 + of_nat (length xs))"
      using Cons.IH [of n m "s + 1" d] Cons.prems True by simp
    then show ?thesis using x True by (subst strlcat_copy.simps) (simp add: add.assoc)
  next
    case False
    then have n1: "n - 1 \<noteq> 0" by simp
    note IH = Cons.IH [OF n1 copy_step [OF Cons.prems(2) d]]
    have k: "?k = Suc (?k - 1)" using n1 by (simp add: unat_minus_one_word [OF n1])
    have "length (take (?k - 1) xs) < 2 ^ 32" using unat_u32_less [of "n - 1"] by simp
    then have "stored (m(d := x)) (d + 1) (take (?k - 1) xs) = stored m d (take (unat n - 1) (x # xs))"
      using u k by (subst stored_Cons) (simp_all add: take_Cons')
    moreover have "min ?k (Suc (length xs)) = Suc (min (?k - 1) (length xs))" using k by simp
    ultimately show ?thesis
      using x False IH u by (subst strlcat_copy.simps) (simp add: add.assoc del: fun_upd_apply)
  qed
qed

lemma strlcat_eq:
  assumes "cstr m dst ys" "cstr m src xs" "disjoint dst (unat siz) src (Suc (length xs))"
  defines "r \<equiv> unat siz - length ys"
  shows "strlcat m dst src siz = Some (if r = 0 then m
      else stored m (dst + of_nat (length ys)) (take (r - 1) xs @ [0]),
    of_nat (min (unat siz) (length ys) + length xs))"
proof (cases "r = 0")
  case True
  then have "min (unat siz) (length ys) = unat siz" by (simp add: r_def)
  then show ?thesis
    using True assms(1,2) by (simp add: strlcat_def Let_def strlcat_end_eq strlen_eq)
next
  case False
  then have le: "length ys < unat siz" by (simp add: r_def)
  then have y: "unat (of_nat (length ys) :: u32) = length ys"
    using unat_u32_less [of siz] by (simp add: unat_of_nat)
  let ?d = "dst + of_nat (length ys)" and ?n = "siz - of_nat (length ys)"
  have n: "unat ?n = r" using le y by (simp add: unat_sub word_le_nat_alt r_def)
  have "unat siz = length ys + r" using le by (simp add: r_def)
  then have "disjoint ?d (unat ?n) src (Suc (length xs))"
    using assms(3) n disjoint_shift by simp
  moreover have "?n \<noteq> 0" using n False by auto
  ultimately have c: "strlcat_copy m ?d src ?n =
      Some (stored m ?d (take (r - 1) xs), ?d + of_nat (length (take (r - 1) xs)), src + of_nat (length xs))"
    using strlcat_copy_eq [OF _ assms(2)] n by (simp add: min.commute)
  have "length (take (r - 1) xs) < 2 ^ 32" using unat_u32_less [of ?n] n by simp
  note z = stored_snoc [OF this]
  show ?thesis
    using c z \<open>?n \<noteq> 0\<close> False le strlcat_end_eq [OF assms(1), of siz]
    by (simp add: strlcat_def Let_def)
qed

lemma nul_pad_eq: "n \<noteq> 0 \<Longrightarrow> nul_pad m d n = stored m d (replicate (unat n - 1) 0)"
proof (induction m d n rule: nul_pad.induct)
  case (1 m d n)
  show ?case
  proof (cases "n - 1 = 0")
    case False
    have u: "unat n = Suc (unat (n - 1))" "unat (n - 1) = Suc (unat (n - 1) - 1)"
      using "1.prems" False by (simp_all add: unat_minus_one_word [of n] unat_minus_one_word [of "n - 1"])
    have "stored (m(d := 0)) (d + 1) (replicate (unat (n - 1) - 1) 0) = stored m d (replicate (unat (n - 1)) 0)"
      using unat_u32_less [of "n - 1"] u(2) by (subst stored_Cons) (simp_all flip: replicate_Suc)
    then show ?thesis
      using 1 False u(1) by (subst nul_pad.simps) (simp del: fun_upd_apply)
  qed (subst nul_pad.simps, simp add: unat_minus_one_word [OF "1.prems"])
qed

text \<open>What \<open>strncpy\<close> leaves in the destination: the string, padded or cut to \<open>n\<close> bytes.\<close>

definition padded :: "nat \<Rightarrow> u8 list \<Rightarrow> u8 list" where
  "padded n xs = take n xs @ replicate (n - length xs) 0"

lemma length_padded [simp]: "length (padded n xs) = n"
  by (simp add: padded_def)

lemma padded_Cons [simp]: "padded (Suc n) (x # xs) = x # padded n xs"
  by (simp add: padded_def)

lemma stpncpy_loop_eq:
  "n \<noteq> 0 \<Longrightarrow> cstr m s xs \<Longrightarrow> disjoint d (unat n) s (Suc (length xs)) \<Longrightarrow> stpncpy_loop m e d s n =
    (stored m d (padded (unat n) xs), if length xs < unat n then d + of_nat (length xs) else e)"
proof (induction xs arbitrary: m d s n)
  case Nil
  have u: "unat n = Suc (unat (n - 1))" using Nil.prems(1) by (rule unat_minus_one_word)
  have "nul_pad (m(d := 0)) (d + 1) n = stored (m(d := 0)) (d + 1) (replicate (unat (n - 1)) 0)"
    using nul_pad_eq [OF Nil.prems(1)] u by simp
  also have "\<dots> = stored m d (0 # replicate (unat (n - 1)) 0)"
    using unat_u32_less [of "n - 1"] by (intro stored_Cons) simp
  finally show ?case
    using Nil u by (subst stpncpy_loop.simps) (simp add: Let_def padded_def del: fun_upd_apply)
next
  case (Cons x xs)
  let ?k = "unat (n - 1)"
  have u: "unat n = Suc ?k" using Cons.prems(1) by (rule unat_minus_one_word)
  have d: "disjoint d (Suc ?k) s (Suc (length (x # xs)))" using Cons.prems(3) u by simp
  have x: "m s = x" "x \<noteq> 0" using Cons.prems(2) by simp_all
  show ?case
  proof (cases "n - 1 = 0")
    case True
    then show ?thesis
      using x u by (subst stpncpy_loop.simps) (simp add: Let_def padded_def stored_single)
  next
    case False
    have "stored (m(d := x)) (d + 1) (padded ?k xs) = stored m d (padded (unat n) (x # xs))"
      using unat_u32_less [of "n - 1"] u by (subst stored_Cons) simp_all
    then show ?thesis
      using Cons.IH [OF False copy_step [OF Cons.prems(2) d]] x False u
      by (subst stpncpy_loop.simps) (simp add: Let_def add.assoc del: fun_upd_apply)
  qed
qed

lemma strncat_loop_eq:
  "n \<noteq> 0 \<Longrightarrow> cstr m s xs \<Longrightarrow> disjoint d (unat n) s (Suc (length xs)) \<Longrightarrow> strncat_loop m d s n =
    (if length xs < unat n then (stored m d (xs @ [0]), d + of_nat (length xs))
     else (stored m d (take (unat n) xs), d + n))"
proof (induction xs arbitrary: m d s n)
  case Nil
  then show ?case
    by (subst strncat_loop.simps) (simp add: Let_def stored_single unat_gt_0)
next
  case (Cons x xs)
  let ?k = "unat (n - 1)"
  have u: "unat n = Suc ?k" using Cons.prems(1) by (rule unat_minus_one_word)
  have d: "disjoint d (Suc ?k) s (Suc (length (x # xs)))" using Cons.prems(3) u by simp
  have x: "m s = x" "x \<noteq> 0" using Cons.prems(2) by simp_all
  show ?case
  proof (cases "n - 1 = 0")
    case True
    then show ?thesis
      using x u by (subst strncat_loop.simps) (simp add: Let_def stored_single)
  next
    case False
    have l: "length (xs @ [0]) < 2 ^ 32" "length (take ?k xs) < 2 ^ 32"
      using cstr_length [OF Cons.prems(2)] unat_u32_less [of "n - 1"] by simp_all
    show ?thesis
      using Cons.IH [OF False copy_step [OF Cons.prems(2) d]] x False u l
      by (subst strncat_loop.simps) (simp add: Let_def add.assoc stored_Cons del: fun_upd_apply)
  qed
qed

lemma strncat_eq:
  assumes "cstr m dst ys" "cstr m src xs" "n \<noteq> 0"
    and "disjoint (dst + of_nat (length ys)) (unat n) src (Suc (length xs))"
  shows "strncat m dst src n =
    Some (stored m (dst + of_nat (length ys)) (take (unat n) xs @ [0]), dst)"
proof -
  let ?d = "dst + of_nat (length ys)"
  have "(stored m ?d (xs @ [0]))(?d + of_nat (length xs) := 0) = stored m ?d (xs @ [0])"
  proof -
    have "stored m ?d (xs @ [0]) (?d + of_nat (length xs)) = 0"
      using cstr_length [OF assms(2)] by (simp add: stored_nth [of "length xs" "xs @ [0]"])
    then show ?thesis by (metis fun_upd_triv)
  qed
  moreover have "(stored m ?d (take (unat n) xs))(?d + n := 0) = stored m ?d (take (unat n) xs @ [0])"
    if "\<not> length xs < unat n"
  proof -
    have "length (take (unat n) xs) = unat n" using that by simp
    then show ?thesis using stored_snoc [of "take (unat n) xs" m ?d 0] unat_u32_less [of n] by simp
  qed
  ultimately show ?thesis
    using strncat_loop_eq [OF assms(3,2,4)] strlen_loop_eq [OF assms(1)] assms(3)
    by (simp add: strncat_def)
qed

section \<open>Properties\<close>

text \<open>A memory with two strings, for the concrete instances.\<close>

definition sample_mem :: mem where
  "sample_mem = stored (stored (\<lambda>a. 0) 0x1000 [0x68, 0x65, 0x6c, 0x6c, 0x6f, 0]) 0x2000 [0x79, 0x6f, 0]"

lemma sample_strings:
  "cstr sample_mem 0x1000 [0x68, 0x65, 0x6c, 0x6c, 0x6f]" "cstr sample_mem 0x2000 [0x79, 0x6f]"
  by (simp_all add: sample_mem_def stored_def in_range_def)

text \<open>
  C34. \<open>strlcpy\<close> and \<open>strlcat\<close> keep their contracts: nothing outside the \<open>siz\<close> bytes of the
  destination is written, the result is NUL-terminated and holds as much of the source as
  fits (after the old contents for \<open>strlcat\<close>), and the return value is the length the full
  result would have had, \<open>strlen(src)\<close> and \<open>MIN(siz, strlen(initial dst)) + strlen(src)\<close>,
  so truncation is detectable. Both return for every pair of strings that do not overlap.
\<close>

theorem strlcpy_strlcat_contract:
  assumes "cstr m src xs" "cstr m dst ys" "disjoint dst (unat siz) src (Suc (length xs))"
  shows "(\<exists>m'. strlcpy m dst src siz = Some (m', of_nat (length xs)) \<and>
      (siz = 0 \<or> cstr m' dst (take (unat siz - 1) xs)) \<and>
      (\<forall>a. in_range dst (unat siz) a \<or> m' a = m a)) \<and>
    (\<exists>m'. strlcat m dst src siz = Some (m', of_nat (min (unat siz) (length ys) + length xs)) \<and>
      (unat siz \<le> length ys \<or> cstr m' dst (ys @ take (unat siz - length ys - 1) xs)) \<and>
      (\<forall>a. in_range dst (unat siz) a \<or> m' a = m a))"
proof (intro conjI)
  let ?t = "take (unat siz - 1) xs"
  let ?m = "if siz = 0 then m else stored m dst (?t @ [0])"
  have lim: "length xs < 2 ^ 32" "unat siz < 2 ^ 32" using cstr_length [OF assms(1)] unat_u32_less by auto
  have nz: "0 \<notin> set xs" using assms(1) by (simp add: cstr_iff)
  have "cstr ?m dst ?t" if "siz \<noteq> 0"
    using that lim nz set_take_subset [of "unat siz - 1" xs] by (auto intro: cstr_stored)
  moreover have "in_range dst (unat siz) a \<or> ?m a = m a" for a
  proof (cases "siz = 0")
    case False
    then have "length (?t @ [0]) \<le> unat siz" by (simp add: unat_minus_one_word [OF False])
    then show ?thesis using stored_outside [of dst "?t @ [0]" a m] False in_range_mono by auto
  qed simp
  ultimately show "\<exists>m'. strlcpy m dst src siz = Some (m', of_nat (length xs)) \<and>
      (siz = 0 \<or> cstr m' dst ?t) \<and> (\<forall>a. in_range dst (unat siz) a \<or> m' a = m a)"
    using strlcpy_eq [OF assms(1,3)] by (intro exI [of _ ?m]) blast
next
  define r where "r = unat siz - length ys"
  let ?t = "take (r - 1) xs" and ?d = "dst + of_nat (length ys)"
  let ?m = "if r = 0 then m else stored m ?d (?t @ [0])"
  have lim: "unat siz < 2 ^ 32" using unat_u32_less by auto
  have nz: "0 \<notin> set ?t" using assms(1) set_take_subset [of "r - 1" xs] by (auto simp: cstr_iff)
  have len: "length ys + length ?t < unat siz" "length ys + length (?t @ [0]) \<le> unat siz" if "r \<noteq> 0"
    using that by (auto simp: r_def)
  have "cstr ?m dst (ys @ ?t)" if "r \<noteq> 0"
    using cstr_append [OF assms(2) nz] len(1) [OF that] lim that by simp
  then have "unat siz \<le> length ys \<or> cstr ?m dst (ys @ take (unat siz - length ys - 1) xs)"
    by (cases "r = 0") (simp_all add: r_def)
  moreover have "in_range dst (unat siz) a \<or> ?m a = m a" for a
  proof (cases "r = 0")
    case False
    then have "in_range dst (length ys + length (?t @ [0])) a" if "in_range ?d (length (?t @ [0])) a"
      using that len(2) lim in_range_add [of "length ys" "length (?t @ [0])" dst a] by auto
    then show ?thesis using stored_outside [of ?d "?t @ [0]" a m] len(2) False in_range_mono by auto
  qed simp
  ultimately show "\<exists>m'. strlcat m dst src siz = Some (m', of_nat (min (unat siz) (length ys) + length xs)) \<and>
      (unat siz \<le> length ys \<or> cstr m' dst (ys @ take (unat siz - length ys - 1) xs)) \<and>
      (\<forall>a. in_range dst (unat siz) a \<or> m' a = m a)"
    using strlcat_eq [OF assms(2,1,3)] unfolding r_def by blast
qed

theorem strlcpy_strlcat_contract_witness:
  "\<exists>m'. strlcpy sample_mem 0x2000 0x1000 4 = Some (m', 5) \<and> cstr m' 0x2000 [0x68, 0x65, 0x6c]"
proof -
  have "disjoint 0x2000 (unat (4 :: u32)) 0x1000 (Suc (length [0x68 :: u8, 0x65, 0x6c, 0x6c, 0x6f]))"
    by (rule disjoint_nowrap) simp_all
  from strlcpy_strlcat_contract [OF sample_strings this] show ?thesis by auto
qed

text \<open>
  The unbounded and counted copies: for strings that do not overlap the destination,
  \<open>strcpy\<close> and \<open>stpcpy\<close> store exactly the string with its NUL and return the destination and
  the address of the NUL; \<open>strcat\<close> and \<open>strncat\<close> append the string or its first \<open>n\<close> bytes and
  a NUL; \<open>strncpy\<close> and \<open>stpncpy\<close> store exactly \<open>n\<close> bytes, the string padded with NULs or cut,
  and return the destination and the address of the first pad byte; \<open>strlen\<close> and \<open>strnlen\<close> are
  the length and the length cut at the bound.
\<close>

theorem string_copies:
  assumes "cstr m src xs" "cstr m dst ys" "n \<noteq> 0"
    and "disjoint dst (Suc (length xs)) src (Suc (length xs))" "disjoint dst (unat n) src (Suc (length xs))"
    and "disjoint (dst + of_nat (length ys)) (Suc (length xs)) src (Suc (length xs))"
    and "disjoint (dst + of_nat (length ys)) (unat n) src (Suc (length xs))"
  shows "strlen m src = Some (of_nat (length xs)) \<and>
    strnlen m src n = of_nat (min (unat n) (length xs)) \<and>
    strcpy m dst src = Some (stored m dst (xs @ [0]), dst) \<and>
    stpcpy m dst src = Some (stored m dst (xs @ [0]), dst + of_nat (length xs)) \<and>
    strcat m dst src = Some (stored m (dst + of_nat (length ys)) (xs @ [0]), dst) \<and>
    strncat m dst src n = Some (stored m (dst + of_nat (length ys)) (take (unat n) xs @ [0]), dst) \<and>
    strncpy m dst src n = (stored m dst (padded (unat n) xs), dst) \<and>
    stpncpy m dst src n = (stored m dst (padded (unat n) xs), dst + of_nat (min (unat n) (length xs)))"
  using assms
  by (simp add: strlen_eq strnlen_def strnlen_loop_eq strcpy_def stpcpy_eq strcat_def strlen_loop_eq
    strncat_eq strncpy_def stpncpy_def stpncpy_loop_eq)

theorem string_copies_witness:
  "strcpy sample_mem 0x2000 0x1000 =
     Some (stored sample_mem 0x2000 [0x68, 0x65, 0x6c, 0x6c, 0x6f, 0], 0x2000) \<and>
   stpncpy sample_mem 0x2000 0x1000 8 =
     (stored sample_mem 0x2000 [0x68, 0x65, 0x6c, 0x6c, 0x6f, 0, 0, 0], 0x2005)"
proof -
  let ?n = "length [0x68 :: u8, 0x65, 0x6c, 0x6c, 0x6f]" and ?d = "0x2000 + of_nat (length [0x79 :: u8, 0x6f])"
  have "disjoint 0x2000 (Suc ?n) 0x1000 (Suc ?n)" "disjoint 0x2000 (unat (8 :: u32)) 0x1000 (Suc ?n)"
    "disjoint ?d (Suc ?n) 0x1000 (Suc ?n)" "disjoint ?d (unat (8 :: u32)) 0x1000 (Suc ?n)"
    by (rule disjoint_nowrap, simp_all)+
  from string_copies [OF sample_strings _ this] show ?thesis
    by (simp add: padded_def numeral_3_eq_3)
qed

end
