(* ===== verification/Printf.thy ===== *)
theory Printf
  imports C_String
begin

text \<open>
  Formatted output (CLibrary/printf.c): \<open>kprintf\<close> with its scan of a conversion, its conversion of
  numbers in a buffer of 23 bytes and its layout of a field, and the functions \<open>printf\<close>, \<open>vprintf\<close>,
  \<open>snprintf\<close> and \<open>vsnprintf\<close> around it.

  The format is the list of its characters, up to the terminating NUL or with it. The variable
  arguments are the 32-bit slots of the i386 stack; a \<open>quad_t\<close> takes two. Strings are read from the
  flat memory, where \<open>%n\<close> stores as well. The output buffer is an object of its own: C leaves it
  undefined when it overlaps the format or an argument. \<open>None\<close> stands for what C leaves undefined: an
  \<open>int\<close> that overflows, a missing argument, an access outside of an object, a string without end.
\<close>

section \<open>Integers, arguments and flags\<close>

definition cint :: "int \<Rightarrow> int option" where
  "cint i = (if - (2 ^ 31) \<le> i \<and> i < 2 ^ 31 then Some i else None)"

definition to_digit :: "u8 \<Rightarrow> int" where
  "to_digit c = sint c - 48"

definition is_digit :: "u8 \<Rightarrow> bool" where
  "is_digit c \<longleftrightarrow> (word_of_int (to_digit c) :: u32) \<le> 9"

definition to_char :: "u64 \<Rightarrow> u8" where
  "to_char n = ucast (n + 0x30)"

definition hexdigits :: "u8 list" where
  "hexdigits = [0x30, 0x31, 0x32, 0x33, 0x34, 0x35, 0x36, 0x37, 0x38, 0x39,
     0x61, 0x62, 0x63, 0x64, 0x65, 0x66]"

definition HEXDIGITS :: "u8 list" where
  "HEXDIGITS = [0x30, 0x31, 0x32, 0x33, 0x34, 0x35, 0x36, 0x37, 0x38, 0x39,
     0x41, 0x42, 0x43, 0x44, 0x45, 0x46]"

definition KPRINTF_BUFSIZE :: nat where
  "KPRINTF_BUFSIZE = 8 * 8 div 3 + 2"

definition ALT :: u32 where "ALT = 0x001"
definition HEXPREFIX :: u32 where "HEXPREFIX = 0x002"
definition LADJUST :: u32 where "LADJUST = 0x004"
definition LONGINT :: u32 where "LONGINT = 0x010"
definition QUADINT :: u32 where "QUADINT = 0x020"
definition SHORTINT :: u32 where "SHORTINT = 0x040"
definition MAXINT :: u32 where "MAXINT = 0x080"
definition PTRINT :: u32 where "PTRINT = 0x100"
definition SIZEINT :: u32 where "SIZEINT = 0x200"
definition ZEROPAD :: u32 where "ZEROPAD = 0x400"

definition flag_set :: "u32 \<Rightarrow> u32 \<Rightarrow> bool" where
  "flag_set fl b \<longleftrightarrow> fl AND b \<noteq> 0"

definition va_int :: "u32 list \<Rightarrow> (u32 \<times> u32 list) option" where
  "va_int ap = (case ap of [] \<Rightarrow> None | w # ws \<Rightarrow> Some (w, ws))"

definition va_quad :: "u32 list \<Rightarrow> (u64 \<times> u32 list) option" where
  "va_quad ap = (case ap of l # h # ws \<Rightarrow> Some (ucast l OR push_bit 32 (ucast h), ws) | _ \<Rightarrow> None)"

text \<open>The type of the conditional expression in \<open>SARG\<close> is \<open>intmax_t\<close>: a narrower argument is
  extended with its sign. \<open>UARG\<close> extends with zeroes.\<close>

definition SARG :: "u32 \<Rightarrow> u32 list \<Rightarrow> (u64 \<times> u32 list) option" where
  "SARG fl ap =
     (if flag_set fl MAXINT then va_quad ap
      else if flag_set fl PTRINT then map_option (apfst scast) (va_int ap)
      else if flag_set fl SIZEINT then map_option (apfst scast) (va_int ap)
      else if flag_set fl QUADINT then va_quad ap
      else if flag_set fl LONGINT then map_option (apfst scast) (va_int ap)
      else if flag_set fl SHORTINT then map_option (apfst (\<lambda>w. scast (ucast w :: u16))) (va_int ap)
      else map_option (apfst scast) (va_int ap))"

definition UARG :: "u32 \<Rightarrow> u32 list \<Rightarrow> (u64 \<times> u32 list) option" where
  "UARG fl ap =
     (if flag_set fl MAXINT then va_quad ap
      else if flag_set fl PTRINT then map_option (apfst ucast) (va_int ap)
      else if flag_set fl SIZEINT then map_option (apfst ucast) (va_int ap)
      else if flag_set fl QUADINT then va_quad ap
      else if flag_set fl LONGINT then map_option (apfst ucast) (va_int ap)
      else if flag_set fl SHORTINT then map_option (apfst (\<lambda>w. ucast (ucast w :: u16))) (va_int ap)
      else map_option (apfst ucast) (va_int ap))"

section \<open>Where the output goes\<close>

text \<open>
  \<open>KPRINTF_PUTCHAR\<close> writes to the console or, with \<open>TOBUFONLY\<close>, to the buffer: \<open>sbuf\<close> is the position
  in it (\<open>None\<close> the null pointer) and \<open>tailp\<close> the position where it ends.
\<close>

record out =
  tobufonly :: bool
  vp_null :: bool
  console :: "u8 list"
  obuf :: "u8 list"
  sbuf :: "nat option"
  tailp :: nat

definition KPRINTF_PUTCHAR :: "u8 \<Rightarrow> out \<Rightarrow> out option" where
  "KPRINTF_PUTCHAR c s =
     (if tobufonly s then
        (case sbuf s of
           None \<Rightarrow> Some s
         | Some i \<Rightarrow>
             if vp_null s \<or> i < tailp s then
               (if i < length (obuf s)
                then Some (s\<lparr>obuf := (obuf s)[i := c], sbuf := Some (Suc i)\<rparr>) else None)
             else Some s)
      else Some (s\<lparr>console := console s @ [c]\<rparr>))"

text \<open>\<open>while (n-- > 0) KPRINTF_PUTCHAR(c)\<close>.\<close>

fun put_padding :: "nat \<Rightarrow> u8 \<Rightarrow> out \<Rightarrow> out option" where
  "put_padding 0 c s = Some s"
| "put_padding (Suc n) c s = do { s \<leftarrow> KPRINTF_PUTCHAR c s; put_padding n c s }"

section \<open>Scanning a conversion\<close>

record fspec =
  flags :: u32
  fwidth :: int
  prec :: int
  sign :: u8

text \<open>\<open>n = 10 * n + to_digit(ch); ch = *fmt++\<close> while \<open>ch\<close> is a digit.\<close>

fun scan_digits :: "int \<Rightarrow> u8 \<Rightarrow> u8 list \<Rightarrow> (int \<times> u8 \<times> u8 list) option" where
  "scan_digits n ch fmt =
     (if is_digit ch then
        (case cint (10 * n + to_digit ch) of
           None \<Rightarrow> None
         | Some n \<Rightarrow> (case fmt of [] \<Rightarrow> Some (n, 0, []) | c # fmt \<Rightarrow> scan_digits n c fmt))
      else Some (n, ch, fmt))"

declare scan_digits.simps [simp del]

lemma is_digit_0 [simp]: "\<not> is_digit 0"
  by (simp add: is_digit_def to_digit_def)

lemma scan_digits_shorter:
  "scan_digits n ch fmt = Some (n', ch', fmt') \<Longrightarrow>
     length fmt' \<le> length fmt \<and> (is_digit ch \<longrightarrow> length fmt' < length fmt \<or> ch' = 0 \<and> fmt' = [])"
proof (induction fmt arbitrary: n ch)
  case Nil
  then show ?case
    by (subst (asm) scan_digits.simps) (auto split: if_splits option.splits)
next
  case (Cons c fmt)
  from Cons.prems show ?case
    using Cons.IH by (subst (asm) scan_digits.simps) (force split: if_splits option.splits)
qed

text \<open>The labels \<open>rflag\<close> and \<open>reswitch\<close>: flags, width, precision and length modifiers are collected
  until a conversion character is read.\<close>

definition fetch :: "u8 list \<Rightarrow> u8 \<times> u8 list" where
  "fetch fmt = (case fmt of [] \<Rightarrow> (0, []) | c # fmt \<Rightarrow> (c, fmt))"

lemma length_fetch [simp]: "length (snd (fetch fmt)) = length fmt - 1"
  by (cases fmt) (simp_all add: fetch_def)

lemma fetch_nonzero: "fst (fetch fmt) \<noteq> 0 \<Longrightarrow> 0 < length fmt"
  by (cases fmt) (simp_all add: fetch_def)

lemma is_digit_iff: "is_digit c \<longleftrightarrow> 0x30 \<le> c \<and> c \<le> 0x39"
proof -
  have "list_all (\<lambda>n. is_digit (of_nat n) \<longleftrightarrow> 0x30 \<le> (of_nat n :: u8) \<and> (of_nat n :: u8) \<le> 0x39) [0..<256]"
    by code_simp
  then have "\<forall>n \<in> {0..<256}. is_digit (of_nat n) \<longleftrightarrow> 0x30 \<le> (of_nat n :: u8) \<and> (of_nat n :: u8) \<le> 0x39"
    unfolding list_all_iff by (simp only: set_upt)
  moreover have "unat c \<in> {0..<256}" using unsigned_less [of c] by simp
  ultimately have "is_digit (of_nat (unat c)) \<longleftrightarrow> 0x30 \<le> (of_nat (unat c) :: u8) \<and> (of_nat (unat c) :: u8) \<le> 0x39"
    by blast
  then show ?thesis by simp
qed

lemma fetch_rest: "snd (fetch fmt) \<noteq> [] \<Longrightarrow> 0 < length fmt"
  by (cases fmt) (simp_all add: fetch_def)

lemma scan_after_fetch:
  assumes "scan_digits n (fst (fetch fmt)) (snd (fetch fmt)) = Some (n', ch', fmt2)"
  shows "length fmt2 < length fmt \<or> length fmt2 = length fmt \<and> ch' = 0"
proof (cases fmt)
  case Nil
  then show ?thesis using assms by (subst (asm) scan_digits.simps) (simp add: fetch_def)
next
  case (Cons x xs)
  then show ?thesis using scan_digits_shorter [OF assms] by (simp add: fetch_def)
qed

lemma scan_width_shorter:
  assumes "scan_digits n ch fmt = Some (n', ch', fmt2)" "0x31 \<le> ch" "ch \<le> 0x39"
  shows "length fmt2 < length fmt \<or> length fmt2 = length fmt \<and> ch' = 0"
proof -
  have "is_digit ch" using assms(2,3) by (simp add: is_digit_iff word_le_nat_alt)
  then show ?thesis using scan_digits_shorter [OF assms(1)] by auto
qed

text \<open>The labels \<open>rflag\<close> and \<open>reswitch\<close>: flags, width, precision and length modifiers are collected
  until a conversion character is read.\<close>

function (sequential) reswitch ::
    "u8 \<Rightarrow> u8 list \<Rightarrow> u32 list \<Rightarrow> fspec \<Rightarrow> (u8 \<times> u8 list \<times> u32 list \<times> fspec) option" where
  "reswitch ch fmt ap sp =
     (let (next_ch, fmt1) = fetch fmt
      in if ch = 0x20 then
           reswitch next_ch fmt1 ap (if sign sp = 0 then sp\<lparr>sign := 0x20\<rparr> else sp)
         else if ch = 0x23 then
           reswitch next_ch fmt1 ap (sp\<lparr>flags := flags sp OR ALT\<rparr>)
         else if ch = 0x2a then
           (case va_int ap of
              None \<Rightarrow> None
            | Some (w, ap) \<Rightarrow>
                if 0 \<le> sint w then reswitch next_ch fmt1 ap (sp\<lparr>fwidth := sint w\<rparr>)
                else (case cint (- sint w) of
                        None \<Rightarrow> None
                      | Some n \<Rightarrow>
                          reswitch next_ch fmt1 ap (sp\<lparr>fwidth := n, flags := flags sp OR LADJUST\<rparr>)))
         else if ch = 0x2d then
           reswitch next_ch fmt1 ap (sp\<lparr>flags := flags sp OR LADJUST\<rparr>)
         else if ch = 0x2b then
           reswitch next_ch fmt1 ap (sp\<lparr>sign := 0x2b\<rparr>)
         else if ch = 0x2e then
           (if next_ch = 0x2a then
              (case va_int ap of
                 None \<Rightarrow> None
               | Some (w, ap) \<Rightarrow>
                   reswitch (fst (fetch fmt1)) (snd (fetch fmt1)) ap
                     (sp\<lparr>prec := (if sint w < 0 then -1 else sint w)\<rparr>))
            else
              (case scan_digits 0 next_ch fmt1 of
                 None \<Rightarrow> None
               | Some (n, ch, fmt2) \<Rightarrow> reswitch ch fmt2 ap (sp\<lparr>prec := (if n < 0 then -1 else n)\<rparr>)))
         else if ch = 0x30 then
           reswitch next_ch fmt1 ap (sp\<lparr>flags := flags sp OR ZEROPAD\<rparr>)
         else if 0x31 \<le> ch \<and> ch \<le> 0x39 then
           (case scan_digits 0 ch fmt of
              None \<Rightarrow> None
            | Some (n, ch, fmt2) \<Rightarrow> reswitch ch fmt2 ap (sp\<lparr>fwidth := n\<rparr>))
         else if ch = 0x68 then reswitch next_ch fmt1 ap (sp\<lparr>flags := flags sp OR SHORTINT\<rparr>)
         else if ch = 0x6a then reswitch next_ch fmt1 ap (sp\<lparr>flags := flags sp OR MAXINT\<rparr>)
         else if ch = 0x6c then
           (if next_ch = 0x6c
            then reswitch (fst (fetch fmt1)) (snd (fetch fmt1)) ap (sp\<lparr>flags := flags sp OR QUADINT\<rparr>)
            else reswitch next_ch fmt1 ap (sp\<lparr>flags := flags sp OR LONGINT\<rparr>))
         else if ch = 0x71 then reswitch next_ch fmt1 ap (sp\<lparr>flags := flags sp OR QUADINT\<rparr>)
         else if ch = 0x74 then reswitch next_ch fmt1 ap (sp\<lparr>flags := flags sp OR PTRINT\<rparr>)
         else if ch = 0x7a then reswitch next_ch fmt1 ap (sp\<lparr>flags := flags sp OR SIZEINT\<rparr>)
         else Some (ch, fmt, ap, sp))"
  by pat_completeness auto

termination
proof (relation "measures [\<lambda>(ch, fmt, ap, sp). length fmt, \<lambda>(ch, fmt, ap, sp). if ch = 0 then 0 else 1]")
qed (auto dest: scan_after_fetch scan_width_shorter dest!: fetch_nonzero fetch_rest
    simp: prod_eq_iff)

declare reswitch.simps [simp del]

section \<open>Converting a number\<close>

text \<open>The buffer \<open>bf\<close> and the position of \<open>cp\<close> in it: \<open>*--cp = c\<close>.\<close>

definition push_digit :: "u8 \<Rightarrow> nat \<times> u8 list \<Rightarrow> (nat \<times> u8 list) option" where
  "push_digit c b = (case b of (cp, bf) \<Rightarrow>
     if 0 < cp \<and> cp \<le> length bf then Some (cp - 1, bf[cp - 1 := c]) else None)"

lemma drop_bit_less:
  fixes q :: u64
  assumes "drop_bit (Suc n) q \<noteq> 0"
  shows "unat (drop_bit (Suc n) q) < unat q"
proof -
  have "unat (drop_bit (Suc n) q) = unat q div 2 ^ Suc n"
    by (simp only: drop_bit_eq_div [where 'a = nat, symmetric] unat_drop_bit_eq)
  moreover have "0 < unat q" using assms by (auto intro: gr0I simp: unat_eq_0)
  moreover have "(1 :: nat) < 2 ^ Suc n" using one_less_power [of "2 :: nat" "Suc n"] by simp
  ultimately show ?thesis by (simp only: div_less_dividend)
qed

function oct_digits :: "u64 \<Rightarrow> nat \<times> u8 list \<Rightarrow> (nat \<times> u8 list) option" where
  "oct_digits q b = (case push_digit (to_char (q AND 7)) b of
      None \<Rightarrow> None
    | Some b \<Rightarrow> let q = drop_bit 3 q in if q \<noteq> 0 then oct_digits q b else Some b)"
  by pat_completeness auto
termination
  by (relation "measure (\<lambda>(q, b). unat q)") (auto simp: numeral_3_eq_3 intro: drop_bit_less)

function dec_digits :: "u64 \<Rightarrow> nat \<times> u8 list \<Rightarrow> (nat \<times> u8 list) option" where
  "dec_digits q b =
     (if 10 \<le> q then (case push_digit (to_char (q mod 10)) b of
        None \<Rightarrow> None
      | Some b \<Rightarrow> dec_digits (q div 10) b)
      else push_digit (to_char q) b)"
  by pat_completeness auto
termination
proof (relation "measure (\<lambda>(q, b). unat q)")
  fix q :: u64 and b b'
  assume "10 \<le> q"
  then have "10 \<le> unat q" by (simp add: word_le_nat_alt)
  then show "((q div 10, b'), q, b) \<in> measure (\<lambda>(q, b). unat q)" by (simp add: unat_div)
qed simp

function hex_digits :: "u8 list \<Rightarrow> u64 \<Rightarrow> nat \<times> u8 list \<Rightarrow> (nat \<times> u8 list) option" where
  "hex_digits xdigs q b = (case push_digit (xdigs ! unat (q AND 15)) b of
      None \<Rightarrow> None
    | Some b \<Rightarrow> let q = drop_bit 4 q in if q \<noteq> 0 then hex_digits xdigs q b else Some b)"
  by pat_completeness auto
termination
  by (relation "measure (\<lambda>(xdigs, q, b). unat q)") (auto simp: eval_nat_numeral intro: drop_bit_less)

declare oct_digits.simps [simp del] dec_digits.simps [simp del] hex_digits.simps [simp del]

datatype base = OCT | DEC | HEX

text \<open>
  From the label \<open>number\<close> on: the flags (a precision turns \<open>ZEROPAD\<close> off), \<open>dprec\<close> and the digits in
  the buffer from \<open>cp\<close> on.
\<close>

definition number :: "base \<Rightarrow> u64 \<Rightarrow> u8 list \<Rightarrow> fspec \<Rightarrow> u8 list \<Rightarrow> (fspec \<times> nat \<times> u8 list) option" where
  "number base q xdigs sp bf =
     (let sp' = (if 0 \<le> prec sp then sp\<lparr>flags := flags sp AND NOT ZEROPAD\<rparr> else sp);
          b = (KPRINTF_BUFSIZE, bf)
      in if q \<noteq> 0 \<or> prec sp \<noteq> 0 then
           (case base of
              OCT \<Rightarrow> do {
                (cp, bf) \<leftarrow> oct_digits q b;
                b \<leftarrow> (if flag_set (flags sp') ALT \<and> bf ! cp \<noteq> 0x30 then push_digit 0x30 (cp, bf)
                     else Some (cp, bf));
                Some (sp', b)
              }
            | DEC \<Rightarrow> do { b \<leftarrow> dec_digits q b; Some (sp', b) }
            | HEX \<Rightarrow> do { b \<leftarrow> hex_digits xdigs q b; Some (sp', b) })
         else Some (sp', b))"

section \<open>The conversions\<close>

text \<open>Where \<open>cp\<close> points: into the buffer, to a string in memory, or to the text of a literal.\<close>

datatype cptr = Bf nat | Str u32 | Lit "u8 list"

definition null_text :: "u8 list" where
  "null_text = [0x28, 0x6e, 0x75, 0x6c, 0x6c, 0x29]"

text \<open>The outcome of the switch: \<open>goto done\<close>, \<open>continue\<close>, or a field to be laid out.\<close>

record field =
  fcp :: cptr
  fsize :: int
  fbf :: "u8 list"
  fdprec :: int
  fch :: u8
  fsp :: fspec

datatype action = Done | Continue mem "u32 list" | Lay_Out field "u32 list"

definition number_field :: "base \<Rightarrow> u64 \<Rightarrow> u8 list \<Rightarrow> u8 \<Rightarrow> fspec \<Rightarrow> u32 list \<Rightarrow> u8 list \<Rightarrow> action option" where
  "number_field base q xdigs ch sp ap bf = do {
     (sp', cp, bf) \<leftarrow> number base q xdigs sp bf;
     Some (Lay_Out \<lparr>fcp = Bf cp, fsize = int KPRINTF_BUFSIZE - int cp, fbf = bf, fdprec = prec sp,
                  fch = ch, fsp = sp'\<rparr> ap)
   }"

definition store_count :: "u32 \<Rightarrow> u32 \<Rightarrow> int \<Rightarrow> mem \<Rightarrow> mem" where
  "store_count fl p ret m =
     (let quad = word_of_int ret :: u64;
          write_quad = write_long (write_long m p (ucast quad)) (p + 4) (ucast (drop_bit 32 quad))
      in if flag_set fl MAXINT then write_quad
         else if flag_set fl PTRINT then write_long m p (word_of_int ret)
         else if flag_set fl SIZEINT then write_long m p (word_of_int ret)
         else if flag_set fl QUADINT then write_quad
         else if flag_set fl LONGINT then write_long m p (word_of_int ret)
         else if flag_set fl SHORTINT then
           m(p := word_of_int ret, p + 1 := ucast (drop_bit 8 (word_of_int ret :: u16)))
         else write_long m p (word_of_int ret))"

text \<open>The \<open>size\<close> of a string: \<open>memchr\<close> within the precision, \<open>strlen\<close> without one.\<close>

definition string_size :: "mem \<Rightarrow> u32 \<Rightarrow> int \<Rightarrow> int option" where
  "string_size m cp n =
     (if 0 \<le> n then
        let p = memchr m cp 0 (word_of_int n);
            size = sint (p - cp)
        in Some (if p \<noteq> 0 then (if n < size then n else size) else n)
      else map_option sint (strlen m cp))"

definition literal_size :: "u8 list \<Rightarrow> int \<Rightarrow> int" where
  "literal_size xs n = (if 0 \<le> n \<and> n \<le> int (length xs) then n else int (length xs))"

definition conversion ::
    "u8 \<Rightarrow> u32 list \<Rightarrow> fspec \<Rightarrow> int \<Rightarrow> mem \<Rightarrow> u8 list \<Rightarrow> action option" where
  "conversion ch ap sp ret m bf =
     (let long = (\<lambda>sp. sp\<lparr>flags := flags sp OR LONGINT\<rparr>);
          nosign = (\<lambda>sp. sp\<lparr>sign := 0\<rparr>)
      in if ch = 0x63 then do {
           (w, ap) \<leftarrow> va_int ap;
           Some (Lay_Out \<lparr>fcp = Bf 0, fsize = 1, fbf = bf[0 := ucast w], fdprec = 0, fch = ch,
                        fsp = nosign sp\<rparr> ap)
         }
         else if ch = 0x44 \<or> ch = 0x64 \<or> ch = 0x69 then do {
           let sp = (if ch = 0x44 then long sp else sp);
           (q, ap) \<leftarrow> SARG (flags sp) ap;
           if sint q < 0 then number_field DEC (- q) [] ch (sp\<lparr>sign := 0x2d\<rparr>) ap bf
           else number_field DEC q [] ch sp ap bf
         }
         else if ch = 0x6e then do {
           (p, ap) \<leftarrow> va_int ap;
           Some (Continue (store_count (flags sp) p ret m) ap)
         }
         else if ch = 0x4f \<or> ch = 0x6f then do {
           let sp = (if ch = 0x4f then long sp else sp);
           (q, ap) \<leftarrow> UARG (flags sp) ap;
           number_field OCT q [] ch (nosign sp) ap bf
         }
         else if ch = 0x70 then do {
           (p, ap) \<leftarrow> va_int ap;
           number_field HEX (ucast p) hexdigits 0x78 (nosign (sp\<lparr>flags := flags sp OR HEXPREFIX\<rparr>)) ap bf
         }
         else if ch = 0x73 then do {
           (cp, ap) \<leftarrow> va_int ap;
           (cp', size) \<leftarrow> (if cp = 0 then Some (Lit null_text, literal_size null_text (prec sp))
                         else map_option (Pair (Str cp)) (string_size m cp (prec sp)));
           Some (Lay_Out \<lparr>fcp = cp', fsize = size, fbf = bf, fdprec = 0, fch = ch, fsp = nosign sp\<rparr> ap)
         }
         else if ch = 0x55 \<or> ch = 0x75 then do {
           let sp = (if ch = 0x55 then long sp else sp);
           (q, ap) \<leftarrow> UARG (flags sp) ap;
           number_field DEC q [] ch (nosign sp) ap bf
         }
         else if ch = 0x58 \<or> ch = 0x78 then do {
           (q, ap) \<leftarrow> UARG (flags sp) ap;
           let sp = (if flag_set (flags sp) ALT \<and> q \<noteq> 0 then sp\<lparr>flags := flags sp OR HEXPREFIX\<rparr> else sp);
           number_field HEX q (if ch = 0x58 then HEXDIGITS else hexdigits) ch (nosign sp) ap bf
         }
         else if ch = 0 then Some Done
         else Some (Lay_Out \<lparr>fcp = Bf 0, fsize = 1, fbf = bf[0 := ch], fdprec = 0, fch = ch,
                           fsp = nosign sp\<rparr> ap))"

section \<open>The layout of a field\<close>

definition cptr_read :: "mem \<Rightarrow> u8 list \<Rightarrow> cptr \<Rightarrow> nat \<Rightarrow> u8 option" where
  "cptr_read m bf cp i = (case cp of
     Bf j \<Rightarrow> if j + i < length bf then Some (bf ! (j + i)) else None
   | Str p \<Rightarrow> Some (m (p + of_nat i))
   | Lit xs \<Rightarrow> if i < length xs then Some (xs ! i) else None)"

text \<open>\<open>for (; size--; cp++) KPRINTF_PUTCHAR(*cp)\<close>.\<close>

fun put_chars :: "mem \<Rightarrow> u8 list \<Rightarrow> cptr \<Rightarrow> nat \<Rightarrow> nat \<Rightarrow> out \<Rightarrow> out option" where
  "put_chars m bf cp i 0 s = Some s"
| "put_chars m bf cp i (Suc n) s = do {
     c \<leftarrow> cptr_read m bf cp i;
     s \<leftarrow> KPRINTF_PUTCHAR c s;
     put_chars m bf cp (Suc i) n s
   }"

definition emit_field :: "field \<Rightarrow> mem \<Rightarrow> int \<Rightarrow> out \<Rightarrow> (int \<times> out) option" where
  "emit_field f m ret s =
     (let fl = flags (fsp f); sg = sign (fsp f); width = fwidth (fsp f); size = fsize f in do {
        let realsz = (if size < fdprec f then fdprec f else size);
        realsz \<leftarrow> (if sg \<noteq> 0 then cint (realsz + 1)
                  else if flag_set fl HEXPREFIX then cint (realsz + 2) else Some realsz);
        ret \<leftarrow> cint (ret + (if realsz < width then width else realsz));
        s \<leftarrow> (if fl AND (LADJUST OR ZEROPAD) = 0 then put_padding (nat (width - realsz)) 0x20 s
             else Some s);
        s \<leftarrow> (if sg \<noteq> 0 then KPRINTF_PUTCHAR sg s
             else if flag_set fl HEXPREFIX then
               do { s \<leftarrow> KPRINTF_PUTCHAR 0x30 s; KPRINTF_PUTCHAR (fch f) s }
             else Some s);
        s \<leftarrow> (if fl AND (LADJUST OR ZEROPAD) = ZEROPAD then put_padding (nat (width - realsz)) 0x30 s
             else Some s);
        s \<leftarrow> put_padding (nat (fdprec f - size)) 0x30 s;
        s \<leftarrow> (if size < 0 then None else put_chars m (fbf f) (fcp f) 0 (nat size) s);
        s \<leftarrow> (if flag_set fl LADJUST then put_padding (nat (width - realsz)) 0x20 s else Some s);
        Some (ret, s)
      })"

section \<open>The functions\<close>

lemma scan_digits_le: "scan_digits n ch fmt = Some (n', ch', fmt') \<Longrightarrow> length fmt' \<le> length fmt"
  by (drule scan_digits_shorter) simp

lemma reswitch_0: "reswitch 0 fmt ap sp = Some (0, fmt, ap, sp)"
  by (subst reswitch.simps) (simp split: prod.split)

lemma reswitch_shorter:
  "reswitch ch fmt ap sp = Some (ch', fmt', ap', sp') \<Longrightarrow> length fmt' \<le> length fmt"
proof (induction "length fmt" arbitrary: ch fmt ap sp rule: less_induct)
  case less
  obtain c fmt1 where f: "fetch fmt = (c, fmt1)" by fastforce
  have shorter: "length fmt' \<le> length fmt"
    if "length fmt2 < length fmt \<or> length fmt2 = length fmt \<and> d = 0"
      "reswitch d fmt2 ap2 sp2 = Some (ch', fmt', ap', sp')" for d fmt2 ap2 sp2
    using less.hyps [OF _ that(2)] that by (auto simp: reswitch_0)
  have r1: "length fmt' \<le> length fmt" if "reswitch c fmt1 ap2 sp2 = Some (ch', fmt', ap', sp')" for ap2 sp2
    using f by (intro shorter [OF _ that]) (cases fmt; simp add: fetch_def)
  have r2: "length fmt' \<le> length fmt"
    if "reswitch (fst (fetch fmt1)) (snd (fetch fmt1)) ap2 sp2 = Some (ch', fmt', ap', sp')" for ap2 sp2
    using f by (intro shorter [OF _ that]) (cases fmt; cases fmt1; auto simp: fetch_def)
  have r3: "length fmt' \<le> length fmt"
    if "scan_digits n c fmt1 = Some (n', d, fmt2)" "reswitch d fmt2 ap2 sp2 = Some (ch', fmt', ap', sp')"
    for n n' d fmt2 ap2 sp2
    using f that(1) scan_after_fetch [of n fmt] by (intro shorter [OF _ that(2)]) simp
  have r4: "length fmt' \<le> length fmt"
    if "scan_digits n ch fmt = Some (n', d, fmt2)" "0x31 \<le> ch" "ch \<le> 0x39"
      "reswitch d fmt2 ap2 sp2 = Some (ch', fmt', ap', sp')" for n n' d fmt2 ap2 sp2
    using scan_width_shorter [OF that(1-3)] by (rule shorter [OF _ that(4)])
  from less.prems show ?case
    by (subst (asm) reswitch.simps)
      (auto simp only: f Let_def prod.case option.inject prod.inject option.distinct
        intro: r1 r2 r3 r4 split: if_split_asm option.split_asm prod.split_asm)
qed

function kprintf_loop ::
    "u8 list \<Rightarrow> u32 list \<Rightarrow> u8 list \<Rightarrow> int \<Rightarrow> mem \<Rightarrow> out \<Rightarrow> (int \<times> mem \<times> out) option" where
  "kprintf_loop fmt ap bf ret m s =
     (case fmt of
        [] \<Rightarrow> Some (ret, m, s)
      | c # fmt1 \<Rightarrow>
          if c = 0 then Some (ret, m, s)
          else if c \<noteq> 0x25 then
            (case cint (ret + 1) of
               None \<Rightarrow> None
             | Some ret \<Rightarrow> (case KPRINTF_PUTCHAR c s of
                 None \<Rightarrow> None
               | Some s \<Rightarrow> kprintf_loop fmt1 ap bf ret m s))
          else
            (case reswitch (fst (fetch fmt1)) (snd (fetch fmt1)) ap
                    \<lparr>flags = 0, fwidth = 0, prec = -1, sign = 0\<rparr> of
               None \<Rightarrow> None
             | Some (ch, fmt2, ap, sp) \<Rightarrow> (case conversion ch ap sp ret m bf of
                 None \<Rightarrow> None
               | Some Done \<Rightarrow> Some (ret, m, s)
               | Some (Continue m ap) \<Rightarrow> kprintf_loop fmt2 ap bf ret m s
               | Some (Lay_Out f ap) \<Rightarrow> (case emit_field f m ret s of
                   None \<Rightarrow> None
                 | Some (ret, s) \<Rightarrow> kprintf_loop fmt2 ap (fbf f) ret m s))))"
  by pat_completeness auto
termination
proof (relation "measure (\<lambda>(fmt, ap, bf, ret, m, s). length fmt)")
qed (auto dest!: reswitch_shorter)

declare kprintf_loop.simps [simp del]

text \<open>The contents of \<open>bf\<close> before it is written are arbitrary; nothing reads them.\<close>

definition kprintf :: "u8 list \<Rightarrow> u32 list \<Rightarrow> mem \<Rightarrow> out \<Rightarrow> (int \<times> mem \<times> out) option" where
  "kprintf fmt ap m s = kprintf_loop fmt ap (replicate KPRINTF_BUFSIZE 0) 0 m s"

definition vprintf :: "u8 list \<Rightarrow> u32 list \<Rightarrow> mem \<Rightarrow> (int \<times> mem \<times> u8 list) option" where
  "vprintf fmt ap m = do {
     (rv, m, s) \<leftarrow> kprintf fmt ap m
       \<lparr>tobufonly = False, vp_null = True, console = [], obuf = [], sbuf = None, tailp = 0\<rparr>;
     Some (rv, m, console s)
   }"

definition printf :: "u8 list \<Rightarrow> u32 list \<Rightarrow> mem \<Rightarrow> (int \<times> mem \<times> u8 list) option" where
  "printf fmt ap m = do {
     (rv, m, s) \<leftarrow> kprintf fmt ap m
       \<lparr>tobufonly = False, vp_null = True, console = [], obuf = [], sbuf = None, tailp = 0\<rparr>;
     Some (rv, m, console s)
   }"

text \<open>The buffer of \<open>vsnprintf\<close>: \<open>None\<close> for the null pointer.\<close>

definition vsnprintf ::
    "u8 list option \<Rightarrow> nat \<Rightarrow> u8 list \<Rightarrow> u32 list \<Rightarrow> mem \<Rightarrow> (int \<times> mem \<times> u8 list) option" where
  "vsnprintf bf sz fmt ap m = do {
     (retval, m, s) \<leftarrow> kprintf fmt ap m
       \<lparr>tobufonly = True, vp_null = False, console = [], obuf = (case bf of None \<Rightarrow> [] | Some b \<Rightarrow> b),
        sbuf = map_option (\<lambda>b. 0) bf, tailp = sz\<rparr>;
     if bf \<noteq> None \<and> 0 < sz then
       let i = (if sz \<le> unat (word_of_int retval :: u32) then sz - 1 else nat retval)
       in if i < length (obuf s) then Some (retval, m, (obuf s)[i := 0]) else None
     else Some (retval, m, obuf s)
   }"

definition snprintf ::
    "u8 list option \<Rightarrow> nat \<Rightarrow> u8 list \<Rightarrow> u32 list \<Rightarrow> mem \<Rightarrow> (int \<times> mem \<times> u8 list) option" where
  "snprintf bf sz fmt ap m = vsnprintf bf sz fmt ap m"


section \<open>The text of a field and the text of a call\<close>

text \<open>
  What is written does not depend on where it goes: a field has a text, and so has a call.
\<close>

fun put_list :: "u8 list \<Rightarrow> out \<Rightarrow> out option" where
  "put_list [] s = Some s"
| "put_list (c # cs) s = do { s \<leftarrow> KPRINTF_PUTCHAR c s; put_list cs s }"

definition body_text :: "field \<Rightarrow> mem \<Rightarrow> u8 list option" where
  "body_text f m = (if fsize f < 0 then None
     else those (map (cptr_read m (fbf f) (fcp f)) [0..<nat (fsize f)]))"

text \<open>Padding, prefix, zeroes of the precision, body: the layout that C prescribes.\<close>

definition prefix_text :: "field \<Rightarrow> u8 list" where
  "prefix_text f =
     (if sign (fsp f) \<noteq> 0 then [sign (fsp f)]
      else if flag_set (flags (fsp f)) HEXPREFIX then [0x30, fch f] else [])"

definition layout :: "field \<Rightarrow> u8 list \<Rightarrow> u8 list" where
  "layout f body =
     (let zeroes = replicate (nat (fdprec f - fsize f)) 0x30;
          rest = nat (fwidth (fsp f)) - length (prefix_text f @ zeroes @ body)
      in if flag_set (flags (fsp f)) LADJUST then prefix_text f @ zeroes @ body @ replicate rest 0x20
         else if flag_set (flags (fsp f)) ZEROPAD then prefix_text f @ replicate rest 0x30 @ zeroes @ body
         else replicate rest 0x20 @ prefix_text f @ zeroes @ body)"

lemma put_list_append: "put_list (xs @ ys) = (\<lambda>s. Option.bind (put_list xs s) (put_list ys))"
proof
  show "put_list (xs @ ys) s = Option.bind (put_list xs s) (put_list ys)" for s
    by (induction xs arbitrary: s) (auto split: bind_split)
qed

lemma put_padding_list: "put_padding n c s = put_list (replicate n c) s"
  by (induction n arbitrary: s) (auto split: bind_split)

lemma bind_None_right: "Option.bind x (\<lambda>_. None) = None"
  by (cases x) simp_all

lemma put_chars_list:
  "put_chars m bf cp i n s = Option.bind (those (map (cptr_read m bf cp) [i..<i + n])) (\<lambda>cs. put_list cs s)"
proof (induction n arbitrary: i s)
  case (Suc n)
  have e: "[i..<i + Suc n] = i # [Suc i..<Suc i + n]" by (simp add: upt_conv_Cons del: upt_Suc)
  show ?case
    unfolding e
    using Suc [of "Suc i"]
    by (cases "cptr_read m bf cp i"; cases "those (map (cptr_read m bf cp) [Suc i..<Suc i + n])")
      (auto simp: bind_None_right simp del: upt_Suc split: bind_split)
qed simp

lemma length_those: "those xs = Some ys \<Longrightarrow> length ys = length xs"
  by (induction xs arbitrary: ys) (auto split: option.splits)

lemma length_body_text: "body_text f m = Some body \<Longrightarrow> int (length body) = fsize f"
  by (auto simp: body_text_def split: if_splits dest!: length_those)

lemma and_single_bit: "(fl :: u32) AND 2 ^ n = (if bit fl n then 2 ^ n else 0)"
  by (rule bit_eqI) (auto simp: bit_simps)

lemma padding_flags:
  "fl AND (LADJUST OR ZEROPAD) = 0 \<longleftrightarrow> \<not> flag_set fl LADJUST \<and> \<not> flag_set fl ZEROPAD"
  "fl AND (LADJUST OR ZEROPAD) = ZEROPAD \<longleftrightarrow> \<not> flag_set fl LADJUST \<and> flag_set fl ZEROPAD"
proof -
  have c: "fl AND LADJUST = (if bit fl 2 then 4 else 0)" "fl AND ZEROPAD = (if bit fl 10 then 0x400 else 0)"
    using and_single_bit [of fl 2] and_single_bit [of fl 10] by (simp_all add: LADJUST_def ZEROPAD_def)
  show "fl AND (LADJUST OR ZEROPAD) = 0 \<longleftrightarrow> \<not> flag_set fl LADJUST \<and> \<not> flag_set fl ZEROPAD"
    "fl AND (LADJUST OR ZEROPAD) = ZEROPAD \<longleftrightarrow> \<not> flag_set fl LADJUST \<and> flag_set fl ZEROPAD"
    by (simp_all add: bit.conj_disj_distrib flag_set_def c) (simp_all add: ZEROPAD_def)
qed

lemma put_prefix:
  "(if sign (fsp f) \<noteq> 0 then KPRINTF_PUTCHAR (sign (fsp f)) s
    else if flag_set (flags (fsp f)) HEXPREFIX then
      do { s \<leftarrow> KPRINTF_PUTCHAR 0x30 s; KPRINTF_PUTCHAR (fch f) s }
    else Some s) = put_list (prefix_text f) s"
  by (auto simp: prefix_text_def split: bind_split)

definition real_size :: "field \<Rightarrow> int" where
  "real_size f = (if fsize f < fdprec f then fdprec f else fsize f) + int (length (prefix_text f))"

definition field_size :: "field \<Rightarrow> int" where
  "field_size f = (if real_size f < fwidth (fsp f) then fwidth (fsp f) else real_size f)"

text \<open>The overflow checks of the sizes are subsumed by the one of the return value.\<close>

lemma size_check:
  assumes "0 \<le> ret" "0 \<le> fsize f"
  shows "do {
      realsz \<leftarrow> (if sign (fsp f) \<noteq> 0 then cint ((if fsize f < fdprec f then fdprec f else fsize f) + 1)
                else if flag_set (flags (fsp f)) HEXPREFIX
                then cint ((if fsize f < fdprec f then fdprec f else fsize f) + 2)
                else Some (if fsize f < fdprec f then fdprec f else fsize f));
      ret \<leftarrow> cint (ret + (if realsz < fwidth (fsp f) then fwidth (fsp f) else realsz));
      G realsz ret
    } = do { ret \<leftarrow> cint (ret + field_size f); G (real_size f) ret }"
  using assms by (auto simp: cint_def field_size_def real_size_def prefix_text_def)

lemma length_layout:
  assumes "int (length body) = fsize f"
  shows "int (length (layout f body)) = field_size f"
  using assms by (auto simp: layout_def Let_def field_size_def real_size_def)

lemma layout_put:
  assumes "int (length body) = fsize f"
  shows "put_list (layout f body) s = do {
      s \<leftarrow> (if flags (fsp f) AND (LADJUST OR ZEROPAD) = 0
           then put_padding (nat (fwidth (fsp f) - real_size f)) 0x20 s else Some s);
      s \<leftarrow> put_list (prefix_text f) s;
      s \<leftarrow> (if flags (fsp f) AND (LADJUST OR ZEROPAD) = ZEROPAD
           then put_padding (nat (fwidth (fsp f) - real_size f)) 0x30 s else Some s);
      s \<leftarrow> put_padding (nat (fdprec f - fsize f)) 0x30 s;
      s \<leftarrow> put_list body s;
      if flag_set (flags (fsp f)) LADJUST
      then put_padding (nat (fwidth (fsp f) - real_size f)) 0x20 s else Some s
    }"
proof -
  have rest: "nat (fwidth (fsp f)) - (length (prefix_text f) + (nat (fdprec f - fsize f) + length body))
      = nat (fwidth (fsp f) - real_size f)"
    using assms by (auto simp: real_size_def)
  show ?thesis
    unfolding layout_def Let_def length_append length_replicate rest put_padding_list padding_flags
    by (cases "flag_set (flags (fsp f)) LADJUST"; cases "flag_set (flags (fsp f)) ZEROPAD")
      (simp_all add: put_list_append Option.bind_assoc)
qed

lemma emit_field_layout:
  assumes "0 \<le> ret"
  shows "emit_field f m ret s = do {
     body \<leftarrow> body_text f m;
     ret \<leftarrow> cint (ret + int (length (layout f body)));
     s \<leftarrow> put_list (layout f body) s;
     Some (ret, s)
   }"
proof (cases "body_text f m")
  case None
  have "(if fsize f < 0 then None else put_chars m (fbf f) (fcp f) 0 (nat (fsize f)) s) = None" for s
    using None by (auto simp: body_text_def put_chars_list split: if_splits)
  then show ?thesis
    unfolding emit_field_def Let_def by (simp add: None bind_None_right)
next
  case (Some body)
  have len: "int (length body) = fsize f" using Some by (rule length_body_text)
  then have size: "0 \<le> fsize f" by linarith
  have body: "(if fsize f < 0 then None else put_chars m (fbf f) (fcp f) 0 (nat (fsize f)) s) = put_list body s" for s
    using Some size by (auto simp: body_text_def put_chars_list)
  show ?thesis
    unfolding emit_field_def Let_def put_prefix body size_check [OF assms size] Some
      Option.bind.bind_lunit length_layout [OF len] layout_put [OF len]
    by (simp add: Option.bind_assoc)
qed

definition console_out :: "u8 list \<Rightarrow> out" where
  "console_out cs =
     \<lparr>tobufonly = False, vp_null = True, console = cs, obuf = [], sbuf = None, tailp = 0\<rparr>"

lemma put_list_console: "put_list cs (console_out pre) = Some (console_out (pre @ cs))"
  by (induction cs arbitrary: pre) (simp_all add: KPRINTF_PUTCHAR_def console_out_def)

text \<open>\<open>same_text L\<close>: the step \<open>L\<close> writes to any sink what it writes to the console, and counts it.\<close>

definition same_text :: "int \<Rightarrow> (out \<Rightarrow> (int \<times> mem \<times> out) option) \<Rightarrow> bool" where
  "same_text ret L \<longleftrightarrow> (\<forall>s. L s = None) \<or>
     (\<exists>m cs. ret + int (length cs) < 2 ^ 31 \<and>
        (\<forall>s. L s = map_option (\<lambda>s. (ret + int (length cs), m, s)) (put_list cs s)))"

lemma same_text_None: "same_text ret (\<lambda>s. None)"
  by (simp add: same_text_def)

lemma same_text_done: "ret < 2 ^ 31 \<Longrightarrow> same_text ret (\<lambda>s. Some (ret, m, s))"
  unfolding same_text_def by (intro disjI2 exI [of _ m] exI [of _ "[]"]) simp

lemma same_text_put:
  assumes "same_text (ret + int (length cs)) L"
  shows "same_text ret (\<lambda>s. Option.bind (put_list cs s) L)"
proof (cases "\<forall>s. L s = None")
  case True
  then show ?thesis by (auto simp: same_text_def split: bind_split)
next
  case False
  then obtain m cs1 where L: "ret + int (length cs) + int (length cs1) < 2 ^ 31"
      "\<And>s. L s = map_option (\<lambda>s. (ret + int (length cs) + int (length cs1), m, s)) (put_list cs1 s)"
    using assms unfolding same_text_def by blast
  have "\<forall>s. Option.bind (put_list cs s) L
      = map_option (\<lambda>s. (ret + int (length (cs @ cs1)), m, s)) (put_list (cs @ cs1) s)"
    using L(2) by (auto simp: put_list_append add.assoc split: bind_split)
  moreover have "ret + int (length (cs @ cs1)) < 2 ^ 31" using L(1) by simp
  ultimately show ?thesis unfolding same_text_def by blast
qed

lemma conversion_same_text:
  assumes "\<And>ap bf ret m. 0 \<le> ret \<Longrightarrow> ret < 2 ^ 31 \<Longrightarrow> same_text ret (L ap bf ret m)"
    "0 \<le> ret" "ret < 2 ^ 31"
  shows "same_text ret (\<lambda>s. case a of
            None \<Rightarrow> None
          | Some Done \<Rightarrow> Some (ret, m, s)
          | Some (Continue m ap) \<Rightarrow> L ap bf ret m s
          | Some (Lay_Out f ap) \<Rightarrow> (case emit_field f m ret s of
              None \<Rightarrow> None
            | Some (ret, s) \<Rightarrow> L ap (fbf f) ret m s))"
proof -
  have field: "same_text ret (\<lambda>s. case emit_field f m ret s of
      None \<Rightarrow> None | Some (ret, s) \<Rightarrow> L ap (fbf f) ret m s)" for f ap
  proof (cases "body_text f m")
    case None
    then show ?thesis by (simp add: emit_field_layout [OF assms(2)] same_text_None)
  next
    case (Some body)
    let ?cs = "layout f body"
    show ?thesis
    proof (cases "cint (ret + int (length ?cs))")
      case None
      then show ?thesis by (simp add: Some emit_field_layout [OF assms(2)] same_text_None)
    next
      case (Some r)
      then have r: "r = ret + int (length ?cs)" "r < 2 ^ 31" by (simp_all add: cint_def split: if_splits)
      have "(\<lambda>s. case emit_field f m ret s of None \<Rightarrow> None | Some (ret, s) \<Rightarrow> L ap (fbf f) ret m s)
          = (\<lambda>s. Option.bind (put_list ?cs s) (L ap (fbf f) (ret + int (length ?cs)) m))"
        using \<open>body_text f m = Some body\<close> Some r
        by (auto simp: emit_field_layout [OF assms(2)] split: bind_split option.split)
      moreover have "same_text (ret + int (length ?cs)) (L ap (fbf f) (ret + int (length ?cs)) m)"
        using assms r by (intro assms(1)) simp_all
      ultimately show ?thesis using same_text_put by metis
    qed
  qed
  show ?thesis
  proof (cases a)
    case None
    then show ?thesis by (simp add: same_text_None)
  next
    case (Some x)
    then show ?thesis using assms field by (cases x) (simp_all add: same_text_done)
  qed
qed

lemma kprintf_loop_same_text:
  assumes "0 \<le> ret" "ret < 2 ^ 31"
  shows "same_text ret (kprintf_loop fmt ap bf ret m)"
  using assms
proof (induction "length fmt" arbitrary: fmt ap bf ret m rule: less_induct)
  case less
  show ?case
  proof (cases fmt)
    case Nil
    then have "kprintf_loop fmt ap bf ret m = (\<lambda>s. Some (ret, m, s))"
      by (intro ext) (subst kprintf_loop.simps, simp)
    then show ?thesis using less.prems by (simp only: same_text_done)
  next
    case (Cons c fmt1)
    consider "c = 0" | "c \<noteq> 0" "c \<noteq> 0x25" | "c = 0x25" by blast
    then show ?thesis
    proof cases
      case 1
      then have "kprintf_loop fmt ap bf ret m = (\<lambda>s. Some (ret, m, s))"
        unfolding Cons by (intro ext) (subst kprintf_loop.simps, simp)
      then show ?thesis using less.prems by (simp only: same_text_done)
    next
      case 2
      show ?thesis
      proof (cases "cint (ret + 1)")
        case None
        then have "kprintf_loop fmt ap bf ret m = (\<lambda>s. None)"
          unfolding Cons using 2 by (intro ext) (subst kprintf_loop.simps, simp)
        then show ?thesis by (simp only: same_text_None)
      next
        case (Some r)
        then have r: "r = ret + int (length [c])" "r < 2 ^ 31" by (simp_all add: cint_def split: if_splits)
        have "kprintf_loop fmt ap bf ret m
            = (\<lambda>s. Option.bind (put_list [c] s) (kprintf_loop fmt1 ap bf (ret + int (length [c])) m))"
          unfolding Cons using 2 Some r
          by (intro ext) (subst kprintf_loop.simps, auto split: bind_split option.split)
        moreover have "same_text (ret + int (length [c])) (kprintf_loop fmt1 ap bf (ret + int (length [c])) m)"
          using less.prems Cons r by (intro less.hyps) simp_all
        ultimately show ?thesis using same_text_put [of ret "[c]"] by simp
      qed
    next
      case 3
      let ?r = "reswitch (fst (fetch fmt1)) (snd (fetch fmt1)) ap \<lparr>flags = 0, fwidth = 0, prec = -1, sign = 0\<rparr>"
      show ?thesis
      proof (cases ?r)
        case None
        then have "kprintf_loop fmt ap bf ret m = (\<lambda>s. None)"
          unfolding Cons using 3 by (intro ext) (subst kprintf_loop.simps, simp)
        then show ?thesis by (simp only: same_text_None)
      next
        case (Some x)
        then obtain ch fmt2 ap2 sp where x: "?r = Some (ch, fmt2, ap2, sp)" by (cases x) auto
        have shorter: "length fmt2 < length fmt"
          using reswitch_shorter [OF x] Cons by simp
        have L: "kprintf_loop fmt ap bf ret m = (\<lambda>s. case conversion ch ap2 sp ret m bf of
            None \<Rightarrow> None
          | Some Done \<Rightarrow> Some (ret, m, s)
          | Some (Continue m ap) \<Rightarrow> kprintf_loop fmt2 ap bf ret m s
          | Some (Lay_Out f ap) \<Rightarrow> (case emit_field f m ret s of
              None \<Rightarrow> None
            | Some (ret, s) \<Rightarrow> kprintf_loop fmt2 ap (fbf f) ret m s))"
          unfolding Cons using 3 x by (intro ext) (subst kprintf_loop.simps, simp)
        show ?thesis
          unfolding L by (rule conversion_same_text) (use less shorter in simp_all)
      qed
    qed
  qed
qed

section \<open>Printing to a buffer\<close>

definition buffer_out :: "u8 list option \<Rightarrow> nat \<Rightarrow> u8 list \<Rightarrow> out" where
  "buffer_out bf sz cs =
     \<lparr>tobufonly = True, vp_null = False, console = [],
      obuf = (case bf of None \<Rightarrow> [] | Some b \<Rightarrow> take (min sz (length cs)) cs @ drop (min sz (length cs)) b),
      sbuf = map_option (\<lambda>b. min sz (length cs)) bf, tailp = sz\<rparr>"

lemma put_char_buffer:
  assumes "\<And>b. bf = Some b \<Longrightarrow> sz \<le> length b"
  shows "KPRINTF_PUTCHAR c (buffer_out bf sz cs) = Some (buffer_out bf sz (cs @ [c]))"
proof (cases bf)
  case None
  then show ?thesis by (simp add: KPRINTF_PUTCHAR_def buffer_out_def)
next
  case (Some b)
  show ?thesis
  proof (cases "length cs < sz")
    case True
    then have "(cs @ drop (length cs) b)[length cs := c] = cs @ c # drop (Suc (length cs)) b"
      using assms [OF Some] by (simp add: list_update_append Cons_nth_drop_Suc [symmetric])
    then show ?thesis
      using True Some assms [OF Some]
      by (cases "sz = Suc (length cs)") (simp_all add: KPRINTF_PUTCHAR_def buffer_out_def min_def)
  next
    case False
    then show ?thesis using Some by (simp add: KPRINTF_PUTCHAR_def buffer_out_def min_def)
  qed
qed

lemma put_list_buffer:
  assumes "\<And>b. bf = Some b \<Longrightarrow> sz \<le> length b"
  shows "put_list xs (buffer_out bf sz cs) = Some (buffer_out bf sz (cs @ xs))"
  by (induction xs arbitrary: cs) (simp_all add: put_char_buffer assms)

lemma kprintf_text:
  assumes "vprintf fmt ap m = Some (rv, m', cs)"
  shows "rv = int (length cs)" "rv < 2 ^ 31"
    "kprintf fmt ap m s = map_option (\<lambda>s. (rv, m', s)) (put_list cs s)"
proof -
  have L: "same_text 0 (kprintf fmt ap m)"
    unfolding kprintf_def by (rule kprintf_loop_same_text) simp_all
  have v: "vprintf fmt ap m = map_option (\<lambda>(rv, m, s). (rv, m, console s)) (kprintf fmt ap m (console_out []))"
    by (auto simp: vprintf_def console_out_def split: bind_split)
  then have "kprintf fmt ap m (console_out []) \<noteq> None" using assms by (intro notI) simp
  then obtain m1 cs1 where all: "int (length cs1) < 2 ^ 31"
      "\<And>s. kprintf fmt ap m s = map_option (\<lambda>s. (int (length cs1), m1, s)) (put_list cs1 s)"
    using L by (auto simp: same_text_def)
  have "console (console_out cs1) = cs1" by (simp add: console_out_def)
  then have "cs1 = cs" "m1 = m'" "rv = int (length cs1)"
    using assms unfolding v all put_list_console by auto
  then show "rv = int (length cs)" "rv < 2 ^ 31"
    "kprintf fmt ap m s = map_option (\<lambda>s. (rv, m', s)) (put_list cs s)"
    using all by simp_all
qed

lemma nul_end:
  assumes "sz \<noteq> 0" "sz \<le> length b"
  shows "(take (min sz (length cs)) cs @ drop (min sz (length cs)) b)[if sz \<le> length cs then sz - 1 else length cs := 0]
    = take (sz - 1) cs @ 0 # drop (Suc (min (sz - 1) (length cs))) b"
proof (cases "sz \<le> length cs")
  case True
  then have "take sz cs = take (sz - 1) cs @ [cs ! (sz - 1)]"
    using assms(1) take_Suc_conv_app_nth [of "sz - 1" cs] by simp
  moreover have "min sz (length cs) = sz" "min (sz - 1) (length cs) = sz - 1" "length (take (sz - 1) cs) = sz - 1"
    using True by simp_all
  ultimately show ?thesis using True assms by (simp add: list_update_append)
next
  case False
  then have "drop (length cs) b = b ! length cs # drop (Suc (length cs)) b"
    using assms(2) by (simp add: Cons_nth_drop_Suc)
  moreover have "min (sz - 1) (length cs) = length cs" "take (sz - 1) cs = cs" using False by simp_all
  ultimately show ?thesis using False by (simp add: list_update_append)
qed

lemma vsnprintf_buffer:
  "vsnprintf bf sz fmt ap m = do {
     (retval, m, s) \<leftarrow> kprintf fmt ap m (buffer_out bf sz []);
     if bf \<noteq> None \<and> 0 < sz then
       let i = (if sz \<le> unat (word_of_int retval :: u32) then sz - 1 else nat retval)
       in if i < length (obuf s) then Some (retval, m, (obuf s)[i := 0]) else None
     else Some (retval, m, obuf s)
   }"
  by (cases bf) (simp_all add: vsnprintf_def buffer_out_def)

lemma snprintf_null:
  assumes "vprintf fmt ap m = Some (rv, m', cs)"
  shows "snprintf None sz fmt ap m = Some (rv, m', [])"
proof -
  have "kprintf fmt ap m (buffer_out None sz []) = Some (rv, m', buffer_out None sz cs)"
    unfolding kprintf_text(3) [OF assms] using put_list_buffer [of None sz cs "[]"] by simp
  then show ?thesis by (simp add: snprintf_def vsnprintf_buffer) (simp add: buffer_out_def)
qed

lemma snprintf_buffer:
  assumes "vprintf fmt ap m = Some (rv, m', cs)" "sz \<le> length b"
  shows "snprintf (Some b) sz fmt ap m = Some (rv, m',
      if sz = 0 then b else take (sz - 1) cs @ 0 # drop (Suc (min (sz - 1) (length cs))) b)"
proof -
  note printed = kprintf_text [OF assms(1)]
  have retval: "unat (word_of_int rv :: u32) = length cs"
    using printed(1,2) by (simp add: unat_of_nat)
  have nat_rv: "nat rv = length cs" using printed(1) by simp
  have ks: "kprintf fmt ap m (buffer_out (Some b) sz []) = Some (rv, m', buffer_out (Some b) sz cs)"
    unfolding printed(3) using put_list_buffer [of "Some b" sz cs "[]"] assms(2) by simp
  show ?thesis
  proof (cases "sz = 0")
    case True
    then show ?thesis unfolding snprintf_def vsnprintf_buffer ks by (simp add: buffer_out_def)
  next
    case False
    let ?i = "if sz \<le> length cs then sz - 1 else length cs"
    let ?o = "take (min sz (length cs)) cs @ drop (min sz (length cs)) b"
    have o: "obuf (buffer_out (Some b) sz cs) = ?o" by (simp add: buffer_out_def)
    have i: "?i < length ?o" using False assms(2) by auto
    have "snprintf (Some b) sz fmt ap m = (if ?i < length ?o then Some (rv, m', ?o[?i := 0]) else None)"
      unfolding snprintf_def vsnprintf_buffer ks using False nat_rv assms(2) by (simp add: retval Let_def o) linarith
    also have "\<dots> = Some (rv, m', take (sz - 1) cs @ 0 # drop (Suc (min (sz - 1) (length cs))) b)"
      by (simp only: i if_True nul_end [OF False assms(2)])
    finally show ?thesis using False by simp
  qed
qed

text \<open>
  C30. Printing to a buffer. What \<open>printf\<close> and \<open>vprintf\<close> show on the console for a format and its
  arguments, \<open>snprintf\<close> writes to a buffer: its first \<open>size - 1\<close> characters and a NUL, the rest of the
  buffer is not touched, and with size 0 or a null pointer nothing is. All of them return the
  length of the whole text, and have the same effect on memory (\<open>%n\<close>). So the text in the buffer
  is complete if and only if the result is less than the size.
\<close>

theorem snprintf_truncates:
  assumes "vprintf fmt ap m = Some (rv, m', cs)" "sz \<le> length b"
  shows "printf fmt ap m = Some (rv, m', cs) \<and> rv = int (length cs) \<and>
    snprintf (Some b) sz fmt ap m = Some (rv, m',
      if sz = 0 then b else take (sz - 1) cs @ 0 # drop (Suc (min (sz - 1) (length cs))) b) \<and>
    snprintf None sz fmt ap m = Some (rv, m', [])"
  using snprintf_buffer [OF assms] snprintf_null [OF assms(1)] kprintf_text(1) [OF assms(1)] assms(1)
  by (simp add: printf_def vprintf_def)

text \<open>A text without a percent sign is printed as it is.\<close>

lemma kprintf_loop_literal:
  assumes "\<forall>c \<in> set fmt. c \<noteq> 0 \<and> c \<noteq> 0x25" "0 \<le> ret" "ret + int (length fmt) < 2 ^ 31"
  shows "kprintf_loop fmt ap bf ret m (console_out pre) = Some (ret + int (length fmt), m, console_out (pre @ fmt))"
  using assms
proof (induction fmt arbitrary: ret pre)
  case Nil
  then show ?case by (subst kprintf_loop.simps) simp
next
  case (Cons c fmt)
  have "cint (ret + 1) = Some (ret + 1)" using Cons.prems by (simp add: cint_def)
  moreover have "KPRINTF_PUTCHAR c (console_out pre) = Some (console_out (pre @ [c]))"
    by (simp add: KPRINTF_PUTCHAR_def console_out_def)
  ultimately show ?case
    using Cons.prems Cons.IH [of "ret + 1" "pre @ [c]"] by (subst kprintf_loop.simps) simp
qed

lemma vprintf_literal:
  assumes "\<forall>c \<in> set fmt. c \<noteq> 0 \<and> c \<noteq> 0x25" "int (length fmt) < 2 ^ 31"
  shows "vprintf fmt ap m = Some (int (length fmt), m, fmt)"
  using kprintf_loop_literal [of fmt 0 ap "replicate KPRINTF_BUFSIZE 0" m "[]"] assms
  by (simp add: vprintf_def kprintf_def console_out_def)

text \<open>\<open>printf("a%3c", 'b')\<close> shows \<open>a  b\<close>; four bytes of a buffer of six take \<open>a  \<close> and a NUL.\<close>

lemma vprintf_example: "vprintf [0x61, 0x25, 0x33, 0x63] [0x62] m = Some (4, m, [0x61, 0x20, 0x20, 0x62])"
proof -
  have scan: "reswitch 0x33 [0x63] [0x62] \<lparr>flags = 0, fwidth = 0, prec = -1, sign = 0\<rparr>
      = Some (0x63, [], [0x62], \<lparr>flags = 0, fwidth = 3, prec = -1, sign = 0\<rparr>)"
    by (simp add: reswitch.simps [of "0x33"] reswitch.simps [of "0x63"] fetch_def
        scan_digits.simps [of _ "0x33"] scan_digits.simps [of _ "0x63"] is_digit_def to_digit_def cint_def)
  define f where "f = \<lparr>fcp = Bf 0, fsize = 1, fbf = (replicate KPRINTF_BUFSIZE 0)[0 := 0x62], fdprec = 0, fch = 0x63,
    fsp = \<lparr>flags = 0, fwidth = 3, prec = -1, sign = 0\<rparr>\<rparr>"
  have conv: "conversion 0x63 [0x62] \<lparr>flags = 0, fwidth = 3, prec = -1, sign = 0\<rparr> 1 m (replicate KPRINTF_BUFSIZE 0)
      = Some (Lay_Out f [])"
    by (simp add: conversion_def va_int_def f_def)
  have body: "body_text f m = Some [0x62]"
    by (simp add: body_text_def cptr_read_def KPRINTF_BUFSIZE_def f_def)
  have lay: "layout f [0x62] = [0x20, 0x20, 0x62]"
    by (simp add: layout_def prefix_text_def flag_set_def numeral_2_eq_2 f_def)
  have emit: "emit_field f m 1 s = map_option (Pair 4) (put_list [0x20, 0x20, 0x62] s)" for s
    using emit_field_layout [of 1 f m s] by (simp add: body lay cint_def map_conv_bind_option comp_def)
  have char: "KPRINTF_PUTCHAR 0x61 (console_out []) = Some (console_out [0x61])"
    by (simp add: KPRINTF_PUTCHAR_def console_out_def)
  have "kprintf_loop [0x61, 0x25, 0x33, 0x63] [0x62] (replicate KPRINTF_BUFSIZE 0) 0 m (console_out [])
      = Some (4, m, console_out [0x61, 0x20, 0x20, 0x62])"
    by (simp add: kprintf_loop.simps [of "0x61 # _"] kprintf_loop.simps [of "0x25 # _"] kprintf_loop.simps [of "[]"]
        cint_def char fetch_def scan conv emit put_list_console del: put_list.simps)
  then show ?thesis by (simp add: vprintf_def kprintf_def console_out_def)
qed

theorem snprintf_truncates_witness:
  "snprintf (Some (replicate 6 0xff)) 4 [0x61, 0x25, 0x33, 0x63] [0x62] (\<lambda>a. 0)
     = Some (4, (\<lambda>a. 0), [0x61, 0x20, 0x20, 0, 0xff, 0xff])"
  using snprintf_truncates [OF vprintf_example, of 4 "replicate 6 0xff" "\<lambda>a. 0"]
  by (simp add: eval_nat_numeral)

end
