(* ===== verification/Console_Io.thy ===== *)
theory Console_Io
  imports Text_Console Printf
begin

text \<open>
  The console of the kernel (Kernel/StdioSupport.cc, Drivers/Common/Console/Console.cc,
  Drivers/X86/Console/EarlySerial.cc, the end of CLibrary/stdio.c): every character goes to the
  serial port and to the registered consoles that are enabled, and what is typed is kept in a
  buffer. The consoles are VGA screens, in the order of their registration; the wait for the
  serial port to become ready is left out, and the bytes it has sent are kept in order.
\<close>

section \<open>State and operations\<close>

record stdio =
  nested :: bool
  isDisabledM :: bool
  serial :: "u8 list"
  consoleList :: "(bool \<times> screen) list"
  consoleBuffer :: "nat \<Rightarrow> u8"
  consoleBufferPosition :: nat

definition consoleBufferSize :: nat where
  "consoleBufferSize = 4096"

definition registerConsole :: "screen \<Rightarrow> stdio \<Rightarrow> stdio" where
  "registerConsole c s = s\<lparr>consoleList := consoleList s @ [(False, c)]\<rparr>"

text \<open>A newline is followed by a carriage return; the character is compared as an \<open>int\<close>.\<close>

definition serial_putChar :: "u32 \<Rightarrow> stdio \<Rightarrow> stdio" where
  "serial_putChar ch s =
     (if isDisabledM s then s
      else let s = s\<lparr>serial := serial s @ [ucast ch]\<rparr>
           in if ch = 0x0a then s\<lparr>serial := serial s @ [0x0d]\<rparr> else s)"

fun foreachConsole :: "(bool \<times> screen \<Rightarrow> (bool \<times> screen) res) \<Rightarrow> (bool \<times> screen) list \<Rightarrow> (bool \<times> screen) list res" where
  "foreachConsole f [] = Inr []"
| "foreachConsole f (c # cs) = bindr (f c) (\<lambda>c. bindr (foreachConsole f cs) (\<lambda>cs. Inr (c # cs)))"

definition console_putchar :: "u32 \<Rightarrow> stdio \<Rightarrow> (u32 \<times> stdio) res" where
  "console_putchar ch s =
     (if \<not> nested s then
        let s = serial_putChar ch (s\<lparr>nested := True\<rparr>)
        in bindr (foreachConsole (\<lambda>(on, con). if on then bindr (fb_putChar (ucast ch) con) (\<lambda>con. Inr (on, con))
                                             else Inr (on, con)) (consoleList s))
             (\<lambda>cs. Inr (ch, s\<lparr>consoleList := cs, nested := False\<rparr>))
      else Inr (ch, s))"

text \<open>\<open>console_puts\<close> on the characters of a string; a \<open>char\<close> is signed.\<close>

fun console_puts :: "u8 list \<Rightarrow> stdio \<Rightarrow> (u32 \<times> stdio) res" where
  "console_puts [] s = Inr (1, s)"
| "console_puts (c # cs) s = bindr (console_putchar (scast c) s) (\<lambda>(r, s). console_puts cs s)"

definition c_putchar :: "u32 \<Rightarrow> stdio \<Rightarrow> (u32 \<times> stdio) res" where
  "c_putchar c s = console_putchar c s"

definition c_puts :: "u8 list \<Rightarrow> stdio \<Rightarrow> (u32 \<times> stdio) res" where
  "c_puts string s =
     bindr (console_puts string s) (\<lambda>(len, s). bindr (console_putchar 0x0a s) (\<lambda>(r, s). Inr (len + r, s)))"

text \<open>\<open>printf\<close> on the console: the characters of its text through \<open>putchar\<close>.\<close>

fun put_text :: "u8 list \<Rightarrow> stdio \<Rightarrow> stdio res" where
  "put_text [] s = Inr s"
| "put_text (c # cs) s = bindr (c_putchar (scast c) s) (\<lambda>(r, s). put_text cs s)"

definition console_printf :: "u8 list \<Rightarrow> u32 list \<Rightarrow> mem \<Rightarrow> stdio \<Rightarrow> (int \<times> stdio) res" where
  "console_printf fmt ap m s =
     (case printf fmt ap m of
        None \<Rightarrow> Inl (PANIC ''undefined'')
      | Some (rv, m, cs) \<Rightarrow> bindr (put_text cs s) (\<lambda>s. Inr (rv, s)))"

text \<open>"Console buffer overrun!" and a newline.\<close>

definition overrun_text :: "u8 list" where
  "overrun_text = [0x43, 0x6f, 0x6e, 0x73, 0x6f, 0x6c, 0x65, 0x20, 0x62, 0x75, 0x66, 0x66, 0x65, 0x72, 0x20,
     0x6f, 0x76, 0x65, 0x72, 0x72, 0x75, 0x6e, 0x21, 0x0a]"

definition console_feed :: "u32 \<Rightarrow> stdio \<Rightarrow> (u32 \<times> stdio) res" where
  "console_feed c s =
     (if consoleBufferPosition s = consoleBufferSize
      then bindr (console_printf overrun_text [] (\<lambda>a. 0) s) (\<lambda>(rv, s). Inr (0, s))
      else bindr (console_putchar c s) (\<lambda>(r, s).
        Inr (1, s\<lparr>consoleBuffer := (consoleBuffer s)(consoleBufferPosition s := ucast c),
                  consoleBufferPosition := consoleBufferPosition s + 1\<rparr>)))"

text \<open>With an empty buffer \<open>console_getchar\<close> waits: it has no result until a character is fed.\<close>

definition console_getchar :: "stdio \<Rightarrow> (u32 \<times> stdio) option" where
  "console_getchar s =
     (if consoleBufferPosition s = 0 then None
      else let s = s\<lparr>consoleBufferPosition := consoleBufferPosition s - 1\<rparr>
           in Some (scast (consoleBuffer s (consoleBufferPosition s)), s))"

definition c_getchar :: "stdio \<Rightarrow> (u32 \<times> stdio) option" where
  "c_getchar s = console_getchar s"

text \<open>
  \<open>gets_s\<close> writes to the buffer \<open>str\<close> of \<open>size\<close> bytes; \<open>None\<close> when it waits for ever or writes
  outside of the buffer.
\<close>

definition str_write :: "nat \<Rightarrow> u8 \<Rightarrow> u8 list \<Rightarrow> u8 list option" where
  "str_write i c str = (if i < length str then Some (str[i := c]) else None)"

function discard_line :: "stdio \<Rightarrow> stdio option" where
  "discard_line s = (case c_getchar s of
     None \<Rightarrow> None
   | Some (c, s) \<Rightarrow> if c \<noteq> 0x0a then discard_line s else Some s)"
  by pat_completeness auto
termination
  by (relation "measure consoleBufferPosition")
    (auto simp: c_getchar_def console_getchar_def Let_def split: if_splits)

function gets_loop :: "nat \<Rightarrow> nat \<Rightarrow> u8 list \<Rightarrow> stdio \<Rightarrow> (u8 list \<times> stdio) option" where
  "gets_loop n i str s =
     (if i < n then
        (case c_getchar s of
           None \<Rightarrow> None
         | Some (c, s) \<Rightarrow> (case str_write i (ucast c) str of
             None \<Rightarrow> None
           | Some str \<Rightarrow>
               if str ! i = 0x0a then map_option (\<lambda>str. (str, s)) (str_write i 0 str)
               else gets_loop n (i + 1) str s))
      else
        (case discard_line s of
           None \<Rightarrow> None
         | Some s \<Rightarrow> map_option (\<lambda>str. (str, s)) (str_write n 0 str)))"
  by pat_completeness auto
termination
  by (relation "measure (\<lambda>(n, i, str, s). n - i)") auto

declare discard_line.simps [simp del] gets_loop.simps [simp del]

definition gets_s :: "u8 list \<Rightarrow> u32 \<Rightarrow> stdio \<Rightarrow> (u8 list \<times> stdio) option" where
  "gets_s str sz s = gets_loop (unat (sz - 1)) 0 str s"

section \<open>What is shown\<close>

text \<open>
  The specification: the serial line receives the characters with a carriage return after every
  newline, an enabled console shows them on its terminal, and a disabled one does not change.
\<close>

definition serial_text :: "u8 list \<Rightarrow> u8 list" where
  "serial_text cs = concat (map (\<lambda>c. if c = 0x0a then [0x0a, 0x0d] else [c]) cs)"

definition shows_text :: "u8 list \<Rightarrow> bool \<times> screen \<Rightarrow> bool \<times> screen \<Rightarrow> bool" where
  "shows_text cs c c' \<longleftrightarrow> fst c' = fst c \<and>
     (if fst c then screen_ok (snd c') \<and> same_frame (snd c) (snd c') \<and> (cs \<noteq> [] \<or> cursor_shown (snd c) \<longrightarrow> cursor_shown (snd c')) \<and>
        terminal_of (snd c') = fold (type_char (cell_of (snd c))) cs (terminal_of (snd c))
      else snd c' = snd c)"

definition stdio_ok :: "stdio \<Rightarrow> bool" where
  "stdio_ok s \<longleftrightarrow> \<not> nested s \<and> (\<forall>c \<in> set (consoleList s). fst c \<longrightarrow> screen_ok (snd c))"

text \<open>\<open>wrote cs s s'\<close>: from \<open>s\<close> to \<open>s'\<close> the text \<open>cs\<close> was shown, and nothing else changed.\<close>

definition wrote :: "u8 list \<Rightarrow> stdio \<Rightarrow> stdio \<Rightarrow> bool" where
  "wrote cs s s' \<longleftrightarrow> stdio_ok s' \<and> isDisabledM s' = isDisabledM s \<and>
     serial s' = (if isDisabledM s then serial s else serial s @ serial_text cs) \<and>
     list_all2 (shows_text cs) (consoleList s) (consoleList s') \<and>
     consoleBuffer s' = consoleBuffer s \<and> consoleBufferPosition s' = consoleBufferPosition s"

lemma shows_text_trans:
  "shows_text xs a b \<Longrightarrow> shows_text ys b c \<Longrightarrow> shows_text (xs @ ys) a c"
  by (auto simp: shows_text_def same_frame_def split: if_splits)

lemma wrote_trans:
  assumes "wrote xs a b" "wrote ys b c"
  shows "wrote (xs @ ys) a c"
proof -
  have "list_all2 (shows_text (xs @ ys)) (consoleList a) (consoleList c)"
    using assms by (auto simp: wrote_def intro: list_all2_trans [OF shows_text_trans])
  then show ?thesis using assms by (simp add: wrote_def serial_text_def)
qed

lemma wrote_nothing: "stdio_ok s \<Longrightarrow> wrote [] s s"
  by (auto simp: wrote_def stdio_ok_def serial_text_def shows_text_def same_frame_def list_all2_same)

lemma foreachConsole_shows:
  assumes "\<forall>c \<in> set cs. fst c \<longrightarrow> screen_ok (snd c)"
  shows "\<exists>cs'. foreachConsole (\<lambda>(on, con). if on then bindr (fb_putChar ch con) (\<lambda>con. Inr (on, con))
      else Inr (on, con)) cs = Inr cs' \<and> list_all2 (shows_text [ch]) cs cs'"
  using assms
proof (induction cs)
  case (Cons c cs)
  obtain on con where c: "c = (on, con)" by fastforce
  obtain cs' where cs': "foreachConsole (\<lambda>(on, con). if on then bindr (fb_putChar ch con) (\<lambda>con. Inr (on, con))
      else Inr (on, con)) cs = Inr cs'" "list_all2 (shows_text [ch]) cs cs'"
    using Cons by auto
  show ?case
  proof (cases on)
    case True
    then have "screen_ok con" using Cons.prems c by simp
    then obtain con' where "fb_putChar ch con = Inr con'" "screen_ok con'" "same_frame con con'"
        "cursor_shown con'" "terminal_of con' = type_char (cell_of con) ch (terminal_of con)"
      by (rule fb_putChar_refines)
    then have "shows_text [ch] c (True, con')" using True c by (simp add: shows_text_def)
    then show ?thesis using cs' True c \<open>fb_putChar ch con = Inr con'\<close> by (simp add: bindr_def)
  next
    case False
    then have "shows_text [ch] c c" using c by (simp add: shows_text_def)
    then show ?thesis using cs' False c by (simp add: bindr_def)
  qed
qed simp

lemma putchar_wrote:
  assumes "stdio_ok s" "ucast ch = c" "ch = 0x0a \<longleftrightarrow> c = 0x0a"
  shows "\<exists>s'. console_putchar ch s = Inr (ch, s') \<and> wrote [c] s s'"
proof -
  obtain cs' where cs': "foreachConsole (\<lambda>(on, con). if on then bindr (fb_putChar c con) (\<lambda>con. Inr (on, con))
      else Inr (on, con)) (consoleList s) = Inr cs'" "list_all2 (shows_text [c]) (consoleList s) cs'"
    using foreachConsole_shows [of "consoleList s" c] assms(1) by (auto simp: stdio_ok_def)
  have ok: "\<forall>c \<in> set cs'. fst c \<longrightarrow> screen_ok (snd c)"
    using cs'(2)
  proof (induction rule: list_all2_induct)
    case (Cons x xs y ys)
    then show ?case by (cases "fst x") (simp_all add: shows_text_def)
  qed simp
  show ?thesis
    using assms cs' ok
    by (auto simp: console_putchar_def serial_putChar_def Let_def bindr_def wrote_def stdio_ok_def serial_text_def)
qed

lemma wrote_ok: "wrote cs s s' \<Longrightarrow> stdio_ok s'"
  by (simp add: wrote_def)

lemma char_int:
  fixes c :: u8
  shows "ucast (scast c :: u32) = c" "(scast c :: u32) = 0x0a \<longleftrightarrow> c = 0x0a"
proof -
  show u: "ucast (scast c :: u32) = c" by (rule bit_word_eqI) (simp add: bit_simps)
  show "(scast c :: u32) = 0x0a \<longleftrightarrow> c = 0x0a"
  proof
    assume "(scast c :: u32) = 0x0a"
    then show "c = 0x0a" using u by simp
  qed simp
qed

lemma char_wrote:
  assumes "stdio_ok s"
  shows "\<exists>s'. console_putchar (scast c) s = Inr (scast c, s') \<and> wrote [c] s s'"
  using assms by (intro putchar_wrote) (simp_all add: char_int)

lemma put_text_wrote:
  assumes "stdio_ok s"
  shows "\<exists>s'. put_text cs s = Inr s' \<and> console_puts cs s = Inr (1, s') \<and> wrote cs s s'"
  using assms
proof (induction cs arbitrary: s)
  case Nil
  then show ?case by (simp add: wrote_nothing)
next
  case (Cons c cs)
  obtain s1 where s1: "console_putchar (scast c) s = Inr (scast c, s1)" "wrote [c] s s1"
    using char_wrote [OF Cons.prems] by blast
  obtain s2 where s2: "put_text cs s1 = Inr s2" "console_puts cs s1 = Inr (1, s2)" "wrote cs s1 s2"
    using Cons.IH [OF wrote_ok [OF s1(2)]] by blast
  then show ?case using s1 wrote_trans [OF s1(2) s2(3)] by (simp add: c_putchar_def bindr_def)
qed

lemma puts_wrote:
  assumes "stdio_ok s"
  shows "\<exists>s'. c_puts cs s = Inr (11, s') \<and> wrote (cs @ [0x0a]) s s'"
proof -
  obtain s1 where s1: "console_puts cs s = Inr (1, s1)" "wrote cs s s1"
    using put_text_wrote [OF assms] by blast
  obtain s2 where s2: "console_putchar 0x0a s1 = Inr (0x0a, s2)" "wrote [0x0a] s1 s2"
    using putchar_wrote [OF wrote_ok [OF s1(2)], of "0x0a" "0x0a"] by auto
  then show ?thesis using s1 wrote_trans [OF s1(2) s2(2)] by (simp add: c_puts_def bindr_def)
qed

lemma printf_wrote:
  assumes "stdio_ok s" "vprintf fmt ap m = Some (rv, m', cs)"
  shows "\<exists>s'. console_printf fmt ap m s = Inr (rv, s') \<and> wrote cs s s'"
  using put_text_wrote [OF assms(1), of cs] assms(2)
  by (auto simp: console_printf_def printf_def vprintf_def bindr_def)

text \<open>On a screen of fewer cells the scroll runs behind the mapping.\<close>

lemma newline_faults:
  assumes "\<not> nested s" "consoleList s = (True, c) # rest" "currentRow c = 24" "80 \<le> mapped c" "mapped c < 2055"
  shows "c_puts [] s = Inl page_fault"
proof -
  have "scrollScreen (c\<lparr>currentRow := 25\<rparr>) = Inl page_fault" using assms(4,5) by (intro scrollScreen_fault) simp_all
  then have "fb_putChar 0x0a c = Inl page_fault"
    using assms(3) by (simp add: fb_putChar_def fb_char_def stepRow_def VgaRows_def Let_def bindr_def)
  then show ?thesis
    using assms(1,2) by (simp add: c_puts_def console_putchar_def serial_putChar_def bindr_def Let_def)
qed

text \<open>
  C19. Text on the console. Every enabled console is in order: its cursor is on the screen, and 2055 cells
  can be read. The screen has 2000 cells and the console maps one page of 2048 for it, so the last seven
  are whatever is mapped behind that page; scrolling reads them. No call is nested in another, and the
  format of \<open>printf\<close> has a result. Then \<open>puts\<close> and \<open>printf\<close> do not fault: the serial line, unless it is
  disabled, gets the text with a carriage return after every newline, and every enabled console becomes
  the terminal on which the text has been typed (wrapped at the 80th column, scrolled after the 25th
  line, tabs to multiples of eight) with its cursor at the end, while the memory behind the screen,
  the disabled consoles and the input buffer do not change. \<open>puts\<close> returns 11, whatever the text is.
  With fewer than 2055 cells, a newline in the last line of the first console, when it is enabled, is a page fault.
\<close>

theorem console_shows_text:
  assumes "stdio_ok s" "vprintf fmt ap m = Some (rv, m', cs)"
  shows "(\<exists>s'. console_printf fmt ap m s = Inr (rv, s') \<and> wrote cs s s') \<and>
    (\<exists>s'. c_puts cs s = Inr (11, s') \<and> wrote (cs @ [0x0a]) s s') \<and>
    (\<forall>t c rest. \<not> nested t \<and> consoleList t = (True, c) # rest \<and> currentRow c = 24 \<and> 80 \<le> mapped c \<and> mapped c < 2055 \<longrightarrow>
       c_puts [] t = Inl page_fault)"
  using printf_wrote [OF assms] puts_wrote [OF assms(1)] newline_faults by blast

text \<open>A kernel with one enabled screen and a serial port, showing "ab" and a newline.\<close>

definition sample_stdio :: stdio where
  "sample_stdio = \<lparr>nested = False, isDisabledM = False, serial = [],
     consoleList = [(True, \<lparr>vram = (\<lambda>i. 0), mapped = 4096, backgroundColor = 1, foregroundColor = 15,
       crtLow = 0, crtHigh = 0, currentRow = 24, currentColumn = 0\<rparr>)],
     consoleBuffer = (\<lambda>i. 0), consoleBufferPosition = 0\<rparr>"

lemma sample_stdio_ok: "stdio_ok sample_stdio"
  by (simp add: stdio_ok_def sample_stdio_def screen_ok_def)

theorem console_shows_text_witness:
  "\<exists>s'. c_puts [0x61, 0x62] sample_stdio = Inr (11, s') \<and> serial s' = [0x61, 0x62, 0x0a, 0x0d]"
proof -
  have "vprintf [0x61, 0x62] [] (\<lambda>a. 0) = Some (2, (\<lambda>a. 0), [0x61, 0x62])"
    using vprintf_literal [of "[0x61, 0x62]" "[]" "\<lambda>a. 0"] by simp
  from console_shows_text [OF sample_stdio_ok this] obtain s' where
    "c_puts [0x61, 0x62] sample_stdio = Inr (11, s')" "wrote [0x61, 0x62, 0x0a] sample_stdio s'"
    by auto
  moreover have "\<not> isDisabledM sample_stdio" "serial sample_stdio = []" by (simp_all add: sample_stdio_def)
  ultimately show ?thesis by (auto simp: wrote_def serial_text_def)
qed

section \<open>What is typed\<close>

text \<open>The characters in the buffer, the oldest first.\<close>

definition pending :: "stdio \<Rightarrow> u8 list" where
  "pending s = map (consoleBuffer s) [0..<consoleBufferPosition s]"

text \<open>\<open>typed cs s s'\<close>: the characters \<open>cs\<close> were appended to the buffer and shown, and nothing else changed.\<close>

definition typed :: "u8 list \<Rightarrow> stdio \<Rightarrow> stdio \<Rightarrow> bool" where
  "typed cs s s' \<longleftrightarrow> pending s' = pending s @ cs \<and>
     wrote cs s (s'\<lparr>consoleBuffer := consoleBuffer s, consoleBufferPosition := consoleBufferPosition s\<rparr>)"

lemma stdio_ok_buffer [simp]:
  "stdio_ok (s\<lparr>consoleBuffer := b, consoleBufferPosition := n\<rparr>) = stdio_ok s"
  by (simp add: stdio_ok_def)

lemma typed_ok: "typed cs s s' \<Longrightarrow> stdio_ok s'"
  by (auto simp: typed_def wrote_def stdio_ok_def)

lemma typed_nothing: "stdio_ok s \<Longrightarrow> typed [] s s"
  using wrote_nothing by (simp add: typed_def)

lemma typed_trans:
  assumes "typed xs a b" "typed ys b c"
  shows "typed (xs @ ys) a c"
proof -
  let ?b = "b\<lparr>consoleBuffer := consoleBuffer a, consoleBufferPosition := consoleBufferPosition a\<rparr>"
  let ?c = "c\<lparr>consoleBuffer := consoleBuffer a, consoleBufferPosition := consoleBufferPosition a\<rparr>"
  have "wrote xs a ?b" using assms(1) by (simp add: typed_def)
  moreover have "wrote ys ?b ?c" using assms(2) by (simp add: typed_def wrote_def)
  ultimately show ?thesis using wrote_trans assms by (simp add: typed_def)
qed

lemma feed_appends:
  assumes "stdio_ok s" "length (pending s) < consoleBufferSize" "ucast ch = c" "ch = 0x0a \<longleftrightarrow> c = 0x0a"
  shows "\<exists>s'. console_feed ch s = Inr (1, s') \<and> typed [c] s s'"
proof -
  obtain s1 where s1: "console_putchar ch s = Inr (ch, s1)" "wrote [c] s s1"
    using putchar_wrote [OF assms(1,3,4)] by blast
  let ?s = "s1\<lparr>consoleBuffer := (consoleBuffer s1)(consoleBufferPosition s1 := c),
    consoleBufferPosition := consoleBufferPosition s1 + 1\<rparr>"
  have "consoleBufferPosition s \<noteq> consoleBufferSize" using assms(2) by (simp add: pending_def)
  then have "console_feed ch s = Inr (1, ?s)" using s1(1) assms(3) by (simp add: console_feed_def bindr_def)
  moreover have "typed [c] s ?s" using s1(2) by (simp add: typed_def wrote_def pending_def)
  ultimately show ?thesis by blast
qed

lemma getchar_takes_last:
  assumes "pending s = xs @ [c]"
  shows "\<exists>s'. c_getchar s = Some (scast c, s') \<and> pending s' = xs \<and> stdio_ok s' = stdio_ok s"
proof -
  have len: "consoleBufferPosition s = Suc (length xs)"
    using arg_cong [OF assms, of length] by (simp add: pending_def)
  then have "map (consoleBuffer s) [0..<length xs] = xs \<and> consoleBuffer s (length xs) = c"
    using assms by (simp add: pending_def)
  then show ?thesis using len by (simp add: c_getchar_def console_getchar_def Let_def pending_def stdio_ok_def)
qed

lemma feed_full:
  assumes "stdio_ok s" "length (pending s) = consoleBufferSize"
  shows "\<exists>s'. console_feed ch s = Inr (0, s') \<and> wrote overrun_text s s'"
proof -
  have "vprintf overrun_text [] (\<lambda>a. 0) = Some (int (length overrun_text), (\<lambda>a. 0), overrun_text)"
    by (rule vprintf_literal) (simp_all add: overrun_text_def)
  from printf_wrote [OF assms(1) this] show ?thesis
    using assms(2) by (auto simp: console_feed_def pending_def bindr_def)
qed

fun feed_all :: "u8 list \<Rightarrow> stdio \<Rightarrow> stdio res" where
  "feed_all [] s = Inr s"
| "feed_all (c # cs) s = bindr (console_feed (scast c) s) (\<lambda>(r, s). feed_all cs s)"

fun get_all :: "nat \<Rightarrow> stdio \<Rightarrow> (u32 list \<times> stdio) option" where
  "get_all 0 s = Some ([], s)"
| "get_all (Suc n) s = do { (c, s) \<leftarrow> c_getchar s; (cs, s) \<leftarrow> get_all n s; Some (c # cs, s) }"

lemma feed_all_appends:
  assumes "stdio_ok s" "length (pending s) + length cs \<le> consoleBufferSize"
  shows "\<exists>s'. feed_all cs s = Inr s' \<and> typed cs s s'"
  using assms
proof (induction cs arbitrary: s)
  case Nil
  then show ?case by (simp add: typed_nothing)
next
  case (Cons c cs)
  obtain s1 where s1: "console_feed (scast c) s = Inr (1, s1)" "typed [c] s s1"
    using feed_appends [of s "scast c" c] Cons.prems by (auto simp: char_int)
  then have "pending s1 = pending s @ [c]" by (simp add: typed_def)
  then obtain s2 where s2: "feed_all cs s1 = Inr s2" "typed cs s1 s2"
    using Cons.IH [of s1] typed_ok [OF s1(2)] Cons.prems(2) by auto
  then show ?case using s1 typed_trans [OF s1(2) s2(2)] by (simp add: bindr_def)
qed

lemma get_all_reverses:
  "pending s = xs @ cs \<Longrightarrow> \<exists>s'. get_all (length cs) s = Some (map scast (rev cs), s') \<and> pending s' = xs"
proof (induction cs arbitrary: s rule: rev_induct)
  case (snoc c cs)
  obtain s1 where "c_getchar s = Some (scast c, s1)" "pending s1 = xs @ cs"
    using getchar_takes_last [of s "xs @ cs" c] snoc.prems by auto
  then show ?case using snoc.IH [of s1] by auto
qed simp

lemma gets_newline_first:
  assumes "pending s = xs @ [0x0a]" "1 < sz" "str \<noteq> []"
  shows "\<exists>s'. gets_s str sz s = Some (str[0 := 0], s') \<and> pending s' = xs"
proof -
  obtain s1 where s1: "c_getchar s = Some (scast (0x0a :: u8), s1)" "pending s1 = xs"
    using getchar_takes_last [OF assms(1)] by auto
  have "0 < unat (sz - 1)" using assms(2) by (metis less_irrefl right_minus_eq unat_gt_0)
  then show ?thesis using s1 assms(3)
    by (auto simp: gets_s_def gets_loop.simps [of _ 0] str_write_def)
qed

text \<open>
  C20. What is typed. The consoles are in order (as for C19) and the input buffer, of 4096 characters, is empty.
  While there is room, each character that is fed is accepted with 1, kept, and shown on the serial line
  and on every enabled console; with a full buffer, one more is refused with 0, the buffer stays
  as it is and a message about the overrun is shown. The buffer is read from the wrong end:
  characters that were typed ahead come back in reverse order, so that \<open>gets_s\<close>, with a buffer of two or
  more bytes, after a whole line returns the empty string and leaves the line behind. Reading
  from an empty buffer waits.
\<close>

theorem typed_ahead_is_reversed:
  assumes "stdio_ok s" "pending s = []" "length cs \<le> consoleBufferSize"
  shows "\<exists>s1. feed_all cs s = Inr s1 \<and> typed cs s s1 \<and> pending s1 = cs \<and> c_getchar s = None \<and>
    (\<exists>s2. get_all (length cs) s1 = Some (map scast (rev cs), s2) \<and> pending s2 = []) \<and>
    (if length cs < consoleBufferSize then \<exists>s2. console_feed (scast c) s1 = Inr (1, s2) \<and> typed [c] s1 s2
     else \<exists>s2. console_feed (scast c) s1 = Inr (0, s2) \<and> wrote overrun_text s1 s2 \<and> pending s2 = cs) \<and>
    (\<forall>line str sz. cs = line @ [0x0a] \<and> 1 < sz \<and> str \<noteq> [] \<longrightarrow>
       (\<exists>s2. gets_s str sz s1 = Some (str[0 := 0], s2) \<and> pending s2 = line))"
proof -
  obtain s1 where s1: "feed_all cs s = Inr s1" "typed cs s s1"
    using feed_all_appends [OF assms(1), of cs] assms(2,3) by auto
  have ok: "stdio_ok s1" using s1(2) by (rule typed_ok)
  have p: "pending s1 = cs" using s1(2) assms(2) by (simp add: typed_def)
  have "c_getchar s = None" using assms(2) by (simp add: pending_def c_getchar_def console_getchar_def)
  moreover have "\<exists>s2. console_feed (scast c) s1 = Inr (1, s2) \<and> typed [c] s1 s2" if "length cs < consoleBufferSize"
    using feed_appends [OF ok, of "scast c" c] p that by (simp add: char_int)
  moreover have "\<exists>s2. console_feed (scast c) s1 = Inr (0, s2) \<and> wrote overrun_text s1 s2 \<and> pending s2 = cs"
    if "\<not> length cs < consoleBufferSize"
    using feed_full [OF ok, of "scast c"] p that assms(3) by (auto simp: wrote_def pending_def)
  ultimately show ?thesis
    using s1 p get_all_reverses [of s1 "[]" cs] gets_newline_first [of s1] by auto
qed

text \<open>The line "hi", typed ahead: \<open>gets_s\<close> returns the empty string.\<close>

theorem typed_ahead_is_reversed_witness:
  "\<exists>s1 s2. feed_all [0x68, 0x69, 0x0a] sample_stdio = Inr s1 \<and>
     gets_s [7, 7, 7] 3 s1 = Some ([0, 7, 7], s2) \<and> pending s2 = [0x68, 0x69]"
proof -
  have "pending sample_stdio = []" "length [0x68, 0x69, 0x0a :: u8] \<le> consoleBufferSize"
    by (simp_all add: pending_def sample_stdio_def consoleBufferSize_def)
  from typed_ahead_is_reversed [OF sample_stdio_ok this, of 0]
  obtain s1 where s1: "feed_all [0x68, 0x69, 0x0a] sample_stdio = Inr s1"
    and g: "\<forall>line str sz. [0x68, 0x69, 0x0a] = line @ [0x0a] \<and> 1 < sz \<and> str \<noteq> [] \<longrightarrow>
       (\<exists>s2. gets_s str sz s1 = Some (str[0 := 0], s2) \<and> pending s2 = line)"
    by blast
  have "\<exists>s2. gets_s [7, 7, 7] 3 s1 = Some ([7, 7, 7][0 := 0], s2) \<and> pending s2 = [0x68, 0x69]"
    by (rule g [rule_format]) simp
  then show ?thesis using s1 by auto
qed

end
