(* ===== verification/Interrupts.thy ===== *)
theory Interrupts
  imports Prelude
begin

text \<open>
  External interrupts (Kernel/Interrupt.cc, Include/Kernel/Interrupt.hh,
  Include/Kernel/InterruptHandler.hh). Every interrupt line has a default handler, which counts,
  and the handlers of drivers are linked behind it in a ring. Handlers are addresses with a
  \<open>next\<close> pointer; the code of a driver's handler is a virtual method, of which the model keeps
  that it ran. The calls of the interrupt controller, an interface as well, are kept in order.
\<close>

section \<open>State and operations\<close>

datatype controller_call = EndOfInterrupt u32 | EnableInterrupt u32 | DisableInterrupt u32

record irq_state =
  handlers :: u32
  hnext :: "u32 \<Rightarrow> u32"
  hcounter :: "u32 \<Rightarrow> u64"
  ran :: "u32 list"
  controller :: u32
  calls :: "controller_call list"

definition MaxInterrupts :: u32 where
  "MaxInterrupts = 16"

text \<open>The static array of default handlers: a vtable pointer, \<open>next\<close> and a 64-bit counter each.\<close>

definition default_handler :: "irq_state \<Rightarrow> nat \<Rightarrow> u32" where
  "default_handler s i = handlers s + of_nat (16 * i)"

definition setNext :: "u32 \<Rightarrow> u32 \<Rightarrow> irq_state \<Rightarrow> irq_state" where
  "setNext h v s = s\<lparr>hnext := (hnext s)(h := v)\<rparr>"

definition getInterruptHandler :: "u32 \<Rightarrow> irq_state \<Rightarrow> u32 res" where
  "getInterruptHandler irq s =
     (if irq < MaxInterrupts then Inr (default_handler s (unat irq))
      else Inl (KASSERT ''interrupt < MaxInterrupts''))"

text \<open>
  The virtual call of \<open>handleInterrupt\<close>: a default handler increments its counter, the others
  run. A call through the null pointer faults.
\<close>

definition is_default :: "irq_state \<Rightarrow> u32 \<Rightarrow> bool" where
  "is_default s h \<longleftrightarrow> (\<exists>i \<in> set [0..<16]. h = default_handler s i)"

definition run_handler :: "u32 \<Rightarrow> irq_state \<Rightarrow> irq_state" where
  "run_handler h s =
     (if is_default s h then s\<lparr>hcounter := (hcounter s)(h := hcounter s h + 1)\<rparr>
      else s\<lparr>ran := ran s @ [h]\<rparr>)"

definition null_fault :: panic where
  "null_fault = PANIC ''null handler''"

partial_function (option) executeAllHandlers :: "u32 \<Rightarrow> u32 \<Rightarrow> irq_state \<Rightarrow> irq_state res option" where
  "executeAllHandlers this handler s =
     (if handler = 0 then Some (Inl null_fault)
      else
        let s = run_handler handler s;
            handler = hnext s handler
        in if handler \<noteq> this then executeAllHandlers this handler s else Some (Inr s))"

text \<open>The loops to the last handler of the ring; the second keeps the one before it.\<close>

partial_function (option) last_handler :: "u32 \<Rightarrow> u32 \<Rightarrow> irq_state \<Rightarrow> u32 res option" where
  "last_handler h p s =
     (if p = 0 then Some (Inl null_fault)
      else if hnext s p \<noteq> h then last_handler h (hnext s p) s else Some (Inr p))"

partial_function (option) last_two :: "u32 \<Rightarrow> u32 \<Rightarrow> u32 \<Rightarrow> irq_state \<Rightarrow> (u32 \<times> u32) res option" where
  "last_two h prev p s =
     (if p = 0 then Some (Inl null_fault)
      else if hnext s p \<noteq> h then last_two h p (hnext s p) s else Some (Inr (prev, p)))"

definition appendHandler :: "u32 \<Rightarrow> u32 \<Rightarrow> irq_state \<Rightarrow> irq_state res option" where
  "appendHandler h handler s =
     map_option (map_sum id (\<lambda>p.
         let oldNext = hnext s p;
             s = setNext p handler s
         in setNext handler oldNext s)) (last_handler h h s)"

definition removeHandler :: "u32 \<Rightarrow> u32 \<Rightarrow> irq_state \<Rightarrow> irq_state res option" where
  "removeHandler h handler s =
     map_option (map_sum id (\<lambda>(prev, p).
         let oldNext = hnext s p;
             s = setNext prev oldNext s
         in setNext handler 0 s)) (last_two h h h s)"

definition registerHandler :: "u32 \<Rightarrow> u32 \<Rightarrow> irq_state \<Rightarrow> (bool \<times> irq_state) res option" where
  "registerHandler irq handler s =
     (if irq \<ge> MaxInterrupts then Some (Inr (False, s))
      else map_option (map_sum id (Pair True))
             (appendHandler (default_handler s (unat irq)) handler s))"

definition deregisterHandler :: "u32 \<Rightarrow> u32 \<Rightarrow> irq_state \<Rightarrow> (bool \<times> irq_state) res option" where
  "deregisterHandler irq handler s =
     (if irq \<ge> MaxInterrupts then Some (Inr (False, s))
      else map_option (map_sum id (Pair False))
             (removeHandler (default_handler s (unat irq)) handler s))"

definition enableInterrupt :: "u32 \<Rightarrow> irq_state \<Rightarrow> (bool \<times> irq_state) res" where
  "enableInterrupt irq s =
     (if controller s \<noteq> 0 then Inr (True, s\<lparr>calls := calls s @ [EnableInterrupt irq]\<rparr>)
      else Inl (KASSERT ''controller != 0''))"

definition disableInterrupt :: "u32 \<Rightarrow> irq_state \<Rightarrow> (bool \<times> irq_state) res" where
  "disableInterrupt irq s =
     (if controller s \<noteq> 0 then Inr (True, s\<lparr>calls := calls s @ [DisableInterrupt irq]\<rparr>)
      else Inl (KASSERT ''controller != 0''))"

definition handleInterrupt :: "u32 \<Rightarrow> irq_state \<Rightarrow> irq_state res option" where
  "handleInterrupt irq s =
     (case getInterruptHandler irq s of
        Inl e \<Rightarrow> Some (Inl e)
      | Inr h \<Rightarrow>
          (case executeAllHandlers h h s of
             None \<Rightarrow> None
           | Some (Inl e) \<Rightarrow> Some (Inl e)
           | Some (Inr s) \<Rightarrow>
               Some (if controller s \<noteq> 0 then Inr (s\<lparr>calls := calls s @ [EndOfInterrupt irq]\<rparr>)
                     else Inl (KASSERT ''controller != 0''))))"

definition setController :: "u32 \<Rightarrow> irq_state \<Rightarrow> irq_state res" where
  "setController c s =
     (if controller s = 0 \<and> c \<noteq> 0 \<or> c = 0 \<and> controller s \<noteq> 0 then Inr (s\<lparr>controller := c\<rparr>)
      else Inl (KASSERT ''(controller == 0 && interruptController != 0) || ...''))"

section \<open>Rings of handlers\<close>

fun path :: "(u32 \<Rightarrow> u32) \<Rightarrow> u32 \<Rightarrow> u32 list \<Rightarrow> u32 \<Rightarrow> bool" where
  "path nx a [] b \<longleftrightarrow> nx a = b"
| "path nx a (x # xs) b \<longleftrightarrow> nx a = x \<and> path nx x xs b"

definition ring :: "(u32 \<Rightarrow> u32) \<Rightarrow> u32 \<Rightarrow> u32 list \<Rightarrow> bool" where
  "ring nx h xs \<longleftrightarrow> distinct (h # xs) \<and> 0 \<notin> set (h # xs) \<and> path nx h xs h"

lemma path_append: "path nx a (xs @ y # ys) b \<longleftrightarrow> path nx a xs y \<and> path nx y ys b"
  by (induction xs arbitrary: a) auto

lemma path_upd [simp]: "u \<notin> set (a # xs) \<Longrightarrow> path (nx(u := v)) a xs b = path nx a xs b"
  by (induction xs arbitrary: a) auto

lemma path_last: "path nx a xs b \<Longrightarrow> nx (last (a # xs)) = b"
  by (induction xs arbitrary: a) auto

lemma ring_upd: "u \<notin> set (h # xs) \<Longrightarrow> ring (nx(u := v)) h xs = ring nx h xs"
  by (simp add: ring_def)

lemma ring_append:
  assumes "ring nx h xs" "n \<notin> set (h # xs)" "n \<noteq> 0"
  shows "ring (nx(last (h # xs) := n, n := h)) h (xs @ [n])"
proof (cases xs rule: rev_cases)
  case Nil
  then show ?thesis using assms by (auto simp: ring_def)
next
  case (snoc ys y)
  then show ?thesis using assms by (auto simp: ring_def path_append)
qed

lemma ring_butlast:
  assumes "ring nx h (xs @ [x])"
  shows "ring (nx(last (h # xs) := h)) h xs"
proof (cases xs rule: rev_cases)
  case Nil
  then show ?thesis using assms by (auto simp: ring_def)
next
  case (snoc ys y)
  then show ?thesis using assms by (auto simp: ring_def path_append)
qed

text \<open>The three loops on a ring, started at any point of it.\<close>

lemma last_handler_path:
  assumes "path (hnext s) p xs h" "0 \<notin> set (p # xs)" "h \<notin> set xs"
  shows "last_handler h p s = Some (Inr (last (p # xs)))"
  using assms
proof (induction xs arbitrary: p)
  case Nil
  then show ?case by (subst last_handler.simps) simp
next
  case (Cons x xs)
  then have "hnext s p = x" "x \<noteq> h" by auto
  with Cons show ?case by (subst last_handler.simps) simp
qed

lemma last_two_path:
  assumes "path (hnext s) p xs h" "0 \<notin> set (p # xs)" "h \<notin> set xs"
  shows "last_two h prev p s = Some (Inr (last (prev # butlast (p # xs)), last (p # xs)))"
  using assms
proof (induction xs arbitrary: p prev)
  case Nil
  then show ?case by (subst last_two.simps) simp
next
  case (Cons x xs)
  then have "hnext s p = x" "x \<noteq> h" by auto
  with Cons show ?case by (subst last_two.simps) simp
qed

lemma run_handler_simps [simp]:
  "hnext (run_handler h s) = hnext s" "handlers (run_handler h s) = handlers s"
  "controller (run_handler h s) = controller s" "calls (run_handler h s) = calls s"
  "default_handler (run_handler h s) i = default_handler s i"
  "is_default (run_handler h s) g = is_default s g"
  by (simp_all add: run_handler_def default_handler_def is_default_def)

lemma executeAll_path:
  assumes "path (hnext s) p xs h" "0 \<notin> set (p # xs)" "h \<notin> set xs"
  shows "executeAllHandlers h p s = Some (Inr (fold run_handler (p # xs) s))"
  using assms
proof (induction xs arbitrary: p s)
  case Nil
  then show ?case by (subst executeAllHandlers.simps) simp
next
  case (Cons x xs)
  then have "hnext s p = x" "x \<noteq> h" by auto
  with Cons show ?case by (subst executeAllHandlers.simps) (simp add: Let_def)
qed

lemma executeAll_null:
  assumes "path (hnext s) p xs 0" "0 \<notin> set (p # xs)" "h \<notin> set xs" "h \<noteq> 0"
  shows "executeAllHandlers h p s = Some (Inl null_fault)"
  using assms
proof (induction xs arbitrary: p s)
  case Nil
  then show ?case by (subst executeAllHandlers.simps) (simp add: executeAllHandlers.simps [of h 0])
next
  case (Cons x xs)
  then have "hnext s p = x" "x \<noteq> h" by auto
  with Cons show ?case by (subst executeAllHandlers.simps) (simp add: Let_def)
qed

lemma fold_run_handlers:
  assumes "\<forall>x \<in> set xs. \<not> is_default s x"
  shows "fold run_handler xs s = s\<lparr>ran := ran s @ xs\<rparr>"
  using assms
proof (induction xs arbitrary: s)
  case (Cons x xs)
  then have "run_handler x s = s\<lparr>ran := ran s @ [x]\<rparr>" by (simp add: run_handler_def)
  moreover have "is_default (s\<lparr>ran := r\<rparr>) y = is_default s y" for r y
    by (simp add: is_default_def default_handler_def)
  ultimately show ?case using Cons by simp
qed simp

section \<open>The invariant of all sixteen lines\<close>

text \<open>
  \<open>cs i\<close> is the list of the drivers' handlers of line \<open>i\<close>, in the order they were registered.
\<close>

definition handlers_ok :: "(nat \<Rightarrow> u32 list) \<Rightarrow> irq_state \<Rightarrow> bool" where
  "handlers_ok cs s \<longleftrightarrow>
     0 < unat (handlers s) \<and> unat (handlers s) + 256 \<le> 2 ^ 32 \<and>
     (\<forall>i < 16. ring (hnext s) (default_handler s i) (cs i)) \<and>
     (\<forall>i < 16. \<forall>x \<in> set (cs i). \<not> is_default s x) \<and>
     (\<forall>i < 16. \<forall>j < 16. i \<noteq> j \<longrightarrow> set (cs i) \<inter> set (cs j) = {})"

definition fresh_handler :: "(nat \<Rightarrow> u32 list) \<Rightarrow> irq_state \<Rightarrow> u32 \<Rightarrow> bool" where
  "fresh_handler cs s h \<longleftrightarrow> h \<noteq> 0 \<and> \<not> is_default s h \<and> (\<forall>i < 16. h \<notin> set (cs i))"

lemma default_handler_inj:
  assumes "handlers_ok cs s" "i < 16" "j < 16"
  shows "default_handler s i = default_handler s j \<longleftrightarrow> i = j"
  unfolding default_handler_def
  using assms add_of_nat_inject [of "16 * i" "16 * j" "handlers s"] by simp

lemma is_default_default: "i < 16 \<Longrightarrow> is_default s (default_handler s i)"
  by (auto simp: is_default_def)

lemma handlers_disjoint:
  "handlers_ok cs s \<Longrightarrow> i < 16 \<Longrightarrow> j < 16 \<Longrightarrow> i \<noteq> j \<Longrightarrow> set (cs i) \<inter> set (cs j) = {}"
  unfolding handlers_ok_def by blast

lemma ring_update_other:
  assumes "handlers_ok cs s" "i < 16" "j < 16" "i \<noteq> j" "u \<in> set (default_handler s i # cs i)"
  shows "u \<notin> set (default_handler s j # cs j)"
proof -
  have "set (cs i) \<inter> set (cs j) = {}" "\<forall>x \<in> set (cs i) \<union> set (cs j). \<not> is_default s x"
    using assms(1-4) unfolding handlers_ok_def by blast+
  then show ?thesis
    using assms(5) default_handler_inj [OF assms(1-3)] assms(2-4) is_default_default [of i s]
      is_default_default [of j s]
    by auto
qed

lemma handlers_ok_cong:
  assumes "handlers_ok cs s" "hnext s' = hnext s" "handlers s' = handlers s"
  shows "handlers_ok cs s'"
  using assms by (simp add: handlers_ok_def default_handler_def is_default_def)

lemma handlers_okD:
  assumes "handlers_ok cs s" "i < 16"
  shows "ring (hnext s) (default_handler s i) (cs i)" "path (hnext s) (default_handler s i) (cs i) (default_handler s i)"
    "0 \<notin> set (default_handler s i # cs i)" "default_handler s i \<notin> set (cs i)"
    "\<forall>x \<in> set (cs i). \<not> is_default s x"
  using assms by (auto simp: handlers_ok_def ring_def)

lemma upd_sets:
  assumes "handlers_ok cs s" "i < 16" "\<forall>x \<in> set xs. \<not> is_default s x \<and> (\<forall>j < 16. j \<noteq> i \<longrightarrow> x \<notin> set (cs j))"
    and "hnext s' = (hnext s)(u := v, w := z)" "handlers s' = handlers s"
    and "\<forall>j < 16. j \<noteq> i \<longrightarrow> u \<notin> set (default_handler s j # cs j) \<and> w \<notin> set (default_handler s j # cs j)"
    and "ring (hnext s') (default_handler s i) xs"
  shows "handlers_ok (cs(i := xs)) s'"
proof -
  have d: "default_handler s' j = default_handler s j" "is_default s' x = is_default s x" for j x
    using assms(5) by (simp_all add: default_handler_def is_default_def)
  have r: "ring (hnext s') (default_handler s' j) ((cs(i := xs)) j)" if "j < 16" for j
    using assms that by (cases "j = i") (simp_all add: d handlers_okD(1) ring_upd)
  have n: "\<forall>x \<in> set ((cs(i := xs)) j). \<not> is_default s' x" if "j < 16" for j
    using assms(3) handlers_okD(5) [OF assms(1) that] by (simp add: d)
  have e: "set ((cs(i := xs)) j) \<inter> set ((cs(i := xs)) k) = {}"
    if "j < 16" "k < 16" "j \<noteq> k" for j k
  proof -
    have "set (cs j) \<inter> set (cs k) = {}" using assms(1) that unfolding handlers_ok_def by blast
    then show ?thesis using assms(3) that by (auto split: if_splits)
  qed
  have b: "0 < unat (handlers s')" "unat (handlers s') + 256 \<le> 2 ^ 32"
    using assms(1,5) by (simp_all add: handlers_ok_def)
  show ?thesis
    unfolding handlers_ok_def by (intro conjI allI impI b r n e)
qed

lemma register_appends:
  assumes "handlers_ok cs s" "irq < MaxInterrupts" "fresh_handler cs s n"
  defines "i \<equiv> unat irq"
  defines "h \<equiv> default_handler s i"
  defines "s' \<equiv> s\<lparr>hnext := (hnext s)(last (h # cs i) := n, n := h)\<rparr>"
  shows "registerHandler irq n s = Some (Inr (True, s'))" "handlers_ok (cs(i := cs i @ [n])) s'"
proof -
  have i: "i < 16" using assms(2) by (simp add: i_def MaxInterrupts_def word_less_nat_alt)
  note D = handlers_okD [OF assms(1) i, folded h_def]
  have l: "last (h # cs i) \<in> set (h # cs i)" by (rule last_in_set) simp
  have n: "n \<notin> set (h # cs i)" "n \<noteq> 0"
    using assms(3) i is_default_default [of i s] by (auto simp: fresh_handler_def h_def)
  have "hnext s (last (h # cs i)) = h" using path_last [OF D(2)] .
  then show "registerHandler irq n s = Some (Inr (True, s'))"
    using assms(2) last_handler_path [OF D(2-4)]
    by (simp add: registerHandler_def appendHandler_def setNext_def s'_def flip: i_def h_def)
  show "handlers_ok (cs(i := cs i @ [n])) s'"
  proof (rule upd_sets [OF assms(1) i])
    show "\<forall>x \<in> set (cs i @ [n]). \<not> is_default s x \<and> (\<forall>j < 16. j \<noteq> i \<longrightarrow> x \<notin> set (cs j))"
      using assms(3) D(5) handlers_disjoint [OF assms(1) i] unfolding fresh_handler_def by fastforce
    show "ring (hnext s') (default_handler s i) (cs i @ [n])"
      using ring_append [OF D(1) n] by (simp add: s'_def h_def)
    show "\<forall>j < 16. j \<noteq> i \<longrightarrow> last (h # cs i) \<notin> set (default_handler s j # cs j) \<and> n \<notin> set (default_handler s j # cs j)"
      using ring_update_other [OF assms(1) i] l assms(3) is_default_default [of _ s]
      by (auto simp: h_def fresh_handler_def)
  qed (simp_all add: s'_def)
qed

lemma dispatch_runs:
  assumes "handlers_ok cs s" "irq < MaxInterrupts" "controller s \<noteq> 0"
  defines "h \<equiv> default_handler s (unat irq)"
  shows "handleInterrupt irq s = Some (Inr (s\<lparr>hcounter := (hcounter s)(h := hcounter s h + 1),
      ran := ran s @ cs (unat irq), calls := calls s @ [EndOfInterrupt irq]\<rparr>))"
proof -
  have i: "unat irq < 16" using assms(2) by (simp add: MaxInterrupts_def word_less_nat_alt)
  note D = handlers_okD [OF assms(1) i, folded h_def]
  have "run_handler h s = s\<lparr>hcounter := (hcounter s)(h := hcounter s h + 1)\<rparr>"
    using is_default_default [OF i, of s] by (simp add: run_handler_def h_def)
  moreover have "is_default (s\<lparr>hcounter := c\<rparr>) x = is_default s x" for c x
    by (simp add: is_default_def default_handler_def)
  ultimately have "fold run_handler (h # cs (unat irq)) s
      = s\<lparr>hcounter := (hcounter s)(h := hcounter s h + 1), ran := ran s @ cs (unat irq)\<rparr>"
    using fold_run_handlers [of "cs (unat irq)" "run_handler h s"] D(5) by simp
  then show ?thesis
    using executeAll_path [OF D(2-4)] assms(2,3)
    by (simp add: handleInterrupt_def getInterruptHandler_def flip: h_def)
qed

text \<open>
  C17. Registering a new handler on a line succeeds and keeps the rings of all sixteen lines; an
  interrupt on that line then counts once, runs the line's handlers exactly once each in the
  order in which they were registered, the new one last, signals the end of the interrupt to the
  controller and leaves all rings as they are. A line number of 16 or more is refused by
  \<open>registerHandler\<close> without effect and is a failed assertion in \<open>handleInterrupt\<close>.
\<close>

theorem register_then_dispatch:
  assumes "handlers_ok cs s" "fresh_handler cs s n" "controller s \<noteq> 0"
  shows "if irq < MaxInterrupts
    then \<exists>s1 s2. registerHandler irq n s = Some (Inr (True, s1)) \<and>
      handlers_ok (cs(unat irq := cs (unat irq) @ [n])) s1 \<and>
      handleInterrupt irq s1 = Some (Inr s2) \<and>
      handlers_ok (cs(unat irq := cs (unat irq) @ [n])) s2 \<and>
      ran s2 = ran s @ cs (unat irq) @ [n] \<and>
      (\<forall>h. hcounter s2 h = hcounter s h + (if h = default_handler s (unat irq) then 1 else 0)) \<and>
      calls s2 = calls s @ [EndOfInterrupt irq]
    else registerHandler irq n s = Some (Inr (False, s)) \<and>
      handleInterrupt irq s = Some (Inl (KASSERT ''interrupt < MaxInterrupts''))"
proof (cases "irq < MaxInterrupts")
  case True
  let ?h = "default_handler s (unat irq)"
  let ?s1 = "s\<lparr>hnext := (hnext s)(last (?h # cs (unat irq)) := n, n := ?h)\<rparr>"
  let ?cs = "cs(unat irq := cs (unat irq) @ [n])"
  note r = register_appends [OF assms(1) True assms(2)]
  have d: "default_handler ?s1 i = default_handler s i" for i by (simp add: default_handler_def)
  have c: "controller ?s1 \<noteq> 0" using assms(3) by simp
  note h = dispatch_runs [OF r(2) True c, unfolded d]
  let ?s2 = "?s1\<lparr>hcounter := (hcounter ?s1)(?h := hcounter ?s1 ?h + 1),
      ran := ran ?s1 @ ?cs (unat irq), calls := calls ?s1 @ [EndOfInterrupt irq]\<rparr>"
  have "handlers_ok ?cs ?s2" by (rule handlers_ok_cong [OF r(2)]) simp_all
  then show ?thesis
    unfolding if_P [OF True]
    by (intro exI [of _ ?s1] exI [of _ ?s2] conjI r h) simp_all
next
  case False
  then show ?thesis
    unfolding if_not_P [OF False]
    by (intro conjI; simp add: registerHandler_def handleInterrupt_def getInterruptHandler_def not_less [symmetric])
qed

text \<open>The state before any driver has registered.\<close>

definition idle_irqs :: irq_state where
  "idle_irqs = \<lparr>handlers = 0xC0200000, hnext = (\<lambda>h. h), hcounter = (\<lambda>h. 0), ran = [],
     controller = 0xC0300000, calls = []\<rparr>"

lemma idle_irqs_ok: "handlers_ok (\<lambda>i. []) idle_irqs"
proof -
  have "default_handler idle_irqs i \<noteq> 0" if "i < 16" for i
  proof -
    have "unat (default_handler idle_irqs i) = 0xC0200000 + 16 * i"
      using that unat_add_of_nat [of "0xC0200000 :: u32" "16 * i"]
      by (simp add: default_handler_def idle_irqs_def)
    then show ?thesis by auto
  qed
  then show ?thesis by (simp add: handlers_ok_def ring_def idle_irqs_def)
qed

lemma fresh_idle: "fresh_handler (\<lambda>i. []) idle_irqs 0xC0400000"
  by (simp add: fresh_handler_def is_default_def default_handler_def idle_irqs_def upt_rec)

theorem register_then_dispatch_witness:
  "\<exists>s1 s2. registerHandler 1 0xC0400000 idle_irqs = Some (Inr (True, s1)) \<and>
     handleInterrupt 1 s1 = Some (Inr s2) \<and> ran s2 = [0xC0400000] \<and>
     calls s2 = [EndOfInterrupt 1]"
proof -
  note fresh_idle
  moreover have "controller idle_irqs \<noteq> 0" by (simp add: idle_irqs_def)
  moreover have "(1 :: u32) < MaxInterrupts" by (simp add: MaxInterrupts_def)
  moreover have "ran idle_irqs = []" "calls idle_irqs = []" by (simp_all add: idle_irqs_def)
  ultimately show ?thesis
    using register_then_dispatch [OF idle_irqs_ok, of "0xC0400000" 1] by auto
qed

subsection \<open>Deregistration\<close>

lemma last_two_ring:
  assumes "handlers_ok cs s" "i < 16" "cs i = ys @ [z]"
  defines "h \<equiv> default_handler s i"
  shows "last_two h h h s = Some (Inr (last (h # ys), z))" "hnext s z = h"
proof -
  note D = handlers_okD [OF assms(1,2), folded h_def]
  have "butlast (h # ys @ [z]) = h # ys" by (simp add: butlast_append)
  then show "last_two h h h s = Some (Inr (last (h # ys), z))"
    using last_two_path [OF D(2-4), of h] unfolding assms(3) by simp
  show "hnext s z = h" using path_last [OF D(2)] unfolding assms(3) by simp
qed

lemma removeHandler_effect:
  assumes "handlers_ok cs s" "irq < MaxInterrupts" "cs (unat irq) = ys @ [z]"
  defines "h \<equiv> default_handler s (unat irq)"
  shows "deregisterHandler irq x s =
    Some (Inr (False, s\<lparr>hnext := (hnext s)(last (h # ys) := h, x := 0)\<rparr>))"
proof -
  have i: "unat irq < 16" using assms(2) by (simp add: MaxInterrupts_def word_less_nat_alt)
  show ?thesis
    using last_two_ring [OF assms(1) i assms(3), folded h_def] assms(2)
    by (simp add: deregisterHandler_def removeHandler_def setNext_def leD not_le flip: h_def)
qed

lemma path_cut:
  assumes "path nx a (ys @ x # zs) b" "distinct (a # ys @ x # zs)" "w \<in> set zs \<or> w = x"
  shows "path (nx(w := v, x := 0)) a (ys @ [x]) 0"
  using assms by (induction ys arbitrary: a) auto

text \<open>The ring without its last handler, when the argument is that handler or is on no line.\<close>

lemma deregister_drops_last:
  assumes "handlers_ok cs s" "irq < MaxInterrupts" "cs (unat irq) = ys @ [z]" "x = z \<or> fresh_handler cs s x"
  defines "h \<equiv> default_handler s (unat irq)"
  shows "handlers_ok (cs(unat irq := ys)) (s\<lparr>hnext := (hnext s)(last (h # ys) := h, x := 0)\<rparr>)"
proof -
  let ?i = "unat irq" and ?s = "s\<lparr>hnext := (hnext s)(last (h # ys) := h, x := 0)\<rparr>"
  have i: "?i < 16" using assms(2) by (simp add: MaxInterrupts_def word_less_nat_alt)
  note D = handlers_okD [OF assms(1) i, folded h_def]
  have dist: "distinct (h # ys @ [z])" using D(1) unfolding ring_def assms(3) by blast
  have x: "x \<notin> set (h # ys)"
    using assms(4) dist i is_default_default [OF i, of s] assms(3) by (auto simp: fresh_handler_def h_def)
  show ?thesis
  proof (rule upd_sets [OF assms(1) i])
    show "\<forall>x \<in> set ys. \<not> is_default s x \<and> (\<forall>j < 16. j \<noteq> ?i \<longrightarrow> x \<notin> set (cs j))"
      using D(5) handlers_disjoint [OF assms(1) i] unfolding assms(3) by fastforce
    have "ring (hnext s) h (ys @ [z])" using D(1) unfolding assms(3) .
    then have "ring (hnext ?s) h ys"
      using ring_butlast [of "hnext s" h ys z] ring_upd [OF x, of "(hnext s)(last (h # ys) := h)" 0] by simp
    then show "ring (hnext ?s) (default_handler s ?i) ys" by (simp only: h_def)
    have w: "last (h # ys) \<in> set (h # cs ?i)" using last_in_set [of "h # ys"] unfolding assms(3) by auto
    have "x \<notin> set (default_handler s j # cs j)" if "j < 16" "j \<noteq> ?i" for j
    proof (cases "x = z")
      case True
      then have "x \<in> set (default_handler s ?i # cs ?i)" by (simp add: assms(3))
      then show ?thesis using ring_update_other [OF assms(1) i that(1)] that(2) by metis
    next
      case False
      then show ?thesis using assms(4) that(1) is_default_default [OF that(1), of s] by (auto simp: fresh_handler_def)
    qed
    then show "\<forall>j < 16. j \<noteq> ?i \<longrightarrow> last (h # ys) \<notin> set (default_handler s j # cs j) \<and> x \<notin> set (default_handler s j # cs j)"
      using ring_update_other [OF assms(1) i] w unfolding h_def by metis
  qed simp_all
qed

text \<open>The ring cut at the argument, when that is another handler of the line.\<close>

lemma deregister_cuts:
  assumes "handlers_ok cs s" "irq < MaxInterrupts" "cs (unat irq) = ys @ [z]" "x \<in> set ys"
  defines "h \<equiv> default_handler s (unat irq)"
  shows "handleInterrupt irq (s\<lparr>hnext := (hnext s)(last (h # ys) := h, x := 0)\<rparr>) = Some (Inl null_fault)"
proof -
  let ?s = "s\<lparr>hnext := (hnext s)(last (h # ys) := h, x := 0)\<rparr>"
  have i: "unat irq < 16" using assms(2) by (simp add: MaxInterrupts_def word_less_nat_alt)
  note D = handlers_okD [OF assms(1) i, folded h_def]
  obtain as bs where ys: "ys = as @ x # bs" using assms(4) by (auto simp: in_set_conv_decomp)
  then have cs: "cs (unat irq) = as @ x # (bs @ [z])" using assms(3) by simp
  have dist: "distinct (h # as @ x # (bs @ [z]))" using D(1) unfolding ring_def cs by blast
  have "last (h # ys) = x \<or> last (h # ys) \<in> set (bs @ [z])" unfolding ys by auto
  then have "path (hnext ?s) h (as @ [x]) 0"
    using path_cut [OF _ dist, of "hnext s" h "last (h # ys)" h] D(2) unfolding cs by auto
  moreover have "0 \<notin> set (h # as @ [x])" "h \<notin> set (as @ [x])" "h \<noteq> 0" using D(3,4) unfolding cs by auto
  ultimately have "executeAllHandlers h h ?s = Some (Inl null_fault)" by (intro executeAll_null)
  moreover have "default_handler ?s (unat irq) = h" by (simp add: default_handler_def h_def)
  ultimately show ?thesis using assms(2) by (simp add: handleInterrupt_def getInterruptHandler_def)
qed

text \<open>
  C18. \<open>deregisterHandler\<close>, on a line with at least one handler of a driver and all rings in order, never
  looks for the handler it is given. Whatever the argument, it returns false, links the handler before
  the last one back to the start of the ring, and clears the \<open>next\<close> pointer of its argument, and
  changes nothing else. So it removes the last handler properly when the argument is the last handler;
  when the argument is a handler of no line, the last handler is lost all the same; and when it
  is another handler of the line, the next interrupt on the line runs into the null pointer.
\<close>

theorem deregister_last_only:
  assumes "handlers_ok cs s" "irq < MaxInterrupts" "cs (unat irq) = ys @ [z]"
  shows "\<exists>s'. deregisterHandler irq x s = Some (Inr (False, s')) \<and>
    s' = s\<lparr>hnext := (hnext s)(last (default_handler s (unat irq) # ys) := default_handler s (unat irq), x := 0)\<rparr> \<and>
    (x = z \<or> fresh_handler cs s x \<longrightarrow> handlers_ok (cs(unat irq := ys)) s') \<and>
    (x \<in> set ys \<longrightarrow> handleInterrupt irq s' = Some (Inl null_fault))"
  using removeHandler_effect [OF assms, of x] deregister_drops_last [OF assms, of x] deregister_cuts [OF assms, of x]
  by blast

theorem deregister_last_only_witness:
  "\<exists>s s1 s'. registerHandler 1 0xC0400000 idle_irqs = Some (Inr (True, s1)) \<and>
     registerHandler 1 0xC0400020 s1 = Some (Inr (True, s)) \<and>
     deregisterHandler 1 0xC0400000 s = Some (Inr (False, s')) \<and>
     handleInterrupt 1 s' = Some (Inl null_fault)"
proof -
  have l: "(1 :: u32) < MaxInterrupts" by (simp add: MaxInterrupts_def)
  note r1 = register_appends [OF idle_irqs_ok l fresh_idle]
  let ?cs1 = "(\<lambda>i. [])(unat (1 :: u32) := ([] :: u32 list) @ [0xC0400000])"
  let ?s1 = "idle_irqs\<lparr>hnext := (hnext idle_irqs)
      (last (default_handler idle_irqs (unat (1 :: u32)) # []) := 0xC0400000,
       0xC0400000 := default_handler idle_irqs (unat (1 :: u32)))\<rparr>"
  have "fresh_handler ?cs1 ?s1 0xC0400020"
    by (simp add: fresh_handler_def is_default_def default_handler_def idle_irqs_def upt_rec)
  note r2 = register_appends [OF r1(2) l this]
  from deregister_last_only [OF r2(2) l, of "[0xC0400000]" "0xC0400020" "0xC0400000"]
  show ?thesis using r1(1) r2(1) by auto
qed

end
