(* ===== verification/Keyboard.thy ===== *)
theory Keyboard
  imports Console_Io Interrupts
begin

text \<open>
  The keyboard driver (Drivers/X86/Keyboard/Keyboard.cc, Scancodes.cc): the table of scan codes and
  the interrupt handler, which reads the status and the data port and feeds the console. The bytes
  that the two ports deliver are arguments.
\<close>

section \<open>The scan codes\<close>

datatype CodeType = Regular | Special

datatype Codes = Codes (code: u8) (ascii: u32) (altascii: u32) (code_type: CodeType)

definition Error :: u32 where "Error = 0x0100"
definition Escape :: u32 where "Escape = 0x0101"
definition Backspace :: u32 where "Backspace = 0x0102"
definition Tab :: u32 where "Tab = 0x0103"
definition Enter :: u32 where "Enter = 0x0104"
definition Control :: u32 where "Control = 0x0105"
definition LeftShift :: u32 where "LeftShift = 0x0106"
definition RightShift :: u32 where "RightShift = 0x0107"
definition PrintScreen :: u32 where "PrintScreen = 0x0108"
definition Alt :: u32 where "Alt = 0x0109"
definition Space :: u32 where "Space = 0x010a"
definition CapsLock :: u32 where "CapsLock = 0x010b"
definition F1 :: u32 where "F1 = 0x010c"
definition F2 :: u32 where "F2 = 0x010d"
definition F3 :: u32 where "F3 = 0x010e"
definition F4 :: u32 where "F4 = 0x010f"
definition F5 :: u32 where "F5 = 0x0110"
definition F6 :: u32 where "F6 = 0x0111"
definition F7 :: u32 where "F7 = 0x0112"
definition F8 :: u32 where "F8 = 0x0113"
definition F9 :: u32 where "F9 = 0x0115"
definition F10 :: u32 where "F10 = 0x0116"
definition NumLock :: u32 where "NumLock = 0x0117"
definition ScrollLock :: u32 where "ScrollLock = 0x0118"
definition Home :: u32 where "Home = 0x0119"
definition UpArrow :: u32 where "UpArrow = 0x011a"
definition Unused :: u32 where "Unused = 0xffff"

text \<open>The table; its entries from 0x47 to 0xff are all \<open>Unused\<close>.\<close>

definition codes_start :: "Codes list" where
  "codes_start = [
     Codes 0x00 Error Error Special, Codes 0x01 Escape Escape Special, Codes 0x02 0x31 0x21 Regular,
     Codes 0x03 0x32 0x40 Regular, Codes 0x04 0x33 0x23 Regular, Codes 0x05 0x34 0x24 Regular,
     Codes 0x06 0x35 0x25 Regular, Codes 0x07 0x36 0x5e Regular, Codes 0x08 0x37 0x26 Regular,
     Codes 0x09 0x38 0x2a Regular, Codes 0x0a 0x39 0x28 Regular, Codes 0x0b 0x30 0x29 Regular,
     Codes 0x0c 0x2d 0x5f Regular, Codes 0x0d 0x3d 0x2b Regular, Codes 0x0e Backspace Backspace Special,
     Codes 0x0f Tab Tab Special, Codes 0x10 0x71 0x51 Regular, Codes 0x11 0x77 0x57 Regular,
     Codes 0x12 0x65 0x45 Regular, Codes 0x13 0x72 0x52 Regular, Codes 0x14 0x74 0x54 Regular,
     Codes 0x15 0x79 0x59 Regular, Codes 0x16 0x75 0x55 Regular, Codes 0x17 0x69 0x49 Regular,
     Codes 0x18 0x6f 0x4f Regular, Codes 0x19 0x70 0x50 Regular, Codes 0x1a 0x5b 0x7b Regular,
     Codes 0x1b 0x5d 0x7d Regular, Codes 0x1c Enter Enter Special, Codes 0x1d Control Control Special,
     Codes 0x1e 0x61 0x41 Regular, Codes 0x1f 0x73 0x53 Regular, Codes 0x20 0x64 0x44 Regular,
     Codes 0x21 0x66 0x46 Regular, Codes 0x22 0x67 0x47 Regular, Codes 0x23 0x68 0x48 Regular,
     Codes 0x24 0x6a 0x4a Regular, Codes 0x25 0x6b 0x4b Regular, Codes 0x26 0x6c 0x4c Regular,
     Codes 0x27 0x3b 0x3a Regular, Codes 0x28 0x27 0x22 Regular, Codes 0x29 0x60 0x7e Regular,
     Codes 0x2a LeftShift LeftShift Special, Codes 0x2b 0x5c 0x7c Regular, Codes 0x2c 0x7a 0x5a Regular,
     Codes 0x2d 0x78 0x58 Regular, Codes 0x2e 0x63 0x43 Regular, Codes 0x2f 0x76 0x56 Regular,
     Codes 0x30 0x62 0x42 Regular, Codes 0x31 0x6e 0x4e Regular, Codes 0x32 0x6d 0x4d Regular,
     Codes 0x33 0x2c 0x3c Regular, Codes 0x34 0x2e 0x3e Regular, Codes 0x35 0x2f 0x3f Regular,
     Codes 0x36 RightShift RightShift Special, Codes 0x37 PrintScreen PrintScreen Special, Codes 0x38 Alt Alt Special,
     Codes 0x39 Space Space Special, Codes 0x3a CapsLock CapsLock Special, Codes 0x3b F1 F1 Special,
     Codes 0x3c F2 F2 Special, Codes 0x3d F3 F3 Special, Codes 0x3e F4 F4 Special,
     Codes 0x3f F5 F5 Special, Codes 0x40 F6 F6 Special, Codes 0x41 F7 F7 Special,
     Codes 0x42 F8 F8 Special, Codes 0x43 F9 F9 Special, Codes 0x44 F10 F10 Special,
     Codes 0x45 NumLock NumLock Special, Codes 0x46 ScrollLock ScrollLock Special]"

definition codes :: "Codes list" where
  "codes = codes_start @ map (\<lambda>i. Codes (of_nat i) Unused Unused Special) [0x47..<0x100]"

lemma length_codes_start: "length codes_start = 0x47"
  by (simp add: codes_start_def)

lemma codes_nth: "i < 0x47 \<Longrightarrow> codes ! i = codes_start ! i"
  by (simp only: codes_def nth_append length_codes_start if_True)

section \<open>The driver\<close>

record keyboard =
  shiftPressed :: bool
  controlPressed :: bool

definition keyboard_ctor :: keyboard where
  "keyboard_ctor = \<lparr>shiftPressed = False, controlPressed = False\<rparr>"

definition panic_key :: panic where
  "panic_key = PANIC ''Kernel panic was requested from keyboard.''"

text \<open>The format "0x%hhx" for a key without a meaning.\<close>

definition unknown_format :: "u8 list" where
  "unknown_format = [0x30, 0x78, 0x25, 0x68, 0x68, 0x78]"

definition keyboard_handleInterrupt :: "u8 \<Rightarrow> u8 \<Rightarrow> keyboard \<times> stdio \<Rightarrow> (keyboard \<times> stdio) res" where
  "keyboard_handleInterrupt status scanCode st =
     (let (kb, io) = st;
          feed = (\<lambda>c. bindr (console_feed c io) (\<lambda>(r, io). Inr (kb, io)))
      in if status AND 1 = 0 then Inr st
      else
        let isBreak = (scanCode AND 0x80 \<noteq> 0);
            scanCode = (if isBreak then scanCode XOR 0x80 else scanCode);
            c = codes ! unat scanCode
        in if code_type c = Special \<and> ascii c = F10 then Inl panic_key
           else if code_type c = Regular \<and> isBreak then Inr st
           else if code_type c = Regular then feed (if shiftPressed kb then altascii c else ascii c)
           else if ascii c = Enter then feed 0x0a
           else if ascii c = Space then feed 0x20
           else if ascii c = Tab then feed 0x09
           else if ascii c = LeftShift \<or> ascii c = RightShift then
             Inr (kb\<lparr>shiftPressed := \<not> isBreak\<rparr>, io)
           else if ascii c = Control then Inr (kb\<lparr>controlPressed := \<not> isBreak\<rparr>, io)
           else bindr (console_printf unknown_format [ucast scanCode] (\<lambda>a. 0) io) (\<lambda>(rv, io). Inr (kb, io)))"

text \<open>\<open>init\<close> and \<open>finalize\<close>: the driver is a handler of line 1, at the address \<open>this\<close>.\<close>

definition keyboard_init :: "u32 \<Rightarrow> irq_state \<Rightarrow> (bool \<times> irq_state) res option" where
  "keyboard_init this s =
     (case registerHandler 1 this s of
        None \<Rightarrow> None
      | Some (Inl e) \<Rightarrow> Some (Inl e)
      | Some (Inr (success, s)) \<Rightarrow> Some (bindr (enableInterrupt 1 s) (\<lambda>(r, s). Inr (success, s))))"

definition keyboard_finalize :: "u32 \<Rightarrow> irq_state \<Rightarrow> (bool \<times> irq_state) res option" where
  "keyboard_finalize this s =
     (case disableInterrupt 1 s of
        Inl e \<Rightarrow> Some (Inl e)
      | Inr (r, s) \<Rightarrow> deregisterHandler 1 this s)"

section \<open>Keys\<close>

text \<open>A sequence of scan codes, each with an interrupt of its own.\<close>

fun key_events :: "u8 list \<Rightarrow> keyboard \<times> stdio \<Rightarrow> (keyboard \<times> stdio) res" where
  "key_events [] st = Inr st"
| "key_events (k # ks) st = bindr (keyboard_handleInterrupt 1 k st) (key_events ks)"







lemma key_bits:
  assumes "i < 0x47"
  shows "(of_nat i :: u8) AND 0x80 = 0" "unat (of_nat i :: u8) = i"
    "(of_nat i OR 0x80 :: u8) AND 0x80 \<noteq> 0" "unat ((of_nat i OR 0x80 :: u8) XOR 0x80) = i"
proof -
  have "list_all (\<lambda>i. (of_nat i :: u8) AND 0x80 = 0 \<and> unat (of_nat i :: u8) = i \<and>
      (of_nat i OR 0x80 :: u8) AND 0x80 \<noteq> 0 \<and> unat ((of_nat i OR 0x80 :: u8) XOR 0x80) = i) [0..<0x47]"
    by code_simp
  then show "(of_nat i :: u8) AND 0x80 = 0" "unat (of_nat i :: u8) = i"
    "(of_nat i OR 0x80 :: u8) AND 0x80 \<noteq> 0" "unat ((of_nat i OR 0x80 :: u8) XOR 0x80) = i"
    using assms unfolding list_all_iff set_upt by simp_all
qed

section \<open>What a key does\<close>

lemma key_press:
  assumes "i < 0x47" "code_type (codes ! i) = Regular"
  shows "keyboard_handleInterrupt 1 (of_nat i) (kb, io) =
    bindr (console_feed (if shiftPressed kb then altascii (codes ! i) else ascii (codes ! i)) io) (\<lambda>(r, io). Inr (kb, io))"
  using assms by (simp add: keyboard_handleInterrupt_def key_bits Let_def)


lemma special_codes:
  "codes ! 0x0f = Codes 0x0f Tab Tab Special" "codes ! 0x1c = Codes 0x1c Enter Enter Special"
  "codes ! 0x2a = Codes 0x2a LeftShift LeftShift Special" "codes ! 0x36 = Codes 0x36 RightShift RightShift Special"
  "codes ! 0x39 = Codes 0x39 Space Space Special" "codes ! 0x44 = Codes 0x44 F10 F10 Special"
  by (simp_all add: codes_nth codes_start_def)

lemmas special_keys = F10_def Enter_def Space_def Tab_def LeftShift_def RightShift_def Control_def

lemma shift_press:
  "keyboard_handleInterrupt 1 0x2a (kb, io) = Inr (kb\<lparr>shiftPressed := True\<rparr>, io)"
  "keyboard_handleInterrupt 1 0x36 (kb, io) = Inr (kb\<lparr>shiftPressed := True\<rparr>, io)"
  "keyboard_handleInterrupt 1 0xaa (kb, io) = Inr (kb\<lparr>shiftPressed := False\<rparr>, io)"
  "keyboard_handleInterrupt 1 0xb6 (kb, io) = Inr (kb\<lparr>shiftPressed := False\<rparr>, io)"
  by (simp_all add: keyboard_handleInterrupt_def special_codes special_keys)

lemma special_feeds:
  "keyboard_handleInterrupt 1 0x1c (kb, io) = bindr (console_feed 0x0a io) (\<lambda>(r, io). Inr (kb, io))"
  "keyboard_handleInterrupt 1 0x9c (kb, io) = bindr (console_feed 0x0a io) (\<lambda>(r, io). Inr (kb, io))"
  "keyboard_handleInterrupt 1 0x39 (kb, io) = bindr (console_feed 0x20 io) (\<lambda>(r, io). Inr (kb, io))"
  "keyboard_handleInterrupt 1 0xb9 (kb, io) = bindr (console_feed 0x20 io) (\<lambda>(r, io). Inr (kb, io))"
  "keyboard_handleInterrupt 1 0x0f (kb, io) = bindr (console_feed 0x09 io) (\<lambda>(r, io). Inr (kb, io))"
  "keyboard_handleInterrupt 1 0x8f (kb, io) = bindr (console_feed 0x09 io) (\<lambda>(r, io). Inr (kb, io))"
  by (simp_all add: keyboard_handleInterrupt_def special_codes special_keys)

lemma feed_char:
  assumes "stdio_ok io" "length (pending io) < consoleBufferSize"
  shows "\<exists>io'. console_feed (ucast c) io = Inr (1, io') \<and> typed [c] io io'"
proof (rule feed_appends [OF assms])
  show u: "ucast (ucast c :: u32) = c" by (rule bit_word_eqI) (simp add: bit_simps)
  show "(ucast c :: u32) = 0x0a \<longleftrightarrow> c = 0x0a"
  proof
    assume "(ucast c :: u32) = 0x0a"
    then show "c = 0x0a" using u by simp
  qed simp
qed

lemma feed_two:
  assumes "stdio_ok io" "length (pending io) + 2 \<le> consoleBufferSize"
  shows "\<exists>io1 io'. console_feed (ucast c) io = Inr (1, io1) \<and> console_feed (ucast c) io1 = Inr (1, io') \<and>
    typed [c, c] io io'"
proof -
  obtain io1 where io1: "console_feed (ucast c) io = Inr (1, io1)" "typed [c] io io1"
    using feed_char [OF assms(1), of c] assms(2) by auto
  have "length (pending io1) < consoleBufferSize" using io1(2) assms(2) by (simp add: typed_def)
  then obtain io2 where "console_feed (ucast c) io1 = Inr (1, io2)" "typed [c] io1 io2"
    using feed_char [OF typed_ok [OF io1(2)], of c] by auto
  then show ?thesis using io1 typed_trans [OF io1(2)] by fastforce
qed








lemma key_a: "codes ! 0x1e = Codes 0x1e 0x61 0x41 Regular"
  by (simp add: codes_nth codes_start_def)

text \<open>
  What the driver gets wrong. Enter, Space and Tab are fed when they are pressed and again when
  they are released, so that one press of Enter is two newlines; and of two shift keys that are held,
  the release of one ends the shift.
\<close>

theorem keys_fed_twice:
  assumes "stdio_ok io" "length (pending io) + 2 \<le> consoleBufferSize"
  shows "(\<exists>io'. key_events [0x1c, 0x9c] (kb, io) = Inr (kb, io') \<and> pending io' = pending io @ [0x0a, 0x0a]) \<and>
    (\<exists>io'. key_events [0x39, 0xb9] (kb, io) = Inr (kb, io') \<and> pending io' = pending io @ [0x20, 0x20]) \<and>
    (\<exists>io'. key_events [0x0f, 0x8f] (kb, io) = Inr (kb, io') \<and> pending io' = pending io @ [0x09, 0x09]) \<and>
    (\<exists>io'. key_events [0x2a, 0x36, 0xaa, 0x1e] (kb, io) = Inr (kb\<lparr>shiftPressed := False\<rparr>, io') \<and>
       pending io' = pending io @ [0x61])"
proof (intro conjI)
  show "\<exists>io'. key_events [0x1c, 0x9c] (kb, io) = Inr (kb, io') \<and> pending io' = pending io @ [0x0a, 0x0a]"
    using feed_two [OF assms, of "0x0a"] by (auto simp: special_feeds bindr_def typed_def)
  show "\<exists>io'. key_events [0x39, 0xb9] (kb, io) = Inr (kb, io') \<and> pending io' = pending io @ [0x20, 0x20]"
    using feed_two [OF assms, of "0x20"] by (auto simp: special_feeds bindr_def typed_def)
  show "\<exists>io'. key_events [0x0f, 0x8f] (kb, io) = Inr (kb, io') \<and> pending io' = pending io @ [0x09, 0x09]"
    using feed_two [OF assms, of "0x09"] by (auto simp: special_feeds bindr_def typed_def)
  have "keyboard_handleInterrupt 1 0x1e (kb\<lparr>shiftPressed := False\<rparr>, io)
      = bindr (console_feed 0x61 io) (\<lambda>(r, io). Inr (kb\<lparr>shiftPressed := False\<rparr>, io))"
    using key_press [of "0x1e" "kb\<lparr>shiftPressed := False\<rparr>" io] by (simp add: key_a)
  then show "\<exists>io'. key_events [0x2a, 0x36, 0xaa, 0x1e] (kb, io) = Inr (kb\<lparr>shiftPressed := False\<rparr>, io') \<and>
       pending io' = pending io @ [0x61]"
    using feed_char [OF assms(1), of "0x61"] assms(2) by (auto simp: shift_press bindr_def typed_def)
qed

text \<open>One press of Enter on the sample console.\<close>

theorem keys_fed_twice_witness:
  "\<exists>io. key_events [0x1c, 0x9c] (keyboard_ctor, sample_stdio) = Inr (keyboard_ctor, io) \<and>
     pending io = [0x0a, 0x0a]"
  using keys_fed_twice [OF sample_stdio_ok, of keyboard_ctor]
  by (simp add: pending_def sample_stdio_def consoleBufferSize_def)

end
