(* ===== verification/Driver_Manager.thy ===== *)
theory Driver_Manager
  imports Null_List Keyboard
begin

text \<open>
  The list of device drivers (Kernel/DriverManager.cc, Kernel/Driver.cc, Include/Driver/Driver.hh).
  Driver objects are addresses with a state and a next pointer. Their virtual methods \<open>probe\<close> and
  \<open>init\<close> are a parameter of the model, with whatever state of devices they work on; they do not
  change the list. The messages are left out.
\<close>

section \<open>Drivers\<close>

datatype driver_state = Uninitalized | Initialized

record 'h drivers =
  driverList :: u32
  driver_next :: "u32 \<Rightarrow> u32"
  driver_stateM :: "u32 \<Rightarrow> driver_state"
  devices :: 'h

record 'h driver_class =
  vprobe :: "u32 \<Rightarrow> 'h \<Rightarrow> (u32 \<times> 'h) res option"
  vinit :: "u32 \<Rightarrow> 'h \<Rightarrow> (bool \<times> 'h) res option"

definition registerDriver :: "u32 \<Rightarrow> 'h drivers \<Rightarrow> bool \<times> 'h drivers" where
  "registerDriver driver s =
     (let s = s\<lparr>driver_next := (driver_next s)(driver := driverList s)\<rparr>
      in (True, s\<lparr>driverList := driver\<rparr>))"

definition deregisterDriver :: "u32 \<Rightarrow> 'h drivers \<Rightarrow> bool \<times> 'h drivers" where
  "deregisterDriver driver s = (True, s)"

definition driver_ctor :: "u32 \<Rightarrow> 'h drivers \<Rightarrow> 'h drivers" where
  "driver_ctor this s =
     (let s = s\<lparr>driver_stateM := (driver_stateM s)(this := Uninitalized),
                driver_next := (driver_next s)(this := 0)\<rparr>
      in snd (registerDriver this s))"

definition driver_dtor :: "u32 \<Rightarrow> 'h drivers \<Rightarrow> 'h drivers" where
  "driver_dtor this s = s\<lparr>driver_stateM := (driver_stateM s)(this := Uninitalized)\<rparr>"

text \<open>The body of the loop; the result of \<open>init\<close> is not looked at.\<close>

definition init_driver :: "'h driver_class \<Rightarrow> u32 \<Rightarrow> 'h drivers \<Rightarrow> 'h drivers res option" where
  "init_driver m driver s =
     bindo (vinit m driver (devices s)) (\<lambda>(success, h).
       Some (Inr (s\<lparr>devices := h, driver_stateM := (driver_stateM s)(driver := Initialized)\<rparr>)))"

definition probe_driver :: "'h driver_class \<Rightarrow> u32 \<Rightarrow> 'h drivers \<Rightarrow> 'h drivers res option" where
  "probe_driver m driver s =
     (if driver_stateM s driver = Uninitalized
      then bindo (vprobe m driver (devices s)) (\<lambda>(result, h).
             let s = s\<lparr>devices := h\<rparr>
             in if 0 <s result then init_driver m driver s else Some (Inr s))
      else Some (Inr s))"

partial_function (option) probe_loop :: "'h driver_class \<Rightarrow> u32 \<Rightarrow> 'h drivers \<Rightarrow> 'h drivers res option" where
  "probe_loop m driver s =
     (if driver = 0 then Some (Inr s)
      else bindo (probe_driver m driver s) (\<lambda>s. probe_loop m (driver_next s driver) s))"

definition probeAndInit :: "'h driver_class \<Rightarrow> 'h drivers \<Rightarrow> 'h drivers res option" where
  "probeAndInit m s = probe_loop m (driverList s) s"

section \<open>The loop visits every driver\<close>

lemma init_driver_keeps:
  assumes "init_driver m d s = Some (Inr s')"
  shows "driver_next s' = driver_next s" "driverList s' = driverList s"
    "driver_stateM s' = (driver_stateM s)(d := Initialized)"
  using assms by (auto simp: init_driver_def bindo_Some)

lemma probe_driver_keeps:
  assumes "probe_driver m d s = Some (Inr s')"
  shows "driver_next s' = driver_next s" "driverList s' = driverList s"
    "driver_stateM s' = driver_stateM s \<or> driver_stateM s' = (driver_stateM s)(d := Initialized)"
  using assms
  by (auto simp: probe_driver_def bindo_Some Let_def dest: init_driver_keeps split: if_splits)

interpretation dm: null_walk driver_next "probe_driver m" "probe_loop m" for m
  by unfold_locales (simp_all only: probe_loop.simps [symmetric] probe_driver_keeps(1))

definition dm_wf :: "'h drivers \<Rightarrow> u32 list \<Rightarrow> bool" where
  "dm_wf s ds \<longleftrightarrow> chain (driver_next s) (driverList s) ds"

lemma probeAndInit_steps: "dm_wf s ds \<Longrightarrow> probeAndInit m s = steps (probe_driver m) ds s"
  by (simp add: probeAndInit_def dm_wf_def dm.walk_steps)

lemma steps_wf:
  assumes "steps (probe_driver m) xs s = Some (Inr s')" "dm_wf s ds"
  shows "dm_wf s' ds"
  using steps_keep [of "probe_driver m" xs s s' "\<lambda>s. dm_wf s ds", OF assms]
  by (simp add: dm_wf_def probe_driver_keeps)

lemma probe_initialized: "driver_stateM s d = Initialized \<Longrightarrow> probe_driver m d s = Some (Inr s)"
  by (simp add: probe_driver_def)

lemma probe_refused:
  "vprobe m d (devices s) = Some (Inr (r, devices s)) \<Longrightarrow> \<not> 0 <s r \<Longrightarrow> probe_driver m d s = Some (Inr s)"
  by (simp add: probe_driver_def)

lemma probe_accepted:
  "vprobe m d (devices s) = Some (Inr (r, devices s)) \<Longrightarrow> 0 <s r \<Longrightarrow> driver_stateM s d = Uninitalized \<Longrightarrow>
   probe_driver m d s = init_driver m d s"
  by (simp add: probe_driver_def)

text \<open>With probes that answer the same at any time, the drivers that are wanted are initialised.\<close>

definition wanted :: "(u32 \<Rightarrow> u32) \<Rightarrow> 'h drivers \<Rightarrow> u32 \<Rightarrow> bool" where
  "wanted rank s d \<longleftrightarrow> driver_stateM s d = Uninitalized \<and> 0 <s rank d"

lemma steps_wanted:
  assumes "distinct ds" "\<And>d h. d \<in> set ds \<Longrightarrow> vprobe m d h = Some (Inr (rank d, h))"
  shows "steps (probe_driver m) ds s = steps (init_driver m) (filter (wanted rank s) ds) s"
  using assms
proof (induction ds arbitrary: s)
  case (Cons d ds)
  note probe = Cons.prems(2) [of d "devices s"]
  show ?case
  proof (cases "wanted rank s d")
    case True
    have "bindo (init_driver m d s) (steps (probe_driver m) ds) =
        bindo (init_driver m d s) (steps (init_driver m) (filter (wanted rank s) ds))"
    proof (rule bindo_cong)
      fix s1
      assume s1: "init_driver m d s = Some (Inr s1)"
      have "steps (probe_driver m) ds s1 = steps (init_driver m) (filter (wanted rank s1) ds) s1"
        by (rule Cons.IH) (use Cons.prems in auto)
      also have "filter (wanted rank s1) ds = filter (wanted rank s) ds"
        by (rule filter_cong) (use init_driver_keeps(3) [OF s1] Cons.prems(1) in \<open>auto simp: wanted_def\<close>)
      finally show "steps (probe_driver m) ds s1 = steps (init_driver m) (filter (wanted rank s) ds) s1" .
    qed
    moreover have "probe_driver m d s = init_driver m d s"
      using True probe by (simp add: probe_accepted wanted_def)
    ultimately show ?thesis using True by simp
  next
    case False
    then have "probe_driver m d s = Some (Inr s)"
      using probe probe_refused probe_initialized by (cases "driver_stateM s d") (auto simp: wanted_def)
    then show ?thesis using False Cons by simp
  qed
qed simp

lemma steps_init_state:
  assumes "steps (init_driver m) ds s = Some (Inr s')"
  shows "driver_stateM s' = (\<lambda>d. if d \<in> set ds then Initialized else driver_stateM s d)"
  using assms
proof (induction ds arbitrary: s)
  case (Cons d ds)
  then obtain s1 where s1: "init_driver m d s = Some (Inr s1)" "steps (init_driver m) ds s1 = Some (Inr s')"
    by (auto simp: bindo_Some)
  then show ?case using Cons.IH [OF s1(2)] init_driver_keeps(3) [OF s1(1)] by (auto simp: fun_eq_iff)
qed simp

section \<open>Properties\<close>

text \<open>
  The list of drivers is well formed whatever is done to it: constructing drivers at addresses that
  are not on it puts them in front, uninitialised; destroying a driver and deregistering it leave it on
  the list; and looking for devices changes neither the list nor the state of any other object.
\<close>

theorem driver_list_wf:
  assumes "dm_wf s ds"
  shows "(d \<noteq> 0 \<and> d \<notin> set ds \<longrightarrow>
      dm_wf (driver_ctor d s) (d # ds) \<and> driver_stateM (driver_ctor d s) d = Uninitalized) \<and>
    dm_wf (driver_dtor d s) ds \<and> dm_wf (snd (deregisterDriver d s)) ds \<and>
    (\<forall>s'. probeAndInit m s = Some (Inr s') \<longrightarrow> dm_wf s' ds \<and>
      (\<forall>x. x \<notin> set ds \<longrightarrow> driver_stateM s' x = driver_stateM s x))"
proof -
  have "driver_stateM s' x = driver_stateM s x" if "steps (probe_driver m) ds s = Some (Inr s')" "x \<notin> set ds" for s' x
    by (rule steps_keep [of "probe_driver m" ds s s' "\<lambda>t. driver_stateM t x = driver_stateM s x", OF that(1)])
      (use that(2) in \<open>auto dest: probe_driver_keeps(3)\<close>)
  moreover have "dm_wf (driver_ctor d s) (d # ds)" if "d \<noteq> 0" "d \<notin> set ds"
    using assms that by (simp add: dm_wf_def driver_ctor_def registerDriver_def Let_def chain_upd)
  moreover have "dm_wf (driver_dtor d s) ds" "dm_wf (snd (deregisterDriver d s)) ds"
    using assms by (simp_all add: dm_wf_def driver_dtor_def deregisterDriver_def)
  ultimately show ?thesis
    using steps_wf assms
    by (auto simp: probeAndInit_steps [OF assms] driver_ctor_def registerDriver_def Let_def)
qed

text \<open>
  C22. Every driver is initialised at most once: when the probes of the drivers always answer the same,
  looking for devices calls \<open>init\<close> of exactly the drivers that were not initialised and whose probe is
  positive, once each and in the order of the list, the last constructed first; afterwards all of these
  count as initialised, and looking again calls nothing and changes nothing.
\<close>

theorem drivers_initialised_once:
  assumes "dm_wf s ds" "\<And>d h. d \<in> set ds \<Longrightarrow> vprobe m d h = Some (Inr (rank d, h))"
  shows "probeAndInit m s = steps (init_driver m) (filter (wanted rank s) ds) s \<and>
    (\<forall>s'. probeAndInit m s = Some (Inr s') \<longrightarrow>
      (\<forall>d \<in> set ds. driver_stateM s' d = Initialized \<longleftrightarrow> driver_stateM s d = Initialized \<or> 0 <s rank d) \<and>
      probeAndInit m s' = Some (Inr s'))"
proof -
  have d: "distinct ds" using assms(1) unfolding dm_wf_def by (rule chain_distinct)
  have eq: "probeAndInit m t = steps (init_driver m) (filter (wanted rank t) ds) t" if "dm_wf t ds" for t
    unfolding probeAndInit_steps [OF that] by (rule steps_wanted [OF d assms(2)])
  have state: "driver_stateM s' = (\<lambda>d. if d \<in> set (filter (wanted rank s) ds) then Initialized else driver_stateM s d)"
    and again: "probeAndInit m s' = Some (Inr s')" if run: "probeAndInit m s = Some (Inr s')" for s'
  proof -
    show st: "driver_stateM s' = (\<lambda>d. if d \<in> set (filter (wanted rank s) ds) then Initialized else driver_stateM s d)"
      using run unfolding eq [OF assms(1)] by (rule steps_init_state)
    have wf: "dm_wf s' ds" using run assms(1) unfolding probeAndInit_steps [OF assms(1)] by (rule steps_wf)
    have "filter (wanted rank s') ds = []" by (auto simp: filter_empty_conv wanted_def st)
    then show "probeAndInit m s' = Some (Inr s')" unfolding eq [OF wf] by simp
  qed
  have "driver_stateM s' d = Initialized \<longleftrightarrow> driver_stateM s d = Initialized \<or> 0 <s rank d"
    if "probeAndInit m s = Some (Inr s')" "d \<in> set ds" for s' d
    using state [OF that(1)] that(2) by (cases "driver_stateM s d") (auto simp: wanted_def)
  then show ?thesis using eq [OF assms(1)] again by blast
qed

section \<open>The keyboard at boot\<close>

text \<open>The methods of \<open>Keyboard\<close> as a driver; the devices are the interrupt controller and its handlers.\<close>

definition keyboard_probe :: u32 where
  "keyboard_probe = 1"

definition keyboard_class :: "irq_state driver_class" where
  "keyboard_class = \<lparr>vprobe = \<lambda>this irqs. Some (Inr (keyboard_probe, irqs)), vinit = keyboard_init\<rparr>"

lemma keyboard_init_effect:
  assumes "handlers_ok cs s" "fresh_handler cs s kb" "controller s \<noteq> 0"
  shows "\<exists>s1. keyboard_init kb s = Some (Inr (True, s1)) \<and> handlers_ok (cs(1 := cs 1 @ [kb])) s1 \<and>
    ran s1 = ran s \<and> calls s1 = calls s @ [EnableInterrupt 1] \<and> controller s1 = controller s"
proof -
  have l: "(1 :: u32) < MaxInterrupts" by (simp add: MaxInterrupts_def)
  let ?h = "default_handler s 1"
  let ?s1 = "s\<lparr>hnext := (hnext s)(last (?h # cs 1) := kb, kb := ?h)\<rparr>"
  have r: "registerHandler 1 kb s = Some (Inr (True, ?s1))" "handlers_ok (cs(1 := cs 1 @ [kb])) ?s1"
    using register_appends [OF assms(1) l assms(2)] by simp_all
  let ?s2 = "?s1\<lparr>calls := calls s @ [EnableInterrupt 1]\<rparr>"
  have "keyboard_init kb s = Some (Inr (True, ?s2))"
    using assms(3) by (simp add: keyboard_init_def r(1) enableInterrupt_def bindr_def)
  moreover have "handlers_ok (cs(1 := cs 1 @ [kb])) ?s2" by (rule handlers_ok_cong [OF r(2)]) simp_all
  ultimately show ?thesis by auto
qed

lemma keyboard_wanted: "0 <s keyboard_probe"
  by (simp add: keyboard_probe_def word_sless_alt)

text \<open>
  C23. From the constructor of the keyboard to its interrupts: when the keyboard is the driver on the
  list, looking for devices registers it on line 1 and has the line enabled; the first interrupt on
  that line runs the keyboard's handler once, after the handlers that were there before, and is
  acknowledged. Looking for devices again does not register it twice.
\<close>

theorem keyboard_attached_at_boot:
  assumes "handlers_ok cs (devices s)" "fresh_handler cs (devices s) kb" "controller (devices s) \<noteq> 0"
    "driverList s = 0" "kb \<noteq> 0"
  shows "\<exists>s1 irqs. probeAndInit keyboard_class (driver_ctor kb s) = Some (Inr s1) \<and>
    driver_stateM s1 kb = Initialized \<and> probeAndInit keyboard_class s1 = Some (Inr s1) \<and>
    handleInterrupt 1 (devices s1) = Some (Inr irqs) \<and>
    ran irqs = ran (devices s) @ cs 1 @ [kb] \<and>
    calls irqs = calls (devices s) @ [EnableInterrupt 1, EndOfInterrupt 1]"
proof -
  let ?s = "driver_ctor kb s"
  have wf: "dm_wf ?s [kb]"
    using assms(4,5) by (simp add: dm_wf_def driver_ctor_def registerDriver_def Let_def)
  have s: "devices ?s = devices s" "driver_stateM ?s kb = Uninitalized"
    by (simp_all add: driver_ctor_def registerDriver_def Let_def)
  obtain i1 where i1: "keyboard_init kb (devices s) = Some (Inr (True, i1))" "handlers_ok (cs(1 := cs 1 @ [kb])) i1"
      "ran i1 = ran (devices s)" "calls i1 = calls (devices s) @ [EnableInterrupt 1]" "controller i1 \<noteq> 0"
    using keyboard_init_effect [OF assms(1-3)] assms(3) by auto
  let ?s1 = "?s\<lparr>devices := i1, driver_stateM := (driver_stateM ?s)(kb := Initialized)\<rparr>"
  have "probe_driver keyboard_class kb ?s = init_driver keyboard_class kb ?s"
    using s(2) by (intro probe_accepted [OF _ keyboard_wanted]) (simp_all add: keyboard_class_def)
  then have init: "probeAndInit keyboard_class ?s = Some (Inr ?s1)"
    using i1(1) s by (simp add: probeAndInit_steps [OF wf] init_driver_def keyboard_class_def)
  have wf1: "dm_wf ?s1 [kb]" using wf by (simp add: dm_wf_def)
  have again: "probeAndInit keyboard_class ?s1 = Some (Inr ?s1)"
    by (simp add: probeAndInit_steps [OF wf1] probe_initialized)
  have l: "(1 :: u32) < MaxInterrupts" by (simp add: MaxInterrupts_def)
  show ?thesis
    using init again i1(3,4) dispatch_runs [OF i1(2) l i1(5)] by (intro exI [of _ ?s1]) simp
qed

text \<open>Two drivers of the repository's kind on a machine with no handlers yet.\<close>

definition no_drivers :: "irq_state drivers" where
  "no_drivers = \<lparr>driverList = 0, driver_next = (\<lambda>d. 0), driver_stateM = (\<lambda>d. Uninitalized), devices = idle_irqs\<rparr>"

lemma no_drivers_wf: "dm_wf no_drivers []"
  by (simp add: dm_wf_def no_drivers_def)

theorem driver_list_wf_witness:
  "dm_wf (driver_ctor 0xC0400000 no_drivers) [0xC0400000] \<and>
   driver_stateM (driver_ctor 0xC0400000 no_drivers) 0xC0400000 = Uninitalized"
  using driver_list_wf [OF no_drivers_wf, of "0xC0400000"] by simp

theorem keyboard_attached_at_boot_witness:
  "\<exists>s1 irqs. probeAndInit keyboard_class (driver_ctor 0xC0400000 no_drivers) = Some (Inr s1) \<and>
     handleInterrupt 1 (devices s1) = Some (Inr irqs) \<and> ran irqs = [0xC0400000]"
proof -
  have d: "devices no_drivers = idle_irqs" "driverList no_drivers = 0" by (simp_all add: no_drivers_def)
  have "controller idle_irqs \<noteq> 0" "ran idle_irqs = []" by (simp_all add: idle_irqs_def)
  then show ?thesis
    using keyboard_attached_at_boot [of "\<lambda>i. []" no_drivers "0xC0400000"] idle_irqs_ok fresh_idle
    unfolding d by auto
qed

theorem drivers_initialised_once_witness:
  "(\<exists>s1. probeAndInit keyboard_class (driver_ctor 0xC0400000 no_drivers) = Some (Inr s1) \<and>
     probeAndInit keyboard_class s1 = Some (Inr s1)) \<and>
   dm_wf (driver_ctor 0xC0400000 no_drivers) [0xC0400000]"
proof -
  let ?s = "driver_ctor 0xC0400000 no_drivers"
  have wf: "dm_wf ?s [0xC0400000]"
    by (simp add: dm_wf_def no_drivers_def driver_ctor_def registerDriver_def Let_def)
  have st: "driver_stateM ?s 0xC0400000 = Uninitalized" "devices ?s = idle_irqs"
    by (simp_all add: no_drivers_def driver_ctor_def registerDriver_def Let_def)
  have "controller idle_irqs \<noteq> 0" by (simp add: idle_irqs_def)
  then obtain i1 where i1: "keyboard_init 0xC0400000 idle_irqs = Some (Inr (True, i1))"
    using keyboard_init_effect [OF idle_irqs_ok fresh_idle] by blast
  have pr: "vprobe keyboard_class d h = Some (Inr (keyboard_probe, h))" for d h
    by (simp add: keyboard_class_def)
  have "\<exists>s1. steps (init_driver keyboard_class) (filter (wanted (\<lambda>d. keyboard_probe) ?s) [0xC0400000]) ?s = Some (Inr s1)"
    using i1 st keyboard_wanted by (simp add: wanted_def init_driver_def keyboard_class_def)
  then show ?thesis
    using drivers_initialised_once [OF wf, of keyboard_class "\<lambda>d. keyboard_probe", OF pr] wf by auto
qed

end
