(* ===== verification/Timers.thy ===== *)
theory Timers
  imports Null_List Scheduler "HOL-Library.Multiset"
begin

text \<open>
  Clocks (Kernel/Clock.cc, Kernel/ClockProvider.cc, X86/Tsc.cc), system timers (Kernel/SystemTimer.cc,
  X86/Pit.cc), the uptime (Kernel/Time.cc) and watchdogs (Kernel/WatchdogDevice.cc). The virtual methods
  of clocks, timers and watchdogs are parameters, with the state of the hardware they work on.
\<close>

section \<open>The best of a list\<close>

text \<open>
  Clocks and timers are chosen by the same loop. What it is meant to find: the object with the
  greatest positive rank and, among those, the first of the list, which was constructed last.
\<close>

definition best_choice :: "(u32 \<Rightarrow> u32) \<Rightarrow> u32 list \<Rightarrow> u32 \<Rightarrow> bool" where
  "best_choice rank xs b \<longleftrightarrow>
     (if \<exists>c \<in> set xs. 0 <s rank c
      then \<exists>as bs. xs = as @ b # bs \<and> 0 <s rank b \<and>
        (\<forall>a \<in> set as. rank a <s rank b) \<and> (\<forall>d \<in> set bs. rank d \<le>s rank b)
      else b = 0)"

definition better :: "(u32 \<Rightarrow> u32) \<Rightarrow> u32 \<Rightarrow> u32 \<times> u32 \<Rightarrow> u32 \<times> u32" where
  "better rank c = (\<lambda>(best, bestProbe). if bestProbe <s rank c then (c, rank c) else (best, bestProbe))"

lemma better_pair: "better rank c (b, r) = (if r <s rank c then (c, rank c) else (b, r))"
  by (simp add: better_def)

lemma best_choiceI:
  assumes "xs = as @ b # bs" "0 <s rank b" "\<forall>a \<in> set as. rank a <s rank b" "\<forall>d \<in> set bs. rank d \<le>s rank b"
  shows "best_choice rank xs b"
proof -
  have "\<exists>c \<in> set xs. 0 <s rank c" using assms(1,2) by auto
  then show ?thesis using assms unfolding best_choice_def by auto
qed

lemma fold_better:
  "best_choice rank xs (fst (fold (better rank) xs (0, 0))) \<and>
   snd (fold (better rank) xs (0, 0)) =
     (if \<exists>c \<in> set xs. 0 <s rank c then rank (fst (fold (better rank) xs (0, 0))) else 0)"
proof (induction xs rule: rev_induct)
  case Nil
  then show ?case by (simp add: best_choice_def)
next
  case (snoc x xs)
  obtain b r where br: "fold (better rank) xs (0, 0) = (b, r)" by fastforce
  show ?case
  proof (cases "\<exists>c \<in> set xs. 0 <s rank c")
    case True
    then obtain as bs where ab: "xs = as @ b # bs" "0 <s rank b" "\<forall>a \<in> set as. rank a <s rank b"
        "\<forall>d \<in> set bs. rank d \<le>s rank b" "r = rank b"
      using snoc by (auto simp: br best_choice_def)
    show ?thesis
    proof (cases "r <s rank x")
      case less: True
      have "\<forall>a \<in> set xs. rank a <s rank x" "0 <s rank x"
        using less ab by (auto simp: word_sless_alt word_sle_eq)
      then have "best_choice rank (xs @ [x]) x" by (intro best_choiceI [of _ xs x "[]"]) auto
      then show ?thesis using br less \<open>0 <s rank x\<close> by (simp add: better_pair)
    next
      case False
      then have "rank x \<le>s rank b" using ab(5) by (auto simp: word_sless_alt word_sle_eq)
      then have "best_choice rank (xs @ [x]) b"
        using ab by (intro best_choiceI [of _ as b "bs @ [x]"]) auto
      then show ?thesis using br False True ab(5) by (auto simp: better_pair)
    qed
  next
    case False
    then have 0: "b = 0" "r = 0" using snoc by (auto simp: br best_choice_def)
    show ?thesis
    proof (cases "0 <s rank x")
      case True
      then have "\<forall>a \<in> set xs. rank a <s rank x" using False by (force simp: word_sless_alt)
      then have "best_choice rank (xs @ [x]) x" using True by (intro best_choiceI [of _ xs x "[]"]) auto
      then show ?thesis using br 0 True by (simp add: better_pair)
    next
      case x: False
      then show ?thesis using br 0 False by (simp add: better_pair best_choice_def)
    qed
  qed
qed

section \<open>Clocks\<close>

record 'h clock_state =
  clocks :: u32
  nextClock :: "u32 \<Rightarrow> u32"
  activeClock :: u32
  clock_hw :: 'h

record 'h clock_class =
  clock_probe :: "u32 \<Rightarrow> 'h \<Rightarrow> (u32 \<times> 'h) res option"
  startClock :: "u32 \<Rightarrow> 'h \<Rightarrow> (bool \<times> 'h) res option"
  clock_getFrequency :: "u32 \<Rightarrow> 'h \<Rightarrow> u32"
  getValue :: "u32 \<Rightarrow> 'h \<Rightarrow> u64 \<times> 'h"

definition registerProvider :: "u32 \<Rightarrow> 'h clock_state \<Rightarrow> 'h clock_state" where
  "registerProvider provider s =
     (let s = s\<lparr>nextClock := (nextClock s)(provider := clocks s)\<rparr>
      in s\<lparr>clocks := provider\<rparr>)"

text \<open>The body of the loop: \<open>probe\<close> is called twice, and the first answer is what is remembered.\<close>

definition clock_step :: "'h clock_class \<Rightarrow> u32 \<Rightarrow> (u32 \<times> u32) \<times> 'h clock_state \<Rightarrow>
    ((u32 \<times> u32) \<times> 'h clock_state) res option" where
  "clock_step m c = (\<lambda>((best, bestProbe), s).
     bindo (clock_probe m c (clock_hw s)) (\<lambda>(probeResult, h).
     bindo (clock_probe m c h) (\<lambda>(again, h).
       Some (Inr (if bestProbe <s again then (c, probeResult) else (best, bestProbe), s\<lparr>clock_hw := h\<rparr>)))))"

partial_function (option) clock_loop :: "'h clock_class \<Rightarrow> u32 \<Rightarrow> (u32 \<times> u32) \<times> 'h clock_state \<Rightarrow>
    ((u32 \<times> u32) \<times> 'h clock_state) res option" where
  "clock_loop m c st =
     (if c = 0 then Some (Inr st)
      else bindo (clock_step m c st) (\<lambda>st. clock_loop m (nextClock (snd st) c) st))"

definition clock_probeAndInit :: "'h clock_class \<Rightarrow> 'h clock_state \<Rightarrow> 'h clock_state res option" where
  "clock_probeAndInit m s =
     bindo (clock_loop m (clocks s) ((0, 0), s)) (\<lambda>((best, bestProbe), s).
       if best = 0 then Some (Inl (KASSERT ''best != 0''))
       else bindo (startClock m best (clock_hw s)) (\<lambda>(ok, h).
         Some (Inr (s\<lparr>clock_hw := h, activeClock := best\<rparr>))))"

definition getTime :: "'h clock_class \<Rightarrow> 'h clock_state \<Rightarrow> (u64 \<times> 'h clock_state) res" where
  "getTime m s =
     (if activeClock s = 0 then Inr (0, s)
      else
        let freq = clock_getFrequency m (activeClock s) (clock_hw s)
        in if freq = 0 then Inl (KASSERT ''freq != 0'')
           else let (v, h) = getValue m (activeClock s) (clock_hw s)
                in Inr (v div ucast freq, s\<lparr>clock_hw := h\<rparr>))"

interpretation cl: null_walk "\<lambda>st. nextClock (snd st)" "clock_step m" "clock_loop m" for m
  by unfold_locales
    (simp add: clock_loop.simps [symmetric], auto simp: clock_step_def bindo_Some)

lemma clock_steps_better:
  assumes "\<And>c h. c \<in> set cs \<Longrightarrow> clock_probe m c h = Some (Inr (rank c, h))"
  shows "steps (clock_step m) cs (br, s) = Some (Inr (fold (better rank) cs br, s))"
  using assms
proof (induction cs arbitrary: br)
  case (Cons c cs)
  then show ?case by (cases br) (simp add: clock_step_def better_def)
qed simp

lemma clock_chosen:
  assumes "chain (nextClock s) (clocks s) cs"
    "\<And>c h. c \<in> set cs \<Longrightarrow> clock_probe m c h = Some (Inr (rank c, h))"
    "\<And>c h. c \<in> set cs \<Longrightarrow> \<exists>ok h'. startClock m c h = Some (Inr (ok, h'))"
  shows "\<exists>b. best_choice rank cs b \<and>
    (if b = 0 then clock_probeAndInit m s = Some (Inl (KASSERT ''best != 0''))
     else \<exists>ok h. startClock m b (clock_hw s) = Some (Inr (ok, h)) \<and>
       clock_probeAndInit m s = Some (Inr (s\<lparr>clock_hw := h, activeClock := b\<rparr>)) \<and>
       getTime m (s\<lparr>clock_hw := h, activeClock := b\<rparr>) =
         (if clock_getFrequency m b h = 0 then Inl (KASSERT ''freq != 0'')
          else Inr (fst (getValue m b h) div ucast (clock_getFrequency m b h),
                    s\<lparr>clock_hw := snd (getValue m b h), activeClock := b\<rparr>)))"
proof -
  obtain b r where br: "fold (better rank) cs (0, 0) = (b, r)" by fastforce
  have best: "best_choice rank cs b" using fold_better [of rank cs] by (simp add: br)
  have loop: "clock_loop m (clocks s) ((0, 0), s) = Some (Inr ((b, r), s))"
    using cl.walk_steps [of "((0, 0), s)" "clocks s" cs m] assms(1) clock_steps_better [OF assms(2), of cs "(0, 0)" s]
    by (simp add: br)
  show ?thesis
  proof (cases "b = 0")
    case True
    then show ?thesis using best loop by (auto simp: clock_probeAndInit_def)
  next
    case False
    then have "b \<in> set cs" using best by (auto simp: best_choice_def split: if_splits)
    then obtain ok h where "startClock m b (clock_hw s) = Some (Inr (ok, h))" using assms(3) by blast
    then show ?thesis using best loop False
      by (intro exI [of _ b]) (simp add: clock_probeAndInit_def getTime_def split: prod.split)
  qed
qed

text \<open>
  C27. The clock that is selected. The clocks form a finite chain (each is registered once), their probes
  always answer the same and starting one of them returns. Then \<open>Clock::probeAndInit\<close> panics when no
  probe is positive; otherwise it starts the clock with the greatest probe, the one constructed last
  among equals, and makes it the active one, and \<open>getTime\<close> is from then on the value of that clock over
  its frequency, and fails an assertion when the frequency is 0. While no clock is active, \<open>getTime\<close> is 0
  and asks no clock.
\<close>

theorem clock_selection:
  assumes "chain (nextClock s) (clocks s) cs"
    "\<And>c h. c \<in> set cs \<Longrightarrow> clock_probe m c h = Some (Inr (rank c, h))"
    "\<And>c h. c \<in> set cs \<Longrightarrow> \<exists>ok h'. startClock m c h = Some (Inr (ok, h'))"
  shows "(activeClock s = 0 \<longrightarrow> getTime m s = Inr (0, s)) \<and> (\<exists>b. best_choice rank cs b \<and>
    (if b = 0 then clock_probeAndInit m s = Some (Inl (KASSERT ''best != 0''))
     else \<exists>ok h. startClock m b (clock_hw s) = Some (Inr (ok, h)) \<and>
       clock_probeAndInit m s = Some (Inr (s\<lparr>clock_hw := h, activeClock := b\<rparr>)) \<and>
       getTime m (s\<lparr>clock_hw := h, activeClock := b\<rparr>) =
         (if clock_getFrequency m b h = 0 then Inl (KASSERT ''freq != 0'')
          else Inr (fst (getValue m b h) div ucast (clock_getFrequency m b h),
                    s\<lparr>clock_hw := snd (getValue m b h), activeClock := b\<rparr>))))"
  using clock_chosen [OF assms] by (simp add: getTime_def)

section \<open>System timers\<close>

record 'h timer_state =
  timers :: u32
  nextTimer :: "u32 \<Rightarrow> u32"
  timer_hw :: 'h

record 'h timer_class =
  timer_probe :: "u32 \<Rightarrow> 'h \<Rightarrow> (u32 \<times> 'h) res option"
  startTimer :: "u32 \<Rightarrow> 'h \<Rightarrow> (bool \<times> 'h) res option"

definition timer_ctor :: "u32 \<Rightarrow> 'h timer_state \<Rightarrow> 'h timer_state" where
  "timer_ctor this s =
     (let s = s\<lparr>nextTimer := (nextTimer s)(this := timers s)\<rparr>
      in s\<lparr>timers := this\<rparr>)"

definition timer_step :: "'h timer_class \<Rightarrow> u32 \<Rightarrow> (u32 \<times> u32) \<times> 'h timer_state \<Rightarrow>
    ((u32 \<times> u32) \<times> 'h timer_state) res option" where
  "timer_step m t = (\<lambda>((best, bestProbe), s).
     bindo (timer_probe m t (timer_hw s)) (\<lambda>(probeResult, h).
     bindo (timer_probe m t h) (\<lambda>(again, h).
       Some (Inr (if bestProbe <s again then (t, probeResult) else (best, bestProbe), s\<lparr>timer_hw := h\<rparr>)))))"

partial_function (option) timer_loop :: "'h timer_class \<Rightarrow> u32 \<Rightarrow> (u32 \<times> u32) \<times> 'h timer_state \<Rightarrow>
    ((u32 \<times> u32) \<times> 'h timer_state) res option" where
  "timer_loop m t st =
     (if t = 0 then Some (Inr st)
      else bindo (timer_step m t st) (\<lambda>st. timer_loop m (nextTimer (snd st) t) st))"

definition timer_probeAndInit :: "'h timer_class \<Rightarrow> 'h timer_state \<Rightarrow> 'h timer_state res option" where
  "timer_probeAndInit m s =
     bindo (timer_loop m (timers s) ((0, 0), s)) (\<lambda>((best, bestProbe), s).
       if best = 0 then Some (Inl (KASSERT ''best != 0''))
       else bindo (startTimer m best (timer_hw s)) (\<lambda>(ok, h). Some (Inr (s\<lparr>timer_hw := h\<rparr>))))"

interpretation tm: null_walk "\<lambda>st. nextTimer (snd st)" "timer_step m" "timer_loop m" for m
  by unfold_locales
    (simp add: timer_loop.simps [symmetric], auto simp: timer_step_def bindo_Some)

lemma timer_steps_better:
  assumes "\<And>t h. t \<in> set ts \<Longrightarrow> timer_probe m t h = Some (Inr (rank t, h))"
  shows "steps (timer_step m) ts (br, s) = Some (Inr (fold (better rank) ts br, s))"
  using assms
proof (induction ts arbitrary: br)
  case (Cons t ts)
  then show ?case by (cases br) (simp add: timer_step_def better_def)
qed simp

lemma timer_selection:
  assumes "chain (nextTimer s) (timers s) ts"
    "\<And>t h. t \<in> set ts \<Longrightarrow> timer_probe m t h = Some (Inr (rank t, h))"
  shows "\<exists>b. best_choice rank ts b \<and> timer_probeAndInit m s =
    (if b = 0 then Some (Inl (KASSERT ''best != 0''))
     else bindo (startTimer m b (timer_hw s)) (\<lambda>(ok, h). Some (Inr (s\<lparr>timer_hw := h\<rparr>))))"
proof -
  obtain b r where br: "fold (better rank) ts (0, 0) = (b, r)" by fastforce
  have "best_choice rank ts b" using fold_better [of rank ts] by (simp add: br)
  moreover have "timer_loop m (timers s) ((0, 0), s) = Some (Inr ((b, r), s))"
    using tm.walk_steps [of "((0, 0), s)" "timers s" ts m] assms(1) timer_steps_better [OF assms(2), of ts "(0, 0)" s]
    by (simp add: br)
  ultimately show ?thesis by (intro exI [of _ b]) (simp add: timer_probeAndInit_def)
qed

section \<open>Watchdogs\<close>

record 'h watchdog_state =
  wd_devices :: u32
  nextWatchdogDeviceM :: "u32 \<Rightarrow> u32"
  wd_hw :: 'h

definition registerWatchdog :: "u32 \<Rightarrow> 'h watchdog_state \<Rightarrow> bool \<times> 'h watchdog_state" where
  "registerWatchdog this s =
     (let s = s\<lparr>nextWatchdogDeviceM := (nextWatchdogDeviceM s)(this := wd_devices s)\<rparr>
      in (True, s\<lparr>wd_devices := this\<rparr>))"

text \<open>The loop of \<open>unregisterWatchdog\<close> goes on with the next pointer of \<open>this\<close>.\<close>

partial_function (option) unregister_loop :: "u32 \<Rightarrow> u32 \<Rightarrow> u32 \<Rightarrow> 'h watchdog_state \<Rightarrow>
    (bool \<times> 'h watchdog_state) option" where
  "unregister_loop this previous device s =
     (if device \<noteq> 0
      then if device = this
        then Some (True, if previous \<noteq> 0
          then s\<lparr>nextWatchdogDeviceM := (nextWatchdogDeviceM s)(previous := nextWatchdogDeviceM s device)\<rparr>
          else s)
        else unregister_loop this device (nextWatchdogDeviceM s this) s
      else Some (False, s))"

definition unregisterWatchdog :: "u32 \<Rightarrow> 'h watchdog_state \<Rightarrow> (bool \<times> 'h watchdog_state) option" where
  "unregisterWatchdog this s = unregister_loop this 0 (wd_devices s) s"

definition kick_device :: "(u32 \<Rightarrow> 'h \<Rightarrow> 'h res option) \<Rightarrow> u32 \<Rightarrow> 'h watchdog_state \<Rightarrow> 'h watchdog_state res option" where
  "kick_device vkick device s = bindo (vkick device (wd_hw s)) (\<lambda>h. Some (Inr (s\<lparr>wd_hw := h\<rparr>)))"

partial_function (option) kick_loop :: "(u32 \<Rightarrow> 'h \<Rightarrow> 'h res option) \<Rightarrow> u32 \<Rightarrow> 'h watchdog_state \<Rightarrow>
    'h watchdog_state res option" where
  "kick_loop vkick device s =
     (if device = 0 then Some (Inr s)
      else bindo (kick_device vkick device s) (\<lambda>s. kick_loop vkick (nextWatchdogDeviceM s device) s))"

definition watchdog_kick :: "(u32 \<Rightarrow> 'h \<Rightarrow> 'h res option) \<Rightarrow> 'h watchdog_state \<Rightarrow> 'h watchdog_state res option" where
  "watchdog_kick vkick s = kick_loop vkick (wd_devices s) s"

interpretation wd: null_walk nextWatchdogDeviceM "kick_device vkick" "kick_loop vkick" for vkick
  by unfold_locales
    (simp add: kick_loop.simps [symmetric], auto simp: kick_device_def bindo_Some)

lemma kick_steps:
  assumes "\<And>d h. d \<in> set ds \<Longrightarrow> vkick d h = Some (Inr (kicked d h))"
  shows "steps (kick_device vkick) ds s = Some (Inr (s\<lparr>wd_hw := fold kicked ds (wd_hw s)\<rparr>))"
  using assms by (induction ds arbitrary: s) (simp_all add: kick_device_def)

lemma kick_all:
  assumes "chain (nextWatchdogDeviceM s) (wd_devices s) ds"
    "\<And>d h. d \<in> set ds \<Longrightarrow> vkick d h = Some (Inr (kicked d h))"
  shows "watchdog_kick vkick s = Some (Inr (s\<lparr>wd_hw := fold kicked ds (wd_hw s)\<rparr>))"
  using kick_steps [of ds vkick kicked s, OF assms(2)]
  by (simp add: watchdog_kick_def wd.walk_steps [OF assms(1)])

lemma kick_loop_diverges:
  assumes "nextWatchdogDeviceM s d = d" "d \<noteq> 0" "\<And>h. vkick d h = Some (Inr (kicked h))"
  shows "kick_loop vkick d s = None"
proof (rule ccontr)
  assume "kick_loop vkick d s \<noteq> None"
  then obtain r where r: "kick_loop vkick d s = Some r" by auto
  have "v = vkick \<and> nextWatchdogDeviceM t p = p \<and> p = d \<longrightarrow> False" if "kick_loop v p t = Some r" for v p t r
  proof (rule kick_loop.raw_induct
      [where P = "\<lambda>v p t r. v = vkick \<and> nextWatchdogDeviceM t p = p \<and> p = d \<longrightarrow> False", OF _ that])
    fix f v p t r
    assume IH: "\<And>v p t r. f v p t = Some r \<Longrightarrow> v = vkick \<and> nextWatchdogDeviceM t p = p \<and> p = d \<longrightarrow> False"
      and eq: "(if p = 0 then Some (Inr t)
        else bindo (kick_device v p t) (\<lambda>s. f v (nextWatchdogDeviceM s p) s)) = Some r"
    show "v = vkick \<and> nextWatchdogDeviceM t p = p \<and> p = d \<longrightarrow> False"
      using eq IH [of v p "t\<lparr>wd_hw := kicked (wd_hw t)\<rparr>" r] assms(2,3) by (auto simp: kick_device_def)
  qed
  from this [OF r] show False using assms(1) by simp
qed

lemma unregister_loop_diverges:
  assumes "nextWatchdogDeviceM s this = d" "d \<noteq> 0" "d \<noteq> this"
  shows "unregister_loop this prev d s = None"
proof (rule ccontr)
  assume "unregister_loop this prev d s \<noteq> None"
  then obtain r where r: "unregister_loop this prev d s = Some r" by auto
  have "w = this \<and> t = s \<and> p = d \<longrightarrow> False" if "unregister_loop w q p t = Some r" for w q p t r
  proof (rule unregister_loop.raw_induct
      [where P = "\<lambda>w q p t r. w = this \<and> t = s \<and> p = d \<longrightarrow> False", OF _ that])
    fix f :: "u32 \<Rightarrow> u32 \<Rightarrow> u32 \<Rightarrow> 'a watchdog_state \<Rightarrow> (bool \<times> 'a watchdog_state) option" and w q p t r
    assume IH: "\<And>w q p t r. f w q p t = Some r \<Longrightarrow> w = this \<and> t = s \<and> p = d \<longrightarrow> False"
      and eq: "(if p \<noteq> 0 then if p = w then Some (True, if q \<noteq> 0
            then t\<lparr>nextWatchdogDeviceM := (nextWatchdogDeviceM t)(q := nextWatchdogDeviceM t p)\<rparr> else t)
          else f w p (nextWatchdogDeviceM t w) t
        else Some (False, t)) = Some r"
    show "w = this \<and> t = s \<and> p = d \<longrightarrow> False"
      using eq IH [of w p d t r] assms by auto
  qed
  from this [OF r] show False by simp
qed

text \<open>
  C25. Watchdogs are kicked as long as nobody registers one twice: after a device that is not on the
  list has been registered, \<open>Watchdog::kick\<close> returns and has kicked it first and then every other
  device once. If the device that was registered last registers again, its next pointer is itself,
  and the next kick never returns.
\<close>

theorem watchdog_kicks:
  assumes "chain (nextWatchdogDeviceM s) (wd_devices s) ds" "d \<noteq> 0" "d \<notin> set ds"
    "\<And>x h. vkick x h = Some (Inr (kicked x h))"
  shows "watchdog_kick vkick (snd (registerWatchdog d s)) =
      Some (Inr ((snd (registerWatchdog d s))\<lparr>wd_hw := fold kicked (d # ds) (wd_hw s)\<rparr>)) \<and>
    watchdog_kick vkick (snd (registerWatchdog d (snd (registerWatchdog d s)))) = None"
proof
  have "chain (nextWatchdogDeviceM (snd (registerWatchdog d s))) (wd_devices (snd (registerWatchdog d s))) (d # ds)"
    using assms(1-3) by (simp add: registerWatchdog_def Let_def chain_upd)
  from kick_all [OF this assms(4)]
  show "watchdog_kick vkick (snd (registerWatchdog d s)) =
      Some (Inr ((snd (registerWatchdog d s))\<lparr>wd_hw := fold kicked (d # ds) (wd_hw s)\<rparr>))"
    by (simp add: registerWatchdog_def Let_def)
  show "watchdog_kick vkick (snd (registerWatchdog d (snd (registerWatchdog d s)))) = None"
    unfolding watchdog_kick_def
    by (simp add: registerWatchdog_def Let_def)
      (rule kick_loop_diverges [where kicked = "kicked d"], use assms in auto)
qed

text \<open>
  C26. \<open>unregisterWatchdog\<close> never removes anything. On a list in which every
  device is registered once: for the device registered last it returns true and leaves the list as it
  is; for the one registered first, when that is another one, it returns false, equally without effect;
  for every other device of the list it never returns. (The lock around the loop is not modelled.)
\<close>

theorem unregister_never_removes:
  assumes "chain (nextWatchdogDeviceM s) (wd_devices s) ds" "d \<in> set ds"
  shows "unregisterWatchdog d s =
    (if d = hd ds then Some (True, s) else if d = last ds then Some (False, s) else None)"
proof -
  obtain as bs where ds: "ds = as @ d # bs" using assms(2) by (auto simp: in_set_conv_decomp)
  have dist: "distinct ds" "0 \<notin> set ds" using assms(1) chain_distinct chain_not_null by blast+
  have "chain (nextWatchdogDeviceM s) d (d # bs)" using assms(1) unfolding ds by (rule chain_suffix)
  then have nx: "nextWatchdogDeviceM s d = (case bs of [] \<Rightarrow> 0 | b # _ \<Rightarrow> b)" by (cases bs) auto
  show ?thesis
  proof (cases as)
    case Nil
    then have "wd_devices s = d" "d \<noteq> 0" using assms(1) ds by auto
    then show ?thesis
      using ds Nil by (simp add: unregisterWatchdog_def unregister_loop.simps [of d 0 d])
  next
    case (Cons a as')
    then have h: "wd_devices s = a" "a \<noteq> 0" "a \<noteq> d" using assms(1) dist ds by auto
    have "unregisterWatchdog d s = unregister_loop d a (nextWatchdogDeviceM s d) s"
      using h by (simp add: unregisterWatchdog_def unregister_loop.simps [of d 0 a])
    also have "\<dots> = (if d = last ds then Some (False, s) else None)"
    proof (cases bs)
      case Nil
      then show ?thesis using nx ds by (simp add: unregister_loop.simps [of d a 0])
    next
      case (Cons b bs')
      then have "b \<noteq> 0" "b \<noteq> d" "last ds \<noteq> d" using dist ds by auto
      then show ?thesis using nx Cons unregister_loop_diverges [of s d b a] by auto
    qed
    finally show ?thesis using h ds Cons by simp
  qed
qed

section \<open>Uptime and the tick\<close>

definition increment :: "u32 \<Rightarrow> u64 \<Rightarrow> u64" where
  "increment ms uptime = uptime + ucast ms"

definition getUptime :: "'h clock_class \<Rightarrow> u64 \<Rightarrow> 'h clock_state \<Rightarrow> (u64 \<times> 'h clock_state) res" where
  "getUptime m uptime s =
     bindr (getTime m s) (\<lambda>(time, s). Inr (if time = 0 then uptime else time, s))"

text \<open>
  \<open>SystemTimer::tick\<close> for a timer of the given frequency; a frequency of 0 passes the assertion and
  divides by zero.
\<close>

definition divide_fault :: panic where
  "divide_fault = PANIC ''divide error''"

definition tick :: "u32 \<Rightarrow> (u32 \<Rightarrow> 'h \<Rightarrow> 'h res option) \<Rightarrow> u64 \<times> kernel \<times> 'h watchdog_state \<Rightarrow>
    (u64 \<times> kernel \<times> 'h watchdog_state) res option" where
  "tick freq vkick = (\<lambda>(uptime, k, w).
     if freq > 500 then Some (Inl (KASSERT ''getFrequency() <= 500''))
     else if freq = 0 then Some (Inl divide_fault)
     else
       let uptime = increment (1000 div freq) uptime
       in bindo (Some (schedule k)) (\<lambda>k.
          bindo (watchdog_kick vkick w) (\<lambda>w. Some (Inr (uptime, k, w)))))"

text \<open>The interrupt of the programmable interval timer.\<close>

definition pit_getFrequency :: u32 where
  "pit_getFrequency = 100"

definition pit_handleInterrupt :: "(u32 \<Rightarrow> 'h \<Rightarrow> 'h res option) \<Rightarrow> u64 \<times> kernel \<times> 'h watchdog_state \<Rightarrow>
    (u64 \<times> kernel \<times> 'h watchdog_state) res option" where
  "pit_handleInterrupt vkick = tick pit_getFrequency vkick"

primrec ticks :: "nat \<Rightarrow> ('s \<Rightarrow> 's res option) \<Rightarrow> 's \<Rightarrow> 's res option" where
  "ticks 0 t s = Some (Inr s)"
| "ticks (Suc n) t s = bindo (t s) (ticks n t)"

primrec schedules :: "nat \<Rightarrow> kernel \<Rightarrow> kernel res" where
  "schedules 0 k = Inr k"
| "schedules (Suc n) k = bindr (schedule k) (schedules n)"

lemma tick_effect:
  assumes "chain (nextWatchdogDeviceM w) (wd_devices w) ds" "no_null k"
    "\<And>x h. x \<in> set ds \<Longrightarrow> vkick x h = Some (Inr (kicked x h))" "0 < freq" "freq \<le> 500"
  shows "\<exists>k'. schedule k = Inr k' \<and> no_null k' \<and> tick freq vkick (u, k, w) =
    Some (Inr (u + ucast (1000 div freq), k', w\<lparr>wd_hw := fold kicked ds (wd_hw w)\<rparr>))"
proof -
  obtain k' where "schedule k = Inr k'" "no_null k'" using schedule_no_null [OF assms(2)] by auto
  moreover have "\<not> freq > 500" "freq \<noteq> 0" using assms(4,5) by auto
  ultimately show ?thesis
    using kick_all [OF assms(1,3)] by (auto simp: tick_def increment_def Let_def)
qed

text \<open>
  C24. The heartbeat of the kernel. The running, the idle and the ready threads are not null, the list of watchdogs is a finite
  chain (every device registered once) and their kicks return. Then \<open>n\<close> interrupts of a timer with a
  frequency between 1 and 500 return; they advance the uptime by \<open>n\<close> times the whole milliseconds of its
  period, modulo \<open>2 ^ 64\<close>, switch threads \<open>n\<close> times, and kick every watchdog \<open>n\<close> times, in the order of
  the list. A frequency of 0 passes the assertion and divides by zero; one above 500 fails it.
\<close>

theorem timer_ticks:
  assumes "chain (nextWatchdogDeviceM w) (wd_devices w) ds" "no_null k"
    "\<And>x h. x \<in> set ds \<Longrightarrow> vkick x h = Some (Inr (kicked x h))"
  shows "if freq = 0 then tick freq vkick (u, k, w) = Some (Inl divide_fault)
    else if 500 < freq then tick freq vkick (u, k, w) = Some (Inl (KASSERT ''getFrequency() <= 500''))
    else \<exists>k'. schedules n k = Inr k' \<and> no_null k' \<and> ticks n (tick freq vkick) (u, k, w) =
      Some (Inr (u + of_nat n * ucast (1000 div freq), k', w\<lparr>wd_hw := (fold kicked ds ^^ n) (wd_hw w)\<rparr>))"
proof (cases "freq = 0 \<or> 500 < freq")
  case True
  then show ?thesis by (auto simp: tick_def)
next
  case False
  then have f: "0 < freq" "freq \<le> 500" by (auto simp: word_neq_0_conv)
  note kick = assms(3)
  have "\<exists>k'. schedules n k = Inr k' \<and> no_null k' \<and> ticks n (tick freq vkick) (u, k, w) =
      Some (Inr (u + of_nat n * ucast (1000 div freq), k', w\<lparr>wd_hw := (fold kicked ds ^^ n) (wd_hw w)\<rparr>))"
    using assms(1,2)
  proof (induction n arbitrary: u k w)
    case (Suc n)
    obtain k1 where k1: "schedule k = Inr k1" "no_null k1" "tick freq vkick (u, k, w) =
        Some (Inr (u + ucast (1000 div freq), k1, w\<lparr>wd_hw := fold kicked ds (wd_hw w)\<rparr>))"
      using tick_effect [OF Suc.prems, of vkick kicked freq u] kick f by blast
    show ?case
      using Suc.IH [of "w\<lparr>wd_hw := fold kicked ds (wd_hw w)\<rparr>" k1 "u + ucast (1000 div freq)"] Suc.prems(1) k1
      by (simp add: bindr_def funpow_swap1 ring_distribs add.assoc)
  qed simp
  then show ?thesis using False by simp
qed

section \<open>Calibration of the time stamp counter\<close>

text \<open>The average of the measurements, without the smallest and the largest, in 32 bits.\<close>

definition measure_step :: "u32 \<Rightarrow> u32 \<times> u32 \<times> u32 \<Rightarrow> u32 \<times> u32 \<times> u32" where
  "measure_step r = (\<lambda>(mn, mx, total).
     (if r < mn then r else mn, if r > mx then r else mx, total + r))"

definition calibrate_average :: "u32 list \<Rightarrow> u32" where
  "calibrate_average results =
     (let (mn, mx, total) = fold measure_step results (0xffffffff, 0, 0);
          total = total - mn;
          total = total - mx
      in total div of_nat (length results - 2))"

text \<open>One measurement: the counter before and after a delay of 50 ms.\<close>

definition measurement :: "u64 \<Rightarrow> u64 \<Rightarrow> u32" where
  "measurement tsc0 tsc1 = ucast (tsc1 - tsc0) div 50"

definition calibrate :: "(u64 \<times> u64) list \<Rightarrow> u32" where
  "calibrate readings = calibrate_average (map (\<lambda>(tsc0, tsc1). measurement tsc0 tsc1) readings)"

lemma fold_measure:
  "fold measure_step rs (mn, mx, acc) = (fold min rs mn, fold max rs mx, acc + sum_list rs)"
  by (induction rs arbitrary: mn mx acc) (auto simp: measure_step_def min_def max_def add.assoc)

lemma fold_sort:
  fixes f :: "u32 \<Rightarrow> u32 \<Rightarrow> u32"
  assumes "\<And>x y. f x \<circ> f y = f y \<circ> f x"
  shows "fold f rs = fold f (sort rs)"
  by (rule fold_multiset_equiv) (simp_all add: assms)

lemma sum_list_sort: "sum_list (sort rs :: u32 list) = sum_list rs"
  by (metis mset_sort sum_mset_sum_list)

text \<open>
  The calibration of the time stamp counter drops the smallest and the largest of its five
  measurements and averages the other three, whatever order they come in; the sum in 32 bits may wrap
  as long as those three together do not. So the result lies between the second smallest and the
  second largest measurement.
\<close>

theorem calibration_trims_outliers:
  assumes "sort rs = [a, b, c, d, e]" "unat b + unat c + unat d < 2 ^ 32"
  shows "unat (calibrate_average rs) = (unat b + unat c + unat d) div 3 \<and>
    b \<le> calibrate_average rs \<and> calibrate_average rs \<le> d"
proof -
  have len: "length rs = 5" using arg_cong [OF assms(1), of length] by simp
  have ord: "a \<le> b" "b \<le> c" "c \<le> d" "d \<le> e"
    using sorted_sort [of rs] unfolding assms(1) by simp_all
  have "fold min rs 0xffffffff = fold min [a, b, c, d, e] 0xffffffff"
    using fold_sort [of min rs] by (simp add: assms(1) fun_eq_iff min.left_commute)
  also have "\<dots> = a"
  proof -
    have "a \<le> 0xffffffff" using unat_u32_less [of a] by (simp add: word_le_nat_alt)
    moreover have "a \<le> c" "a \<le> d" "a \<le> e" using ord by simp_all
    ultimately show ?thesis using ord by (simp add: min_absorb1 min_absorb2)
  qed
  finally have mn: "fold min rs 0xffffffff = a" .
  have "fold max rs 0 = fold max [a, b, c, d, e] 0"
    using fold_sort [of max rs] by (simp add: assms(1) fun_eq_iff ac_simps)
  also have "\<dots> = e" using ord by (simp add: max_def)
  finally have mx: "fold max rs 0 = e" .
  have sum: "sum_list rs = a + b + c + d + e"
    using sum_list_sort [of rs] unfolding assms(1) by (simp add: add.assoc)
  have "calibrate_average rs = (a + b + c + d + e - a - e) div 3"
    by (simp add: calibrate_average_def fold_measure mn mx sum len)
  also have "\<dots> = (b + c + d) div 3" by (simp add: algebra_simps)
  finally have avg: "calibrate_average rs = (b + c + d) div 3" .
  have "unat (b + c + d) = unat b + unat c + unat d"
    using assms(2) by (simp add: unat_word_ariths)
  then have u: "unat (calibrate_average rs) = (unat b + unat c + unat d) div 3"
    by (simp add: avg unat_div)
  have "unat b \<le> (unat b + unat c + unat d) div 3" "(unat b + unat c + unat d) div 3 \<le> unat d"
    using ord(2,3) by (auto simp: word_le_nat_alt)
  then show ?thesis using u by (simp add: word_le_nat_alt)
qed

section \<open>Concrete timers\<close>

text \<open>A clock that answers 100 as the time stamp counter does, one that answers 1, and devices whose
  kick counts.\<close>

definition sample_clocks :: "u64 clock_state" where
  "sample_clocks = \<lparr>clocks = 8, nextClock = (\<lambda>c. if c = 8 then 4 else 0), activeClock = 0, clock_hw = 7000\<rparr>"

definition sample_rank :: "u32 \<Rightarrow> u32" where
  "sample_rank c = (if c = 4 then 100 else 1)"

definition sample_clock_class :: "u64 clock_class" where
  "sample_clock_class = \<lparr>clock_probe = \<lambda>c h. Some (Inr (sample_rank c, h)),
     startClock = \<lambda>c h. Some (Inr (True, h)), clock_getFrequency = \<lambda>c h. 7, getValue = \<lambda>c h. (h, h + 1)\<rparr>"

lemma sample_best: "best_choice sample_rank [8, 4] b \<longleftrightarrow> b = 4"
  by (auto simp: best_choice_def sample_rank_def word_sless_alt word_sle_eq Cons_eq_append_conv)

theorem clock_selection_witness:
  "getTime sample_clock_class sample_clocks = Inr (0, sample_clocks) \<and>
   (\<exists>s. clock_probeAndInit sample_clock_class sample_clocks = Some (Inr s) \<and> activeClock s = 4 \<and>
       getTime sample_clock_class s = Inr (1000, s\<lparr>clock_hw := 7001\<rparr>))"
proof -
  have ch: "chain (nextClock sample_clocks) (clocks sample_clocks) [8, 4]" by (simp add: sample_clocks_def)
  have off: "activeClock sample_clocks = 0" by (simp add: sample_clocks_def)
  have st: "\<exists>ok h'. startClock sample_clock_class c h = Some (Inr (ok, h'))" for c h
    by (simp add: sample_clock_class_def) blast
  have pr: "clock_probe sample_clock_class c h = Some (Inr (sample_rank c, h))" for c h
    by (simp add: sample_clock_class_def)
  show ?thesis
    using clock_selection [OF ch pr st] off
    by (simp add: sample_best) (simp add: sample_clock_class_def sample_clocks_def)
qed

definition sample_watchdogs :: "nat watchdog_state" where
  "sample_watchdogs = \<lparr>wd_devices = 12, nextWatchdogDeviceM = (\<lambda>d. if d = 12 then 8 else if d = 8 then 4 else 0), wd_hw = 0\<rparr>"

lemma sample_watchdogs_chain:
  "chain (nextWatchdogDeviceM sample_watchdogs) (wd_devices sample_watchdogs) [12, 8, 4]"
  by (simp add: sample_watchdogs_def)

theorem watchdog_kicks_witness:
  "\<exists>s. watchdog_kick (\<lambda>d n. Some (Inr (n + 1))) (snd (registerWatchdog 16 sample_watchdogs)) = Some (Inr s) \<and> wd_hw s = 4"
  using watchdog_kicks [OF sample_watchdogs_chain, of 16 "\<lambda>d n. Some (Inr (n + 1))" "\<lambda>d n. n + 1"]
  by (simp add: sample_watchdogs_def)

theorem unregister_never_removes_witness:
  "unregisterWatchdog 8 sample_watchdogs = None \<and> 8 \<in> set [12, 8, 4 :: u32]"
  using unregister_never_removes [OF sample_watchdogs_chain, of 8] by simp

definition sample_kernel :: kernel where
  "sample_kernel = \<lparr>threads = (\<lambda>p. \<lparr>idM = 0, userStackM = 0, kernelStackM = 0, stateM = Ready,
        typeM = KernelThread, processM = 0, nextM = 0, nameM = [], onCpuM = 0, jobsM = []\<rparr>),
     threadList = [1, 2, 3], nextId = 4, readyList = [2], blockedList = [], currentThread = 1,
     currentProcess = 0, kernelProcess = 0, idleThread = 3, kernelThread = 1\<rparr>"

theorem timer_ticks_witness:
  "\<exists>k w. ticks 3 (pit_handleInterrupt (\<lambda>d n. Some (Inr (n + 1)))) (5, sample_kernel, sample_watchdogs) =
     Some (Inr (35, k, w)) \<and> no_null k \<and> wd_hw w = 9"
proof -
  have "no_null sample_kernel" by (simp add: no_null_def sample_kernel_def)
  then obtain k where k: "no_null k" "ticks 3 (tick 100 (\<lambda>d n. Some (Inr (n + 1)))) (5, sample_kernel, sample_watchdogs) =
      Some (Inr (5 + of_nat 3 * ucast (1000 div 100 :: u32), k,
        sample_watchdogs\<lparr>wd_hw := (fold (\<lambda>d n. n + 1) [12, 8, 4] ^^ 3) (wd_hw sample_watchdogs)\<rparr>))"
    using timer_ticks [OF sample_watchdogs_chain, of sample_kernel "\<lambda>d n. Some (Inr (n + 1))" "\<lambda>d n. n + 1" 100 5 3]
    by auto
  then show ?thesis
    by (simp add: pit_handleInterrupt_def pit_getFrequency_def sample_watchdogs_def numeral_3_eq_3)
qed

theorem calibration_trims_outliers_witness:
  "unat (calibrate_average [2900003, 9000000, 2900001, 17, 2900002]) = 2900002"
  using calibration_trims_outliers [of "[2900003, 9000000, 2900001, 17, 2900002]" 17 2900001 2900002 2900003 9000000]
  by simp

end
