(* ===== verification/Pci.thy ===== *)
theory Pci
  imports Null_List
begin

text \<open>
  The PCI bus (Kernel/Pci.cc, X86/X86Pci.cc, Include/Kernel/Pci.hh, Kernel/PciDriver.cc) and the probe of
  the i6300esb watchdog (Drivers/X86/Watchdog/IntelWatchdog.cc). The configuration space is reached
  through two ports: the address port holds an address, the data port stands for the register at that
  address. What the registers do is a parameter of the model; so are the methods of the drivers.
\<close>

section \<open>Configuration space through ports\<close>

record 'c config =
  cfg_read :: "u32 \<Rightarrow> 'c \<Rightarrow> u32"
  cfg_write :: "u32 \<Rightarrow> u32 \<Rightarrow> 'c \<Rightarrow> 'c"

record 'c pci_hw =
  address_port :: u32
  space :: 'c

definition PCI_CONFIG_ADDRESS :: u32 where "PCI_CONFIG_ADDRESS = 0x0cf8"
definition PCI_CONFIG_DATA :: u32 where "PCI_CONFIG_DATA = 0x0cfc"

definition outl :: "'c config \<Rightarrow> u32 \<Rightarrow> u32 \<Rightarrow> 'c pci_hw \<Rightarrow> 'c pci_hw" where
  "outl cfg port v hw =
     (if port = PCI_CONFIG_ADDRESS then hw\<lparr>address_port := v\<rparr>
      else if port = PCI_CONFIG_DATA then hw\<lparr>space := cfg_write cfg (address_port hw) v (space hw)\<rparr>
      else hw)"

definition inl :: "'c config \<Rightarrow> u32 \<Rightarrow> 'c pci_hw \<Rightarrow> u32" where
  "inl cfg port hw =
     (if port = PCI_CONFIG_ADDRESS then address_port hw
      else if port = PCI_CONFIG_DATA then cfg_read cfg (address_port hw) (space hw)
      else 0xffffffff)"

definition makeTag :: "u8 \<Rightarrow> u8 \<Rightarrow> u8 \<Rightarrow> u32" where
  "makeTag bus device func =
     push_bit 31 1 OR push_bit 16 (ucast bus) OR push_bit 11 (ucast device) OR push_bit 8 (ucast func)"

definition readConfigurationRegister32 :: "'c config \<Rightarrow> u8 \<Rightarrow> u8 \<Rightarrow> u8 \<Rightarrow> u8 \<Rightarrow> 'c pci_hw \<Rightarrow> (u32 \<times> 'c pci_hw) res" where
  "readConfigurationRegister32 cfg bus device func offset hw =
     (if offset AND 3 \<noteq> 0 then Inl (KASSERT ''(offset & 0x3) == 0'')
      else
        let tag = makeTag bus device func OR ucast offset;
            hw = outl cfg PCI_CONFIG_ADDRESS tag hw
        in Inr (inl cfg PCI_CONFIG_DATA hw, hw))"

definition readConfigurationRegister8 :: "'c config \<Rightarrow> u8 \<Rightarrow> u8 \<Rightarrow> u8 \<Rightarrow> u8 \<Rightarrow> 'c pci_hw \<Rightarrow> (u8 \<times> 'c pci_hw) res" where
  "readConfigurationRegister8 cfg bus device func offset hw =
     bindr (readConfigurationRegister32 cfg bus device func (offset AND NOT 3) hw) (\<lambda>(val, hw).
       let suboff = unat (offset AND 3) * 8
       in Inr (ucast (drop_bit suboff val), hw))"

definition readConfigurationRegister16 :: "'c config \<Rightarrow> u8 \<Rightarrow> u8 \<Rightarrow> u8 \<Rightarrow> u8 \<Rightarrow> 'c pci_hw \<Rightarrow> (u16 \<times> 'c pci_hw) res" where
  "readConfigurationRegister16 cfg bus device func offset hw =
     (if offset AND 1 \<noteq> 0 then Inl (KASSERT ''(offset & 0x1) == 0'')
      else bindr (readConfigurationRegister32 cfg bus device func (offset AND NOT 3) hw) (\<lambda>(val, hw).
        let suboff = unat (drop_bit 1 (offset AND 2)) * 16
        in Inr (ucast (drop_bit suboff val), hw)))"

definition writeConfigurationRegister32 :: "'c config \<Rightarrow> u8 \<Rightarrow> u8 \<Rightarrow> u8 \<Rightarrow> u8 \<Rightarrow> u32 \<Rightarrow> 'c pci_hw \<Rightarrow> 'c pci_hw res" where
  "writeConfigurationRegister32 cfg bus device func offset val hw =
     (if offset AND 3 \<noteq> 0 then Inl (KASSERT ''(offset & 0x3) == 0'')
      else
        let tag = makeTag bus device func OR ucast (offset AND 0xfc);
            hw = outl cfg PCI_CONFIG_ADDRESS tag hw
        in Inr (outl cfg PCI_CONFIG_DATA val hw))"

text \<open>
  The narrow writes read at the unaligned offset and shift to the right, mask and value alike; the
  operands are \<open>int\<close>.
\<close>

definition writeConfigurationRegister8 :: "'c config \<Rightarrow> u8 \<Rightarrow> u8 \<Rightarrow> u8 \<Rightarrow> u8 \<Rightarrow> u8 \<Rightarrow> 'c pci_hw \<Rightarrow> 'c pci_hw res" where
  "writeConfigurationRegister8 cfg bus device func offset val hw =
     bindr (readConfigurationRegister32 cfg bus device func offset hw) (\<lambda>(v, hw).
       let suboff = unat (offset AND 3) * 8;
           v = v AND drop_bit suboff 0xff;
           v = v OR drop_bit suboff (ucast val)
       in writeConfigurationRegister32 cfg bus device func (offset AND NOT 3) v hw)"

definition writeConfigurationRegister16 :: "'c config \<Rightarrow> u8 \<Rightarrow> u8 \<Rightarrow> u8 \<Rightarrow> u8 \<Rightarrow> u16 \<Rightarrow> 'c pci_hw \<Rightarrow> 'c pci_hw res" where
  "writeConfigurationRegister16 cfg bus device func offset val hw =
     (if offset AND 1 \<noteq> 0 then Inl (KASSERT ''(offset & 0x1) == 0'')
      else bindr (readConfigurationRegister32 cfg bus device func offset hw) (\<lambda>(v, hw).
        let suboff = unat (drop_bit 1 (offset AND 2)) * 16;
            v = v AND drop_bit suboff 0xffff;
            v = v OR drop_bit suboff (ucast val)
        in writeConfigurationRegister32 cfg bus device func (offset AND NOT 3) v hw))"

section \<open>The configuration space as bytes\<close>

definition cfg_addr :: "u8 \<Rightarrow> u8 \<Rightarrow> u8 \<Rightarrow> u8 \<Rightarrow> u32" where
  "cfg_addr bus device func offset = makeTag bus device func OR ucast (offset AND NOT 3)"

definition cfg_byte :: "'c config \<Rightarrow> 'c pci_hw \<Rightarrow> u8 \<Rightarrow> u8 \<Rightarrow> u8 \<Rightarrow> u8 \<Rightarrow> u8" where
  "cfg_byte cfg hw bus device func offset =
     ucast (drop_bit (8 * unat (offset AND 3)) (cfg_read cfg (cfg_addr bus device func offset) (space hw)))"


lemma offset_facts:
  "((x :: u8) AND NOT 3) AND 3 = 0 \<and> (x AND 3 = 0 \<longrightarrow> x AND NOT 3 = x \<and> x AND 0xfc = x \<and> x AND 2 = 0 \<and> x AND 1 = 0)"
  by (rule all_bytes [of "\<lambda>x. (x AND NOT 3) AND 3 = 0 \<and> (x AND 3 = 0 \<longrightarrow> x AND NOT 3 = x \<and> x AND 0xfc = x \<and> x AND 2 = 0 \<and> x AND 1 = 0)"])
    code_simp

lemma even_facts:
  "(x :: u8) AND 1 = 0 \<longrightarrow> (x + 1) AND NOT 3 = x AND NOT 3 \<and> unat ((x + 1) AND 3) = unat (x AND 3) + 1 \<and>
     unat (drop_bit 1 (x AND 2)) * 16 = 8 * unat (x AND 3)"
  by (rule all_bytes [of "\<lambda>x. x AND 1 = 0 \<longrightarrow> (x + 1) AND NOT 3 = x AND NOT 3 \<and> unat ((x + 1) AND 3) = unat (x AND 3) + 1 \<and>
     unat (drop_bit 1 (x AND 2)) * 16 = 8 * unat (x AND 3)"])
    code_simp

lemma aligned_facts:
  "(x :: u8) AND 3 = 0 \<longrightarrow> list_all (\<lambda>i. (x + of_nat i) AND NOT 3 = x \<and> (x + of_nat i) AND 3 = of_nat i) [0, 1, 2, 3]"
  by (rule all_bytes [of "\<lambda>x. x AND 3 = 0 \<longrightarrow> list_all (\<lambda>i. (x + of_nat i) AND NOT 3 = x \<and> (x + of_nat i) AND 3 = of_nat i) [0, 1, 2, 3]"])
    code_simp

text \<open>The address that the four numbers make names them uniquely.\<close>

lemma small_bytes: "((x :: u8) < 32 \<longrightarrow> take_bit 5 x = x) \<and> (x < 8 \<longrightarrow> take_bit 3 x = x)"
  by (rule all_bytes [of "\<lambda>x. (x < 32 \<longrightarrow> take_bit 5 x = x) \<and> (x < 8 \<longrightarrow> take_bit 3 x = x)"]) code_simp

lemma bit_enable: "bit (0x80000000 :: u32) n \<longleftrightarrow> n = 31"
proof -
  have "push_bit 31 1 = (0x80000000 :: u32)" by simp
  then have "bit (0x80000000 :: u32) n \<longleftrightarrow> bit (push_bit 31 1 :: u32) n" by simp
  then show ?thesis by (simp only: bit_push_bit_iff bit_1_iff) auto
qed

lemma bit_makeTag:
  assumes "device < 32" "func < 8"
  shows "bit (makeTag bus device func OR ucast (offset :: u8)) n \<longleftrightarrow>
    n = 31 \<or> 16 \<le> n \<and> bit bus (n - 16) \<or> 11 \<le> n \<and> n < 16 \<and> bit device (n - 11) \<or>
    8 \<le> n \<and> n < 11 \<and> bit func (n - 8) \<or> bit offset n"
proof -
  have d: "bit device k \<Longrightarrow> k < 5" for k using small_bytes [of device] assms(1) by (metis bit_take_bit_iff)
  have f: "bit func k \<Longrightarrow> k < 3" for k using small_bytes [of func] assms(2) by (metis bit_take_bit_iff)
  have b: "bit (x :: u8) k \<Longrightarrow> k < 8" for x k using bit_imp_le_length [of x k] by simp
  have "bit (makeTag bus device func OR ucast offset) n \<longleftrightarrow>
      n < 32 \<and> (n = 31 \<or> 16 \<le> n \<and> bit bus (n - 16) \<or> 11 \<le> n \<and> bit device (n - 11) \<or>
      8 \<le> n \<and> bit func (n - 8) \<or> bit offset n)"
    unfolding makeTag_def bit_or_iff bit_push_bit_iff bit_ucast_iff bit_1_iff len_of_numeral_defs
    using b [of bus "n - 16"] b [of device "n - 11"] by (auto simp: bit_imp_le_length)
  also have "\<dots> \<longleftrightarrow> n = 31 \<or> 16 \<le> n \<and> bit bus (n - 16) \<or> 11 \<le> n \<and> n < 16 \<and> bit device (n - 11) \<or>
    8 \<le> n \<and> n < 11 \<and> bit func (n - 8) \<or> bit offset n"
    using d [of "n - 11"] f [of "n - 8"] b [of bus "n - 16"] b [of offset n] by auto
  finally show ?thesis .
qed

lemma tag_unique:
  assumes "device < 32" "func < 8" "device' < 32" "func' < 8"
    and "makeTag bus device func OR ucast (offset :: u8) = makeTag bus' device' func' OR ucast offset'"
  shows "bus = bus' \<and> device = device' \<and> func = func' \<and> offset = offset'"
proof -
  have eq: "(n = 31 \<or> 16 \<le> n \<and> bit bus (n - 16) \<or> 11 \<le> n \<and> n < 16 \<and> bit device (n - 11) \<or>
      8 \<le> n \<and> n < 11 \<and> bit func (n - 8) \<or> bit offset n) \<longleftrightarrow>
    (n = 31 \<or> 16 \<le> n \<and> bit bus' (n - 16) \<or> 11 \<le> n \<and> n < 16 \<and> bit device' (n - 11) \<or>
      8 \<le> n \<and> n < 11 \<and> bit func' (n - 8) \<or> bit offset' n)" for n
    using bit_makeTag [OF assms(1,2), of bus offset n] bit_makeTag [OF assms(3,4), of bus' offset' n] assms(5) by simp
  have b: "bit (x :: u8) k \<Longrightarrow> k < 8" for x k using bit_imp_le_length [of x k] by simp
  have small: "take_bit 5 device = device" "take_bit 5 device' = device'" "take_bit 3 func = func" "take_bit 3 func' = func'"
    using small_bytes assms by auto
  have "bit bus k = bit bus' k" if "k < 8" for k
    using eq [of "k + 16"] that b [of _ "k + 16"] by auto
  moreover have "bit device k = bit device' k" if "k < 8" for k
  proof (cases "k < 5")
    case True
    then show ?thesis using eq [of "k + 11"] b [of _ "k + 11"] by auto
  next
    case False
    then show ?thesis using small by (metis bit_take_bit_iff)
  qed
  moreover have "bit func k = bit func' k" if "k < 8" for k
  proof (cases "k < 3")
    case True
    then show ?thesis using eq [of "k + 8"] b [of _ "k + 8"] by auto
  next
    case False
    then show ?thesis using small by (metis bit_take_bit_iff)
  qed
  moreover have "bit offset k = bit offset' k" if "k < 8" for k
    using eq [of k] that by auto
  ultimately show ?thesis by (auto intro!: bit_word_eqI)
qed

section \<open>Reads and writes\<close>

lemma ports: "inl cfg PCI_CONFIG_DATA (hw\<lparr>address_port := tag\<rparr>) = cfg_read cfg tag (space hw)"
  "outl cfg PCI_CONFIG_ADDRESS tag hw = hw\<lparr>address_port := tag\<rparr>"
  "outl cfg PCI_CONFIG_DATA v (hw\<lparr>address_port := tag\<rparr>) =
     hw\<lparr>address_port := tag, space := cfg_write cfg tag v (space hw)\<rparr>"
  by (simp_all add: inl_def outl_def PCI_CONFIG_ADDRESS_def PCI_CONFIG_DATA_def)

lemma read32:
  "readConfigurationRegister32 cfg b d f offset hw =
    (if offset AND 3 = 0
     then Inr (cfg_read cfg (cfg_addr b d f offset) (space hw), hw\<lparr>address_port := cfg_addr b d f offset\<rparr>)
     else Inl (KASSERT ''(offset & 0x3) == 0''))"
  using offset_facts [of offset]
  by (simp add: readConfigurationRegister32_def Let_def ports cfg_addr_def)

lemma cfg_addr_align: "cfg_addr b d f (offset AND - 4) = cfg_addr b d f offset"
  by (simp add: cfg_addr_def)

lemma low_bytes:
  fixes v :: u32
  shows "v AND 0xff = take_bit 8 v" "v AND 0xffff = take_bit 16 v"
  by (simp_all add: take_bit_eq_mask mask_eq_exp_minus_1)

lemma read8:
  "readConfigurationRegister8 cfg b d f x hw = Inr (cfg_byte cfg hw b d f x, hw\<lparr>address_port := cfg_addr b d f x\<rparr>)"
  using offset_facts [of x]
  by (simp add: readConfigurationRegister8_def read32 bindr_def cfg_addr_align cfg_byte_def Let_def mult.commute)

lemma two_bytes:
  "ucast (drop_bit k (v :: u32)) = (ucast (ucast (drop_bit k v) :: u8) OR push_bit 8 (ucast (ucast (drop_bit (8 + k) v) :: u8)) :: u16)"
  by (rule bit_word_eqI) (auto simp: bit_simps add.commute add.left_commute)

lemma four_bytes:
  "(v :: u32) = ucast (ucast v :: u8) OR push_bit 8 (ucast (ucast (drop_bit 8 v) :: u8)) OR
     push_bit 16 (ucast (ucast (drop_bit 16 v) :: u8)) OR push_bit 24 (ucast (ucast (drop_bit 24 v) :: u8))"
  (is "v = ?w")
proof (rule bit_word_eqI)
  fix n
  assume "n < LENGTH(32)"
  then consider "n < 8" | "8 \<le> n" "n < 16" | "16 \<le> n" "n < 24" | "24 \<le> n" "n < 32" by fastforce
  then show "bit v n = bit ?w n" by cases (auto simp: bit_simps)
qed

text \<open>
  Reading the configuration space: the address that is sent names the bus, the device, the function
  and the register uniquely; the three reads of X86Pci.cc give the byte, the two and the four bytes at
  the offset, least significant first, and change nothing but the address port; a 16-bit read at an odd
  offset and a 32-bit read that is not aligned fail their assertion.
\<close>

theorem configuration_reads:
  "(\<forall>d' f' b' x'. d < 32 \<and> f < 8 \<and> d' < 32 \<and> f' < 8 \<and> cfg_addr b d f x = cfg_addr b' d' f' x' \<longrightarrow>
      b = b' \<and> d = d' \<and> f = f' \<and> x AND NOT 3 = x' AND NOT 3) \<and>
   readConfigurationRegister8 cfg b d f x hw =
     Inr (cfg_byte cfg hw b d f x, hw\<lparr>address_port := cfg_addr b d f x\<rparr>) \<and>
   readConfigurationRegister16 cfg b d f x hw =
     (if x AND 1 = 0
      then Inr (ucast (cfg_byte cfg hw b d f x) OR push_bit 8 (ucast (cfg_byte cfg hw b d f (x + 1))),
                hw\<lparr>address_port := cfg_addr b d f x\<rparr>)
      else Inl (KASSERT ''(offset & 0x1) == 0'')) \<and>
   readConfigurationRegister32 cfg b d f x hw =
     (if x AND 3 = 0
      then Inr (ucast (cfg_byte cfg hw b d f x) OR push_bit 8 (ucast (cfg_byte cfg hw b d f (x + 1))) OR
                push_bit 16 (ucast (cfg_byte cfg hw b d f (x + 2))) OR push_bit 24 (ucast (cfg_byte cfg hw b d f (x + 3))),
                hw\<lparr>address_port := cfg_addr b d f x\<rparr>)
      else Inl (KASSERT ''(offset & 0x3) == 0''))"
proof (intro conjI)
  show "\<forall>d' f' b' x'. d < 32 \<and> f < 8 \<and> d' < 32 \<and> f' < 8 \<and> cfg_addr b d f x = cfg_addr b' d' f' x' \<longrightarrow>
      b = b' \<and> d = d' \<and> f = f' \<and> x AND NOT 3 = x' AND NOT 3"
    unfolding cfg_addr_def using tag_unique by blast
  have al: "(x AND - 4) AND 3 = 0" using offset_facts [of x] by simp
  show "readConfigurationRegister8 cfg b d f x hw =
     Inr (cfg_byte cfg hw b d f x, hw\<lparr>address_port := cfg_addr b d f x\<rparr>)"
    by (rule read8)
  show "readConfigurationRegister16 cfg b d f x hw =
     (if x AND 1 = 0
      then Inr (ucast (cfg_byte cfg hw b d f x) OR push_bit 8 (ucast (cfg_byte cfg hw b d f (x + 1))),
                hw\<lparr>address_port := cfg_addr b d f x\<rparr>)
      else Inl (KASSERT ''(offset & 0x1) == 0''))"
  proof (cases "x AND 1 = 0")
    case True
    have e: "(x + 1) AND - 4 = x AND - 4" "unat ((x + 1) AND 3) = unat (x AND 3) + 1"
        "unat (drop_bit (Suc 0) x AND 1) * 16 = 8 * unat (x AND 3)"
      using even_facts [of x] True by simp_all
    have "cfg_addr b d f (x + 1) = cfg_addr b d f x" by (simp add: cfg_addr_def e(1))
    then show ?thesis
      using True two_bytes [of "8 * unat (x AND 3)" "cfg_read cfg (cfg_addr b d f x) (space hw)"]
      by (simp add: readConfigurationRegister16_def read32 al bindr_def cfg_addr_align cfg_byte_def Let_def e)
  qed (simp add: readConfigurationRegister16_def)
  show "readConfigurationRegister32 cfg b d f x hw =
     (if x AND 3 = 0
      then Inr (ucast (cfg_byte cfg hw b d f x) OR push_bit 8 (ucast (cfg_byte cfg hw b d f (x + 1))) OR
                push_bit 16 (ucast (cfg_byte cfg hw b d f (x + 2))) OR push_bit 24 (ucast (cfg_byte cfg hw b d f (x + 3))),
                hw\<lparr>address_port := cfg_addr b d f x\<rparr>)
      else Inl (KASSERT ''(offset & 0x3) == 0''))"
  proof (cases "x AND 3 = 0")
    case True
    have e: "(x + 1) AND - 4 = x" "(x + 1) AND 3 = 1" "(x + 2) AND - 4 = x" "(x + 2) AND 3 = 2"
        "(x + 3) AND - 4 = x" "(x + 3) AND 3 = 3" "x AND - 4 = x"
      using aligned_facts [of x] offset_facts [of x] True by simp_all
    show ?thesis
      using True four_bytes [of "cfg_read cfg (cfg_addr b d f x) (space hw)"]
      by (simp add: read32 cfg_byte_def cfg_addr_def e)
  qed (simp add: read32)
qed

text \<open>
  Writing the configuration space: a 32-bit write stores its value. The narrow writes do not do
  what they are for: at a multiple of four they clear the upper bytes of the register and combine the
  value with what the lower bytes were, and at every other offset they fail an assertion.
\<close>

theorem configuration_writes:
  "writeConfigurationRegister32 cfg b d f x v hw =
     (if x AND 3 = 0
      then Inr (hw\<lparr>address_port := cfg_addr b d f x, space := cfg_write cfg (cfg_addr b d f x) v (space hw)\<rparr>)
      else Inl (KASSERT ''(offset & 0x3) == 0'')) \<and>
   writeConfigurationRegister8 cfg b d f x val8 hw =
     (if x AND 3 = 0
      then writeConfigurationRegister32 cfg b d f x (ucast (cfg_byte cfg hw b d f x OR val8)) hw
      else Inl (KASSERT ''(offset & 0x3) == 0'')) \<and>
   writeConfigurationRegister16 cfg b d f x val16 hw =
     (if x AND 1 \<noteq> 0 then Inl (KASSERT ''(offset & 0x1) == 0'')
      else if x AND 3 = 0
      then writeConfigurationRegister32 cfg b d f x
        (ucast (ucast (cfg_byte cfg hw b d f x) OR push_bit 8 (ucast (cfg_byte cfg hw b d f (x + 1))) OR val16)) hw
      else Inl (KASSERT ''(offset & 0x3) == 0''))"
proof (intro conjI)
  show w32: "writeConfigurationRegister32 cfg b d f x v hw =
     (if x AND 3 = 0
      then Inr (hw\<lparr>address_port := cfg_addr b d f x, space := cfg_write cfg (cfg_addr b d f x) v (space hw)\<rparr>)
      else Inl (KASSERT ''(offset & 0x3) == 0''))" for v hw
    using offset_facts [of x] by (simp add: writeConfigurationRegister32_def Let_def ports cfg_addr_def)
  have low8: "v AND 0xff OR ucast val8 = (ucast (ucast v OR val8) :: u32)" for v :: u32
    by (rule bit_word_eqI) (auto simp: low_bytes bit_simps)
  show "writeConfigurationRegister8 cfg b d f x val8 hw =
     (if x AND 3 = 0
      then writeConfigurationRegister32 cfg b d f x (ucast (cfg_byte cfg hw b d f x OR val8)) hw
      else Inl (KASSERT ''(offset & 0x3) == 0''))"
    using offset_facts [of x]
    by (simp add: writeConfigurationRegister8_def read32 bindr_def Let_def w32 cfg_byte_def low8)
  show "writeConfigurationRegister16 cfg b d f x val16 hw =
     (if x AND 1 \<noteq> 0 then Inl (KASSERT ''(offset & 0x1) == 0'')
      else if x AND 3 = 0
      then writeConfigurationRegister32 cfg b d f x
        (ucast (ucast (cfg_byte cfg hw b d f x) OR push_bit 8 (ucast (cfg_byte cfg hw b d f (x + 1))) OR val16)) hw
      else Inl (KASSERT ''(offset & 0x3) == 0''))"
  proof (cases "x AND 3 = 0")
    case True
    have e: "(x + 1) AND - 4 = x" "(x + 1) AND 3 = 1" "x AND - 4 = x" "x AND 2 = 0" "x AND 1 = 0"
      using aligned_facts [of x] offset_facts [of x] True by simp_all
    have low16: "v AND 0xffff OR ucast val16 =
        (ucast (ucast (ucast v :: u8) OR push_bit 8 (ucast (ucast (drop_bit 8 v) :: u8)) OR val16) :: u32)" for v :: u32
      by (rule bit_word_eqI) (auto simp: low_bytes bit_simps)
    show ?thesis
      using True
      by (simp add: writeConfigurationRegister16_def read32 bindr_def Let_def w32 cfg_byte_def cfg_addr_def e low16)
  next
    case False
    then show ?thesis by (simp add: writeConfigurationRegister16_def read32 bindr_def)
  qed
qed

section \<open>What is printed of a device\<close>

text \<open>The lines that the enumeration prints, with their arguments.\<close>

datatype bar_text = MemoryBar u32 string bool | IoBar u32

datatype pci_line =
  IrqLine u8 u8
| BarLine u32 bar_text
| InitLine u8 u8 u8 u32
| UnknownLine u8 u8 u8 string u16 u16
| DeviceLine u8 u8 u8 string u16 u16

text \<open>The table has three entries: type 3 passes the check and reads behind it.\<close>

definition behind_table :: panic where
  "behind_table = PANIC ''typeNames[3]''"

definition getTypeName :: "u8 \<Rightarrow> string res" where
  "getTypeName type =
     (if type > 3 then Inr ''invalid''
      else if type = 3 then Inl behind_table
      else Inr ([''32bit'', ''reserved (16bit)'', ''64bit''] ! unat type))"

definition printBar :: "u32 \<Rightarrow> bar_text res" where
  "printBar bar =
     (if bar AND 1 = 0
      then let address = bar AND 0xfffffff0;
               type = ucast (drop_bit 1 bar AND 3);
               prefetchable = (drop_bit 3 bar AND 1 \<noteq> 0)
           in bindr (getTypeName type) (\<lambda>name. Inr (MemoryBar address name prefetchable))
      else Inr (IoBar (bar AND 0xffffffc0)))"

definition getClassName :: "u8 \<Rightarrow> string" where
  "getClassName classId =
     (if classId = 0x00 then ''Unclassified device''
      else if classId = 0x01 then ''Mass storage controller''
      else if classId = 0x02 then ''Network controller''
      else if classId = 0x03 then ''Display controller''
      else if classId = 0x04 then ''Multimedia device''
      else if classId = 0x05 then ''Memory Controller''
      else if classId = 0x06 then ''Bridge Device''
      else if classId = 0x07 then ''Communications controller''
      else if classId = 0x08 then ''Generic system peripheral''
      else if classId = 0x09 then ''Input device''
      else if classId = 0x0a then ''Docking Station''
      else if classId = 0x0b then ''Processor''
      else if classId = 0x0c then ''Serial bus controller''
      else if classId = 0x0e then ''Intelligent controller''
      else if classId = 0x0f then ''Satellite communications controller''
      else if classId = 0x10 then ''Encryption controller''
      else if classId = 0x11 then ''Signal processing controller''
      else if classId = 0xff then ''Misc''
      else ''Unknown'')"

definition getVendorId :: "'c config \<Rightarrow> u8 \<Rightarrow> u8 \<Rightarrow> u8 \<Rightarrow> 'c pci_hw \<Rightarrow> (u16 \<times> 'c pci_hw) res" where
  "getVendorId cfg bus device func hw = readConfigurationRegister16 cfg bus device func 0x00 hw"

definition getDeviceId :: "'c config \<Rightarrow> u8 \<Rightarrow> u8 \<Rightarrow> u8 \<Rightarrow> 'c pci_hw \<Rightarrow> (u16 \<times> 'c pci_hw) res" where
  "getDeviceId cfg bus device func hw = readConfigurationRegister16 cfg bus device func 0x02 hw"

text \<open>The loop over the six base address registers.\<close>

primrec bar_lines :: "'c config \<Rightarrow> u8 \<Rightarrow> u8 \<Rightarrow> u8 \<Rightarrow> u8 list \<Rightarrow> 'c pci_hw \<Rightarrow> (pci_line list \<times> 'c pci_hw) res" where
  "bar_lines cfg bus device func [] hw = Inr ([], hw)"
| "bar_lines cfg bus device func (i # is) hw =
     bindr (readConfigurationRegister32 cfg bus device func i hw) (\<lambda>(bar, hw).
     bindr (if bar \<noteq> 0 then bindr (printBar bar) (\<lambda>t. Inr [BarLine (ucast i div 4) t]) else Inr []) (\<lambda>l.
     bindr (bar_lines cfg bus device func is hw) (\<lambda>(ls, hw). Inr (l @ ls, hw))))"

definition getDeviceInfo :: "'c config \<Rightarrow> u8 \<Rightarrow> u8 \<Rightarrow> u8 \<Rightarrow> 'c pci_hw \<Rightarrow> (pci_line list \<times> 'c pci_hw) res" where
  "getDeviceInfo cfg bus device func hw =
     bindr (readConfigurationRegister8 cfg bus device func 0x3d hw) (\<lambda>(interruptPin, hw).
     bindr (readConfigurationRegister8 cfg bus device func 0x3c hw) (\<lambda>(interruptLine, hw).
     bindr (bar_lines cfg bus device func [0x10, 0x14, 0x18, 0x1c, 0x20, 0x24] hw) (\<lambda>(ls, hw).
       Inr ((if interruptPin \<noteq> 0 \<and> interruptPin \<le> 4 then [IrqLine interruptLine interruptPin] else []) @ ls, hw))))"

section \<open>Drivers and the enumeration\<close>

record 'c pci =
  pciM :: "'c pci_hw"
  pciDrivers :: u32
  pci_next :: "u32 \<Rightarrow> u32"
  printed :: "pci_line list"

record 'c pci_class =
  pci_probe :: "u32 \<Rightarrow> u8 \<Rightarrow> u8 \<Rightarrow> u8 \<Rightarrow> 'c pci_hw \<Rightarrow> (u32 \<times> 'c pci_hw) res option"
  pci_init :: "u32 \<Rightarrow> u8 \<Rightarrow> u8 \<Rightarrow> u8 \<Rightarrow> 'c pci_hw \<Rightarrow> (bool \<times> 'c pci_hw) res option"

definition pci_registerDriver :: "u32 \<Rightarrow> 'c pci \<Rightarrow> 'c pci" where
  "pci_registerDriver driver s =
     (let s = s\<lparr>pci_next := (pci_next s)(driver := pciDrivers s)\<rparr>
      in s\<lparr>pciDrivers := driver\<rparr>)"

definition pciDriver_ctor :: "u32 \<Rightarrow> 'c pci \<Rightarrow> 'c pci" where
  "pciDriver_ctor this s = pci_registerDriver this (s\<lparr>pci_next := (pci_next s)(this := 0)\<rparr>)"

partial_function (option) attach_loop :: "'c pci_class \<Rightarrow> u8 \<Rightarrow> u8 \<Rightarrow> u8 \<Rightarrow> u32 \<Rightarrow> 'c pci \<Rightarrow> (bool \<times> 'c pci) res option" where
  "attach_loop m bus device func driver s =
     (if driver = 0 then Some (Inr (False, s))
      else bindo (pci_probe m driver bus device func (pciM s)) (\<lambda>(r, h).
        let s = s\<lparr>pciM := h\<rparr>
        in if 0 <s r
           then let s = s\<lparr>printed := printed s @ [InitLine bus device func driver]\<rparr>
             in bindo (pci_init m driver bus device func (pciM s)) (\<lambda>(ok, h). Some (Inr (True, s\<lparr>pciM := h\<rparr>)))
           else attach_loop m bus device func (pci_next s driver) s))"

definition probeAndAttach :: "'c pci_class \<Rightarrow> u8 \<Rightarrow> u8 \<Rightarrow> u8 \<Rightarrow> 'c pci \<Rightarrow> (bool \<times> 'c pci) res option" where
  "probeAndAttach m bus device func s = attach_loop m bus device func (pciDrivers s) s"

text \<open>The body of the three loops of \<open>enumerate\<close>; the class is read at offset 8.\<close>

definition enumerate_function :: "'c config \<Rightarrow> 'c pci_class \<Rightarrow> nat \<Rightarrow> nat \<Rightarrow> nat \<Rightarrow> 'c pci \<Rightarrow> 'c pci res option" where
  "enumerate_function cfg m bus dev fun s =
     (let b = of_nat bus; d = of_nat dev; f = of_nat fun in
      bindo (Some (getVendorId cfg b d f (pciM s))) (\<lambda>(vid, h).
        if vid \<noteq> 0xffff
        then bindo (Some (getDeviceId cfg b d f h)) (\<lambda>(did, h).
             bindo (Some (readConfigurationRegister8 cfg b d f 8 h)) (\<lambda>(deviceClass, h).
             bindo (Some (getDeviceInfo cfg b d f h)) (\<lambda>(ls, h).
             bindo (probeAndAttach m b d f (s\<lparr>pciM := h, printed := printed s @ ls\<rparr>)) (\<lambda>(attached, s).
               Some (Inr (if attached then s
                          else s\<lparr>printed := printed s @ [UnknownLine b d f (getClassName deviceClass) vid did]\<rparr>))))))
        else Some (Inr (s\<lparr>pciM := h\<rparr>))))"

definition enumerate_pci :: "'c config \<Rightarrow> 'c pci_class \<Rightarrow> 'c pci \<Rightarrow> 'c pci res option" where
  "enumerate_pci cfg m =
     steps (\<lambda>bus. steps (\<lambda>dev. steps (\<lambda>fun. enumerate_function cfg m bus dev fun) [0..<8]) [0..<32]) [0..<256]"

definition list_function :: "'c config \<Rightarrow> nat \<Rightarrow> nat \<Rightarrow> nat \<Rightarrow> 'c pci \<Rightarrow> 'c pci res option" where
  "list_function cfg bus dev fun s =
     (let b = of_nat bus; d = of_nat dev; f = of_nat fun in
      bindo (Some (getVendorId cfg b d f (pciM s))) (\<lambda>(vid, h).
        if vid \<noteq> 0xffff
        then bindo (Some (getDeviceId cfg b d f h)) (\<lambda>(did, h).
             bindo (Some (readConfigurationRegister8 cfg b d f 8 h)) (\<lambda>(deviceClass, h).
               Some (Inr (s\<lparr>pciM := h, printed := printed s @ [DeviceLine b d f (getClassName deviceClass) vid did]\<rparr>))))
        else Some (Inr (s\<lparr>pciM := h\<rparr>))))"

definition listDevices :: "'c config \<Rightarrow> 'c pci \<Rightarrow> 'c pci res option" where
  "listDevices cfg =
     steps (\<lambda>bus. steps (\<lambda>dev. steps (\<lambda>fun. list_function cfg bus dev fun) [0..<8]) [0..<32]) [0..<256]"

text \<open>The probe of the i6300esb watchdog.\<close>

definition watchdog_probe :: "'c config \<Rightarrow> u8 \<Rightarrow> u8 \<Rightarrow> u8 \<Rightarrow> 'c pci_hw \<Rightarrow> (u32 \<times> 'c pci_hw) res" where
  "watchdog_probe cfg bus device func hw =
     bindr (getVendorId cfg bus device func hw) (\<lambda>(vendorId, hw).
     bindr (getDeviceId cfg bus device func hw) (\<lambda>(deviceId, hw).
       Inr (if vendorId = 0x8086 \<and> deviceId = 0x25ab then 1 else 0, hw)))"

section \<open>What the enumeration does\<close>

lemma steps_product:
  "steps (\<lambda>x. steps (g x) ys) xs s = steps (\<lambda>(x, y). g x y) (List.product xs ys) s"
proof -
  have m: "steps (\<lambda>(x, y). g x y) (map (Pair x) ys) s = steps (g x) ys s" for x s
    by (induction ys arbitrary: s) (auto intro: bindo_cong)
  show ?thesis
    by (induction xs arbitrary: s) (auto simp: steps_append m intro: bindo_cong)
qed

definition all_functions :: "(nat \<times> nat \<times> nat) list" where
  "all_functions = List.product [0..<256] (List.product [0..<32] [0..<8])"

lemma steps_functions:
  "steps (\<lambda>bus. steps (\<lambda>dev. steps (\<lambda>fun. g bus dev fun) [0..<8]) [0..<32]) [0..<256] s =
   steps (\<lambda>(bus, dev, fun). g bus dev fun) all_functions s"
proof -
  have "steps (\<lambda>dev. steps (\<lambda>fun. g bus dev fun) [0..<8]) [0..<32] =
      steps (\<lambda>(dev, fun). g bus dev fun) (List.product [0..<32] [0..<8])" for bus
    by (rule ext) (rule steps_product)
  then show ?thesis unfolding all_functions_def by (simp only: steps_product)
qed

text \<open>
  A machine in which an invariant of the configuration space fixes which functions are present, and
  the probes and initialisations of the drivers return and keep it. What initialisations do is seen
  through a view of the hardware: \<open>init\<close> of driver \<open>x\<close> on a function acts on it as \<open>started x\<close>, probes
  and the address port do not show in it. A log of the initialisations is such a view.
\<close>

definition device_present :: "'c config \<Rightarrow> 'c pci_hw \<Rightarrow> u8 \<Rightarrow> u8 \<Rightarrow> u8 \<Rightarrow> bool" where
  "device_present cfg h b d f \<longleftrightarrow> take_bit 16 (cfg_read cfg (cfg_addr b d f 0) (space h)) \<noteq> 0xffff"

definition bars_ok :: "'c config \<Rightarrow> 'c pci_hw \<Rightarrow> u8 \<Rightarrow> u8 \<Rightarrow> u8 \<Rightarrow> bool" where
  "bars_ok cfg h b d f \<longleftrightarrow>
     list_all (\<lambda>i. let bar = cfg_read cfg (cfg_addr b d f i) (space h) in bar AND 7 \<noteq> 6)
       [0x10, 0x14, 0x18, 0x1c, 0x20, 0x24]"

definition drivers_behave :: "'c config \<Rightarrow> 'c pci_class \<Rightarrow> u32 list \<Rightarrow> (u32 \<Rightarrow> u8 \<Rightarrow> u8 \<Rightarrow> u8 \<Rightarrow> u32) \<Rightarrow>
    ('c pci_hw \<Rightarrow> bool) \<Rightarrow> (u8 \<Rightarrow> u8 \<Rightarrow> u8 \<Rightarrow> bool) \<Rightarrow> ('c pci_hw \<Rightarrow> 'v) \<Rightarrow> (u32 \<Rightarrow> u8 \<Rightarrow> u8 \<Rightarrow> u8 \<Rightarrow> 'v \<Rightarrow> 'v) \<Rightarrow> bool" where
  "drivers_behave cfg m ds rank ok pr view started \<longleftrightarrow>
     (\<forall>h a. ok h \<longrightarrow> ok (h\<lparr>address_port := a\<rparr>)) \<and> (\<forall>h a. view (h\<lparr>address_port := a\<rparr>) = view h) \<and>
     (\<forall>h b d f. ok h \<longrightarrow> device_present cfg h b d f = pr b d f \<and> (pr b d f \<longrightarrow> bars_ok cfg h b d f)) \<and>
     (\<forall>x \<in> set ds. \<forall>b d f h. ok h \<longrightarrow>
       (\<exists>h'. pci_probe m x b d f h = Some (Inr (rank x b d f, h')) \<and> ok h' \<and> view h' = view h) \<and>
       (\<exists>r h'. pci_init m x b d f h = Some (Inr (r, h')) \<and> ok h' \<and> view h' = started x b d f (view h)))"

text \<open>What became of a function, read off the lines.\<close>

definition outcomes :: "pci_line list \<Rightarrow> (u8 \<times> u8 \<times> u8 \<times> u32 option) list" where
  "outcomes ls = concat (map (\<lambda>l. case l of
       InitLine b d f x \<Rightarrow> [(b, d, f, Some x)]
     | UnknownLine b d f c v i \<Rightarrow> [(b, d, f, None)]
     | _ \<Rightarrow> []) ls)"

lemma outcomes_simps [simp]:
  "outcomes [] = []" "outcomes (xs @ ys) = outcomes xs @ outcomes ys"
  "outcomes [InitLine b d f x] = [(b, d, f, Some x)]" "outcomes [UnknownLine b d f c v i] = [(b, d, f, None)]"
  by (simp_all add: outcomes_def)

definition first_driver :: "(u32 \<Rightarrow> u8 \<Rightarrow> u8 \<Rightarrow> u8 \<Rightarrow> u32) \<Rightarrow> u32 list \<Rightarrow> u8 \<Rightarrow> u8 \<Rightarrow> u8 \<Rightarrow> u32 option" where
  "first_driver rank ds b d f = find (\<lambda>x. 0 <s rank x b d f) ds"

text \<open>The effect of the driver that takes a function.\<close>

definition taken :: "(u32 \<Rightarrow> u8 \<Rightarrow> u8 \<Rightarrow> u8 \<Rightarrow> 'v \<Rightarrow> 'v) \<Rightarrow> (u8 \<times> u8 \<times> u8 \<times> u32 option) \<Rightarrow> 'v \<Rightarrow> 'v" where
  "taken started = (\<lambda>(b, d, f, x). case x of None \<Rightarrow> id | Some x \<Rightarrow> started x b d f)"

lemma attach_loop_first:
  assumes "drivers_behave cfg m ds rank ok pr view started" "chain (pci_next s) p xs" "set xs \<subseteq> set ds" "ok (pciM s)"
  shows "\<exists>s'. attach_loop m b d f p s = Some (Inr (first_driver rank xs b d f \<noteq> None, s')) \<and>
    ok (pciM s') \<and> view (pciM s') = taken started (b, d, f, first_driver rank xs b d f) (view (pciM s)) \<and> pci_next s' = pci_next s \<and> pciDrivers s' = pciDrivers s \<and>
    printed s' = printed s @ (case first_driver rank xs b d f of None \<Rightarrow> [] | Some x \<Rightarrow> [InitLine b d f x])"
  using assms(2-4)
proof (induction xs arbitrary: p s)
  case Nil
  then show ?case by (subst attach_loop.simps) (simp add: first_driver_def taken_def)
next
  case (Cons x xs)
  have p: "p = x" "x \<noteq> 0" "chain (pci_next s) (pci_next s x) xs" "x \<in> set ds" "set xs \<subseteq> set ds"
    using Cons.prems by auto
  obtain h1 where h1: "pci_probe m x b d f (pciM s) = Some (Inr (rank x b d f, h1))" "ok h1" "view h1 = view (pciM s)"
    using assms(1) p(4) Cons.prems(3) unfolding drivers_behave_def by blast
  obtain r h2 where h2: "pci_init m x b d f h1 = Some (Inr (r, h2))" "ok h2" "view h2 = started x b d f (view h1)"
    using assms(1) p(4) h1(2) unfolding drivers_behave_def by blast
  show ?case
  proof (cases "0 <s rank x b d f")
    case True
    then show ?thesis using p h1 h2 by (subst attach_loop.simps) (simp add: Let_def first_driver_def taken_def)
  next
    case False
    then have "attach_loop m b d f p s = attach_loop m b d f (pci_next s x) (s\<lparr>pciM := h1\<rparr>)"
      using p h1 by (subst attach_loop.simps) (simp add: Let_def)
    moreover have "first_driver rank (x # xs) b d f = first_driver rank xs b d f"
      using False by (simp add: first_driver_def)
    ultimately show ?thesis using Cons.IH [of "s\<lparr>pciM := h1\<rparr>" "pci_next s x"] p h1(2,3) by simp
  qed
qed

lemma bar_type:
  fixes bar :: u32
  assumes "bar AND 1 = 0" "bar AND 7 \<noteq> 6"
  shows "(ucast (drop_bit 1 bar AND 3) :: u8) < 3"
proof -
  have m: "mask 1 = (1 :: u32)" "mask 2 = (3 :: u32)" "mask 3 = (7 :: u32)"
    by (simp_all add: mask_eq_exp_minus_1)
  note masks = unat_and_mask [of bar 1, unfolded m] unat_and_mask [of "drop_bit 1 bar" 2, unfolded m]
    unat_and_mask [of bar 3, unfolded m]
  have 1: "unat bar mod 2 = 0" using masks(1) unfolding assms(1) by simp
  have 7: "unat bar mod 8 \<noteq> 6"
  proof
    assume "unat bar mod 8 = 6"
    then have "unat (bar AND 7) = unat (6 :: u32)" using masks(3) by simp
    then show False using assms(2) by (simp add: word_unat_eq_iff)
  qed
  have "unat (drop_bit 1 bar AND 3) = unat bar div 2 mod 4"
    using masks(2) by (simp add: drop_bit_eq_div unat_div)
  moreover have "unat bar div 2 mod 4 < 3" using 1 7 by presburger
  ultimately have "unat (drop_bit 1 bar AND 3) < 3" by simp
  then have "unat (ucast (drop_bit 1 bar AND 3) :: u8) < 3"
    using take_bit_nat_less_eq_self [of 8 "unat (drop_bit 1 bar AND 3)"]
    by (simp add: unsigned_ucast_eq del: take_bit_nat_less_eq_self)
  then show ?thesis by (simp add: word_less_nat_alt)
qed

lemma printBar_returns:
  assumes "bar AND 7 \<noteq> 6"
  shows "\<exists>t. printBar bar = Inr t"
  using bar_type [OF _ assms] by (auto simp: printBar_def getTypeName_def bindr_def Let_def)

lemma bar_lines_return:
  assumes "list_all (\<lambda>i. i AND 3 = 0 \<and> cfg_read cfg (cfg_addr b d f i) (space h) AND 7 \<noteq> 6) is"
  shows "\<exists>ls a. bar_lines cfg b d f is h = Inr (ls, h\<lparr>address_port := a\<rparr>) \<and> outcomes ls = []"
  using assms
proof (induction "is" arbitrary: h)
  case Nil
  have "h = h\<lparr>address_port := address_port h\<rparr>" by simp
  then show ?case by (metis bar_lines.simps(1) outcomes_simps(1))
next
  case (Cons i "is")
  let ?bar = "cfg_read cfg (cfg_addr b d f i) (space h)"
  let ?h = "h\<lparr>address_port := cfg_addr b d f i\<rparr>"
  obtain t where "printBar ?bar = Inr t" using Cons.prems printBar_returns by auto
  moreover obtain ls a where "bar_lines cfg b d f is ?h = Inr (ls, ?h\<lparr>address_port := a\<rparr>)" "outcomes ls = []"
    using Cons.IH [of ?h] Cons.prems by auto
  ultimately show ?case
    using Cons.prems by (auto simp: read32 bindr_def outcomes_def)
qed

lemma getDeviceInfo_returns:
  assumes "bars_ok cfg h b d f"
  shows "\<exists>ls a. getDeviceInfo cfg b d f h = Inr (ls, h\<lparr>address_port := a\<rparr>) \<and> outcomes ls = []"
proof -
  let ?h = "h\<lparr>address_port := cfg_addr b d f 0x3c\<rparr>"
  obtain ls a where "bar_lines cfg b d f [0x10, 0x14, 0x18, 0x1c, 0x20, 0x24] ?h = Inr (ls, ?h\<lparr>address_port := a\<rparr>)"
      "outcomes ls = []"
    using bar_lines_return [of cfg b d f ?h "[0x10, 0x14, 0x18, 0x1c, 0x20, 0x24]"] assms
    by (auto simp: bars_ok_def)
  then show ?thesis
    by (auto simp: getDeviceInfo_def read8 bindr_def outcomes_def simp del: bar_lines.simps)
qed

lemma vendor_read:
  "\<exists>v a. getVendorId cfg b d f h = Inr (v, h\<lparr>address_port := a\<rparr>) \<and> (v \<noteq> 0xffff \<longleftrightarrow> device_present cfg h b d f)"
proof -
  let ?v = "cfg_read cfg (cfg_addr b d f 0) (space h)"
  have "(ucast ?v :: u16) = 0xffff \<longleftrightarrow> take_bit 16 ?v = 0xffff"
  proof -
    have "unat (ucast ?v :: u16) = unat (take_bit 16 ?v)"
      by (simp add: unsigned_ucast_eq unsigned_take_bit_eq)
    then show ?thesis by (simp add: word_unat_eq_iff)
  qed
  then show ?thesis
    by (auto simp: getVendorId_def readConfigurationRegister16_def read32 bindr_def device_present_def)
qed

lemma device_read: "\<exists>v a. getDeviceId cfg b d f h = Inr (v, h\<lparr>address_port := a\<rparr>)"
  by (auto simp: getDeviceId_def readConfigurationRegister16_def read32 bindr_def)

definition links_same :: "'c pci \<Rightarrow> 'c pci \<Rightarrow> bool" where
  "links_same s s' \<longleftrightarrow> pci_next s' = pci_next s \<and> pciDrivers s' = pciDrivers s"

lemma enumerate_function_effect:
  fixes bus dev "fun" :: nat
  assumes behave: "drivers_behave cfg m ds rank ok pr view started" and chain: "chain (pci_next s) (pciDrivers s) ds"
    and ok: "ok (pciM s)"
  defines "b \<equiv> of_nat bus" and "d \<equiv> of_nat dev" and "f \<equiv> of_nat fun"
  shows "\<exists>s'. enumerate_function cfg m bus dev fun s = Some (Inr s') \<and> ok (pciM s') \<and> links_same s s' \<and>
    view (pciM s') = (if pr b d f then taken started (b, d, f, first_driver rank ds b d f) else id) (view (pciM s)) \<and>
    outcomes (printed s') = outcomes (printed s) @ (if pr b d f then [(b, d, f, first_driver rank ds b d f)] else [])"
proof -
  let ?h = "pciM s"
  have port: "ok (h\<lparr>address_port := a\<rparr>)" if "ok h" for h a
    using behave that unfolding drivers_behave_def by blast
  have same: "view (h\<lparr>address_port := a\<rparr>) = view h" for h a
    using behave unfolding drivers_behave_def by blast
  have pr: "device_present cfg h b d f = pr b d f" "pr b d f \<Longrightarrow> bars_ok cfg h b d f" if "ok h" for h
    using behave that unfolding drivers_behave_def by blast+
  obtain v a where v: "getVendorId cfg b d f ?h = Inr (v, ?h\<lparr>address_port := a\<rparr>)" "v \<noteq> 0xffff \<longleftrightarrow> pr b d f"
    using vendor_read [of cfg b d f ?h] pr(1) [OF ok] by auto
  show ?thesis
  proof (cases "pr b d f")
    case False
    then show ?thesis
      using v port [OF ok] same by (simp add: enumerate_function_def links_same_def flip: b_def d_def f_def)
  next
    case True
    let ?h1 = "?h\<lparr>address_port := a\<rparr>"
    obtain i a1 where i: "getDeviceId cfg b d f ?h1 = Inr (i, ?h1\<lparr>address_port := a1\<rparr>)"
      using device_read by blast
    let ?h3 = "?h1\<lparr>address_port := a1, address_port := cfg_addr b d f 8\<rparr>"
    have ok3: "ok ?h3" by (intro port ok)
    obtain ls a4 where ls: "getDeviceInfo cfg b d f ?h3 = Inr (ls, ?h3\<lparr>address_port := a4\<rparr>)" "outcomes ls = []"
      using getDeviceInfo_returns [OF pr(2) [OF ok3 True]] by blast
    let ?s = "s\<lparr>pciM := ?h3\<lparr>address_port := a4\<rparr>, printed := printed s @ ls\<rparr>"
    have chain': "chain (pci_next ?s) (pciDrivers ?s) ds" using chain by simp
    have ok4: "ok (pciM ?s)" using port [OF ok3] by simp
    obtain s' where s': "probeAndAttach m b d f ?s = Some (Inr (first_driver rank ds b d f \<noteq> None, s'))"
        "ok (pciM s')" "links_same s s'" "view (pciM s') = taken started (b, d, f, first_driver rank ds b d f) (view ?h)"
        "printed s' = printed s @ ls @ (case first_driver rank ds b d f of None \<Rightarrow> [] | Some x \<Rightarrow> [InitLine b d f x])"
      using attach_loop_first [OF behave chain' order_refl ok4, of b d f]
      by (auto simp: probeAndAttach_def links_same_def same)
    have "enumerate_function cfg m bus dev fun s = Some (Inr (if first_driver rank ds b d f \<noteq> None then s'
        else s'\<lparr>printed := printed s' @ [UnknownLine b d f (getClassName (cfg_byte cfg (?h1\<lparr>address_port := a1\<rparr>) b d f 8)) v i]\<rparr>))"
      using True v i ls(1) s'(1) by (simp add: enumerate_function_def read8 flip: b_def d_def f_def)
    then show ?thesis
      using True s'(2-5) ls(2) by (cases "first_driver rank ds b d f") (simp_all add: links_same_def)
  qed
qed

lemma steps_enumerate:
  assumes "drivers_behave cfg m ds rank ok pr view started" "chain (pci_next s) (pciDrivers s) ds" "ok (pciM s)"
  shows "\<exists>s'. steps (\<lambda>(bus, dev, fun). enumerate_function cfg m bus dev fun) xs s = Some (Inr s') \<and>
    ok (pciM s') \<and> links_same s s' \<and>
    view (pciM s') = fold (taken started) (map (\<lambda>(b, d, f). (b, d, f, first_driver rank ds b d f))
      (filter (\<lambda>(b, d, f). pr b d f) (map (\<lambda>(bus, dev, fun). (of_nat bus, of_nat dev, of_nat fun)) xs))) (view (pciM s)) \<and>
    outcomes (printed s') = outcomes (printed s) @
      map (\<lambda>(b, d, f). (b, d, f, first_driver rank ds b d f))
        (filter (\<lambda>(b, d, f). pr b d f) (map (\<lambda>(bus, dev, fun). (of_nat bus, of_nat dev, of_nat fun)) xs))"
  using assms(2,3)
proof (induction xs arbitrary: s)
  case Nil
  then show ?case by (simp add: links_same_def)
next
  case (Cons x xs)
  obtain bus dev func where x: "x = (bus, dev, func)" by (cases x) auto
  obtain s1 where s1: "enumerate_function cfg m bus dev func s = Some (Inr s1)" "ok (pciM s1)" "links_same s s1"
      "view (pciM s1) = (if pr (of_nat bus) (of_nat dev) (of_nat func) then taken started (of_nat bus, of_nat dev, of_nat func,
        first_driver rank ds (of_nat bus) (of_nat dev) (of_nat func)) else id) (view (pciM s))"
      "outcomes (printed s1) = outcomes (printed s) @ (if pr (of_nat bus) (of_nat dev) (of_nat func)
        then [(of_nat bus, of_nat dev, of_nat func, first_driver rank ds (of_nat bus) (of_nat dev) (of_nat func))] else [])"
    using enumerate_function_effect [OF assms(1) Cons.prems] by blast
  have "chain (pci_next s1) (pciDrivers s1) ds" using s1(3) Cons.prems(1) by (simp add: links_same_def)
  from Cons.IH [OF this s1(2)] show ?case
    using s1 x by (auto simp: links_same_def)
qed

text \<open>
  C28. The enumeration of the bus. The configuration space says which functions are present, and has no
  memory bar of type 3 (on which the table of names is read behind its end); the drivers form a
  finite chain, and their probes and initialisations return and keep that. Then \<open>Pci::enumerate\<close>
  returns, and every function that is present, of the 32 devices with 8 functions on each of 256
  buses, is offered to the drivers once and in order: the first driver of the list whose probe is
  positive is reported and its \<open>init\<close> is called on that function, and no other; without one
  the function is reported as unknown and nothing is initialised. The calls of \<open>init\<close> are seen in any view of
  the hardware that probes and the address port do not change: it is changed by exactly these calls,
  in this order.
\<close>

theorem enumeration:
  assumes "drivers_behave cfg m ds rank ok pr view started" "chain (pci_next s) (pciDrivers s) ds" "ok (pciM s)"
  shows "\<exists>s'. enumerate_pci cfg m s = Some (Inr s') \<and> ok (pciM s') \<and>
    (let found = map (\<lambda>(b, d, f). (b, d, f, first_driver rank ds b d f))
           (filter (\<lambda>(b, d, f). pr b d f)
             (map (\<lambda>(bus, dev, fun). (of_nat bus, of_nat dev, of_nat fun)) all_functions))
     in outcomes (printed s') = outcomes (printed s) @ found \<and>
        view (pciM s') = fold (taken started) found (view (pciM s)))"
  using steps_enumerate [OF assms, of all_functions]
  unfolding enumerate_pci_def steps_functions Let_def by blast

text \<open>A machine with one device, the watchdog at device 5 of bus 0; the hardware keeps a log of initialisations.\<close>

definition sample_space :: "u32 \<Rightarrow> u32" where
  "sample_space a = (if a = 0x80002800 then 0x25ab8086 else if take_bit 8 a = 0 then 0xffffffff else 0)"

type_synonym sample_hw = "(u32 \<Rightarrow> u32) \<times> (u8 \<times> u8 \<times> u8 \<times> u32) list"

definition sample_config :: "sample_hw config" where
  "sample_config = \<lparr>cfg_read = \<lambda>a c. fst c a, cfg_write = \<lambda>a v c. ((fst c)(a := v), snd c)\<rparr>"

definition sample_ok :: "sample_hw pci_hw \<Rightarrow> bool" where
  "sample_ok h \<longleftrightarrow> fst (space h) = sample_space"

definition sample_log :: "sample_hw pci_hw \<Rightarrow> (u8 \<times> u8 \<times> u8 \<times> u32) list" where
  "sample_log h = snd (space h)"

definition sample_present :: "u8 \<Rightarrow> u8 \<Rightarrow> u8 \<Rightarrow> bool" where
  "sample_present b d f \<longleftrightarrow> cfg_addr b d f 0 = 0x80002800"

definition sample_class :: "sample_hw pci_class" where
  "sample_class = \<lparr>pci_probe = \<lambda>x b d f h. Some (watchdog_probe sample_config b d f h),
     pci_init = \<lambda>x b d f h. Some (Inr (True, h\<lparr>space := (fst (space h), snd (space h) @ [(b, d, f, x)])\<rparr>))\<rparr>"

definition sample_pci :: "sample_hw pci" where
  "sample_pci = pciDriver_ctor 0x1000
     \<lparr>pciM = \<lparr>address_port = 0, space = (sample_space, [])\<rparr>, pciDrivers = 0, pci_next = (\<lambda>x. 0), printed = []\<rparr>"

lemma tag_low: "take_bit 8 (cfg_addr b d f x) = ucast (x AND - 4)"
  by (rule bit_word_eqI)
    (auto simp: cfg_addr_def makeTag_def bit_take_bit_iff bit_or_iff bit_push_bit_iff bit_ucast_iff bit_1_iff
      dest: bit_imp_le_length)

lemma ucast_zero: "(ucast (y :: u8) :: u32) = 0 \<longrightarrow> y = 0"
  by (rule all_bytes [of "\<lambda>y. (ucast y :: u32) = 0 \<longrightarrow> y = 0"]) code_simp

lemma sample_reads:
  "cfg_read sample_config (cfg_addr b d f 0) (sample_space, l) = (if sample_present b d f then 0x25ab8086 else 0xffffffff)"
  "x AND - 4 \<noteq> 0 \<Longrightarrow> cfg_read sample_config (cfg_addr b d f x) (sample_space, l) = 0"
proof -
  show "cfg_read sample_config (cfg_addr b d f 0) (sample_space, l) = (if sample_present b d f then 0x25ab8086 else 0xffffffff)"
    using tag_low [of b d f 0] by (simp add: sample_config_def sample_space_def sample_present_def)
  assume "x AND - 4 \<noteq> 0"
  then have "take_bit 8 (cfg_addr b d f x) \<noteq> 0" unfolding tag_low using ucast_zero [of "x AND - 4"] by blast
  moreover from this have "cfg_addr b d f x \<noteq> 0x80002800" by auto
  ultimately show "cfg_read sample_config (cfg_addr b d f x) (sample_space, l) = 0"
    by (simp add: sample_config_def sample_space_def)
qed

lemma sample_probe:
  assumes "sample_ok h"
  shows "\<exists>a. watchdog_probe sample_config b d f h =
    Inr (if sample_present b d f then 1 else 0, h\<lparr>address_port := a\<rparr>)"
proof -
  have "cfg_addr b d f 2 = cfg_addr b d f 0" by (simp add: cfg_addr_def)
  moreover obtain l where "space h = (sample_space, l)" using assms by (cases "space h") (simp add: sample_ok_def)
  ultimately show ?thesis
    by (auto simp: watchdog_probe_def getVendorId_def getDeviceId_def readConfigurationRegister16_def read32
      bindr_def sample_reads)
qed

lemma sample_behaves:
  "drivers_behave sample_config sample_class [0x1000] (\<lambda>x b d f. if sample_present b d f then 1 else 0)
     sample_ok sample_present sample_log (\<lambda>x b d f l. l @ [(b, d, f, x)])"
proof -
  have sp: "\<exists>l. space h = (sample_space, l)" if "sample_ok h" for h
    using that by (cases "space h") (simp add: sample_ok_def)
  have "device_present sample_config h b d f = sample_present b d f" "bars_ok sample_config h b d f"
    if h: "sample_ok h" for h b d f
  proof -
    obtain l where "space h = (sample_space, l)" using sp [OF h] by blast
    then show "device_present sample_config h b d f = sample_present b d f" "bars_ok sample_config h b d f"
      by (simp_all add: device_present_def bars_ok_def sample_reads)
  qed
  moreover have "\<exists>h'. Some (watchdog_probe sample_config b d f h) = Some (Inr (if sample_present b d f then 1 else 0, h')) \<and>
      sample_ok h' \<and> sample_log h' = sample_log h" if "sample_ok h" for h b d f
    using sample_probe [OF that, of b d f] that by (auto simp: sample_ok_def sample_log_def)
  moreover have "sample_ok (h\<lparr>address_port := a\<rparr>) = sample_ok h" "sample_log (h\<lparr>address_port := a\<rparr>) = sample_log h" for h a
    by (simp_all add: sample_ok_def sample_log_def)
  ultimately show ?thesis
    unfolding drivers_behave_def by (simp add: sample_class_def) (simp add: sample_ok_def sample_log_def, blast)
qed

text \<open>The enumeration finds the watchdog, and its driver is initialised.\<close>

lemma fold_taken_log:
  "fold (taken (\<lambda>x b d f l. l @ [(b, d, f, x)])) found l =
    l @ concat (map (\<lambda>(b, d, f, x). case x of None \<Rightarrow> [] | Some x \<Rightarrow> [(b, d, f, x)]) found)"
  by (induction found arbitrary: l) (auto simp: taken_def split: option.splits)

theorem enumeration_witness:
  "\<exists>s. enumerate_pci sample_config sample_class sample_pci = Some (Inr s) \<and>
     (0, 5, 0, Some 0x1000) \<in> set (outcomes (printed s)) \<and> (0, 5, 0, 0x1000) \<in> set (sample_log (pciM s))"
proof -
  have ch: "chain (pci_next sample_pci) (pciDrivers sample_pci) [0x1000]" "sample_ok (pciM sample_pci)"
    by (simp_all add: sample_pci_def pciDriver_ctor_def pci_registerDriver_def sample_ok_def)
  let ?rank = "\<lambda>x b d f. if sample_present b d f then 1 else 0 :: u32"
  let ?found = "map (\<lambda>(b, d, f). (b, d, f, first_driver ?rank [0x1000] b d f))
    (filter (\<lambda>(b, d, f). sample_present b d f)
      (map (\<lambda>(bus, dev, fun). (of_nat bus, of_nat dev, of_nat fun)) all_functions))"
  have "(0, 5, 0) \<in> set all_functions" by (simp add: all_functions_def)
  then have "(of_nat 0, of_nat 5, of_nat 0) \<in>
      set (map (\<lambda>(bus, dev, fun). (of_nat bus :: u8, of_nat dev :: u8, of_nat fun :: u8)) all_functions)"
    by force
  moreover have "sample_present 0 5 0" by (simp add: sample_present_def cfg_addr_def makeTag_def)
  ultimately have f: "(0, 5, 0, Some 0x1000) \<in> set ?found" by (force simp: first_driver_def word_sless_alt)
  obtain s where s: "enumerate_pci sample_config sample_class sample_pci = Some (Inr s)"
      "outcomes (printed s) = outcomes (printed sample_pci) @ ?found"
      "sample_log (pciM s) = fold (taken (\<lambda>x b d f l. l @ [(b, d, f, x)])) ?found (sample_log (pciM sample_pci))"
    using enumeration [OF sample_behaves ch] unfolding Let_def by blast
  have "(0, 5, 0, 0x1000) \<in> set (sample_log (pciM s))"
    unfolding s(3) fold_taken_log using f by force
  then show ?thesis using s(1,2) f by auto
qed

theorem configuration_reads_witness:
  "cfg_addr 0 5 0 0x10 \<noteq> cfg_addr 0 6 0 0x10 \<and>
   readConfigurationRegister8 sample_config 0 5 0 0x10 (pciM sample_pci) =
     Inr (0, (pciM sample_pci)\<lparr>address_port := cfg_addr 0 5 0 0x10\<rparr>)"
proof -
  have "space (pciM sample_pci) = (sample_space, [])"
    by (simp add: sample_pci_def pciDriver_ctor_def pci_registerDriver_def)
  then have "cfg_byte sample_config (pciM sample_pci) 0 5 0 0x10 = 0"
    by (simp add: cfg_byte_def sample_reads)
  moreover note configuration_reads [where d = 5 and f = 0 and b = 0 and x = "0x10" and cfg = sample_config and hw = "pciM sample_pci"]
  moreover from this have "cfg_addr 0 5 0 0x10 = cfg_addr 0 6 0 0x10 \<longrightarrow> (5 :: u8) = 6"
    by (elim conjE allE [where x = 6] allE [where x = 0] allE [where x = "0x10"]) simp
  ultimately show ?thesis by simp
qed

end
