(* ===== verification/Boot_Paging.thy ===== *)
theory Boot_Paging
  imports Memory_Map Null_List
begin

text \<open>
  The first page tables (X86/PageDirectory.cc, \<open>PageDirectory::init\<close> and the \<open>mapPage\<close> it uses), with the
  pool of page frames they are made from (Kernel/PageFrameAllocator.cc). The code runs under the
  directory of the loader (Loader/MultiLoader.S), which shows the first four megabytes of memory twice:
  at their own addresses and at \<open>KernelVirtualBase\<close>.
\<close>

section \<open>Before paging is set up\<close>

definition KernelLoadAddress :: u32 where "KernelLoadAddress = 0x100000"
definition PageFrameCount :: nat where "PageFrameCount = 10"

record boot =
  bmem :: "u32 \<Rightarrow> u32"
  frame_start :: u32
  frame_bitmap :: "u8 list"

definition boot_translate :: "u32 \<Rightarrow> u32 option" where
  "boot_translate a =
     (if addressToPdeIndex a = 0 then Some a
      else if addressToPdeIndex a = drop_bit 22 KernelVirtualBase then Some (a - KernelVirtualBase)
      else None)"

definition boot_read :: "u32 \<Rightarrow> boot \<Rightarrow> u32 res" where
  "boot_read a s = (case boot_translate a of None \<Rightarrow> Inl (PANIC ''page fault'') | Some p \<Rightarrow> Inr (bmem s p))"

definition boot_write :: "u32 \<Rightarrow> u32 \<Rightarrow> boot \<Rightarrow> boot res" where
  "boot_write a x s = (case boot_translate a of None \<Rightarrow> Inl (PANIC ''page fault'')
     | Some p \<Rightarrow> Inr (s\<lparr>bmem := (bmem s)(p := x)\<rparr>))"

fun boot_zero :: "nat \<Rightarrow> u32 \<Rightarrow> boot \<Rightarrow> boot res" where
  "boot_zero 0 a s = Inr s"
| "boot_zero (Suc n) a s = bindr (boot_write a 0 s) (boot_zero n (a + 4))"

section \<open>The pool of page frames\<close>

definition highest_address :: "u32 \<Rightarrow> u32 \<Rightarrow> u32" where
  "highest_address end_kernel end_modules = max end_kernel (end_modules + KernelVirtualBase)"

definition frames_init :: "u32 \<Rightarrow> u32 \<Rightarrow> boot \<Rightarrow> boot" where
  "frames_init end_kernel end_modules s =
     (let s = s\<lparr>frame_bitmap := replicate PageFrameCount 0\<rparr>
      in s\<lparr>frame_start := roundTo (highest_address end_kernel end_modules) PageSize\<rparr>)"

function free_loop :: "nat \<Rightarrow> boot \<Rightarrow> (u32 \<times> boot) res" where
  "free_loop i s =
     (if i < PageFrameCount
      then if frame_bitmap s ! i = 0
        then let s = s\<lparr>frame_bitmap := (frame_bitmap s)[i := 1]\<rparr>;
                 page = frame_start s + PageSize * of_nat i
             in if page AND PageMask \<noteq> 0 then Inl (KASSERT ''((unsigned long )page & PageMask) == 0'')
                else Inr (page, s)
        else free_loop (i + 1) s
      else Inr (0, s))"
  by pat_completeness auto
termination by (relation "measure (\<lambda>(i, s). PageFrameCount - i)") auto

declare free_loop.simps [simp del]

definition getFreePage :: "boot \<Rightarrow> (u32 \<times> boot) res" where
  "getFreePage s = free_loop 0 s"

text \<open>A store behind the end of the bitmap is a fault of the model.\<close>

definition putFreePage :: "u32 \<Rightarrow> boot \<Rightarrow> boot res" where
  "putFreePage page s =
     (if page AND PageMask \<noteq> 0 then Inl (KASSERT ''((unsigned long )page & PageMask) == 0'')
      else
        let index = unat ((page - frame_start s) div PageSize)
        in if index < PageFrameCount then Inr (s\<lparr>frame_bitmap := (frame_bitmap s)[index := 0]\<rparr>)
           else Inl (PANIC ''bitmap[index]''))"

section \<open>The first tables\<close>

definition new_table :: "u32 \<Rightarrow> u32 \<Rightarrow> boot \<Rightarrow> (u32 \<times> boot) res" where
  "new_table v dir s =
     bindr (getFreePage s) (\<lambda>(newPt, s).
     bindr (boot_zero 1024 newPt s) (\<lambda>s.
       let newPt = newPt OR (Present OR Writable);
           pt = newPt - KernelVirtualBase
       in bindr (boot_write (dir + addressToPdeIndex v * 4) pt s) (\<lambda>s. Inr (pt, s))))"

definition mapPage_boot :: "u32 \<Rightarrow> u32 \<Rightarrow> u32 \<Rightarrow> boot \<Rightarrow> boot res" where
  "mapPage_boot v p dir s =
     (if v AND PageMask \<noteq> 0 then Inl (KASSERT ''(vAddress & PageMask) == 0'')
      else if p AND PageMask \<noteq> 0 then Inl (KASSERT ''(pAddress & PageMask) == 0'')
      else
        bindr (boot_read (dir + addressToPdeIndex v * 4) s) (\<lambda>pt.
        bindr (if pt AND Present = 0 then new_table v dir s else Inr (pt, s)) (\<lambda>(pt, s).
          let pt = pt AND 0xfffff000;
              vpt = pt + KernelVirtualBase
          in bindr (boot_read (vpt + addressToPteIndex v * 4) s) (\<lambda>e.
             if e \<noteq> 0 then Inl (PANIC ''Trying to map to the already used address'')
             else boot_write (vpt + addressToPteIndex v * 4) (p OR (Present OR Writable)) s))))"

partial_function (option) page_loop :: "(u32 \<Rightarrow> 's \<Rightarrow> 's res) \<Rightarrow> u32 \<Rightarrow> u32 \<Rightarrow> 's \<Rightarrow> 's res option" where
  "page_loop f p stop s =
     (if p < stop then (case f p s of Inl e \<Rightarrow> Some (Inl e) | Inr s \<Rightarrow> page_loop f (p + PageSize) stop s)
      else Some (Inr s))"

text \<open>\<open>x86_init_paging\<close> loads the register of the directory, which empties the look-aside buffer.\<close>

definition init_paging :: "u32 \<Rightarrow> page_alloc \<Rightarrow> boot \<Rightarrow> machine" where
  "init_paging dir pg s = \<lparr>pmem = bmem s, cr3 = dir, tlb = Map.empty, pages = pg\<rparr>"

definition last_address :: "u32 \<Rightarrow> u32 \<Rightarrow> u32" where
  "last_address end_kernel end_modules =
     (roundTo (highest_address end_kernel end_modules) PageSize + PageSize * of_nat PageFrameCount + PageSize)
       - KernelVirtualBase"

definition pageDirectory_init :: "u32 \<Rightarrow> u32 \<Rightarrow> page_alloc \<Rightarrow> boot \<Rightarrow> machine res option" where
  "pageDirectory_init end_kernel end_modules pg s =
     (let s = frames_init end_kernel end_modules s in
      bindo (Some (getFreePage s)) (\<lambda>(dir, s).
        if dir = 0 then Some (Inl (KASSERT ''pageDirectory != 0''))
        else
          bindo (Some (boot_zero 1024 dir s)) (\<lambda>s.
          bindo (Some (boot_write (dir + 1023 * 4) ((dir - KernelVirtualBase) OR Present) s)) (\<lambda>s.
            let first = KernelLoadAddress;
                stop = last_address end_kernel end_modules
            in bindo (page_loop (\<lambda>p. mapPage_boot (KernelVirtualBase + p) p dir) first stop s) (\<lambda>s.
               bindo (page_loop (\<lambda>p. mapPage_boot p p dir) first stop s) (\<lambda>s.
                 page_loop unmapPage first stop (init_paging (dir - KernelVirtualBase) pg s)))))))"

section \<open>Loops and accesses\<close>

text \<open>The end of the loop need not be a multiple of the page size.\<close>

lemma page_loop_until:
  assumes step: "\<And>i s. i < n \<Longrightarrow> I i s \<Longrightarrow> \<exists>s'. f (p + of_nat i * PageSize) s = Inr s' \<and> I (Suc i) s'"
    and start: "I 0 s" and bound: "unat p + n * 4096 < 2 ^ 32"
    and stop: "unat stop \<le> unat p + n * 4096" "n \<noteq> 0 \<Longrightarrow> unat p + (n - 1) * 4096 < unat stop"
  shows "\<exists>s'. page_loop f p stop s = Some (Inr s') \<and> I n s'"
proof -
  have u: "unat (p + of_nat i * PageSize) = unat p + i * 4096" if "i \<le> n" for i
  proof -
    have "unat p + i * 4096 < 2 ^ LENGTH(32)" using that bound by simp
    from unat_add_of_nat [OF this] show ?thesis by (simp add: PageSize_def)
  qed
  have "\<exists>s'. page_loop f (p + of_nat (n - k) * PageSize) stop s = Some (Inr s') \<and> I n s'"
    if "k \<le> n" "I (n - k) s" for k s
    using that
  proof (induction k arbitrary: s)
    case 0
    have "\<not> p + of_nat n * PageSize < stop" using u [of n] stop(1) by (simp add: word_less_nat_alt)
    then show ?case using 0 by (subst page_loop.simps) simp
  next
    case (Suc k)
    let ?p = "p + of_nat (n - Suc k) * PageSize"
    obtain s1 where s1: "f ?p s = Inr s1" "I (n - k) s1"
      using step [of "n - Suc k" s] Suc.prems by (auto simp: Suc_diff_Suc)
    have "unat ?p \<le> unat p + (n - 1) * 4096" using u [of "n - Suc k"] Suc.prems(1) by simp
    then have "?p < stop"
      using stop(2) Suc.prems(1) unfolding word_less_nat_alt by linarith
    moreover have "n - k = Suc (n - Suc k)" using Suc.prems(1) by simp
    then have "?p + PageSize = p + of_nat (n - k) * PageSize"
      by (simp only: of_nat_Suc) (simp add: algebra_simps)
    ultimately have "page_loop f ?p stop s = page_loop f (p + of_nat (n - k) * PageSize) stop s1"
      using s1(1) by (subst page_loop.simps) (simp add: add.assoc)
    then show ?case using Suc.IH [OF _ s1(2)] Suc.prems(1) by simp
  qed
  from this [of n s] start show ?thesis by simp
qed

lemma page_loop_steps:
  assumes step: "\<And>i s. i < n \<Longrightarrow> I i s \<Longrightarrow> \<exists>s'. f (p + of_nat i * PageSize) s = Inr s' \<and> I (Suc i) s'"
    and start: "I 0 s" and bound: "unat p + n * 4096 < 2 ^ 32"
  shows "\<exists>s'. page_loop f p (p + of_nat n * PageSize) s = Some (Inr s') \<and> I n s'"
proof -
  have "unat p + n * 4096 < 2 ^ LENGTH(32)" using bound by simp
  from unat_add_of_nat [OF this] have "unat (p + of_nat n * PageSize) = unat p + n * 4096" by (simp add: PageSize_def)
  then show ?thesis using page_loop_until [where I = I and f = f, OF step start bound] by simp
qed

lemma aligned_room: "page_of f = f \<Longrightarrow> unat f < 0x400000 \<Longrightarrow> unat f + 4096 \<le> 0x400000"
proof -
  assume f: "page_of f = f" "unat f < 0x400000"
  have "unat f div 4096 < 1024" using f(2) by (simp add: less_mult_imp_div_less)
  moreover have "unat f = unat f div 4096 * 4096" using unat_page_of [of f] f(1) by simp
  ultimately show ?thesis by linarith
qed

lemma boot_window:
  assumes "page_of f = f" "unat f < 0x400000" "unat i < 4096"
  shows "boot_translate (f + KernelVirtualBase + i) = Some (f + i)"
proof -
  have room: "unat f + 4096 \<le> 0x400000" using assms(1,2) by (rule aligned_room)
  then have "unat (f + KernelVirtualBase + i) = 0xc0000000 + (unat f + unat i)"
    using assms(3) by (simp add: KernelVirtualBase_def unat_word_ariths)
  moreover have "(0xc0000000 + (unat f + unat i)) div 2 ^ 22 = 768"
    using room assms(3) by (intro div_nat_eqI) simp_all
  ultimately have "addressToPdeIndex (f + KernelVirtualBase + i) = 768"
    by (simp add: word_unat_eq_iff unat_pde_index)
  then show ?thesis by (simp add: boot_translate_def KernelVirtualBase_def)
qed

lemma boot_access:
  assumes "page_of f = f" "unat f < 0x400000" "unat i < 1024"
  shows "boot_read (f + KernelVirtualBase + i * 4) s = Inr (bmem s (f + i * 4))"
    "boot_write (f + KernelVirtualBase + i * 4) x s = Inr (s\<lparr>bmem := (bmem s)(f + i * 4 := x)\<rparr>)"
  using boot_window [OF assms(1,2), of "i * 4"] assms(3)
  by (simp_all add: boot_read_def boot_write_def unat_mult4)

lemma boot_zero_frame:
  assumes "page_of f = f" "unat f < 0x400000" "k + n \<le> 1024"
  shows "boot_zero n (f + KernelVirtualBase + of_nat k * 4) s = Inr (s\<lparr>bmem := zeroed f k n (bmem s)\<rparr>)"
  using assms(3)
proof (induction n arbitrary: k s)
  case (Suc n)
  have "unat (of_nat k :: u32) < 1024" using Suc.prems by (simp add: unat_of_nat)
  from boot_access(2) [OF assms(1,2) this, of 0 s]
  show ?case
    using Suc.IH [of "Suc k"] Suc.prems zeroed_Suc [of f k n "bmem s"]
    by (simp add: bindr_def algebra_simps)
qed simp

section \<open>Frames in use\<close>

definition frames_used :: "u32 \<Rightarrow> nat \<Rightarrow> boot \<Rightarrow> bool" where
  "frames_used F k s \<longleftrightarrow> frame_start s = F + KernelVirtualBase \<and> k \<le> PageFrameCount \<and>
     frame_bitmap s = replicate k 1 @ replicate (PageFrameCount - k) 0"

lemma frames_used_bmem [simp]: "frames_used F k (s\<lparr>bmem := x\<rparr>) = frames_used F k s"
  by (simp add: frames_used_def)

lemma frame_aligned: "page_of F = F \<Longrightarrow> page_of (F + of_nat k * PageSize) = F + of_nat k * PageSize"
proof (induction k)
  case (Suc k)
  have "F + of_nat (Suc k) * PageSize = (F + of_nat k * PageSize) + PageSize" by (simp add: algebra_simps)
  then show ?case using page_of_next [OF Suc.IH [OF Suc.prems]] by (simp add: add.assoc)
qed simp

lemma virtual_aligned: "page_of f = f \<Longrightarrow> page_of (f + KernelVirtualBase) = f + KernelVirtualBase"
  by (simp add: page_of_shift) (simp add: KernelVirtualBase_def page_of_def PageMask_def PageSize_def)

lemma free_loop_frames:
  assumes "frames_used F k s" "k < PageFrameCount" "page_of F = F" "i \<le> k"
  shows "free_loop i s = Inr (F + of_nat k * PageSize + KernelVirtualBase, s\<lparr>frame_bitmap := (frame_bitmap s)[k := 1]\<rparr>)"
  using assms(4)
proof (induction "k - i" arbitrary: i)
  case 0
  have "page_of (F + KernelVirtualBase + of_nat k * PageSize) = F + KernelVirtualBase + of_nat k * PageSize"
    by (rule frame_aligned [OF virtual_aligned [OF assms(3)]])
  then show ?case
    using 0 assms(1,2) by (subst free_loop.simps)
      (simp add: frames_used_def nth_append page_of_eq_iff algebra_simps Let_def)
next
  case (Suc d)
  then have "i < k" by simp
  then have "free_loop i s = free_loop (i + 1) s"
    using assms(1,2) by (subst free_loop.simps) (simp add: frames_used_def nth_append)
  then show ?case using Suc by simp
qed

lemma getFreePage_frames:
  assumes "frames_used F k s" "k < PageFrameCount" "page_of F = F"
  obtains s' where "getFreePage s = Inr (F + of_nat k * PageSize + KernelVirtualBase, s')"
    "frames_used F (Suc k) s'" "bmem s' = bmem s"
proof -
  let ?s = "s\<lparr>frame_bitmap := (frame_bitmap s)[k := 1]\<rparr>"
  have "replicate (PageFrameCount - k) (0 :: u8) = 0 # replicate (PageFrameCount - Suc k) 0"
    using assms(2) by (metis Suc_diff_Suc replicate_Suc)
  then have "(replicate k 1 @ replicate (PageFrameCount - k) (0 :: u8))[k := 1] =
      replicate (Suc k) 1 @ replicate (PageFrameCount - Suc k) 0"
    by (simp add: list_update_append replicate_app_Cons_same)
  then have "frames_used F (Suc k) ?s" using assms(1,2) by (simp add: frames_used_def)
  then show ?thesis
    using that [of ?s] free_loop_frames [OF assms, of 0] by (simp add: getFreePage_def)
qed

section \<open>One page under the loader's directory\<close>

lemma table_mask: "x AND 0xfffff000 = page_of x"
proof -
  have "(0xfffff000 :: u32) = NOT PageMask" unfolding PageMask_def PageSize_def by code_simp
  then show ?thesis unfolding page_of_def by (rule arg_cong)
qed

lemma aligned_or: "page_of f = f \<Longrightarrow> unat y < 4096 \<Longrightarrow> f OR y = f + y"
proof -
  assume f: "page_of f = f" "unat y < 4096"
  have "page_of y = 0" using f(2) by (simp add: word_unat_eq_iff unat_page_of)
  then have "y = y AND PageMask" using page_plus_offset [of y] by (simp add: offset_of_def)
  moreover have "f = f AND NOT PageMask" using f(1) by (simp add: page_of_def)
  ultimately have "f AND y = (f AND NOT PageMask) AND (y AND PageMask)" by simp
  also have "\<dots> = 0" by (rule bit_word_eqI) (auto simp: bit_simps)
  finally show ?thesis using word_plus_and_or [of f y] by simp
qed

lemma map_with_table:
  assumes "boot_read (dir + addressToPdeIndex v * 4) s = Inr pt" "pt AND Present \<noteq> 0"
    and v: "page_of v = v" "page_of p = p" "unat (page_of pt) < 0x400000"
    and free: "bmem s (page_of pt + addressToPteIndex v * 4) = 0"
  shows "mapPage_boot v p dir s =
    Inr (s\<lparr>bmem := (bmem s)(page_of pt + addressToPteIndex v * 4 := p OR (Present OR Writable))\<rparr>)"
  using assms boot_access [OF page_of_idem v(3) index_bounds(2) [of v], where s = s]
  by (simp add: mapPage_boot_def page_of_eq_iff bindr_def Let_def table_mask)

text \<open>The same in terms of the machine that \<open>x86_init_paging\<close> will start.\<close>

lemma init_paging_simps [simp]:
  "pmem (init_paging D pg s) = bmem s" "cr3 (init_paging D pg s) = D" "tlb (init_paging D pg s) = Map.empty"
  by (simp_all add: init_paging_def)

lemma boot_pde:
  assumes "page_of D = D" "unat D < 0x400000"
  shows "boot_read (D + KernelVirtualBase + addressToPdeIndex v * 4) s = Inr (pde_of (init_paging D pg s) v)"
  using boot_access(1) [OF assms index_bounds(1) [of v], of s] by (simp add: pde_of_def)

lemma map_present:
  assumes D: "page_of D = D" "unat D < 0x400000" and pr: "present (pde_of (init_paging D pg s) v)"
    and v: "page_of v = v" "page_of p = p" "unat (page_of (pde_of (init_paging D pg s) v)) < 0x400000"
    and free: "pte_of (init_paging D pg s) v = 0"
  obtains s' where "mapPage_boot v p (D + KernelVirtualBase) s = Inr s'"
    "init_paging D pg s' = set_pte v (p OR (Present OR Writable)) (init_paging D pg s)"
    "\<And>F k. frames_used F k s' = frames_used F k s"
proof -
  let ?pt = "pde_of (init_paging D pg s) v"
  have pr': "?pt AND Present \<noteq> 0" using pr by (simp add: present_def)
  have z: "bmem s (page_of ?pt + addressToPteIndex v * 4) = 0" using free by (simp add: pte_of_def)
  from map_with_table [OF boot_pde [OF D, of v s pg] pr' v z]
  show ?thesis by (rule that) (simp_all add: set_pte_def init_paging_def)
qed

lemma map_new:
  assumes D: "page_of D = D" "unat D < 0x400000" and dir: "dir_ok (init_paging D pg s)"
    and no: "\<not> present (pde_of (init_paging D pg s) v)"
    and v: "page_of v = v" "page_of p = p" "addressToPdeIndex v < 1023"
    and f: "page_of f = f" "unat f < 0x400000" "f \<notin> table_frames (init_paging D pg s)"
    and get: "getFreePage s = Inr (f + KernelVirtualBase, s1)" "bmem s1 = bmem s"
  obtains s' where "mapPage_boot v p (D + KernelVirtualBase) s = Inr s'"
    "init_paging D pg s' = set_pte v (p OR (Present OR Writable)) (with_table v f (init_paging D pg s))"
    "\<And>F k. frames_used F k s' = frames_used F k s1"
proof -
  let ?M = "init_paging D pg s" and ?d = "addressToPdeIndex v" and ?x = "f OR (Present OR Writable)"
  have cr: "f \<noteq> D" using f(3) by (simp add: table_frames_def)
  let ?s2 = "s1\<lparr>bmem := (zeroed f 0 1024 (bmem s))(D + ?d * 4 := ?x)\<rparr>"
  have small: "unat (Present OR Writable) < 4096" by (simp add: Present_def Writable_def)
  have "((f + KernelVirtualBase) OR (Present OR Writable)) - KernelVirtualBase = ?x"
    using aligned_or [OF f(1) small] aligned_or [OF virtual_aligned [OF f(1)] small] by simp
  then have new: "new_table v (D + KernelVirtualBase) s = Inr (?x, ?s2)"
    using boot_zero_frame [OF f(1,2), of 0 1024 s1] boot_access(2) [OF D index_bounds(1) [of v]] get
    by (simp add: new_table_def bindr_def Let_def)
  have M2: "init_paging D pg ?s2 = with_table v f ?M"
  proof -
    have "D + ?d * 4 \<notin> (\<lambda>i. f + of_nat i * 4) ` {0..<0 + 1024}"
    proof
      assume "D + ?d * 4 \<in> (\<lambda>i. f + of_nat i * 4) ` {0..<0 + 1024}"
      then obtain j where "D + ?d * 4 = f + of_nat j * 4" "j < 1024" by (elim imageE) simp
      then show False using entry_inject [OF D(1) f(1) index_bounds(1) [of v], of "of_nat j"] cr by (simp add: unat_of_nat)
    qed
    then have "(zeroed f 0 1024 (bmem s))(D + ?d * 4 := ?x) = zeroed f 0 1024 ((bmem s)(D + ?d * 4 := ?x))"
      by (simp add: zeroed_def fun_eq_iff)
    then show ?thesis
      by (simp add: with_table_def set_pde_def invlpg_def init_paging_def Let_def)
  qed
  have pd2: "pde_of (init_paging D pg ?s2) v = ?x" by (simp add: pde_of_def)
  have pg': "page_of ?x = f" "?x AND Present \<noteq> 0" using new_entry [OF f(1)] by (simp_all add: present_def)
  have z: "bmem ?s2 (f + addressToPteIndex v * 4) = 0"
    using zeroed_same [OF index_bounds(2) [of v], of f "bmem s"] entry_inject [OF f(1) D(1) index_bounds(2) index_bounds(1), of v v] cr
    by simp
  let ?s3 = "?s2\<lparr>bmem := (bmem ?s2)(f + addressToPteIndex v * 4 := p OR (Present OR Writable))\<rparr>"
  have "mapPage_boot v p (D + KernelVirtualBase) s = Inr ?s3"
    using no boot_pde [OF D, of v s pg] new v(1,2) pg' z boot_access [OF f(1,2) index_bounds(2) [of v]]
    by (simp add: mapPage_boot_def page_of_eq_iff bindr_def Let_def table_mask present_def)
  moreover have "init_paging D pg ?s3 = set_pte v (p OR (Present OR Writable)) (with_table v f ?M)"
    using pd2 pg'(1) unfolding M2 [symmetric] by (simp add: set_pte_def) (simp add: init_paging_def)
  ultimately show ?thesis by (rule that) simp
qed

section \<open>The tables while they are built\<close>

text \<open>
  Well-formed tables that lie in the first \<open>k\<close> frames of the pool, where an entry of a table that maps
  nothing is zero.
\<close>

definition pool_frames :: "u32 \<Rightarrow> nat \<Rightarrow> u32 set" where
  "pool_frames F k = (\<lambda>j. F + of_nat j * PageSize) ` {..<k}"

definition building :: "u32 \<Rightarrow> nat \<Rightarrow> machine \<Rightarrow> bool" where
  "building F k m \<longleftrightarrow> tables_ok m \<and> tlb m = Map.empty \<and> table_frames m \<subseteq> pool_frames F k \<and>
     (\<forall>a. addressToPdeIndex a < 1023 \<longrightarrow> present (pde_of m a) \<longrightarrow> walk m a = None \<longrightarrow> pte_of m a = 0)"

definition pool_ok :: "u32 \<Rightarrow> bool" where
  "pool_ok F \<longleftrightarrow> page_of F = F \<and> unat F + PageFrameCount * 4096 \<le> 0x400000"

lemma pool_unat:
  assumes "pool_ok F" "j \<le> PageFrameCount"
  shows "unat (F + of_nat j * PageSize) = unat F + j * 4096"
proof -
  have "unat F + j * 4096 < 2 ^ LENGTH(32)" using assms by (simp add: pool_ok_def PageFrameCount_def)
  from unat_add_of_nat [OF this] show ?thesis by (simp add: PageSize_def)
qed

lemma pool_frame:
  assumes "pool_ok F" "k < PageFrameCount"
  shows "page_of (F + of_nat k * PageSize) = F + of_nat k * PageSize"
    "unat (F + of_nat k * PageSize) < 0x400000" "F + of_nat k * PageSize \<notin> pool_frames F k"
    "insert (F + of_nat k * PageSize) (pool_frames F k) = pool_frames F (Suc k)"
proof -
  show "page_of (F + of_nat k * PageSize) = F + of_nat k * PageSize"
    using assms(1) by (intro frame_aligned) (simp add: pool_ok_def)
  show "unat (F + of_nat k * PageSize) < 0x400000"
    using pool_unat [OF assms(1), of k] assms by (simp add: pool_ok_def PageFrameCount_def)
  show "F + of_nat k * PageSize \<notin> pool_frames F k"
  proof
    assume "F + of_nat k * PageSize \<in> pool_frames F k"
    then obtain j where j: "F + of_nat k * PageSize = F + of_nat j * PageSize" "j < k" by (auto simp: pool_frames_def)
    then have "unat F + k * 4096 = unat F + j * 4096"
      using pool_unat [OF assms(1), of k] pool_unat [OF assms(1), of j] assms(2) by simp
    then show False using j(2) by simp
  qed
  show "insert (F + of_nat k * PageSize) (pool_frames F k) = pool_frames F (Suc k)"
    by (simp add: pool_frames_def lessThan_Suc)
qed

lemma pool_frames_low:
  assumes "pool_ok F" "k \<le> PageFrameCount" "f \<in> pool_frames F k"
  shows "page_of f = f" "unat f < 0x400000"
  using assms pool_frame(1,2) [OF assms(1)] by (auto simp: pool_frames_def)

lemma building_pde:
  assumes "building F k m" "pool_ok F" "k \<le> PageFrameCount" "present (pde_of m v)" "addressToPdeIndex v < 1023"
  shows "unat (page_of (pde_of m v)) < 0x400000"
proof -
  have "page_of (pde_of m v) \<in> table_frames m" using assms(4,5) by (simp add: table_frames_def pde_of_pd)
  then show ?thesis using assms(1) pool_frames_low [OF assms(2,3)] by (auto simp: building_def)
qed

lemma building_set_pte:
  assumes b: "building F k m" and v: "addressToPdeIndex v < 1023" "page_of v = v" "page_of p = p"
    and pr: "present (pde_of m v)"
  defines "m' \<equiv> set_pte v (p OR (Present OR Writable)) m"
  shows "building F k m'" "walk m' a = (if page_of a = v then Some p else walk m a)" "pde_of m' a = pde_of m a"
proof -
  let ?x = "p OR (Present OR Writable)"
  have ok: "tables_ok m" and dir: "dir_ok m" and tlb: "tlb m = Map.empty"
    using b by (simp_all add: building_def tables_ok_def)
  have v': "addressToPdeIndex v \<noteq> 1023" using v(1) by auto
  have inv: "invlpg v m' = m'" using tlb by (simp add: m'_def invlpg_def set_pte_def)
  have x: "present ?x" "page_of ?x = p" using new_entry [OF v(3)] by simp_all
  have walk: "walk m' a = (if page_of a = v then Some p else walk m a)" for a
    using walk_set_pte [OF dir pr v', of ?x a] x v(2) by (simp add: m'_def)
  have pde: "pde_of m' a = pde_of m a" for a
    using pd_set_pte [OF dir pr v' index_bounds(1)] by (simp add: m'_def pde_of_pd)
  show "walk m' a = (if page_of a = v then Some p else walk m a)" "pde_of m' a = pde_of m a" by (rule walk pde)+
  have "pte_of m' a = 0" if "addressToPdeIndex a < 1023" "present (pde_of m' a)" "walk m' a = None" for a
  proof -
    have a: "present (pde_of m a)" "page_of a \<noteq> v" "walk m a = None" using that by (auto simp: pde walk split: if_splits)
    then have "pte_of m' a = pte_of m a" using pte_of_set_pte [OF dir pr v' a(1)] v(2) by (simp add: m'_def)
    then show ?thesis using b that(1) a by (simp add: building_def)
  qed
  moreover have "tables_ok m'" using set_pte_ok [OF ok pr v', of ?x] inv by (simp add: m'_def)
  moreover have "table_frames m' = table_frames m"
    using table_frames_set_pte [OF dir pr v', of ?x] inv by (simp add: m'_def)
  ultimately show "building F k m'" using b by (simp add: building_def m'_def)
qed

lemma pte_with_table:
  assumes "dir_ok m" "page_of f = f" "f \<notin> table_frames m" "addressToPdeIndex v < 1023"
    and a: "addressToPdeIndex a < 1023" "present (pde_of (with_table v f m) a)"
  shows "pte_of (with_table v f m) a = (if addressToPdeIndex a = addressToPdeIndex v then 0 else pte_of m a)"
proof -
  let ?m = "with_table v f m" and ?d = "addressToPdeIndex v"
  have cr: "f \<noteq> cr3 m" using assms(3) by (simp add: table_frames_def)
  note pda = pd_with_table [OF assms(1,2) cr index_bounds(1) [of a], of v]
  show ?thesis
  proof (cases "addressToPdeIndex a = ?d")
    case True
    then show ?thesis
      using new_entry [OF assms(2)] pda zeroed_same [OF index_bounds(2)]
      by (simp add: pte_of_def pde_of_pd) (simp add: with_table_def Let_def)
  next
    case False
    let ?g = "page_of (pd m (addressToPdeIndex a))"
    have "present (pd m (addressToPdeIndex a))" using a(2) False pda by (simp add: pde_of_pd)
    then have g: "?g \<noteq> f" "?g \<noteq> cr3 m" using a(1) assms(1,3) by (auto simp: table_frames_def dir_ok_def)
    then show ?thesis
      using False pda zeroed_other [OF assms(2), of ?g] pmem_set_pde [OF assms(1) _ g(2) index_bounds(2)]
        index_bounds(2) [of a]
      by (simp add: pte_of_def pde_of_pd) (simp add: with_table_def Let_def)
  qed
qed

lemma building_with_table:
  assumes b: "building F k m" and F: "pool_ok F" "k < PageFrameCount" and v: "addressToPdeIndex v < 1023"
    and no: "\<not> present (pde_of m v)"
  defines "m' \<equiv> with_table v (F + of_nat k * PageSize) m"
  shows "building F (Suc k) m'" "addressToPdeIndex a < 1023 \<Longrightarrow> walk m' a = walk m a" "present (pde_of m' v)"
proof -
  let ?f = "F + of_nat k * PageSize"
  note f = pool_frame [OF F]
  have ok: "tables_ok m" and dir: "dir_ok m" and tlb: "tlb m = Map.empty" and sub: "table_frames m \<subseteq> pool_frames F k"
    using b by (simp_all add: building_def tables_ok_def)
  have new: "?f \<notin> table_frames m" using f(3) sub by blast
  then have cr: "?f \<noteq> cr3 m" by (simp add: table_frames_def)
  have walk: "walk m' a = walk m a" if "addressToPdeIndex a < 1023" for a
    using walk_with_table [OF dir f(1) new v no, of a] less_imp_neq [OF that] by (simp add: m'_def)
  show "addressToPdeIndex a < 1023 \<Longrightarrow> walk m' a = walk m a" by (rule walk)
  have pd: "pd m' i = (if i = addressToPdeIndex v then ?f OR (Present OR Writable) else pd m i)" if "unat i < 1024" for i
    unfolding m'_def by (rule pd_with_table [OF dir f(1) cr that])
  show "present (pde_of m' v)" using pd [OF index_bounds(1)] new_entry [OF f(1)] by (simp add: pde_of_pd)
  have "pte_of m' a = 0" if a: "addressToPdeIndex a < 1023" "present (pde_of m' a)" "walk m' a = None" for a
  proof (cases "addressToPdeIndex a = addressToPdeIndex v")
    case True
    then show ?thesis using pte_with_table [OF dir f(1) new v a(1)] a(2) by (simp add: m'_def)
  next
    case False
    then have "present (pde_of m a)" using a(2) pd [OF index_bounds(1)] by (simp add: pde_of_pd)
    moreover have "walk m a = None" using walk [OF a(1)] a(3) by simp
    ultimately have "pte_of m a = 0" using b a(1) by (simp add: building_def)
    then show ?thesis using pte_with_table [OF dir f(1) new v a(1)] a(2) False by (simp add: m'_def)
  qed
  moreover have "tables_ok m'" unfolding m'_def by (rule tables_ok_with_table [OF ok f(1) new v no])
  moreover have "table_frames m' \<subseteq> pool_frames F (Suc k)"
    using table_frames_with_table [OF dir f(1) cr v no] sub f(4) by (auto simp: m'_def)
  moreover have "tlb m' = Map.empty" using tlb_with_table [of v ?f m] tlb by (fastforce simp: m'_def)
  ultimately show "building F (Suc k) m'" by (simp add: building_def)
qed

section \<open>The loops\<close>

lemma in_pages_snoc:
  assumes "page_of v = v" "unat v + n * 4096 < 2 ^ 32"
  shows "in_pages v (Suc n) a \<longleftrightarrow> in_pages v n a \<or> page_of a = v + of_nat n * PageSize"
proof -
  let ?x = "page_of a - v"
  have "unat (of_nat n * PageSize :: u32) = n * 4096"
    using assms(2) by (simp add: PageSize_def unat_word_ariths unat_of_nat)
  moreover have "unat ?x = unat ?x div 4096 * 4096"
    using unat_page_of [of ?x] page_of_diff [OF assms(1), of "page_of a"] by simp
  moreover have "page_of a = v + of_nat n * PageSize \<longleftrightarrow> ?x = of_nat n * PageSize"
    by (auto simp: algebra_simps)
  moreover have "q * 4096 < Suc n * 4096 \<longleftrightarrow> q * 4096 < n * 4096 \<or> q * 4096 = n * 4096" for q :: nat
    by (simp only: mult_less_cancel2 mult_cancel2) auto
  ultimately show ?thesis by (metis in_pages_def word_unat_eq_iff)
qed

definition early :: "u32 \<Rightarrow> nat \<Rightarrow> u32 \<Rightarrow> page_alloc \<Rightarrow> boot \<Rightarrow> bool" where
  "early F k D pg s \<longleftrightarrow> frames_used F k s \<and> building F k (init_paging D pg s)"

lemma map_early:
  assumes e: "early F j D pg s" and F: "pool_ok F" "j \<le> PageFrameCount" and D: "page_of D = D" "unat D < 0x400000"
    and v: "addressToPdeIndex v < 1023" "page_of v = v" "page_of p = p"
    and free: "walk (init_paging D pg s) v = None"
    and room: "present (pde_of (init_paging D pg s) v) \<or> j < PageFrameCount"
  shows "\<exists>s'. mapPage_boot v p (D + KernelVirtualBase) s = Inr s' \<and>
    early F (if present (pde_of (init_paging D pg s) v) then j else Suc j) D pg s' \<and>
    present (pde_of (init_paging D pg s') v) \<and>
    (\<forall>a. addressToPdeIndex a < 1023 \<longrightarrow>
      walk (init_paging D pg s') a = (if page_of a = v then Some p else walk (init_paging D pg s) a))"
proof -
  let ?M = "init_paging D pg s"
  have b: "building F j ?M" and fr: "frames_used F j s" using e by (simp_all add: early_def)
  have dir: "dir_ok ?M" using b by (simp add: building_def tables_ok_def)
  show ?thesis
  proof (cases "present (pde_of ?M v)")
    case True
    have z: "pte_of ?M v = 0" using b v(1) True free by (simp add: building_def)
    obtain s' where s': "mapPage_boot v p (D + KernelVirtualBase) s = Inr s'"
        "init_paging D pg s' = set_pte v (p OR (Present OR Writable)) ?M" "\<And>F k. frames_used F k s' = frames_used F k s"
      using map_present [OF D True v(2,3) building_pde [OF b F True v(1)] z] by metis
    show ?thesis
      using s' True fr building_set_pte [OF b v True] by (intro exI [of _ s']) (simp add: early_def)
  next
    case False
    then have k: "j < PageFrameCount" using room by simp
    have Fp: "page_of F = F" using F(1) by (simp add: pool_ok_def)
    obtain s1 where s1: "getFreePage s = Inr (F + of_nat j * PageSize + KernelVirtualBase, s1)"
        "frames_used F (Suc j) s1" "bmem s1 = bmem s"
      using getFreePage_frames [OF fr k Fp] by metis
    note f = pool_frame [OF F(1) k]
    have new: "F + of_nat j * PageSize \<notin> table_frames ?M" using b f(3) by (auto simp: building_def)
    obtain s' where s': "mapPage_boot v p (D + KernelVirtualBase) s = Inr s'"
        "init_paging D pg s' = set_pte v (p OR (Present OR Writable)) (with_table v (F + of_nat j * PageSize) ?M)"
        "\<And>F k. frames_used F k s' = frames_used F k s1"
      using map_new [OF D dir False v(2,3,1) f(1,2) new s1(1,3)] by metis
    note t = building_with_table [OF b F(1) k v(1) False]
    show ?thesis
      using s' False s1(2) t building_set_pte [OF t(1) v t(3)] by (intro exI [of _ s']) (simp add: early_def)
  qed
qed

text \<open>What holds after \<open>i\<close> pages of such a loop, which maps the pages from \<open>B + first\<close> on.\<close>

definition mapped_upto :: "u32 \<Rightarrow> nat \<Rightarrow> u32 \<Rightarrow> page_alloc \<Rightarrow> u32 \<Rightarrow> u32 \<Rightarrow> u32 \<Rightarrow> (u32 \<Rightarrow> u32 option) \<Rightarrow> nat \<Rightarrow> boot \<Rightarrow> bool" where
  "mapped_upto F k D pg d B first old i t \<longleftrightarrow>
     (\<exists>j. (j = k \<or> j = Suc k \<and> present (pd (init_paging D pg t) d)) \<and> early F j D pg t) \<and>
     (\<forall>a. addressToPdeIndex a < 1023 \<longrightarrow> walk (init_paging D pg t) a =
       (if in_pages (B + first) i a then Some (page_of a - B) else old a))"

lemma map_loop_step:
  assumes I: "mapped_upto F k D pg d B first old i t" and F: "pool_ok F" "k < PageFrameCount"
    and D: "page_of D = D" "unat D < 0x400000"
    and B: "page_of B = B" "\<And>x. unat x < 0x400000 \<Longrightarrow> addressToPdeIndex (B + x) = d" "d < 1023"
      "unat B + 0x400000 < 2 ^ 32"
    and first: "page_of first = first" "unat first + n * 4096 \<le> 0x400000" and i: "i < n"
    and old: "\<And>a. in_pages (B + first) n a \<Longrightarrow> old a = None"
  shows "\<exists>t'. mapPage_boot (B + (first + of_nat i * PageSize)) (first + of_nat i * PageSize) (D + KernelVirtualBase) t = Inr t' \<and>
      mapped_upto F k D pg d B first old (Suc i) t'"
proof -
  let ?p = "first + of_nat i * PageSize" and ?M = "init_paging D pg t"
  let ?v = "B + ?p"
  have Bf: "page_of (B + first) = B + first" using page_of_shift [OF B(1)] first(1) by simp
  have fi: "unat first + i * 4096 < 2 ^ LENGTH(32)" using first(2) i by simp
  have up: "unat ?p = unat first + i * 4096" using unat_add_of_nat [OF fi] by (simp add: PageSize_def)
  have "unat (B + first) \<le> unat B + unat first" by (simp add: unat_word_ariths)
  then have room: "unat (B + first) + i * 4096 < 2 ^ 32" using first(2) B(4) i by linarith
  have p: "page_of ?p = ?p" by (rule frame_aligned [OF first(1)])
  have low: "unat ?p < 0x400000" using up first(2) i by linarith
  have vd: "addressToPdeIndex ?v = d" by (rule B(2) [OF low])
  have v: "page_of ?v = ?v" using page_of_shift [OF B(1), of ?p] p by simp
  have vd': "addressToPdeIndex ?v < 1023" using vd B(3) by simp
  have pages: "in_pages (B + first) (Suc i) a \<longleftrightarrow> in_pages (B + first) i a \<or> page_of a = ?v" for a
    using in_pages_snoc [OF Bf room, of a] by (simp add: add.assoc)
  have "page_of ?v - (B + first) = of_nat i * PageSize" unfolding v by (simp add: algebra_simps)
  moreover have "unat (of_nat i * PageSize :: u32) = i * 4096"
    using first(2) i by (simp add: PageSize_def unat_word_ariths unat_of_nat)
  ultimately have iv: "\<not> in_pages (B + first) i ?v" "in_pages (B + first) n ?v" using i by (simp_all add: in_pages_def)
  have W: "walk ?M a = (if in_pages (B + first) i a then Some (page_of a - B) else old a)" if "addressToPdeIndex a < 1023" for a
    using I that unfolding mapped_upto_def by blast
  have free: "walk ?M ?v = None" using W [OF vd'] iv(1) old [OF iv(2)] by simp
  obtain j where j: "j = k \<or> j = Suc k \<and> present (pd ?M d)" "early F j D pg t"
    using I unfolding mapped_upto_def by blast
  have pde: "pde_of ?M ?v = pd ?M d" by (simp add: pde_of_pd vd)
  have jc: "j \<le> PageFrameCount" "present (pde_of ?M ?v) \<or> j < PageFrameCount" using j(1) F(2) by (auto simp: pde)
  obtain t' where t': "mapPage_boot ?v ?p (D + KernelVirtualBase) t = Inr t'"
      "early F (if present (pde_of ?M ?v) then j else Suc j) D pg t'" "present (pde_of (init_paging D pg t') ?v)"
      "\<forall>a. addressToPdeIndex a < 1023 \<longrightarrow> walk (init_paging D pg t') a = (if page_of a = ?v then Some ?p else walk ?M a)"
    using map_early [OF j(2) F(1) jc(1) D vd' v p free jc(2)] by (elim exE conjE)
  have pr: "present (pd (init_paging D pg t') d)" using t'(3) by (simp add: pde_of_pd vd)
  have jj: "\<exists>j. (j = k \<or> j = Suc k \<and> present (pd (init_paging D pg t') d)) \<and> early F j D pg t'"
    using t'(2) j(1) pr unfolding pde by (cases "present (pd ?M d)") auto
  have "walk (init_paging D pg t') a = (if in_pages (B + first) (Suc i) a then Some (page_of a - B) else old a)"
    if a: "addressToPdeIndex a < 1023" for a
  proof (cases "page_of a = ?v")
    case True
    then have "page_of a - B = ?p" by simp
    then show ?thesis using t'(4) a True pages [of a] by simp
  next
    case False
    then show ?thesis using t'(4) a W [OF a] pages [of a] by simp
  qed
  then have "mapped_upto F k D pg d B first old (Suc i) t'"
    unfolding mapped_upto_def using jj by blast
  then show ?thesis using t'(1) by blast
qed

lemma map_loop:
  assumes e: "early F k D pg s" and F: "pool_ok F" "k < PageFrameCount" and D: "page_of D = D" "unat D < 0x400000"
    and B: "page_of B = B" "\<And>x. unat x < 0x400000 \<Longrightarrow> addressToPdeIndex (B + x) = d" "d < 1023"
      "unat B + 0x400000 < 2 ^ 32"
    and first: "page_of first = first" "unat first + n * 4096 \<le> 0x400000"
    and old: "\<And>a. in_pages (B + first) n a \<Longrightarrow> walk (init_paging D pg s) a = None"
  shows "\<exists>s'. page_loop (\<lambda>p. mapPage_boot (B + p) p (D + KernelVirtualBase)) first (first + of_nat n * PageSize) s = Some (Inr s') \<and>
    (\<exists>j \<le> Suc k. early F j D pg s') \<and>
    (\<forall>a. addressToPdeIndex a < 1023 \<longrightarrow> walk (init_paging D pg s') a =
      (if in_pages (B + first) n a then Some (page_of a - B) else walk (init_paging D pg s) a))"
proof -
  let ?I = "mapped_upto F k D pg d B first (walk (init_paging D pg s))"
  let ?f = "\<lambda>p. mapPage_boot (B + p) p (D + KernelVirtualBase)"
  have step: "\<exists>t'. ?f (first + of_nat i * PageSize) t = Inr t' \<and> ?I (Suc i) t'" if "i < n" "?I i t" for i t
    by (rule map_loop_step [where old = "walk (init_paging D pg s)", OF that(2) F D B first that(1) old]) simp_all
  have base: "?I 0 s" using e by (auto simp: mapped_upto_def)
  have room: "unat first + n * 4096 < 2 ^ 32" using first(2) by simp
  obtain s' where s': "page_loop ?f first (first + of_nat n * PageSize) s = Some (Inr s')" "?I n s'"
    using page_loop_steps [where I = ?I and f = ?f, OF step base room] by blast
  have "\<exists>j \<le> Suc k. early F j D pg s'" using s'(2) unfolding mapped_upto_def by (metis le_Suc_eq order_refl)
  then show ?thesis using s' unfolding mapped_upto_def by blast
qed

lemma unmap_identity:
  assumes ok: "tables_ok m" and first: "page_of first = first" "unat first + n * 4096 \<le> unat PageTableBase"
    and used: "\<And>a. in_pages first n a \<Longrightarrow> walk m a \<noteq> None"
  shows "\<exists>m'. page_loop unmapPage first (first + of_nat n * PageSize) m = Some (Inr m') \<and> tables_ok m' \<and>
    cr3 m' = cr3 m \<and> pages m' = pages m \<and> table_frames m' = table_frames m \<and>
    (\<forall>a. walk m' a = (if in_pages first n a then None else walk m a))"
proof -
  let ?I = "\<lambda>i m'. tables_ok m' \<and> cr3 m' = cr3 m \<and> pages m' = pages m \<and> table_frames m' = table_frames m \<and>
    (\<forall>a. walk m' a = (if in_pages first i a then None else walk m a))"
  have bound: "unat first + n * 4096 < 2 ^ 32" using first(2) by (simp add: PageTableBase_def)
  have step: "\<exists>t'. unmapPage (first + of_nat i * PageSize) t = Inr t' \<and> ?I (Suc i) t'"
    if i: "i < n" and I: "?I i t" for i t
  proof -
    let ?v = "first + of_nat i * PageSize"
    have v: "page_of ?v = ?v" by (rule frame_aligned [OF first(1)])
    have room: "unat first + i * 4096 < 2 ^ 32" using bound i by linarith
    have "unat (of_nat i * PageSize :: u32) = i * 4096"
      using room by (simp add: PageSize_def unat_word_ariths unat_of_nat)
    then have iv: "\<not> in_pages first i ?v" "in_pages first n ?v" using i v by (simp_all add: in_pages_def)
    have low: "addressToPdeIndex ?v < 1023" using in_pages_below [OF first iv(2)] .
    have "walk t ?v \<noteq> None" using I iv used by simp
    moreover have "tables_ok t" using I by simp
    ultimately obtain t' where t': "unmapPage ?v t = Inr t'" "tables_ok t'" "cr3 t' = cr3 t" "pages t' = pages t"
        "\<And>a. walk t' a = (if page_of a = ?v then None else walk t a)" "table_frames t' = table_frames t"
      using unmapPage_ok [OF _ v low, of t] by blast
    have "?I (Suc i) t'" using t'(2-) I in_pages_snoc [OF first(1) room] by auto
    then show ?thesis using t'(1) by blast
  qed
  have base: "?I 0 m" using ok by simp
  show ?thesis by (rule page_loop_steps [where I = ?I and f = unmapPage, OF step base bound])
qed

section \<open>The directory of the kernel\<close>

lemma fresh_directory:
  assumes "pool_ok F" "frame_start s = F + KernelVirtualBase" "frame_bitmap s = replicate PageFrameCount 0"
  shows "\<exists>s1 s2 s3. getFreePage s = Inr (F + KernelVirtualBase, s1) \<and> boot_zero 1024 (F + KernelVirtualBase) s1 = Inr s2 \<and>
    boot_write (F + KernelVirtualBase + 1023 * 4) (F OR Present) s2 = Inr s3 \<and> early F 1 F pg s3 \<and>
    (\<forall>a. addressToPdeIndex a < 1023 \<longrightarrow> walk (init_paging F pg s3) a = None)"
proof -
  have F: "page_of F = F" "unat F < 0x400000" using assms(1) by (simp_all add: pool_ok_def PageFrameCount_def)
  have "frames_used F 0 s" using assms(2,3) by (simp add: frames_used_def)
  moreover have "0 < PageFrameCount" by (simp add: PageFrameCount_def)
  ultimately obtain s1 where s1: "getFreePage s = Inr (F + of_nat 0 * PageSize + KernelVirtualBase, s1)"
      "frames_used F (Suc 0) s1"
    using getFreePage_frames [OF _ _ F(1)] by metis
  let ?s2 = "s1\<lparr>bmem := zeroed F 0 1024 (bmem s1)\<rparr>"
  let ?s3 = "?s2\<lparr>bmem := (bmem ?s2)(F + 1023 * 4 := F OR Present)\<rparr>"
  let ?m = "init_paging F pg ?s3"
  have z: "boot_zero 1024 (F + KernelVirtualBase) s1 = Inr ?s2" using boot_zero_frame [OF F, of 0 1024 s1] by simp
  have "unat (1023 :: u32) < 1024" by simp
  from boot_access(2) [OF F this] have w: "boot_write (F + KernelVirtualBase + 1023 * 4) (F OR Present) ?s2 = Inr ?s3" .
  have "pd ?m i = (if i = 1023 then F OR Present else 0)" if "unat i < 1024" for i
    using entry_inject [OF F(1) F(1) that, of 1023] zeroed_same [OF that] by (simp add: pd_def F(1))
  then have pd: "pd ?m 1023 = F OR Present" "\<And>i. i < 1023 \<Longrightarrow> pd ?m i = 0" using less_1023 by auto
  have none: "\<not> present 0" by (simp add: present_def)
  have "present (F OR Present)" by (simp add: present_odd Present_def even_or_iff)
  moreover have "page_of (F OR Present) = F" using page_of_or [of Present F] F(1) by (simp add: Present_def)
  ultimately have "dir_ok ?m" using pd none F(1) by (simp add: dir_ok_def)
  moreover have "table_frames ?m = {F}" using pd(2) none by (auto simp: table_frames_def)
  moreover have pde: "pde_of ?m a = 0" if "addressToPdeIndex a < 1023" for a using pd(2) [OF that] by (simp add: pde_of_pd)
  ultimately have "building F 1 ?m"
    using none by (simp add: building_def tables_ok_def coherent_def pool_frames_def)
  moreover have "walk ?m a = None" if "addressToPdeIndex a < 1023" for a
    using pde [OF that] none by (simp add: walk_def present_def)
  moreover have "frames_used F 1 ?s3" using s1(2) by simp
  ultimately show ?thesis using s1(1) z w unfolding early_def by auto
qed

text \<open>The addresses, for a kernel that ends between its load address and \<open>0xc03f5000\<close>.\<close>

lemma boot_layout:
  assumes "0xc0100000 \<le> highest_address ek em" "highest_address ek em \<le> 0xc03f5000"
  defines "F \<equiv> roundTo (highest_address ek em) PageSize - KernelVirtualBase"
  shows "pool_ok F" "F + KernelVirtualBase \<noteq> 0"
    "\<exists>n. last_address ek em = KernelLoadAddress + of_nat n * PageSize \<and>
       unat (last_address ek em) = unat KernelLoadAddress + n * 4096 \<and> unat KernelLoadAddress + n * 4096 \<le> 0x400000"
proof -
  let ?h = "highest_address ek em"
  have h: "0xc0100000 \<le> unat ?h" "unat ?h \<le> 0xc03f5000" using assms(1,2) by (simp_all add: word_le_nat_alt)
  define q where "q = (unat ?h + 4095) div 4096"
  have "unat (?h + 4095) = unat ?h + 4095" using h(2) by (simp add: unat_word_ariths)
  then have r: "unat (roundTo ?h PageSize) = q * 4096" by (simp add: roundTo_page unat_page_of q_def)
  have q: "786688 \<le> q" "q \<le> 787445" using h by (simp_all add: q_def less_eq_div_iff_mult_less_eq div_le_dividend div_less_iff_less_mult less_Suc_eq_le [symmetric])
  have "KernelVirtualBase \<le> roundTo ?h PageSize" using r q by (simp add: word_le_nat_alt KernelVirtualBase_def)
  then have F: "unat F = q * 4096 - 0xc0000000" using r by (simp add: F_def unat_sub) (simp add: KernelVirtualBase_def)
  have "page_of KernelVirtualBase = KernelVirtualBase" by (simp add: KernelVirtualBase_def page_of_def PageMask_def PageSize_def)
  then have "page_of F = F" unfolding F_def roundTo_page by (rule page_of_diff) simp
  then show "pool_ok F" using F q by (simp add: pool_ok_def PageFrameCount_def)
  have "F + KernelVirtualBase = roundTo ?h PageSize" by (simp add: F_def)
  then show "F + KernelVirtualBase \<noteq> 0" using r q(1) by (metis mult_is_0 not_one_le_zero unat_0 rel_simps(45) le_zero_eq zero_neq_numeral)
  have "last_address ek em = F + 11 * PageSize"
    by (simp add: last_address_def F_def PageFrameCount_def algebra_simps)
  moreover have "unat (F + 11 * PageSize) = unat F + 11 * 4096" using F q(2) by (simp add: PageSize_def unat_word_ariths)
  ultimately have l: "unat (last_address ek em) = unat KernelLoadAddress + (q - 786677) * 4096"
    using F q by (simp add: KernelLoadAddress_def)
  have top: "unat KernelLoadAddress + (q - 786677) * 4096 \<le> 0x400000" using q(2) by (simp add: KernelLoadAddress_def)
  then have "unat KernelLoadAddress + (q - 786677) * 4096 < 2 ^ LENGTH(32)" by simp
  from unat_add_of_nat [OF this] l have "last_address ek em = KernelLoadAddress + of_nat (q - 786677) * PageSize"
    by (simp add: word_unat_eq_iff PageSize_def)
  then show "\<exists>n. last_address ek em = KernelLoadAddress + of_nat n * PageSize \<and>
       unat (last_address ek em) = unat KernelLoadAddress + n * 4096 \<and> unat KernelLoadAddress + n * 4096 \<le> 0x400000"
    using l top by blast
qed

lemma kernel_window:
  assumes "unat x < 0x400000"
  shows "addressToPdeIndex (KernelVirtualBase + x) = 768" "addressToPdeIndex x = 0"
proof -
  have "unat (KernelVirtualBase + x) = 0xc0000000 + unat x"
    using assms by (simp add: KernelVirtualBase_def unat_word_ariths)
  moreover have "(0xc0000000 + unat x) div 2 ^ 22 = 768" using assms by (intro div_nat_eqI) simp_all
  ultimately show "addressToPdeIndex (KernelVirtualBase + x) = 768" by (simp add: word_unat_eq_iff unat_pde_index)
  show "addressToPdeIndex x = 0" using assms by (simp add: word_unat_eq_iff unat_pde_index)
qed

lemma boot_pages_disjoint:
  assumes "unat KernelLoadAddress + n * 4096 \<le> 0x400000"
  shows "in_pages KernelLoadAddress n a \<longleftrightarrow> KernelLoadAddress \<le> a \<and> unat a < unat KernelLoadAddress + n * 4096"
    "in_pages (KernelVirtualBase + KernelLoadAddress) n a \<longleftrightarrow> KernelVirtualBase + KernelLoadAddress \<le> a \<and>
       unat a < unat KernelVirtualBase + unat KernelLoadAddress + n * 4096"
    "in_pages KernelLoadAddress n a \<Longrightarrow> \<not> in_pages (KernelVirtualBase + KernelLoadAddress) n a"
    "in_pages KernelLoadAddress n a \<Longrightarrow> addressToPdeIndex a < 1023"
proof -
  have al: "page_of KernelLoadAddress = KernelLoadAddress" "page_of (KernelVirtualBase + KernelLoadAddress) = KernelVirtualBase + KernelLoadAddress"
    by (simp_all add: KernelLoadAddress_def KernelVirtualBase_def page_of_def PageMask_def PageSize_def)
  have b: "unat KernelLoadAddress + n * 4096 \<le> 2 ^ 32 - 1" "unat (KernelVirtualBase + KernelLoadAddress) + n * 4096 \<le> 2 ^ 32 - 1"
    using assms by (simp_all add: KernelLoadAddress_def KernelVirtualBase_def)
  show 1: "in_pages KernelLoadAddress n a \<longleftrightarrow> KernelLoadAddress \<le> a \<and> unat a < unat KernelLoadAddress + n * 4096"
    using in_pages_iff [OF al(1) b(1)] by (simp add: word_le_nat_alt)
  show 2: "in_pages (KernelVirtualBase + KernelLoadAddress) n a \<longleftrightarrow> KernelVirtualBase + KernelLoadAddress \<le> a \<and>
       unat a < unat KernelVirtualBase + unat KernelLoadAddress + n * 4096"
    using in_pages_iff [OF al(2) b(2)] by (simp add: word_le_nat_alt KernelVirtualBase_def KernelLoadAddress_def)
  show "in_pages KernelLoadAddress n a \<Longrightarrow> \<not> in_pages (KernelVirtualBase + KernelLoadAddress) n a"
    using assms unfolding 1 2 by (auto simp: word_le_nat_alt KernelVirtualBase_def KernelLoadAddress_def)
  assume "in_pages KernelLoadAddress n a"
  then have "unat a < 0x400000" using assms unfolding 1 by linarith
  then show "addressToPdeIndex a < 1023" using kernel_window(2) by simp
qed

lemma directory_walks:
  assumes h: "0xc0100000 \<le> highest_address ek em" "highest_address ek em \<le> 0xc03f5000"
    and n: "last_address ek em = KernelLoadAddress + of_nat n * PageSize" "unat KernelLoadAddress + n * 4096 \<le> 0x400000"
  defines "F \<equiv> roundTo (highest_address ek em) PageSize - KernelVirtualBase"
  shows "\<exists>m. pageDirectory_init ek em pg s = Some (Inr m) \<and> tables_ok m \<and> cr3 m = F \<and> pages m = pg \<and>
    table_frames m \<subseteq> pool_frames F 3 \<and>
    (\<forall>a. addressToPdeIndex a < 1023 \<longrightarrow>
      walk m a = (if in_pages (KernelVirtualBase + KernelLoadAddress) n a then Some (page_of a - KernelVirtualBase) else None))"
proof -
  note lay = boot_layout [OF h, folded F_def] and dj = boot_pages_disjoint [OF n(2)]
  let ?s = "frames_init ek em s" and ?d = "F + KernelVirtualBase"
  have F: "page_of F = F" "unat F < 0x400000" using lay(1) by (simp_all add: pool_ok_def PageFrameCount_def)
  have al: "page_of KernelLoadAddress = KernelLoadAddress" "page_of KernelVirtualBase = KernelVirtualBase" "page_of 0 = 0"
    by (simp_all add: KernelLoadAddress_def KernelVirtualBase_def page_of_def PageMask_def PageSize_def)
  have st: "frame_start ?s = ?d" "frame_bitmap ?s = replicate PageFrameCount 0"
    by (simp_all add: frames_init_def F_def Let_def)
  obtain s1 s2 s3 where s3: "getFreePage ?s = Inr (?d, s1)" "boot_zero 1024 ?d s1 = Inr s2"
      "boot_write (?d + 1023 * 4) (F OR Present) s2 = Inr s3" "early F 1 F pg s3"
      "\<And>a. addressToPdeIndex a < 1023 \<Longrightarrow> walk (init_paging F pg s3) a = None"
    using fresh_directory [OF lay(1) st] by blast
  have kb: "unat KernelVirtualBase + 0x400000 < 2 ^ 32" "unat (0 :: u32) + 0x400000 < 2 ^ 32" by (simp_all add: KernelVirtualBase_def)
  have old1: "walk (init_paging F pg s3) a = None" if "in_pages (KernelVirtualBase + KernelLoadAddress) n a" for a
  proof (rule s3(5))
    have "unat (KernelVirtualBase + KernelLoadAddress) + n * 4096 \<le> unat PageTableBase"
      using n(2) by (simp add: KernelVirtualBase_def KernelLoadAddress_def PageTableBase_def)
    moreover have "page_of (KernelVirtualBase + KernelLoadAddress) = KernelVirtualBase + KernelLoadAddress"
      using page_of_shift [OF al(2)] al(1) by simp
    ultimately show "addressToPdeIndex a < 1023" using in_pages_below that by blast
  qed
  obtain s4 j where s4: "page_loop (\<lambda>p. mapPage_boot (KernelVirtualBase + p) p ?d) KernelLoadAddress (last_address ek em) s3 = Some (Inr s4)"
      "j \<le> Suc 1" "early F j F pg s4"
      "\<And>a. addressToPdeIndex a < 1023 \<Longrightarrow> walk (init_paging F pg s4) a =
        (if in_pages (KernelVirtualBase + KernelLoadAddress) n a then Some (page_of a - KernelVirtualBase) else None)"
    using map_loop [OF s3(4) lay(1) _ F al(2) kernel_window(1) _ kb(1) al(1) n(2) old1] s3(5) unfolding n(1)
    by (auto simp: PageFrameCount_def)
  have old2: "walk (init_paging F pg s4) a = None" if "in_pages (0 + KernelLoadAddress) n a" for a
    using that s4(4) dj(3,4) by simp
  have k0: "addressToPdeIndex (0 + x) = 0" if "unat x < 0x400000" for x using kernel_window(2) [OF that] by simp
  have "j < PageFrameCount" using s4(2) by (simp add: PageFrameCount_def)
  from map_loop [OF s4(3) lay(1) this F al(3) k0 _ kb(2) al(1) n(2) old2]
  obtain s5 j' where s5: "page_loop (\<lambda>p. mapPage_boot p p ?d) KernelLoadAddress (last_address ek em) s4 = Some (Inr s5)"
      "j' \<le> Suc j" "early F j' F pg s5"
      "\<And>a. addressToPdeIndex a < 1023 \<Longrightarrow> walk (init_paging F pg s5) a =
        (if in_pages KernelLoadAddress n a then Some (page_of a) else walk (init_paging F pg s4) a)"
    unfolding n(1) by auto
  let ?m = "init_paging F pg s5"
  have ok: "tables_ok ?m" "table_frames ?m \<subseteq> pool_frames F j'" using s5(3) by (simp_all add: early_def building_def)
  have top: "unat KernelLoadAddress + n * 4096 \<le> unat PageTableBase" using n(2) by (simp add: PageTableBase_def)
  have "walk ?m a \<noteq> None" if "in_pages KernelLoadAddress n a" for a using that s5(4) dj(4) by simp
  from unmap_identity [OF ok(1) al(1) top this] obtain m where m:
      "page_loop unmapPage KernelLoadAddress (last_address ek em) ?m = Some (Inr m)" "tables_ok m" "cr3 m = F" "pages m = pg"
      "table_frames m = table_frames ?m" "\<And>a. walk m a = (if in_pages KernelLoadAddress n a then None else walk ?m a)"
    unfolding n(1) by (auto simp: init_paging_def)
  have "pageDirectory_init ek em pg s = Some (Inr m)"
    using s3(1-3) s4(1) s5(1) m(1) lay(2) by (simp add: pageDirectory_init_def Let_def)
  moreover have "pool_frames F j' \<subseteq> pool_frames F 3" using s5(2) s4(2) by (auto simp: pool_frames_def)
  moreover have "walk m a = (if in_pages (KernelVirtualBase + KernelLoadAddress) n a then Some (page_of a - KernelVirtualBase) else None)"
    if "addressToPdeIndex a < 1023" for a
    using m(6) s5(4) [OF that] s4(4) [OF that] dj(3) by auto
  ultimately show ?thesis using m(2-5) ok(2) by auto
qed

lemma frames_exhausted:
  assumes "frames_used F PageFrameCount s"
  shows "getFreePage s = Inr (0, s)"
proof -
  have "free_loop i s = Inr (0, s)" if "i \<le> PageFrameCount" for i
    using that
  proof (induction "PageFrameCount - i" arbitrary: i)
    case 0
    then show ?case by (subst free_loop.simps) simp
  next
    case (Suc d)
    then have "free_loop i s = free_loop (i + 1) s"
      using assms by (subst free_loop.simps) (simp add: frames_used_def)
    then show ?case using Suc by simp
  qed
  then show ?thesis by (simp add: getFreePage_def)
qed

theorem frame_round_trip:
  assumes "frames_used F k s" "k < PageFrameCount" "page_of F = F"
  shows "\<exists>page s'. getFreePage s = Inr (page, s') \<and> frames_used F (Suc k) s' \<and> putFreePage page s' = Inr s"
proof -
  let ?p = "F + of_nat k * PageSize + KernelVirtualBase" and ?s = "s\<lparr>frame_bitmap := (frame_bitmap s)[k := 1]\<rparr>"
  have get: "getFreePage s = Inr (?p, ?s)" using free_loop_frames [OF assms, of 0] by (simp add: getFreePage_def)
  moreover obtain s' where "getFreePage s = Inr (?p, s')" "frames_used F (Suc k) s'" using getFreePage_frames [OF assms] by metis
  ultimately have "frames_used F (Suc k) ?s" by simp
  moreover have "frame_start s = F + KernelVirtualBase" "frame_bitmap s ! k = 0" using assms(1,2) by (simp_all add: frames_used_def nth_append)
  moreover have "unat ((of_nat k * PageSize :: u32) div PageSize) = k"
    using assms(2) by (simp add: PageSize_def PageFrameCount_def unat_div unat_word_ariths unat_of_nat)
  moreover have "?p AND PageMask = 0" using virtual_aligned [OF frame_aligned [OF assms(3)]] by (simp add: page_of_eq_iff)
  moreover have "(frame_bitmap s)[k := 0] = frame_bitmap s" using calculation(3) by (metis list_update_id)
  ultimately have "putFreePage ?p ?s = Inr s" using assms(2) by (simp add: putFreePage_def Let_def algebra_simps)
  then show ?thesis using get \<open>frames_used F (Suc k) ?s\<close> by blast
qed

section \<open>Properties\<close>

text \<open>
  C8. The first page tables. The kernel ends, with its modules, at an address that the loader's
  directory shows: at least the load address and at most \<open>0xc03f5000\<close>, low enough that the ten frames of
  the pool and one more page fit below four megabytes. Then \<open>PageDirectory::init\<close> returns and does
  not panic. The directory is the first frame of the pool, which begins with the first whole page
  behind the kernel and its modules; it and all tables lie in the first three frames of the pool; the
  directory is well-formed. An address below the window on the page tables translates exactly when it
  lies between the load address and the page behind the pool, to the address less \<open>KernelVirtualBase\<close>.
  The identity mapping is gone.
\<close>

theorem boot_page_tables:
  assumes "0xc0100000 \<le> highest_address end_kernel end_modules" "highest_address end_kernel end_modules \<le> 0xc03f5000"
  shows "\<exists>m. pageDirectory_init end_kernel end_modules pg s = Some (Inr m) \<and> tables_ok m \<and>
    cr3 m = roundTo (highest_address end_kernel end_modules) PageSize - KernelVirtualBase \<and>
    table_frames m \<subseteq> pool_frames (roundTo (highest_address end_kernel end_modules) PageSize - KernelVirtualBase) 3 \<and>
    (\<forall>a < PageTableBase. translate m a =
      (if KernelVirtualBase + KernelLoadAddress \<le> a \<and> a < KernelVirtualBase + last_address end_kernel end_modules
       then Some (a - KernelVirtualBase) else None))"
proof -
  obtain n where n: "last_address end_kernel end_modules = KernelLoadAddress + of_nat n * PageSize"
      "unat (last_address end_kernel end_modules) = unat KernelLoadAddress + n * 4096" "unat KernelLoadAddress + n * 4096 \<le> 0x400000"
    using boot_layout(3) [OF assms] by blast
  let ?F = "roundTo (highest_address end_kernel end_modules) PageSize - KernelVirtualBase"
  obtain m where m: "pageDirectory_init end_kernel end_modules pg s = Some (Inr m)" "tables_ok m \<and> cr3 m = ?F" "table_frames m \<subseteq> pool_frames ?F 3"
      "\<And>a. addressToPdeIndex a < 1023 \<Longrightarrow> walk m a =
        (if in_pages (KernelVirtualBase + KernelLoadAddress) n a then Some (page_of a - KernelVirtualBase) else None)"
    using directory_walks [OF assms n(1,3), of pg s] by metis
  have "unat (KernelVirtualBase + last_address end_kernel end_modules) = unat KernelVirtualBase + unat KernelLoadAddress + n * 4096"
    using n(2,3) by (simp add: unat_word_ariths KernelVirtualBase_def)
  then have range: "in_pages (KernelVirtualBase + KernelLoadAddress) n a \<longleftrightarrow>
      KernelVirtualBase + KernelLoadAddress \<le> a \<and> a < KernelVirtualBase + last_address end_kernel end_modules" for a
    unfolding boot_pages_disjoint(2) [OF n(3)] word_less_nat_alt by simp
  have off: "page_of a - KernelVirtualBase + offset_of a = a - KernelVirtualBase" for a
    using page_plus_offset [of a] by (simp add: algebra_simps)
  have "translate m a = (if KernelVirtualBase + KernelLoadAddress \<le> a \<and> a < KernelVirtualBase + last_address end_kernel end_modules
       then Some (a - KernelVirtualBase) else None)" if "a < PageTableBase" for a
    using that m(4) [of a] translate_coherent [of m a] m(2) off [of a]
    by (simp add: below_window range tables_ok_def)
  then show ?thesis using m(1-3) by blast
qed

text \<open>A kernel that ends at \<open>0xc0142345\<close> with a module that ends at \<open>0x200001\<close>.\<close>

theorem boot_page_tables_witness:
  "\<exists>m. pageDirectory_init 0xc0142345 0x200001 example_alloc \<lparr>bmem = \<lambda>_. 7, frame_start = 0, frame_bitmap = []\<rparr> = Some (Inr m) \<and>
    translate m 0xc0123456 = Some 0x123456 \<and> translate m 0x123456 = None \<and> translate m 0xc020c000 = None"
proof -
  let ?s = "\<lparr>bmem = \<lambda>_. 7, frame_start = 0, frame_bitmap = []\<rparr> :: boot"
  have h: "highest_address 0xc0142345 0x200001 = 0xc0200001" by (simp add: highest_address_def KernelVirtualBase_def)
  have l: "last_address 0xc0142345 0x200001 = 0x20c000"
    by (simp add: last_address_def h roundTo_def PageSize_def PageFrameCount_def KernelVirtualBase_def)
  have "0xc0100000 \<le> highest_address 0xc0142345 0x200001" "highest_address 0xc0142345 0x200001 \<le> 0xc03f5000"
    unfolding h by simp_all
  from boot_page_tables [OF this, of example_alloc ?s] obtain m where m:
      "pageDirectory_init 0xc0142345 0x200001 example_alloc ?s = Some (Inr m)"
      "\<forall>a < PageTableBase. translate m a = (if KernelVirtualBase + KernelLoadAddress \<le> a \<and>
        a < KernelVirtualBase + last_address 0xc0142345 0x200001 then Some (a - KernelVirtualBase) else None)" by blast
  have "translate m 0xc0123456 = Some 0x123456" "translate m 0x123456 = None" "translate m 0xc020c000 = None"
    using m(2) unfolding l by (simp_all add: PageTableBase_def KernelVirtualBase_def KernelLoadAddress_def)
  then show ?thesis using m(1) by blast
qed

end
