(* ===== verification/Memory_Init.thy ===== *)
theory Memory_Init
  imports Boot_Paging "HOL-Library.Multiset"
begin

text \<open>
  The set-up of memory at boot: the memory map of the boot loader (X86/X86Memory.cc,
  \<open>Memory::copyMemoryMap\<close>), the descriptors of all physical pages, the kernel stack and the code area
  (Kernel/Memory.cc, \<open>Memory::init\<close>). It runs on the tables that \<open>Boot_Paging\<close> has built. The table of the
  boot loader is a list of its entries; \<open>end_kernel\<close>, \<open>start_modules\<close> and \<open>end_modules\<close> are the variables
  and linker symbols of these names.
\<close>

section \<open>The memory map of the boot loader\<close>

record mmap_entry =
  mm_address :: u64
  mm_length :: u64
  mm_type :: u32

definition Available :: u32 where "Available = 1"

text \<open>Addresses and lengths have 64 bits, the parameters of \<open>addMemoryMapEntry\<close> 32.\<close>

primrec copy_loop :: "mmap_entry list \<Rightarrow> bool \<Rightarrow> memory \<Rightarrow> (bool \<times> memory) res" where
  "copy_loop [] foundUsableMemory s = Inr (foundUsableMemory, s)"
| "copy_loop (entry # entries) foundUsableMemory s =
     (if mm_type entry = Available
      then if mm_address entry + mm_length entry \<le> 0x100000
        then copy_loop entries foundUsableMemory s
        else bindr (addMemoryMapEntry (ucast (mm_address entry)) (ucast (mm_length entry)) s) (copy_loop entries True)
      else copy_loop entries foundUsableMemory s)"

definition copyMemoryMap :: "mmap_entry list \<Rightarrow> memory \<Rightarrow> memory res" where
  "copyMemoryMap entries s =
     bindr (copy_loop entries False s) (\<lambda>(foundUsableMemory, s).
       if foundUsableMemory then Inr s else Inl (KASSERT ''foundUsableMemory''))"

section \<open>The descriptors of the pages\<close>

definition PhysicalPageSize :: u32 where "PhysicalPageSize = 12"

definition first_free_page :: "u32 \<Rightarrow> u32 \<Rightarrow> u32" where
  "first_free_page end_kernel end_modules =
     (let firstUsableMemory = max end_kernel end_modules
      in roundTo firstUsableMemory PageSize + PageSize * of_nat PageFrameCount)"

definition bootstrap_clusters :: "u32 \<Rightarrow> page_alloc \<Rightarrow> page_alloc res" where
  "bootstrap_clusters bootstrapPage pg =
     (let (us, st) = cluster_init (usedPages pg, store pg);
          (fr, st) = cluster_init (freePages pg, st);
          st = page_init_at bootstrapPage (bootstrapPage - KernelVirtualBase) st
      in bindr (cluster_insert bootstrapPage (us, st)) (\<lambda>(us, st).
           Inr (pg\<lparr>store := st, usedPages := us, freePages := fr\<rparr>)))"

definition page_in_use :: "u32 \<Rightarrow> u32 \<Rightarrow> u32 \<Rightarrow> u32 \<Rightarrow> bool" where
  "page_in_use start_modules end_modules firstFreePage addr \<longleftrightarrow>
     KernelLoadAddress \<le> addr \<and> addr < firstFreePage - KernelVirtualBase \<or>
     end_modules \<noteq> 0 \<and> start_modules \<le> addr \<and> addr < end_modules"

definition new_structures :: "u32 \<Rightarrow> memory \<Rightarrow> (u32 \<times> u32 \<times> memory) res" where
  "new_structures end_kernel s =
     bindr (getPage (pages (mach s))) (\<lambda>(ppage, pg).
       if ppage = 0 then Inl (KASSERT ''ppage != 0'')
       else bindr (mapAnonymousPage end_kernel ppage 0 (s\<lparr>mach := (mach s)\<lparr>pages := pg\<rparr>\<rparr>)) (\<lambda>(p, s).
         if p = 0 then Inl (KASSERT ''p != 0'') else Inr (p, PageSize div PhysicalPageSize, s)))"

definition add_page :: "bool \<Rightarrow> u32 \<Rightarrow> u32 \<Rightarrow> page_alloc \<Rightarrow> page_alloc res" where
  "add_page in_use p addr pg =
     (let pg = pg\<lparr>store := page_init_at p addr (store pg)\<rparr>
      in if in_use
         then bindr (cluster_insert p (usedPages pg, store pg)) (\<lambda>(us, st). Inr (pg\<lparr>store := st, usedPages := us\<rparr>))
         else bindr (cluster_insert p (freePages pg, store pg)) (\<lambda>(fr, st). Inr (pg\<lparr>store := st, freePages := fr\<rparr>)))"

text \<open>The body of the loop over the pages of a range.\<close>

definition fill_page :: "u32 \<Rightarrow> (u32 \<Rightarrow> bool) \<Rightarrow> u32 \<Rightarrow> u32 \<times> u32 \<times> memory \<Rightarrow> (u32 \<times> u32 \<times> memory) res" where
  "fill_page end_kernel in_use addr = (\<lambda>(p, freeStructures, s).
     bindr (if freeStructures = 0 then new_structures end_kernel s else Inr (p, freeStructures, s))
       (\<lambda>(p, freeStructures, s).
          bindr (add_page (in_use addr) p addr (pages (mach s))) (\<lambda>pg.
            Inr (p + PhysicalPageSize, freeStructures - 1, s\<lparr>mach := (mach s)\<lparr>pages := pg\<rparr>\<rparr>))))"

definition fill_map :: "u32 \<Rightarrow> (u32 \<Rightarrow> bool) \<Rightarrow> u32 \<times> u32 \<times> memory \<Rightarrow> (u32 \<times> u32 \<times> memory) res option" where
  "fill_map end_kernel in_use = (\<lambda>(p, freeStructures, s).
     steps (\<lambda>(a, sz). page_loop (fill_page end_kernel in_use) a (a + sz)) (memoryMap s) (p, freeStructures, s))"

section \<open>The kernel stack and the code area\<close>

definition CodeStart :: u32 where "CodeStart = 0x10000000"
definition CodeSize :: u32 where "CodeSize = 0x400000"

definition map_fresh :: "string \<Rightarrow> u32 \<Rightarrow> u32 \<Rightarrow> machine \<Rightarrow> machine res" where
  "map_fresh what flags v m =
     bindr (getPage (pages m)) (\<lambda>(page, pg).
       if page = 0 then Inl (KASSERT what) else mapPage v page flags (m\<lparr>pages := pg\<rparr>))"

text \<open>
  \<open>KernelStackStart\<close> is \<open>PageTableBase\<close>. The bytes that are copied to the code area are one
  little-endian word. The first result is \<open>stackEnd\<close>.
\<close>

definition memory_init :: "u32 \<Rightarrow> u32 \<Rightarrow> u32 \<Rightarrow> memory \<Rightarrow> (u32 \<times> memory) res option" where
  "memory_init end_kernel start_modules end_modules s =
     (let firstFreePage = first_free_page end_kernel end_modules;
          freeStructures = PageSize div PhysicalPageSize - 1
      in bindo (Some (bootstrap_clusters firstFreePage (pages (mach s)))) (\<lambda>pg.
         if freeStructures = 0 then Some (Inl (KASSERT ''freeStructures > 0''))
         else
           bindo (fill_map end_kernel (page_in_use start_modules end_modules firstFreePage)
             (firstFreePage + PhysicalPageSize, freeStructures, s\<lparr>mach := (mach s)\<lparr>pages := pg\<rparr>\<rparr>)) (\<lambda>(p, freeStructures, s).
             let start = PageTableBase in
             bindo (page_loop (map_fresh ''stackPage != 0'' 0) (start - KernelStackSize) start (mach s)) (\<lambda>m.
             let stackEnd = start - KernelStackSize - PageSize in
             bindo (page_loop (map_fresh ''page != 0'' FlagUser) CodeStart (CodeStart + CodeSize) m) (\<lambda>m.
             bindo (Some (vwrite CodeStart 0x80cdc031 m)) (\<lambda>m.
               Some (Inr (stackEnd, s\<lparr>mach := m\<rparr>))))))))"

section \<open>Adding a descriptor\<close>

lemma bootstrap_ok:
  assumes "headM (usedPages pg) \<noteq> 0" "headM (freePages pg) \<noteq> 0" "headM (usedPages pg) \<noteq> headM (freePages pg)"
    "b \<noteq> 0" "b \<noteq> headM (usedPages pg)" "b \<noteq> headM (freePages pg)"
  shows "\<exists>pg'. bootstrap_clusters b pg = Inr pg' \<and> alloc_repr pg' [b] [] \<and>
    getAddress (store pg' b) = page_of (b - KernelVirtualBase) \<and>
    headM (usedPages pg') = headM (usedPages pg) \<and> headM (freePages pg') = headM (freePages pg)"
proof -
  obtain us st where us: "cluster_init (usedPages pg, store pg) = (us, st)" by fastforce
  obtain fr st2 where fr: "cluster_init (freePages pg, st) = (fr, st2)" by fastforce
  let ?st = "page_init_at b (b - KernelVirtualBase) st2"
  have h: "headM us = headM (usedPages pg)" "headM fr = headM (freePages pg)"
    and out: "\<And>x. x \<notin> {headM (freePages pg)} \<Longrightarrow> st2 x = st x"
    using us fr by (auto simp: cluster_init_def Let_def page_init_def set_next_def set_prev_def)
  have out2: "\<And>x. x \<notin> {b} \<Longrightarrow> ?st x = st2 x" by (simp add: page_init_at_def)
  have 1: "cluster_repr (us, st) []" using cluster_init_repr [of "usedPages pg" "store pg"] us assms(1) by simp
  have 2: "cluster_repr (us, st2) []" by (rule cluster_repr_frame [OF 1 out], assumption) (use h assms(3) in auto)
  have u: "cluster_repr (us, ?st) []" by (rule cluster_repr_frame [OF 2 out2], assumption) (use h assms(5) in auto)
  have 3: "cluster_repr (fr, st2) []" using cluster_init_repr [of "freePages pg" st] fr assms(2) by simp
  have f: "cluster_repr (fr, ?st) []" by (rule cluster_repr_frame [OF 3 out2], assumption) (use h assms(6) in auto)
  have nb: "b \<notin> set (headM us # [])" using h assms(5) by simp
  obtain us' st' where ins: "cluster_insert b (us, ?st) = Inr (us', st')" "cluster_repr (us', st') [b]"
      "headM us' = headM us" "\<And>x. address (st' x) = address (?st x)" "\<And>x. x \<notin> set [b, headM us] \<Longrightarrow> st' x = ?st x"
    using cluster_insert_repr [OF u nb assms(4)] by auto
  have "cluster_repr (fr, st') []"
    by (rule cluster_repr_frame [OF f ins(5)], assumption) (use h assms in auto)
  then have "alloc_repr (pg\<lparr>store := st', usedPages := us', freePages := fr\<rparr>) [b] []"
    using ins(2,3) h assms(3,6) by (auto simp: alloc_repr_def)
  moreover have "getAddress (st' b) = page_of (b - KernelVirtualBase)"
    using getAddress_cong [OF ins(4) [of b]] by (simp add: page_init_at_def getAddress_def page_of_def AddressMask_def)
  ultimately show ?thesis using ins(1,3) h by (simp add: bootstrap_clusters_def us fr bindr_def)
qed

lemma add_page_ok:
  assumes vm: "vm_ok m us fs"
    and p: "p \<noteq> 0" "p \<notin> set (headM (usedPages (pages m)) # us)" "p \<notin> set (headM (freePages (pages m)) # fs)"
    and len: "Suc (length us + length fs) < 2 ^ 32" and addr: "page_of addr = addr"
    and new: "\<not> u \<Longrightarrow> addr \<noteq> 0 \<and> addr \<notin> table_frames m \<and> addr \<notin> frame_of m ` set fs"
  shows "\<exists>pg. add_page u p addr (pages m) = Inr pg \<and>
    vm_ok (m\<lparr>pages := pg\<rparr>) (if u then p # us else us) (if u then fs else p # fs) \<and>
    frame_of (m\<lparr>pages := pg\<rparr>) = (frame_of m)(p := addr) \<and>
    headM (usedPages pg) = headM (usedPages (pages m)) \<and> headM (freePages pg) = headM (freePages (pages m))"
proof -
  let ?pg = "pages m"
  let ?st = "page_init_at p addr (store ?pg)"
  have rep: "cluster_repr (usedPages ?pg, store ?pg) us" "cluster_repr (freePages ?pg, store ?pg) fs"
    and disj: "set (headM (usedPages ?pg) # us) \<inter> set (headM (freePages ?pg) # fs) = {}"
    and ok: "tables_ok m" "distinct (map (frame_of m) fs)" "\<forall>x \<in> set fs. frame_of m x \<noteq> 0 \<and> frame_of m x \<notin> table_frames m"
    using vm by (simp_all add: vm_ok_def alloc_repr_def)
  have out: "\<And>x. x \<notin> {p} \<Longrightarrow> ?st x = store ?pg x" by (simp add: page_init_at_def)
  have u: "cluster_repr (usedPages ?pg, ?st) us" by (rule cluster_repr_frame [OF rep(1) out], assumption) (use p in auto)
  have f: "cluster_repr (freePages ?pg, ?st) fs" by (rule cluster_repr_frame [OF rep(2) out], assumption) (use p in auto)
  have at: "getAddress (st' x) = (if x = p then addr else getAddress (store ?pg x))"
    if "\<And>x. address (st' x) = address (?st x)" for st' x
    using getAddress_cong [OF that [of x]] addr
    by (simp add: page_init_at_def getAddress_def AddressMask_def page_of_def)
  show ?thesis
  proof (cases u)
    case True
    obtain us' st' where i: "cluster_insert p (usedPages ?pg, ?st) = Inr (us', st')" "cluster_repr (us', st') (p # us)"
        "headM us' = headM (usedPages ?pg)" "\<And>x. address (st' x) = address (?st x)"
        "\<And>x. x \<notin> set (p # headM (usedPages ?pg) # us) \<Longrightarrow> st' x = ?st x"
      using cluster_insert_repr [OF u p(2,1)] len by auto
    let ?new = "?pg\<lparr>store := st', usedPages := us'\<rparr>"
    have "cluster_repr (freePages ?pg, st') fs"
      by (rule cluster_repr_frame [OF f i(5)], assumption) (use disj p in auto)
    then have "alloc_repr ?new (p # us) fs" using i disj p len by (auto simp: alloc_repr_def)
    moreover have fr: "frame_of (m\<lparr>pages := ?new\<rparr>) = (frame_of m)(p := addr)"
      using at [OF i(4)] by (simp add: frame_of_def fun_eq_iff)
    moreover have "map ((frame_of m)(p := addr)) fs = map (frame_of m) fs" using p(3) by auto
    ultimately have "vm_ok (m\<lparr>pages := ?new\<rparr>) (p # us) fs" using ok p(3) by (auto simp: vm_ok_def)
    then show ?thesis using True i(1,3) fr by (simp add: add_page_def bindr_def)
  next
    case False
    obtain fr' st' where i: "cluster_insert p (freePages ?pg, ?st) = Inr (fr', st')" "cluster_repr (fr', st') (p # fs)"
        "headM fr' = headM (freePages ?pg)" "\<And>x. address (st' x) = address (?st x)"
        "\<And>x. x \<notin> set (p # headM (freePages ?pg) # fs) \<Longrightarrow> st' x = ?st x"
      using cluster_insert_repr [OF f p(3,1)] len by auto
    let ?new = "?pg\<lparr>store := st', freePages := fr'\<rparr>"
    have "cluster_repr (usedPages ?pg, st') us"
      by (rule cluster_repr_frame [OF u i(5)], assumption) (use disj p in auto)
    then have "alloc_repr ?new us (p # fs)" using i disj p len by (auto simp: alloc_repr_def)
    moreover have fr: "frame_of (m\<lparr>pages := ?new\<rparr>) = (frame_of m)(p := addr)"
      using at [OF i(4)] by (simp add: frame_of_def fun_eq_iff)
    moreover have "map ((frame_of m)(p := addr)) fs = map (frame_of m) fs" using p(3) by auto
    ultimately have "vm_ok (m\<lparr>pages := ?new\<rparr>) us (p # fs)" using ok p(3) new False by (auto simp: vm_ok_def)
    then show ?thesis using False i(1,3) fr by (simp add: add_page_def bindr_def)
  qed
qed

section \<open>Mapping a fresh page\<close>

text \<open>No operation moves the sentinels of the clusters.\<close>

definition heads :: "machine \<Rightarrow> u32 \<times> u32" where
  "heads m = (headM (usedPages (pages m)), headM (freePages (pages m)))"

lemma cluster_insert_head: "cluster_insert x (c, st) = Inr (c', st') \<Longrightarrow> headM c' = headM c"
  by (auto simp: cluster_insert_def Let_def split: if_splits)

lemma cluster_get_head: "cluster_get (c, st) = Inr (x, c', st') \<Longrightarrow> headM c' = headM c"
  by (auto simp: cluster_get_def cluster_remove_def Let_def split: if_splits)

lemma getPage_heads: "getPage pg = Inr (f, pg') \<Longrightarrow> heads (m\<lparr>pages := pg'\<rparr>) = heads (m\<lparr>pages := pg\<rparr>)"
  by (auto simp: getPage_def heads_def cluster_insert_head cluster_get_head split: if_splits sum.splits)

lemma vwrite_pages: "vwrite a x m = Inr m' \<Longrightarrow> pages m' = pages m"
  by (auto simp: vwrite_def split: option.splits)

lemma vzero_pages: "vzero n a m = Inr m' \<Longrightarrow> pages m' = pages m"
  by (induction n arbitrary: a m) (auto simp: bindr_def dest: vwrite_pages split: sum.splits)

lemma alloc_table_heads: "alloc_table pdb ptb v m = Inr m' \<Longrightarrow> heads m' = heads m"
  using getPage_heads [of "pages m" _ _ m]
  by (auto simp: alloc_table_def heads_def bindr_def Let_def dest!: vwrite_pages vzero_pages split: if_splits sum.splits)

lemma mapPage_heads: "mapPage v p flags m = Inr m' \<Longrightarrow> heads m' = heads m"
  by (auto simp: mapPage_def mapPage_at_def set_user_def enter_page_def bindr_def heads_def Let_def
    dest!: vwrite_pages alloc_table_heads split: if_splits sum.splits)

lemma map_fresh_vm:
  assumes vm: "vm_ok m us (x # y # fs)" and v: "page_of v = v" "addressToPdeIndex v < 1023" "walk m v = None"
    and eager: "flags AND FlagLazy = 0"
  shows "\<exists>m' us' fs'. map_fresh what flags v m = Inr m' \<and> vm_ok m' us' fs' \<and>
    (us' = x # us \<and> fs' = y # fs \<or> us' = y # x # us \<and> fs' = fs) \<and>
    (\<forall>a. addressToPdeIndex a < 1023 \<longrightarrow> walk m' a = (if page_of a = v then Some (frame_of m x) else walk m a)) \<and>
    frame_of m' = frame_of m \<and> table_frames m' \<subseteq> insert (frame_of m y) (table_frames m) \<and> heads m' = heads m"
proof -
  obtain pg where pg: "getPage (pages m) = Inr (frame_of m x, pg)" "vm_ok (m\<lparr>pages := pg\<rparr>) (x # us) (y # fs)"
      "frame_of (m\<lparr>pages := pg\<rparr>) = frame_of m" "frame_of m x \<noteq> 0" "page_of (frame_of m x) = frame_of m x"
    using vm_take [OF vm] by metis
  let ?m = "m\<lparr>pages := pg\<rparr>"
  have free: "walk ?m v = None" using v(3) by simp
  obtain m' where m': "mapPage v (frame_of m x) flags ?m = Inr m'"
      "vm_ok m' (if present (pde_of ?m v) then x # us else y # x # us) (if present (pde_of ?m v) then y # fs else fs)"
      "\<And>a. addressToPdeIndex a < 1023 \<Longrightarrow> walk m' a =
        (if page_of a = v then if flags AND FlagLazy = 0 then Some (frame_of m x) else None else walk ?m a)"
      "\<And>z. frame_of m' z = frame_of ?m z" "table_frames m' \<subseteq> insert (frame_of ?m y) (table_frames ?m)"
    by (rule mapPage_vm [OF pg(2) v(1,2) pg(5) free, of flags]) blast
  have "heads m' = heads m" using mapPage_heads [OF m'(1)] getPage_heads [OF pg(1), of m] by simp
  moreover have "map_fresh what flags v m = Inr m'" using pg(1,4) m'(1) by (simp add: map_fresh_def bindr_def)
  moreover have "frame_of m' = frame_of m" using m'(4) pg(3) by (simp add: fun_eq_iff)
  moreover have "walk m' a = (if page_of a = v then Some (frame_of m x) else walk m a)"
    if "addressToPdeIndex a < 1023" for a using m'(3) [OF that] eager by simp
  moreover have "table_frames m' \<subseteq> insert (frame_of m y) (table_frames m)" using m'(5) pg(3) by simp
  ultimately show ?thesis using m'(2) by (cases "present (pde_of ?m v)") auto
qed

lemma new_structures_fresh:
  assumes "end_kernel < mapEnd s - PageSize" "map_fresh what 0 (mapEnd s - PageSize) (mach s) = Inr m"
  shows "new_structures end_kernel s =
    Inr (mapEnd s - PageSize, PageSize div PhysicalPageSize, s\<lparr>mapEnd := mapEnd s - PageSize, mach := m\<rparr>)"
proof -
  have "mapEnd s - PageSize \<noteq> 0" "\<not> mapEnd s - PageSize \<le> end_kernel" using assms(1) by (auto simp: not_le)
  then show ?thesis using assms(2)
    by (auto simp: new_structures_def map_fresh_def mapAnonymousPage_def bindr_def Let_def split: sum.splits if_splits)
qed

section \<open>The descriptors while they are set up\<close>

text \<open>
  Where the descriptors lie: in the bootstrap page, and in the pages that were mapped below
  \<open>MapStart\<close>.
\<close>

definition places :: "u32 \<Rightarrow> u32 \<Rightarrow> u32 set" where
  "places b lo = {x. unat b \<le> unat x \<and> unat x < unat b + 4096} \<union> {x. lo \<le> x \<and> x < MapStart}"

text \<open>
  The frames of these addresses: one of them is \<open>B\<close>, the frame of the bootstrap page, the others are
  pages of \<open>D\<close> that are no longer free. None holds a table.
\<close>

definition frames_apart :: "u32 \<Rightarrow> machine \<Rightarrow> u32 list \<Rightarrow> u32 set \<Rightarrow> u32 set \<Rightarrow> bool" where
  "frames_apart B m fs D A \<longleftrightarrow> (\<forall>a \<in> A. \<exists>f. walk m a = Some f \<and> f \<notin> table_frames m \<and>
     (f = B \<or> f \<in> D \<and> f \<notin> frame_of m ` set fs))"

text \<open>
  The frame of the bootstrap page is entered as a free page when the memory map has it. It is the last
  of the free pages then, and a page that is taken is the first.
\<close>

definition spare_last :: "u32 \<Rightarrow> machine \<Rightarrow> u32 list \<Rightarrow> u32 set \<Rightarrow> bool" where
  "spare_last B m fs D \<longleftrightarrow> (B \<in> D \<longrightarrow> fs \<noteq> [] \<and> frame_of m (last fs) = B)"

lemma spare_last_suffix:
  assumes "spare_last B m (pre @ fs) D" "fs \<noteq> []" "frame_of m' = frame_of m"
  shows "spare_last B m' fs D"
  using assms by (simp add: spare_last_def)

lemma spare_not_taken:
  assumes "spare_last B m (pre @ fs) D" "fs \<noteq> []" "distinct (map (frame_of m) (pre @ fs))" "frame_of m ` set (pre @ fs) \<subseteq> D"
  shows "B \<notin> frame_of m ` set pre"
proof (cases "B \<in> D")
  case True
  then have "B = frame_of m (last fs)" using assms(1,2) by (simp add: spare_last_def)
  then have "B \<in> frame_of m ` set fs" using assms(2) by (metis imageI last_in_set)
  then show ?thesis using assms(3) by auto
next
  case False
  then show ?thesis using assms(4) by auto
qed

lemma frames_apartD:
  assumes "frames_apart B m fs D A" "a \<in> A" "walk m a = Some f"
  shows "f = B \<or> f \<in> D \<and> f \<notin> frame_of m ` set fs"
  using assms unfolding frames_apart_def by (metis option.inject)

lemma frames_apart_take:
  assumes A: "frames_apart B m (pre @ fs) D A" and spare: "B \<notin> frame_of m ` set pre"
    and same: "\<And>a. a \<in> A \<Longrightarrow> walk m' a = walk m a" "frame_of m' = frame_of m"
      "table_frames m' \<subseteq> table_frames m \<union> frame_of m ` set pre"
  shows "frames_apart B m' fs D A"
  unfolding frames_apart_def
proof
  fix a assume a: "a \<in> A"
  then obtain f where f: "walk m a = Some f" "f \<notin> table_frames m" "f = B \<or> f \<in> D \<and> f \<notin> frame_of m ` set (pre @ fs)"
    using A unfolding frames_apart_def by blast
  then have "f \<notin> frame_of m ` set pre" using spare by auto
  then show "\<exists>f. walk m' a = Some f \<and> f \<notin> table_frames m' \<and> (f = B \<or> f \<in> D \<and> f \<notin> frame_of m' ` set fs)"
    using f same(1) [OF a] same(2,3) by (intro exI [of _ f]) auto
qed

text \<open>
  The state after the pages \<open>dn\<close>: \<open>q\<close> new pages of descriptors were mapped, \<open>k\<close> is the number of
  descriptors that are left at \<open>p\<close>. \<open>u\<close> says which pages are in use, \<open>K\<close> are the frames of the tables
  at the start and \<open>m0\<close> the machine at the start; \<open>b\<close> is the bootstrap page.
\<close>

definition filling :: "u32 \<Rightarrow> (u32 \<Rightarrow> bool) \<Rightarrow> u32 set \<Rightarrow> machine \<Rightarrow> u32 list \<Rightarrow> u32 list \<Rightarrow> u32 list \<Rightarrow> nat \<Rightarrow>
    nat \<Rightarrow> u32 \<times> u32 \<times> memory \<Rightarrow> bool" where
  "filling b u K m0 dn us fs q k = (\<lambda>(p, n, s).
     let m = mach s in
     vm_ok m us fs \<and> heads m = heads m0 \<and> table_frames m \<subseteq> K \<union> set dn \<and>
     mset (map (frame_of m) (us @ fs)) = add_mset (b - KernelVirtualBase) (mset dn) \<and>
     b \<in> set us \<and> frame_of m b = b - KernelVirtualBase \<and> (\<forall>x \<in> set fs. \<not> u (frame_of m x)) \<and>
     length us \<le> 1 + length (filter u dn) + 2 * q \<and>
     n = of_nat k \<and> k \<le> 341 \<and> length dn + k = 340 + 341 * q \<and>
     unat (mapEnd s) = unat MapStart - q * 4096 \<and>
     set us \<union> set fs \<subseteq> places b (mapEnd s) \<and>
     (\<forall>i < k. p + of_nat i * PhysicalPageSize \<in> places b (mapEnd s) - set us - set fs) \<and>
     frames_apart (b - KernelVirtualBase) m fs (set dn) (places b (mapEnd s)) \<and>
     spare_last (b - KernelVirtualBase) m fs (set dn) \<and>
     (\<forall>a. addressToPdeIndex a < 1023 \<longrightarrow> a < mapEnd s \<or> MapStart \<le> a \<longrightarrow> walk m a = walk m0 a))"

lemma unat_MapStart: "unat MapStart = 4290707456"
  by (simp add: MapStart_def PageTableBase_def KernelStackSize_def)

lemma places_mono: "lo' \<le> lo \<Longrightarrow> places b lo \<subseteq> places b lo'"
  by (auto simp: places_def)

lemma places_bounds:
  assumes "b \<noteq> 0" "unat b + 4096 \<le> 0xf0000000" "0xf0000000 \<le> lo"
  shows "0 \<notin> places b lo" "unat h < unat b \<Longrightarrow> h \<notin> places b lo"
    "x \<in> places b lo \<Longrightarrow> x < lo \<Longrightarrow> unat x < 0xf0000000"
proof -
  have lo: "0xf0000000 \<le> unat lo" using assms(3) by (simp add: word_le_nat_alt)
  show "0 \<notin> places b lo" using assms(1) lo by (auto simp: places_def word_le_nat_alt unat_eq_zero)
  show "unat h < unat b \<Longrightarrow> h \<notin> places b lo" using assms(2) lo by (auto simp: places_def word_le_nat_alt)
  show "x \<in> places b lo \<Longrightarrow> x < lo \<Longrightarrow> unat x < 0xf0000000"
    using assms(2) by (auto simp: places_def word_le_nat_alt word_less_nat_alt)
qed

lemma page_of_iff:
  assumes "page_of v = v" "unat v + 4096 \<le> 2 ^ 32 - 1"
  shows "page_of a = v \<longleftrightarrow> unat v \<le> unat a \<and> unat a < unat v + 4096"
  using in_pages_iff [OF assms(1), of 1 a] assms in_pages_Suc [OF assms(1), of 0 a] by simp

lemma places_index:
  assumes "unat b + 4096 \<le> 0xf0000000" "a \<in> places b lo"
  shows "addressToPdeIndex a < 1023"
proof -
  have "unat a < unat PageTableBase"
    using assms by (auto simp: places_def word_less_nat_alt unat_MapStart) (simp_all add: PageTableBase_def)
  then have "a < PageTableBase" by (simp only: word_less_nat_alt)
  then show ?thesis by (simp only: below_window)
qed

lemma filling_lengths:
  assumes "filling b u K m0 dn us fs q k (p, n, s)"
  shows "length us + length fs = Suc (length dn)"
proof -
  have "size (mset (map (frame_of (mach s)) (us @ fs))) = size (add_mset (b - KernelVirtualBase) (mset dn))"
    using assms by (simp only: filling_def Let_def case_prod_conv)
  then show ?thesis by simp
qed

text \<open>The frame of a free descriptor is one of the pages that were added.\<close>

lemma filling_free_frames:
  assumes "filling b u K m0 dn us fs q k (p, n, s)"
  shows "frame_of (mach s) ` set fs \<subseteq> set dn"
proof -
  let ?f = "frame_of (mach s)"
  have m: "mset (map ?f us) + mset (map ?f fs) = add_mset (b - KernelVirtualBase) (mset dn)"
    and b: "b \<in> set us" "?f b = b - KernelVirtualBase"
    using assms by (simp_all add: filling_def Let_def)
  have "mset us = add_mset b (mset us - {#b#})" using b(1) by simp
  then have "mset (map ?f us) = add_mset (?f b) (image_mset ?f (mset us - {#b#}))"
    by (metis image_mset_add_mset mset_map)
  then have "image_mset ?f (mset us - {#b#}) + mset (map ?f fs) = mset dn" using m b(2) by simp
  then have "mset (map ?f fs) \<subseteq># mset dn" by (metis mset_subset_eq_add_right)
  then show ?thesis using mset_subset_eqD by fastforce
qed

text \<open>What is fixed during the set-up: the bootstrap page and the sentinels lie below, the window for mappings is free.\<close>

definition room :: "u32 \<Rightarrow> u32 \<Rightarrow> machine \<Rightarrow> bool" where
  "room end_kernel b m0 \<longleftrightarrow> b \<noteq> 0 \<and> unat b + 4096 \<le> 0xf0000000 \<and> end_kernel < 0xf0000000 \<and>
     unat (fst (heads m0)) < unat b \<and> unat (snd (heads m0)) < unat b \<and>
     (\<forall>a. 0xf0000000 \<le> a \<longrightarrow> a < PageTableBase \<longrightarrow> walk m0 a = None)"

lemma fill_descriptor:
  assumes f: "filling b u K m0 dn us fs q (Suc k) (p, n, s)" and r: "room end_kernel b m0"
    and addr: "page_of addr = addr" "addr \<noteq> 0" "addr \<notin> set dn" "\<not> u addr \<Longrightarrow> addr \<notin> K"
    and spare: "addr = b - KernelVirtualBase \<Longrightarrow> \<not> u addr \<and> (\<forall>x \<in> set dn. u x)"
    and len: "length dn < 2 ^ 20"
  shows "\<exists>pg. add_page (u addr) p addr (pages (mach s)) = Inr pg \<and>
    filling b u K m0 (dn @ [addr]) (if u addr then p # us else us) (if u addr then fs else p # fs) q k
      (p + PhysicalPageSize, n - 1, s\<lparr>mach := (mach s)\<lparr>pages := pg\<rparr>\<rparr>)"
proof -
  let ?m = "mach s"
  have st: "vm_ok ?m us fs" "heads ?m = heads m0" "table_frames ?m \<subseteq> K \<union> set dn"
      "mset (map (frame_of ?m) (us @ fs)) = add_mset (b - KernelVirtualBase) (mset dn)"
      "b \<in> set us" "frame_of ?m b = b - KernelVirtualBase" "length us \<le> 1 + length (filter u dn) + 2 * q"
      "n = of_nat (Suc k)" "Suc k \<le> 341" "length dn + Suc k = 340 + 341 * q" "unat (mapEnd s) = unat MapStart - q * 4096"
      "set us \<union> set fs \<subseteq> places b (mapEnd s)"
      "\<And>i. i < Suc k \<Longrightarrow> p + of_nat i * PhysicalPageSize \<in> places b (mapEnd s) - set us - set fs"
      "\<And>a. addressToPdeIndex a < 1023 \<Longrightarrow> a < mapEnd s \<or> MapStart \<le> a \<Longrightarrow> walk ?m a = walk m0 a"
      "\<And>x. x \<in> set fs \<Longrightarrow> \<not> u (frame_of ?m x)"
      "frames_apart (b - KernelVirtualBase) ?m fs (set dn) (places b (mapEnd s))" "spare_last (b - KernelVirtualBase) ?m fs (set dn)"
    using f unfolding filling_def Let_def case_prod_conv by blast+
  have "341 * q < 1048917" using st(9,10) len by simp
  then have "q \<le> 3076" by arith
  then have "0xf0000000 \<le> unat (mapEnd s)" unfolding st(11) unat_MapStart by simp
  then have top: "0xf0000000 \<le> mapEnd s" by (simp add: word_le_nat_alt)
  note pb = places_bounds [OF _ _ top, of b]
  have b: "b \<noteq> 0" "unat b + 4096 \<le> 0xf0000000" "unat (fst (heads ?m)) < unat b" "unat (snd (heads ?m)) < unat b"
    using r st(2) by (simp_all add: room_def)
  have p: "p \<in> places b (mapEnd s)" "p \<notin> set us" "p \<notin> set fs" using st(13) [of 0] by simp_all
  have "p \<noteq> 0" using p(1) pb(1) [OF b(1,2)] by metis
  moreover have "p \<notin> set (headM (usedPages (pages ?m)) # us)"
    using p pb(2) [OF b(1,2) b(3)] by (auto simp: heads_def)
  moreover have "p \<notin> set (headM (freePages (pages ?m)) # fs)"
    using p pb(2) [OF b(1,2) b(4)] by (auto simp: heads_def)
  moreover have "Suc (length us + length fs) < 2 ^ 32" using filling_lengths [OF f] len by simp
  moreover have "addr \<noteq> 0 \<and> addr \<notin> table_frames ?m \<and> addr \<notin> frame_of ?m ` set fs" if "\<not> u addr"
    using addr that st(3) filling_free_frames [OF f] by blast
  ultimately obtain pg where pg: "add_page (u addr) p addr (pages ?m) = Inr pg"
      "vm_ok (?m\<lparr>pages := pg\<rparr>) (if u addr then p # us else us) (if u addr then fs else p # fs)"
      "frame_of (?m\<lparr>pages := pg\<rparr>) = (frame_of ?m)(p := addr)"
      "headM (usedPages pg) = headM (usedPages (pages ?m))" "headM (freePages pg) = headM (freePages (pages ?m))"
    using add_page_ok [OF st(1), of p addr "u addr"] addr(1) by blast
  let ?us = "if u addr then p # us else us" and ?fs = "if u addr then fs else p # fs"
  let ?m' = "?m\<lparr>pages := pg\<rparr>" and ?f' = "(frame_of ?m)(p := addr)"
  have "map ?f' us = map (frame_of ?m) us" "map ?f' fs = map (frame_of ?m) fs" using p(2,3) by auto
  then have same: "image_mset ?f' (mset us) = image_mset (frame_of ?m) (mset us)"
      "image_mset ?f' (mset fs) = image_mset (frame_of ?m) (mset fs)" by (metis mset_map)+
  have 1: "heads ?m' = heads m0" using pg(4,5) st(2) by (simp add: heads_def)
  have 2: "mset (map ?f' (?us @ ?fs)) = add_mset (b - KernelVirtualBase) (mset (dn @ [addr]))"
    using st(4) by (simp add: same)
  have 3: "b \<in> set ?us" "?f' b = b - KernelVirtualBase" using st(5,6) p(2) by auto
  have 4: "length ?us \<le> 1 + length (filter u (dn @ [addr])) + 2 * q" using st(7) by auto
  have 5: "n - 1 = of_nat k" using st(8) by simp
  have 6: "set ?us \<union> set ?fs \<subseteq> places b (mapEnd s)" using st(12) p(1) by auto
  have 7: "p + PhysicalPageSize + of_nat i * PhysicalPageSize \<in> places b (mapEnd s) - set ?us - set ?fs" if "i < k" for i
  proof -
    have e: "p + PhysicalPageSize + of_nat i * PhysicalPageSize = p + of_nat (Suc i) * PhysicalPageSize"
      by (simp add: algebra_simps)
    have "unat (of_nat (Suc i) * PhysicalPageSize) = Suc i * 12"
      using that st(9) by (simp add: PhysicalPageSize_def unat_word_ariths unat_of_nat del: of_nat_Suc)
    then have "of_nat (Suc i) * PhysicalPageSize \<noteq> 0" by (metis unat_0 mult_eq_0_iff old.nat.distinct(2) zero_neq_numeral)
    then have "p + of_nat (Suc i) * PhysicalPageSize \<noteq> p" by simp
    then show ?thesis using st(13) [of "Suc i"] that unfolding e by (auto simp del: of_nat_Suc)
  qed
  have 8: "length (dn @ [addr]) + k = 340 + 341 * q" "k \<le> 341" using st(9,10) by simp_all
  have 9: "table_frames ?m' \<subseteq> K \<union> set (dn @ [addr])" using st(3) by auto
  have 10: "\<forall>x \<in> set ?fs. \<not> u (?f' x)" using st(15) p(3) by auto
  have imgs: "?f' ` set ?fs \<subseteq> insert addr (frame_of ?m ` set fs)" by auto
  have 11: "frames_apart (b - KernelVirtualBase) ?m' ?fs (set (dn @ [addr])) (places b (mapEnd s))"
    unfolding frames_apart_def
  proof
    fix a assume "a \<in> places b (mapEnd s)"
    then obtain f where f: "walk ?m a = Some f" "f \<notin> table_frames ?m"
        "f = b - KernelVirtualBase \<or> f \<in> set dn \<and> f \<notin> frame_of ?m ` set fs"
      using st(16) unfolding frames_apart_def by blast
    then have "f = b - KernelVirtualBase \<or> f \<in> set (dn @ [addr]) \<and> f \<notin> ?f' ` set ?fs" using addr(3) imgs by auto
    then show "\<exists>f. walk ?m' a = Some f \<and> f \<notin> table_frames ?m' \<and>
        (f = b - KernelVirtualBase \<or> f \<in> set (dn @ [addr]) \<and> f \<notin> frame_of ?m' ` set ?fs)"
      using f(1,2) by (simp add: pg(3))
  qed
  have 12: "spare_last (b - KernelVirtualBase) ?m' ?fs (set (dn @ [addr]))"
  proof (cases "addr = b - KernelVirtualBase")
    case True
    have "fs = []"
    proof (rule ccontr)
      assume "fs \<noteq> []"
      then have "hd fs \<in> set fs" by simp
      moreover from this have "frame_of ?m (hd fs) \<in> set dn" using filling_free_frames [OF f] by blast
      ultimately show False using st(15) spare [OF True] by blast
    qed
    then show ?thesis using spare [OF True] True by (simp add: spare_last_def pg(3))
  next
    case False
    have "fs \<noteq> [] \<Longrightarrow> last fs \<noteq> p" using p(3) last_in_set by metis
    then show ?thesis using st(17) False by (auto simp: spare_last_def pg(3))
  qed
  have "filling b u K m0 (dn @ [addr]) ?us ?fs q k (p + PhysicalPageSize, n - 1, s\<lparr>mach := ?m'\<rparr>)"
    unfolding filling_def Let_def case_prod_conv
    using pg(2) 1 2 3 4 5 6 7 8 9 10 11 12 st(11,14) by (simp add: pg(3))
  then show ?thesis using pg(1) by blast
qed

lemma filling_top:
  assumes "filling b u K m0 dn us fs q k (p, n, s)" "length dn < 2 ^ 20"
  shows "0xf0001000 \<le> unat (mapEnd s)" "page_of (mapEnd s) = mapEnd s" "mapEnd s \<le> MapStart"
proof -
  have st: "length dn + k = 340 + 341 * q" "k \<le> 341" "unat (mapEnd s) = unat MapStart - q * 4096"
    using assms(1) unfolding filling_def Let_def case_prod_conv by blast+
  have "341 * q < 1048917" using st(1,2) assms(2) by simp
  then have q: "q \<le> 3076" by arith
  show "0xf0001000 \<le> unat (mapEnd s)" using q unfolding st(3) unat_MapStart by simp
  show "mapEnd s \<le> MapStart" using st(3) by (simp add: word_le_nat_alt)
  have "unat (mapEnd s) = (1047536 - q) * 4096" using q unfolding st(3) unat_MapStart by simp
  then have "unat (page_of (mapEnd s)) = unat (mapEnd s)" by (simp add: unat_page_of)
  then show "page_of (mapEnd s) = mapEnd s" by (simp add: word_unat_eq_iff)
qed

lemma fill_refill:
  assumes f: "filling b u K m0 dn us fs q 0 (p, n, s)" and r: "room end_kernel b m0"
    and used: "length (filter u dn) \<le> 336" and len: "length dn < 2 ^ 20"
  shows "\<exists>v us' fs' s'. new_structures end_kernel s = Inr (v, 341, s') \<and>
    filling b u K m0 dn us' fs' (Suc q) 341 (v, 341, s')"
proof -
  let ?m = "mach s" and ?v = "mapEnd s - PageSize"
  have st: "vm_ok ?m us fs" "heads ?m = heads m0" "table_frames ?m \<subseteq> K \<union> set dn"
      "mset (map (frame_of ?m) (us @ fs)) = add_mset (b - KernelVirtualBase) (mset dn)"
      "b \<in> set us" "frame_of ?m b = b - KernelVirtualBase" "length us \<le> 1 + length (filter u dn) + 2 * q"
      "length dn = 340 + 341 * q" "unat (mapEnd s) = unat MapStart - q * 4096"
      "set us \<union> set fs \<subseteq> places b (mapEnd s)"
      "\<And>a. addressToPdeIndex a < 1023 \<Longrightarrow> a < mapEnd s \<or> MapStart \<le> a \<Longrightarrow> walk ?m a = walk m0 a"
      "\<And>x. x \<in> set fs \<Longrightarrow> \<not> u (frame_of ?m x)"
      "frames_apart (b - KernelVirtualBase) ?m fs (set dn) (places b (mapEnd s))" "spare_last (b - KernelVirtualBase) ?m fs (set dn)"
    using f unfolding filling_def Let_def case_prod_conv by auto
  note top = filling_top [OF f len]
  have uv: "unat ?v = unat (mapEnd s) - 4096" using top(1) by (simp add: unat_sub word_le_nat_alt PageSize_def)
  then have v: "0xf0000000 \<le> ?v" "?v < mapEnd s" using top(1) by (simp_all add: word_le_nat_alt word_less_nat_alt)
  have "3 \<le> length fs" using filling_lengths [OF f] st(7,8) used by linarith
  then obtain x y fs1 where fs: "fs = x # y # fs1" "fs1 \<noteq> []" by (cases fs; cases "tl fs"; cases "tl (tl fs)") auto
  have below: "?v < PageTableBase"
    using v(2) top(3) by (auto simp: word_less_nat_alt word_le_nat_alt unat_MapStart) (simp add: PageTableBase_def)
  have pv: "page_of ?v = ?v" by (rule page_of_diff [OF PageSize_aligned top(2)])
  have idx: "addressToPdeIndex ?v < 1023" using below by (simp add: below_window)
  have "walk ?m ?v = None" using st(11) [OF idx] v below r by (simp add: room_def)
  moreover have "vm_ok ?m us (x # y # fs1)" using st(1) by (simp add: fs)
  ultimately obtain m' us' fs' where m': "map_fresh ''ppage != 0'' 0 ?v ?m = Inr m'" "vm_ok m' us' fs'"
      "us' = x # us \<and> fs' = y # fs1 \<or> us' = y # x # us \<and> fs' = fs1"
      "\<And>a. addressToPdeIndex a < 1023 \<Longrightarrow> walk m' a = (if page_of a = ?v then Some (frame_of ?m x) else walk ?m a)"
      "frame_of m' = frame_of ?m" "table_frames m' \<subseteq> insert (frame_of ?m y) (table_frames ?m)" "heads m' = heads ?m"
    using map_fresh_vm [OF _ pv idx, of ?m us x y fs1 0 "''ppage != 0''"] by auto
  let ?s = "s\<lparr>mapEnd := ?v, mach := m'\<rparr>"
  have "end_kernel < ?v" using r v(1) by (auto simp: room_def intro: less_le_trans)
  from new_structures_fresh [OF this m'(1)]
  have new: "new_structures end_kernel s = Inr (?v, 341, ?s)" by (simp add: PageSize_def PhysicalPageSize_def)
  have ms: "mset us' + mset fs' = mset us + mset fs" using m'(3) by (auto simp: fs)
  then have sets: "set us' \<union> set fs' = set us \<union> set fs" by (metis set_mset_mset set_mset_union)
  have 1: "mset (map (frame_of m') (us' @ fs')) = add_mset (b - KernelVirtualBase) (mset dn)"
    using st(4) ms m'(5) by (metis mset_append mset_map)
  have 2: "table_frames m' \<subseteq> K \<union> set dn" using m'(6) st(3) filling_free_frames [OF f] by (auto simp: fs)
  have 3: "length us' \<le> 1 + length (filter u dn) + 2 * Suc q" using m'(3) st(7) by auto
  have 4: "unat ?v = unat MapStart - Suc q * 4096" using uv st(9) by simp
  have 5: "set us' \<union> set fs' \<subseteq> places b ?v" unfolding sets using st(10) places_mono [OF less_imp_le [OF v(2)], of b] by blast
  have 6: "?v + of_nat i * PhysicalPageSize \<in> places b ?v - set us' - set fs'" if i: "i < 341" for i
  proof -
    let ?x = "?v + of_nat i * PhysicalPageSize"
    have "unat (of_nat i * PhysicalPageSize :: u32) = i * 12"
      using i by (simp add: PhysicalPageSize_def unat_word_ariths unat_of_nat)
    moreover have "unat ?v + i * 12 < 2 ^ 32" using i uv unat_u32_less [of "mapEnd s"] top(1) by simp
    ultimately have x: "unat ?x = unat ?v + i * 12" by (simp add: unat_word_ariths)
    have lt: "?x < mapEnd s" using x i uv top(1) by (simp add: word_less_nat_alt)
    have big: "0xf0000000 \<le> unat ?x" using x v(1) by (simp add: word_le_nat_alt)
    have "?x \<notin> places b (mapEnd s)"
    proof
      assume "?x \<in> places b (mapEnd s)"
      moreover have "0xf0000000 \<le> mapEnd s" using v by simp
      ultimately have "unat ?x < 0xf0000000" using places_bounds(3) [of b "mapEnd s" ?x] r lt by (simp add: room_def)
      then show False using big by simp
    qed
    moreover have "?v \<le> ?x" "?x < MapStart"
      using x less_le_trans [OF lt top(3)] by (simp_all add: word_le_nat_alt)
    then have "?x \<in> places b ?v" by (simp add: places_def)
    ultimately show ?thesis using st(10) sets by blast
  qed
  have 7: "walk m' a = walk m0 a" if "addressToPdeIndex a < 1023" "a < ?v \<or> MapStart \<le> a" for a
  proof -
    have "page_of a \<noteq> ?v"
    proof
      assume e: "page_of a = ?v"
      have "unat a = unat a div 4096 * 4096 + unat a mod 4096" by simp
      moreover have "unat a mod 4096 < 4096" by simp
      ultimately have "unat ?v \<le> unat a" "unat a < unat ?v + 4096" unfolding e [symmetric] unat_page_of by linarith+
      then show False using that(2) uv top(1,3) by (auto simp: word_less_nat_alt word_le_nat_alt)
    qed
    moreover have "a < mapEnd s \<or> MapStart \<le> a" using that(2) v(2) by (meson less_trans)
    ultimately show ?thesis using m'(4) [OF that(1)] st(11) [OF that(1)] by simp
  qed
  have bu: "b \<in> set us'" using st(5) m'(3) by auto
  have nu: "\<forall>x \<in> set fs'. \<not> u (frame_of ?m x)" using st(12) m'(3) by (auto simp: fs)
  let ?B = "b - KernelVirtualBase"
  have d: "distinct (map (frame_of ?m) fs)" "\<And>z. z \<in> set fs \<Longrightarrow> frame_of ?m z \<notin> table_frames ?m"
    using st(1) by (simp_all add: vm_ok_def)
  obtain pre where pre: "fs = pre @ fs'" "fs' \<noteq> []" "x \<in> set pre" "set pre \<subseteq> {x, y}" "y \<in> set pre \<or> y \<in> set fs'"
    using m'(3) fs by (elim disjE) (use that [of "[x]"] that [of "[x, y]"] in auto)
  have spare: "?B \<notin> frame_of ?m ` set [x, y]"
    by (rule spare_not_taken [of _ _ _ fs1 "set dn"]) (use st(14) d(1) filling_free_frames [OF f] fs in simp_all)
  have 8: "spare_last ?B m' fs' (set dn)" using spare_last_suffix [OF _ pre(2) m'(5)] st(14) pre(1) by simp
  have idx_of: "addressToPdeIndex a < 1023" if "a \<in> places b lo" for a lo
    using places_index [OF _ that] r by (simp add: room_def)
  have "frame_of ?m y \<notin> table_frames m'" if "y \<in> set fs'"
    using m'(2,5) that by (simp add: vm_ok_def)
  then have tf: "table_frames m' \<subseteq> table_frames ?m \<union> frame_of ?m ` set pre" using m'(6) pre(5) by blast
  have old: "frames_apart ?B m' fs' (set dn) (places b (mapEnd s) - {a. page_of a = ?v})"
  proof (rule frames_apart_take [OF _ _ _ m'(5) tf])
    show "frames_apart ?B ?m (pre @ fs') (set dn) (places b (mapEnd s) - {a. page_of a = ?v})"
      using st(13) pre(1) by (simp add: frames_apart_def)
    show "?B \<notin> frame_of ?m ` set pre" using spare pre(4) by auto
    show "walk m' a = walk ?m a" if "a \<in> places b (mapEnd s) - {a. page_of a = ?v}" for a
      using m'(4) [OF idx_of, of a] that by auto
  qed
  have 9: "frames_apart ?B m' fs' (set dn) (places b ?v)"
    unfolding frames_apart_def
  proof
    fix a assume a: "a \<in> places b ?v"
    show "\<exists>f. walk m' a = Some f \<and> f \<notin> table_frames m' \<and> (f = ?B \<or> f \<in> set dn \<and> f \<notin> frame_of m' ` set fs')"
    proof (cases "page_of a = ?v")
      case True
      have "frame_of ?m x \<notin> insert (frame_of ?m y) (table_frames ?m)" using d by (auto simp: fs(1))
      then have "frame_of ?m x \<notin> table_frames m'" using m'(6) by blast
      moreover have "frame_of ?m x \<in> set dn" using filling_free_frames [OF f] fs(1) by auto
      moreover have "frame_of ?m x \<notin> frame_of ?m ` set fs'" using d(1) pre(1,3) by auto
      ultimately show ?thesis using m'(4) [OF idx_of [OF a]] True m'(5) by simp
    next
      case False
      then have "a \<in> places b (mapEnd s)"
        using a v(2) uv top(1) page_of_iff [OF pv, of a] unat_u32_less [of "mapEnd s"]
        by (auto simp: places_def word_le_nat_alt word_less_nat_alt)
      then show ?thesis using old False unfolding frames_apart_def by blast
    qed
  qed
  have "filling b u K m0 dn us' fs' (Suc q) 341 (?v, 341, ?s)"
    unfolding filling_def Let_def case_prod_conv
    using m'(2,5,7) st(2,6,8) 1 2 3 4 5 6 7 8 9 bu nu by simp
  then show ?thesis using new by blast
qed

section \<open>The loops over the memory map\<close>

definition filled :: "u32 \<Rightarrow> (u32 \<Rightarrow> bool) \<Rightarrow> u32 set \<Rightarrow> machine \<Rightarrow> u32 list \<Rightarrow> u32 \<times> u32 \<times> memory \<Rightarrow> bool" where
  "filled b u K m0 dn st \<longleftrightarrow> (\<exists>us fs q k. filling b u K m0 dn us fs q k st)"

text \<open>What the pages of a memory map have to be for the set-up to go through.\<close>

definition addable :: "u32 \<Rightarrow> (u32 \<Rightarrow> bool) \<Rightarrow> u32 set \<Rightarrow> u32 list \<Rightarrow> bool" where
  "addable B u K dn \<longleftrightarrow> distinct dn \<and> (\<forall>x \<in> set dn. page_of x = x \<and> x \<noteq> 0 \<and> (u x \<or> x \<notin> K)) \<and>
     length (filter u dn) \<le> 336 \<and> \<not> u B \<and> (\<forall>xs ys. dn = xs @ B # ys \<longrightarrow> (\<forall>x \<in> set xs. u x))"

lemma addable_prefix: "addable B u K (xs @ ys) \<Longrightarrow> addable B u K xs"
proof -
  assume a: "addable B u K (xs @ ys)"
  have "\<forall>x \<in> set vs. u x" if "xs = vs @ B # ws" for vs ws
  proof -
    have "xs @ ys = vs @ B # (ws @ ys)" by (simp add: that)
    then show ?thesis using a unfolding addable_def by blast
  qed
  then show ?thesis using a by (auto simp: addable_def)
qed

lemma addable_length:
  assumes "addable B u K dn"
  shows "length dn < 2 ^ 20"
proof -
  let ?f = "\<lambda>x :: u32. unat x div 4096"
  have exact: "unat x = ?f x * 4096" if "x \<in> set dn" for x
    using assms that unat_page_of [of x] by (simp add: addable_def)
  have "inj_on ?f (set dn)" by (rule inj_onI) (metis exact word_unat_eq_iff)
  then have "card (set dn) = card (?f ` set dn)" by (simp add: card_image)
  moreover have "?f ` set dn \<subseteq> {1..<2 ^ 20}"
  proof
    fix y assume "y \<in> ?f ` set dn"
    then obtain x where x: "x \<in> set dn" "y = ?f x" by blast
    have "x \<noteq> 0" using assms x(1) by (auto simp: addable_def)
    then have "unat x \<noteq> 0" by (simp add: unat_eq_zero)
    then have "y \<noteq> 0" using exact [OF x(1)] x(2) by (cases "y = 0") auto
    moreover have "y < 2 ^ 20" using unat_u32_less [of x] x(2) by (simp add: less_mult_imp_div_less)
    ultimately show "y \<in> {1..<2 ^ 20}" by simp
  qed
  then have "card (?f ` set dn) \<le> card {1 :: nat..<2 ^ 20}" by (intro card_mono) simp_all
  moreover have "card (set dn) = length dn" using assms by (simp add: addable_def distinct_card)
  ultimately show ?thesis by simp
qed

lemma fill_page_ok:
  assumes "filled b u K m0 dn st" and r: "room end_kernel b m0" and add: "addable (b - KernelVirtualBase) u K (dn @ [addr])"
  shows "\<exists>st'. fill_page end_kernel u addr st = Inr st' \<and> filled b u K m0 (dn @ [addr]) st'"
proof -
  obtain p n s where st: "st = (p, n, s)" by (cases st)
  obtain us fs q k where f: "filling b u K m0 dn us fs q k (p, n, s)"
    using assms(1) unfolding filled_def st by blast
  have len: "length dn < 2 ^ 20" using addable_length [OF add] by simp
  have used: "length (filter u dn) \<le> 336" using add by (simp add: addable_def split: if_splits)
  have a: "page_of addr = addr" "addr \<noteq> 0" "addr \<notin> set dn" "\<not> u addr \<Longrightarrow> addr \<notin> K"
    using add by (auto simp: addable_def)
  have spare: "\<not> u addr \<and> (\<forall>x \<in> set dn. u x)" if "addr = b - KernelVirtualBase"
    using add that unfolding addable_def by blast
  have "\<exists>p1 n1 s1 us1 fs1 q1 k1. (if n = 0 then new_structures end_kernel s else Inr (p, n, s)) = Inr (p1, n1, s1) \<and>
      filling b u K m0 dn us1 fs1 q1 (Suc k1) (p1, n1, s1)"
  proof (cases k)
    case 0
    then have "n = 0" using f by (simp add: filling_def Let_def)
    have "Suc 340 = (341 :: nat)" by simp
    then show ?thesis using fill_refill [OF f [unfolded 0] r used len] \<open>n = 0\<close> by metis
  next
    case (Suc k1)
    have n: "n = of_nat k" "k \<le> 341" using f by (simp_all add: filling_def Let_def)
    then have "unat n = k" by (simp add: unat_of_nat)
    then have "n \<noteq> 0" using Suc by auto
    then show ?thesis using f Suc by auto
  qed
  then obtain p1 n1 s1 us1 fs1 q1 k1 where
      1: "(if n = 0 then new_structures end_kernel s else Inr (p, n, s)) = Inr (p1, n1, s1)"
      and f1: "filling b u K m0 dn us1 fs1 q1 (Suc k1) (p1, n1, s1)" by blast
  obtain pg where pg: "add_page (u addr) p1 addr (pages (mach s1)) = Inr pg"
      "filling b u K m0 (dn @ [addr]) (if u addr then p1 # us1 else us1) (if u addr then fs1 else p1 # fs1) q1 k1
        (p1 + PhysicalPageSize, n1 - 1, s1\<lparr>mach := (mach s1)\<lparr>pages := pg\<rparr>\<rparr>)"
    using fill_descriptor [OF f1 r a spare len] by blast
  have "fill_page end_kernel u addr st = Inr (p1 + PhysicalPageSize, n1 - 1, s1\<lparr>mach := (mach s1)\<lparr>pages := pg\<rparr>\<rparr>)"
    unfolding fill_page_def st case_prod_conv 1 bindr_def using pg(1) by simp
  then show ?thesis using pg(2) unfolding filled_def by blast
qed

definition range_pages :: "u32 \<times> u32 \<Rightarrow> u32 list" where
  "range_pages = (\<lambda>(a, sz). map (\<lambda>i. a + of_nat i * PageSize) [0..<(unat sz + 4095) div 4096])"

lemma fill_range:
  assumes f: "filled b u K m0 dn st" and r: "room end_kernel b m0" and add: "addable (b - KernelVirtualBase) u K (dn @ range_pages (a, sz))"
    and bound: "unat a + unat sz + 4095 < 2 ^ 32"
  shows "\<exists>st'. page_loop (fill_page end_kernel u) a (a + sz) st = Some (Inr st') \<and>
    filled b u K m0 (dn @ range_pages (a, sz)) st'"
proof -
  let ?n = "(unat sz + 4095) div 4096"
  let ?I = "\<lambda>i. filled b u K m0 (dn @ map (\<lambda>i. a + of_nat i * PageSize) [0..<i])"
  have rp: "range_pages (a, sz) = map (\<lambda>i. a + of_nat i * PageSize) [0..<?n]" by (simp add: range_pages_def)
  have step: "\<exists>t'. fill_page end_kernel u (a + of_nat i * PageSize) t = Inr t' \<and> ?I (Suc i) t'"
    if i: "i < ?n" and I: "?I i t" for i t
  proof -
    have "[0..<?n] = [0..<Suc i] @ [Suc i..<?n]" using i by (metis Suc_leI le_add_diff_inverse upt_add_eq_append zero_le)
    then have "dn @ range_pages (a, sz) = (dn @ map (\<lambda>i. a + of_nat i * PageSize) [0..<i] @ [a + of_nat i * PageSize]) @
        map (\<lambda>i. a + of_nat i * PageSize) [Suc i..<?n]"
      unfolding rp by simp
    then have "addable (b - KernelVirtualBase) u K ((dn @ map (\<lambda>i. a + of_nat i * PageSize) [0..<i]) @ [a + of_nat i * PageSize])"
      using add addable_prefix by (metis append_assoc)
    from fill_page_ok [OF I r this] show ?thesis by simp
  qed
  have n: "?n * 4096 \<le> unat sz + 4095" by (rule div_times_less_eq_dividend)
  have "unat (a + sz) = unat a + unat sz" using bound by (simp add: unat_word_ariths)
  moreover have "unat sz < (unat sz + 4095) div 4096 * 4096 + 1" by linarith
  moreover have "(?n - 1) * 4096 < unat sz" if "?n \<noteq> 0" using that by linarith
  moreover have base: "?I 0 st" using f by simp
  moreover have "unat a + ?n * 4096 < 2 ^ 32" using n bound by linarith
  ultimately show ?thesis
    unfolding rp using page_loop_until [where I = ?I and f = "fill_page end_kernel u" and n = ?n, OF step base] by simp
qed

lemma fill_ranges:
  assumes "filled b u K m0 dn st" and r: "room end_kernel b m0" and "addable (b - KernelVirtualBase) u K (dn @ concat (map range_pages es))"
    and "\<forall>(a, sz) \<in> set es. unat a + unat sz + 4095 < 2 ^ 32"
  shows "\<exists>st'. steps (\<lambda>(a, sz). page_loop (fill_page end_kernel u) a (a + sz)) es st = Some (Inr st') \<and>
    filled b u K m0 (dn @ concat (map range_pages es)) st'"
  using assms(1,3,4)
proof (induction es arbitrary: dn st)
  case (Cons e es)
  obtain a sz where e: "e = (a, sz)" by (cases e)
  have "addable (b - KernelVirtualBase) u K (dn @ range_pages (a, sz))"
    using Cons.prems(2) addable_prefix [of "b - KernelVirtualBase" u K "dn @ range_pages (a, sz)"] by (simp add: e)
  then obtain st1 where st1: "page_loop (fill_page end_kernel u) a (a + sz) st = Some (Inr st1)"
      "filled b u K m0 (dn @ range_pages (a, sz)) st1"
    using fill_range [OF Cons.prems(1) r] Cons.prems(3) unfolding e by fastforce
  have "\<exists>st'. steps (\<lambda>(a, sz). page_loop (fill_page end_kernel u) a (a + sz)) es st1 = Some (Inr st') \<and>
      filled b u K m0 ((dn @ range_pages (a, sz)) @ concat (map range_pages es)) st'"
    by (rule Cons.IH [OF st1(2)]) (use Cons.prems(2,3) e in auto)
  then show ?case using st1(1) by (simp add: e)
qed simp

lemma filled_start:
  assumes m: "tables_ok (mach s)" "table_frames (mach s) \<subseteq> K" and b: "page_of b = b" and r: "room end_kernel b (mach s)"
    and h: "fst (heads (mach s)) \<noteq> 0" "snd (heads (mach s)) \<noteq> 0" "fst (heads (mach s)) \<noteq> snd (heads (mach s))"
    and me: "mapEnd s = MapStart" and B: "b - KernelVirtualBase \<notin> K" "\<And>a. page_of a = b \<Longrightarrow> walk (mach s) a = Some (b - KernelVirtualBase)"
  shows "\<exists>pg. bootstrap_clusters b (pages (mach s)) = Inr pg \<and> room end_kernel b ((mach s)\<lparr>pages := pg\<rparr>) \<and>
    filled b u K ((mach s)\<lparr>pages := pg\<rparr>) [] (b + PhysicalPageSize, 340, s\<lparr>mach := (mach s)\<lparr>pages := pg\<rparr>\<rparr>)"
proof -
  let ?m = "mach s"
  have nb: "b \<noteq> 0" "b \<noteq> fst (heads ?m)" "b \<noteq> snd (heads ?m)" "unat b + 4096 \<le> 0xf0000000" using r by (auto simp: room_def)
  obtain pg where pg: "bootstrap_clusters b (pages ?m) = Inr pg" "alloc_repr pg [b] []"
      "getAddress (store pg b) = page_of (b - KernelVirtualBase)"
      "headM (usedPages pg) = headM (usedPages (pages ?m))" "headM (freePages pg) = headM (freePages (pages ?m))"
    using bootstrap_ok [of "pages ?m" b] h nb(1-3) by (auto simp: heads_def)
  let ?m' = "?m\<lparr>pages := pg\<rparr>"
  have hd: "heads ?m' = heads ?m" using pg(4,5) by (simp add: heads_def)
  have "page_of KernelVirtualBase = KernelVirtualBase" by (simp add: KernelVirtualBase_def page_of_def PageMask_def PageSize_def)
  then have fb: "frame_of ?m' b = b - KernelVirtualBase" using page_of_diff [OF _ b] pg(3) by (simp add: frame_of_def)
  have lo: "0xf0000000 \<le> MapStart" by (simp add: MapStart_def PageTableBase_def KernelStackSize_def)
  have window: "b + PhysicalPageSize + of_nat i * PhysicalPageSize \<in> places b MapStart - {b}" if "i < 340" for i
  proof -
    let ?d = "PhysicalPageSize + of_nat i * PhysicalPageSize"
    have d: "unat ?d = 12 + i * 12" using that by (simp add: PhysicalPageSize_def unat_word_ariths unat_of_nat)
    then have "unat (b + ?d) = unat b + (12 + i * 12)" using nb(4) that by (simp add: unat_word_ariths)
    moreover from this have "b + ?d \<noteq> b" by auto
    ultimately show ?thesis using that by (simp add: places_def add.assoc)
  qed
  have "walk ?m' a = Some (b - KernelVirtualBase)" if "a \<in> places b MapStart" for a
    using that B(2) [of a] page_of_iff [OF b, of a] nb(4) by (auto simp: places_def)
  then have apart: "frames_apart (b - KernelVirtualBase) ?m' [] {} (places b MapStart)"
    using B(1) m(2) by (auto simp: frames_apart_def)
  have "filling b u K ?m' [] [b] [] 0 340 (b + PhysicalPageSize, 340, s\<lparr>mach := ?m'\<rparr>)"
    unfolding filling_def Let_def case_prod_conv
    using m pg(2) hd fb me window apart by (simp add: vm_ok_def spare_last_def) (simp add: places_def)
  moreover have "room end_kernel b ?m'" using r hd by (simp add: room_def)
  ultimately show ?thesis using pg(1) unfolding filled_def by blast
qed

section \<open>Fresh pages\<close>

text \<open>What holds after \<open>i\<close> pages of such a loop.\<close>

definition fresh_upto :: "machine \<Rightarrow> u32 list \<Rightarrow> u32 list \<Rightarrow> u32 \<Rightarrow> nat \<Rightarrow> machine \<Rightarrow> bool" where
  "fresh_upto m us fs v i t \<longleftrightarrow> (\<exists>us' fs' pre. vm_ok t us' fs' \<and> mset (us' @ fs') = mset (us @ fs) \<and> fs = pre @ fs' \<and>
     length pre \<le> 2 * i \<and> frame_of t = frame_of m \<and> heads t = heads m \<and>
     table_frames t \<subseteq> table_frames m \<union> frame_of m ` set pre \<and>
     (\<forall>a. addressToPdeIndex a < 1023 \<longrightarrow>
        (if in_pages v i a then \<exists>f \<in> frame_of m ` set pre. walk t a = Some f \<and> f \<notin> table_frames t
         else walk t a = walk m a)))"

lemma fresh_step:
  assumes I: "fresh_upto m us fs v i t" and v: "page_of v = v" "unat v + n * 4096 \<le> unat PageTableBase"
    and free: "\<And>a. in_pages v n a \<Longrightarrow> walk m a = None" and len: "2 * n \<le> length fs" and eager: "flags AND FlagLazy = 0"
    and dis: "distinct (map (frame_of m) fs)" and i: "i < n"
  shows "\<exists>t'. map_fresh what flags (v + of_nat i * PageSize) t = Inr t' \<and> fresh_upto m us fs v (Suc i) t'"
proof -
  let ?v = "v + of_nat i * PageSize" and ?F = "frame_of m"
  obtain us1 fs1 pre where t: "vm_ok t us1 fs1" "mset (us1 @ fs1) = mset (us @ fs)" "fs = pre @ fs1" "length pre \<le> 2 * i"
      "frame_of t = ?F" "heads t = heads m" "table_frames t \<subseteq> table_frames m \<union> ?F ` set pre"
      "\<And>a. addressToPdeIndex a < 1023 \<Longrightarrow>
        (if in_pages v i a then \<exists>f \<in> ?F ` set pre. walk t a = Some f \<and> f \<notin> table_frames t else walk t a = walk m a)"
    using I unfolding fresh_upto_def by blast
  have "2 \<le> length fs1" using t(3,4) len i by simp
  then obtain x y fs2 where fs1: "fs1 = x # y # fs2" by (cases fs1; cases "tl fs1") auto
  have room: "unat v + i * 4096 < 2 ^ 32" using v(2) i by (simp add: PageTableBase_def)
  have "unat (of_nat i * PageSize :: u32) = i * 4096" using room by (simp add: PageSize_def unat_word_ariths unat_of_nat)
  moreover have pv: "page_of ?v = ?v" by (rule frame_aligned [OF v(1)])
  ultimately have iv: "\<not> in_pages v i ?v" "in_pages v n ?v" using i by (simp_all add: in_pages_def)
  have idx: "addressToPdeIndex ?v < 1023" by (rule in_pages_below [OF v iv(2)])
  have none: "walk t ?v = None" using t(8) [OF idx] iv free by simp
  have vm: "vm_ok t us1 (x # y # fs2)" using t(1) fs1 by simp
  obtain t' us' fs' where t': "map_fresh what flags ?v t = Inr t'" "vm_ok t' us' fs'"
      "us' = x # us1 \<and> fs' = y # fs2 \<or> us' = y # x # us1 \<and> fs' = fs2"
      "\<And>a. addressToPdeIndex a < 1023 \<Longrightarrow> walk t' a = (if page_of a = ?v then Some (frame_of t x) else walk t a)"
      "frame_of t' = frame_of t" "table_frames t' \<subseteq> insert (frame_of t y) (table_frames t)" "heads t' = heads t"
    using map_fresh_vm [OF vm pv idx none eager] by blast
  obtain pre' where pre': "fs = pre' @ fs'" "set pre \<subseteq> set pre'" "x \<in> set pre'" "length pre' \<le> 2 * Suc i"
      "y \<in> set pre' \<or> y \<in> set fs'"
    using t'(3) t(3,4) fs1 by (elim disjE) (use that [of "pre @ [x]"] that [of "pre @ [x, y]"] in auto)
  have y: "?F y \<in> ?F ` set pre' \<or> ?F y \<notin> table_frames t'"
    using pre'(5) t'(2,5) t(5) by (auto simp: vm_ok_def)
  have d: "?F y \<notin> ?F ` set pre" "?F x \<noteq> ?F y" "?F x \<notin> table_frames t"
    using dis vm t(3,5) fs1 by (auto simp: vm_ok_def)
  have snoc: "in_pages v (Suc i) a \<longleftrightarrow> in_pages v i a \<or> page_of a = ?v" for a by (rule in_pages_snoc [OF v(1) room])
  have "if in_pages v (Suc i) a then \<exists>f \<in> ?F ` set pre'. walk t' a = Some f \<and> f \<notin> table_frames t'
         else walk t' a = walk m a" if a: "addressToPdeIndex a < 1023" for a
  proof (cases "page_of a = ?v")
    case True
    have "?F x \<notin> table_frames t'" using d(2,3) t'(6) t(5) by auto
    then show ?thesis using True snoc t'(4) [OF a] t(5) pre'(3) by auto
  next
    case False
    then have w: "walk t' a = walk t a" "in_pages v (Suc i) a \<longleftrightarrow> in_pages v i a" using t'(4) [OF a] snoc by simp_all
    show ?thesis
    proof (cases "in_pages v i a")
      case True
      then obtain f where f: "f \<in> ?F ` set pre" "walk t a = Some f" "f \<notin> table_frames t" using t(8) [OF a] by auto
      have "f \<noteq> ?F y" using f(1) d(1) by blast
      then have "f \<notin> table_frames t'" using f(3) t'(6) unfolding t(5) by blast
      moreover have "f \<in> ?F ` set pre'" using f(1) pre'(2) by blast
      ultimately show ?thesis using True w f(2) by simp
    next
      case False
      then show ?thesis using w t(8) [OF a] by simp
    qed
  qed
  moreover have "table_frames t' \<subseteq> table_frames m \<union> ?F ` set pre'" using y t'(6) t(5,7) pre'(2) by auto
  moreover have "mset (us' @ fs') = mset (us @ fs)" using t'(3) t(2) [symmetric] fs1 by auto
  moreover have "frame_of t' = ?F" "heads t' = heads m" using t'(5,7) t(5,6) by simp_all
  ultimately have "fresh_upto m us fs v (Suc i) t'"
    unfolding fresh_upto_def using t'(2) pre'(1,4) by (intro exI [of _ us'] exI [of _ fs'] exI [of _ pre'] conjI allI impI)
  then show ?thesis using t'(1) by blast
qed

lemma fresh_loop:
  assumes vm: "vm_ok m us fs" and v: "page_of v = v" "unat v + n * 4096 \<le> unat PageTableBase"
    and free: "\<And>a. in_pages v n a \<Longrightarrow> walk m a = None" and len: "2 * n \<le> length fs" and eager: "flags AND FlagLazy = 0"
  shows "\<exists>t. page_loop (map_fresh what flags) v (v + of_nat n * PageSize) m = Some (Inr t) \<and> fresh_upto m us fs v n t"
proof -
  have base: "fresh_upto m us fs v 0 m"
    using vm unfolding fresh_upto_def by (intro exI [of _ us] exI [of _ fs] exI [of _ "[]"]) simp
  have dis: "distinct (map (frame_of m) fs)" using vm by (simp add: vm_ok_def)
  have bound: "unat v + n * 4096 < 2 ^ 32" using v(2) by (simp add: PageTableBase_def)
  have step: "\<exists>t'. map_fresh what flags (v + of_nat i * PageSize) t = Inr t' \<and> fresh_upto m us fs v (Suc i) t'"
    if "i < n" "fresh_upto m us fs v i t" for i t
    by (rule fresh_step [OF that(2) v free len eager dis that(1)])
  show ?thesis by (rule page_loop_steps [where I = "fresh_upto m us fs v" and f = "map_fresh what flags", OF step base bound])
qed

section \<open>Writing to a page that holds no table\<close>

lemma write_data:
  fixes m :: machine and f x :: u32
  assumes ok: "tables_ok m" and f: "page_of f = f" "f \<notin> table_frames m"
  defines "m' \<equiv> m\<lparr>pmem := (pmem m)(f := x)\<rparr>"
  shows "walk m' a = walk m a" "tables_ok m'" "table_frames m' = table_frames m"
proof -
  have dir: "dir_ok m" using ok by (simp add: tables_ok_def)
  have cr: "f \<noteq> cr3 m" using f(2) by (simp add: table_frames_def)
  have pd: "pd m' i = pd m i" if "unat i < 1024" for i
    using pd_upd_frame [OF dir f(1) cr _ that, of 0 x] by (simp add: m'_def)
  have pde: "pde_of m' a = pde_of m a" for a using pd [OF index_bounds(1)] by (simp add: pde_of_pd)
  have pte: "pte_of m' a = pte_of m a" if "present (pde_of m a)" for a
  proof -
    have "page_of (pde_of m a) \<in> table_frames m"
      using that dir pde_index_cases [of a] by (auto simp: pde_of_pd table_frames_def dir_ok_def)
    then have "page_of (pde_of m a) \<noteq> f" using f(2) by auto
    then have "page_of (pde_of m a) + addressToPteIndex a * 4 \<noteq> f + 0 * 4"
      using entry_inject [OF page_of_idem f(1) index_bounds(2) [of a], of 0] by simp
    then show ?thesis by (simp add: pte_of_def pde) (simp add: m'_def)
  qed
  show walk: "walk m' a = walk m a" for a
    using pte [of a] by (cases "present (pde_of m a)") (simp_all add: walk_alt pde_of_pd [symmetric] pde)
  have "cr3 m' = cr3 m" "tlb m' = tlb m" by (simp_all add: m'_def)
  then show "table_frames m' = table_frames m" using table_frames_cong pd less_1023 by blast
  have "dir_ok m'" using dir_ok_cong [OF dir \<open>cr3 m' = cr3 m\<close>] pd by blast
  then show "tables_ok m'" using ok walk \<open>tlb m' = tlb m\<close> by (simp add: tables_ok_def coherent_def)
qed

section \<open>The memory manager at boot\<close>

lemma fill_map_ok:
  assumes m: "tables_ok (mach s)" "table_frames (mach s) \<subseteq> K" and b: "page_of b = b" and r: "room end_kernel b (mach s)"
    and h: "fst (heads (mach s)) \<noteq> 0" "snd (heads (mach s)) \<noteq> 0" "fst (heads (mach s)) \<noteq> snd (heads (mach s))"
    and me: "mapEnd s = MapStart" and B: "b - KernelVirtualBase \<notin> K" "\<And>a. page_of a = b \<Longrightarrow> walk (mach s) a = Some (b - KernelVirtualBase)"
    and add: "addable (b - KernelVirtualBase) u K (concat (map range_pages (memoryMap s)))"
    and es: "\<forall>(a, sz) \<in> set (memoryMap s). unat a + unat sz + 4095 < 2 ^ 32"
  shows "\<exists>pg p n s' us fs q k. bootstrap_clusters b (pages (mach s)) = Inr pg \<and>
    fill_map end_kernel u (b + PhysicalPageSize, 340, s\<lparr>mach := (mach s)\<lparr>pages := pg\<rparr>\<rparr>) = Some (Inr (p, n, s')) \<and>
    filling b u K ((mach s)\<lparr>pages := pg\<rparr>) (concat (map range_pages (memoryMap s))) us fs q k (p, n, s')"
proof -
  obtain pg where pg: "bootstrap_clusters b (pages (mach s)) = Inr pg" "room end_kernel b ((mach s)\<lparr>pages := pg\<rparr>)"
      "filled b u K ((mach s)\<lparr>pages := pg\<rparr>) [] (b + PhysicalPageSize, 340, s\<lparr>mach := (mach s)\<lparr>pages := pg\<rparr>\<rparr>)"
    using filled_start [OF m b r h me B] by blast
  have "addable (b - KernelVirtualBase) u K ([] @ concat (map range_pages (memoryMap s)))" using add by simp
  from fill_ranges [OF pg(3,2) this es] obtain st' where
    "steps (\<lambda>(a, sz). page_loop (fill_page end_kernel u) a (a + sz)) (memoryMap s)
       (b + PhysicalPageSize, 340, s\<lparr>mach := (mach s)\<lparr>pages := pg\<rparr>\<rparr>) = Some (Inr st')"
    "filled b u K ((mach s)\<lparr>pages := pg\<rparr>) (concat (map range_pages (memoryMap s))) st'" by auto
  then show ?thesis using pg(1) by (cases st') (auto simp: fill_map_def filled_def)
qed

lemma boot_areas:
  "in_pages MapStart 16 a \<longleftrightarrow> MapStart \<le> a \<and> a < PageTableBase"
  "in_pages CodeStart 1024 a \<longleftrightarrow> CodeStart \<le> a \<and> a < CodeStart + CodeSize"
  "page_of MapStart = MapStart" "page_of CodeStart = CodeStart"
proof -
  show al: "page_of MapStart = MapStart" "page_of CodeStart = CodeStart"
    by (simp_all add: MapStart_def CodeStart_def PageTableBase_def KernelStackSize_def page_of_def PageMask_def PageSize_def)
  show "in_pages MapStart 16 a \<longleftrightarrow> MapStart \<le> a \<and> a < PageTableBase"
    using in_pages_iff [OF al(1), of 16 a]
    by (simp add: unat_MapStart word_le_nat_alt word_less_nat_alt) (simp add: PageTableBase_def)
  show "in_pages CodeStart 1024 a \<longleftrightarrow> CodeStart \<le> a \<and> a < CodeStart + CodeSize"
    using in_pages_iff [OF al(2), of 1024 a] by (simp add: CodeStart_def CodeSize_def word_le_nat_alt word_less_nat_alt)
qed

text \<open>The two areas, from a state in which the descriptors are set up.\<close>

lemma areas_mapped:
  assumes vm: "vm_ok m us fs" and len: "2080 \<le> length fs"
    and free: "\<And>a. MapStart \<le> a \<Longrightarrow> a < PageTableBase \<Longrightarrow> walk m a = None"
      "\<And>a. CodeStart \<le> a \<Longrightarrow> a < CodeStart + CodeSize \<Longrightarrow> walk m a = None"
  shows "\<exists>t1 t2 m' us' fs'. page_loop (map_fresh ''stackPage != 0'' 0) MapStart PageTableBase m = Some (Inr t1) \<and>
    page_loop (map_fresh ''page != 0'' FlagUser) CodeStart (CodeStart + CodeSize) t1 = Some (Inr t2) \<and>
    vwrite CodeStart 0x80cdc031 t2 = Inr m' \<and> vm_ok m' us' fs' \<and> mset (us' @ fs') = mset (us @ fs) \<and>
    frame_of m' = frame_of m \<and> vread CodeStart m' = Inr 0x80cdc031 \<and>
    (\<exists>pre. fs = pre @ fs' \<and> length pre \<le> 2080 \<and> table_frames m' \<subseteq> table_frames m \<union> frame_of m ` set pre \<and>
      (\<forall>a. addressToPdeIndex a < 1023 \<longrightarrow>
        (if MapStart \<le> a \<and> a < PageTableBase \<or> CodeStart \<le> a \<and> a < CodeStart + CodeSize
         then \<exists>f \<in> frame_of m ` set pre. walk m' a = Some f else walk m' a = walk m a)))"
proof -
  have ends: "PageTableBase = MapStart + of_nat 16 * PageSize" "CodeStart + CodeSize = CodeStart + of_nat 1024 * PageSize"
    by (simp_all add: PageTableBase_def MapStart_def KernelStackSize_def CodeStart_def CodeSize_def PageSize_def)
  have tops: "unat MapStart + 16 * 4096 \<le> unat PageTableBase" "unat CodeStart + 1024 * 4096 \<le> unat PageTableBase"
    by (simp_all add: unat_MapStart PageTableBase_def CodeStart_def)
  have fl: "0 AND FlagLazy = 0" "FlagUser AND FlagLazy = 0" by (simp_all add: FlagUser_def FlagLazy_def)
  have n1: "2 * 16 \<le> length fs" using len by simp
  have f1: "walk m a = None" if "in_pages MapStart 16 a" for a using free(1) that boot_areas(1) by blast
  obtain t1 where t1: "page_loop (map_fresh ''stackPage != 0'' 0) MapStart PageTableBase m = Some (Inr t1)"
      "fresh_upto m us fs MapStart 16 t1"
    using fresh_loop [OF vm boot_areas(3) tops(1) f1 n1 fl(1), of "''stackPage != 0''"] unfolding ends(1) by blast
  obtain us1 fs1 pre1 where s1: "vm_ok t1 us1 fs1" "mset (us1 @ fs1) = mset (us @ fs)" "fs = pre1 @ fs1"
      "length pre1 \<le> 2 * 16" "frame_of t1 = frame_of m" "table_frames t1 \<subseteq> table_frames m \<union> frame_of m ` set pre1"
      "\<And>a. addressToPdeIndex a < 1023 \<Longrightarrow> (if in_pages MapStart 16 a
         then \<exists>f \<in> frame_of m ` set pre1. walk t1 a = Some f \<and> f \<notin> table_frames t1 else walk t1 a = walk m a)"
    using t1(2) unfolding fresh_upto_def by blast
  have n2: "2 * 1024 \<le> length fs1" using s1(3,4) len by simp
  have apart: "\<not> in_pages MapStart 16 a" if "in_pages CodeStart 1024 a" for a
    using that unfolding boot_areas by (auto simp: word_le_nat_alt word_less_nat_alt unat_MapStart CodeStart_def CodeSize_def)
  have low: "addressToPdeIndex a < 1023" if "in_pages CodeStart 1024 a" for a
    by (rule in_pages_below [OF boot_areas(4) tops(2) that])
  have f2: "walk t1 a = None" if "in_pages CodeStart 1024 a" for a
    using s1(7) [OF low [OF that]] apart [OF that] free(2) that boot_areas(2) by simp
  obtain t2 where t2: "page_loop (map_fresh ''page != 0'' FlagUser) CodeStart (CodeStart + CodeSize) t1 = Some (Inr t2)"
      "fresh_upto t1 us1 fs1 CodeStart 1024 t2"
    using fresh_loop [OF s1(1) boot_areas(4) tops(2) f2 n2 fl(2), of "''page != 0''"] unfolding ends(2) by blast
  obtain us2 fs2 pre2 where s2: "vm_ok t2 us2 fs2" "mset (us2 @ fs2) = mset (us1 @ fs1)" "fs1 = pre2 @ fs2"
      "frame_of t2 = frame_of t1" "length pre2 \<le> 2 * 1024" "table_frames t2 \<subseteq> table_frames t1 \<union> frame_of t1 ` set pre2"
      "\<And>a. addressToPdeIndex a < 1023 \<Longrightarrow> (if in_pages CodeStart 1024 a
         then \<exists>f \<in> frame_of t1 ` set pre2. walk t2 a = Some f \<and> f \<notin> table_frames t2 else walk t2 a = walk t1 a)"
    using t2(2) unfolding fresh_upto_def by blast
  have code: "in_pages CodeStart 1024 CodeStart" by (simp add: in_pages_def boot_areas(4))
  obtain f where f: "walk t2 CodeStart = Some f" "f \<in> frame_of t1 ` set pre2" "f \<notin> table_frames t2"
    using s2(7) [OF low [OF code]] code by auto
  have pf: "page_of f = f" using f(2) getAddress_aligned by (auto simp: frame_of_def)
  have ok: "tables_ok t2" using s2(1) by (simp add: vm_ok_def)
  have off: "offset_of CodeStart = 0" by (simp add: offset_of_def CodeStart_def PageMask_def PageSize_def)
  let ?m = "t2\<lparr>pmem := (pmem t2)(f := 0x80cdc031)\<rparr>"
  note wd = write_data [OF ok pf f(3), of "0x80cdc031"]
  have w: "vwrite CodeStart 0x80cdc031 t2 = Inr ?m"
    using translate_coherent [of t2 CodeStart] ok f(1) off by (simp add: vwrite_def tables_ok_def)
  have "translate ?m CodeStart = Some f"
    using translate_coherent [of ?m CodeStart] wd f(1) off by (simp add: tables_ok_def)
  then have rd: "vread CodeStart ?m = Inr 0x80cdc031" by (simp add: vread_def)
  have fr: "frame_of ?m = frame_of m" using s2(4) s1(5) by (simp add: frame_of_def fun_eq_iff)
  have "vm_ok ?m us2 fs2" using s2(1) wd(2,3) fr s2(4) s1(5) by (simp add: vm_ok_def)
  moreover have "if MapStart \<le> a \<and> a < PageTableBase \<or> CodeStart \<le> a \<and> a < CodeStart + CodeSize
       then \<exists>f \<in> frame_of m ` set (pre1 @ pre2). walk ?m a = Some f else walk ?m a = walk m a" if a: "addressToPdeIndex a < 1023" for a
    using s2(7) [OF a] s1(7) [OF a] s1(5) unfolding wd(1) boot_areas(1,2) [symmetric] by (auto split: if_splits)
  moreover have "table_frames ?m \<subseteq> table_frames m \<union> frame_of m ` set (pre1 @ pre2)"
    unfolding wd(3) using s1(5,6) s2(6) by auto
  moreover have "mset (us2 @ fs2) = mset (us @ fs)" "fs = (pre1 @ pre2) @ fs2" "length (pre1 @ pre2) \<le> 2080"
    using s1(2-4) s2(2,3,5) by simp_all
  ultimately show ?thesis using t1(1) t2(1) w rd fr
    by (intro exI [of _ t1] exI [of _ t2] exI [of _ ?m] exI [of _ us2] exI [of _ fs2] exI [of _ "pre1 @ pre2"] conjI allI impI)
qed

text \<open>
  The descriptors and what the kernel writes apart from them: each descriptor lies in mapped memory, in
  a frame \<open>f\<close> that holds no table and is not mapped in the stack or in the code area. The frame is not
  free, except for \<open>B\<close>, the frame of the bootstrap page. No descriptor crosses the end of its page.
\<close>

definition descriptors_safe :: "u32 \<Rightarrow> memory \<Rightarrow> u32 list \<Rightarrow> u32 list \<Rightarrow> bool" where
  "descriptors_safe B s us fs \<longleftrightarrow> (\<forall>x \<in> set us \<union> set fs. \<exists>f. translate (mach s) x = Some (f + offset_of x) \<and>
     page_of f = f \<and> f \<notin> table_frames (mach s) \<and> (f = B \<or> f \<notin> frame_of (mach s) ` set fs) \<and>
     (\<forall>a. MapStart \<le> a \<and> a < PageTableBase \<or> CodeStart \<le> a \<and> a < CodeStart + CodeSize \<longrightarrow>
       translate (mach s) a \<noteq> Some (f + offset_of a)))"

lemma areas_below_window:
  assumes "MapStart \<le> a \<and> a < PageTableBase \<or> CodeStart \<le> a \<and> a < CodeStart + CodeSize"
  shows "addressToPdeIndex a < 1023"
proof -
  have "in_pages MapStart 16 a \<or> in_pages CodeStart 1024 a" using assms by (simp only: boot_areas)
  moreover have "unat MapStart + 16 * 4096 \<le> unat PageTableBase" "unat CodeStart + 1024 * 4096 \<le> unat PageTableBase"
    by (simp_all add: unat_MapStart PageTableBase_def CodeStart_def)
  ultimately show ?thesis using in_pages_below boot_areas(3,4) by blast
qed

lemma descriptors_safeI:
  assumes A: "set us \<union> set fs \<subseteq> A" "frames_apart B (mach s) fs D A" and co: "coherent (mach s)"
    and al: "page_of B = B" "\<And>f. f \<in> D \<Longrightarrow> page_of f = f"
    and area: "\<And>a. addressToPdeIndex a < 1023 \<Longrightarrow> MapStart \<le> a \<and> a < PageTableBase \<or> CodeStart \<le> a \<and> a < CodeStart + CodeSize \<Longrightarrow>
      \<exists>h \<in> H. walk (mach s) a = Some h"
    and apart: "\<And>x f. x \<in> A \<Longrightarrow> walk (mach s) x = Some f \<Longrightarrow> f \<notin> H"
  shows "descriptors_safe B s us fs"
  unfolding descriptors_safe_def
proof
  note tr = translate_coherent [OF co]
  fix d assume "d \<in> set us \<union> set fs"
  then have d: "d \<in> A" using A(1) by blast
  then obtain f where f: "walk (mach s) d = Some f" "f \<notin> table_frames (mach s)"
      "f = B \<or> f \<in> D \<and> f \<notin> frame_of (mach s) ` set fs"
    using A(2) unfolding frames_apart_def by blast
  have "translate (mach s) a \<noteq> Some (f + offset_of a)"
    if a: "MapStart \<le> a \<and> a < PageTableBase \<or> CodeStart \<le> a \<and> a < CodeStart + CodeSize" for a
  proof -
    obtain h where "h \<in> H" "walk (mach s) a = Some h" using area [OF areas_below_window [OF a] a] by blast
    then show ?thesis using apart [OF d f(1)] by (auto simp: tr)
  qed
  moreover have "page_of f = f" using f(3) al by blast
  ultimately show "\<exists>f. translate (mach s) d = Some (f + offset_of d) \<and> page_of f = f \<and> f \<notin> table_frames (mach s) \<and>
      (f = B \<or> f \<notin> frame_of (mach s) ` set fs) \<and>
      (\<forall>a. MapStart \<le> a \<and> a < PageTableBase \<or> CodeStart \<le> a \<and> a < CodeStart + CodeSize \<longrightarrow>
        translate (mach s) a \<noteq> Some (f + offset_of a))"
    using f by (intro exI [of _ f] conjI) (auto simp: tr)
qed

lemma memory_init_ok:
  assumes m: "tables_ok (mach s)" "table_frames (mach s) \<subseteq> K" and b: "page_of (first_free_page ek em) = first_free_page ek em"
    and r: "room ek (first_free_page ek em) (mach s)"
    and h: "fst (heads (mach s)) \<noteq> 0" "snd (heads (mach s)) \<noteq> 0" "fst (heads (mach s)) \<noteq> snd (heads (mach s))"
    and me: "mapEnd s = MapStart"
    and B: "first_free_page ek em - KernelVirtualBase \<notin> K"
      "\<And>a. page_of a = first_free_page ek em \<Longrightarrow> walk (mach s) a = Some (first_free_page ek em - KernelVirtualBase)"
    and add: "addable (first_free_page ek em - KernelVirtualBase) (page_in_use sm em (first_free_page ek em)) K (concat (map range_pages (memoryMap s)))"
    and es: "\<forall>(a, sz) \<in> set (memoryMap s). unat a + unat sz + 4095 < 2 ^ 32"
    and enough: "4096 \<le> length (concat (map range_pages (memoryMap s)))"
    and lo: "\<And>a. lo \<le> a \<Longrightarrow> a < PageTableBase \<Longrightarrow> walk (mach s) a = None" "CodeStart + CodeSize \<le> lo" "lo \<le> 0xf0000000"
    and code: "\<And>a. CodeStart \<le> a \<Longrightarrow> a < CodeStart + CodeSize \<Longrightarrow> walk (mach s) a = None"
      "CodeStart + CodeSize \<le> first_free_page ek em"
  shows "\<exists>s' us fs. memory_init ek sm em s = Some (Inr (MapStart - PageSize, s')) \<and> mem_ok lo s' us fs \<and>
    mset (map (frame_of (mach s')) (us @ fs)) =
      add_mset (first_free_page ek em - KernelVirtualBase) (mset (concat (map range_pages (memoryMap s)))) \<and>
    (\<forall>x \<in> set fs. \<not> page_in_use sm em (first_free_page ek em) (frame_of (mach s') x)) \<and>
    vread CodeStart (mach s') = Inr 0x80cdc031 \<and>
    descriptors_safe (first_free_page ek em - KernelVirtualBase) s' us fs \<and>
    spare_last (first_free_page ek em - KernelVirtualBase) (mach s') fs (set (concat (map range_pages (memoryMap s)))) \<and>
    (\<forall>a. addressToPdeIndex a < 1023 \<longrightarrow>
      (MapStart \<le> a \<and> a < PageTableBase \<or> CodeStart \<le> a \<and> a < CodeStart + CodeSize \<longrightarrow> walk (mach s') a \<noteq> None) \<and>
      (a < lo \<longrightarrow> \<not> (CodeStart \<le> a \<and> a < CodeStart + CodeSize) \<longrightarrow> walk (mach s') a = walk (mach s) a))"
proof -
  let ?b = "first_free_page ek em" and ?pages = "concat (map range_pages (memoryMap s))"
  let ?B = "?b - KernelVirtualBase"
  let ?u = "page_in_use sm em ?b"
  obtain pg p n s1 us fs q k where f: "bootstrap_clusters ?b (pages (mach s)) = Inr pg"
      "fill_map ek ?u (?b + PhysicalPageSize, 340, s\<lparr>mach := (mach s)\<lparr>pages := pg\<rparr>\<rparr>) = Some (Inr (p, n, s1))"
      and fl: "filling ?b ?u K ((mach s)\<lparr>pages := pg\<rparr>) ?pages us fs q k (p, n, s1)"
    using fill_map_ok [OF m b r h me B add es] by blast
  have st: "vm_ok (mach s1) us fs"
      "mset (map (frame_of (mach s1)) (us @ fs)) = add_mset (?b - KernelVirtualBase) (mset ?pages)"
      "length us \<le> 1 + length (filter ?u ?pages) + 2 * q" "length ?pages + k = 340 + 341 * q" "k \<le> 341"
      "\<And>x. x \<in> set fs \<Longrightarrow> \<not> ?u (frame_of (mach s1) x)"
      "\<And>a. addressToPdeIndex a < 1023 \<Longrightarrow> a < mapEnd s1 \<or> MapStart \<le> a \<Longrightarrow> walk (mach s1) a = walk (mach s) a"
      "set us \<union> set fs \<subseteq> places ?b (mapEnd s1)" "frames_apart ?B (mach s1) fs (set ?pages) (places ?b (mapEnd s1))"
      "spare_last ?B (mach s1) fs (set ?pages)"
    using fl unfolding filling_def Let_def case_prod_conv walk_pages by blast+
  note top = filling_top [OF fl addable_length [OF add]]
  have "length (filter ?u ?pages) \<le> 336" using add by (simp add: addable_def)
  then have len: "2080 < length fs" using st(3-5) filling_lengths [OF fl] enough by linarith
  have up: "0xf0000000 \<le> mapEnd s1" using top(1) by (simp add: word_le_nat_alt)
  have free1: "walk (mach s1) a = None" if "MapStart \<le> a" "a < PageTableBase" for a
  proof -
    have "lo \<le> a" using lo(3) up top(3) that(1) by (meson order_trans)
    then show ?thesis using st(7) [of a] lo(1) that by (simp add: below_window [symmetric])
  qed
  have free2: "walk (mach s1) a = None" if "CodeStart \<le> a" "a < CodeStart + CodeSize" for a
  proof -
    have "a < mapEnd s1" using that(2) lo(2,3) up by (meson less_le_trans order_trans)
    moreover from this have "a < PageTableBase"
      using top(3) by (auto simp: word_less_nat_alt word_le_nat_alt unat_MapStart) (simp add: PageTableBase_def)
    ultimately show ?thesis using st(7) [of a] code that by (simp add: below_window [symmetric])
  qed
  obtain t1 t2 m' us' fs' pre where t: "page_loop (map_fresh ''stackPage != 0'' 0) MapStart PageTableBase (mach s1) = Some (Inr t1)"
    "page_loop (map_fresh ''page != 0'' FlagUser) CodeStart (CodeStart + CodeSize) t1 = Some (Inr t2)"
    "vwrite CodeStart 0x80cdc031 t2 = Inr m'" "vm_ok m' us' fs'" "mset (us' @ fs') = mset (us @ fs)"
    "fs = pre @ fs'" "frame_of m' = frame_of (mach s1)" "vread CodeStart m' = Inr 0x80cdc031"
    "\<And>a. addressToPdeIndex a < 1023 \<Longrightarrow>
      (if MapStart \<le> a \<and> a < PageTableBase \<or> CodeStart \<le> a \<and> a < CodeStart + CodeSize
       then \<exists>f \<in> frame_of (mach s1) ` set pre. walk m' a = Some f else walk m' a = walk (mach s1) a)"
    "length pre \<le> 2080" "table_frames m' \<subseteq> table_frames (mach s1) \<union> frame_of (mach s1) ` set pre"
    using areas_mapped [OF st(1) less_imp_le [OF len] free1 free2] by blast
  let ?s = "s1\<lparr>mach := m'\<rparr>"
  have d: "PageSize div PhysicalPageSize - 1 = 340" "PageTableBase - KernelStackSize = MapStart"
    by (simp_all add: PageSize_def PhysicalPageSize_def MapStart_def)
  have run: "memory_init ek sm em s = Some (Inr (MapStart - PageSize, ?s))"
    using f t(1-3) by (simp add: memory_init_def Let_def d)
  have same: "walk m' a = walk (mach s) a" if "addressToPdeIndex a < 1023" "a < mapEnd s1" "\<not> (CodeStart \<le> a \<and> a < CodeStart + CodeSize)" for a
  proof -
    have "\<not> MapStart \<le> a" using that(2) top(3) by (meson leD less_le_trans)
    then show ?thesis using t(9) [OF that(1)] st(7) [OF that(1)] that(2,3) by simp
  qed
  have me': "mapEnd s1 \<le> PageTableBase" using top(3) by (simp add: word_le_nat_alt unat_MapStart) (simp add: PageTableBase_def)
  have "walk m' a = None" if "lo \<le> a" "a < mapEnd s1" for a
  proof -
    have a: "a < PageTableBase" using that(2) me' by (rule less_le_trans)
    moreover have "\<not> a < CodeStart + CodeSize" using that(1) lo(2) by (meson leD order_trans)
    ultimately show ?thesis using same [of a] that lo(1) by (simp add: below_window [symmetric])
  qed
  then have ok: "mem_ok lo ?s us' fs'" using t(4) top(2) me' by (simp add: mem_ok_def)
  have ms: "mset (map (frame_of m') (us' @ fs')) = add_mset (?b - KernelVirtualBase) (mset ?pages)"
    using st(2) t(5,7) by (metis mset_map)
  have nu: "\<forall>x \<in> set fs'. \<not> ?u (frame_of m' x)" using st(6) t(6,7) by auto
  have "(MapStart \<le> a \<and> a < PageTableBase \<or> CodeStart \<le> a \<and> a < CodeStart + CodeSize \<longrightarrow> walk m' a \<noteq> None) \<and>
      (a < lo \<longrightarrow> \<not> (CodeStart \<le> a \<and> a < CodeStart + CodeSize) \<longrightarrow> walk m' a = walk (mach s) a)"
    if a: "addressToPdeIndex a < 1023" for a
  proof (intro conjI impI)
    show "walk m' a \<noteq> None" if "MapStart \<le> a \<and> a < PageTableBase \<or> CodeStart \<le> a \<and> a < CodeStart + CodeSize"
      using t(9) [OF a] that by auto
    show "walk m' a = walk (mach s) a" if "a < lo" "\<not> (CodeStart \<le> a \<and> a < CodeStart + CodeSize)"
      using same [OF a _ that(2)] that(1) lo(3) up by (meson less_le_trans order_trans)
  qed
  moreover have "fs' \<noteq> []" using len t(6,10) by auto
  note spare = spare_not_taken [OF _ this, of ?B "mach s1" pre "set ?pages"]
  have "frame_of (mach s1) ` set fs \<subseteq> set ?pages" by (rule filling_free_frames [OF fl])
  then have nB: "?B \<notin> frame_of (mach s1) ` set pre"
    using spare st(1,10) unfolding t(6) vm_ok_def by metis
  have x: "addressToPdeIndex x < 1023 \<and> walk m' x = walk (mach s1) x" if "x \<in> places ?b (mapEnd s1)" for x
  proof -
    have i: "addressToPdeIndex x < 1023" using places_index [OF _ that] r by (simp add: room_def)
    have b0: "unat ?b + 4096 \<le> 0xf0000000" using r by (simp add: room_def)
    have c: "unat (CodeStart + CodeSize) \<le> unat ?b" "unat (CodeStart + CodeSize) = 0x10400000"
      using code(2) by (simp_all add: word_le_nat_alt CodeStart_def CodeSize_def)
    have "unat x < unat MapStart" "unat (CodeStart + CodeSize) \<le> unat x"
      using that b0 c up by (auto simp: places_def word_le_nat_alt word_less_nat_alt unat_MapStart)
    then have "\<not> (MapStart \<le> x \<and> x < PageTableBase \<or> CodeStart \<le> x \<and> x < CodeStart + CodeSize)"
      by (simp add: word_le_nat_alt word_less_nat_alt)
    then show ?thesis using t(9) [OF i] i by simp
  qed
  have apart: "frames_apart ?B m' fs' (set ?pages) (places ?b (mapEnd s1))"
    by (rule frames_apart_take [OF _ nB _ t(7,11)]) (use st(9) t(6) x in simp_all)
  have safe: "descriptors_safe ?B ?s us' fs'"
  proof (rule descriptors_safeI)
    have "set (us' @ fs') = set (us @ fs)" using t(5) by (rule mset_eq_setD)
    then show "set us' \<union> set fs' \<subseteq> places ?b (mapEnd s1)" using st(8) by simp
    show "frames_apart ?B (mach ?s) fs' (set ?pages) (places ?b (mapEnd s1))" using apart by simp
    show "coherent (mach ?s)" using t(4) by (simp add: vm_ok_def tables_ok_def)
    show "page_of ?B = ?B" by (rule page_of_diff [OF _ b]) (simp add: KernelVirtualBase_def page_of_def PageMask_def PageSize_def)
    show "page_of f = f" if "f \<in> set ?pages" for f using that add unfolding addable_def by blast
    show "\<exists>h \<in> frame_of (mach s1) ` set pre. walk (mach ?s) a = Some h"
      if "addressToPdeIndex a < 1023" "MapStart \<le> a \<and> a < PageTableBase \<or> CodeStart \<le> a \<and> a < CodeStart + CodeSize" for a
      using t(9) [OF that(1)] that(2) by simp
    show "f \<notin> frame_of (mach s1) ` set pre" if x': "x \<in> places ?b (mapEnd s1)" "walk (mach ?s) x = Some f" for x f
    proof
      assume f: "f \<in> frame_of (mach s1) ` set pre"
      have "walk (mach s1) x = Some f" using x [OF x'(1)] x'(2) by simp
      note w = frames_apartD [OF st(9) x'(1) this]
      have "f \<in> frame_of (mach s1) ` set fs" using f t(6) by auto
      with w have "f = ?B" by simp
      with f nB show False by simp
    qed
  qed
  have "spare_last ?B m' fs' (set ?pages)"
    using spare_last_suffix [OF _ \<open>fs' \<noteq> []\<close> t(7)] st(10) unfolding t(6) by blast
  ultimately show ?thesis using run ok ms nu t(8) safe by (intro exI [of _ ?s] exI [of _ us'] exI [of _ fs']) simp
qed

section \<open>From the boot loader to the memory manager\<close>

text \<open>
  A memory map of whole pages above the first megabyte that do not overlap, in ascending order, with
  16 MB or more.
\<close>

definition usable_map :: "(u32 \<times> u32) list \<Rightarrow> bool" where
  "usable_map mm \<longleftrightarrow> (\<forall>(a, sz) \<in> set mm. page_of a = a \<and> 0x100000 \<le> a \<and> unat a + unat sz + 4095 < 2 ^ 32) \<and>
     sorted_wrt (<) (concat (map range_pages mm)) \<and> 4096 \<le> length (concat (map range_pages mm))"

lemma usable_page:
  assumes "usable_map mm" "x \<in> set (concat (map range_pages mm))"
  shows "page_of x = x" "0x100000 \<le> unat x"
proof -
  obtain a sz where e: "(a, sz) \<in> set mm" "x \<in> set (range_pages (a, sz))" using assms(2) by auto
  then obtain i where i: "x = a + of_nat i * PageSize" "i < (unat sz + 4095) div 4096" by (auto simp: range_pages_def)
  have a: "page_of a = a" "0x100000 \<le> a" "unat a + unat sz + 4095 < 2 ^ 32" using assms(1) e(1) by (auto simp: usable_map_def)
  show "page_of x = x" unfolding i(1) by (rule frame_aligned [OF a(1)])
  have "i * 4096 \<le> unat sz + 4095" using i(2) by linarith
  then have "unat a + i * 4096 < 2 ^ LENGTH(32)" using a(3) by simp
  from unat_add_of_nat [OF this] have "unat x = unat a + i * 4096" by (simp add: i(1) PageSize_def)
  then show "0x100000 \<le> unat x" using a(2) by (simp add: word_le_nat_alt)
qed

lemma range_pages_ascending:
  assumes "unat a + unat sz + 4095 < 2 ^ 32"
  shows "sorted_wrt (<) (range_pages (a, sz))"
proof -
  define n where "n = (unat sz + 4095) div 4096"
  have "n * 4096 \<le> unat sz + 4095" unfolding n_def by linarith
  have "unat (a + of_nat i * PageSize) = unat a + i * 4096" if "i < n" for i
  proof -
    have "unat a + i * 4096 < 2 ^ LENGTH(32)" using that \<open>n * 4096 \<le> unat sz + 4095\<close> assms by simp
    from unat_add_of_nat [OF this] show ?thesis by (simp add: PageSize_def)
  qed
  then have "a + of_nat i * PageSize < a + of_nat j * PageSize" if "i < j" "j < n" for i j
    using that by (simp add: word_less_nat_alt)
  then show ?thesis by (simp add: range_pages_def n_def [symmetric] sorted_wrt_iff_nth_less)
qed

text \<open>Where the kernel ends and the bootstrap page lies, without modules.\<close>

lemma boot_addresses:
  assumes "0xc0100000 \<le> ek" "ek \<le> 0xc0246000"
  defines "F \<equiv> roundTo (highest_address ek 0) PageSize - KernelVirtualBase"
  shows "highest_address ek 0 = ek" "first_free_page ek 0 = F + of_nat PageFrameCount * PageSize + KernelVirtualBase"
    "page_of (first_free_page ek 0) = first_free_page ek 0"
    "unat F + 40960 \<le> 0x250000" "0x100000 \<le> unat F" "unat (first_free_page ek 0) = unat F + 40960 + 0xc0000000"
    "unat ek < unat (first_free_page ek 0)" "unat (first_free_page ek 0 - KernelVirtualBase) = unat F + 40960"
proof -
  have ek: "0xc0100000 \<le> unat ek" "unat ek \<le> 0xc0246000" using assms(1,2) by (simp_all add: word_le_nat_alt)
  show h: "highest_address ek 0 = ek"
    using ek by (simp add: highest_address_def KernelVirtualBase_def max_def word_le_nat_alt)
  define q where "q = (unat ek + 4095) div 4096"
  have "unat (ek + 4095) = unat ek + 4095" using ek(2) by (simp add: unat_word_ariths)
  then have rt: "unat (roundTo ek PageSize) = q * 4096" by (simp add: roundTo_page unat_page_of q_def)
  have q: "786688 \<le> q" "q \<le> 787014" "unat ek \<le> q * 4096" using ek unfolding q_def by linarith+
  have le: "KernelVirtualBase \<le> roundTo ek PageSize" using rt q by (simp add: word_le_nat_alt KernelVirtualBase_def)
  then have F: "unat F = q * 4096 - 0xc0000000" unfolding F_def h using rt by (simp add: unat_sub) (simp add: KernelVirtualBase_def)
  show "unat F + 40960 \<le> 0x250000" "0x100000 \<le> unat F" using F q by simp_all
  show ff: "first_free_page ek 0 = F + of_nat PageFrameCount * PageSize + KernelVirtualBase"
    unfolding first_free_page_def F_def h by (simp add: max_def mult.commute)
  have "page_of F = F"
  proof -
    have "page_of KernelVirtualBase = KernelVirtualBase" by (simp add: KernelVirtualBase_def page_of_def PageMask_def PageSize_def)
    then show ?thesis unfolding F_def roundTo_page by (rule page_of_diff) simp
  qed
  then show "page_of (first_free_page ek 0) = first_free_page ek 0"
    unfolding ff by (intro virtual_aligned frame_aligned)
  have p: "unat (F + of_nat PageFrameCount * PageSize) = unat F + 40960"
    using F q by (simp add: PageFrameCount_def PageSize_def unat_word_ariths)
  then show "unat (first_free_page ek 0 - KernelVirtualBase) = unat F + 40960" by (simp add: ff)
  show f: "unat (first_free_page ek 0) = unat F + 40960 + 0xc0000000"
    using p F q unfolding ff unat_word_ariths(1) [of "F + of_nat PageFrameCount * PageSize"] by (simp add: KernelVirtualBase_def)
  show "unat ek < unat (first_free_page ek 0)" using q F unfolding f by simp
qed

lemma boot_addable:
  assumes ek: "0xc0100000 \<le> ek" "ek \<le> 0xc0246000" and mm: "usable_map mm"
  defines "F \<equiv> roundTo (highest_address ek 0) PageSize - KernelVirtualBase"
  shows "addable (first_free_page ek 0 - KernelVirtualBase) (page_in_use sm 0 (first_free_page ek 0)) (pool_frames F 3)
    (concat (map range_pages mm))"
proof -
  let ?u = "page_in_use sm 0 (first_free_page ek 0)" and ?pages = "concat (map range_pages mm)"
  note ad = boot_addresses [OF ek, folded F_def]
  note up = usable_page [OF mm]
  have u: "?u x \<longleftrightarrow> 0x100000 \<le> unat x \<and> unat x < unat F + 40960" for x
    using ad(8) by (simp add: page_in_use_def KernelLoadAddress_def word_le_nat_alt word_less_nat_alt)
  have pool: "?u x" if x: "x \<in> pool_frames F 3" for x
  proof -
    obtain j where j: "x = F + of_nat j * PageSize" "j < 3" using x unfolding pool_frames_def by (elim imageE) (simp only: lessThan_iff)
    have "unat F + j * 4096 < 2 ^ LENGTH(32)" using ad(4) j(2) by simp
    from unat_add_of_nat [OF this] have "unat x = unat F + j * 4096" by (simp add: j(1) PageSize_def)
    then show ?thesis using ad(4,5) j(2) by (simp add: u)
  qed
  let ?us = "filter ?u ?pages" and ?f = "\<lambda>x :: u32. unat x div 4096"
  have "unat x = ?f x * 4096" if "x \<in> set ?pages" for x
    using up(1) [OF that] unat_page_of [of x] by simp
  then have "inj_on ?f (set ?us)" by (intro inj_onI) (metis (no_types, lifting) filter_is_subset subsetD word_unat_eq_iff)
  then have "card (set ?us) = card (?f ` set ?us)" by (simp add: card_image)
  moreover have "?f ` set ?us \<subseteq> {256..<592}"
  proof
    fix y assume "y \<in> ?f ` set ?us"
    then obtain x where "?u x" "y = ?f x" by auto
    then show "y \<in> {256..<592}" using ad(4) u by (auto simp: less_eq_div_iff_mult_less_eq div_less_iff_less_mult)
  qed
  then have "card (?f ` set ?us) \<le> card {256..<592 :: nat}" by (intro card_mono) simp_all
  moreover have asc: "sorted_wrt (<) ?pages" using mm by (simp add: usable_map_def)
  then have d: "distinct ?pages" using strict_sorted_iff by blast
  then have "card (set ?us) = length ?us" by (intro distinct_card distinct_filter)
  ultimately have "length ?us \<le> 336" by simp
  moreover have "x \<noteq> 0" if "x \<in> set ?pages" for x using up(2) [OF that] by auto
  moreover have "\<not> ?u (first_free_page ek 0 - KernelVirtualBase)" using ad(8) by (simp add: u)
  moreover have "?u x" if "?pages = xs @ (first_free_page ek 0 - KernelVirtualBase) # ys" "x \<in> set xs" for xs ys x
  proof -
    have "x \<in> set ?pages" "x < first_free_page ek 0 - KernelVirtualBase"
      using asc that unfolding that(1) by (auto simp: sorted_wrt_append)
    then show ?thesis using up(2) ad(8) by (simp add: u word_less_nat_alt)
  qed
  ultimately show ?thesis using d up(1) pool unfolding addable_def by blast
qed

section \<open>Property\<close>

text \<open>The two clusters before \<open>Memory::init\<close>, as objects of the kernel.\<close>

definition boot_clusters :: page_alloc where
  "boot_clusters = \<lparr>store = \<lambda>_. \<lparr>prev = 0, next = 0, address = 0\<rparr>,
     usedPages = \<lparr>headM = 0xc0130000, countM = 0\<rparr>, freePages = \<lparr>headM = 0xc0130020, countM = 0\<rparr>\<rparr>"

text \<open>Of an address and a length of 64 bits the map keeps the low halves: memory behind four gigabytes wraps.\<close>

lemma copied_addresses_wrap:
  assumes "mm_type e = Available" "0x100000 < mm_address e + mm_length e"
  shows "\<exists>a sz. copyMemoryMap [e] s = addMemoryMapEntry a sz s \<and>
    unat a = unat (mm_address e) mod 2 ^ 32 \<and> unat sz = unat (mm_length e) mod 2 ^ 32"
proof -
  have "copyMemoryMap [e] s = addMemoryMapEntry (ucast (mm_address e)) (ucast (mm_length e)) s"
    using assms by (cases "addMemoryMapEntry (ucast (mm_address e)) (ucast (mm_length e)) s")
      (simp_all add: copyMemoryMap_def bindr_def linorder_not_le [symmetric])
  moreover have "unat (ucast x :: u32) = unat x mod 2 ^ 32" for x :: u64 by (simp add: unsigned_ucast_eq unsigned_take_bit_eq take_bit_eq_mod)
  ultimately show ?thesis by blast
qed

text \<open>
  C9. Memory at boot, without modules. The kernel ends between its load address and \<open>0xc0246000\<close>, the
  sentinels of the clusters are two objects below its end, and the memory map has 4096 or more pages above
  the first megabyte and below the last page, in ascending order. Then \<open>PageDirectory::init\<close> and
  \<open>Memory::init\<close> return without a panic. The memory manager is well-formed; the descriptors are those of
  the map's pages and one for the page \<open>B\<close> the first descriptors lie in; no page of the kernel or the
  pool is free. The kernel stays where it was, the stack and the code area are mapped, and the code
  area begins with the program copied there. What init writes misses the descriptors: each lies in a
  mapped frame that holds no table, is not mapped in the stack or the code area, and is not free, except
  \<open>B\<close>. If the map has \<open>B\<close>, it is entered as free too and is free at the end: getPage may hand it out
  later, and the model of getPage, with descriptors apart from memory, does not show the damage.
\<close>

theorem boot_memory:
  assumes kernel: "0xc0100000 \<le> end_kernel" "end_kernel \<le> 0xc0246000"
    and sentinels: "headM (usedPages pg) \<noteq> 0" "headM (freePages pg) \<noteq> 0" "headM (usedPages pg) \<noteq> headM (freePages pg)"
      "headM (usedPages pg) < end_kernel" "headM (freePages pg) < end_kernel"
    and mm: "usable_map mm"
  shows "\<exists>m s us fs. pageDirectory_init end_kernel 0 pg b = Some (Inr m) \<and>
    memory_init end_kernel start_modules 0 \<lparr>mach = m, mapEnd = MapStart, memoryMap = mm\<rparr> = Some (Inr (MapStart - PageSize, s)) \<and>
    mem_ok (KernelVirtualBase + last_address end_kernel 0) s us fs \<and>
    mset (map (frame_of (mach s)) (us @ fs)) =
      add_mset (first_free_page end_kernel 0 - KernelVirtualBase) (mset (concat (map range_pages mm))) \<and>
    (\<forall>x \<in> set fs. \<not> (KernelLoadAddress \<le> frame_of (mach s) x \<and>
      frame_of (mach s) x < first_free_page end_kernel 0 - KernelVirtualBase)) \<and>
    (\<forall>a < PageTableBase. KernelVirtualBase + KernelLoadAddress \<le> a \<longrightarrow> a < KernelVirtualBase + last_address end_kernel 0 \<longrightarrow>
      translate (mach s) a = Some (a - KernelVirtualBase)) \<and>
    (\<forall>a < PageTableBase. MapStart \<le> a \<or> CodeStart \<le> a \<and> a < CodeStart + CodeSize \<longrightarrow> translate (mach s) a \<noteq> None) \<and>
    vread CodeStart (mach s) = Inr 0x80cdc031 \<and>
    descriptors_safe (first_free_page end_kernel 0 - KernelVirtualBase) s us fs \<and>
    (first_free_page end_kernel 0 - KernelVirtualBase \<in> set (concat (map range_pages mm)) \<longrightarrow>
      first_free_page end_kernel 0 - KernelVirtualBase \<in> frame_of (mach s) ` set fs)"
proof -
  let ?h = "highest_address end_kernel 0" and ?b = "first_free_page end_kernel 0"
  define F where "F = roundTo ?h PageSize - KernelVirtualBase"
  define lo where "lo = KernelVirtualBase + last_address end_kernel 0"
  note ad = boot_addresses [OF kernel, folded F_def]
  have h: "0xc0100000 \<le> ?h" "?h \<le> 0xc03f5000"
    using kernel unfolding ad(1) by (simp_all add: word_le_nat_alt)
  obtain n where n: "last_address end_kernel 0 = KernelLoadAddress + of_nat n * PageSize"
      "unat (last_address end_kernel 0) = unat KernelLoadAddress + n * 4096" "unat KernelLoadAddress + n * 4096 \<le> 0x400000"
    using boot_layout(3) [OF h] by blast
  obtain m where m: "pageDirectory_init end_kernel 0 pg b = Some (Inr m)" "tables_ok m" "pages m = pg"
      "table_frames m \<subseteq> pool_frames F 3"
      "\<And>a. addressToPdeIndex a < 1023 \<Longrightarrow> walk m a =
        (if in_pages (KernelVirtualBase + KernelLoadAddress) n a then Some (page_of a - KernelVirtualBase) else None)"
    using directory_walks [OF h n(1,3), of pg b] unfolding F_def by metis
  have lo: "unat lo = unat KernelVirtualBase + unat KernelLoadAddress + n * 4096"
    using n(2,3) by (simp add: lo_def unat_word_ariths KernelVirtualBase_def)
  then have lob: "0xc0100000 \<le> unat lo" "unat lo \<le> 0xc0400000"
    using n(3) by (simp_all add: KernelVirtualBase_def KernelLoadAddress_def)
  have kernel_range: "in_pages (KernelVirtualBase + KernelLoadAddress) n a \<longleftrightarrow>
      KernelVirtualBase + KernelLoadAddress \<le> a \<and> a < lo" for a
    unfolding boot_pages_disjoint(2) [OF n(3)] word_less_nat_alt lo by simp
  have above: "walk m a = None" if "lo \<le> a" "a < PageTableBase" for a
    using m(5) [of a] that by (simp add: below_window [symmetric] kernel_range leD)
  have code: "walk m a = None" if "CodeStart \<le> a" "a < CodeStart + CodeSize" for a
  proof -
    have "unat a < 0x10400000" using that(2) by (simp add: CodeStart_def CodeSize_def word_less_nat_alt)
    then have "a < PageTableBase" "\<not> KernelVirtualBase + KernelLoadAddress \<le> a"
      by (simp_all add: word_le_nat_alt word_less_nat_alt PageTableBase_def KernelVirtualBase_def KernelLoadAddress_def)
    then show ?thesis using m(5) [of a] unfolding below_window [symmetric] kernel_range by simp
  qed
  have lo3: "CodeStart + CodeSize \<le> lo" "lo \<le> 0xf0000000"
    using lob by (simp_all add: word_le_nat_alt CodeStart_def CodeSize_def)
  have lob2: "unat lo = unat ?b + 4096"
  proof -
    have "lo = ?b + PageSize" by (simp add: lo_def last_address_def ad(2) F_def)
    then show ?thesis using ad(4,6) by (simp add: PageSize_def unat_word_ariths)
  qed
  have bpage: "walk m a = Some (?b - KernelVirtualBase)" if "page_of a = ?b" for a
  proof -
    have "unat ?b \<le> unat a" "unat a < unat ?b + 4096" using that page_of_iff [OF ad(3), of a] ad(4,6) by simp_all
    then have "KernelVirtualBase + KernelLoadAddress \<le> a" "a < lo" "a < PageTableBase"
      using lob2 ad(4-6) by (simp_all add: word_le_nat_alt word_less_nat_alt KernelVirtualBase_def KernelLoadAddress_def PageTableBase_def)
    then show ?thesis using m(5) [of a] that by (simp add: below_window [symmetric] kernel_range)
  qed
  have bpool: "?b - KernelVirtualBase \<notin> pool_frames F 3"
  proof
    assume "?b - KernelVirtualBase \<in> pool_frames F 3"
    then obtain j where j: "?b - KernelVirtualBase = F + of_nat j * PageSize" "j < 3"
      unfolding pool_frames_def by (elim imageE) (simp only: lessThan_iff)
    have "unat F + j * 4096 < 2 ^ LENGTH(32)" using ad(4) j(2) by simp
    from unat_add_of_nat [OF this] show False using ad(8) j by (simp add: PageSize_def)
  qed
  have bcode: "CodeStart + CodeSize \<le> ?b" using ad(4,6) by (simp add: word_le_nat_alt CodeStart_def CodeSize_def)
  let ?s = "\<lparr>mach = m, mapEnd = MapStart, memoryMap = mm\<rparr>"
  have r: "room end_kernel ?b (mach ?s)"
    unfolding room_def
  proof (intro conjI allI impI)
    show "?b \<noteq> 0" "unat ?b + 4096 \<le> 0xf0000000" using ad(4,6) by auto
    show "end_kernel < 0xf0000000" using kernel(2) by (simp add: word_le_nat_alt word_less_nat_alt)
    show "unat (fst (heads (mach ?s))) < unat ?b" "unat (snd (heads (mach ?s))) < unat ?b"
      using sentinels(4,5) ad(7) by (simp_all add: heads_def m(3) word_less_nat_alt)
    show "walk (mach ?s) a = None" if "0xf0000000 \<le> a" "a < PageTableBase" for a
      using above [of a] lo3(2) that by simp
  qed
  have es: "\<forall>(a, sz) \<in> set mm. unat a + unat sz + 4095 < 2 ^ 32" "4096 \<le> length (concat (map range_pages mm))"
    using mm by (auto simp: usable_map_def)
  obtain s us fs where s: "memory_init end_kernel start_modules 0 ?s = Some (Inr (MapStart - PageSize, s))"
      "mem_ok lo s us fs" "mset (map (frame_of (mach s)) (us @ fs)) = add_mset (?b - KernelVirtualBase) (mset (concat (map range_pages mm)))"
      "\<forall>x \<in> set fs. \<not> page_in_use start_modules 0 ?b (frame_of (mach s) x)" "vread CodeStart (mach s) = Inr 0x80cdc031"
      "descriptors_safe (?b - KernelVirtualBase) s us fs" "spare_last (?b - KernelVirtualBase) (mach s) fs (set (concat (map range_pages mm)))"
      and w: "\<And>a. addressToPdeIndex a < 1023 \<Longrightarrow>
        (MapStart \<le> a \<and> a < PageTableBase \<or> CodeStart \<le> a \<and> a < CodeStart + CodeSize \<longrightarrow> walk (mach s) a \<noteq> None) \<and>
        (a < lo \<longrightarrow> \<not> (CodeStart \<le> a \<and> a < CodeStart + CodeSize) \<longrightarrow> walk (mach s) a = walk m a)"
    using memory_init_ok [of ?s "pool_frames F 3" end_kernel 0 start_modules lo] m(2-4) ad(3) r sentinels(1-3)
      boot_addable [OF kernel mm, of start_modules, folded F_def] es above lo3 code bpage bpool bcode
    by (simp add: heads_def) blast
  have co: "translate (mach s) a = map_option (\<lambda>f. f + offset_of a) (walk (mach s) a)" for a
    using s(2) translate_coherent [of "mach s" a] by (simp add: mem_ok_def vm_ok_def tables_ok_def)
  have "translate (mach s) a = Some (a - KernelVirtualBase)"
    if a: "a < PageTableBase" "KernelVirtualBase + KernelLoadAddress \<le> a" "a < lo" for a
  proof -
    have "\<not> a < CodeStart + CodeSize"
      using a(2) by (simp add: word_le_nat_alt word_less_nat_alt CodeStart_def CodeSize_def KernelVirtualBase_def KernelLoadAddress_def)
    then have "walk (mach s) a = Some (page_of a - KernelVirtualBase)"
      using w [of a] m(5) [of a] a by (simp add: below_window [symmetric] kernel_range)
    then show ?thesis using co [of a] page_plus_offset [of a] by (simp add: algebra_simps)
  qed
  moreover have "translate (mach s) a \<noteq> None"
    if "a < PageTableBase" "MapStart \<le> a \<or> CodeStart \<le> a \<and> a < CodeStart + CodeSize" for a
    using w [of a] that co [of a] by (auto simp: below_window [symmetric])
  moreover have "\<forall>x \<in> set fs. \<not> (KernelLoadAddress \<le> frame_of (mach s) x \<and> frame_of (mach s) x < ?b - KernelVirtualBase)"
    using s(4) by (simp add: page_in_use_def)
  moreover have "?b - KernelVirtualBase \<in> frame_of (mach s) ` set fs" if "?b - KernelVirtualBase \<in> set (concat (map range_pages mm))"
    using s(7) that unfolding spare_last_def by (metis imageI last_in_set)
  ultimately show ?thesis using m(1) s(1-3,5,6) unfolding lo_def by blast
qed

text \<open>
  A kernel that ends at \<open>0xc0142345\<close> on a machine with 16 MB above the first. The page of the first
  descriptors, \<open>0x14d000\<close>, is among the free ones.
\<close>

theorem boot_memory_witness:
  "\<exists>m s us fs.
    pageDirectory_init 0xc0142345 0 boot_clusters \<lparr>bmem = \<lambda>_. 7, frame_start = 0, frame_bitmap = []\<rparr> = Some (Inr m) \<and>
    memory_init 0xc0142345 0 0 \<lparr>mach = m, mapEnd = MapStart, memoryMap = [(0x100000, 0x1000000)]\<rparr> = Some (Inr (MapStart - PageSize, s)) \<and>
    mem_ok 0xc014e000 s us fs \<and> length us + length fs = 4097 \<and> 0x14d000 \<in> frame_of (mach s) ` set fs \<and> translate (mach s) 0xc0123456 = Some 0x123456 \<and> vread CodeStart (mach s) = Inr 0x80cdc031"
proof -
  let ?b = "\<lparr>bmem = \<lambda>_. 7, frame_start = 0, frame_bitmap = []\<rparr> :: boot" and ?mm = "[(0x100000, 0x1000000)] :: (u32 \<times> u32) list"
  have len: "length (range_pages (0x100000, 0x1000000)) = 4096"
    by (simp only: range_pages_def case_prod_conv length_map length_upt) simp
  have "sorted_wrt (<) (range_pages (0x100000, 0x1000000))" by (rule range_pages_ascending) simp
  then have mm: "usable_map ?mm"
    using len by (simp add: usable_map_def page_of_def PageMask_def PageSize_def)
  have l: "last_address 0xc0142345 0 = 0x14e000"
    by (simp add: last_address_def highest_address_def roundTo_def PageSize_def PageFrameCount_def KernelVirtualBase_def)
  have lo: "KernelVirtualBase + last_address 0xc0142345 0 = 0xc014e000" unfolding l by (simp add: KernelVirtualBase_def)
  have h: "headM (usedPages boot_clusters) = 0xc0130000" "headM (freePages boot_clusters) = 0xc0130020"
    by (simp_all add: boot_clusters_def)
  obtain m s us fs where m: "pageDirectory_init 0xc0142345 0 boot_clusters ?b = Some (Inr m)"
      "memory_init 0xc0142345 0 0 \<lparr>mach = m, mapEnd = MapStart, memoryMap = ?mm\<rparr> = Some (Inr (MapStart - PageSize, s))"
      "mem_ok (KernelVirtualBase + last_address 0xc0142345 0) s us fs" "mset (map (frame_of (mach s)) (us @ fs)) =
        add_mset (first_free_page 0xc0142345 0 - KernelVirtualBase) (mset (concat (map range_pages ?mm)))"
      "\<forall>a < PageTableBase. KernelVirtualBase + KernelLoadAddress \<le> a \<longrightarrow> a < KernelVirtualBase + last_address 0xc0142345 0 \<longrightarrow>
        translate (mach s) a = Some (a - KernelVirtualBase)"
      "vread CodeStart (mach s) = Inr 0x80cdc031"
      "first_free_page 0xc0142345 0 - KernelVirtualBase \<in> set (concat (map range_pages ?mm)) \<longrightarrow>
        first_free_page 0xc0142345 0 - KernelVirtualBase \<in> frame_of (mach s) ` set fs"
    using boot_memory [of "0xc0142345" boot_clusters ?mm ?b 0] mm unfolding h by auto
  have "translate (mach s) 0xc0123456 = Some 0x123456"
    using m(5) unfolding l by (simp add: PageTableBase_def KernelVirtualBase_def KernelLoadAddress_def)
  moreover have "length us + length fs = 4097" using arg_cong [OF m(4), of size] len by simp
  moreover have ff: "first_free_page 0xc0142345 0 - KernelVirtualBase = 0x14d000"
    by (simp add: first_free_page_def Let_def roundTo_def PageSize_def PageFrameCount_def KernelVirtualBase_def max_def)
  moreover have "0x14d000 \<in> set (range_pages (0x100000, 0x1000000))"
  proof -
    have "0x14d000 = (0x100000 :: u32) + of_nat 77 * PageSize" by (simp add: PageSize_def)
    moreover have "77 \<in> set [0..<(unat (0x1000000 :: u32) + 4095) div 4096]" by simp
    ultimately show ?thesis unfolding range_pages_def case_prod_conv set_map by (rule image_eqI)
  qed
  ultimately show ?thesis using m(1,2,3,6,7) unfolding lo by (intro exI [of _ m] exI [of _ s] exI [of _ us] exI [of _ fs]) simp
qed

end
