(* ===== verification/Linked_Lists.thy ===== *)
theory Linked_Lists
  imports Circular_List
begin

text \<open>
  The list templates (Templates/DoublyLinkedItem.hh, Templates/DoublyLinkedList.hh,
  Templates/SinglyLinkedItem.hh, Templates/SinglyLinkedList.hh) with their ranges and iterators, and the
  list of file systems that is kept with them (FileSystem/FileSystem.cc). Items are addresses; a list
  has an item of its own as its head.
\<close>

section \<open>Doubly linked items and lists\<close>

record items =
  it_next :: "u32 \<Rightarrow> u32"
  it_prev :: "u32 \<Rightarrow> u32"

definition set_it_next :: "u32 \<Rightarrow> u32 \<Rightarrow> items \<Rightarrow> items" where
  "set_it_next p q st = st\<lparr>it_next := (it_next st)(p := q)\<rparr>"

definition set_it_prev :: "u32 \<Rightarrow> u32 \<Rightarrow> items \<Rightarrow> items" where
  "set_it_prev p q st = st\<lparr>it_prev := (it_prev st)(p := q)\<rparr>"

definition item_ctor :: "u32 \<Rightarrow> items \<Rightarrow> items" where
  "item_ctor this st = set_it_next this this (set_it_prev this this st)"

definition insertAfter :: "u32 \<Rightarrow> u32 \<Rightarrow> items \<Rightarrow> items" where
  "insertAfter this item st =
     (let st = set_it_next item (it_next st this) st;
          st = set_it_prev item this st;
          st = set_it_prev (it_next st this) item st
      in set_it_next this item st)"

definition unlink :: "u32 \<Rightarrow> items \<Rightarrow> items" where
  "unlink this st =
     (let st = set_it_next (it_prev st this) (it_next st this) st;
          st = set_it_prev (it_next st this) (it_prev st this) st;
          st = set_it_next this 0 st
      in set_it_prev this 0 st)"

record dlist =
  count :: u32
  head :: u32

definition dlist_ctor :: "u32 \<Rightarrow> items \<Rightarrow> dlist \<times> items" where
  "dlist_ctor h st = (\<lparr>count = 0, head = h\<rparr>, item_ctor h st)"

definition insertLast :: "u32 \<Rightarrow> dlist \<times> items \<Rightarrow> dlist \<times> items" where
  "insertLast item = (\<lambda>(l, st).
     (l\<lparr>count := count l + 1\<rparr>, insertAfter (it_prev st (head l)) item st))"

definition insertFirst :: "u32 \<Rightarrow> dlist \<times> items \<Rightarrow> dlist \<times> items" where
  "insertFirst item = (\<lambda>(l, st). (l\<lparr>count := count l + 1\<rparr>, insertAfter (head l) item st))"

definition dlist_remove :: "u32 \<Rightarrow> dlist \<times> items \<Rightarrow> dlist \<times> items" where
  "dlist_remove item = (\<lambda>(l, st). (l\<lparr>count := count l - 1\<rparr>, unlink item st))"

text \<open>A range is the pair of its first item and the item behind its last one.\<close>

definition range_of :: "dlist \<times> items \<Rightarrow> u32 \<times> u32" where
  "range_of = (\<lambda>(l, st). (it_next st (head l), head l))"

definition range_empty :: "u32 \<times> u32 \<Rightarrow> bool" where
  "range_empty = (\<lambda>(firstItem, lastItem). firstItem = lastItem)"

definition popFront :: "items \<Rightarrow> u32 \<times> u32 \<Rightarrow> u32 \<times> u32" where
  "popFront st = (\<lambda>(firstItem, lastItem). (it_next st firstItem, lastItem))"

definition range_front :: "u32 \<times> u32 \<Rightarrow> u32" where
  "range_front = (\<lambda>(firstItem, lastItem). firstItem)"

definition popBack :: "items \<Rightarrow> u32 \<times> u32 \<Rightarrow> u32 \<times> u32" where
  "popBack st = (\<lambda>(firstItem, lastItem). (firstItem, it_prev st lastItem))"

definition range_back :: "items \<Rightarrow> u32 \<times> u32 \<Rightarrow> u32" where
  "range_back st = (\<lambda>(firstItem, lastItem). it_prev st lastItem)"

text \<open>The list that a store and a head represent.\<close>

definition dlist_ok :: "dlist \<times> items \<Rightarrow> u32 list \<Rightarrow> bool" where
  "dlist_ok = (\<lambda>(l, st) xs. clist (it_next st) (it_prev st) (head l) xs \<and> count l = of_nat (length xs))"

interpretation it: linked_store it_next it_prev set_it_next set_it_prev
  by unfold_locales (simp_all add: set_it_next_def set_it_prev_def)

lemma insertAfter_effect:
  assumes "a \<noteq> i"
  shows "it_next (insertAfter a i st) = (it_next st)(i := it_next st a, a := i)"
    "it_prev (insertAfter a i st) = (it_prev st)(i := a, it_next st a := i)"
  using assms by (auto simp: insertAfter_def Let_def set_it_next_def set_it_prev_def)

lemma insertAfter_clist:
  assumes "clist (it_next st) (it_prev st) h (xs @ ys)" "i \<notin> set (h # xs @ ys)" "a = last (h # xs)"
  shows "clist (it_next (insertAfter a i st)) (it_prev (insertAfter a i st)) h (xs @ i # ys)"
proof -
  have b: "it_next st a = hd (ys @ [h])"
  proof (cases xs rule: rev_cases)
    case Nil
    then show ?thesis using clist_next [OF assms(1)] assms(3) by simp
  next
    case (snoc zs z)
    then show ?thesis using clist_next_mem(1) [of "it_next st" "it_prev st" h zs z ys] assms(1,3) by simp
  qed
  have "a \<in> set (h # xs)" unfolding assms(3) by (rule last_in_set) simp
  then have "a \<noteq> i" using assms(2) by auto
  then show ?thesis
    using clist_insert [OF assms(1,2,3) b] by (simp add: insertAfter_effect)
qed

lemma unlink_clist:
  assumes "clist (it_next st) (it_prev st) h (xs @ x # ys)"
  shows "clist (it_next (unlink x st)) (it_prev (unlink x st)) h (xs @ ys)"
proof -
  let ?nx = "it_next st" and ?pv = "it_prev st"
  have d: "distinct (h # xs @ x # ys)" using assms by (simp add: clist_def)
  have p: "?pv x = last (h # xs)" "?nx x = hd (ys @ [h])" using clist_next_mem [OF assms] by simp_all
  have "last (h # xs) \<in> set (h # xs)" by (rule last_in_set) simp
  moreover have "hd (ys @ [h]) \<in> set (ys @ [h])" by (rule hd_in_set) simp
  ultimately have ne: "?pv x \<noteq> x" "?nx x \<noteq> x" using d unfolding p by auto
  have "it_next (unlink x st) = (?nx(?pv x := ?nx x))(x := 0)" "it_prev (unlink x st) = (?pv(?nx x := ?pv x))(x := 0)"
    using ne by (simp_all add: unlink_def Let_def set_it_next_def set_it_prev_def)
  moreover have "x \<notin> set (h # xs @ ys)" using d by auto
  ultimately show ?thesis
    using clist_upd_outside [OF clist_remove [OF assms], of x 0 0] by simp
qed

section \<open>Ranges\<close>

lemma nth_next:
  assumes "clist nx pv h xs" "k < length xs"
  shows "nx (xs ! k) = (xs @ [h]) ! Suc k"
proof -
  have "xs = take k xs @ xs ! k # drop (Suc k) xs" using assms(2) by (simp add: id_take_nth_drop)
  then have "clist nx pv h (take k xs @ xs ! k # drop (Suc k) xs)" using assms(1) by simp
  from clist_next_mem(1) [OF this] show ?thesis
    using assms(2) by (cases "Suc k = length xs") (simp_all add: nth_append hd_drop_conv_nth)
qed

lemma nth_prev:
  assumes "clist nx pv h xs" "k < length xs"
  shows "pv (xs ! k) = (h # xs) ! k"
proof -
  have "xs = take k xs @ xs ! k # drop (Suc k) xs" using assms(2) by (simp add: id_take_nth_drop)
  then have "clist nx pv h (take k xs @ xs ! k # drop (Suc k) xs)" using assms(1) by simp
  from clist_next_mem(2) [OF this] show ?thesis
    using assms(2) by (cases k) (auto simp: last_conv_nth)
qed

lemma popFront_walk:
  assumes "clist (it_next st) (it_prev st) h xs" "k \<le> length xs"
  shows "(popFront st ^^ k) (it_next st h, h) = ((xs @ [h]) ! k, h)"
  using assms(2)
proof (induction k)
  case 0
  then show ?case using clist_next [OF assms(1)] by (cases xs) auto
next
  case (Suc k)
  then show ?case using nth_next [OF assms(1), of k] by (simp add: popFront_def nth_append)
qed

lemma popBack_walk:
  assumes "clist (it_next st) (it_prev st) h xs" "k \<le> length xs"
  shows "(popBack st ^^ k) (p, h) = (p, if k = 0 then h else xs ! (length xs - k))"
  using assms(2)
proof (induction k)
  case (Suc k)
  show ?case
  proof (cases "k = 0")
    case True
    then show ?thesis using Suc clist_prev [OF assms(1)] by (auto simp: popBack_def last_conv_nth)
  next
    case False
    then have "length xs - k < length xs" "length xs - k = Suc (length xs - Suc k)" using Suc.prems by auto
    then show ?thesis using Suc False nth_prev [OF assms(1), of "length xs - k"] by (simp add: popBack_def)
  qed
qed simp

lemma insertLast_ok:
  assumes "dlist_ok l xs" "i \<notin> set (head (fst l) # xs)"
  shows "dlist_ok (insertLast i l) (xs @ [i])"
proof -
  obtain d s where l: "l = (d, s)" by (cases l)
  have cl: "clist (it_next s) (it_prev s) (head d) xs" using assms(1) by (simp add: l dlist_ok_def)
  let ?s = "insertAfter (it_prev s (head d)) i s"
  have "clist (it_next ?s) (it_prev ?s) (head d) (xs @ i # [])"
    by (rule insertAfter_clist) (use cl assms(2) clist_prev [OF cl] l in auto)
  then show ?thesis using assms(1) by (simp add: l dlist_ok_def insertLast_def)
qed

text \<open>
  C29. The doubly linked list keeps its shape: a constructed list is empty; inserting an item that is not
  on it puts it last or first, removing an item that is on it takes out exactly that item; the count is
  the number of items, and the ring of next and previous links through the head stays intact.
\<close>

theorem dlist_operations:
  assumes "dlist_ok l xs"
  shows "dlist_ok (dlist_ctor h st) [] \<and>
    (i \<notin> set (head (fst l) # xs) \<longrightarrow>
      dlist_ok (insertLast i l) (xs @ [i]) \<and> dlist_ok (insertFirst i l) (i # xs)) \<and>
    (i \<in> set xs \<longrightarrow> dlist_ok (dlist_remove i l) (remove1 i xs))"
proof (intro conjI impI)
  obtain d s where l: "l = (d, s)" by (cases l)
  have cl: "clist (it_next s) (it_prev s) (head d) xs" and n: "count d = of_nat (length xs)"
    using assms by (simp_all add: l dlist_ok_def)
  show "dlist_ok (dlist_ctor h st) []"
    by (simp add: dlist_ok_def dlist_ctor_def item_ctor_def set_it_next_def set_it_prev_def)
  show "dlist_ok (insertLast i l) (xs @ [i])" if i: "i \<notin> set (head (fst l) # xs)"
    using assms i by (rule insertLast_ok)
  show "dlist_ok (insertFirst i l) (i # xs)" if i: "i \<notin> set (head (fst l) # xs)"
  proof -
    let ?s = "insertAfter (head d) i s"
    have "clist (it_next ?s) (it_prev ?s) (head d) ([] @ i # xs)"
      by (rule insertAfter_clist) (use cl i l in auto)
    then show ?thesis using n by (simp add: l dlist_ok_def insertFirst_def)
  qed
  show "dlist_ok (dlist_remove i l) (remove1 i xs)" if i: "i \<in> set xs"
  proof -
    obtain as bs where xs: "xs = as @ i # bs" "i \<notin> set as" using split_list_first [OF i] by auto
    have "clist (it_next (unlink i s)) (it_prev (unlink i s)) (head d) (as @ bs)"
      using cl unfolding xs(1) by (rule unlink_clist)
    moreover have "count d - 1 = of_nat (length (as @ bs))" unfolding n xs(1) by simp
    ultimately have "dlist_ok (dlist_remove i l) (as @ bs)" by (simp add: l dlist_ok_def dlist_remove_def)
    moreover have "remove1 i xs = as @ bs" unfolding xs(1) using xs(2) by (simp add: remove1_append)
    ultimately show ?thesis by (simp only:)
  qed
qed

text \<open>
  A range visits the items of the list: after \<open>k\<close> \<open>popFront\<close> its front is the item number \<open>k\<close>, after
  \<open>k\<close> \<open>popBack\<close> its back is the item number \<open>k\<close> from the end, and it is empty when all items have been
  taken from one side, and only then.
\<close>

theorem range_visits:
  assumes "dlist_ok (l, st) xs" "k \<le> length xs"
  shows "(range_empty ((popFront st ^^ k) (range_of (l, st))) \<longleftrightarrow> k = length xs) \<and>
    (range_empty ((popBack st ^^ k) (range_of (l, st))) \<longleftrightarrow> k = length xs) \<and>
    (k < length xs \<longrightarrow> range_front ((popFront st ^^ k) (range_of (l, st))) = xs ! k \<and>
      range_back st ((popBack st ^^ k) (range_of (l, st))) = xs ! (length xs - Suc k))"
proof -
  let ?h = "head l"
  have cl: "clist (it_next st) (it_prev st) ?h xs" using assms(1) by (simp add: dlist_ok_def)
  have h: "?h \<notin> set xs" "distinct xs" using clist_distinct [OF cl] by auto
  note f = popFront_walk [OF cl assms(2)] and b = popBack_walk [OF cl assms(2), of "it_next st ?h"]
  have first: "it_next st ?h = hd (xs @ [?h])" using cl by (rule clist_next)
  have 1: "(xs @ [?h]) ! k = ?h \<longleftrightarrow> k = length xs" using h(1) assms(2) by (auto simp: nth_append in_set_conv_nth)
  have 2: "it_next st ?h = (if k = 0 then ?h else xs ! (length xs - k)) \<longleftrightarrow> k = length xs"
  proof (cases xs)
    case Nil
    then show ?thesis using first assms(2) by simp
  next
    case (Cons x ys)
    then have e: "it_next st ?h = xs ! 0" "it_next st ?h \<noteq> ?h" using first h by auto
    show ?thesis
    proof (cases "k = 0")
      case True
      then show ?thesis using e Cons by simp
    next
      case False
      then have "xs ! 0 = xs ! (length xs - k) \<longleftrightarrow> 0 = length xs - k"
        using h(2) Cons assms(2) by (intro nth_eq_iff_index_eq) auto
      then show ?thesis using e False assms(2) by auto
    qed
  qed
  have 3: "it_prev st (if k = 0 then ?h else xs ! (length xs - k)) = xs ! (length xs - Suc k)" if "k < length xs"
    using b popBack_walk [OF cl, of "Suc k" "it_next st ?h"] that by (simp add: popBack_def)
  show ?thesis
    using f b 1 2 3 by (simp add: range_of_def range_empty_def range_front_def range_back_def nth_append)
qed

section \<open>Singly linked lists\<close>

text \<open>The store of these items is their next pointers.\<close>

definition sitem_ctor :: "u32 \<Rightarrow> (u32 \<Rightarrow> u32) \<Rightarrow> u32 \<Rightarrow> u32" where
  "sitem_ctor this nx = nx(this := this)"

definition sinsertAfter :: "u32 \<Rightarrow> u32 \<Rightarrow> (u32 \<Rightarrow> u32) \<Rightarrow> u32 \<Rightarrow> u32" where
  "sinsertAfter this item nx = (let nx = nx(item := nx this) in nx(this := item))"

definition slist_insertFirst :: "u32 \<Rightarrow> u32 \<Rightarrow> (u32 \<Rightarrow> u32) \<Rightarrow> u32 \<Rightarrow> u32" where
  "slist_insertFirst h item nx = sinsertAfter h item nx"

text \<open>The loop of \<open>insertLast\<close> goes on while the next item is the head.\<close>

partial_function (option) last_loop :: "u32 \<Rightarrow> (u32 \<Rightarrow> u32) \<Rightarrow> u32 \<Rightarrow> u32 option" where
  "last_loop h nx last_item = (if nx last_item = h then last_loop h nx (nx last_item) else Some last_item)"

definition slist_insertLast :: "u32 \<Rightarrow> u32 \<Rightarrow> (u32 \<Rightarrow> u32) \<Rightarrow> (u32 \<Rightarrow> u32) option" where
  "slist_insertLast h item nx =
     (let last_item = nx h
      in map_option (\<lambda>l. sinsertAfter l item nx)
           (if h \<noteq> nx h then last_loop h nx last_item else Some last_item))"

definition srange_of :: "u32 \<Rightarrow> (u32 \<Rightarrow> u32) \<Rightarrow> u32" where
  "srange_of h nx = nx h"

definition srange_empty :: "u32 \<Rightarrow> u32 \<Rightarrow> bool" where
  "srange_empty h firstItem \<longleftrightarrow> firstItem = h"

definition spopFront :: "(u32 \<Rightarrow> u32) \<Rightarrow> u32 \<Rightarrow> u32" where
  "spopFront nx firstItem = nx firstItem"

fun spath :: "(u32 \<Rightarrow> u32) \<Rightarrow> u32 \<Rightarrow> u32 list \<Rightarrow> u32 \<Rightarrow> bool" where
  "spath nx a [] b \<longleftrightarrow> nx a = b"
| "spath nx a (x # xs) b \<longleftrightarrow> nx a = x \<and> spath nx x xs b"

definition slist_ok :: "u32 \<Rightarrow> (u32 \<Rightarrow> u32) \<Rightarrow> u32 list \<Rightarrow> bool" where
  "slist_ok h nx xs \<longleftrightarrow> distinct (h # xs) \<and> spath nx h xs h"

lemma spath_upd: "u \<notin> set (a # xs) \<Longrightarrow> spath (nx(u := v)) a xs b = spath nx a xs b"
  by (induction xs arbitrary: a) auto

lemma spath_insert:
  assumes "spath nx a (x # xs) b" "distinct (a # x # xs)" "i \<notin> set (a # x # xs)"
  shows "spath (sinsertAfter x i nx) a (x # i # xs) b"
  using assms by (cases xs) (auto simp: sinsertAfter_def Let_def spath_upd)

text \<open>
  Inserting last into a singly linked list: the loop condition is the wrong way round. Into an empty
  list the item goes where it should; into a list of one item it goes in front of it; into a longer
  list it goes between the first and the second item. No item is lost, and inserting first is correct.
\<close>

theorem slist_insertLast_position:
  assumes "slist_ok h nx xs" "i \<notin> set (h # xs)"
  shows "slist_ok h (slist_insertFirst h i nx) (i # xs) \<and>
    (\<exists>nx'. slist_insertLast h i nx = Some nx' \<and>
      slist_ok h nx' (case xs of [] \<Rightarrow> [i] | [a] \<Rightarrow> [i, a] | a # ys \<Rightarrow> a # i # ys))"
proof
  have p: "spath nx h xs h" and d: "distinct (h # xs)" using assms(1) by (simp_all add: slist_ok_def)
  have front: "slist_ok h (sinsertAfter h i nx) (i # xs)"
    using p d assms(2) by (cases xs) (auto simp: slist_ok_def sinsertAfter_def Let_def spath_upd)
  then show "slist_ok h (slist_insertFirst h i nx) (i # xs)" by (simp add: slist_insertFirst_def)
  show "\<exists>nx'. slist_insertLast h i nx = Some nx' \<and>
      slist_ok h nx' (case xs of [] \<Rightarrow> [i] | [a] \<Rightarrow> [i, a] | a # ys \<Rightarrow> a # i # ys)"
  proof (cases xs)
    case Nil
    then have "slist_insertLast h i nx = Some (sinsertAfter h i nx)"
      using p by (simp add: slist_insertLast_def Let_def)
    then show ?thesis using front Nil by simp
  next
    case (Cons a ys)
    then have a: "nx h = a" "a \<noteq> h" "spath nx a ys h" using p d by auto
    show ?thesis
    proof (cases ys)
      case Nil
      then have "nx a = h" using a by simp
      have "last_loop h nx a = last_loop h nx h" using \<open>nx a = h\<close> by (subst last_loop.simps) simp
      also have "\<dots> = Some h" using a by (subst last_loop.simps) simp
      finally have "slist_insertLast h i nx = Some (sinsertAfter h i nx)"
        using a by (simp add: slist_insertLast_def Let_def)
      then show ?thesis using front Cons Nil by simp
    next
      case (Cons c zs)
      then have "nx a \<noteq> h" using a d \<open>xs = a # ys\<close> by auto
      then have "last_loop h nx a = Some a" by (subst last_loop.simps) simp
      then have "slist_insertLast h i nx = Some (sinsertAfter a i nx)"
        using a by (simp add: slist_insertLast_def Let_def)
      moreover have "slist_ok h (sinsertAfter a i nx) (a # i # ys)"
        using spath_insert [of nx h a ys h i] p d assms(2) \<open>xs = a # ys\<close> by (auto simp: slist_ok_def)
      ultimately show ?thesis using \<open>xs = a # ys\<close> Cons by simp
    qed
  qed
qed

section \<open>The list of file systems\<close>

datatype ErrorCode = Ok | NoEntity | UnknownFsType

definition fileSystem_ctor :: "u32 \<Rightarrow> dlist \<times> items \<Rightarrow> dlist \<times> items" where
  "fileSystem_ctor this = (\<lambda>(l, st). insertLast this (l, item_ctor this st))"

text \<open>\<open>FileSystem::mount\<close>: the virtual \<open>mount\<close> of each file system is a parameter.\<close>

partial_function (option) mount_loop :: "(u32 \<Rightarrow> ErrorCode) \<Rightarrow> items \<Rightarrow> u32 \<Rightarrow> u32 \<Rightarrow> ErrorCode option" where
  "mount_loop vmount st currentItem end_item =
     (if currentItem \<noteq> end_item
      then let error = vmount currentItem
           in if error \<noteq> UnknownFsType then Some error
              else mount_loop vmount st (it_next st currentItem) end_item
      else Some UnknownFsType)"

definition fileSystem_mount :: "(u32 \<Rightarrow> ErrorCode) \<Rightarrow> dlist \<times> items \<Rightarrow> ErrorCode option" where
  "fileSystem_mount vmount = (\<lambda>(l, st). mount_loop vmount st (it_next st (head l)) (head l))"

lemma mount_loop_links:
  assumes "links (it_next st) pv a xs h" "h \<notin> set xs"
  shows "mount_loop vmount st (it_next st a) h =
    Some (case find (\<lambda>f. vmount f \<noteq> UnknownFsType) xs of None \<Rightarrow> UnknownFsType | Some f \<Rightarrow> vmount f)"
  using assms
proof (induction xs arbitrary: a)
  case Nil
  then show ?case by (subst mount_loop.simps) simp
next
  case (Cons x xs)
  then have x: "it_next st a = x" "x \<noteq> h" by auto
  show ?case
  proof (cases "vmount x = UnknownFsType")
    case True
    then show ?thesis using Cons x by (subst mount_loop.simps) simp
  next
    case False
    then show ?thesis using x by (subst mount_loop.simps) simp
  qed
qed

text \<open>
  Mounting: file systems are asked in the order in which they were constructed, the first one that
  knows the type decides, and when none does the answer is \<open>UnknownFsType\<close>.
\<close>

theorem mount_first_match:
  assumes "dlist_ok l fss" "fs \<notin> set (head (fst l) # fss)"
  shows "dlist_ok (fileSystem_ctor fs l) (fss @ [fs]) \<and>
    fileSystem_mount vmount (fileSystem_ctor fs l) =
      Some (case find (\<lambda>f. vmount f \<noteq> UnknownFsType) (fss @ [fs]) of
              None \<Rightarrow> UnknownFsType | Some f \<Rightarrow> vmount f)"
proof -
  obtain d s where l: "l = (d, s)" by (cases l)
  have cl: "clist (it_next s) (it_prev s) (head d) fss" using assms(1) by (simp add: l dlist_ok_def)
  let ?s = "item_ctor fs s"
  have "clist (it_next ?s) (it_prev ?s) (head d) fss"
    using clist_upd_outside [OF cl, of fs fs fs] assms(2)
    by (simp add: l item_ctor_def set_it_next_def set_it_prev_def)
  then have "dlist_ok (d, ?s) fss" using assms(1) by (simp add: l dlist_ok_def)
  then have ok: "dlist_ok (fileSystem_ctor fs l) (fss @ [fs])"
    using insertLast_ok [of "(d, ?s)" fss fs] assms(2) by (simp add: l fileSystem_ctor_def)
  obtain d' s' where l': "fileSystem_ctor fs l = (d', s')" by (cases "fileSystem_ctor fs l")
  have "clist (it_next s') (it_prev s') (head d') (fss @ [fs])" using ok by (simp add: l' dlist_ok_def)
  then have "links (it_next s') (it_prev s') (head d') (fss @ [fs]) (head d')" "head d' \<notin> set (fss @ [fs])"
    by (simp_all add: clist_def)
  from mount_loop_links [OF this] show ?thesis using ok by (simp add: l' fileSystem_mount_def)
qed

section \<open>Concrete lists\<close>

definition sample_list :: "dlist \<times> items" where
  "sample_list = insertLast 2 (insertFirst 1 (dlist_ctor 9 \<lparr>it_next = (\<lambda>p. 0), it_prev = (\<lambda>p. 0)\<rparr>))"

lemma sample_list_ok: "dlist_ok sample_list [1, 2]" "head (fst sample_list) = 9"
  by (simp_all add: sample_list_def dlist_ok_def dlist_ctor_def item_ctor_def insertLast_def insertFirst_def
    insertAfter_def set_it_next_def set_it_prev_def Let_def clist_def)

theorem dlist_operations_witness:
  "dlist_ok (insertLast 3 sample_list) [1, 2, 3] \<and> dlist_ok (dlist_remove 1 sample_list) [2]"
  using dlist_operations [OF sample_list_ok(1), of 0 undefined 3] dlist_operations [OF sample_list_ok(1), of 0 undefined 1]
  by (simp add: sample_list_ok(2))

theorem range_visits_witness:
  "range_front (popFront (snd sample_list) (range_of sample_list)) = 2"
  using range_visits [of "fst sample_list" "snd sample_list" "[1, 2]" 1] sample_list_ok by simp

theorem slist_insertLast_position_witness:
  "\<exists>nx. slist_insertLast 9 3 (\<lambda>p. if p = 9 then 1 else 9) = Some nx \<and> slist_ok 9 nx [3, 1]"
proof -
  have "slist_ok 9 (\<lambda>p. if p = 9 then 1 else 9) [1]" by (simp add: slist_ok_def)
  from slist_insertLast_position [OF this, of 3] show ?thesis by simp
qed

theorem mount_first_match_witness:
  "fileSystem_mount (\<lambda>f. if f = 2 then NoEntity else if f = 3 then Ok else UnknownFsType) (fileSystem_ctor 3 sample_list) =
     Some NoEntity"
  using mount_first_match [OF sample_list_ok(1), of 3] by (simp add: sample_list_ok(2))

end
