(* ===== verification/Runtime_Support.thy ===== *)
theory Runtime_Support
  imports Prelude C_Memory
begin

text \<open>
  What the compiled code asks of the kernel (Kernel/CompilerSupport.cc): the registration of destructors
  at exit, the calls of the constructors and the clearing of the uninitialised data. The code of
  constructors and destructors is a parameter; the model keeps which were called, in order.
\<close>

section \<open>Destructors at exit\<close>

record atexit_container =
  destructor :: u32
  argument :: u32
  dso :: u32

record atexit_state =
  atexit_list :: "atexit_container list"
  firstrun :: bool
  dtor_calls :: "(u32 \<times> u32) list"

definition atexit_size :: nat where
  "atexit_size = 128"

definition empty_entry :: atexit_container where
  "empty_entry = \<lparr>destructor = 0, argument = 0, dso = 0\<rparr>"

text \<open>The loop over the list does not stop at the first free entry.\<close>

primrec atexit_fill :: "atexit_container \<Rightarrow> bool \<Rightarrow> atexit_container list \<Rightarrow> bool \<times> atexit_container list" where
  "atexit_fill new had_free [] = (had_free, [])"
| "atexit_fill new had_free (e # es) =
     (if destructor e = 0
      then let (h, es) = atexit_fill new True es in (h, new # es)
      else let (h, es) = atexit_fill new had_free es in (h, e # es))"

definition cxa_atexit :: "u32 \<Rightarrow> u32 \<Rightarrow> u32 \<Rightarrow> atexit_state \<Rightarrow> u32 \<times> atexit_state" where
  "cxa_atexit dtor arg d s =
     (if dtor = 0 then (1, s)
      else
        let s = (if firstrun s then s\<lparr>atexit_list := replicate atexit_size empty_entry, firstrun := False\<rparr> else s);
            (had_free, l) = atexit_fill \<lparr>destructor = dtor, argument = arg, dso = d\<rparr> False (atexit_list s);
            s = s\<lparr>atexit_list := l\<rparr>
        in if had_free then (0, s) else (1, s))"

text \<open>Calling the null pointer faults.\<close>

definition null_call :: panic where
  "null_call = PANIC ''call of address 0''"

definition call_entry :: "nat \<Rightarrow> atexit_state \<Rightarrow> atexit_state res" where
  "call_entry i s =
     (let e = atexit_list s ! i
      in if destructor e = 0 then Inl null_call
         else Inr (s\<lparr>dtor_calls := dtor_calls s @ [(destructor e, argument e)],
                     atexit_list := (atexit_list s)[i := empty_entry]\<rparr>))"

primrec finalize_down :: "nat list \<Rightarrow> atexit_state \<Rightarrow> atexit_state res" where
  "finalize_down [] s = Inr s"
| "finalize_down (i # is) s =
     bindr (if destructor (atexit_list s ! i) \<noteq> 0 then call_entry i s else Inr s) (finalize_down is)"

primrec finalize_up :: "u32 \<Rightarrow> nat list \<Rightarrow> atexit_state \<Rightarrow> atexit_state res" where
  "finalize_up d [] s = Inr s"
| "finalize_up d (i # is) s =
     bindr (if dso (atexit_list s ! i) = d then call_entry i s else Inr s) (finalize_up d is)"

definition cxa_finalize :: "u32 \<Rightarrow> atexit_state \<Rightarrow> atexit_state res" where
  "cxa_finalize d s =
     (if firstrun s then Inr s
      else bindr (if d = 0 then finalize_down (rev [0..<atexit_size]) s else Inr s)
             (finalize_up d [0..<atexit_size]))"

section \<open>Constructors and the uninitialised data\<close>

text \<open>The table of constructors lies between two addresses, four bytes each.\<close>

partial_function (option) call_constructors :: "mem \<Rightarrow> u32 \<Rightarrow> u32 \<Rightarrow> u32 list option" where
  "call_constructors m c end_ctors =
     (if c \<noteq> end_ctors then Option.bind (call_constructors m (c + 4) end_ctors) (\<lambda>cs. Some (read_long m c # cs))
      else Some [])"

function zero_loop :: "u32 \<Rightarrow> u32 \<Rightarrow> mem \<Rightarrow> mem" where
  "zero_loop p end_bss m = (if p = end_bss then m else zero_loop (p + 1) end_bss (m(p := 0)))"
  by pat_completeness auto
termination
proof (relation "measure (\<lambda>(p, e, m). unat (e - p))")
  fix p e :: u32 and m :: mem
  assume "p \<noteq> e"
  then show "((p + 1, e, m(p := 0)), p, e, m) \<in> measure (\<lambda>(p, e, m). unat (e - p))"
    using unat_minus_one_less [of "e - p"] by (simp add: diff_diff_add)
qed simp

declare zero_loop.simps [simp del]

definition zero_bss :: "u32 \<Rightarrow> u32 \<Rightarrow> mem \<Rightarrow> mem" where
  "zero_bss start_bss end_bss m =
     (let start = start_bss - KernelVirtualBase;
          end_b = end_bss - KernelVirtualBase
      in zero_loop start end_b m)"

section \<open>Properties\<close>

lemma atexit_fill_free:
  "destructor e = 0 \<Longrightarrow> atexit_fill new h (replicate n e) = (h \<or> n \<noteq> 0, replicate n new)"
  by (induction n arbitrary: h) auto

lemma atexit_fill_full:
  "destructor e \<noteq> 0 \<Longrightarrow> atexit_fill new h (replicate n e) = (h, replicate n e)"
  by (induction n) auto

lemma finalize_up_calls:
  assumes "distinct is" "\<forall>i \<in> set is. i < length (atexit_list s) \<and> atexit_list s ! i = e"
    "destructor e \<noteq> 0" "dso e = d"
  shows "\<exists>s'. finalize_up d is s = Inr s' \<and>
    dtor_calls s' = dtor_calls s @ replicate (length is) (destructor e, argument e)"
  using assms(1,2)
proof (induction "is" arbitrary: s)
  case (Cons i "is")
  let ?s = "s\<lparr>dtor_calls := dtor_calls s @ [(destructor e, argument e)], atexit_list := (atexit_list s)[i := empty_entry]\<rparr>"
  have "call_entry i s = Inr ?s" using Cons.prems assms(3) by (simp add: call_entry_def Let_def)
  moreover have "\<exists>s'. finalize_up d is ?s = Inr s' \<and>
      dtor_calls s' = dtor_calls ?s @ replicate (length is) (destructor e, argument e)"
    by (rule Cons.IH) (use Cons.prems in \<open>auto simp: nth_list_update\<close>)
  ultimately show ?case using Cons.prems assms(4) by (auto simp: bindr_def)
qed simp

lemma finalize_down_clears:
  assumes "distinct is" "\<forall>i \<in> set is. i < length (atexit_list s) \<and> destructor (atexit_list s ! i) \<noteq> 0"
  shows "\<exists>s'. finalize_down is s = Inr s' \<and> (\<forall>i \<in> set is. atexit_list s' ! i = empty_entry) \<and>
    (\<forall>i. i \<notin> set is \<longrightarrow> atexit_list s' ! i = atexit_list s ! i)"
  using assms
proof (induction "is" arbitrary: s)
  case (Cons i "is")
  let ?s = "s\<lparr>dtor_calls := dtor_calls s @ [(destructor (atexit_list s ! i), argument (atexit_list s ! i))],
      atexit_list := (atexit_list s)[i := empty_entry]\<rparr>"
  have "call_entry i s = Inr ?s" using Cons.prems by (simp add: call_entry_def Let_def)
  moreover have "\<exists>s'. finalize_down is ?s = Inr s' \<and> (\<forall>j \<in> set is. atexit_list s' ! j = empty_entry) \<and>
    (\<forall>j. j \<notin> set is \<longrightarrow> atexit_list s' ! j = atexit_list ?s ! j)"
    by (rule Cons.IH) (use Cons.prems in \<open>auto simp: nth_list_update\<close>)
  ultimately show ?case using Cons.prems by (auto simp: bindr_def)
qed simp

text \<open>
  Destructors at exit: the first one that is registered takes all 128 entries, so every later
  registration is refused and changes nothing. When its object is finalised, it is called 128 times;
  finalising everything calls it 128 times and then the null pointer, because the entries that have
  been cleared belong to the object 0.
\<close>

theorem atexit_takes_all:
  assumes "firstrun s" "dtor \<noteq> 0"
  shows "\<exists>s1. cxa_atexit dtor arg d s = (0, s1) \<and>
    (\<forall>dtor' arg' d'. cxa_atexit dtor' arg' d' s1 = (1, s1)) \<and>
    (if d = 0 then cxa_finalize 0 s1 = Inl null_call
     else \<exists>s2. cxa_finalize d s1 = Inr s2 \<and> dtor_calls s2 = dtor_calls s @ replicate 128 (dtor, arg)) \<and>
    cxa_finalize 0 s1 = Inl null_call"
proof -
  let ?e = "\<lparr>destructor = dtor, argument = arg, dso = d\<rparr>"
  let ?s1 = "s\<lparr>atexit_list := replicate atexit_size ?e, firstrun := False\<rparr>"
  have n: "atexit_size \<noteq> 0" by (simp add: atexit_size_def)
  have reg: "cxa_atexit dtor arg d s = (0, ?s1)"
    using assms n by (simp add: cxa_atexit_def Let_def atexit_fill_free empty_entry_def)
  have again: "cxa_atexit dtor' arg' d' ?s1 = (1, ?s1)" for dtor' arg' d'
    using assms(2) by (simp add: cxa_atexit_def Let_def atexit_fill_full)
  have fin: "\<exists>s2. cxa_finalize d ?s1 = Inr s2 \<and> dtor_calls s2 = dtor_calls s @ replicate 128 (dtor, arg)"
    if "d \<noteq> 0"
    using finalize_up_calls [of "[0..<atexit_size]" ?s1 ?e d] assms(2) that
    by (auto simp: cxa_finalize_def bindr_def atexit_size_def)
  have null: "cxa_finalize 0 ?s1 = Inl null_call"
  proof -
    obtain s2 where s2: "finalize_down (rev [0..<atexit_size]) ?s1 = Inr s2"
        "\<forall>i \<in> set (rev [0..<atexit_size]). atexit_list s2 ! i = empty_entry"
      using finalize_down_clears [of "rev [0..<atexit_size]" ?s1] assms(2) by auto
    have "[0..<atexit_size] = 0 # [1..<atexit_size]" using n by (simp add: upt_conv_Cons)
    moreover have "atexit_list s2 ! 0 = empty_entry" using s2(2) n by auto
    ultimately have "finalize_up 0 [0..<atexit_size] s2 = Inl null_call"
      by (simp add: bindr_def call_entry_def empty_entry_def)
    then show ?thesis using s2(1) by (simp add: cxa_finalize_def bindr_def)
  qed
  show ?thesis using reg again fin null by auto
qed

theorem atexit_takes_all_witness:
  "\<exists>s1. cxa_atexit 0x1000 5 7 \<lparr>atexit_list = [], firstrun = True, dtor_calls = []\<rparr> = (0, s1) \<and>
     cxa_atexit 0x2000 6 7 s1 = (1, s1) \<and> cxa_finalize 0 s1 = Inl null_call"
  using atexit_takes_all [of "\<lparr>atexit_list = [], firstrun = True, dtor_calls = []\<rparr>" "0x1000" 5 7] by auto

text \<open>The loops over the constructors and over the uninitialised data.\<close>

lemma constructors_called:
  assumes "n < 2 ^ 30"
  shows "call_constructors m c (c + 4 * of_nat n) = Some (map (\<lambda>i. read_long m (c + 4 * of_nat i)) [0..<n])"
  using assms
proof (induction n arbitrary: c)
  case 0
  then show ?case by (subst call_constructors.simps) simp
next
  case (Suc n)
  have "4 * of_nat (Suc n) = (of_nat (4 * Suc n) :: u32)" by simp
  then have ne: "c \<noteq> c + 4 * of_nat (Suc n)"
    using Suc.prems of_nat_word_eq_0 [of "4 * Suc n", where 'a = 32] by auto
  have "c + 4 * of_nat (Suc n) = c + 4 + 4 * of_nat n" by (simp add: algebra_simps)
  moreover have "call_constructors m (c + 4) (c + 4 + 4 * of_nat n) =
      Some (map (\<lambda>i. read_long m (c + 4 + 4 * of_nat i)) [0..<n])"
    by (rule Suc.IH) (use Suc.prems in simp)
  moreover have "map (\<lambda>i. read_long m (c + 4 * of_nat i)) [0..<Suc n] =
      read_long m c # map (\<lambda>i. read_long m (c + 4 + 4 * of_nat i)) [0..<n]"
    by (simp only: map_upt_Suc) (simp add: algebra_simps)
  moreover have "call_constructors m c e = Option.bind (call_constructors m (c + 4) e) (\<lambda>cs. Some (read_long m c # cs))"
    if "c \<noteq> e" for e using that by (subst call_constructors.simps) simp
  ultimately show ?case using ne by (metis Option.bind.simps(2))
qed

lemma zero_loop_range:
  "zero_loop p e m = (\<lambda>a. if in_range p (unat (e - p)) a then 0 else m a)"
proof (induction p e m rule: zero_loop.induct)
  case (1 p e m)
  show ?case
  proof (cases "p = e")
    case True
    then show ?thesis by (subst zero_loop.simps) (simp add: in_range_def)
  next
    case False
    have u: "unat (e - p) = Suc (unat (e - (p + 1)))"
      using False unat_minus_one_word [of "e - p"] by (simp add: diff_diff_add)
    have "in_range p (unat (e - p)) a \<longleftrightarrow> a = p \<or> in_range (p + 1) (unat (e - (p + 1))) a" for a
    proof (cases "a = p")
      case False
      then have "unat (a - p) = Suc (unat (a - (p + 1)))"
        using unat_minus_one_word [of "a - p"] by (simp add: diff_diff_add)
      then show ?thesis using False u by (simp add: in_range_def)
    qed (simp add: in_range_def u)
    moreover have "zero_loop p e m = zero_loop (p + 1) e (m(p := 0))" using False by (subst zero_loop.simps) simp
    ultimately show ?thesis unfolding "1.IH" [OF False] by (simp add: fun_eq_iff)
  qed
qed

end
