(* ===== verification/Printf_Numbers.thy ===== *)
theory Printf_Numbers
  imports Printf
begin

text \<open>
  The numbers of CLibrary/printf.c: the digits that the three loops of \<open>kprintf\<close> write are the
  digits of the argument, and the conversion buffer of 23 bytes is large enough for all of them.
\<close>

section \<open>The digits of a number\<close>

fun numeral_digits :: "nat \<Rightarrow> nat \<Rightarrow> nat list" where
  "numeral_digits b n = (if b < 2 \<or> n < b then [n] else numeral_digits b (n div b) @ [n mod b])"

declare numeral_digits.simps [simp del]

lemma numeral_digits_step:
  "2 \<le> b \<Longrightarrow> numeral_digits b n = (if n < b then [n] else numeral_digits b (n div b) @ [n mod b])"
  by (subst numeral_digits.simps) simp

lemma numeral_digits_value: "2 \<le> b \<Longrightarrow> foldl (\<lambda>a d. a * b + d) 0 (numeral_digits b n) = n"
proof (induction b n rule: numeral_digits.induct)
  case (1 b n)
  then show ?case by (cases "n < b"; subst numeral_digits_step) simp_all
qed

lemma numeral_digits_less: "2 \<le> b \<Longrightarrow> \<forall>d \<in> set (numeral_digits b n). d < b"
proof (induction b n rule: numeral_digits.induct)
  case (1 b n)
  then show ?case by (cases "n < b"; subst numeral_digits_step) simp_all
qed

lemma length_numeral_digits:
  assumes "2 \<le> b" "n < b ^ Suc k"
  shows "length (numeral_digits b n) \<le> Suc k"
  using assms(2)
proof (induction k arbitrary: n)
  case 0
  then show ?case using assms(1) by (subst numeral_digits_step) simp_all
next
  case (Suc k)
  have "n < b ^ Suc k * b" using Suc.prems by (simp only: power_Suc2 [symmetric])
  then have "n div b < b ^ Suc k" by (rule less_mult_imp_div_less)
  from Suc.IH [OF this] show ?case using assms(1) by (subst numeral_digits_step) simp_all
qed

lemma push_digit_eq:
  assumes "0 < cp" "cp \<le> length bf"
  shows "push_digit c (cp, bf) = Some (cp - 1, take (cp - 1) bf @ c # drop cp bf)"
  using assms by (simp add: push_digit_def upd_conv_take_nth_drop)

lemma to_char_digit: "n < 10 \<Longrightarrow> to_char (of_nat n) = of_nat (48 + n)"
proof -
  have "\<forall>n \<in> set [0..<10]. to_char (of_nat n) = of_nat (48 + n)" by code_simp
  then show "n < 10 \<Longrightarrow> to_char (of_nat n) = of_nat (48 + n)" by (simp only: set_upt) simp
qed

text \<open>The three loops write the digits in front of \<open>cp\<close>.\<close>

definition digits_before :: "(nat \<Rightarrow> u8) \<Rightarrow> nat list \<Rightarrow> nat \<times> u8 list \<Rightarrow> nat \<times> u8 list" where
  "digits_before dig ds b = (case b of (cp, bf) \<Rightarrow>
     (cp - length ds, take (cp - length ds) bf @ map dig ds @ drop cp bf))"

lemma digits_before_step:
  assumes "0 < cp" "cp \<le> length bf" "length ds < cp"
  shows "digits_before dig ds (cp - 1, take (cp - 1) bf @ dig d # drop cp bf)
    = digits_before dig (ds @ [d]) (cp, bf)"
proof -
  have "drop (cp - 1) (take (cp - 1) bf @ dig d # drop cp bf) = dig d # drop cp bf"
    using assms by simp
  moreover have "take (cp - 1 - length ds) (take (cp - 1) bf @ dig d # drop cp bf) = take (cp - 1 - length ds) bf"
    using assms by (simp add: min_def)
  moreover have "cp - 1 - length ds = cp - length (ds @ [d])" by simp
  ultimately show ?thesis by (simp add: digits_before_def)
qed

definition dec_char :: "nat \<Rightarrow> u8" where
  "dec_char d = of_nat (48 + d)"

lemma to_char_dec: "unat w < 10 \<Longrightarrow> to_char w = dec_char (unat w)"
  using to_char_digit [of "unat w"] by (simp add: dec_char_def)

lemma unat_drop_bit: "unat (drop_bit n (q :: u64)) = unat q div 2 ^ n"
  by (simp only: drop_bit_eq_div [where 'a = nat, symmetric] unat_drop_bit_eq)

lemma numeral_digits_pos: "2 \<le> b \<Longrightarrow> 0 < length (numeral_digits b n)"
  by (subst numeral_digits_step) simp_all

lemma digits_before_one:
  "0 < cp \<Longrightarrow> cp \<le> length bf \<Longrightarrow> push_digit (dig d) (cp, bf) = Some (digits_before dig [d] (cp, bf))"
  by (simp add: push_digit_eq digits_before_def)

text \<open>One round of a loop with a division by \<open>b\<close>; \<open>f\<close> is the rest of the loop.\<close>

lemma digits_round:
  assumes "2 \<le> b" "length (numeral_digits b n) \<le> cp" "cp \<le> length bf"
    and f: "\<And>cp bf. b \<le> n \<Longrightarrow> length (numeral_digits b (n div b)) \<le> cp \<Longrightarrow> cp \<le> length bf \<Longrightarrow>
      f (cp, bf) = Some (digits_before dig (numeral_digits b (n div b)) (cp, bf))"
  shows "Option.bind (push_digit (dig (n mod b)) (cp, bf)) (\<lambda>st. if n div b \<noteq> 0 then f st else Some st)
    = Some (digits_before dig (numeral_digits b n) (cp, bf))"
proof -
  have cp: "0 < cp" using numeral_digits_pos [OF assms(1), of n] assms(2) by linarith
  have push: "push_digit (dig (n mod b)) (cp, bf) = Some (cp - 1, take (cp - 1) bf @ dig (n mod b) # drop cp bf)"
    using cp assms(3) by (rule push_digit_eq)
  show ?thesis
  proof (cases "n < b")
    case True
    then have "numeral_digits b n = [n mod b]" using assms(1) by (subst numeral_digits_step) simp_all
    then show ?thesis using True cp assms(3) by (simp add: digits_before_one)
  next
    case False
    then have ds: "numeral_digits b n = numeral_digits b (n div b) @ [n mod b]"
      using assms(1) by (subst numeral_digits_step) simp_all
    have d: "n div b \<noteq> 0" using False assms(1) by (simp add: div_eq_0_iff)
    have len: "length (numeral_digits b (n div b)) < cp" using assms(2) unfolding ds by simp
    have "f (cp - 1, take (cp - 1) bf @ dig (n mod b) # drop cp bf)
        = Some (digits_before dig (numeral_digits b n) (cp, bf))"
      unfolding ds using False len cp assms(3) digits_before_step [OF cp assms(3) len, of dig "n mod b"]
      by (subst f) simp_all
    then show ?thesis using d by (simp add: push)
  qed
qed

lemma oct_digits_eq:
  assumes "length (numeral_digits 8 (unat q)) \<le> cp" "cp \<le> length bf"
  shows "oct_digits q (cp, bf) = Some (digits_before dec_char (numeral_digits 8 (unat q)) (cp, bf))"
  using assms
proof (induction "unat q" arbitrary: q cp bf rule: less_induct)
  case less
  have "unat (q AND 7) = unat q mod 8" using unat_and_mask [of q 3] by (simp add: mask_eq_exp_minus_1)
  then have c: "to_char (q AND 7) = dec_char (unat q mod 8)" by (simp add: to_char_dec)
  have d: "unat (drop_bit 3 q) = unat q div 8" using unat_drop_bit [of 3 q] by simp
  have z: "drop_bit 3 q \<noteq> 0 \<longleftrightarrow> unat q div 8 \<noteq> 0" using d by (metis unat_eq_0)
  have "oct_digits q (cp, bf) = Option.bind (push_digit (dec_char (unat q mod 8)) (cp, bf))
      (\<lambda>st. if unat q div 8 \<noteq> 0 then oct_digits (drop_bit 3 q) st else Some st)"
    by (subst oct_digits.simps) (simp add: c z Let_def split: option.split bind_split)
  also have "\<dots> = Some (digits_before dec_char (numeral_digits 8 (unat q)) (cp, bf))"
  proof (rule digits_round [OF _ less.prems])
    fix cp bf
    assume "8 \<le> unat q" "length (numeral_digits 8 (unat q div 8)) \<le> cp" "cp \<le> length (bf :: u8 list)"
    then show "oct_digits (drop_bit 3 q) (cp, bf)
        = Some (digits_before dec_char (numeral_digits 8 (unat q div 8)) (cp, bf))"
      using less.hyps [of "drop_bit 3 q" cp bf] by (simp add: d)
  qed simp
  finally show ?case .
qed

lemma hex_digits_eq:
  assumes "length (numeral_digits 16 (unat q)) \<le> cp" "cp \<le> length bf"
  shows "hex_digits xdigs q (cp, bf) = Some (digits_before ((!) xdigs) (numeral_digits 16 (unat q)) (cp, bf))"
  using assms
proof (induction "unat q" arbitrary: q cp bf rule: less_induct)
  case less
  have c: "unat (q AND 15) = unat q mod 16" using unat_and_mask [of q 4] by (simp add: mask_eq_exp_minus_1)
  have d: "unat (drop_bit 4 q) = unat q div 16" using unat_drop_bit [of 4 q] by simp
  have z: "drop_bit 4 q \<noteq> 0 \<longleftrightarrow> unat q div 16 \<noteq> 0" using d by (metis unat_eq_0)
  have "hex_digits xdigs q (cp, bf) = Option.bind (push_digit (xdigs ! (unat q mod 16)) (cp, bf))
      (\<lambda>st. if unat q div 16 \<noteq> 0 then hex_digits xdigs (drop_bit 4 q) st else Some st)"
    by (subst hex_digits.simps) (simp add: c z Let_def split: option.split bind_split)
  also have "\<dots> = Some (digits_before ((!) xdigs) (numeral_digits 16 (unat q)) (cp, bf))"
  proof (rule digits_round [OF _ less.prems])
    fix cp bf
    assume "16 \<le> unat q" "length (numeral_digits 16 (unat q div 16)) \<le> cp" "cp \<le> length (bf :: u8 list)"
    then show "hex_digits xdigs (drop_bit 4 q) (cp, bf)
        = Some (digits_before ((!) xdigs) (numeral_digits 16 (unat q div 16)) (cp, bf))"
      using less.hyps [of "drop_bit 4 q" cp bf] by (simp add: d)
  qed simp
  finally show ?case .
qed

lemma dec_digits_eq:
  assumes "length (numeral_digits 10 (unat q)) \<le> cp" "cp \<le> length bf"
  shows "dec_digits q (cp, bf) = Some (digits_before dec_char (numeral_digits 10 (unat q)) (cp, bf))"
  using assms
proof (induction "unat q" arbitrary: q cp bf rule: less_induct)
  case less
  have c: "to_char (q mod 10) = dec_char (unat q mod 10)"
    using to_char_dec [of "q mod 10"] by (simp add: unat_mod)
  have d: "unat (q div 10) = unat q div 10" by (simp add: unat_div)
  have z: "10 \<le> q \<longleftrightarrow> unat q div 10 \<noteq> 0" by (auto simp: word_le_nat_alt div_eq_0_iff)
  have "q mod 10 = q" if "\<not> 10 \<le> q"
    using that by (simp add: word_unat_eq_iff unat_mod word_le_nat_alt)
  then have "dec_digits q (cp, bf) = Option.bind (push_digit (dec_char (unat q mod 10)) (cp, bf))
      (\<lambda>st. if unat q div 10 \<noteq> 0 then dec_digits (q div 10) st else Some st)"
    using c z by (subst dec_digits.simps) (auto split: option.split bind_split)
  also have "\<dots> = Some (digits_before dec_char (numeral_digits 10 (unat q)) (cp, bf))"
  proof (rule digits_round [OF _ less.prems])
    fix cp bf
    assume "10 \<le> unat q" "length (numeral_digits 10 (unat q div 10)) \<le> cp" "cp \<le> length (bf :: u8 list)"
    then show "dec_digits (q div 10) (cp, bf)
        = Some (digits_before dec_char (numeral_digits 10 (unat q div 10)) (cp, bf))"
      using less.hyps [of "q div 10" cp bf] by (simp add: d)
  qed simp
  finally show ?case .
qed

section \<open>The conversion\<close>

definition base_of :: "base \<Rightarrow> nat" where
  "base_of b = (case b of OCT \<Rightarrow> 8 | DEC \<Rightarrow> 10 | HEX \<Rightarrow> 16)"

definition digit_char :: "base \<Rightarrow> u8 list \<Rightarrow> nat \<Rightarrow> u8" where
  "digit_char b xdigs = (case b of HEX \<Rightarrow> (!) xdigs | _ \<Rightarrow> dec_char)"

text \<open>The text of a number: its digits, with a leading zero for \<open>%#o\<close>, and nothing for the
  value zero with an explicit precision of zero.\<close>

definition number_text :: "base \<Rightarrow> u8 list \<Rightarrow> fspec \<Rightarrow> u64 \<Rightarrow> u8 list" where
  "number_text b xdigs sp q =
     (if q = 0 \<and> prec sp = 0 then []
      else (if b = OCT \<and> flag_set (flags sp) ALT \<and> q \<noteq> 0 then [0x30] else []) @
        map (digit_char b xdigs) (numeral_digits (base_of b) (unat q)))"

lemma length_digits_64:
  "length (numeral_digits 8 (unat (q :: u64))) \<le> 22"
  "length (numeral_digits 10 (unat (q :: u64))) \<le> 20"
  "length (numeral_digits 16 (unat (q :: u64))) \<le> 16"
proof -
  have q: "unat q < 2 ^ 64" using unsigned_less [of q] by simp
  have "unat q < 8 ^ Suc 21" "unat q < 10 ^ Suc 19" "unat q < 16 ^ Suc 15"
    using q by simp_all
  from this [THEN length_numeral_digits [rotated]]
  show "length (numeral_digits 8 (unat q)) \<le> 22" "length (numeral_digits 10 (unat q)) \<le> 20"
    "length (numeral_digits 16 (unat q)) \<le> 16"
    by simp_all
qed

lemma first_digit_zero: "2 \<le> b \<Longrightarrow> hd (numeral_digits b n) = 0 \<longleftrightarrow> n = 0"
proof (induction b n rule: numeral_digits.induct)
  case (1 b n)
  show ?case
  proof (cases "n < b")
    case True
    then show ?thesis using 1 by (subst numeral_digits_step) simp_all
  next
    case False
    then have "numeral_digits b n = numeral_digits b (n div b) @ [n mod b]"
      using "1.prems" by (subst numeral_digits_step) simp_all
    moreover have "numeral_digits b (n div b) \<noteq> []" using numeral_digits_pos [OF "1.prems"] by simp
    moreover have "n div b \<noteq> 0" using False "1.prems" by (simp add: div_eq_0_iff)
    ultimately show ?thesis using 1 False by simp
  qed
qed

lemma dec_char_zero: "d < 10 \<Longrightarrow> dec_char d = 0x30 \<longleftrightarrow> d = 0"
proof -
  have "\<forall>d \<in> set [0..<10]. dec_char d = 0x30 \<longleftrightarrow> d = 0" by code_simp
  then show "d < 10 \<Longrightarrow> dec_char d = 0x30 \<longleftrightarrow> d = 0" by (simp only: set_upt) simp
qed

lemma first_octal: "dec_char (hd (numeral_digits 8 n)) = 0x30 \<longleftrightarrow> n = 0"
proof -
  have "numeral_digits 8 n \<noteq> []" using numeral_digits_pos [of 8 n] by simp
  then have "hd (numeral_digits 8 n) < 8" using numeral_digits_less [of 8 n] hd_in_set by fastforce
  then show ?thesis using dec_char_zero first_digit_zero [of 8 n] by simp
qed

lemma flags_without_zeropad: "flag_set (fl AND NOT ZEROPAD) ALT = flag_set fl ALT"
  by (simp add: flag_set_def ALT_def ZEROPAD_def and.assoc)

lemma digits_before_props:
  assumes "length ds \<le> cp" "cp = length bf" "digits_before dig ds (cp, bf) = (cp', bf')"
  shows "length bf' = length bf" "cp' = length bf - length ds" "drop cp' bf' = map dig ds"
  using assms by (auto simp: digits_before_def)

lemma number_digits:
  assumes "length bf = KPRINTF_BUFSIZE" "q \<noteq> 0 \<or> prec sp \<noteq> 0"
  shows "\<exists>cp bf'. (case b of OCT \<Rightarrow> oct_digits q | DEC \<Rightarrow> dec_digits q | HEX \<Rightarrow> hex_digits xdigs q) (KPRINTF_BUFSIZE, bf)
      = Some (cp, bf') \<and> length bf' = KPRINTF_BUFSIZE \<and> 1 \<le> cp \<and> cp < KPRINTF_BUFSIZE \<and>
    drop cp bf' = map (digit_char b xdigs) (numeral_digits (base_of b) (unat q))"
proof -
  let ?ds = "numeral_digits (base_of b) (unat q)"
  obtain cp bf' where d: "digits_before (digit_char b xdigs) ?ds (KPRINTF_BUFSIZE, bf) = (cp, bf')" by fastforce
  have len: "length ?ds \<le> 22" "0 < length ?ds"
    using length_digits_64 [of q] numeral_digits_pos [of "base_of b" "unat q"] by (cases b; simp add: base_of_def)+
  have K: "KPRINTF_BUFSIZE = 23" by (simp add: KPRINTF_BUFSIZE_def)
  have "(case b of OCT \<Rightarrow> oct_digits q | DEC \<Rightarrow> dec_digits q | HEX \<Rightarrow> hex_digits xdigs q) (KPRINTF_BUFSIZE, bf)
      = Some (cp, bf')"
    using len assms(1) unfolding d [symmetric]
    by (cases b) (simp_all add: oct_digits_eq dec_digits_eq hex_digits_eq base_of_def digit_char_def K)
  then show ?thesis
    using digits_before_props [OF _ assms(1) [symmetric] d] len assms(1) by (auto simp: K)
qed

definition precise :: "fspec \<Rightarrow> fspec" where
  "precise sp = (if 0 \<le> prec sp then sp\<lparr>flags := flags sp AND NOT ZEROPAD\<rparr> else sp)"

lemma number_eq:
  assumes "length bf = KPRINTF_BUFSIZE"
  shows "\<exists>cp bf'. number b q xdigs sp bf = Some (precise sp, cp, bf') \<and> length bf' = KPRINTF_BUFSIZE \<and>
    cp \<le> KPRINTF_BUFSIZE \<and> drop cp bf' = number_text b xdigs sp q"
proof (cases "q \<noteq> 0 \<or> prec sp \<noteq> 0")
  case False
  then have "number b q xdigs sp bf = Some (precise sp, KPRINTF_BUFSIZE, bf)"
    by (simp add: number_def precise_def Let_def)
  then show ?thesis using assms False by (simp add: number_text_def)
next
  case True
  from number_digits [OF assms this, where b = b and xdigs = xdigs] obtain cp bf' where d:
      "(case b of OCT \<Rightarrow> oct_digits q | DEC \<Rightarrow> dec_digits q | HEX \<Rightarrow> hex_digits xdigs q) (KPRINTF_BUFSIZE, bf) = Some (cp, bf')"
      "length bf' = KPRINTF_BUFSIZE" "1 \<le> cp" "cp < KPRINTF_BUFSIZE"
      "drop cp bf' = map (digit_char b xdigs) (numeral_digits (base_of b) (unat q))"
    by blast
  let ?alt = "b = OCT \<and> flag_set (flags sp) ALT \<and> q \<noteq> 0"
  have alt: "flag_set (flags (precise sp)) ALT = flag_set (flags sp) ALT"
    by (simp add: precise_def flags_without_zeropad)
  have first: "bf' ! cp = 0x30 \<longleftrightarrow> q = 0" if "b = OCT"
  proof -
    have ne: "numeral_digits 8 (unat q) \<noteq> []" using numeral_digits_pos [of 8 "unat q"] by simp
    have "bf' ! cp = hd (drop cp bf')" using d(2,4) by (simp add: hd_drop_conv_nth)
    also have "\<dots> = dec_char (hd (numeral_digits 8 (unat q)))"
      using that ne by (simp add: d(5) digit_char_def base_of_def hd_map)
    finally show ?thesis by (simp add: first_octal unat_eq_0)
  qed
  have n: "number b q xdigs sp bf =
      (if ?alt then map_option (Pair (precise sp)) (push_digit 0x30 (cp, bf')) else Some (precise sp, cp, bf'))"
  proof (cases b)
    case OCT
    then have "oct_digits q (KPRINTF_BUFSIZE, bf) = Some (cp, bf')" using d(1) by simp
    then show ?thesis
      using True alt first [OF OCT] unfolding number_def precise_def [symmetric] Let_def OCT
      by (simp add: map_conv_bind_option comp_def)
  next
    case DEC
    then have "dec_digits q (KPRINTF_BUFSIZE, bf) = Some (cp, bf')" using d(1) by simp
    then show ?thesis
      using True unfolding number_def precise_def [symmetric] Let_def DEC by simp
  next
    case HEX
    then have "hex_digits xdigs q (KPRINTF_BUFSIZE, bf) = Some (cp, bf')" using d(1) by simp
    then show ?thesis
      using True unfolding number_def precise_def [symmetric] Let_def HEX by simp
  qed
  show ?thesis
  proof (cases ?alt)
    case True
    have "push_digit 0x30 (cp, bf') = Some (cp - 1, take (cp - 1) bf' @ 0x30 # drop cp bf')"
      using d(2-4) by (intro push_digit_eq) simp_all
    moreover have "drop (cp - 1) (take (cp - 1) bf' @ 0x30 # drop cp bf') = 0x30 # drop cp bf'"
      using d(2,4) by simp
    moreover have "length (take (cp - 1) bf' @ 0x30 # drop cp bf') = KPRINTF_BUFSIZE"
      using d(2-4) by simp
    moreover have "number_text b xdigs sp q = 0x30 # drop cp bf'"
      using True d(5) by (simp add: number_text_def)
    ultimately show ?thesis
      using True d(2,3,4) n
      by (intro exI [of _ "cp - 1"] exI [of _ "take (cp - 1) bf' @ 0x30 # drop cp bf'"]) auto
  next
    case False
    then show ?thesis using d n \<open>q \<noteq> 0 \<or> prec sp \<noteq> 0\<close> by (auto simp: number_text_def)
  qed
qed

section \<open>A printed number\<close>

definition number_layout :: "base \<Rightarrow> u8 list \<Rightarrow> u8 \<Rightarrow> fspec \<Rightarrow> u64 \<Rightarrow> u8 list" where
  "number_layout b xdigs ch sp q =
     (let body = number_text b xdigs sp q
      in layout \<lparr>fcp = Bf 0, fsize = int (length body), fbf = [], fdprec = prec sp, fch = ch,
                 fsp = precise sp\<rparr> body)"

lemma those_Some: "those (map Some xs) = Some xs"
  by (induction xs) simp_all

lemma body_text_buffer:
  assumes "cp \<le> length bf" "fcp f = Bf cp" "fbf f = bf" "fsize f = int (length bf) - int cp"
  shows "body_text f m = Some (drop cp bf)"
proof -
  have "nat (fsize f) = length bf - cp" using assms by simp
  moreover have "map (cptr_read m bf (Bf cp)) [0..<length bf - cp] = map Some (drop cp bf)"
    using assms(1) by (intro nth_equalityI) (simp_all add: cptr_read_def)
  ultimately show ?thesis using assms by (simp add: body_text_def those_Some)
qed

lemma layout_cong:
  "fsize f = fsize g \<Longrightarrow> fdprec f = fdprec g \<Longrightarrow> fch f = fch g \<Longrightarrow> fsp f = fsp g \<Longrightarrow>
   layout f body = layout g body"
  by (simp only: layout_def prefix_text_def)

text \<open>A format that is one number conversion prints the number in its field.\<close>

lemma vprintf_number:
  assumes scan: "reswitch (fst (fetch fmt)) (snd (fetch fmt)) ap \<lparr>flags = 0, fwidth = 0, prec = -1, sign = 0\<rparr>
      = Some (ch, [], ap1, sp)"
    and conv: "\<And>bf. conversion ch ap1 sp 0 m bf = number_field b q xdigs fc sp1 ap2 bf"
    and fits: "int (length (number_layout b xdigs fc sp1 q)) < 2 ^ 31"
  shows "vprintf (0x25 # fmt) ap m =
    Some (int (length (number_layout b xdigs fc sp1 q)), m, number_layout b xdigs fc sp1 q)"
proof -
  let ?bf = "replicate KPRINTF_BUFSIZE 0 :: u8 list"
  let ?cs = "number_layout b xdigs fc sp1 q"
  obtain cp bf where n: "number b q xdigs sp1 ?bf = Some (precise sp1, cp, bf)" "length bf = KPRINTF_BUFSIZE"
      "cp \<le> KPRINTF_BUFSIZE" "drop cp bf = number_text b xdigs sp1 q"
    using number_eq [of ?bf b q xdigs sp1] by auto
  define f where "f = \<lparr>fcp = Bf cp, fsize = int KPRINTF_BUFSIZE - int cp, fbf = bf, fdprec = prec sp1,
    fch = fc, fsp = precise sp1\<rparr>"
  have c: "conversion ch ap1 sp 0 m ?bf = Some (Lay_Out f ap2)"
    by (simp add: conv number_field_def n(1) f_def)
  have body: "body_text f m = Some (number_text b xdigs sp1 q)"
    using body_text_buffer [of cp bf f m] n by (simp add: f_def)
  have lay: "layout f (number_text b xdigs sp1 q) = ?cs"
    unfolding number_layout_def Let_def
    using n(2-4) by (intro layout_cong) (auto simp: f_def dest: arg_cong [where f = length])
  have "emit_field f m 0 (console_out []) = Some (int (length ?cs), console_out ?cs)"
    using fits by (simp add: emit_field_layout body lay cint_def put_list_console)
  then have "kprintf_loop (0x25 # fmt) ap ?bf 0 m (console_out []) = Some (int (length ?cs), m, console_out ?cs)"
    by (subst kprintf_loop.simps) (simp add: scan c kprintf_loop.simps [of "[]"])
  then show ?thesis by (simp add: vprintf_def kprintf_def console_out_def)
qed

text \<open>Without padding and precision the field is the prefix and the digits.\<close>

lemma plain_layout:
  assumes "\<not> flag_set (flags sp) LADJUST" "\<not> flag_set (flags sp) ZEROPAD" "fwidth sp = 0" "prec sp = -1"
    "b \<noteq> OCT"
  shows "number_layout b xdigs ch sp q =
    (if sign sp \<noteq> 0 then [sign sp] else if flag_set (flags sp) HEXPREFIX then [0x30, ch] else []) @
    map (digit_char b xdigs) (numeral_digits (base_of b) (unat q))"
  using assms by (simp add: number_layout_def Let_def layout_def prefix_text_def number_text_def precise_def)

text \<open>
  C31. Numbers. Every conversion of a 64-bit number succeeds: the buffer of 23 bytes is never
  exceeded, not even by 22 octal digits and the zero of \<open>%#o\<close>. The characters from \<open>cp\<close> to the end
  of the buffer are the text of the number, and the digits in it are less than the base and have
  the number as their value. An explicit precision turns zero padding off.
\<close>

theorem number_conversion:
  assumes "length bf = KPRINTF_BUFSIZE"
  shows "(\<exists>cp bf'. number b q xdigs sp bf = Some (precise sp, cp, bf') \<and> length bf' = KPRINTF_BUFSIZE \<and>
      cp \<le> KPRINTF_BUFSIZE \<and> drop cp bf' = number_text b xdigs sp q) \<and>
    (\<forall>d \<in> set (numeral_digits (base_of b) (unat q)). d < base_of b) \<and>
    foldl (\<lambda>a d. a * base_of b + d) 0 (numeral_digits (base_of b) (unat q)) = unat q"
proof -
  have "2 \<le> base_of b" by (cases b) (simp_all add: base_of_def)
  then show ?thesis
    using number_eq [OF assms] numeral_digits_less numeral_digits_value by blast
qed

text \<open>The largest octal number fills the buffer: \<open>cp\<close> reaches its start.\<close>

theorem number_conversion_witness:
  "\<exists>bf. number OCT 0xffffffffffffffff [] \<lparr>flags = ALT, fwidth = 0, prec = -1, sign = 0\<rparr> (replicate 23 0)
     = Some (\<lparr>flags = ALT, fwidth = 0, prec = -1, sign = 0\<rparr>, 0, bf) \<and> bf = 0x30 # 0x31 # replicate 21 0x37"
proof -
  let ?sp = "\<lparr>flags = ALT, fwidth = 0, prec = -1, sign = 0\<rparr>"
  have octal: "number_text OCT [] ?sp 0xffffffffffffffff = 0x30 # 0x31 # replicate 21 0x37"
    by (simp add: number_text_def base_of_def digit_char_def dec_char_def numeral_digits.simps flag_set_def ALT_def)
      (simp add: eval_nat_numeral)
  have "length (replicate 23 0 :: u8 list) = KPRINTF_BUFSIZE" by (simp add: KPRINTF_BUFSIZE_def)
  from number_conversion [OF this, of OCT "0xffffffffffffffff" "[]" ?sp] obtain cp bf where n:
    "number OCT 0xffffffffffffffff [] ?sp (replicate 23 0) = Some (precise ?sp, cp, bf)" "length bf = 23" "cp \<le> 23"
    "drop cp bf = 0x30 # 0x31 # replicate 21 0x37"
    unfolding octal by (auto simp: KPRINTF_BUFSIZE_def)
  have "length (drop cp bf) = 23" unfolding n(4) by simp
  then have "cp = 0" using n(2) by simp
  then show ?thesis using n by (auto simp: precise_def)
qed

end
