(* ===== verification/Ctype.thy ===== *)
theory Ctype
  imports Prelude
begin

text \<open>
  Character classification and case mapping: the functions of CLibrary/ctype/ctype.c, the
  inline versions of CInclude/ctype.h that look a character up in the table of
  CLibrary/gen/ctype_.c, the case tables of tolower.c and toupper.c and the table of
  strcasecmp.c. Characters are \<open>int\<close> values; \<open>EOF\<close> is -1.
\<close>

section \<open>The functions of ctype.c\<close>

definition isupper :: "int \<Rightarrow> bool" where
  "isupper c \<longleftrightarrow> c \<ge> 0x41 \<and> c \<le> 0x5a"

definition islower :: "int \<Rightarrow> bool" where
  "islower c \<longleftrightarrow> c \<ge> 0x61 \<and> c \<le> 0x7a"

definition isalpha :: "int \<Rightarrow> bool" where
  "isalpha c \<longleftrightarrow> isupper c \<or> islower c"

definition isdigit :: "int \<Rightarrow> bool" where
  "isdigit c \<longleftrightarrow> c \<in> {0x30, 0x31, 0x32, 0x33, 0x34, 0x35, 0x36, 0x37, 0x38, 0x39}"

definition isprint :: "int \<Rightarrow> bool" where
  "isprint c \<longleftrightarrow> c > 0x1f \<and> c \<noteq> 0x7f"

definition isspace :: "int \<Rightarrow> bool" where
  "isspace c \<longleftrightarrow> c \<in> {0x20, 0x09, 0x0a, 0x0b, 0x0c, 0x0d}"

definition isxdigit :: "int \<Rightarrow> bool" where
  "isxdigit c \<longleftrightarrow> (c \<ge> 0x61 \<and> c \<le> 0x66) \<or> (c \<ge> 0x41 \<and> c \<le> 0x46) \<or> isdigit c"

section \<open>The table and the inline functions of ctype.h\<close>

definition ctU :: u8 where "ctU = 0x01"
definition ctL :: u8 where "ctL = 0x02"
definition ctN :: u8 where "ctN = 0x04"
definition ctS :: u8 where "ctS = 0x08"
definition ctP :: u8 where "ctP = 0x10"
definition ctC :: u8 where "ctC = 0x20"
definition ctX :: u8 where "ctX = 0x40"
definition ctB :: u8 where "ctB = 0x80"

definition ctype_tab :: "u8 list" where
  "ctype_tab = [0, ctC, ctC, ctC,
     ctC, ctC, ctC, ctC,
     ctC, ctC, ctC OR ctS, ctC OR ctS,
     ctC OR ctS, ctC OR ctS, ctC OR ctS, ctC,
     ctC, ctC, ctC, ctC,
     ctC, ctC, ctC, ctC,
     ctC, ctC, ctC, ctC,
     ctC, ctC, ctC, ctC,
     ctC, ctS OR ctB, ctP, ctP,
     ctP, ctP, ctP, ctP,
     ctP, ctP, ctP, ctP,
     ctP, ctP, ctP, ctP,
     ctP, ctN, ctN, ctN,
     ctN, ctN, ctN, ctN,
     ctN, ctN, ctN, ctP,
     ctP, ctP, ctP, ctP,
     ctP, ctP, ctU OR ctX, ctU OR ctX,
     ctU OR ctX, ctU OR ctX, ctU OR ctX, ctU OR ctX,
     ctU, ctU, ctU, ctU,
     ctU, ctU, ctU, ctU,
     ctU, ctU, ctU, ctU,
     ctU, ctU, ctU, ctU,
     ctU, ctU, ctU, ctU,
     ctP, ctP, ctP, ctP,
     ctP, ctP, ctL OR ctX, ctL OR ctX,
     ctL OR ctX, ctL OR ctX, ctL OR ctX, ctL OR ctX,
     ctL, ctL, ctL, ctL,
     ctL, ctL, ctL, ctL,
     ctL, ctL, ctL, ctL,
     ctL, ctL, ctL, ctL,
     ctL, ctL, ctL, ctL,
     ctP, ctP, ctP, ctP,
     ctC, 0, 0, 0,
     0, 0, 0, 0,
     0, 0, 0, 0,
     0, 0, 0, 0,
     0, 0, 0, 0,
     0, 0, 0, 0,
     0, 0, 0, 0,
     0, 0, 0, 0,
     0, 0, 0, 0,
     0, 0, 0, 0,
     0, 0, 0, 0,
     0, 0, 0, 0,
     0, 0, 0, 0,
     0, 0, 0, 0,
     0, 0, 0, 0,
     0, 0, 0, 0,
     0, 0, 0, 0,
     0, 0, 0, 0,
     0, 0, 0, 0,
     0, 0, 0, 0,
     0, 0, 0, 0,
     0, 0, 0, 0,
     0, 0, 0, 0,
     0, 0, 0, 0,
     0, 0, 0, 0,
     0, 0, 0, 0,
     0, 0, 0, 0,
     0, 0, 0, 0,
     0, 0, 0, 0,
     0, 0, 0, 0,
     0, 0, 0, 0,
     0, 0, 0, 0,
     0]"

text \<open>\<open>(_ctype_ + 1)[(unsigned char)c] & mask\<close>, and 0 for \<open>EOF\<close>; nonzero means true.\<close>

definition ct_class :: "int \<Rightarrow> u8 \<Rightarrow> bool" where
  "ct_class c msk \<longleftrightarrow> (if c = - 1 then False
     else ctype_tab ! (1 + nat (c mod 256)) AND msk \<noteq> 0)"

definition isalnum_inline :: "int \<Rightarrow> bool" where "isalnum_inline c = ct_class c (ctU OR ctL OR ctN)"
definition isalpha_inline :: "int \<Rightarrow> bool" where "isalpha_inline c = ct_class c (ctU OR ctL)"
definition iscntrl_inline :: "int \<Rightarrow> bool" where "iscntrl_inline c = ct_class c ctC"
definition isdigit_inline :: "int \<Rightarrow> bool" where "isdigit_inline c = ct_class c ctN"
definition isgraph_inline :: "int \<Rightarrow> bool" where "isgraph_inline c = ct_class c (ctP OR ctU OR ctL OR ctN)"
definition islower_inline :: "int \<Rightarrow> bool" where "islower_inline c = ct_class c ctL"
definition isprint_inline :: "int \<Rightarrow> bool" where "isprint_inline c = ct_class c (ctP OR ctU OR ctL OR ctN OR ctB)"
definition ispunct_inline :: "int \<Rightarrow> bool" where "ispunct_inline c = ct_class c ctP"
definition isspace_inline :: "int \<Rightarrow> bool" where "isspace_inline c = ct_class c ctS"
definition isupper_inline :: "int \<Rightarrow> bool" where "isupper_inline c = ct_class c ctU"
definition isxdigit_inline :: "int \<Rightarrow> bool" where "isxdigit_inline c = ct_class c (ctN OR ctX)"

section \<open>Case mapping\<close>

definition tolower_tab :: "int list" where
  "tolower_tab = [-1, 0x00, 0x01, 0x02, 0x03, 0x04, 0x05, 0x06,
     0x07, 0x08, 0x09, 0x0a, 0x0b, 0x0c, 0x0d, 0x0e,
     0x0f, 0x10, 0x11, 0x12, 0x13, 0x14, 0x15, 0x16,
     0x17, 0x18, 0x19, 0x1a, 0x1b, 0x1c, 0x1d, 0x1e,
     0x1f, 0x20, 0x21, 0x22, 0x23, 0x24, 0x25, 0x26,
     0x27, 0x28, 0x29, 0x2a, 0x2b, 0x2c, 0x2d, 0x2e,
     0x2f, 0x30, 0x31, 0x32, 0x33, 0x34, 0x35, 0x36,
     0x37, 0x38, 0x39, 0x3a, 0x3b, 0x3c, 0x3d, 0x3e,
     0x3f, 0x40, 0x61, 0x62, 0x63, 0x64, 0x65, 0x66,
     0x67, 0x68, 0x69, 0x6a, 0x6b, 0x6c, 0x6d, 0x6e,
     0x6f, 0x70, 0x71, 0x72, 0x73, 0x74, 0x75, 0x76,
     0x77, 0x78, 0x79, 0x7a, 0x5b, 0x5c, 0x5d, 0x5e,
     0x5f, 0x60, 0x61, 0x62, 0x63, 0x64, 0x65, 0x66,
     0x67, 0x68, 0x69, 0x6a, 0x6b, 0x6c, 0x6d, 0x6e,
     0x6f, 0x70, 0x71, 0x72, 0x73, 0x74, 0x75, 0x76,
     0x77, 0x78, 0x79, 0x7a, 0x7b, 0x7c, 0x7d, 0x7e,
     0x7f, 0x80, 0x81, 0x82, 0x83, 0x84, 0x85, 0x86,
     0x87, 0x88, 0x89, 0x8a, 0x8b, 0x8c, 0x8d, 0x8e,
     0x8f, 0x90, 0x91, 0x92, 0x93, 0x94, 0x95, 0x96,
     0x97, 0x98, 0x99, 0x9a, 0x9b, 0x9c, 0x9d, 0x9e,
     0x9f, 0xa0, 0xa1, 0xa2, 0xa3, 0xa4, 0xa5, 0xa6,
     0xa7, 0xa8, 0xa9, 0xaa, 0xab, 0xac, 0xad, 0xae,
     0xaf, 0xb0, 0xb1, 0xb2, 0xb3, 0xb4, 0xb5, 0xb6,
     0xb7, 0xb8, 0xb9, 0xba, 0xbb, 0xbc, 0xbd, 0xbe,
     0xbf, 0xc0, 0xc1, 0xc2, 0xc3, 0xc4, 0xc5, 0xc6,
     0xc7, 0xc8, 0xc9, 0xca, 0xcb, 0xcc, 0xcd, 0xce,
     0xcf, 0xd0, 0xd1, 0xd2, 0xd3, 0xd4, 0xd5, 0xd6,
     0xd7, 0xd8, 0xd9, 0xda, 0xdb, 0xdc, 0xdd, 0xde,
     0xdf, 0xe0, 0xe1, 0xe2, 0xe3, 0xe4, 0xe5, 0xe6,
     0xe7, 0xe8, 0xe9, 0xea, 0xeb, 0xec, 0xed, 0xee,
     0xef, 0xf0, 0xf1, 0xf2, 0xf3, 0xf4, 0xf5, 0xf6,
     0xf7, 0xf8, 0xf9, 0xfa, 0xfb, 0xfc, 0xfd, 0xfe,
     0xff]"

definition toupper_tab :: "int list" where
  "toupper_tab = [-1, 0x00, 0x01, 0x02, 0x03, 0x04, 0x05, 0x06,
     0x07, 0x08, 0x09, 0x0a, 0x0b, 0x0c, 0x0d, 0x0e,
     0x0f, 0x10, 0x11, 0x12, 0x13, 0x14, 0x15, 0x16,
     0x17, 0x18, 0x19, 0x1a, 0x1b, 0x1c, 0x1d, 0x1e,
     0x1f, 0x20, 0x21, 0x22, 0x23, 0x24, 0x25, 0x26,
     0x27, 0x28, 0x29, 0x2a, 0x2b, 0x2c, 0x2d, 0x2e,
     0x2f, 0x30, 0x31, 0x32, 0x33, 0x34, 0x35, 0x36,
     0x37, 0x38, 0x39, 0x3a, 0x3b, 0x3c, 0x3d, 0x3e,
     0x3f, 0x40, 0x41, 0x42, 0x43, 0x44, 0x45, 0x46,
     0x47, 0x48, 0x49, 0x4a, 0x4b, 0x4c, 0x4d, 0x4e,
     0x4f, 0x50, 0x51, 0x52, 0x53, 0x54, 0x55, 0x56,
     0x57, 0x58, 0x59, 0x5a, 0x5b, 0x5c, 0x5d, 0x5e,
     0x5f, 0x60, 0x41, 0x42, 0x43, 0x44, 0x45, 0x46,
     0x47, 0x48, 0x49, 0x4a, 0x4b, 0x4c, 0x4d, 0x4e,
     0x4f, 0x50, 0x51, 0x52, 0x53, 0x54, 0x55, 0x56,
     0x57, 0x58, 0x59, 0x5a, 0x7b, 0x7c, 0x7d, 0x7e,
     0x7f, 0x80, 0x81, 0x82, 0x83, 0x84, 0x85, 0x86,
     0x87, 0x88, 0x89, 0x8a, 0x8b, 0x8c, 0x8d, 0x8e,
     0x8f, 0x90, 0x91, 0x92, 0x93, 0x94, 0x95, 0x96,
     0x97, 0x98, 0x99, 0x9a, 0x9b, 0x9c, 0x9d, 0x9e,
     0x9f, 0xa0, 0xa1, 0xa2, 0xa3, 0xa4, 0xa5, 0xa6,
     0xa7, 0xa8, 0xa9, 0xaa, 0xab, 0xac, 0xad, 0xae,
     0xaf, 0xb0, 0xb1, 0xb2, 0xb3, 0xb4, 0xb5, 0xb6,
     0xb7, 0xb8, 0xb9, 0xba, 0xbb, 0xbc, 0xbd, 0xbe,
     0xbf, 0xc0, 0xc1, 0xc2, 0xc3, 0xc4, 0xc5, 0xc6,
     0xc7, 0xc8, 0xc9, 0xca, 0xcb, 0xcc, 0xcd, 0xce,
     0xcf, 0xd0, 0xd1, 0xd2, 0xd3, 0xd4, 0xd5, 0xd6,
     0xd7, 0xd8, 0xd9, 0xda, 0xdb, 0xdc, 0xdd, 0xde,
     0xdf, 0xe0, 0xe1, 0xe2, 0xe3, 0xe4, 0xe5, 0xe6,
     0xe7, 0xe8, 0xe9, 0xea, 0xeb, 0xec, 0xed, 0xee,
     0xef, 0xf0, 0xf1, 0xf2, 0xf3, 0xf4, 0xf5, 0xf6,
     0xf7, 0xf8, 0xf9, 0xfa, 0xfb, 0xfc, 0xfd, 0xfe,
     0xff]"

definition tolower :: "int \<Rightarrow> int" where
  "tolower c = (if c < 0 \<or> c > 255 then c else tolower_tab ! (1 + nat c))"

definition toupper :: "int \<Rightarrow> int" where
  "toupper c = (if c < 0 \<or> c > 255 then c else toupper_tab ! (1 + nat c))"

definition charmap :: "u8 list" where
  "charmap = [0x0, 0x1, 0x2, 0x3, 0x4, 0x5, 0x6, 0x7,
     0x8, 0x9, 0xa, 0xb, 0xc, 0xd, 0xe, 0xf,
     0x10, 0x11, 0x12, 0x13, 0x14, 0x15, 0x16, 0x17,
     0x18, 0x19, 0x1a, 0x1b, 0x1c, 0x1d, 0x1e, 0x1f,
     0x20, 0x21, 0x22, 0x23, 0x24, 0x25, 0x26, 0x27,
     0x28, 0x29, 0x2a, 0x2b, 0x2c, 0x2d, 0x2e, 0x2f,
     0x30, 0x31, 0x32, 0x33, 0x34, 0x35, 0x36, 0x37,
     0x38, 0x39, 0x3a, 0x3b, 0x3c, 0x3d, 0x3e, 0x3f,
     0x40, 0x61, 0x62, 0x63, 0x64, 0x65, 0x66, 0x67,
     0x68, 0x69, 0x6a, 0x6b, 0x6c, 0x6d, 0x6e, 0x6f,
     0x70, 0x71, 0x72, 0x73, 0x74, 0x75, 0x76, 0x77,
     0x78, 0x79, 0x7a, 0x5b, 0x5c, 0x5d, 0x5e, 0x5f,
     0x60, 0x61, 0x62, 0x63, 0x64, 0x65, 0x66, 0x67,
     0x68, 0x69, 0x6a, 0x6b, 0x6c, 0x6d, 0x6e, 0x6f,
     0x70, 0x71, 0x72, 0x73, 0x74, 0x75, 0x76, 0x77,
     0x78, 0x79, 0x7a, 0x7b, 0x7c, 0x7d, 0x7e, 0x7f,
     0x80, 0x81, 0x82, 0x83, 0x84, 0x85, 0x86, 0x87,
     0x88, 0x89, 0x8a, 0x8b, 0x8c, 0x8d, 0x8e, 0x8f,
     0x90, 0x91, 0x92, 0x93, 0x94, 0x95, 0x96, 0x97,
     0x98, 0x99, 0x9a, 0x9b, 0x9c, 0x9d, 0x9e, 0x9f,
     0xa0, 0xa1, 0xa2, 0xa3, 0xa4, 0xa5, 0xa6, 0xa7,
     0xa8, 0xa9, 0xaa, 0xab, 0xac, 0xad, 0xae, 0xaf,
     0xb0, 0xb1, 0xb2, 0xb3, 0xb4, 0xb5, 0xb6, 0xb7,
     0xb8, 0xb9, 0xba, 0xbb, 0xbc, 0xbd, 0xbe, 0xbf,
     0xc0, 0xc1, 0xc2, 0xc3, 0xc4, 0xc5, 0xc6, 0xc7,
     0xc8, 0xc9, 0xca, 0xcb, 0xcc, 0xcd, 0xce, 0xcf,
     0xd0, 0xd1, 0xd2, 0xd3, 0xd4, 0xd5, 0xd6, 0xd7,
     0xd8, 0xd9, 0xda, 0xdb, 0xdc, 0xdd, 0xde, 0xdf,
     0xe0, 0xe1, 0xe2, 0xe3, 0xe4, 0xe5, 0xe6, 0xe7,
     0xe8, 0xe9, 0xea, 0xeb, 0xec, 0xed, 0xee, 0xef,
     0xf0, 0xf1, 0xf2, 0xf3, 0xf4, 0xf5, 0xf6, 0xf7,
     0xf8, 0xf9, 0xfa, 0xfb, 0xfc, 0xfd, 0xfe, 0xff]"

section \<open>Properties\<close>

text \<open>The tables, checked entry by entry.\<close>

lemma class_table:
  "list_all (\<lambda>(c, t). (t AND ctU \<noteq> 0) = isupper c \<and> (t AND ctL \<noteq> 0) = islower c \<and>
     (t AND (ctU OR ctL) \<noteq> 0) = isalpha c \<and> (t AND ctN \<noteq> 0) = isdigit c \<and>
     (t AND ctS \<noteq> 0) = isspace c \<and> (t AND (ctN OR ctX) \<noteq> 0) = isxdigit c \<and>
     (t AND (ctP OR ctU OR ctL OR ctN OR ctB) \<noteq> 0) = (isprint c \<and> c < 128))
    (zip (map int [0..<256]) (tl ctype_tab))"
  by code_simp

lemma tolower_table: "tl tolower_tab = map (\<lambda>c. if isupper c then c + 32 else c) (map int [0..<256])"
  by code_simp

lemma toupper_table: "tl toupper_tab = map (\<lambda>c. if islower c then c - 32 else c) (map int [0..<256])"
  by code_simp

lemma charmap_table: "map uint charmap = map (\<lambda>c. if isupper c then c + 32 else c) (map int [0..<256])"
  by code_simp

lemma length_tables [simp]: "length ctype_tab = 257" "length tolower_tab = 257" "length toupper_tab = 257"
    "length charmap = 256"
  by (simp_all add: ctype_tab_def tolower_tab_def toupper_tab_def charmap_def)

lemma list_all_zip_nth:
  "list_all P (zip xs ys) \<Longrightarrow> i < length xs \<Longrightarrow> i < length ys \<Longrightarrow> P (xs ! i, ys ! i)"
  by (metis length_zip list_all_length min_less_iff_conj nth_zip)

lemma table_nth:
  assumes "0 \<le> c" "c \<le> 255"
  shows "map int [0..<256] ! nat c = c" "length xs = 257 \<Longrightarrow> xs ! Suc (nat c) = tl xs ! nat c"
  using assms by (simp_all add: nth_tl)

lemma tolower_eq: "tolower c = (if isupper c then c + 32 else c)"
proof (cases "0 \<le> c \<and> c \<le> 255")
  case True
  then have "nat c < 256" by linarith
  with True show ?thesis by (simp add: tolower_def table_nth tolower_table)
qed (auto simp: tolower_def isupper_def)

lemma toupper_eq: "toupper c = (if islower c then c - 32 else c)"
proof (cases "0 \<le> c \<and> c \<le> 255")
  case True
  then have "nat c < 256" by linarith
  with True show ?thesis by (simp add: toupper_def table_nth toupper_table)
qed (auto simp: toupper_def islower_def)

lemma charmap_tolower: "uint (charmap ! unat (b :: u8)) = tolower (uint b)"
proof -
  have b: "unat b < 256" using unsigned_less [of b] by simp
  then have "uint (charmap ! unat b) = map uint charmap ! unat b" by simp
  also have "\<dots> = tolower (int (unat b))"
    unfolding charmap_table using b by (simp add: tolower_eq)
  finally show ?thesis by simp
qed

text \<open>
  The two implementations of the character classes agree: for \<open>EOF\<close> and every unsigned
  character the functions of ctype.c and the table look-ups of ctype.h give the same answer
  for upper case, lower case, letters, digits, white space and hexadecimal digits;
  \<open>isprint\<close> agrees on ASCII but counts every character from 128 on as printable where the
  table says it is not.
\<close>

theorem ctype_versions_agree:
  assumes "- 1 \<le> c" "c \<le> 255"
  shows "isupper_inline c = isupper c \<and> islower_inline c = islower c \<and>
    isalpha_inline c = isalpha c \<and> isdigit_inline c = isdigit c \<and>
    isspace_inline c = isspace c \<and> isxdigit_inline c = isxdigit c \<and>
    isprint_inline c = (isprint c \<and> c < 128)"
proof (cases "c = - 1")
  case True
  then show ?thesis
    by (simp add: isupper_def islower_def isalpha_def isdigit_def isspace_def isxdigit_def isprint_def
      isupper_inline_def islower_inline_def isalpha_inline_def isdigit_inline_def isspace_inline_def
      isxdigit_inline_def isprint_inline_def ct_class_def)
next
  case False
  then have c: "0 \<le> c" "c \<le> 255" using assms by simp_all
  have "nat c < length (map int [0..<256])" "nat c < length (tl ctype_tab)" using c by simp_all
  from list_all_zip_nth [OF class_table this] show ?thesis
    using c by (simp only: ct_class_def isupper_inline_def islower_inline_def isalpha_inline_def
      isdigit_inline_def isspace_inline_def isxdigit_inline_def isprint_inline_def table_nth
      mod_pos_pos_trivial) (simp add: table_nth [OF c])
qed

theorem ctype_versions_agree_witness:
  "isalpha_inline 0x71 = isalpha 0x71 \<and> isprint_inline 0xe9 = (isprint 0xe9 \<and> (0xe9 :: int) < 128)"
  using ctype_versions_agree [of "0x71"] ctype_versions_agree [of "0xe9"] by simp

text \<open>
  Case mapping: on every \<open>int\<close>, \<open>tolower\<close> moves exactly the ASCII capitals down and \<open>toupper\<close>
  exactly the ASCII small letters up and leave every other value, \<open>EOF\<close> included, alone; the
  table of \<open>strcasecmp\<close> is \<open>tolower\<close> on unsigned characters.
\<close>

theorem case_mapping:
  "tolower c = (if isupper c then c + 32 else c) \<and> toupper c = (if islower c then c - 32 else c) \<and>
   uint (charmap ! unat (b :: u8)) = tolower (uint b)"
  by (simp only: tolower_eq toupper_eq charmap_tolower)

end
