(* ===== verification/Stdlib.thy ===== *)
theory Stdlib
  imports C_String Ctype "HOL-Library.Signed_Division"
begin

text \<open>
  CLibrary/stdlib: the four string to number conversions, \<open>abs\<close> and the generator behind \<open>rand\<close>.
  \<open>strtol.c\<close> and \<open>strtoll.c\<close>, and \<open>strtoul.c\<close> and \<open>strtoull.c\<close>, differ only in the width \<open>w\<close> of the
  accumulator, so each pair has one definition with the width as its first argument. A
  \<open>long\<close> is an \<open>int\<close> that is checked to have \<open>w\<close> bits after every operation on the accumulator, an
  \<open>unsigned long\<close> one that is reduced to \<open>w\<close> bits; \<open>errno\<close> is passed and returned, and the loops over the
  string are partial functions.
\<close>

section \<open>The scanner the conversions share\<close>

definition EINVAL :: int where "EINVAL = 22"
definition ERANGE :: int where "ERANGE = 34"

partial_function (option) skip_space :: "mem \<Rightarrow> u32 \<Rightarrow> (int \<times> u32) option" where
  "skip_space m s = (if isspace (uint (m s)) then skip_space m (s + 1) else Some (uint (m s), s + 1))"

text \<open>
  White space, sign and base prefix: the sign, the base to use, the character the digit
  loop starts with and the address after it. After a sign and after \<open>0x\<close> the character is
  read as a signed \<open>char\<close>, elsewhere as an unsigned one.
\<close>

definition scan_sign :: "mem \<Rightarrow> int \<Rightarrow> u32 \<Rightarrow> bool \<times> int \<times> u32" where
  "scan_sign m c s =
     (if c = 0x2d then (True, sint (m s), s + 1)
      else if c = 0x2b then (False, sint (m s), s + 1)
      else (False, c, s))"

definition scan_base :: "mem \<Rightarrow> int \<Rightarrow> int \<Rightarrow> u32 \<Rightarrow> int \<times> int \<times> u32" where
  "scan_base m base c s =
     (let (base, c, s) =
        (if (base = 0 \<or> base = 16) \<and> c = 0x30 \<and> (m s = 0x78 \<or> m s = 0x58)
         then (16, sint (m (s + 1)), s + 2) else (base, c, s))
      in (if base = 0 then if c = 0x30 then 8 else 10 else base, c, s))"

text \<open>The digit a character stands for, \<open>None\<close> where the loop breaks.\<close>

definition digit_of :: "int \<Rightarrow> int \<Rightarrow> int option" where
  "digit_of c base =
     (if isdigit c then if c - 0x30 \<ge> base then None else Some (c - 0x30)
      else if isalpha c
      then let c = c - (if isupper c then 0x41 - 10 else 0x61 - 10)
           in if c \<ge> base then None else Some c
      else None)"

section \<open>Signed conversions\<close>

text \<open>The overflow of a signed type is undefined: the result is \<open>None\<close>.\<close>

definition checked_signed :: "nat \<Rightarrow> int \<Rightarrow> int option" where
  "checked_signed w x = (if - (2 ^ (w - 1)) \<le> x \<and> x < 2 ^ (w - 1) then Some x else None)"

definition signed_cut :: "nat \<Rightarrow> bool \<Rightarrow> int \<Rightarrow> int \<times> int" where
  "signed_cut w neg base =
     (let cutoff = (if neg then - (2 ^ (w - 1)) else 2 ^ (w - 1) - 1);
          cutlim = cutoff smod base;
          cutoff = cutoff sdiv base
      in if neg
         then let (cutlim, cutoff) =
                (if cutlim > 0 then (cutlim - base, cutoff + 1) else (cutlim, cutoff))
              in (cutoff, - cutlim)
         else (cutoff, cutlim))"

partial_function (option) signed_loop ::
  "nat \<Rightarrow> mem \<Rightarrow> bool \<Rightarrow> int \<Rightarrow> int \<Rightarrow> u32 \<Rightarrow> int \<Rightarrow> int \<Rightarrow> int \<Rightarrow> (int \<times> int \<times> int \<times> u32) option" where
  "signed_loop w m neg base c s acc anyd errno =
     (case digit_of c base of
        None \<Rightarrow> Some (acc, anyd, errno, s)
      | Some c \<Rightarrow>
          if anyd < 0 then signed_loop w m neg base (uint (m s)) (s + 1) acc anyd errno
          else
            let (cutoff, cutlim) = signed_cut w neg base
            in if neg
               then
                 if acc < cutoff \<or> (acc = cutoff \<and> c > cutlim)
                 then signed_loop w m neg base (uint (m s)) (s + 1) (- (2 ^ (w - 1))) (- 1) ERANGE
                 else do {
                   acc \<leftarrow> checked_signed w (acc * base);
                   acc \<leftarrow> checked_signed w (acc - c);
                   signed_loop w m neg base (uint (m s)) (s + 1) acc 1 errno }
               else
                 if acc > cutoff \<or> (acc = cutoff \<and> c > cutlim)
                 then signed_loop w m neg base (uint (m s)) (s + 1) (2 ^ (w - 1) - 1) (- 1) ERANGE
                 else do {
                   acc \<leftarrow> checked_signed w (acc * base);
                   acc \<leftarrow> checked_signed w (acc + c);
                   signed_loop w m neg base (uint (m s)) (s + 1) acc 1 errno })"

definition store_end :: "mem \<Rightarrow> u32 \<Rightarrow> u32 \<Rightarrow> mem" where
  "store_end m endptr p = (if endptr \<noteq> 0 then write_long m endptr p else m)"

definition strto_signed ::
  "nat \<Rightarrow> mem \<Rightarrow> int \<Rightarrow> u32 \<Rightarrow> u32 \<Rightarrow> int \<Rightarrow> (mem \<times> int \<times> int) option" where
  "strto_signed w m errno nptr endptr base =
     (if base < 0 \<or> base = 1 \<or> base > 36 then Some (store_end m endptr nptr, EINVAL, 0)
      else do {
        (c, s) \<leftarrow> skip_space m nptr;
        let (neg, c, s) = scan_sign m c s;
        let (base, c, s) = scan_base m base c s;
        (acc, anyd, errno, s) \<leftarrow> signed_loop w m neg base c s 0 0 errno;
        Some (store_end m endptr (if anyd \<noteq> 0 then s - 1 else nptr), errno, acc) })"

definition strtol :: "mem \<Rightarrow> int \<Rightarrow> u32 \<Rightarrow> u32 \<Rightarrow> int \<Rightarrow> (mem \<times> int \<times> int) option" where
  "strtol = strto_signed 32"

definition strtoll :: "mem \<Rightarrow> int \<Rightarrow> u32 \<Rightarrow> u32 \<Rightarrow> int \<Rightarrow> (mem \<times> int \<times> int) option" where
  "strtoll = strto_signed 64"

section \<open>Unsigned conversions\<close>

definition wrap_unsigned :: "nat \<Rightarrow> int \<Rightarrow> int" where
  "wrap_unsigned w x = x mod 2 ^ w"

partial_function (option) unsigned_loop ::
  "nat \<Rightarrow> mem \<Rightarrow> int \<Rightarrow> int \<Rightarrow> u32 \<Rightarrow> int \<Rightarrow> int \<Rightarrow> int \<Rightarrow> (int \<times> int \<times> int \<times> u32) option" where
  "unsigned_loop w m base c s acc anyd errno =
     (case digit_of c base of
        None \<Rightarrow> Some (acc, anyd, errno, s)
      | Some c \<Rightarrow>
          if anyd < 0 then unsigned_loop w m base (uint (m s)) (s + 1) acc anyd errno
          else
            let cutoff = (2 ^ w - 1) div base; cutlim = (2 ^ w - 1) mod base
            in if acc > cutoff \<or> (acc = cutoff \<and> c > cutlim)
               then unsigned_loop w m base (uint (m s)) (s + 1) (2 ^ w - 1) (- 1) ERANGE
               else unsigned_loop w m base (uint (m s)) (s + 1)
                 (wrap_unsigned w (wrap_unsigned w (acc * base) + c)) 1 errno)"

definition strto_unsigned ::
  "nat \<Rightarrow> mem \<Rightarrow> int \<Rightarrow> u32 \<Rightarrow> u32 \<Rightarrow> int \<Rightarrow> (mem \<times> int \<times> int) option" where
  "strto_unsigned w m errno nptr endptr base =
     (if base < 0 \<or> base = 1 \<or> base > 36 then Some (store_end m endptr nptr, EINVAL, 0)
      else do {
        (c, s) \<leftarrow> skip_space m nptr;
        let (neg, c, s) = scan_sign m c s;
        let (base, c, s) = scan_base m base c s;
        (acc, anyd, errno, s) \<leftarrow> unsigned_loop w m base c s 0 0 errno;
        let acc = (if neg \<and> anyd > 0 then wrap_unsigned w (- acc) else acc);
        Some (store_end m endptr (if anyd \<noteq> 0 then s - 1 else nptr), errno, acc) })"

definition strtoul :: "mem \<Rightarrow> int \<Rightarrow> u32 \<Rightarrow> u32 \<Rightarrow> int \<Rightarrow> (mem \<times> int \<times> int) option" where
  "strtoul = strto_unsigned 32"

definition strtoull :: "mem \<Rightarrow> int \<Rightarrow> u32 \<Rightarrow> u32 \<Rightarrow> int \<Rightarrow> (mem \<times> int \<times> int) option" where
  "strtoull = strto_unsigned 64"

section \<open>abs and rand\<close>

definition c_abs :: "u32 \<Rightarrow> u32" where
  "c_abs j = (if sint j < 0 then j * - 1 else j)"

text \<open>The state \<open>x\<close> of the generator, set by \<open>srand\<close>; \<open>rand\<close> gives the new state and the result.\<close>

definition c_srand :: "u32 \<Rightarrow> u32 \<Rightarrow> u32" where
  "c_srand seed x = seed"

definition c_rand :: "u32 \<Rightarrow> u32 \<times> u32" where
  "c_rand x =
     (let x = x XOR drop_bit 13 x;
          x = x XOR push_bit 17 x;
          x = x XOR drop_bit 5 x
      in (x, c_abs x))"

section \<open>Reference: the number a string denotes\<close>

definition num_sign :: "u8 list \<Rightarrow> bool \<times> u8 list" where
  "num_sign xs = (case xs of [] \<Rightarrow> (False, [])
     | x # ys \<Rightarrow> if x = 0x2d then (True, ys) else if x = 0x2b then (False, ys) else (False, xs))"

definition num_base :: "int \<Rightarrow> u8 list \<Rightarrow> int \<times> u8 list" where
  "num_base base xs =
     (case xs of
        x # y # ys \<Rightarrow>
          if (base = 0 \<or> base = 16) \<and> x = 0x30 \<and> (y = 0x78 \<or> y = 0x58) then (16, ys)
          else (if base = 0 then if x = 0x30 then 8 else 10 else base, xs)
      | x # [] \<Rightarrow> (if base = 0 then if x = 0x30 then 8 else 10 else base, xs)
      | [] \<Rightarrow> (if base = 0 then 10 else base, xs))"

text \<open>Sign, base and the characters from the first possible digit on.\<close>

definition num_scan :: "int \<Rightarrow> u8 list \<Rightarrow> bool \<times> int \<times> u8 list" where
  "num_scan base xs =
     (let (neg, ys) = num_sign (dropWhile (\<lambda>c. isspace (uint c)) xs); (b, zs) = num_base base ys
      in (neg, b, zs))"

fun num_digits :: "int \<Rightarrow> u8 list \<Rightarrow> int list" where
  "num_digits b [] = []"
| "num_digits b (x # xs) = (case digit_of (uint x) b of None \<Rightarrow> [] | Some d \<Rightarrow> d # num_digits b xs)"

fun num_value :: "int \<Rightarrow> int \<Rightarrow> int list \<Rightarrow> int" where
  "num_value b v [] = v"
| "num_value b v (d # ds) = num_value b (v * b + d) ds"

section \<open>The digit loop\<close>

lemma digit_of_bounds: "digit_of c b = Some d \<Longrightarrow> 0 \<le> d \<and> d < b"
  by (auto simp: digit_of_def isdigit_def isalpha_def isupper_def islower_def Let_def split: if_splits)

lemma digit_of_nul: "digit_of 0 b = None"
  by (simp add: digit_of_def isdigit_def isalpha_def isupper_def islower_def)

text \<open>Read as a signed or as an unsigned character, a byte is the same digit.\<close>

lemma sint_char: "sint (x :: u8) = uint x \<or> (sint x < 0 \<and> 127 < uint x)"
proof -
  have u: "0 \<le> uint x" "uint x < 256" using uint_lt2p [of x] by simp_all
  have "sint x = (uint x + 128) mod 256 - 128"
    by (simp add: sint_uint signed_take_bit_eq_take_bit_shift take_bit_eq_mod)
  moreover have "(uint x + 128) mod 256 = (if uint x < 128 then uint x + 128 else uint x - 128)"
    using u by (simp add: mod_pos_pos_trivial mod_pos_geq)
  ultimately show ?thesis using u by simp
qed

lemma digit_of_out: "c < 0 \<or> 127 < c \<Longrightarrow> digit_of c b = None"
  by (auto simp: digit_of_def isdigit_def isalpha_def isupper_def islower_def)

lemma digit_of_sint [simp]: "digit_of (sint (x :: u8)) b = digit_of (uint x) b"
  using sint_char [of x] by (auto simp: digit_of_out)

lemma sint_eq_ascii: "0 \<le> k \<Longrightarrow> k < 128 \<Longrightarrow> sint (x :: u8) = k \<longleftrightarrow> uint x = k"
  using sint_char [of x] by auto

lemma num_value_mono:
  assumes "1 \<le> b" "0 \<le> v" "\<forall>d \<in> set ds. 0 \<le> d"
  shows "v \<le> num_value b v ds"
  using assms
proof (induction ds arbitrary: v)
  case (Cons d ds)
  have "v * 1 \<le> v * b" using Cons.prems by (intro mult_left_mono) simp_all
  then have "v \<le> v * b + d" "0 \<le> v * b + d" using Cons.prems by simp_all
  moreover have "v * b + d \<le> num_value b (v * b + d) ds"
    using Cons calculation by simp
  ultimately show ?case by simp
qed simp

lemma num_digits_bounds: "d \<in> set (num_digits b xs) \<Longrightarrow> 0 \<le> d \<and> d < b"
  by (induction xs) (auto split: option.splits dest: digit_of_bounds [OF sym])

text \<open>
  What the three accumulating loops have in common: \<open>rep v\<close> is how the value \<open>v\<close> is held in the
  accumulator and \<open>lim\<close> the largest value it can hold. The loop stops at the first character
  that is no digit, adds a digit while the value stays within \<open>lim\<close>, and otherwise sticks at
  \<open>rep lim\<close> with \<open>any = -1\<close> and \<open>errno = ERANGE\<close>.
\<close>

locale digit_loop =
  fixes loop :: "mem \<Rightarrow> int \<Rightarrow> int \<Rightarrow> u32 \<Rightarrow> int \<Rightarrow> int \<Rightarrow> int \<Rightarrow> (int \<times> int \<times> int \<times> u32) option"
    and rep :: "int \<Rightarrow> int" and lim :: int
  assumes stop: "digit_of c b = None \<Longrightarrow> loop m b c s acc a e = Some (acc, a, e, s)"
    and stuck: "digit_of c b = Some d \<Longrightarrow> a < 0 \<Longrightarrow>
      loop m b c s acc a e = loop m b (uint (m s)) (s + 1) acc a e"
    and step: "digit_of c b = Some d \<Longrightarrow> 2 \<le> b \<Longrightarrow> 0 \<le> a \<Longrightarrow> 0 \<le> v \<Longrightarrow> v \<le> lim \<Longrightarrow>
      loop m b c s (rep v) a e =
        (if v * b + d \<le> lim then loop m b (uint (m s)) (s + 1) (rep (v * b + d)) 1 e
         else loop m b (uint (m s)) (s + 1) (rep lim) (- 1) ERANGE)"
begin

lemma stuck_eq:
  assumes "cstr m p xs" "digit_of c b = digit_of (uint (m p)) b" "a < 0"
  shows "loop m b c (p + 1) acc a e = Some (acc, a, e, p + 1 + of_nat (length (num_digits b xs)))"
  using assms
proof (induction xs arbitrary: p c)
  case Nil
  then show ?case by (simp add: stop digit_of_nul)
next
  case (Cons x xs)
  show ?case
  proof (cases "digit_of (uint x) b")
    case None
    then show ?thesis using Cons.prems by (simp add: stop)
  next
    case (Some d)
    then have "loop m b c (p + 1) acc a e = loop m b (uint (m (p + 1))) (p + 1 + 1) acc a e"
      using Cons.prems by (intro stuck) simp_all
    also have "\<dots> = Some (acc, a, e, p + 1 + 1 + of_nat (length (num_digits b xs)))"
      using Cons.prems by (intro Cons.IH) simp_all
    finally show ?thesis using Some by (simp add: add.assoc)
  qed
qed

lemma loop_eq:
  assumes "cstr m p xs" "digit_of c b = digit_of (uint (m p)) b" "2 \<le> b" "0 \<le> a" "0 \<le> v" "v \<le> lim"
  shows "loop m b c (p + 1) (rep v) a e =
    (let ds = num_digits b xs; r = num_value b v ds; q = p + 1 + of_nat (length ds)
     in if r \<le> lim then Some (rep r, if ds = [] then a else 1, e, q)
        else Some (rep lim, - 1, ERANGE, q))"
  using assms
proof (induction xs arbitrary: p c v a)
  case Nil
  then show ?case by (simp add: stop digit_of_nul)
next
  case (Cons x xs)
  show ?case
  proof (cases "digit_of (uint x) b")
    case None
    then show ?thesis using Cons.prems by (simp add: stop)
  next
    case (Some d)
    have tail: "cstr m (p + 1) xs" using Cons.prems(1) by simp
    have nonneg: "0 \<le> v * b + d" using digit_of_bounds [OF Some] Cons.prems by simp
    have "loop m b c (p + 1) (rep v) a e =
        (if v * b + d \<le> lim then loop m b (uint (m (p + 1))) (p + 1 + 1) (rep (v * b + d)) 1 e
         else loop m b (uint (m (p + 1))) (p + 1 + 1) (rep lim) (- 1) ERANGE)"
      using Some Cons.prems by (intro step) simp_all
    moreover have "v * b + d \<le> num_value b (v * b + d) (num_digits b xs)"
      using nonneg Cons.prems(3) num_digits_bounds by (intro num_value_mono) auto
    ultimately show ?thesis
      using Some Cons.prems nonneg Cons.IH [OF tail refl, of 1 "v * b + d"]
        stuck_eq [OF tail refl, where b = b and a = "- 1" and acc = "rep lim" and e = ERANGE]
      by (simp add: Let_def add.assoc)
  qed
qed

end

text \<open>The three loops of the library meet that description.\<close>

lemma cut_iff:
  fixes v b d l :: int
  assumes "2 \<le> b" "0 \<le> d" "d < b"
  shows "l div b < v \<or> (v = l div b \<and> l mod b < d) \<longleftrightarrow> \<not> v * b + d \<le> l"
proof -
  have l: "l = l div b * b + l mod b" by simp
  have r: "0 \<le> l mod b" "l mod b < b" using assms by simp_all
  consider "v < l div b" | "v = l div b" | "l div b < v" by linarith
  then show ?thesis
  proof cases
    case 1
    then have "(v + 1) * b \<le> l div b * b" using assms by (intro mult_right_mono) simp_all
    then have "v * b + b \<le> l div b * b" by (simp add: algebra_simps)
    then show ?thesis using 1 l r assms by linarith
  next
    case 2
    then have "v * b = l div b * b" by simp
    then show ?thesis using 2 l by linarith
  next
    case 3
    then have "(l div b + 1) * b \<le> v * b" using assms by (intro mult_right_mono) simp_all
    then have "l div b * b + b \<le> v * b" by (simp add: algebra_simps)
    then show ?thesis using 3 l r assms by linarith
  qed
qed

lemma checked_signed_pos: "0 \<le> x \<Longrightarrow> x \<le> 2 ^ (w - 1) - 1 \<Longrightarrow> checked_signed w x = Some x"
  by (auto simp: checked_signed_def intro: order_trans [of _ 0])

lemma checked_signed_neg: "x \<le> 0 \<Longrightarrow> - (2 ^ (w - 1)) \<le> x \<Longrightarrow> checked_signed w x = Some x"
  by (auto simp: checked_signed_def intro: le_less_trans [of _ 0])

lemma wrap_unsigned_id: "0 \<le> x \<Longrightarrow> x < 2 ^ w \<Longrightarrow> wrap_unsigned w x = x"
  by (simp add: wrap_unsigned_def)

lemma truncated_division:
  fixes x b :: int
  assumes "0 \<le> x" "2 \<le> b"
  shows "x sdiv b = x div b" "x smod b = x mod b" "- x sdiv b = - (x div b)" "- x smod b = - (x mod b)"
  using assms by (simp_all add: signed_divide_int_def signed_modulo_int_def minus_div_mult_eq_mod sgn_if)

lemma signed_cut_pos:
  "2 \<le> b \<Longrightarrow> signed_cut w False b = ((2 ^ (w - 1) - 1) div b, (2 ^ (w - 1) - 1) mod b)"
  by (simp add: signed_cut_def Let_def truncated_division)

lemma signed_cut_neg:
  assumes "2 \<le> b"
  shows "signed_cut w True b = (- (2 ^ (w - 1) div b), 2 ^ (w - 1) mod b)"
proof -
  have "\<not> (2 ^ (w - 1) :: int) mod b < 0" using assms by (simp add: not_less)
  then show ?thesis using assms by (auto simp: signed_cut_def Let_def truncated_division)
qed

interpretation signed_pos: digit_loop "\<lambda>m b. signed_loop w m False b" "\<lambda>v. v" "2 ^ (w - 1) - 1" for w
proof
  fix c b d a v e :: int and m and s :: u32
  assume d: "digit_of c b = Some d" and b: "2 \<le> b" and a: "0 \<le> a" and v: "0 \<le> v" "v \<le> 2 ^ (w - 1) - 1"
  have bounds: "0 \<le> d" "d < b" using digit_of_bounds [OF d] by simp_all
  have "0 \<le> v * b" using v b by simp
  then have "checked_signed w (v * b) = Some (v * b) \<and> checked_signed w (v * b + d) = Some (v * b + d)"
    if "v * b + d \<le> 2 ^ (w - 1) - 1"
    using that bounds checked_signed_pos [of "v * b" w] checked_signed_pos [of "v * b + d" w] by simp
  then show "signed_loop w m False b c s v a e =
      (if v * b + d \<le> 2 ^ (w - 1) - 1 then signed_loop w m False b (uint (m s)) (s + 1) (v * b + d) 1 e
       else signed_loop w m False b (uint (m s)) (s + 1) (2 ^ (w - 1) - 1) (- 1) ERANGE)"
    using d a cut_iff [OF b bounds, of "2 ^ (w - 1) - 1" v]
    by (subst signed_loop.simps) (auto simp: signed_cut_pos [OF b])
qed (subst signed_loop.simps; simp)+

interpretation signed_neg: digit_loop "\<lambda>m b. signed_loop w m True b" "\<lambda>v. - v" "2 ^ (w - 1)" for w
proof
  fix c b d a v e :: int and m and s :: u32
  assume d: "digit_of c b = Some d" and b: "2 \<le> b" and a: "0 \<le> a" and v: "0 \<le> v" "v \<le> 2 ^ (w - 1)"
  have bounds: "0 \<le> d" "d < b" using digit_of_bounds [OF d] by simp_all
  have "0 \<le> v * b" using v b by simp
  then have "checked_signed w (- v * b) = Some (- (v * b)) \<and> checked_signed w (- (v * b) - d) = Some (- (v * b + d))"
    if "v * b + d \<le> 2 ^ (w - 1)"
    using that bounds checked_signed_neg [of "- (v * b)" w] checked_signed_neg [of "- (v * b + d)" w] by simp
  then show "signed_loop w m True b c s (- v) a e =
      (if v * b + d \<le> 2 ^ (w - 1) then signed_loop w m True b (uint (m s)) (s + 1) (- (v * b + d)) 1 e
       else signed_loop w m True b (uint (m s)) (s + 1) (- (2 ^ (w - 1))) (- 1) ERANGE)"
    using d a cut_iff [OF b bounds, of "2 ^ (w - 1)" v]
    by (subst signed_loop.simps) (auto simp: signed_cut_neg [OF b])
qed (subst signed_loop.simps; simp)+

interpretation unsigned: digit_loop "unsigned_loop w" "\<lambda>v. v" "2 ^ w - 1" for w
proof
  fix c b d a v e :: int and m and s :: u32
  assume d: "digit_of c b = Some d" and b: "2 \<le> b" and a: "0 \<le> a" and v: "0 \<le> v" "v \<le> 2 ^ w - 1"
  have bounds: "0 \<le> d" "d < b" using digit_of_bounds [OF d] by simp_all
  have "wrap_unsigned w (wrap_unsigned w (v * b) + d) = v * b + d" if "v * b + d \<le> 2 ^ w - 1"
    using that bounds v b by (simp add: wrap_unsigned_id)
  then show "unsigned_loop w m b c s v a e =
      (if v * b + d \<le> 2 ^ w - 1 then unsigned_loop w m b (uint (m s)) (s + 1) (v * b + d) 1 e
       else unsigned_loop w m b (uint (m s)) (s + 1) (2 ^ w - 1) (- 1) ERANGE)"
    using d a cut_iff [OF b bounds, of "2 ^ w - 1" v]
    by (subst unsigned_loop.simps) (auto simp: Let_def)
qed (subst unsigned_loop.simps; simp)+

section \<open>The scanner\<close>

lemma skip_space_eq:
  "cstr m p xs \<Longrightarrow>
    skip_space m p = (let n = length (takeWhile (\<lambda>c. isspace (uint c)) xs)
      in Some (uint (m (p + of_nat n)), p + of_nat n + 1))"
proof (induction xs arbitrary: p)
  case Nil
  then show ?case by (subst skip_space.simps) (simp add: isspace_def)
next
  case (Cons x xs)
  then show ?case
    using Cons.IH [of "p + 1"] by (subst skip_space.simps) (simp add: Let_def add.assoc)
qed

text \<open>
  The character in hand and the string behind it: \<open>c\<close> is the byte at \<open>p\<close>, read as a signed or
  unsigned character, and \<open>xs\<close> is the string at \<open>p\<close>.
\<close>

definition at_char :: "mem \<Rightarrow> u32 \<Rightarrow> int \<Rightarrow> u8 list \<Rightarrow> bool" where
  "at_char m p c xs \<longleftrightarrow> cstr m p xs \<and> (c = uint (m p) \<or> c = sint (m p))"

lemma at_char_eq: "at_char m p c xs \<Longrightarrow> 0 \<le> k \<Longrightarrow> k < 128 \<Longrightarrow> c = k \<longleftrightarrow> uint (m p) = k"
  using sint_eq_ascii [of k "m p"] by (auto simp: at_char_def)

lemma at_char_digit: "at_char m p c xs \<Longrightarrow> digit_of c b = digit_of (uint (m p)) b"
  by (auto simp: at_char_def)

lemma byte_eq_iff: "(x :: u8) = y \<longleftrightarrow> uint x = uint y"
  by (simp add: word_uint_eq_iff)

lemma scan_sign_eq:
  assumes "cstr m p xs" "num_sign xs = (neg, ys)"
  shows "\<exists>c. scan_sign m (uint (m p)) (p + 1) = (neg, c, p + of_nat (length xs - length ys) + 1) \<and>
    at_char m (p + of_nat (length xs - length ys)) c ys \<and> length ys \<le> length xs"
proof (cases xs)
  case Nil
  then show ?thesis using assms by (auto simp: num_sign_def scan_sign_def at_char_def)
next
  case (Cons x zs)
  then show ?thesis
    using assms by (auto simp: num_sign_def scan_sign_def at_char_def byte_eq_iff split: if_splits)
qed

lemma scan_base_eq:
  assumes "at_char m p c xs" "num_base base xs = (b, ys)"
  shows "\<exists>c'. scan_base m base c (p + 1) = (b, c', p + of_nat (length xs - length ys) + 1) \<and>
    at_char m (p + of_nat (length xs - length ys)) c' ys \<and> length ys \<le> length xs"
proof -
  have str: "cstr m p xs" and c0: "c = 0x30 \<longleftrightarrow> m p = 0x30"
    using assms(1) at_char_eq [OF assms(1), of "0x30"] by (simp_all add: at_char_def byte_eq_iff)
  consider "xs = []" | x where "xs = [x]" | x y zs where "xs = x # y # zs"
    by (metis list.exhaust)
  then show ?thesis
  proof cases
    case 1
    then show ?thesis using assms str c0 by (auto simp: num_base_def scan_base_def)
  next
    case 2
    then show ?thesis using assms str c0 by (auto simp: num_base_def scan_base_def)
  next
    case 3
    then show ?thesis
      using assms str c0 by (auto simp: num_base_def scan_base_def at_char_def add.assoc split: if_splits)
  qed
qed

lemma scan_eq:
  assumes "cstr m nptr xs" "num_scan base xs = (neg, b, ys)"
  obtains c1 s1 c2 s2 c where
    "skip_space m nptr = Some (c1, s1)" "scan_sign m c1 s1 = (neg, c2, s2)"
    "scan_base m base c2 s2 = (b, c, nptr + of_nat (length xs - length ys) + 1)"
    "at_char m (nptr + of_nat (length xs - length ys)) c ys"
proof -
  define sp where "sp = length (takeWhile (\<lambda>c. isspace (uint c)) xs)"
  define xs1 where "xs1 = dropWhile (\<lambda>c. isspace (uint c)) xs"
  obtain xs2 where sign: "num_sign xs1 = (neg, xs2)" and base: "num_base base xs2 = (b, ys)"
    using assms(2) by (auto simp: num_scan_def xs1_def split: prod.splits)
  have sp: "sp \<le> length xs" by (simp add: sp_def length_takeWhile_le)
  have xs1: "xs1 = drop sp xs" "length xs1 = length xs - sp"
    by (simp_all add: sp_def xs1_def dropWhile_eq_drop)
  let ?p = "nptr + of_nat sp"
  have "cstr m ?p xs1" using cstr_drop [OF assms(1) sp] by (simp add: xs1)
  from scan_sign_eq [OF this sign] obtain c2 where
    c2: "scan_sign m (uint (m ?p)) (?p + 1) = (neg, c2, ?p + of_nat (length xs1 - length xs2) + 1)"
      "at_char m (?p + of_nat (length xs1 - length xs2)) c2 xs2" "length xs2 \<le> length xs1" by blast
  from scan_base_eq [OF c2(2) base] obtain c where
    c: "scan_base m base c2 (?p + of_nat (length xs1 - length xs2) + 1) =
        (b, c, ?p + of_nat (length xs1 - length xs2) + of_nat (length xs2 - length ys) + 1)"
      "at_char m (?p + of_nat (length xs1 - length xs2) + of_nat (length xs2 - length ys)) c ys"
      "length ys \<le> length xs2" by blast
  have len: "length xs - length ys = sp + (length xs1 - length xs2) + (length xs2 - length ys)"
    using sp xs1(2) c2(3) c(3) by simp
  have pos: "?p + of_nat (length xs1 - length xs2) + of_nat (length xs2 - length ys) =
      nptr + of_nat (length xs - length ys)"
    by (simp only: len of_nat_add add.assoc)
  have "skip_space m nptr = Some (uint (m ?p), ?p + 1)"
    using skip_space_eq [OF assms(1)] by (simp add: sp_def Let_def)
  from that [OF this c2(1)] c(1,2) show ?thesis by (simp only: pos)
qed

lemma num_scan_base:
  assumes "num_scan base xs = (neg, b, ys)" "base = 0 \<or> 2 \<le> base"
  shows "2 \<le> b"
  using assms by (auto simp: num_scan_def num_base_def split: prod.splits list.splits if_splits)

lemma num_value_nonneg: "2 \<le> b \<Longrightarrow> 0 \<le> num_value b 0 (num_digits b xs)"
  using num_value_mono [of b 0 "num_digits b xs"] num_digits_bounds by force

definition num_end :: "u32 \<Rightarrow> u8 list \<Rightarrow> u8 list \<Rightarrow> int list \<Rightarrow> u32" where
  "num_end nptr xs ys ds = (if ds = [] then nptr else nptr + of_nat (length xs - length ys + length ds))"

lemma strto_signed_eq:
  assumes str: "cstr m nptr xs" and base: "base = 0 \<or> 2 \<le> base \<and> base \<le> 36"
    and scan: "num_scan base xs = (neg, b, ys)"
  defines "ds \<equiv> num_digits b ys"
  defines "v \<equiv> (if neg then - num_value b 0 ds else num_value b 0 ds)"
  shows "strto_signed w m errno nptr endptr base =
    Some (store_end m endptr (num_end nptr xs ys ds),
          if - (2 ^ (w - 1)) \<le> v \<and> v < 2 ^ (w - 1) then errno else ERANGE,
          max (- (2 ^ (w - 1))) (min (2 ^ (w - 1) - 1) v))"
proof -
  have b: "2 \<le> b" using num_scan_base [OF scan] base by auto
  let ?p = "nptr + of_nat (length xs - length ys)"
  obtain c1 s1 c2 s2 c where scanned: "skip_space m nptr = Some (c1, s1)" "scan_sign m c1 s1 = (neg, c2, s2)"
      "scan_base m base c2 s2 = (b, c, ?p + 1)" and at: "at_char m ?p c ys"
    by (rule scan_eq [OF str scan])
  note start = at [unfolded at_char_def, THEN conjunct1] at_char_digit [OF at]
  have nn: "0 \<le> num_value b 0 ds" using num_value_nonneg [OF b] by (simp add: ds_def)
  have guard: "\<not> (base < 0 \<or> base = 1 \<or> base > 36)" using base by auto
  have two: "(1 :: int) \<le> 2 ^ (w - 1)" by simp
  show ?thesis
  proof (cases neg)
    case True
    have "signed_loop w m True b c (?p + 1) 0 0 errno =
      (if num_value b 0 ds \<le> 2 ^ (w - 1)
       then Some (- num_value b 0 ds, if ds = [] then 0 else 1, errno, ?p + 1 + of_nat (length ds))
       else Some (- (2 ^ (w - 1)), - 1, ERANGE, ?p + 1 + of_nat (length ds)))"
      using signed_neg.loop_eq [OF start b, of 0 0 w errno] by (simp add: ds_def Let_def)
    moreover have "- num_value b 0 ds < 2 ^ (w - 1)" using nn two by linarith
    ultimately show ?thesis
      using scanned guard nn two True
      by (auto simp: strto_signed_def v_def num_end_def add.assoc)
  next
    case False
    have "signed_loop w m False b c (?p + 1) 0 0 errno =
      (if num_value b 0 ds \<le> 2 ^ (w - 1) - 1
       then Some (num_value b 0 ds, if ds = [] then 0 else 1, errno, ?p + 1 + of_nat (length ds))
       else Some (2 ^ (w - 1) - 1, - 1, ERANGE, ?p + 1 + of_nat (length ds)))"
      using signed_pos.loop_eq [OF start b, of 0 0 w errno] by (simp add: ds_def Let_def)
    then show ?thesis
      using scanned guard nn two False
      by (auto simp: strto_signed_def v_def num_end_def add.assoc)
  qed
qed

lemma strto_unsigned_eq:
  assumes str: "cstr m nptr xs" and base: "base = 0 \<or> 2 \<le> base \<and> base \<le> 36"
    and scan: "num_scan base xs = (neg, b, ys)"
  defines "ds \<equiv> num_digits b ys"
  defines "v \<equiv> num_value b 0 ds"
  shows "strto_unsigned w m errno nptr endptr base =
    Some (store_end m endptr (num_end nptr xs ys ds),
          if v < 2 ^ w then errno else ERANGE,
          if v < 2 ^ w then (if neg then (- v) mod 2 ^ w else v) else 2 ^ w - 1)"
proof -
  have b: "2 \<le> b" using num_scan_base [OF scan] base by auto
  let ?p = "nptr + of_nat (length xs - length ys)"
  obtain c1 s1 c2 s2 c where scanned: "skip_space m nptr = Some (c1, s1)" "scan_sign m c1 s1 = (neg, c2, s2)"
      "scan_base m base c2 s2 = (b, c, ?p + 1)" and at: "at_char m ?p c ys"
    by (rule scan_eq [OF str scan])
  have "unsigned_loop w m b c (?p + 1) 0 0 errno =
      (if v \<le> 2 ^ w - 1 then Some (v, if ds = [] then 0 else 1, errno, ?p + 1 + of_nat (length ds))
       else Some (2 ^ w - 1, - 1, ERANGE, ?p + 1 + of_nat (length ds)))"
    using unsigned.loop_eq [OF at [unfolded at_char_def, THEN conjunct1] at_char_digit [OF at] b,
        of 0 0 w errno]
    by (simp add: ds_def v_def Let_def)
  moreover have "\<not> (base < 0 \<or> base = 1 \<or> base > 36)" using base by auto
  ultimately show ?thesis
    using scanned by (auto simp: strto_unsigned_def num_end_def wrap_unsigned_def v_def add.assoc)
qed

section \<open>The generator\<close>

lemma xor_eq_0_iff: "x XOR y = 0 \<longleftrightarrow> x = (y :: u32)"
  by (auto simp: bit_eq_iff bit_simps)

lemma drop_bit_fixpoint: "0 < n \<Longrightarrow> x = drop_bit n x \<longleftrightarrow> x = (0 :: u32)"
proof
  assume n: "0 < n" and x: "x = drop_bit n x"
  have "drop_bit (k * n) x = x" for k
    by (induction k) (simp_all add: x [symmetric] drop_bit_drop_bit [symmetric])
  then have "x = drop_bit (32 * n) x" by simp
  also have "\<dots> = 0"
  proof (rule bit_word_eqI)
    fix i
    have "32 \<le> 32 * n + i" using n by simp
    then show "bit (drop_bit (32 * n) x) i = bit 0 i"
      using bit_imp_le_length [of x "32 * n + i"] by (auto simp: bit_drop_bit_eq)
  qed
  finally show "x = 0" .
qed simp

lemma push_bit_fixpoint: "0 < n \<Longrightarrow> x = push_bit n x \<longleftrightarrow> x = (0 :: u32)"
proof
  assume n: "0 < n" and x: "x = push_bit n x"
  have "push_bit (k * n) x = x" for k
    by (induction k) (simp_all add: x [symmetric] push_bit_push_bit [symmetric])
  then have "x = push_bit (32 * n) x" by simp
  also have "\<dots> = 0" using n by (intro bit_word_eqI) (simp add: bit_simps)
  finally show "x = 0" .
qed simp

lemma c_abs_negative: "sint (c_abs z) < 0 \<longleftrightarrow> z = 0x80000000"
proof (cases "sint z < 0")
  case True
  show ?thesis
  proof (cases "sint z = - (2 ^ 31)")
    case True
    then have "z = word_of_int (- (2 ^ 31))" by (metis scast_eq scast_id)
    then show ?thesis by (simp add: c_abs_def)
  next
    case False
    have "- (2 ^ 31) \<le> sint z" using sint_ge [of z] by simp
    then have "signed_take_bit 31 (- sint z) = - sint z"
      using False True by (intro signed_take_bit_int_eq_self) simp_all
    then have "sint (- z) = - sint z" by (simp add: sint_word_ariths)
    then show ?thesis using True False by (auto simp: c_abs_def)
  qed
qed (auto simp: c_abs_def)

section \<open>Properties\<close>

text \<open>
  C38. \<open>strtol\<close> and \<open>strtoll\<close>, for every terminated string and every base. A base that is negative, 1 or
  above 36 is refused: the result is 0, \<open>errno\<close> is \<open>EINVAL\<close> and \<open>*endptr\<close> is \<open>nptr\<close>. Otherwise the result is the
  number the string denotes, clamped to the range of \<open>long\<close> and \<open>long long\<close>: white space, an optional
  sign and, for base 0 and 16, a \<open>0x\<close> prefix are skipped, base 0 means 8 after a leading 0 and 10
  otherwise, and the digits up to the first character that is no digit of the base are read. \<open>errno\<close>
  becomes \<open>ERANGE\<close> exactly when the number does not fit and is kept otherwise; \<open>*endptr\<close> (unless
  \<open>endptr\<close> is null) is the end of the digits, or \<open>nptr\<close> when there are none. The conversions return for
  every string, and no operation on the signed accumulator overflows: an overflow would have no result.
\<close>

theorem strtol_value:
  assumes "cstr m nptr xs" "num_scan base xs = (neg, b, ys)"
    "ds = num_digits b ys" "v = (if neg then - num_value b 0 ds else num_value b 0 ds)"
  shows "if base < 0 \<or> base = 1 \<or> 36 < base
    then strtol m errno nptr endptr base = Some (store_end m endptr nptr, EINVAL, 0) \<and>
      strtoll m errno nptr endptr base = Some (store_end m endptr nptr, EINVAL, 0)
    else strtol m errno nptr endptr base =
      Some (store_end m endptr (num_end nptr xs ys ds),
        if - (2 ^ 31) \<le> v \<and> v < 2 ^ 31 then errno else ERANGE, max (- (2 ^ 31)) (min (2 ^ 31 - 1) v)) \<and>
    strtoll m errno nptr endptr base =
      Some (store_end m endptr (num_end nptr xs ys ds),
        if - (2 ^ 63) \<le> v \<and> v < 2 ^ 63 then errno else ERANGE, max (- (2 ^ 63)) (min (2 ^ 63 - 1) v))"
proof (cases "base < 0 \<or> base = 1 \<or> 36 < base")
  case True
  then show ?thesis by (auto simp: strtol_def strtoll_def strto_signed_def)
next
  case False
  then have base: "base = 0 \<or> 2 \<le> base \<and> base \<le> 36" by auto
  show ?thesis
    unfolding if_not_P [OF False] strtol_def strtoll_def assms(3,4)
    using strto_signed_eq [OF assms(1) base assms(2), of 32] strto_signed_eq [OF assms(1) base assms(2), of 64]
    by (simp split del: if_split)
qed

definition number_mem :: mem where
  "number_mem = stored (\<lambda>a. 0) 0x1000 [0x20, 0x2d, 0x30, 0x78, 0x31, 0x46, 0x7a]"

text \<open>\<open>strtol(" -0x1Fz", 0x2000, 0)\<close> is -31 and leaves the end pointer at the \<open>z\<close>.\<close>

theorem strtol_value_witness:
  "strtol number_mem 0 0x1000 0x2000 0 = Some (write_long number_mem 0x2000 0x1006, 0, - 31)"
proof -
  have "cstr number_mem 0x1000 [0x20, 0x2d, 0x30, 0x78, 0x31, 0x46, 0x7a]"
    by (simp add: number_mem_def stored_def in_range_def)
  from strtol_value [OF this _ refl refl, where base = 0 and neg = True and b = 16 and ys = "[0x31, 0x46, 0x7a]"
      and errno = 0 and endptr = "0x2000"]
  show ?thesis
    by (simp add: num_scan_def num_sign_def num_base_def num_end_def store_end_def isspace_def digit_of_def
      isdigit_def isalpha_def isupper_def islower_def ERANGE_def)
qed

text \<open>
  \<open>strtoul\<close> and \<open>strtoull\<close> return the magnitude a string denotes when it fits, negated modulo the
  word size after a minus sign, and otherwise the largest value with \<open>errno = ERANGE\<close>, sign or not.
\<close>

theorem strtoul_value:
  assumes "cstr m nptr xs" "base = 0 \<or> 2 \<le> base \<and> base \<le> 36" "num_scan base xs = (neg, b, ys)"
    "ds = num_digits b ys" "v = num_value b 0 ds"
  shows "strtoul m errno nptr endptr base =
      Some (store_end m endptr (num_end nptr xs ys ds), if v < 2 ^ 32 then errno else ERANGE,
        if v < 2 ^ 32 then (if neg then (- v) mod 2 ^ 32 else v) else 2 ^ 32 - 1) \<and>
    strtoull m errno nptr endptr base =
      Some (store_end m endptr (num_end nptr xs ys ds), if v < 2 ^ 64 then errno else ERANGE,
        if v < 2 ^ 64 then (if neg then (- v) mod 2 ^ 64 else v) else 2 ^ 64 - 1)"
  using strto_unsigned_eq [OF assms(1-3), of 32] strto_unsigned_eq [OF assms(1-3), of 64]
  by (simp add: strtoul_def strtoull_def assms(4,5))

theorem strtoul_value_witness:
  "strtoul number_mem 0 0x1000 0 16 = Some (number_mem, 0, 2 ^ 32 - 31)"
proof -
  have "cstr number_mem 0x1000 [0x20, 0x2d, 0x30, 0x78, 0x31, 0x46, 0x7a]"
    by (simp add: number_mem_def stored_def in_range_def)
  from strtoul_value [OF this _ _ refl refl, where base = 16 and neg = True and b = 16 and ys = "[0x31, 0x46, 0x7a]"
      and errno = 0 and endptr = 0]
  show ?thesis
    by (simp add: num_scan_def num_sign_def num_base_def store_end_def isspace_def digit_of_def
      isdigit_def isalpha_def isupper_def islower_def)
qed

text \<open>
  A base that is negative, 1 or above 36 is refused by all four conversions: the result is 0,
  \<open>errno\<close> is \<open>EINVAL\<close> and \<open>*endptr\<close> is \<open>nptr\<close>, whatever memory holds.
\<close>

theorem strto_bad_base:
  assumes "base < 0 \<or> base = 1 \<or> 36 < base" "f \<in> {strtol, strtoll, strtoul, strtoull}"
  shows "f m errno nptr endptr base = Some (if endptr = 0 then m else write_long m endptr nptr, 22, 0)"
  using assms
  by (auto simp: strtol_def strtoll_def strtoul_def strtoull_def strto_signed_def strto_unsigned_def
    store_end_def EINVAL_def)

theorem strto_bad_base_witness:
  "strtoul number_mem 0 0x1000 0 37 = Some (number_mem, 22, 0)"
  using strto_bad_base [of 37 strtoul number_mem 0 "0x1000" 0] by simp

text \<open>
  The generator behind \<open>rand\<close>: a nonzero state never becomes zero (and a zero state, the initial
  one, stays zero), and the result is in \<open>0 .. 2^31 - 1\<close> with one exception: in the state
  0x80000000 \<open>abs\<close> overflows and \<open>rand\<close> returns \<open>INT_MIN\<close>, which the seed 0x94a1ad4f reaches.
\<close>

theorem rand_state_and_range:
  "(fst (c_rand x) = 0 \<longleftrightarrow> x = 0) \<and>
   (sint (snd (c_rand x)) < 0 \<longleftrightarrow> fst (c_rand x) = 0x80000000) \<and>
   c_rand (c_srand 0x94a1ad4f y) = (0x80000000, 0x80000000)"
proof -
  have "fst (c_rand x) = 0 \<longleftrightarrow> x = 0"
    by (simp only: c_rand_def Let_def fst_conv xor_eq_0_iff drop_bit_fixpoint push_bit_fixpoint
      zero_less_numeral)
  moreover have "c_rand (c_srand 0x94a1ad4f y) = (0x80000000, 0x80000000)"
    by (simp add: c_rand_def c_srand_def c_abs_def Let_def)
  moreover have "sint (snd (c_rand x)) < 0 \<longleftrightarrow> fst (c_rand x) = 0x80000000"
    by (simp only: c_rand_def Let_def fst_conv snd_conv c_abs_negative)
  ultimately show ?thesis by blast
qed

end
