(* ===== verification/Print_Parse.thy ===== *)
theory Print_Parse
  imports Printf_Numbers Stdlib
begin

text \<open>
  \<open>printf\<close> (CLibrary/printf.c) and \<open>strtol\<close>, \<open>strtoul\<close>, \<open>strtoll\<close> (CLibrary/strtol.c and others) are
  inverse to each other: a number that is printed is read back.
\<close>

section \<open>Reading digits\<close>

lemma digit_of_dec_char:
  assumes "d < b" "b \<le> 10"
  shows "digit_of (uint (dec_char d)) (int b) = Some (int d)"
proof -
  have "\<forall>d \<in> set [0..<10]. isdigit (uint (dec_char d)) \<and> uint (dec_char d) = 48 + int d" by code_simp
  moreover have "d \<in> set [0..<10]" using assms unfolding set_upt by simp
  ultimately have "isdigit (uint (dec_char d))" and u: "uint (dec_char d) = 48 + int d" by blast+
  then have "isdigit (48 + int d)" by simp
  then show ?thesis unfolding u using assms by (simp add: digit_of_def)
qed

lemma digit_of_hex:
  assumes "d < 16"
  shows "digit_of (uint (hexdigits ! d)) 16 = Some (int d)"
proof -
  have "\<forall>d \<in> set [0..<16]. digit_of (uint (hexdigits ! d)) 16 = Some (int d)" by code_simp
  then show ?thesis using assms by (simp only: set_upt atLeastLessThan_iff) auto
qed

lemma num_digits_map:
  assumes "\<And>d. d \<in> set ds \<Longrightarrow> digit_of (uint (dig d)) b = Some (int d)"
  shows "num_digits b (map dig ds) = map int ds"
  using assms by (induction ds) simp_all

lemma num_value_foldl: "num_value (int b) (int v) (map int ds) = int (foldl (\<lambda>a d. a * b + d) v ds)"
  by (induction ds arbitrary: v) (simp_all flip: of_nat_mult of_nat_add)

lemma numeral_digits_read:
  assumes "2 \<le> b" "\<And>d. d < b \<Longrightarrow> digit_of (uint (dig d)) (int b) = Some (int d)"
  shows "num_digits (int b) (map dig (numeral_digits b n)) = map int (numeral_digits b n)"
    "num_value (int b) 0 (map int (numeral_digits b n)) = int n"
proof -
  show "num_digits (int b) (map dig (numeral_digits b n)) = map int (numeral_digits b n)"
    using numeral_digits_less [OF assms(1)] assms(2) by (intro num_digits_map) blast
  show "num_value (int b) 0 (map int (numeral_digits b n)) = int n"
    using num_value_foldl [of b 0] numeral_digits_value [OF assms(1)] by simp
qed

lemma dec_char_plain:
  assumes "d < 10"
  shows "\<not> isspace (uint (dec_char d))" "dec_char d \<noteq> 0x2d" "dec_char d \<noteq> 0x2b" "dec_char d \<noteq> 0"
proof -
  have "\<forall>d \<in> set [0..<10]. \<not> isspace (uint (dec_char d)) \<and> dec_char d \<noteq> 0x2d \<and> dec_char d \<noteq> 0x2b \<and> dec_char d \<noteq> 0"
    by code_simp
  moreover have "d \<in> set [0..<10]" using assms unfolding set_upt by simp
  ultimately show "\<not> isspace (uint (dec_char d))" "dec_char d \<noteq> 0x2d" "dec_char d \<noteq> 0x2b" "dec_char d \<noteq> 0"
    by blast+
qed

lemma num_scan_decimal:
  assumes "sg \<in> {0, 0x2d}"
  shows "num_scan 10 ((if sg \<noteq> 0 then [sg] else []) @ map dec_char (numeral_digits 10 n))
    = (sg \<noteq> 0, 10, map dec_char (numeral_digits 10 n))"
proof -
  have "numeral_digits 10 n \<noteq> []" using numeral_digits_pos [of 10 n] by simp
  then obtain d ds where ds: "numeral_digits 10 n = d # ds" by (cases "numeral_digits 10 n") auto
  then have "d < 10" using numeral_digits_less [of 10 n] by simp
  note plain = dec_char_plain [OF this]
  have nb: "num_base 10 xs = (10, xs)" for xs by (simp add: num_base_def split: list.split)
  show ?thesis
  proof (cases "sg = 0")
    case True
    then show ?thesis using plain by (simp add: ds num_scan_def num_sign_def nb)
  next
    case False
    then have "sg = 0x2d" using assms by simp
    moreover have "\<not> isspace 45" by (simp add: isspace_def)
    ultimately show ?thesis by (simp add: ds num_scan_def num_sign_def nb)
  qed
qed

lemma num_scan_hex:
  "num_scan 0 (0x30 # 0x78 # xs) = (False, 16, xs)" "num_scan 0 [0x30] = (False, 8, [0x30])"
  by (simp_all add: num_scan_def num_sign_def num_base_def isspace_def)

section \<open>Printing and reading back\<close>

definition plain_spec :: "u32 \<Rightarrow> fspec" where
  "plain_spec fl = \<lparr>flags = fl, fwidth = 0, prec = -1, sign = 0\<rparr>"

definition decimal_text :: "int \<Rightarrow> u8 list" where
  "decimal_text v = (if v < 0 then [0x2d] else []) @ map dec_char (numeral_digits 10 (nat \<bar>v\<bar>))"

lemma unat_abs:
  fixes q :: u64
  shows "unat (if sint q < 0 then - q else q) = nat \<bar>sint q\<bar>"
proof (cases "sint q < 0")
  case True
  have "uint (- q) = uint (word_of_int (- sint q) :: u64)" by simp
  also have "\<dots> = (- sint q) mod 2 ^ LENGTH(64)" by (rule uint_word_of_int)
  also have "\<dots> = - sint q"
    using True sint_range_size [of q] by (intro mod_pos_pos_trivial) (simp_all add: word_size)
  finally show ?thesis using True by (simp flip: nat_uint_eq)
next
  case False
  have "uint q = uint (word_of_int (sint q) :: u64)" by simp
  also have "\<dots> = sint q mod 2 ^ LENGTH(64)" by (rule uint_word_of_int)
  also have "\<dots> = sint q"
    using False sint_range_size [of q] by (intro mod_pos_pos_trivial) (simp_all add: word_size)
  finally have "uint q = sint q" .
  then show ?thesis using False by (simp flip: nat_uint_eq)
qed

lemma length_number_64: "length (numeral_digits 10 (nat \<bar>sint (q :: u64)\<bar>)) \<le> 20"
  using length_digits_64(2) [of "if sint q < 0 then - q else q"] by (simp only: unat_abs)

lemma vprintf_signed:
  assumes scan: "reswitch (fst (fetch fmt)) (snd (fetch fmt)) ap \<lparr>flags = 0, fwidth = 0, prec = -1, sign = 0\<rparr>
      = Some (0x64, [], ap1, plain_spec fl)"
    and arg: "SARG fl ap1 = Some (q, ap2)"
    and fl: "\<not> flag_set fl LADJUST" "\<not> flag_set fl ZEROPAD" "\<not> flag_set fl HEXPREFIX"
  shows "vprintf (0x25 # fmt) ap m = Some (int (length (decimal_text (sint q))), m, decimal_text (sint q))"
proof -
  let ?q = "if sint q < 0 then - q else q"
  let ?sp = "(plain_spec fl)\<lparr>sign := (if sint q < 0 then 0x2d else 0)\<rparr>"
  have lay: "number_layout DEC [] 0x64 ?sp ?q = decimal_text (sint q)"
    using fl unat_abs [of q]
    by (subst plain_layout) (simp_all add: plain_spec_def decimal_text_def digit_char_def base_of_def)
  have "vprintf (0x25 # fmt) ap m = Some (int (length (number_layout DEC [] 0x64 ?sp ?q)), m, number_layout DEC [] 0x64 ?sp ?q)"
  proof (rule vprintf_number [OF scan])
    show "conversion 0x64 ap1 (plain_spec fl) 0 m bf = number_field DEC ?q [] 0x64 ?sp ap2 bf" for bf
      by (simp add: conversion_def arg plain_spec_def)
    show "int (length (number_layout DEC [] 0x64 ?sp ?q)) < 2 ^ 31"
      unfolding lay using length_number_64 [of q] by (auto simp: decimal_text_def)
  qed
  then show ?thesis unfolding lay .
qed

lemma vprintf_unsigned:
  assumes scan: "reswitch (fst (fetch fmt)) (snd (fetch fmt)) ap \<lparr>flags = 0, fwidth = 0, prec = -1, sign = 0\<rparr>
      = Some (0x75, [], ap1, plain_spec fl)"
    and arg: "UARG fl ap1 = Some (q, ap2)"
    and fl: "\<not> flag_set fl LADJUST" "\<not> flag_set fl ZEROPAD" "\<not> flag_set fl HEXPREFIX"
  shows "vprintf (0x25 # fmt) ap m = Some (int (length (decimal_text (uint q))), m, decimal_text (uint q))"
proof -
  have lay: "number_layout DEC [] 0x75 (plain_spec fl) q = decimal_text (uint q)"
    using fl by (subst plain_layout) (simp_all add: plain_spec_def decimal_text_def digit_char_def base_of_def)
  have "vprintf (0x25 # fmt) ap m
      = Some (int (length (number_layout DEC [] 0x75 (plain_spec fl) q)), m, number_layout DEC [] 0x75 (plain_spec fl) q)"
  proof (rule vprintf_number [OF scan])
    show "conversion 0x75 ap1 (plain_spec fl) 0 m bf = number_field DEC q [] 0x75 (plain_spec fl) ap2 bf" for bf
      by (simp add: conversion_def arg plain_spec_def)
    show "int (length (number_layout DEC [] 0x75 (plain_spec fl) q)) < 2 ^ 31"
      unfolding lay using length_digits_64(2) [of q] by (simp add: decimal_text_def)
  qed
  then show ?thesis unfolding lay .
qed

lemma unat_ucast_quad: "unat (ucast (w :: u32) :: u64) = unat w"
proof -
  have "uint (ucast w :: u64) = uint w" by (simp add: uint_up_ucast is_up)
  then show ?thesis by (metis nat_uint_eq)
qed

lemma vprintf_alt_hex:
  "vprintf [0x25, 0x23, 0x78] [w] m =
    (let cs = (if w = 0 then [0x30] else 0x30 # 0x78 # map ((!) hexdigits) (numeral_digits 16 (unat w)))
     in Some (int (length cs), m, cs))"
proof -
  let ?sp = "plain_spec (if w = 0 then ALT else ALT OR HEXPREFIX)"
  let ?cs = "if w = 0 then [0x30] else 0x30 # 0x78 # map ((!) hexdigits) (numeral_digits 16 (unat w))"
  have "number_layout HEX hexdigits 0x78 ?sp (ucast w) = (if w = 0 then [] else [0x30, 0x78]) @
      map ((!) hexdigits) (numeral_digits 16 (unat w))"
    by (subst plain_layout) (simp_all add: plain_spec_def flag_set_def ALT_def HEXPREFIX_def LADJUST_def
        ZEROPAD_def digit_char_def base_of_def unat_ucast_quad)
  moreover have "map ((!) hexdigits) (numeral_digits 16 0) = [0x30]"
    by (subst numeral_digits_step) (simp_all add: hexdigits_def)
  ultimately have lay: "number_layout HEX hexdigits 0x78 ?sp (ucast w) = ?cs" by auto
  have "vprintf [0x25, 0x23, 0x78] [w] m
      = Some (int (length (number_layout HEX hexdigits 0x78 ?sp (ucast w))), m, number_layout HEX hexdigits 0x78 ?sp (ucast w))"
  proof (rule vprintf_number)
    show "reswitch (fst (fetch [0x23, 0x78])) (snd (fetch [0x23, 0x78])) [w] \<lparr>flags = 0, fwidth = 0, prec = -1, sign = 0\<rparr>
        = Some (0x78, [], [w], plain_spec ALT)"
      by (simp add: fetch_def reswitch.simps [of "0x23"] reswitch.simps [of "0x78"] plain_spec_def)
    have "(ucast w :: u64) = 0 \<longleftrightarrow> w = 0" by (simp add: word_unat_eq_iff unat_ucast_quad)
    then show "conversion 0x78 [w] (plain_spec ALT) 0 m bf = number_field HEX (ucast w) hexdigits 0x78 ?sp [] bf" for bf
      by (simp add: conversion_def plain_spec_def UARG_def flag_set_def ALT_def HEXPREFIX_def MAXINT_def PTRINT_def
          SIZEINT_def QUADINT_def LONGINT_def SHORTINT_def va_int_def)
    show "int (length (number_layout HEX hexdigits 0x78 ?sp (ucast w))) < 2 ^ 31"
      unfolding lay using length_digits_64(3) [of "ucast w"] by (simp add: unat_ucast_quad)
  qed
  then show ?thesis unfolding lay by (simp add: Let_def)
qed

lemma decimal_scan:
  "num_scan 10 (decimal_text v) = (v < 0, 10, map dec_char (numeral_digits 10 (nat \<bar>v\<bar>)))"
  using num_scan_decimal [of 0] num_scan_decimal [of "0x2d"]
  by (cases "v < 0") (simp_all add: decimal_text_def)

lemma decimal_end:
  "num_end p (decimal_text v) (map dec_char (numeral_digits 10 n)) (map int (numeral_digits 10 n))
    = p + of_nat (length (decimal_text v))"
  if "n = nat \<bar>v\<bar>"
  using that numeral_digits_pos [of 10 n] by (simp add: num_end_def decimal_text_def)

lemma dec_digits_read:
  "num_digits 10 (map dec_char (numeral_digits 10 n)) = map int (numeral_digits 10 n)"
  "num_value 10 0 (map int (numeral_digits 10 n)) = int n"
  using numeral_digits_read [of 10 dec_char n] digit_of_dec_char [of _ 10] by simp_all

lemma read_signed:
  assumes "cstr m p (decimal_text v)" "- (2 ^ (w - 1)) \<le> v" "v < 2 ^ (w - 1)"
  shows "strto_signed w m errno p endptr 10
    = Some (store_end m endptr (p + of_nat (length (decimal_text v))), errno, v)"
  using strto_signed_eq [OF assms(1) _ decimal_scan, of w errno endptr] assms(2,3)
  by (simp add: dec_digits_read decimal_end)

lemma read_unsigned:
  assumes "cstr m p (decimal_text v)" "0 \<le> v" "v < 2 ^ w"
  shows "strto_unsigned w m errno p endptr 10
    = Some (store_end m endptr (p + of_nat (length (decimal_text v))), errno, v)"
  using strto_unsigned_eq [OF assms(1) _ decimal_scan, of w errno endptr] assms(2,3)
  by (simp add: dec_digits_read decimal_end)

lemma read_hex:
  assumes "cstr m p (if n = 0 then [0x30] else 0x30 # 0x78 # map ((!) hexdigits) (numeral_digits 16 n))" "n < 2 ^ 32"
  shows "strto_unsigned 32 m errno p endptr 0
    = Some (store_end m endptr (p + of_nat (if n = 0 then 1 else 2 + length (numeral_digits 16 n))), errno, int n)"
proof (cases "n = 0")
  case True
  have "num_digits 8 [0x30] = [0]" by (simp add: digit_of_def isdigit_def)
  moreover have "cstr m p [0x30]" using assms(1) True by simp
  ultimately show ?thesis
    using strto_unsigned_eq [OF _ _ num_scan_hex(2), of m p 32 errno endptr] True by (simp add: num_end_def)
next
  case False
  have d: "num_digits 16 (map ((!) hexdigits) (numeral_digits 16 n)) = map int (numeral_digits 16 n)"
    "num_value 16 0 (map int (numeral_digits 16 n)) = int n"
    using numeral_digits_read [of 16 "(!) hexdigits" n] digit_of_hex by simp_all
  have "int n < 2 ^ 32" using assms(2) by simp
  then show ?thesis
    using strto_unsigned_eq [OF assms(1)] False numeral_digits_pos [of 16 n]
    by (simp add: num_scan_hex d num_end_def)
qed

lemmas scan_simps = fetch_def reswitch.simps [of "0x64"] reswitch.simps [of "0x75"] reswitch.simps [of "0x6c"]
  plain_spec_def

lemmas flag_simps = flag_set_def LADJUST_def ZEROPAD_def HEXPREFIX_def QUADINT_def MAXINT_def PTRINT_def
  SIZEINT_def LONGINT_def SHORTINT_def

lemma vprintf_int:
  "vprintf [0x25, 0x64] [w] m = Some (int (length (decimal_text (sint w))), m, decimal_text (sint w))"
proof -
  have "sint (scast w :: u64) = sint w" by (simp add: sint_up_scast is_up)
  then show ?thesis
    using vprintf_signed [of "[0x64]" "[w]" "[w]" 0 "scast w" "[]" m]
    by (simp add: scan_simps flag_simps SARG_def va_int_def)
qed

lemma print_parse_int:
  "\<exists>cs. vprintf [0x25, 0x64] [w] m = Some (int (length cs), m, cs) \<and>
     (\<forall>m' p errno endptr. cstr m' p cs \<longrightarrow>
       strtol m' errno p endptr 10 = Some (store_end m' endptr (p + of_nat (length cs)), errno, sint w))"
proof -
  have "- (2 ^ 31) \<le> sint w" "sint w < 2 ^ 31"
    using sint_range_size [of w] by (simp_all add: word_size)
  then show ?thesis
    using vprintf_int [of w m] read_signed [of _ _ "sint w" 32] by (intro exI conjI) (auto simp: strtol_def)
qed

lemma print_parse_quad:
  "\<exists>cs. vprintf [0x25, 0x6c, 0x6c, 0x64] [l, h] m = Some (int (length cs), m, cs) \<and>
     (\<forall>m' p errno endptr. cstr m' p cs \<longrightarrow>
       strtoll m' errno p endptr 10 = Some (store_end m' endptr (p + of_nat (length cs)), errno,
         sint (ucast l OR push_bit 32 (ucast h) :: u64)))"
proof -
  let ?q = "ucast l OR push_bit 32 (ucast h) :: u64"
  have "vprintf [0x25, 0x6c, 0x6c, 0x64] [l, h] m
      = Some (int (length (decimal_text (sint ?q))), m, decimal_text (sint ?q))"
    using vprintf_signed [of "[0x6c, 0x6c, 0x64]" "[l, h]" "[l, h]" QUADINT ?q "[]" m]
    by (simp add: scan_simps flag_simps SARG_def va_quad_def)
  moreover have "- (2 ^ 63) \<le> sint ?q" "sint ?q < 2 ^ 63"
    using sint_range_size [of ?q] by (simp_all add: word_size)
  ultimately show ?thesis
    using read_signed [of _ _ "sint ?q" 64] by (intro exI conjI) (auto simp: strtoll_def)
qed

lemma print_parse_unsigned:
  "\<exists>cs. vprintf [0x25, 0x75] [w] m = Some (int (length cs), m, cs) \<and>
     (\<forall>m' p errno endptr. cstr m' p cs \<longrightarrow>
       strtoul m' errno p endptr 10 = Some (store_end m' endptr (p + of_nat (length cs)), errno, uint w))"
proof -
  have "uint (ucast w :: u64) = uint w" by (simp add: uint_up_ucast is_up)
  then have "vprintf [0x25, 0x75] [w] m = Some (int (length (decimal_text (uint w))), m, decimal_text (uint w))"
    using vprintf_unsigned [of "[0x75]" "[w]" "[w]" 0 "ucast w" "[]" m]
    by (simp add: scan_simps flag_simps UARG_def va_int_def)
  moreover have "uint w < 2 ^ 32" using uint_bounded [of w] by simp
  ultimately show ?thesis
    using read_unsigned [of _ _ "uint w" 32] by (intro exI conjI) (auto simp: strtoul_def)
qed

lemma print_parse_hex:
  "\<exists>cs. vprintf [0x25, 0x23, 0x78] [w] m = Some (int (length cs), m, cs) \<and>
     (\<forall>m' p errno endptr. cstr m' p cs \<longrightarrow>
       strtoul m' errno p endptr 0 = Some (store_end m' endptr (p + of_nat (length cs)), errno, uint w))"
proof -
  let ?cs = "if unat w = 0 then [0x30] else 0x30 # 0x78 # map ((!) hexdigits) (numeral_digits 16 (unat w))"
  have "vprintf [0x25, 0x23, 0x78] [w] m = Some (int (length ?cs), m, ?cs)"
    using vprintf_alt_hex [of w m] by (simp add: Let_def unat_eq_0)
  moreover have "length ?cs = (if unat w = 0 then 1 else 2 + length (numeral_digits 16 (unat w)))" by simp
  moreover have "strtoul m' errno p endptr 0
      = Some (store_end m' endptr (p + of_nat (if unat w = 0 then 1 else 2 + length (numeral_digits 16 (unat w)))), errno, uint w)"
    if "cstr m' p ?cs" for m' p errno endptr
    using read_hex [OF that unat_u32_less] by (simp only: strtoul_def uint_nat)
  ultimately show ?thesis by (intro exI [of _ ?cs]) (simp only: simp_thms, blast)
qed

text \<open>
  C32. Printing and reading back. The text that \<open>printf\<close> makes of an \<open>int\<close> with \<open>%d\<close> is read as the
  same value by \<open>strtol\<close> with base 10, that of a \<open>long long\<close> with \<open>%lld\<close> by \<open>strtoll\<close>, that of an
  \<open>unsigned\<close> with \<open>%u\<close> by \<open>strtoul\<close>, and that with \<open>%#x\<close> by \<open>strtoul\<close> with base 0. The end pointer
  is behind the whole text and \<open>errno\<close> is left alone.
\<close>

theorem print_then_parse:
  "(\<exists>cs. vprintf [0x25, 0x64] [w] m = Some (int (length cs), m, cs) \<and>
      (\<forall>m' p errno endptr. cstr m' p cs \<longrightarrow>
        strtol m' errno p endptr 10 = Some (store_end m' endptr (p + of_nat (length cs)), errno, sint w))) \<and>
   (\<exists>cs. vprintf [0x25, 0x6c, 0x6c, 0x64] [l, h] m = Some (int (length cs), m, cs) \<and>
      (\<forall>m' p errno endptr. cstr m' p cs \<longrightarrow>
        strtoll m' errno p endptr 10 = Some (store_end m' endptr (p + of_nat (length cs)), errno,
          sint (ucast l OR push_bit 32 (ucast h) :: u64)))) \<and>
   (\<exists>cs. vprintf [0x25, 0x75] [w] m = Some (int (length cs), m, cs) \<and>
      (\<forall>m' p errno endptr. cstr m' p cs \<longrightarrow>
        strtoul m' errno p endptr 10 = Some (store_end m' endptr (p + of_nat (length cs)), errno, uint w))) \<and>
   (\<exists>cs. vprintf [0x25, 0x23, 0x78] [w] m = Some (int (length cs), m, cs) \<and>
      (\<forall>m' p errno endptr. cstr m' p cs \<longrightarrow>
        strtoul m' errno p endptr 0 = Some (store_end m' endptr (p + of_nat (length cs)), errno, uint w)))"
  by (intro conjI print_parse_int print_parse_quad print_parse_unsigned print_parse_hex)

text \<open>\<open>-120\<close> is printed with four characters; stored at 0x1000, it is read back.\<close>

theorem print_then_parse_witness:
  "\<exists>cs. vprintf [0x25, 0x64] [- 120] (\<lambda>a. 0) = Some (int (length cs), (\<lambda>a. 0), cs) \<and>
     strtol (stored (\<lambda>a. 0) 0x1000 cs) 0 0x1000 0 10 = Some (stored (\<lambda>a. 0) 0x1000 cs, 0, - 120)"
proof -
  have p: "vprintf [0x25, 0x64] [- 120] (\<lambda>a. 0) = Some (4, (\<lambda>a. 0), [0x2d, 0x31, 0x32, 0x30])"
    by (simp add: vprintf_int decimal_text_def dec_char_def numeral_digits.simps)
  have "cstr (stored (\<lambda>a. 0) 0x1000 [0x2d, 0x31, 0x32, 0x30]) 0x1000 [0x2d, 0x31, 0x32, 0x30]"
    by (simp add: stored_def in_range_def)
  then show ?thesis
    using print_then_parse [THEN conjunct1, of "- 120" "\<lambda>a. 0"] by (auto simp: p store_end_def)
qed

end
