(* ===== verification/Block_Hash.thy ===== *)
theory Block_Hash
  imports Prelude
begin

text \<open>
  What the hash functions of CLibrary/hash share: conversions between bytes and words, the
  reference semantics of a block hash (apply the compression function to the complete
  blocks of the message, keep the rest) and the interface of an incremental hash, a locale
  that the contexts of md5.c, sha1.c, rmd160.c and sha2.c satisfy.
\<close>

section \<open>Bytes and words\<close>

definition le_word32 :: "u8 list \<Rightarrow> nat \<Rightarrow> u32" where
  "le_word32 bs i = ucast (bs ! i) OR push_bit 8 (ucast (bs ! (i + 1)))
     OR push_bit 16 (ucast (bs ! (i + 2))) OR push_bit 24 (ucast (bs ! (i + 3)))"

text \<open>\<open>memcpy\<close> of a byte block into an array of \<open>n\<close> words on a little-endian machine.\<close>

definition le_words :: "nat \<Rightarrow> u8 list \<Rightarrow> u32 list" where
  "le_words n bs = map (\<lambda>i. le_word32 bs (4 * i)) [0..<n]"

definition PUT_32BIT_LE :: "u32 \<Rightarrow> u8 list" where
  "PUT_32BIT_LE value = [ucast value, ucast (drop_bit 8 value), ucast (drop_bit 16 value),
     ucast (drop_bit 24 value)]"

definition PUT_64BIT_LE :: "u64 \<Rightarrow> u8 list" where
  "PUT_64BIT_LE value = [ucast value, ucast (drop_bit 8 value), ucast (drop_bit 16 value),
     ucast (drop_bit 24 value), ucast (drop_bit 32 value), ucast (drop_bit 40 value),
     ucast (drop_bit 48 value), ucast (drop_bit 56 value)]"

lemma length_PUT_64BIT_LE [simp]: "length (PUT_64BIT_LE v) = 8"
  by (simp add: PUT_64BIT_LE_def)

text \<open>Big-endian words, as SHA-1 and SHA-2 write them.\<close>

definition BE_64_TO_8 :: "u64 \<Rightarrow> u8 list" where
  "BE_64_TO_8 src = [ucast (drop_bit 56 src), ucast (drop_bit 48 src), ucast (drop_bit 40 src),
     ucast (drop_bit 32 src), ucast (drop_bit 24 src), ucast (drop_bit 16 src),
     ucast (drop_bit 8 src), ucast src]"

definition BE_32_TO_8 :: "u32 \<Rightarrow> u8 list" where
  "BE_32_TO_8 src = [ucast (drop_bit 24 src), ucast (drop_bit 16 src), ucast (drop_bit 8 src),
     ucast src]"

lemma length_BE [simp]: "length (BE_64_TO_8 v) = 8" "length (BE_32_TO_8 w) = 4"
  by (simp_all add: BE_64_TO_8_def BE_32_TO_8_def)

lemma ucast_and_255: "(ucast (w AND 255 :: 'a::len word) :: u8) = ucast w"
proof -
  have "w AND 255 = take_bit 8 w" by (simp add: take_bit_eq_mask mask_eq_exp_minus_1)
  then show ?thesis by (simp only:) (rule bit_word_eqI, auto simp: bit_simps)
qed

text \<open>\<open>memcpy\<close> of \<open>xs\<close> to offset \<open>i\<close> of a byte array.\<close>

definition blit :: "u8 list \<Rightarrow> nat \<Rightarrow> u8 list \<Rightarrow> u8 list" where
  "blit buf i xs = take i buf @ xs @ drop (i + length xs) buf"

lemma length_blit [simp]: "i + length xs \<le> length buf \<Longrightarrow> length (blit buf i xs) = length buf"
  by (simp add: blit_def)

lemma take_blit:
  "i \<le> length buf \<Longrightarrow> take (i + length xs) (blit buf i xs) = take i buf @ xs"
  by (simp add: blit_def)

lemma blit_whole:
  "i + length xs = length buf \<Longrightarrow> blit buf i xs = take i buf @ xs"
  by (simp add: blit_def)

section \<open>Reference semantics\<close>

text \<open>
  \<open>absorb B f st xs\<close> feeds the complete \<open>B\<close>-byte blocks of \<open>xs\<close> to \<open>f\<close>;
  \<open>leftover B xs\<close> is the incomplete block at the end.
\<close>

function absorb :: "nat \<Rightarrow> ('s \<Rightarrow> u8 list \<Rightarrow> 's) \<Rightarrow> 's \<Rightarrow> u8 list \<Rightarrow> 's" where
  "absorb B f st xs =
     (if B = 0 \<or> length xs < B then st else absorb B f (f st (take B xs)) (drop B xs))"
  by pat_completeness auto
termination by (relation "measure (\<lambda>(B, f, st, xs). length xs)") auto

declare absorb.simps [simp del]

definition leftover :: "nat \<Rightarrow> u8 list \<Rightarrow> u8 list" where
  "leftover B xs = drop (B * (length xs div B)) xs"

lemma absorb_short: "length xs < B \<Longrightarrow> absorb B f st xs = st"
  by (subst absorb.simps) simp

lemma absorb_block:
  "0 < B \<Longrightarrow> length xs = B \<Longrightarrow> absorb B f st (xs @ ys) = absorb B f (f st xs) ys"
  by (subst absorb.simps) simp

lemma leftover_short: "length xs < B \<Longrightarrow> leftover B xs = xs"
  by (simp add: leftover_def)

lemma length_leftover: "length (leftover B xs) = length xs mod B"
  by (simp add: leftover_def minus_mult_div_eq_mod)

lemma leftover_block:
  assumes "0 < B" "length xs = B"
  shows "leftover B (xs @ ys) = leftover B ys"
proof -
  have "(B + length ys) div B = Suc (length ys div B)"
    by (subst div_add_self1) (use assms(1) in auto)
  then have "B * (length (xs @ ys) div B) = B + B * (length ys div B)" by (simp add: assms(2))
  then show ?thesis by (simp only: leftover_def) (simp add: assms(2))
qed

lemma leftover_unfold:
  "0 < B \<Longrightarrow> B \<le> length xs \<Longrightarrow> leftover B xs = leftover B (drop B xs)"
  using leftover_block [of B "take B xs" "drop B xs"] by simp

text \<open>Absorbing in two pieces: the rest of the first piece goes in front of the second.\<close>

lemma absorb_append:
  assumes "0 < B"
  shows "absorb B f st (xs @ ys) = absorb B f (absorb B f st xs) (leftover B xs @ ys)"
  using assms
proof (induction B f st xs rule: absorb.induct)
  case (1 B f st xs)
  show ?case
  proof (cases "length xs < B")
    case True
    then show ?thesis by (simp add: absorb_short leftover_short)
  next
    case False
    then have IH: "absorb B f (f st (take B xs)) (drop B xs @ ys) =
        absorb B f (absorb B f (f st (take B xs)) (drop B xs)) (leftover B (drop B xs) @ ys)"
      using "1" by simp
    have "absorb B f st (xs @ ys) = absorb B f (f st (take B xs)) (drop B xs @ ys)"
      using False "1.prems" by (subst absorb.simps) simp
    moreover have "absorb B f st xs = absorb B f (f st (take B xs)) (drop B xs)"
      using False "1.prems" by (subst absorb.simps) simp
    ultimately show ?thesis
      using IH False "1.prems" leftover_unfold [of B xs] by simp
  qed
qed

lemma leftover_append:
  assumes "0 < B"
  shows "leftover B (xs @ ys) = leftover B (leftover B xs @ ys)"
  using assms
proof (induction xs rule: length_induct)
  case (1 xs)
  show ?case
  proof (cases "length xs < B")
    case True
    then show ?thesis by (simp add: leftover_short)
  next
    case False
    then have "leftover B (drop B xs @ ys) = leftover B (leftover B (drop B xs) @ ys)"
      using "1" by simp
    then show ?thesis
      using False "1.prems" leftover_unfold [of B xs] leftover_unfold [of B "xs @ ys"] by simp
  qed
qed

text \<open>
  The loop of the update functions over the complete blocks of the remaining input:
  the new state and what is left of the input.
\<close>

function block_loop :: "nat \<Rightarrow> ('s \<Rightarrow> u8 list \<Rightarrow> 's) \<Rightarrow> 's \<Rightarrow> u8 list \<Rightarrow> 's \<times> u8 list" where
  "block_loop B f st input =
     (if 0 < B \<and> B \<le> length input
      then block_loop B f (f st (take B input)) (drop B input)
      else (st, input))"
  by pat_completeness auto
termination by (relation "measure (\<lambda>(B, f, st, xs). length xs)") auto

declare block_loop.simps [simp del]

lemma block_loop_eq:
  "0 < B \<Longrightarrow> block_loop B f st xs = (absorb B f st xs, leftover B xs)"
proof (induction B f st xs rule: block_loop.induct)
  case (1 B f st xs)
  show ?case
  proof (cases "B \<le> length xs")
    case True
    with "1" leftover_unfold [of B xs] show ?thesis
      by (subst block_loop.simps) (simp add: absorb.simps [of B f st xs])
  next
    case False
    then show ?thesis by (subst block_loop.simps) (simp add: absorb_short leftover_short)
  qed
qed

text \<open>
  One update of a buffer that holds \<open>have\<close> bytes: either the input completes the buffered
  block and the complete blocks after it are processed, or it is only stored.
\<close>

lemma stream_fill:
  assumes "0 < B" "hv < B" "B \<le> length buf" "B - hv \<le> length xs"
    and rest: "rest = drop (B - hv) xs"
    and buf': "take (length (leftover B rest)) buf' = leftover B rest"
  shows "absorb B f (f st (take hv buf @ take (B - hv) xs)) rest
      = absorb B f st (take hv buf @ xs)"
    and "take ((hv + length xs) mod B) buf' = leftover B (take hv buf @ xs)"
proof -
  have split: "take hv buf @ xs = (take hv buf @ take (B - hv) xs) @ rest"
    by (simp add: rest)
  have len: "length (take hv buf @ take (B - hv) xs) = B" using assms by simp
  show "absorb B f (f st (take hv buf @ take (B - hv) xs)) rest
      = absorb B f st (take hv buf @ xs)"
    unfolding split by (simp only: absorb_block [OF assms(1) len])
  have "leftover B (take hv buf @ xs) = leftover B rest"
    unfolding split by (simp only: leftover_block [OF assms(1) len])
  moreover have "length (leftover B (take hv buf @ xs)) = (hv + length xs) mod B"
    using assms by (simp add: length_leftover min_def)
  ultimately show "take ((hv + length xs) mod B) buf' = leftover B (take hv buf @ xs)"
    using buf' by simp
qed

lemma stream_short:
  assumes "hv + length xs < B" "B \<le> length buf"
  shows "absorb B f st (take hv buf @ xs) = st"
    and "take ((hv + length xs) mod B) (blit buf hv xs) = leftover B (take hv buf @ xs)"
  using assms by (simp_all add: absorb_short leftover_short take_blit)

lemma take_blit0: "take (length xs) (blit buf 0 xs) = xs"
  by (simp add: blit_def)

text \<open>
  The padding all the functions use: a byte \<open>0x80\<close>, as many zero bytes as needed, and the
  message length in bits in \<open>L\<close> bytes, up to a multiple of \<open>B\<close> bytes.
\<close>

definition pad_zeros :: "nat \<Rightarrow> nat \<Rightarrow> nat \<Rightarrow> nat" where
  "pad_zeros B L n = (2 * B - 1 - L - n mod B) mod B"

definition md_pad :: "nat \<Rightarrow> u8 list \<Rightarrow> u8 list \<Rightarrow> u8 list" where
  "md_pad B lenbytes msg =
     msg @ 0x80 # replicate (pad_zeros B (length lenbytes) (length msg)) 0 @ lenbytes"

text \<open>The padding is the shortest one that makes the message a whole number of blocks.\<close>

lemma md_pad_blocks:
  assumes "length lenbytes < B"
  shows "B dvd length (md_pad B lenbytes msg)"
proof -
  let ?n = "length msg" and ?L = "length lenbytes"
  have lt: "?n mod B < B" using assms by (intro mod_less_divisor) simp
  have "((?n + 1 + ?L) + pad_zeros B ?L ?n) mod B
      = ((?n + 1 + ?L) + (2 * B - 1 - ?L - ?n mod B)) mod B"
    by (simp only: pad_zeros_def mod_add_right_eq)
  also have "\<dots> = (?n mod B + ((1 + ?L) + (2 * B - 1 - ?L - ?n mod B))) mod B"
    by (simp only: mod_add_left_eq add.assoc)
  also have "?n mod B + ((1 + ?L) + (2 * B - 1 - ?L - ?n mod B)) = 2 * B"
    using assms lt by linarith
  finally show ?thesis by (simp add: md_pad_def dvd_eq_mod_eq_0 ac_simps)
qed

lemma pad_zeros_less: "0 < B \<Longrightarrow> pad_zeros B L n < B"
  by (simp add: pad_zeros_def)

text \<open>
  Finishing in place, as SHA-2 does: the pending bytes, the marker and the length make one
  last block, or two when the length no longer fits.
\<close>

lemma absorb_one:
  "0 < B \<Longrightarrow> length xs = B \<Longrightarrow> absorb B f st xs = f st xs"
  using absorb_block [of B xs f st "[]"] by (simp add: absorb_short)

lemma absorb_pad_one:
  assumes "length lenb < B" "length msg mod B + 1 + length lenb \<le> B"
  shows "absorb B f st (md_pad B lenb msg) = f (absorb B f st msg)
    (leftover B msg @ 0x80 # replicate (B - 1 - length lenb - length msg mod B) 0 @ lenb)"
proof -
  have B: "0 < B" using assms(1) by simp
  let ?u = "length msg mod B" and ?L = "length lenb"
  have "2 * B - 1 - ?L - ?u = B + (B - 1 - ?L - ?u)" using assms by simp
  moreover have "B - 1 - ?L - ?u < B" using B by linarith
  ultimately have pz: "pad_zeros B ?L (length msg) = B - 1 - ?L - ?u"
    unfolding pad_zeros_def by (simp only: mod_add_self1 mod_less)
  have "absorb B f st (md_pad B lenb msg) = absorb B f (absorb B f st msg)
      (leftover B msg @ 0x80 # replicate (B - 1 - ?L - ?u) 0 @ lenb)"
    by (simp only: md_pad_def pz absorb_append [OF B, of f st msg])
  then show ?thesis
    using assms by (simp add: absorb_one length_leftover)
qed

lemma absorb_pad_two:
  assumes "length lenb < B" "B < length msg mod B + 1 + length lenb"
  shows "absorb B f st (md_pad B lenb msg) =
    f (f (absorb B f st msg) (leftover B msg @ 0x80 # replicate (B - 1 - length msg mod B) 0))
      (replicate (B - length lenb) 0 @ lenb)"
proof -
  have B: "0 < B" using assms(1) by simp
  let ?u = "length msg mod B" and ?L = "length lenb"
  have u: "?u < B" using B by simp
  then have len: "Suc (?u + (B - Suc ?u)) = B" by linarith
  have "pad_zeros B ?L (length msg) = (B - 1 - ?u) + (B - ?L)"
    unfolding pad_zeros_def using assms u by (subst mod_less) linarith+
  then have split: "md_pad B lenb msg = msg @ (0x80 # replicate (B - 1 - ?u) 0) @
      replicate (B - ?L) 0 @ lenb"
    by (simp add: md_pad_def replicate_add)
  have "absorb B f st (md_pad B lenb msg) = absorb B f (absorb B f st msg)
      ((leftover B msg @ 0x80 # replicate (B - 1 - ?u) 0) @ replicate (B - ?L) 0 @ lenb)"
    by (simp only: split absorb_append [OF B, of f st msg] append_assoc append_Cons)
  also have "\<dots> = f (f (absorb B f st msg) (leftover B msg @ 0x80 # replicate (B - 1 - ?u) 0))
      (replicate (B - ?L) 0 @ lenb)"
    using assms B len by (subst absorb_block) (simp_all add: length_leftover absorb_one)
  finally show ?thesis .
qed

lemma blit_blit:
  "j = i + length xs \<Longrightarrow> i \<le> length buf \<Longrightarrow> blit (blit buf i xs) j ys = blit buf i (xs @ ys)"
  by (simp add: blit_def ac_simps)

lemma take_blit_at: "n = i + length xs \<Longrightarrow> i \<le> length buf \<Longrightarrow> take n (blit buf i xs) = take i buf @ xs"
  by (simp add: take_blit)

section \<open>Bit counters\<close>

text \<open>The contexts count bits in 64 bits; the buffer position is the byte count modulo the block.\<close>

lemma used_of_count: "unat (drop_bit 3 (c :: u64) AND 63) = unat c div 8 mod 64"
proof -
  have "drop_bit 3 c AND 63 = drop_bit 3 c AND mask 6" by (simp add: mask_eq_exp_minus_1)
  then have "unat (drop_bit 3 c AND 63) = unat (drop_bit 3 c) mod 2 ^ 6"
    by (simp only: unat_and_mask)
  then show ?thesis by (simp add: drop_bit_eq_div unat_div)
qed

lemma unat_count_add:
  "unat ((c :: u64) + push_bit 3 (of_nat n)) = (unat c + 8 * n) mod 2 ^ 64"
proof -
  have "push_bit 3 (of_nat n :: u64) = of_nat (8 * n)" by (simp add: push_bit_eq_mult)
  then show ?thesis by (simp add: unat_word_ariths unat_of_nat mod_simps)
qed

lemma used_count_add:
  "((c + 8 * n) mod 2 ^ 64) div 8 mod 64 = (c div 8 mod 64 + n) mod (64 :: nat)"
proof -
  have "(c + 8 * n) mod (8 * 2 ^ 61) = 8 * ((c + 8 * n) div 8 mod 2 ^ 61) + (c + 8 * n) mod 8"
    by (rule mod_mult2_eq)
  then have "((c + 8 * n) mod 2 ^ 64) div 8 = ((c + 8 * n) div 8) mod 2 ^ 61" by simp
  then show ?thesis by (simp add: mod_mod_cancel mod_simps add.commute)
qed

lemma count_eq_of_nat:
  "unat (c :: u64) = n mod 2 ^ 64 \<Longrightarrow> c = of_nat n"
  by (simp add: word_unat_eq_iff unat_of_nat)

lemma unat_count_less: "unat (c :: u64) < 18446744073709551616"
  using unsigned_less [of c] by simp

text \<open>
  Where the code shifts the 32-bit length before widening it, the count is right for updates
  of less than \<open>2 ^ 29\<close> bytes.
\<close>

lemma ucast_bit_length:
  assumes "n < 2 ^ 29"
  shows "(ucast (push_bit 3 (of_nat n :: u32)) :: u64) = push_bit 3 (of_nat n)"
proof -
  have "unat (push_bit 3 (of_nat n :: u32)) = 8 * n"
    using assms by (simp add: push_bit_eq_mult unat_word_ariths unat_of_nat)
  moreover have "unat (push_bit 3 (of_nat n :: u64)) = 8 * n"
    using assms by (simp add: push_bit_eq_mult unat_word_ariths unat_of_nat)
  ultimately show ?thesis
    using assms by (simp add: word_unat_eq_iff unsigned_ucast_eq take_bit_eq_mod)
qed

lemma used_of_count_div: "unat (c div 8 mod 64 :: u64) = unat c div 8 mod 64"
  by (simp add: unat_div unat_mod)

text \<open>The length computation of \<open>MD5Pad\<close> and \<open>RMD160Pad\<close> gives the reference padding.\<close>

lemma take_padding:
  assumes "u = n mod 64" "padlen = (if 64 - u < 9 then 128 - u else 64 - u)"
  shows "take (padlen - 8) (0x80 # replicate 63 0) = (0x80 :: u8) # replicate (pad_zeros 64 8 n) 0"
proof -
  have u: "u < 64" using assms(1) by simp
  have "padlen - 9 = pad_zeros 64 8 n \<and> Suc (padlen - 9) = padlen - 8 \<and> padlen - 9 \<le> 63"
  proof (cases "u \<le> 55")
    case True
    then have "(119 - u) mod 64 = 55 - u" by (simp add: mod_if)
    moreover have "padlen = 64 - u" "Suc (55 - u) = 56 - u" "55 - u \<le> 63"
      using True assms(2) by simp_all
    ultimately show ?thesis using True assms(1) by (simp add: pad_zeros_def)
  next
    case False
    then have "(119 - u) mod 64 = 119 - u" by simp
    moreover have "padlen = 128 - u" "Suc (119 - u) = 120 - u" "119 - u \<le> 63"
      using False u assms(2) by simp_all
    ultimately show ?thesis using False u assms(1) by (simp add: pad_zeros_def)
  qed
  then have "padlen - 8 = Suc (pad_zeros 64 8 n)" "pad_zeros 64 8 n \<le> 63" by simp_all
  then show ?thesis by (simp add: min_def)
qed

section \<open>The interface of an incremental hash\<close>

text \<open>
  A context holds a chaining state, the bytes of an incomplete block and the number of bits
  seen. \<open>valid c\<close> is the invariant of a context, \<open>fits xs\<close> bounds the size of one call's data.
\<close>

locale incremental_hash =
  fixes B :: nat
    and transform :: "'s \<Rightarrow> u8 list \<Rightarrow> 's"
    and update :: "'c \<Rightarrow> u8 list \<Rightarrow> 'c"
    and chain :: "'c \<Rightarrow> 's"
    and pending :: "'c \<Rightarrow> u8 list"
    and bits :: "'c \<Rightarrow> nat"
    and valid :: "'c \<Rightarrow> bool"
    and modulus :: nat
    and fits :: "u8 list \<Rightarrow> bool"
  assumes B_pos: "0 < B"
    and chain_update: "valid c \<Longrightarrow> fits xs \<Longrightarrow>
      chain (update c xs) = absorb B transform (chain c) (pending c @ xs)"
    and pending_update: "valid c \<Longrightarrow> fits xs \<Longrightarrow> pending (update c xs) = leftover B (pending c @ xs)"
    and bits_update: "valid c \<Longrightarrow> fits xs \<Longrightarrow> bits (update c xs) = (bits c + 8 * length xs) mod modulus"
    and valid_update: "valid c \<Longrightarrow> fits xs \<Longrightarrow> valid (update c xs)"
    and pending_short: "valid c \<Longrightarrow> length (pending c) < B"
    and bits_less: "valid c \<Longrightarrow> bits c < modulus"
begin

lemmas update_laws = chain_update pending_update bits_update valid_update

text \<open>
  Hashing a message in arbitrary chunks leaves the context that hashing it at once would
  leave, as far as anything later can observe.
\<close>

lemma update_chunks:
  assumes "valid c" "\<forall>xs \<in> set xss. fits xs"
  shows "valid (foldl update c xss) \<and>
    chain (foldl update c xss) = absorb B transform (chain c) (pending c @ concat xss) \<and>
    pending (foldl update c xss) = leftover B (pending c @ concat xss) \<and>
    bits (foldl update c xss) = (bits c + 8 * length (concat xss)) mod modulus"
  using assms
proof (induction xss arbitrary: c)
  case Nil
  then show ?case by (simp add: absorb_short leftover_short pending_short bits_less)
next
  case (Cons xs xss)
  then have "valid c" and f: "fits xs" by simp_all
  note laws = update_laws [OF this]
  have "absorb B transform (chain c) (pending c @ xs @ concat xss) =
      absorb B transform (chain (update c xs)) (pending (update c xs) @ concat xss)"
    using absorb_append [OF B_pos, of transform "chain c" "pending c @ xs"] by (simp add: laws)
  moreover have "leftover B (pending c @ xs @ concat xss) =
      leftover B (pending (update c xs) @ concat xss)"
    using leftover_append [OF B_pos, of "pending c @ xs"] by (simp add: laws)
  moreover have "(bits (update c xs) + 8 * length (concat xss)) mod modulus =
      (bits c + 8 * length (concat (xs # xss))) mod modulus"
    by (simp add: laws mod_simps ac_simps)
  ultimately show ?case using Cons.IH [of "update c xs"] Cons.prems laws(4) by simp
qed

lemma update_append:
  assumes "valid c" "fits xs" "fits ys" "fits (xs @ ys)"
  shows "chain (update (update c xs) ys) = chain (update c (xs @ ys))"
    and "pending (update (update c xs) ys) = pending (update c (xs @ ys))"
proof -
  show "chain (update (update c xs) ys) = chain (update c (xs @ ys))"
    using update_chunks [of c "[xs, ys]"] update_chunks [of c "[xs @ ys]"] assms by simp
  show "pending (update (update c xs) ys) = pending (update c (xs @ ys))"
    using update_chunks [of c "[xs, ys]"] update_chunks [of c "[xs @ ys]"] assms by simp
qed

text \<open>Padding by two more updates completes the message that the context stands for.\<close>

lemma update_pad:
  assumes "valid c" "chain c = absorb B transform st0 msg" "pending c = leftover B msg"
    and "fits xs" "fits ys"
  shows "chain (update (update c xs) ys) = absorb B transform st0 (msg @ xs @ ys)"
  using update_chunks [of c "[xs, ys]"] absorb_append [OF B_pos, of transform st0 msg "xs @ ys"]
    assms by simp

end

text \<open>
  The way the contexts of this library provide it: a buffer of \<open>N\<close> bytes whose first \<open>used\<close>
  bytes are pending, filled up to one block and then processed. The laws of a buffered hash
  give those of an incremental hash.
\<close>

locale buffered_hash =
  fixes B :: nat
    and transform :: "'s \<Rightarrow> u8 list \<Rightarrow> 's"
    and update :: "'c \<Rightarrow> u8 list \<Rightarrow> 'c"
    and chain :: "'c \<Rightarrow> 's"
    and buf :: "'c \<Rightarrow> u8 list"
    and used :: "'c \<Rightarrow> nat"
    and N :: nat
    and bits :: "'c \<Rightarrow> nat"
    and modulus :: nat
    and fits :: "u8 list \<Rightarrow> bool"
  assumes block_pos: "0 < B" and block_le: "B \<le> N"
    and used_less: "used c < B"
    and used_update: "fits xs \<Longrightarrow> used (update c xs) = (used c + length xs) mod B"
    and update_short: "length (buf c) = N \<Longrightarrow> fits xs \<Longrightarrow> length xs < B - used c \<Longrightarrow>
      chain (update c xs) = chain c \<and> buf (update c xs) = blit (buf c) (used c) xs"
    and update_long: "length (buf c) = N \<Longrightarrow> fits xs \<Longrightarrow> B - used c \<le> length xs \<Longrightarrow>
      chain (update c xs) = absorb B transform
        (transform (chain c) (take (used c) (buf c) @ take (B - used c) xs)) (drop (B - used c) xs) \<and>
      (\<exists>b. length b = N \<and> buf (update c xs) = blit b 0 (leftover B (drop (B - used c) xs)))"
    and count_update: "fits xs \<Longrightarrow> bits (update c xs) = (bits c + 8 * length xs) mod modulus"
    and count_less: "bits c < modulus"
begin

lemma update_stream:
  assumes c: "length (buf c) = N" and "fits xs"
  shows "chain (update c xs) = absorb B transform (chain c) (take (used c) (buf c) @ xs) \<and>
    take (used (update c xs)) (buf (update c xs)) = leftover B (take (used c) (buf c) @ xs) \<and>
    length (buf (update c xs)) = N"
proof (cases "B - used c \<le> length xs")
  case True
  note long = update_long [OF assms True]
  then obtain b where b: "length b = N"
    "buf (update c xs) = blit b 0 (leftover B (drop (B - used c) xs))" by blast
  have B: "B \<le> length (buf c)" using c block_le by simp
  have lo: "length (leftover B (drop (B - used c) xs)) \<le> N"
    using block_le mod_less_divisor [OF block_pos, of "length xs - (B - used c)"]
    by (simp add: length_leftover)
  note fill = stream_fill [OF block_pos used_less B True refl, of "buf (update c xs)"]
  show ?thesis
    using fill(2) b lo long
    by (simp add: fill(1) used_update [OF assms(2)] take_blit0)
next
  case False
  then have u: "used c + length xs < B" using used_less [of c] by simp
  have B: "B \<le> length (buf c)" using c block_le by simp
  show ?thesis
    using update_short [OF assms] False stream_short(2) [OF u B] u c block_le
    by (simp add: used_update [OF assms(2)] stream_short(1) [OF u B])
qed

end

sublocale buffered_hash \<subseteq>
  incremental_hash B transform update chain "\<lambda>c. take (used c) (buf c)" bits
    "\<lambda>c. length (buf c) = N" modulus fits
  using update_stream used_less block_pos
  by unfold_locales (simp_all add: count_update count_less min.strict_coboundedI2)

end
