(* ===== verification/Md5.thy ===== *)
theory Md5
  imports Block_Hash
begin

text \<open>
  MD5 (CLibrary/hash/md5.c): the context, the update, padding and finalisation functions and
  the compression function, step by step as in the source. A byte pointer with a length is
  the list of the bytes it points at.
\<close>

section \<open>Context and operations\<close>

type_synonym md5_state = "u32 \<times> u32 \<times> u32 \<times> u32"

record md5_ctx =
  state :: md5_state
  count :: u64
  buffer :: "u8 list"

definition md5_F1 :: "u32 \<Rightarrow> u32 \<Rightarrow> u32 \<Rightarrow> u32" where
  "md5_F1 x y z = z XOR (x AND (y XOR z))"

definition md5_F2 :: "u32 \<Rightarrow> u32 \<Rightarrow> u32 \<Rightarrow> u32" where
  "md5_F2 x y z = md5_F1 z x y"

definition md5_F3 :: "u32 \<Rightarrow> u32 \<Rightarrow> u32 \<Rightarrow> u32" where
  "md5_F3 x y z = x XOR y XOR z"

definition md5_F4 :: "u32 \<Rightarrow> u32 \<Rightarrow> u32 \<Rightarrow> u32" where
  "md5_F4 x y z = y XOR (x OR NOT z)"

text \<open>The macro assigns to its argument \<open>w\<close>; the function returns the new value of \<open>w\<close>.\<close>

definition MD5STEP :: "(u32 \<Rightarrow> u32 \<Rightarrow> u32 \<Rightarrow> u32) \<Rightarrow> u32 \<Rightarrow> u32 \<Rightarrow> u32 \<Rightarrow> u32 \<Rightarrow> u32 \<Rightarrow> nat \<Rightarrow> u32" where
  "MD5STEP f w x y z data s =
     (let w = w + (f x y z + data);
          w = push_bit s w OR drop_bit (32 - s) w
      in w + x)"

definition MD5Transform :: "md5_state \<Rightarrow> u8 list \<Rightarrow> md5_state" where
  "MD5Transform st block =
     (let x_in = le_words 16 block;
          (a, b, c, d) = st;
          a = MD5STEP md5_F1 a b c d (x_in ! 0 + 0xd76aa478) 7;
          d = MD5STEP md5_F1 d a b c (x_in ! 1 + 0xe8c7b756) 12;
          c = MD5STEP md5_F1 c d a b (x_in ! 2 + 0x242070db) 17;
          b = MD5STEP md5_F1 b c d a (x_in ! 3 + 0xc1bdceee) 22;
          a = MD5STEP md5_F1 a b c d (x_in ! 4 + 0xf57c0faf) 7;
          d = MD5STEP md5_F1 d a b c (x_in ! 5 + 0x4787c62a) 12;
          c = MD5STEP md5_F1 c d a b (x_in ! 6 + 0xa8304613) 17;
          b = MD5STEP md5_F1 b c d a (x_in ! 7 + 0xfd469501) 22;
          a = MD5STEP md5_F1 a b c d (x_in ! 8 + 0x698098d8) 7;
          d = MD5STEP md5_F1 d a b c (x_in ! 9 + 0x8b44f7af) 12;
          c = MD5STEP md5_F1 c d a b (x_in ! 10 + 0xffff5bb1) 17;
          b = MD5STEP md5_F1 b c d a (x_in ! 11 + 0x895cd7be) 22;
          a = MD5STEP md5_F1 a b c d (x_in ! 12 + 0x6b901122) 7;
          d = MD5STEP md5_F1 d a b c (x_in ! 13 + 0xfd987193) 12;
          c = MD5STEP md5_F1 c d a b (x_in ! 14 + 0xa679438e) 17;
          b = MD5STEP md5_F1 b c d a (x_in ! 15 + 0x49b40821) 22;
          a = MD5STEP md5_F2 a b c d (x_in ! 1 + 0xf61e2562) 5;
          d = MD5STEP md5_F2 d a b c (x_in ! 6 + 0xc040b340) 9;
          c = MD5STEP md5_F2 c d a b (x_in ! 11 + 0x265e5a51) 14;
          b = MD5STEP md5_F2 b c d a (x_in ! 0 + 0xe9b6c7aa) 20;
          a = MD5STEP md5_F2 a b c d (x_in ! 5 + 0xd62f105d) 5;
          d = MD5STEP md5_F2 d a b c (x_in ! 10 + 0x02441453) 9;
          c = MD5STEP md5_F2 c d a b (x_in ! 15 + 0xd8a1e681) 14;
          b = MD5STEP md5_F2 b c d a (x_in ! 4 + 0xe7d3fbc8) 20;
          a = MD5STEP md5_F2 a b c d (x_in ! 9 + 0x21e1cde6) 5;
          d = MD5STEP md5_F2 d a b c (x_in ! 14 + 0xc33707d6) 9;
          c = MD5STEP md5_F2 c d a b (x_in ! 3 + 0xf4d50d87) 14;
          b = MD5STEP md5_F2 b c d a (x_in ! 8 + 0x455a14ed) 20;
          a = MD5STEP md5_F2 a b c d (x_in ! 13 + 0xa9e3e905) 5;
          d = MD5STEP md5_F2 d a b c (x_in ! 2 + 0xfcefa3f8) 9;
          c = MD5STEP md5_F2 c d a b (x_in ! 7 + 0x676f02d9) 14;
          b = MD5STEP md5_F2 b c d a (x_in ! 12 + 0x8d2a4c8a) 20;
          a = MD5STEP md5_F3 a b c d (x_in ! 5 + 0xfffa3942) 4;
          d = MD5STEP md5_F3 d a b c (x_in ! 8 + 0x8771f681) 11;
          c = MD5STEP md5_F3 c d a b (x_in ! 11 + 0x6d9d6122) 16;
          b = MD5STEP md5_F3 b c d a (x_in ! 14 + 0xfde5380c) 23;
          a = MD5STEP md5_F3 a b c d (x_in ! 1 + 0xa4beea44) 4;
          d = MD5STEP md5_F3 d a b c (x_in ! 4 + 0x4bdecfa9) 11;
          c = MD5STEP md5_F3 c d a b (x_in ! 7 + 0xf6bb4b60) 16;
          b = MD5STEP md5_F3 b c d a (x_in ! 10 + 0xbebfbc70) 23;
          a = MD5STEP md5_F3 a b c d (x_in ! 13 + 0x289b7ec6) 4;
          d = MD5STEP md5_F3 d a b c (x_in ! 0 + 0xeaa127fa) 11;
          c = MD5STEP md5_F3 c d a b (x_in ! 3 + 0xd4ef3085) 16;
          b = MD5STEP md5_F3 b c d a (x_in ! 6 + 0x04881d05) 23;
          a = MD5STEP md5_F3 a b c d (x_in ! 9 + 0xd9d4d039) 4;
          d = MD5STEP md5_F3 d a b c (x_in ! 12 + 0xe6db99e5) 11;
          c = MD5STEP md5_F3 c d a b (x_in ! 15 + 0x1fa27cf8) 16;
          b = MD5STEP md5_F3 b c d a (x_in ! 2 + 0xc4ac5665) 23;
          a = MD5STEP md5_F4 a b c d (x_in ! 0 + 0xf4292244) 6;
          d = MD5STEP md5_F4 d a b c (x_in ! 7 + 0x432aff97) 10;
          c = MD5STEP md5_F4 c d a b (x_in ! 14 + 0xab9423a7) 15;
          b = MD5STEP md5_F4 b c d a (x_in ! 5 + 0xfc93a039) 21;
          a = MD5STEP md5_F4 a b c d (x_in ! 12 + 0x655b59c3) 6;
          d = MD5STEP md5_F4 d a b c (x_in ! 3 + 0x8f0ccc92) 10;
          c = MD5STEP md5_F4 c d a b (x_in ! 10 + 0xffeff47d) 15;
          b = MD5STEP md5_F4 b c d a (x_in ! 1 + 0x85845dd1) 21;
          a = MD5STEP md5_F4 a b c d (x_in ! 8 + 0x6fa87e4f) 6;
          d = MD5STEP md5_F4 d a b c (x_in ! 15 + 0xfe2ce6e0) 10;
          c = MD5STEP md5_F4 c d a b (x_in ! 6 + 0xa3014314) 15;
          b = MD5STEP md5_F4 b c d a (x_in ! 13 + 0x4e0811a1) 21;
          a = MD5STEP md5_F4 a b c d (x_in ! 4 + 0xf7537e82) 6;
          d = MD5STEP md5_F4 d a b c (x_in ! 11 + 0xbd3af235) 10;
          c = MD5STEP md5_F4 c d a b (x_in ! 2 + 0x2ad7d2bb) 15;
          b = MD5STEP md5_F4 b c d a (x_in ! 9 + 0xeb86d391) 21
      in (fst st + a, fst (snd st) + b, fst (snd (snd st)) + c, snd (snd (snd st)) + d))"

definition md5_PADDING :: "u8 list" where
  "md5_PADDING = 0x80 # replicate 63 0"

definition MD5Init :: "md5_ctx \<Rightarrow> md5_ctx" where
  "MD5Init ctx = ctx\<lparr>count := 0,
     state := (0x67452301, 0xefcdab89, 0x98badcfe, 0x10325476)\<rparr>"

definition MD5Update :: "md5_ctx \<Rightarrow> u8 list \<Rightarrow> md5_ctx" where
  "MD5Update ctx input =
     (let hv = unat (drop_bit 3 (count ctx) AND (64 - 1));
          need = 64 - hv;
          ctx = ctx\<lparr>count := count ctx + push_bit 3 (of_nat (length input))\<rparr>;
          (ctx, input, hv) =
            (if need \<le> length input
             then
               let (ctx, input, hv) =
                     (if hv \<noteq> 0
                      then
                        let ctx = ctx\<lparr>buffer := blit (buffer ctx) hv (take need input)\<rparr>;
                            ctx = ctx\<lparr>state := MD5Transform (state ctx) (buffer ctx)\<rparr>
                        in (ctx, drop need input, 0)
                      else (ctx, input, hv));
                   (st, input) = block_loop 64 MD5Transform (state ctx) input
               in (ctx\<lparr>state := st\<rparr>, input, hv)
             else (ctx, input, hv))
      in if input \<noteq> [] then ctx\<lparr>buffer := blit (buffer ctx) hv input\<rparr> else ctx)"

definition MD5Pad :: "md5_ctx \<Rightarrow> md5_ctx" where
  "MD5Pad ctx =
     (let count_bytes = PUT_64BIT_LE (count ctx);
          padlen = 64 - unat (drop_bit 3 (count ctx) AND (64 - 1));
          padlen = (if padlen < 1 + 8 then padlen + 64 else padlen);
          ctx = MD5Update ctx (take (padlen - 8) md5_PADDING)
      in MD5Update ctx count_bytes)"

definition MD5Final :: "md5_ctx \<Rightarrow> u8 list \<times> md5_ctx" where
  "MD5Final ctx =
     (let ctx = MD5Pad ctx;
          (s0, s1, s2, s3) = state ctx;
          digest = PUT_32BIT_LE s0 @ PUT_32BIT_LE s1 @ PUT_32BIT_LE s2 @ PUT_32BIT_LE s3
      in (digest, \<lparr>state = (0, 0, 0, 0), count = 0, buffer = replicate 64 0\<rparr>))"

text \<open>The selection function of the first round, in the form the comment gives and as computed.\<close>

lemma md5_F1_select: "md5_F1 x y z = (x AND y) OR (NOT x AND z)"
  by (rule bit_word_eqI) (auto simp: md5_F1_def bit_simps)

section \<open>The context as an incremental hash\<close>

definition md5_used :: "md5_ctx \<Rightarrow> nat" where
  "md5_used ctx = unat (count ctx) div 8 mod 64"

lemma md5_used_code: "unat (drop_bit 3 (count ctx) AND 63) = md5_used ctx"
  by (simp add: used_of_count md5_used_def)

lemma md5_used_less: "md5_used ctx < 64"
  by (simp add: md5_used_def)

lemma MD5Update_count [simp]:
  "count (MD5Update ctx xs) = count ctx + push_bit 3 (of_nat (length xs))"
  by (simp add: MD5Update_def Let_def block_loop_eq)

lemma md5_used_update: "md5_used (MD5Update ctx xs) = (md5_used ctx + length xs) mod 64"
  using used_count_add [of "unat (count ctx)" "length xs"]
  by (simp add: md5_used_def unat_count_add)

lemma MD5Update_short:
  assumes "length xs < 64 - md5_used ctx"
  shows "state (MD5Update ctx xs) = state ctx"
    and "buffer (MD5Update ctx xs) = blit (buffer ctx) (md5_used ctx) xs"
  using assms by (auto simp: MD5Update_def Let_def md5_used_code blit_def)

text \<open>When the input completes a block, both ways of taking it lead to the same state.\<close>

lemma MD5Update_long:
  assumes "length (buffer ctx) = 64" "64 - md5_used ctx \<le> length xs"
  defines "rest \<equiv> drop (64 - md5_used ctx) xs"
  shows "state (MD5Update ctx xs) = absorb 64 MD5Transform
      (MD5Transform (state ctx) (take (md5_used ctx) (buffer ctx) @ take (64 - md5_used ctx) xs)) rest"
    and "\<exists>b. length b = 64 \<and> buffer (MD5Update ctx xs) = blit b 0 (leftover 64 rest)"
proof -
  let ?u = "md5_used ctx"
  have buf: "blit (buffer ctx) ?u (take (64 - ?u) xs) = take ?u (buffer ctx) @ take (64 - ?u) xs"
    using assms md5_used_less [of ctx] by (intro blit_whole) auto
  have len: "length (buffer ctx) = 64" and u: "min 64 ?u + (64 - ?u) = 64"
    using assms md5_used_less [of ctx] by (simp_all add: min_def)
  show "state (MD5Update ctx xs) = absorb 64 MD5Transform
      (MD5Transform (state ctx) (take ?u (buffer ctx) @ take (64 - ?u) xs)) rest"
    using assms(2)
    by (auto simp: MD5Update_def Let_def md5_used_code block_loop_eq buf rest_def absorb.simps [of 64 _ _ xs])
  show "\<exists>b. length b = 64 \<and> buffer (MD5Update ctx xs) = blit b 0 (leftover 64 rest)"
  proof (cases "?u = 0")
    case True
    then have "leftover 64 xs = leftover 64 rest"
      using assms(2) by (simp add: rest_def leftover_unfold)
    then show ?thesis
      using assms(2) True len
      by (intro exI [of _ "buffer ctx"]) (simp add: MD5Update_def Let_def md5_used_code block_loop_eq blit_def)
  next
    case False
    then show ?thesis
      using assms(2) len buf u
      by (intro exI [of _ "take ?u (buffer ctx) @ take (64 - ?u) xs"])
        (simp add: MD5Update_def Let_def md5_used_code block_loop_eq rest_def blit_def)
  qed
qed

interpretation md5: buffered_hash 64 MD5Transform MD5Update state buffer md5_used 64
  "\<lambda>ctx. unat (count ctx)" "2 ^ 64" "\<lambda>xs. length xs < 2 ^ 32"
  using MD5Update_short MD5Update_long
  by unfold_locales (simp_all add: md5_used_less md5_used_update unat_count_add unat_count_less)

section \<open>The digest\<close>

text \<open>The reference: pad the whole message and absorb it.\<close>

definition md5_init_state :: md5_state where
  "md5_init_state = (0x67452301, 0xefcdab89, 0x98badcfe, 0x10325476)"

definition md5_digest :: "u8 list \<Rightarrow> u8 list" where
  "md5_digest msg =
     (case absorb 64 MD5Transform md5_init_state
         (md_pad 64 (PUT_64BIT_LE (of_nat (8 * length msg))) msg) of
       (s0, s1, s2, s3) \<Rightarrow>
         PUT_32BIT_LE s0 @ PUT_32BIT_LE s1 @ PUT_32BIT_LE s2 @ PUT_32BIT_LE s3)"

lemma MD5Final_stream:
  assumes "length (buffer c) = 64" "state c = absorb 64 MD5Transform md5_init_state msg"
    and "take (md5_used c) (buffer c) = leftover 64 msg" "unat (count c) = (8 * length msg) mod 2 ^ 64"
  shows "fst (MD5Final c) = md5_digest msg"
proof -
  have used: "md5_used c = length msg mod 64"
    using assms(4) used_count_add [of 0 "length msg"] by (simp add: md5_used_def)
  have cnt: "count c = of_nat (8 * length msg)"
    using assms(4) by (rule count_eq_of_nat)
  define pz where "pz = (0x80 :: u8) # replicate (pad_zeros 64 8 (length msg)) 0"
  have pz: "MD5Pad c = MD5Update (MD5Update c pz) (PUT_64BIT_LE (count c))"
    using take_padding [OF used refl] md5_used_less [of c]
    by (auto simp: MD5Pad_def Let_def md5_used_code pz_def md5_PADDING_def split: if_splits)
  have "length pz < 2 ^ 32" using pad_zeros_less [of 64 8 "length msg"] by (simp add: pz_def)
  then have "state (MD5Pad c) =
      absorb 64 MD5Transform md5_init_state (msg @ pz @ PUT_64BIT_LE (count c))"
    unfolding pz by (intro md5.update_pad assms) simp_all
  then show ?thesis
    by (simp add: MD5Final_def md5_digest_def md_pad_def pz_def cnt Let_def split: prod.split)
qed

section \<open>Properties\<close>

definition md5_blank :: md5_ctx where
  "md5_blank = \<lparr>state = (0, 0, 0, 0), count = 0, buffer = replicate 64 0\<rparr>"

text \<open>
  MD5 is independent of how the message is cut: feeding the pieces of a message through
  \<open>MD5Update\<close> in any chunking and finishing with \<open>MD5Final\<close> yields the digest of the
  whole message, that is, the compression function folded over the padded message.
\<close>

theorem md5_streaming:
  assumes "length (buffer ctx) = 64" "\<forall>xs \<in> set xss. length xs < 2 ^ 32"
  shows "fst (MD5Final (foldl MD5Update (MD5Init ctx) xss)) = md5_digest (concat xss)"
proof -
  have v: "length (buffer (MD5Init ctx)) = 64" and p: "md5_used (MD5Init ctx) = 0"
    using assms(1) by (simp_all add: md5_used_def MD5Init_def)
  show ?thesis
    using md5.update_chunks [OF v assms(2)]
    by (intro MD5Final_stream) (simp_all add: p, simp_all add: MD5Init_def md5_init_state_def)
qed

theorem md5_streaming_witness:
  "fst (MD5Final (foldl MD5Update (MD5Init md5_blank) [[0x61], [], replicate 100 0x62]))
    = md5_digest (0x61 # replicate 100 0x62)"
  using md5_streaming [of md5_blank "[[0x61], [], replicate 100 0x62]"] by (simp add: md5_blank_def)

end
