(* ===== verification/Rmd160.thy ===== *)
theory Rmd160
  imports Block_Hash
begin

text \<open>
  RIPEMD-160 (CLibrary/hash/rmd160.c): the two lines of eighty steps as in the source, the
  context and its operations. A byte pointer with a length is the list of the bytes it
  points at; the bit count is advanced by \<open>8 * len\<close> computed in 32 bits, as in the source.
\<close>

section \<open>Compression function\<close>

type_synonym rmd160_state = "u32 \<times> u32 \<times> u32 \<times> u32 \<times> u32"

definition rmd_K0 :: u32 where "rmd_K0 = 0x00000000"
definition rmd_K1 :: u32 where "rmd_K1 = 0x5A827999"
definition rmd_K2 :: u32 where "rmd_K2 = 0x6ED9EBA1"
definition rmd_K3 :: u32 where "rmd_K3 = 0x8F1BBCDC"
definition rmd_K4 :: u32 where "rmd_K4 = 0xA953FD4E"
definition rmd_KK0 :: u32 where "rmd_KK0 = 0x50A28BE6"
definition rmd_KK1 :: u32 where "rmd_KK1 = 0x5C4DD124"
definition rmd_KK2 :: u32 where "rmd_KK2 = 0x6D703EF3"
definition rmd_KK3 :: u32 where "rmd_KK3 = 0x7A6D76E9"
definition rmd_KK4 :: u32 where "rmd_KK4 = 0x00000000"

definition rmd_ROL :: "nat \<Rightarrow> u32 \<Rightarrow> u32" where
  "rmd_ROL n x = push_bit n x OR drop_bit (32 - n) x"

definition rmd_F0 :: "u32 \<Rightarrow> u32 \<Rightarrow> u32 \<Rightarrow> u32" where
  "rmd_F0 x y z = x XOR y XOR z"
definition rmd_F1 :: "u32 \<Rightarrow> u32 \<Rightarrow> u32 \<Rightarrow> u32" where
  "rmd_F1 x y z = (x AND y) OR (NOT x AND z)"
definition rmd_F2 :: "u32 \<Rightarrow> u32 \<Rightarrow> u32 \<Rightarrow> u32" where
  "rmd_F2 x y z = (x OR NOT y) XOR z"
definition rmd_F3 :: "u32 \<Rightarrow> u32 \<Rightarrow> u32 \<Rightarrow> u32" where
  "rmd_F3 x y z = (x AND z) OR (y AND NOT z)"
definition rmd_F4 :: "u32 \<Rightarrow> u32 \<Rightarrow> u32 \<Rightarrow> u32" where
  "rmd_F4 x y z = x XOR (y OR NOT z)"

text \<open>The macro \<open>R\<close> assigns to its arguments \<open>a\<close> and \<open>c\<close>; the function returns both.\<close>

definition RMD_R :: "u32 \<Rightarrow> u32 \<Rightarrow> u32 \<Rightarrow> u32 \<Rightarrow> u32 \<Rightarrow> (u32 \<Rightarrow> u32 \<Rightarrow> u32 \<Rightarrow> u32) \<Rightarrow> u32 \<Rightarrow> nat \<Rightarrow> u32 \<Rightarrow> u32 \<times> u32" where
  "RMD_R a b c d e Fj Kj sj xr = (rmd_ROL sj (a + Fj b c d + xr + Kj) + e, rmd_ROL 10 c)"

definition rmd160_left :: "rmd160_state \<Rightarrow> u32 list \<Rightarrow> rmd160_state" where
  "rmd160_left st x =
     (let (a, b, c, d, e) = st;
          (a, c) = RMD_R a b c d e rmd_F0 rmd_K0 11 (x ! 0);
          (e, b) = RMD_R e a b c d rmd_F0 rmd_K0 14 (x ! 1);
          (d, a) = RMD_R d e a b c rmd_F0 rmd_K0 15 (x ! 2);
          (c, e) = RMD_R c d e a b rmd_F0 rmd_K0 12 (x ! 3);
          (b, d) = RMD_R b c d e a rmd_F0 rmd_K0 5 (x ! 4);
          (a, c) = RMD_R a b c d e rmd_F0 rmd_K0 8 (x ! 5);
          (e, b) = RMD_R e a b c d rmd_F0 rmd_K0 7 (x ! 6);
          (d, a) = RMD_R d e a b c rmd_F0 rmd_K0 9 (x ! 7);
          (c, e) = RMD_R c d e a b rmd_F0 rmd_K0 11 (x ! 8);
          (b, d) = RMD_R b c d e a rmd_F0 rmd_K0 13 (x ! 9);
          (a, c) = RMD_R a b c d e rmd_F0 rmd_K0 14 (x ! 10);
          (e, b) = RMD_R e a b c d rmd_F0 rmd_K0 15 (x ! 11);
          (d, a) = RMD_R d e a b c rmd_F0 rmd_K0 6 (x ! 12);
          (c, e) = RMD_R c d e a b rmd_F0 rmd_K0 7 (x ! 13);
          (b, d) = RMD_R b c d e a rmd_F0 rmd_K0 9 (x ! 14);
          (a, c) = RMD_R a b c d e rmd_F0 rmd_K0 8 (x ! 15);
          (e, b) = RMD_R e a b c d rmd_F1 rmd_K1 7 (x ! 7);
          (d, a) = RMD_R d e a b c rmd_F1 rmd_K1 6 (x ! 4);
          (c, e) = RMD_R c d e a b rmd_F1 rmd_K1 8 (x ! 13);
          (b, d) = RMD_R b c d e a rmd_F1 rmd_K1 13 (x ! 1);
          (a, c) = RMD_R a b c d e rmd_F1 rmd_K1 11 (x ! 10);
          (e, b) = RMD_R e a b c d rmd_F1 rmd_K1 9 (x ! 6);
          (d, a) = RMD_R d e a b c rmd_F1 rmd_K1 7 (x ! 15);
          (c, e) = RMD_R c d e a b rmd_F1 rmd_K1 15 (x ! 3);
          (b, d) = RMD_R b c d e a rmd_F1 rmd_K1 7 (x ! 12);
          (a, c) = RMD_R a b c d e rmd_F1 rmd_K1 12 (x ! 0);
          (e, b) = RMD_R e a b c d rmd_F1 rmd_K1 15 (x ! 9);
          (d, a) = RMD_R d e a b c rmd_F1 rmd_K1 9 (x ! 5);
          (c, e) = RMD_R c d e a b rmd_F1 rmd_K1 11 (x ! 2);
          (b, d) = RMD_R b c d e a rmd_F1 rmd_K1 7 (x ! 14);
          (a, c) = RMD_R a b c d e rmd_F1 rmd_K1 13 (x ! 11);
          (e, b) = RMD_R e a b c d rmd_F1 rmd_K1 12 (x ! 8);
          (d, a) = RMD_R d e a b c rmd_F2 rmd_K2 11 (x ! 3);
          (c, e) = RMD_R c d e a b rmd_F2 rmd_K2 13 (x ! 10);
          (b, d) = RMD_R b c d e a rmd_F2 rmd_K2 6 (x ! 14);
          (a, c) = RMD_R a b c d e rmd_F2 rmd_K2 7 (x ! 4);
          (e, b) = RMD_R e a b c d rmd_F2 rmd_K2 14 (x ! 9);
          (d, a) = RMD_R d e a b c rmd_F2 rmd_K2 9 (x ! 15);
          (c, e) = RMD_R c d e a b rmd_F2 rmd_K2 13 (x ! 8);
          (b, d) = RMD_R b c d e a rmd_F2 rmd_K2 15 (x ! 1);
          (a, c) = RMD_R a b c d e rmd_F2 rmd_K2 14 (x ! 2);
          (e, b) = RMD_R e a b c d rmd_F2 rmd_K2 8 (x ! 7);
          (d, a) = RMD_R d e a b c rmd_F2 rmd_K2 13 (x ! 0);
          (c, e) = RMD_R c d e a b rmd_F2 rmd_K2 6 (x ! 6);
          (b, d) = RMD_R b c d e a rmd_F2 rmd_K2 5 (x ! 13);
          (a, c) = RMD_R a b c d e rmd_F2 rmd_K2 12 (x ! 11);
          (e, b) = RMD_R e a b c d rmd_F2 rmd_K2 7 (x ! 5);
          (d, a) = RMD_R d e a b c rmd_F2 rmd_K2 5 (x ! 12);
          (c, e) = RMD_R c d e a b rmd_F3 rmd_K3 11 (x ! 1);
          (b, d) = RMD_R b c d e a rmd_F3 rmd_K3 12 (x ! 9);
          (a, c) = RMD_R a b c d e rmd_F3 rmd_K3 14 (x ! 11);
          (e, b) = RMD_R e a b c d rmd_F3 rmd_K3 15 (x ! 10);
          (d, a) = RMD_R d e a b c rmd_F3 rmd_K3 14 (x ! 0);
          (c, e) = RMD_R c d e a b rmd_F3 rmd_K3 15 (x ! 8);
          (b, d) = RMD_R b c d e a rmd_F3 rmd_K3 9 (x ! 12);
          (a, c) = RMD_R a b c d e rmd_F3 rmd_K3 8 (x ! 4);
          (e, b) = RMD_R e a b c d rmd_F3 rmd_K3 9 (x ! 13);
          (d, a) = RMD_R d e a b c rmd_F3 rmd_K3 14 (x ! 3);
          (c, e) = RMD_R c d e a b rmd_F3 rmd_K3 5 (x ! 7);
          (b, d) = RMD_R b c d e a rmd_F3 rmd_K3 6 (x ! 15);
          (a, c) = RMD_R a b c d e rmd_F3 rmd_K3 8 (x ! 14);
          (e, b) = RMD_R e a b c d rmd_F3 rmd_K3 6 (x ! 5);
          (d, a) = RMD_R d e a b c rmd_F3 rmd_K3 5 (x ! 6);
          (c, e) = RMD_R c d e a b rmd_F3 rmd_K3 12 (x ! 2);
          (b, d) = RMD_R b c d e a rmd_F4 rmd_K4 9 (x ! 4);
          (a, c) = RMD_R a b c d e rmd_F4 rmd_K4 15 (x ! 0);
          (e, b) = RMD_R e a b c d rmd_F4 rmd_K4 5 (x ! 5);
          (d, a) = RMD_R d e a b c rmd_F4 rmd_K4 11 (x ! 9);
          (c, e) = RMD_R c d e a b rmd_F4 rmd_K4 6 (x ! 7);
          (b, d) = RMD_R b c d e a rmd_F4 rmd_K4 8 (x ! 12);
          (a, c) = RMD_R a b c d e rmd_F4 rmd_K4 13 (x ! 2);
          (e, b) = RMD_R e a b c d rmd_F4 rmd_K4 12 (x ! 10);
          (d, a) = RMD_R d e a b c rmd_F4 rmd_K4 5 (x ! 14);
          (c, e) = RMD_R c d e a b rmd_F4 rmd_K4 12 (x ! 1);
          (b, d) = RMD_R b c d e a rmd_F4 rmd_K4 13 (x ! 3);
          (a, c) = RMD_R a b c d e rmd_F4 rmd_K4 14 (x ! 8);
          (e, b) = RMD_R e a b c d rmd_F4 rmd_K4 11 (x ! 11);
          (d, a) = RMD_R d e a b c rmd_F4 rmd_K4 8 (x ! 6);
          (c, e) = RMD_R c d e a b rmd_F4 rmd_K4 5 (x ! 15);
          (b, d) = RMD_R b c d e a rmd_F4 rmd_K4 6 (x ! 13)
      in (a, b, c, d, e))"

definition rmd160_right :: "rmd160_state \<Rightarrow> u32 list \<Rightarrow> rmd160_state" where
  "rmd160_right st x =
     (let (a, b, c, d, e) = st;
          (a, c) = RMD_R a b c d e rmd_F4 rmd_KK0 8 (x ! 5);
          (e, b) = RMD_R e a b c d rmd_F4 rmd_KK0 9 (x ! 14);
          (d, a) = RMD_R d e a b c rmd_F4 rmd_KK0 9 (x ! 7);
          (c, e) = RMD_R c d e a b rmd_F4 rmd_KK0 11 (x ! 0);
          (b, d) = RMD_R b c d e a rmd_F4 rmd_KK0 13 (x ! 9);
          (a, c) = RMD_R a b c d e rmd_F4 rmd_KK0 15 (x ! 2);
          (e, b) = RMD_R e a b c d rmd_F4 rmd_KK0 15 (x ! 11);
          (d, a) = RMD_R d e a b c rmd_F4 rmd_KK0 5 (x ! 4);
          (c, e) = RMD_R c d e a b rmd_F4 rmd_KK0 7 (x ! 13);
          (b, d) = RMD_R b c d e a rmd_F4 rmd_KK0 7 (x ! 6);
          (a, c) = RMD_R a b c d e rmd_F4 rmd_KK0 8 (x ! 15);
          (e, b) = RMD_R e a b c d rmd_F4 rmd_KK0 11 (x ! 8);
          (d, a) = RMD_R d e a b c rmd_F4 rmd_KK0 14 (x ! 1);
          (c, e) = RMD_R c d e a b rmd_F4 rmd_KK0 14 (x ! 10);
          (b, d) = RMD_R b c d e a rmd_F4 rmd_KK0 12 (x ! 3);
          (a, c) = RMD_R a b c d e rmd_F4 rmd_KK0 6 (x ! 12);
          (e, b) = RMD_R e a b c d rmd_F3 rmd_KK1 9 (x ! 6);
          (d, a) = RMD_R d e a b c rmd_F3 rmd_KK1 13 (x ! 11);
          (c, e) = RMD_R c d e a b rmd_F3 rmd_KK1 15 (x ! 3);
          (b, d) = RMD_R b c d e a rmd_F3 rmd_KK1 7 (x ! 7);
          (a, c) = RMD_R a b c d e rmd_F3 rmd_KK1 12 (x ! 0);
          (e, b) = RMD_R e a b c d rmd_F3 rmd_KK1 8 (x ! 13);
          (d, a) = RMD_R d e a b c rmd_F3 rmd_KK1 9 (x ! 5);
          (c, e) = RMD_R c d e a b rmd_F3 rmd_KK1 11 (x ! 10);
          (b, d) = RMD_R b c d e a rmd_F3 rmd_KK1 7 (x ! 14);
          (a, c) = RMD_R a b c d e rmd_F3 rmd_KK1 7 (x ! 15);
          (e, b) = RMD_R e a b c d rmd_F3 rmd_KK1 12 (x ! 8);
          (d, a) = RMD_R d e a b c rmd_F3 rmd_KK1 7 (x ! 12);
          (c, e) = RMD_R c d e a b rmd_F3 rmd_KK1 6 (x ! 4);
          (b, d) = RMD_R b c d e a rmd_F3 rmd_KK1 15 (x ! 9);
          (a, c) = RMD_R a b c d e rmd_F3 rmd_KK1 13 (x ! 1);
          (e, b) = RMD_R e a b c d rmd_F3 rmd_KK1 11 (x ! 2);
          (d, a) = RMD_R d e a b c rmd_F2 rmd_KK2 9 (x ! 15);
          (c, e) = RMD_R c d e a b rmd_F2 rmd_KK2 7 (x ! 5);
          (b, d) = RMD_R b c d e a rmd_F2 rmd_KK2 15 (x ! 1);
          (a, c) = RMD_R a b c d e rmd_F2 rmd_KK2 11 (x ! 3);
          (e, b) = RMD_R e a b c d rmd_F2 rmd_KK2 8 (x ! 7);
          (d, a) = RMD_R d e a b c rmd_F2 rmd_KK2 6 (x ! 14);
          (c, e) = RMD_R c d e a b rmd_F2 rmd_KK2 6 (x ! 6);
          (b, d) = RMD_R b c d e a rmd_F2 rmd_KK2 14 (x ! 9);
          (a, c) = RMD_R a b c d e rmd_F2 rmd_KK2 12 (x ! 11);
          (e, b) = RMD_R e a b c d rmd_F2 rmd_KK2 13 (x ! 8);
          (d, a) = RMD_R d e a b c rmd_F2 rmd_KK2 5 (x ! 12);
          (c, e) = RMD_R c d e a b rmd_F2 rmd_KK2 14 (x ! 2);
          (b, d) = RMD_R b c d e a rmd_F2 rmd_KK2 13 (x ! 10);
          (a, c) = RMD_R a b c d e rmd_F2 rmd_KK2 13 (x ! 0);
          (e, b) = RMD_R e a b c d rmd_F2 rmd_KK2 7 (x ! 4);
          (d, a) = RMD_R d e a b c rmd_F2 rmd_KK2 5 (x ! 13);
          (c, e) = RMD_R c d e a b rmd_F1 rmd_KK3 15 (x ! 8);
          (b, d) = RMD_R b c d e a rmd_F1 rmd_KK3 5 (x ! 6);
          (a, c) = RMD_R a b c d e rmd_F1 rmd_KK3 8 (x ! 4);
          (e, b) = RMD_R e a b c d rmd_F1 rmd_KK3 11 (x ! 1);
          (d, a) = RMD_R d e a b c rmd_F1 rmd_KK3 14 (x ! 3);
          (c, e) = RMD_R c d e a b rmd_F1 rmd_KK3 14 (x ! 11);
          (b, d) = RMD_R b c d e a rmd_F1 rmd_KK3 6 (x ! 15);
          (a, c) = RMD_R a b c d e rmd_F1 rmd_KK3 14 (x ! 0);
          (e, b) = RMD_R e a b c d rmd_F1 rmd_KK3 6 (x ! 5);
          (d, a) = RMD_R d e a b c rmd_F1 rmd_KK3 9 (x ! 12);
          (c, e) = RMD_R c d e a b rmd_F1 rmd_KK3 12 (x ! 2);
          (b, d) = RMD_R b c d e a rmd_F1 rmd_KK3 9 (x ! 13);
          (a, c) = RMD_R a b c d e rmd_F1 rmd_KK3 12 (x ! 9);
          (e, b) = RMD_R e a b c d rmd_F1 rmd_KK3 5 (x ! 7);
          (d, a) = RMD_R d e a b c rmd_F1 rmd_KK3 15 (x ! 10);
          (c, e) = RMD_R c d e a b rmd_F1 rmd_KK3 8 (x ! 14);
          (b, d) = RMD_R b c d e a rmd_F0 rmd_KK4 8 (x ! 12);
          (a, c) = RMD_R a b c d e rmd_F0 rmd_KK4 5 (x ! 15);
          (e, b) = RMD_R e a b c d rmd_F0 rmd_KK4 12 (x ! 10);
          (d, a) = RMD_R d e a b c rmd_F0 rmd_KK4 9 (x ! 4);
          (c, e) = RMD_R c d e a b rmd_F0 rmd_KK4 12 (x ! 1);
          (b, d) = RMD_R b c d e a rmd_F0 rmd_KK4 5 (x ! 5);
          (a, c) = RMD_R a b c d e rmd_F0 rmd_KK4 14 (x ! 8);
          (e, b) = RMD_R e a b c d rmd_F0 rmd_KK4 6 (x ! 7);
          (d, a) = RMD_R d e a b c rmd_F0 rmd_KK4 8 (x ! 6);
          (c, e) = RMD_R c d e a b rmd_F0 rmd_KK4 13 (x ! 2);
          (b, d) = RMD_R b c d e a rmd_F0 rmd_KK4 6 (x ! 13);
          (a, c) = RMD_R a b c d e rmd_F0 rmd_KK4 5 (x ! 14);
          (e, b) = RMD_R e a b c d rmd_F0 rmd_KK4 15 (x ! 0);
          (d, a) = RMD_R d e a b c rmd_F0 rmd_KK4 13 (x ! 3);
          (c, e) = RMD_R c d e a b rmd_F0 rmd_KK4 11 (x ! 9);
          (b, d) = RMD_R b c d e a rmd_F0 rmd_KK4 11 (x ! 11)
      in (a, b, c, d, e))"

definition RMD160Transform :: "rmd160_state \<Rightarrow> u8 list \<Rightarrow> rmd160_state" where
  "RMD160Transform st block =
     (let x = le_words 16 block;
          (s0, s1, s2, s3, s4) = st;
          (aa, bb, cc, dd, ee) = rmd160_left st x;
          (a, b, c, d, e) = rmd160_right st x;
          t = s1 + cc + d;
          s1 = s2 + dd + e;
          s2 = s3 + ee + a;
          s3 = s4 + aa + b;
          s4 = s0 + bb + c;
          s0 = t
      in (s0, s1, s2, s3, s4))"

section \<open>Context and operations\<close>

record rmd160_ctx =
  state :: rmd160_state
  count :: u64
  buffer :: "u8 list"

definition rmd160_PADDING :: "u8 list" where
  "rmd160_PADDING = 0x80 # replicate 63 0"

definition RMD160Init :: "rmd160_ctx \<Rightarrow> rmd160_ctx" where
  "RMD160Init ctx = ctx\<lparr>count := 0,
     state := (0x67452301, 0xEFCDAB89, 0x98BADCFE, 0x10325476, 0xC3D2E1F0)\<rparr>"

definition RMD160Update :: "rmd160_ctx \<Rightarrow> u8 list \<Rightarrow> rmd160_ctx" where
  "RMD160Update ctx input =
     (let hv = unat (count ctx div 8 mod 64);
          need = 64 - hv;
          ctx = ctx\<lparr>count := count ctx + ucast (8 * (of_nat (length input) :: u32))\<rparr>;
          (ctx, rest, hv) =
            (if need \<le> length input
             then
               let (ctx, rest, hv) =
                     (if hv \<noteq> 0
                      then
                        let ctx = ctx\<lparr>buffer := blit (buffer ctx) hv (take need input)\<rparr>;
                            ctx = ctx\<lparr>state := RMD160Transform (state ctx) (buffer ctx)\<rparr>
                        in (ctx, drop need input, 0)
                      else (ctx, input, hv));
                   (st, rest) = block_loop 64 RMD160Transform (state ctx) rest
               in (ctx\<lparr>state := st\<rparr>, rest, hv)
             else (ctx, input, hv))
      in if rest \<noteq> [] then ctx\<lparr>buffer := blit (buffer ctx) hv rest\<rparr> else ctx)"

definition RMD160Pad :: "rmd160_ctx \<Rightarrow> rmd160_ctx" where
  "RMD160Pad ctx =
     (let size_bytes = PUT_64BIT_LE (count ctx);
          padlen = 64 - unat (count ctx div 8 mod 64);
          padlen = (if padlen < 1 + 8 then padlen + 64 else padlen);
          ctx = RMD160Update ctx (take (padlen - 8) rmd160_PADDING)
      in RMD160Update ctx size_bytes)"

definition RMD160Final :: "rmd160_ctx \<Rightarrow> u8 list \<times> rmd160_ctx" where
  "RMD160Final ctx =
     (let ctx = RMD160Pad ctx;
          (s0, s1, s2, s3, s4) = state ctx;
          digest = PUT_32BIT_LE s0 @ PUT_32BIT_LE s1 @ PUT_32BIT_LE s2 @ PUT_32BIT_LE s3
            @ PUT_32BIT_LE s4
      in (digest, \<lparr>state = (0, 0, 0, 0, 0), count = 0, buffer = replicate 64 0\<rparr>))"

section \<open>The context as an incremental hash\<close>

definition rmd160_used :: "rmd160_ctx \<Rightarrow> nat" where
  "rmd160_used ctx = unat (count ctx) div 8 mod 64"

lemma rmd160_used_code: "unat (count ctx div 8 mod 64) = rmd160_used ctx"
  by (simp add: used_of_count_div rmd160_used_def)

lemma rmd160_used_less: "rmd160_used ctx < 64"
  by (simp add: rmd160_used_def)

lemma RMD160Update_count:
  "count (RMD160Update ctx xs) = count ctx + ucast (8 * of_nat (length xs) :: u32)"
  by (simp add: RMD160Update_def Let_def block_loop_eq)

lemma RMD160Update_bits:
  "length xs < 2 ^ 29 \<Longrightarrow> count (RMD160Update ctx xs) = count ctx + push_bit 3 (of_nat (length xs))"
  using ucast_bit_length [of "length xs"]
  by (simp add: RMD160Update_count push_bit_eq_mult mult.commute)

lemma rmd160_used_update:
  "length xs < 2 ^ 29 \<Longrightarrow> rmd160_used (RMD160Update ctx xs) = (rmd160_used ctx + length xs) mod 64"
  using used_count_add [of "unat (count ctx)" "length xs"]
  by (simp add: rmd160_used_def RMD160Update_bits unat_count_add)

lemma RMD160Update_short:
  assumes "length xs < 64 - rmd160_used ctx"
  shows "state (RMD160Update ctx xs) = state ctx"
    and "buffer (RMD160Update ctx xs) = blit (buffer ctx) (rmd160_used ctx) xs"
  using assms by (auto simp: RMD160Update_def Let_def rmd160_used_code blit_def)

text \<open>When the input completes a block, both ways of taking it lead to the same state.\<close>

lemma RMD160Update_long:
  assumes "length (buffer ctx) = 64" "64 - rmd160_used ctx \<le> length xs"
  defines "rest \<equiv> drop (64 - rmd160_used ctx) xs"
  shows "state (RMD160Update ctx xs) = absorb 64 RMD160Transform
      (RMD160Transform (state ctx) (take (rmd160_used ctx) (buffer ctx) @ take (64 - rmd160_used ctx) xs)) rest"
    and "\<exists>b. length b = 64 \<and> buffer (RMD160Update ctx xs) = blit b 0 (leftover 64 rest)"
proof -
  let ?u = "rmd160_used ctx"
  have buf: "blit (buffer ctx) ?u (take (64 - ?u) xs) = take ?u (buffer ctx) @ take (64 - ?u) xs"
    using assms rmd160_used_less [of ctx] by (intro blit_whole) auto
  have len: "length (buffer ctx) = 64" and u: "min 64 ?u + (64 - ?u) = 64"
    using assms rmd160_used_less [of ctx] by (simp_all add: min_def)
  show "state (RMD160Update ctx xs) = absorb 64 RMD160Transform
      (RMD160Transform (state ctx) (take ?u (buffer ctx) @ take (64 - ?u) xs)) rest"
    using assms(2)
    by (auto simp: RMD160Update_def Let_def rmd160_used_code block_loop_eq buf rest_def absorb.simps [of 64 _ _ xs])
  show "\<exists>b. length b = 64 \<and> buffer (RMD160Update ctx xs) = blit b 0 (leftover 64 rest)"
  proof (cases "?u = 0")
    case True
    then have "leftover 64 xs = leftover 64 rest"
      using assms(2) by (simp add: rest_def leftover_unfold)
    then show ?thesis
      using assms(2) True len
      by (intro exI [of _ "buffer ctx"]) (simp add: RMD160Update_def Let_def rmd160_used_code block_loop_eq blit_def)
  next
    case False
    then show ?thesis
      using assms(2) len buf u
      by (intro exI [of _ "take ?u (buffer ctx) @ take (64 - ?u) xs"])
        (simp add: RMD160Update_def Let_def rmd160_used_code block_loop_eq rest_def blit_def)
  qed
qed

interpretation rmd160: buffered_hash 64 RMD160Transform RMD160Update state buffer rmd160_used 64
  "\<lambda>ctx. unat (count ctx)" "2 ^ 64" "\<lambda>xs. length xs < 2 ^ 29"
  using RMD160Update_short RMD160Update_long
  by unfold_locales (simp_all add: rmd160_used_less rmd160_used_update RMD160Update_bits unat_count_add unat_count_less)

section \<open>The digest\<close>

text \<open>The reference: pad the whole message and absorb it.\<close>

definition rmd160_init_state :: rmd160_state where
  "rmd160_init_state = (0x67452301, 0xEFCDAB89, 0x98BADCFE, 0x10325476, 0xC3D2E1F0)"

definition rmd160_digest :: "u8 list \<Rightarrow> u8 list" where
  "rmd160_digest msg =
     (case absorb 64 RMD160Transform rmd160_init_state
         (md_pad 64 (PUT_64BIT_LE (of_nat (8 * length msg))) msg) of
       (s0, s1, s2, s3, s4) \<Rightarrow>
         PUT_32BIT_LE s0 @ PUT_32BIT_LE s1 @ PUT_32BIT_LE s2 @ PUT_32BIT_LE s3 @ PUT_32BIT_LE s4)"

lemma RMD160Final_stream:
  assumes "length (buffer c) = 64" "state c = absorb 64 RMD160Transform rmd160_init_state msg"
    and "take (rmd160_used c) (buffer c) = leftover 64 msg" "unat (count c) = (8 * length msg) mod 2 ^ 64"
  shows "fst (RMD160Final c) = rmd160_digest msg"
proof -
  have used: "rmd160_used c = length msg mod 64"
    using assms(4) used_count_add [of 0 "length msg"] by (simp add: rmd160_used_def)
  have cnt: "count c = of_nat (8 * length msg)"
    using assms(4) by (rule count_eq_of_nat)
  define pz where "pz = (0x80 :: u8) # replicate (pad_zeros 64 8 (length msg)) 0"
  have pz: "RMD160Pad c = RMD160Update (RMD160Update c pz) (PUT_64BIT_LE (count c))"
    using take_padding [OF used refl] rmd160_used_less [of c]
    by (auto simp: RMD160Pad_def Let_def rmd160_used_code pz_def rmd160_PADDING_def split: if_splits)
  have "length pz < 2 ^ 29" using pad_zeros_less [of 64 8 "length msg"] by (simp add: pz_def)
  then have "state (RMD160Pad c) =
      absorb 64 RMD160Transform rmd160_init_state (msg @ pz @ PUT_64BIT_LE (count c))"
    unfolding pz by (intro rmd160.update_pad assms) simp_all
  then show ?thesis
    by (simp add: RMD160Final_def rmd160_digest_def md_pad_def pz_def cnt Let_def split: prod.split)
qed

section \<open>Properties\<close>

definition rmd160_blank :: rmd160_ctx where
  "rmd160_blank = \<lparr>state = (0, 0, 0, 0, 0), count = 0, buffer = replicate 64 0\<rparr>"

text \<open>
  RIPEMD-160 is independent of how the message is cut: feeding the pieces of a message,
  each shorter than \<open>2 ^ 29\<close> bytes, through
  \<open>RMD160Update\<close> in any chunking and finishing with \<open>RMD160Final\<close> yields the digest of the
  whole message, that is, the compression function folded over the padded message.
\<close>

theorem rmd160_streaming:
  assumes "length (buffer ctx) = 64" "\<forall>xs \<in> set xss. length xs < 2 ^ 29"
  shows "fst (RMD160Final (foldl RMD160Update (RMD160Init ctx) xss)) = rmd160_digest (concat xss)"
proof -
  have v: "length (buffer (RMD160Init ctx)) = 64" and p: "rmd160_used (RMD160Init ctx) = 0"
    using assms(1) by (simp_all add: rmd160_used_def RMD160Init_def)
  show ?thesis
    using rmd160.update_chunks [OF v assms(2)]
    by (intro RMD160Final_stream) (simp_all add: p, simp_all add: RMD160Init_def rmd160_init_state_def)
qed

theorem rmd160_streaming_witness:
  "fst (RMD160Final (foldl RMD160Update (RMD160Init rmd160_blank) [[0x61], [], replicate 100 0x62]))
    = rmd160_digest (0x61 # replicate 100 0x62)"
  using rmd160_streaming [of rmd160_blank "[[0x61], [], replicate 100 0x62]"] by (simp add: rmd160_blank_def)

end
