(* ===== verification/Sha1.thy ===== *)
theory Sha1
  imports Block_Hash
begin

text \<open>
  SHA-1 (CLibrary/hash/sha1.c): the eighty unrolled steps over the sixteen-word circular
  schedule, the context and its operations. A byte pointer with a length is the list of the
  bytes it points at. The bit count is advanced by \<open>len << 3\<close> computed in 32 bits, and the
  padding loop appends one zero byte per iteration until the length field fits, as in the
  source.
\<close>

section \<open>Compression function\<close>

type_synonym sha1_state = "u32 \<times> u32 \<times> u32 \<times> u32 \<times> u32"

definition sha1_rol :: "u32 \<Rightarrow> nat \<Rightarrow> u32" where
  "sha1_rol value bits = push_bit bits value OR drop_bit (32 - bits) value"

text \<open>The block \<open>l\<close> is updated by \<open>blk0\<close> and \<open>blk\<close>, whose value is the word stored.\<close>

definition sha1_blk0 :: "u32 list \<Rightarrow> nat \<Rightarrow> u32" where
  "sha1_blk0 l i =
     (sha1_rol (l ! i) 24 AND 0xFF00FF00) OR (sha1_rol (l ! i) 8 AND 0x00FF00FF)"

definition sha1_blk :: "u32 list \<Rightarrow> nat \<Rightarrow> u32" where
  "sha1_blk l i = sha1_rol (l ! ((i + 13) mod 16) XOR l ! ((i + 8) mod 16)
     XOR l ! ((i + 2) mod 16) XOR l ! (i mod 16)) 1"

text \<open>A step assigns to \<open>w\<close>, \<open>z\<close> and the block; the function returns them in that order.\<close>

type_synonym sha1_step =
  "u32 \<Rightarrow> u32 \<Rightarrow> u32 \<Rightarrow> u32 \<Rightarrow> u32 \<Rightarrow> nat \<Rightarrow> u32 list \<Rightarrow> u32 \<times> u32 \<times> u32 list"

definition SHA1_R0 :: sha1_step where
  "SHA1_R0 v w x y z i l = (let b = sha1_blk0 l i in
     (sha1_rol w 30, z + (((w AND (x XOR y)) XOR y) + b + 0x5A827999 + sha1_rol v 5), l[i := b]))"

definition SHA1_R1 :: sha1_step where
  "SHA1_R1 v w x y z i l = (let b = sha1_blk l i in
     (sha1_rol w 30, z + (((w AND (x XOR y)) XOR y) + b + 0x5A827999 + sha1_rol v 5),
      l[i mod 16 := b]))"

definition SHA1_R2 :: sha1_step where
  "SHA1_R2 v w x y z i l = (let b = sha1_blk l i in
     (sha1_rol w 30, z + ((w XOR x XOR y) + b + 0x6ED9EBA1 + sha1_rol v 5), l[i mod 16 := b]))"

definition SHA1_R3 :: sha1_step where
  "SHA1_R3 v w x y z i l = (let b = sha1_blk l i in
     (sha1_rol w 30, z + ((((w OR x) AND y) OR (w AND x)) + b + 0x8F1BBCDC + sha1_rol v 5),
      l[i mod 16 := b]))"

definition SHA1_R4 :: sha1_step where
  "SHA1_R4 v w x y z i l = (let b = sha1_blk l i in
     (sha1_rol w 30, z + ((w XOR x XOR y) + b + 0xCA62C1D6 + sha1_rol v 5), l[i mod 16 := b]))"

definition SHA1Transform :: "sha1_state \<Rightarrow> u8 list \<Rightarrow> sha1_state" where
  "SHA1Transform st buf =
     (let l = le_words 16 buf;
          (s0, s1, s2, s3, s4) = st;
          (a, b, c, d, e) = st;
          (b, e, l) = SHA1_R0 a b c d e 0 l;
          (a, d, l) = SHA1_R0 e a b c d 1 l;
          (e, c, l) = SHA1_R0 d e a b c 2 l;
          (d, b, l) = SHA1_R0 c d e a b 3 l;
          (c, a, l) = SHA1_R0 b c d e a 4 l;
          (b, e, l) = SHA1_R0 a b c d e 5 l;
          (a, d, l) = SHA1_R0 e a b c d 6 l;
          (e, c, l) = SHA1_R0 d e a b c 7 l;
          (d, b, l) = SHA1_R0 c d e a b 8 l;
          (c, a, l) = SHA1_R0 b c d e a 9 l;
          (b, e, l) = SHA1_R0 a b c d e 10 l;
          (a, d, l) = SHA1_R0 e a b c d 11 l;
          (e, c, l) = SHA1_R0 d e a b c 12 l;
          (d, b, l) = SHA1_R0 c d e a b 13 l;
          (c, a, l) = SHA1_R0 b c d e a 14 l;
          (b, e, l) = SHA1_R0 a b c d e 15 l;
          (a, d, l) = SHA1_R1 e a b c d 16 l;
          (e, c, l) = SHA1_R1 d e a b c 17 l;
          (d, b, l) = SHA1_R1 c d e a b 18 l;
          (c, a, l) = SHA1_R1 b c d e a 19 l;
          (b, e, l) = SHA1_R2 a b c d e 20 l;
          (a, d, l) = SHA1_R2 e a b c d 21 l;
          (e, c, l) = SHA1_R2 d e a b c 22 l;
          (d, b, l) = SHA1_R2 c d e a b 23 l;
          (c, a, l) = SHA1_R2 b c d e a 24 l;
          (b, e, l) = SHA1_R2 a b c d e 25 l;
          (a, d, l) = SHA1_R2 e a b c d 26 l;
          (e, c, l) = SHA1_R2 d e a b c 27 l;
          (d, b, l) = SHA1_R2 c d e a b 28 l;
          (c, a, l) = SHA1_R2 b c d e a 29 l;
          (b, e, l) = SHA1_R2 a b c d e 30 l;
          (a, d, l) = SHA1_R2 e a b c d 31 l;
          (e, c, l) = SHA1_R2 d e a b c 32 l;
          (d, b, l) = SHA1_R2 c d e a b 33 l;
          (c, a, l) = SHA1_R2 b c d e a 34 l;
          (b, e, l) = SHA1_R2 a b c d e 35 l;
          (a, d, l) = SHA1_R2 e a b c d 36 l;
          (e, c, l) = SHA1_R2 d e a b c 37 l;
          (d, b, l) = SHA1_R2 c d e a b 38 l;
          (c, a, l) = SHA1_R2 b c d e a 39 l;
          (b, e, l) = SHA1_R3 a b c d e 40 l;
          (a, d, l) = SHA1_R3 e a b c d 41 l;
          (e, c, l) = SHA1_R3 d e a b c 42 l;
          (d, b, l) = SHA1_R3 c d e a b 43 l;
          (c, a, l) = SHA1_R3 b c d e a 44 l;
          (b, e, l) = SHA1_R3 a b c d e 45 l;
          (a, d, l) = SHA1_R3 e a b c d 46 l;
          (e, c, l) = SHA1_R3 d e a b c 47 l;
          (d, b, l) = SHA1_R3 c d e a b 48 l;
          (c, a, l) = SHA1_R3 b c d e a 49 l;
          (b, e, l) = SHA1_R3 a b c d e 50 l;
          (a, d, l) = SHA1_R3 e a b c d 51 l;
          (e, c, l) = SHA1_R3 d e a b c 52 l;
          (d, b, l) = SHA1_R3 c d e a b 53 l;
          (c, a, l) = SHA1_R3 b c d e a 54 l;
          (b, e, l) = SHA1_R3 a b c d e 55 l;
          (a, d, l) = SHA1_R3 e a b c d 56 l;
          (e, c, l) = SHA1_R3 d e a b c 57 l;
          (d, b, l) = SHA1_R3 c d e a b 58 l;
          (c, a, l) = SHA1_R3 b c d e a 59 l;
          (b, e, l) = SHA1_R4 a b c d e 60 l;
          (a, d, l) = SHA1_R4 e a b c d 61 l;
          (e, c, l) = SHA1_R4 d e a b c 62 l;
          (d, b, l) = SHA1_R4 c d e a b 63 l;
          (c, a, l) = SHA1_R4 b c d e a 64 l;
          (b, e, l) = SHA1_R4 a b c d e 65 l;
          (a, d, l) = SHA1_R4 e a b c d 66 l;
          (e, c, l) = SHA1_R4 d e a b c 67 l;
          (d, b, l) = SHA1_R4 c d e a b 68 l;
          (c, a, l) = SHA1_R4 b c d e a 69 l;
          (b, e, l) = SHA1_R4 a b c d e 70 l;
          (a, d, l) = SHA1_R4 e a b c d 71 l;
          (e, c, l) = SHA1_R4 d e a b c 72 l;
          (d, b, l) = SHA1_R4 c d e a b 73 l;
          (c, a, l) = SHA1_R4 b c d e a 74 l;
          (b, e, l) = SHA1_R4 a b c d e 75 l;
          (a, d, l) = SHA1_R4 e a b c d 76 l;
          (e, c, l) = SHA1_R4 d e a b c 77 l;
          (d, b, l) = SHA1_R4 c d e a b 78 l;
          (c, a, l) = SHA1_R4 b c d e a 79 l
      in (s0 + a, s1 + b, s2 + c, s3 + d, s4 + e))"

section \<open>Context and operations\<close>

record sha1_ctx =
  state :: sha1_state
  count :: u64
  buffer :: "u8 list"

definition SHA1Init :: "sha1_ctx \<Rightarrow> sha1_ctx" where
  "SHA1Init context = context\<lparr>count := 0,
     state := (0x67452301, 0xEFCDAB89, 0x98BADCFE, 0x10325476, 0xC3D2E1F0)\<rparr>"

definition SHA1Update :: "sha1_ctx \<Rightarrow> u8 list \<Rightarrow> sha1_ctx" where
  "SHA1Update context data =
     (let len = (of_nat (length data) :: u32);
          j = (ucast (drop_bit 3 (count context) AND 63) :: u32);
          context = context\<lparr>count := count context + ucast (push_bit 3 len)\<rparr>
      in if j + len > 63
         then
           let i = 64 - unat j;
               context = context\<lparr>buffer := blit (buffer context) (unat j) (take i data)\<rparr>;
               context = context\<lparr>state := SHA1Transform (state context) (buffer context)\<rparr>;
               (st, rest) = block_loop 64 SHA1Transform (state context) (drop i data)
           in context\<lparr>state := st, buffer := blit (buffer context) 0 rest\<rparr>
         else context\<lparr>buffer := blit (buffer context) (unat j) data\<rparr>)"

text \<open>The number of pending bytes, and how the code reads it off the bit count.\<close>

definition sha1_used :: "sha1_ctx \<Rightarrow> nat" where
  "sha1_used ctx = unat (count ctx) div 8 mod 64"

lemma sha1_used_less: "sha1_used ctx < 64"
  by (simp add: sha1_used_def)

lemma sha1_used_code: "unat (ucast (drop_bit 3 (count ctx) AND 63) :: u32) = sha1_used ctx"
  by (simp add: unsigned_ucast_eq take_bit_eq_mod used_of_count sha1_used_def)

lemma sha1_full_code:
  assumes "length xs < 2 ^ 29"
  shows "(63 < (ucast (drop_bit 3 (count ctx) AND 63) :: u32) + of_nat (length xs)) =
    (64 - sha1_used ctx \<le> length xs)"
proof -
  have "unat ((ucast (drop_bit 3 (count ctx) AND 63) :: u32) + of_nat (length xs))
      = sha1_used ctx + length xs"
    using assms sha1_used_less [of ctx]
    by (simp add: unat_word_ariths unat_of_nat sha1_used_code)
  then show ?thesis using sha1_used_less [of ctx] by (auto simp: word_less_nat_alt)
qed

lemma SHA1Update_count:
  "count (SHA1Update ctx xs) = count ctx + ucast (push_bit 3 (of_nat (length xs) :: u32))"
  by (simp add: SHA1Update_def Let_def block_loop_eq)

lemma SHA1Update_bits:
  "length xs < 2 ^ 29 \<Longrightarrow> count (SHA1Update ctx xs) = count ctx + push_bit 3 (of_nat (length xs))"
  by (simp only: SHA1Update_count ucast_bit_length)

lemma sha1_used_update:
  "length xs < 2 ^ 29 \<Longrightarrow> sha1_used (SHA1Update ctx xs) = (sha1_used ctx + length xs) mod 64"
  using used_count_add [of "unat (count ctx)" "length xs"]
  by (simp add: sha1_used_def SHA1Update_bits unat_count_add)

lemma sha1_pad_code: "(count ctx AND 504 = 448) = (sha1_used ctx = 56)"
proof -
  have "w AND push_bit 3 m = push_bit 3 (drop_bit 3 w AND m)" for w m :: u64
    by (rule bit_word_eqI) (auto simp: bit_simps)
  from this [of "count ctx" 63]
  have eq: "count ctx AND 504 = push_bit 3 (drop_bit 3 (count ctx) AND 63)" by simp
  have "unat (push_bit 3 (drop_bit 3 (count ctx) AND 63)) = 8 * sha1_used ctx"
    using sha1_used_less [of ctx]
    by (simp add: push_bit_eq_mult unat_word_ariths used_of_count sha1_used_def)
  then show ?thesis by (simp add: eq word_unat_eq_iff)
qed

text \<open>The loop of \<open>SHA1Pad\<close> ends: each iteration moves the position one byte nearer to 56.\<close>

function sha1_pad_loop :: "sha1_ctx \<Rightarrow> sha1_ctx" where
  "sha1_pad_loop context =
     (if count context AND 504 \<noteq> 448 then sha1_pad_loop (SHA1Update context [0]) else context)"
  by pat_completeness auto
termination
proof (relation "measure (\<lambda>ctx. (120 - sha1_used ctx) mod 64)")
  fix ctx :: sha1_ctx assume "count ctx AND 504 \<noteq> 448"
  then have "sha1_used ctx \<noteq> 56" by (simp add: sha1_pad_code)
  then show "(SHA1Update ctx [0], ctx) \<in> measure (\<lambda>ctx. (120 - sha1_used ctx) mod 64)"
    using sha1_used_less [of ctx]
    by (cases "sha1_used ctx = 63"; cases "sha1_used ctx < 56") (auto simp: sha1_used_update mod_if)
qed simp

declare sha1_pad_loop.simps [simp del]

definition SHA1Pad :: "sha1_ctx \<Rightarrow> sha1_ctx" where
  "SHA1Pad context =
     (let finalcount = map (\<lambda>i. ucast (drop_bit ((7 - i mod 8) * 8) (count context) AND 255)) [0..<8];
          context = SHA1Update context [0x80];
          context = sha1_pad_loop context
      in SHA1Update context finalcount)"

definition SHA1Final :: "sha1_ctx \<Rightarrow> u8 list \<times> sha1_ctx" where
  "SHA1Final context =
     (let context = SHA1Pad context;
          (s0, s1, s2, s3, s4) = state context;
          st = [s0, s1, s2, s3, s4];
          digest = map (\<lambda>i. ucast (drop_bit ((3 - i mod 4) * 8) (st ! (i div 4)) AND 255)) [0..<20]
      in (digest, \<lparr>state = (0, 0, 0, 0, 0), count = 0, buffer = replicate 64 0\<rparr>))"

section \<open>The context as an incremental hash\<close>

lemma SHA1Update_short:
  assumes "length xs < 2 ^ 29" "length xs < 64 - sha1_used ctx"
  shows "state (SHA1Update ctx xs) = state ctx"
    and "buffer (SHA1Update ctx xs) = blit (buffer ctx) (sha1_used ctx) xs"
  using assms sha1_full_code [OF assms(1), of ctx]
  by (simp_all add: SHA1Update_def Let_def sha1_used_code)

lemma SHA1Update_long:
  assumes "length (buffer ctx) = 64" "length xs < 2 ^ 29" "64 - sha1_used ctx \<le> length xs"
  defines "rest \<equiv> drop (64 - sha1_used ctx) xs"
  shows "state (SHA1Update ctx xs) = absorb 64 SHA1Transform
      (SHA1Transform (state ctx) (take (sha1_used ctx) (buffer ctx) @ take (64 - sha1_used ctx) xs)) rest"
    and "\<exists>b. length b = 64 \<and> buffer (SHA1Update ctx xs) = blit b 0 (leftover 64 rest)"
proof -
  let ?u = "sha1_used ctx"
  have buf: "blit (buffer ctx) ?u (take (64 - ?u) xs) = take ?u (buffer ctx) @ take (64 - ?u) xs"
    using assms sha1_used_less [of ctx] by (intro blit_whole) auto
  have len: "length (take ?u (buffer ctx) @ take (64 - ?u) xs) = 64"
    using assms sha1_used_less [of ctx] by simp
  have full: "63 < (ucast (drop_bit 3 (count ctx) AND 63) :: u32) + of_nat (length xs)"
    using sha1_full_code [OF assms(2), of ctx] assms(3) by simp
  show "state (SHA1Update ctx xs) = absorb 64 SHA1Transform
      (SHA1Transform (state ctx) (take ?u (buffer ctx) @ take (64 - ?u) xs)) rest"
    using full by (simp add: SHA1Update_def Let_def sha1_used_code block_loop_eq buf rest_def)
  show "\<exists>b. length b = 64 \<and> buffer (SHA1Update ctx xs) = blit b 0 (leftover 64 rest)"
    using full len
    by (intro exI [of _ "take ?u (buffer ctx) @ take (64 - ?u) xs"])
      (simp add: SHA1Update_def Let_def sha1_used_code block_loop_eq buf rest_def)
qed

interpretation sha1: buffered_hash 64 SHA1Transform SHA1Update state buffer sha1_used 64
  "\<lambda>ctx. unat (count ctx)" "2 ^ 64" "\<lambda>xs. length xs < 2 ^ 29"
  using SHA1Update_short SHA1Update_long
  by unfold_locales
    (simp_all add: sha1_used_less sha1_used_update SHA1Update_bits unat_count_add unat_count_less)

text \<open>The padding loop feeds exactly the zero bytes of the reference padding.\<close>

lemma sha1_pad_loop_eq:
  "sha1_pad_loop ctx = foldl SHA1Update ctx (replicate ((120 - sha1_used ctx) mod 64) [0])"
proof (induction ctx rule: sha1_pad_loop.induct)
  case (1 ctx)
  show ?case
  proof (cases "sha1_used ctx = 56")
    case True
    then show ?thesis by (subst sha1_pad_loop.simps) (simp add: sha1_pad_code)
  next
    case False
    then have "(120 - sha1_used ctx) mod 64 = Suc ((120 - sha1_used (SHA1Update ctx [0])) mod 64)"
      using sha1_used_less [of ctx]
      by (cases "sha1_used ctx = 63"; cases "sha1_used ctx < 56") (auto simp: sha1_used_update mod_if)
    then show ?thesis
      using 1 False by (subst sha1_pad_loop.simps) (simp add: sha1_pad_code)
  qed
qed

section \<open>The digest\<close>

text \<open>The reference: pad the whole message, absorb it, and write the state out big-endian.\<close>

definition sha1_init_state :: sha1_state where
  "sha1_init_state = (0x67452301, 0xEFCDAB89, 0x98BADCFE, 0x10325476, 0xC3D2E1F0)"

definition sha1_digest :: "u8 list \<Rightarrow> u8 list" where
  "sha1_digest msg =
     (case absorb 64 SHA1Transform sha1_init_state
         (md_pad 64 (BE_64_TO_8 (of_nat (8 * length msg))) msg) of
       (s0, s1, s2, s3, s4) \<Rightarrow> concat (map BE_32_TO_8 [s0, s1, s2, s3, s4]))"

lemma sha1_finalcount:
  "map (\<lambda>i. ucast (drop_bit ((7 - i mod 8) * 8) (c :: u64) AND 255)) [0..<8] = BE_64_TO_8 c"
  by (simp add: BE_64_TO_8_def upt_rec ucast_and_255)

lemma sha1_digest_bytes:
  "map (\<lambda>i. ucast (drop_bit ((3 - i mod 4) * 8) ([s0, s1, s2, s3, s4] ! (i div 4) :: u32) AND 255)) [0..<20]
    = concat (map BE_32_TO_8 [s0, s1, s2, s3, s4])"
  by (simp add: BE_32_TO_8_def upt_rec ucast_and_255)

lemma sha1_concat_zeros: "concat (replicate k [x]) = replicate k x"
  by (induction k) simp_all

lemma SHA1Final_stream:
  assumes "length (buffer c) = 64" "state c = absorb 64 SHA1Transform sha1_init_state msg"
    and "take (sha1_used c) (buffer c) = leftover 64 msg" "unat (count c) = (8 * length msg) mod 2 ^ 64"
  shows "fst (SHA1Final c) = sha1_digest msg"
proof -
  have used: "sha1_used c = length msg mod 64"
    using assms(4) used_count_add [of 0 "length msg"] by (simp add: sha1_used_def)
  have cnt: "count c = of_nat (8 * length msg)"
    using assms(4) by (rule count_eq_of_nat)
  let ?k = "(120 - sha1_used (SHA1Update c [0x80])) mod 64"
  have k: "?k = pad_zeros 64 8 (length msg)"
    using sha1_used_less [of c]
    by (cases "sha1_used c = 63") (simp_all add: sha1_used_update pad_zeros_def used [symmetric])
  have "SHA1Pad c = foldl SHA1Update c ([[0x80]] @ replicate ?k [0] @ [BE_64_TO_8 (count c)])"
    by (simp add: SHA1Pad_def Let_def sha1_finalcount sha1_pad_loop_eq)
  moreover have "concat ([[0x80]] @ replicate ?k [0] @ [BE_64_TO_8 (count c)])
      = 0x80 # replicate ?k 0 @ BE_64_TO_8 (count c)"
    by (simp add: sha1_concat_zeros)
  ultimately have "state (SHA1Pad c) = absorb 64 SHA1Transform (state c)
      (leftover 64 msg @ 0x80 # replicate ?k 0 @ BE_64_TO_8 (count c))"
    using sha1.update_chunks [OF assms(1), of "[[0x80]] @ replicate ?k [0] @ [BE_64_TO_8 (count c)]"]
    by (simp add: assms(3) ball_Un)
  also have "\<dots> = absorb 64 SHA1Transform sha1_init_state
      (md_pad 64 (BE_64_TO_8 (count c)) msg)"
    unfolding assms(2) k md_pad_def by (subst (2) absorb_append) simp_all
  finally show ?thesis
    by (simp add: SHA1Final_def sha1_digest_def cnt Let_def sha1_digest_bytes split: prod.split)
qed

section \<open>Properties\<close>

definition sha1_blank :: sha1_ctx where
  "sha1_blank = \<lparr>state = (0, 0, 0, 0, 0), count = 0, buffer = replicate 64 0\<rparr>"

text \<open>
  SHA-1 is independent of how the message is cut: feeding the pieces of a message, each
  shorter than \<open>2 ^ 29\<close> bytes, through \<open>SHA1Update\<close> in any chunking and finishing with
  \<open>SHA1Final\<close>, whose padding is one update per byte, yields the digest of the whole message:
  the compression function folded over the padded message, written out big-endian.
\<close>

theorem sha1_streaming:
  assumes "length (buffer ctx) = 64" "\<forall>xs \<in> set xss. length xs < 2 ^ 29"
  shows "fst (SHA1Final (foldl SHA1Update (SHA1Init ctx) xss)) = sha1_digest (concat xss)"
proof -
  have v: "length (buffer (SHA1Init ctx)) = 64" and p: "sha1_used (SHA1Init ctx) = 0"
    using assms(1) by (simp_all add: sha1_used_def SHA1Init_def)
  show ?thesis
    using sha1.update_chunks [OF v assms(2)]
    by (intro SHA1Final_stream) (simp_all add: p, simp_all add: SHA1Init_def sha1_init_state_def)
qed

theorem sha1_streaming_witness:
  "fst (SHA1Final (foldl SHA1Update (SHA1Init sha1_blank) [[0x61], [], replicate 100 0x62]))
    = sha1_digest (0x61 # replicate 100 0x62)"
  using sha1_streaming [of sha1_blank "[[0x61], [], replicate 100 0x62]"] by (simp add: sha1_blank_def)

text \<open>
  The bound on a piece is needed: \<open>SHA1Update\<close> computes \<open>len << 3\<close> in the 32 bits of
  \<open>size_t\<close>, so a piece of \<open>2 ^ 29\<close> bytes (or any multiple of it) is processed without being
  counted, and the length that \<open>SHA1Pad\<close> appends misses it.
\<close>

theorem sha1_update_loses_count:
  assumes "2 ^ 29 dvd length xs"
  shows "count (SHA1Update ctx xs) = count ctx"
proof -
  obtain k where k: "length xs = 2 ^ 29 * k" using assms by blast
  have "push_bit 3 (of_nat (length xs) :: u32) = of_nat (2 ^ 32 * k)"
    by (simp add: k push_bit_eq_mult)
  also have "\<dots> = 0" by (simp add: word_unat_eq_iff unat_of_nat del: of_nat_mult)
  finally show ?thesis by (simp add: SHA1Update_count)
qed

theorem sha1_update_loses_count_witness:
  "count (SHA1Update sha1_blank (replicate (2 ^ 29) 0x61)) = 0"
  using sha1_update_loses_count [of "replicate (2 ^ 29) 0x61" sha1_blank]
  by (simp add: sha1_blank_def)

end
