(* ===== verification/Sha2_Transform.thy ===== *)
theory Sha2_Transform
  imports Block_Hash
begin

text \<open>
  The compression functions of SHA-2 (CLibrary/hash/sha2.c): the logical functions, the
  constant tables, \<open>SHA256Transform\<close> and \<open>SHA512Transform\<close> as compiled by default (rolled
  loops) and as compiled under \<open>SHA2_UNROLL_TRANSFORM\<close>, with the proof that the two variants
  compute the same function. The loop counter \<open>j\<close> stays below 80 and is a natural number.
\<close>

section \<open>Logical functions\<close>

definition BE_8_TO_32 :: "u8 list \<Rightarrow> nat \<Rightarrow> u32" where
  "BE_8_TO_32 cp i = ucast (cp ! (i + 3)) OR push_bit 8 (ucast (cp ! (i + 2)))
     OR push_bit 16 (ucast (cp ! (i + 1))) OR push_bit 24 (ucast (cp ! i))"

definition BE_8_TO_64 :: "u8 list \<Rightarrow> nat \<Rightarrow> u64" where
  "BE_8_TO_64 cp i = ucast (cp ! (i + 7)) OR push_bit 8 (ucast (cp ! (i + 6)))
     OR push_bit 16 (ucast (cp ! (i + 5))) OR push_bit 24 (ucast (cp ! (i + 4)))
     OR push_bit 32 (ucast (cp ! (i + 3))) OR push_bit 40 (ucast (cp ! (i + 2)))
     OR push_bit 48 (ucast (cp ! (i + 1))) OR push_bit 56 (ucast (cp ! i))"

definition S32 :: "nat \<Rightarrow> u32 \<Rightarrow> u32" where
  "S32 b x = drop_bit b x OR push_bit (32 - b) x"

definition S64 :: "nat \<Rightarrow> u64 \<Rightarrow> u64" where
  "S64 b x = drop_bit b x OR push_bit (64 - b) x"

definition Ch :: "'a::len word \<Rightarrow> 'a word \<Rightarrow> 'a word \<Rightarrow> 'a word" where
  "Ch x y z = (x AND y) XOR (NOT x AND z)"

definition Maj :: "'a::len word \<Rightarrow> 'a word \<Rightarrow> 'a word \<Rightarrow> 'a word" where
  "Maj x y z = (x AND y) XOR (x AND z) XOR (y AND z)"

definition Sigma0_256 :: "u32 \<Rightarrow> u32" where
  "Sigma0_256 x = S32 2 x XOR S32 13 x XOR S32 22 x"

definition Sigma1_256 :: "u32 \<Rightarrow> u32" where
  "Sigma1_256 x = S32 6 x XOR S32 11 x XOR S32 25 x"

definition sigma0_256 :: "u32 \<Rightarrow> u32" where
  "sigma0_256 x = S32 7 x XOR S32 18 x XOR drop_bit 3 x"

definition sigma1_256 :: "u32 \<Rightarrow> u32" where
  "sigma1_256 x = S32 17 x XOR S32 19 x XOR drop_bit 10 x"

definition Sigma0_512 :: "u64 \<Rightarrow> u64" where
  "Sigma0_512 x = S64 28 x XOR S64 34 x XOR S64 39 x"

definition Sigma1_512 :: "u64 \<Rightarrow> u64" where
  "Sigma1_512 x = S64 14 x XOR S64 18 x XOR S64 41 x"

definition sigma0_512 :: "u64 \<Rightarrow> u64" where
  "sigma0_512 x = S64 1 x XOR S64 8 x XOR drop_bit 7 x"

definition sigma1_512 :: "u64 \<Rightarrow> u64" where
  "sigma1_512 x = S64 19 x XOR S64 61 x XOR drop_bit 6 x"

lemma upt_eight:
  "[j..<j + 8] = [j, Suc j, Suc (Suc j), Suc (Suc (Suc j)), Suc (Suc (Suc (Suc j))),
    Suc (Suc (Suc (Suc (Suc j)))), Suc (Suc (Suc (Suc (Suc (Suc j))))),
    Suc (Suc (Suc (Suc (Suc (Suc (Suc j))))))]"
  by (simp add: upt_rec)

section \<open>The SHA-256 compression function\<close>

type_synonym sha256_regs = "u32 \<times> u32 \<times> u32 \<times> u32 \<times> u32 \<times> u32 \<times> u32 \<times> u32"

definition K256 :: "u32 list" where
  "K256 = concat [
     [0x428a2f98, 0x71374491, 0xb5c0fbcf, 0xe9b5dba5],
     [0x3956c25b, 0x59f111f1, 0x923f82a4, 0xab1c5ed5],
     [0xd807aa98, 0x12835b01, 0x243185be, 0x550c7dc3],
     [0x72be5d74, 0x80deb1fe, 0x9bdc06a7, 0xc19bf174],
     [0xe49b69c1, 0xefbe4786, 0x0fc19dc6, 0x240ca1cc],
     [0x2de92c6f, 0x4a7484aa, 0x5cb0a9dc, 0x76f988da],
     [0x983e5152, 0xa831c66d, 0xb00327c8, 0xbf597fc7],
     [0xc6e00bf3, 0xd5a79147, 0x06ca6351, 0x14292967],
     [0x27b70a85, 0x2e1b2138, 0x4d2c6dfc, 0x53380d13],
     [0x650a7354, 0x766a0abb, 0x81c2c92e, 0x92722c85],
     [0xa2bfe8a1, 0xa81a664b, 0xc24b8b70, 0xc76c51a3],
     [0xd192e819, 0xd6990624, 0xf40e3585, 0x106aa070],
     [0x19a4c116, 0x1e376c08, 0x2748774c, 0x34b0bcb5],
     [0x391c0cb3, 0x4ed8aa4a, 0x5b9cca4f, 0x682e6ff3],
     [0x748f82ee, 0x78a5636f, 0x84c87814, 0x8cc70208],
     [0x90befffa, 0xa4506ceb, 0xbef9a3f7, 0xc67178f2]]"

definition sha256_load :: "u32 list \<Rightarrow> sha256_regs" where
  "sha256_load state = (state ! 0, state ! 1, state ! 2, state ! 3, state ! 4, state ! 5,
     state ! 6, state ! 7)"

text \<open>The rolled loops: the registers shift by one position in every round.\<close>

definition sha256_round :: "nat \<Rightarrow> u32 \<Rightarrow> sha256_regs \<Rightarrow> sha256_regs" where
  "sha256_round j w r =
     (let (a, b, c, d, e, f, g, h) = r;
          T1 = h + Sigma1_256 e + Ch e f g + K256 ! j + w;
          T2 = Sigma0_256 a + Maj a b c
      in (T1 + T2, a, b, c, d + T1, e, f, g))"

definition sha256_first :: "u8 list \<Rightarrow> nat \<Rightarrow> sha256_regs \<times> u32 list \<Rightarrow> sha256_regs \<times> u32 list" where
  "sha256_first data j = (\<lambda>(r, W).
     let W = W[j := BE_8_TO_32 data (4 * j)] in (sha256_round j (W ! j) r, W))"

definition sha256_later :: "nat \<Rightarrow> sha256_regs \<times> u32 list \<Rightarrow> sha256_regs \<times> u32 list" where
  "sha256_later j = (\<lambda>(r, W).
     let s0 = sigma0_256 (W ! ((j + 1) mod 16));
         s1 = sigma1_256 (W ! ((j + 14) mod 16));
         w = W ! (j mod 16) + (s1 + W ! ((j + 9) mod 16) + s0)
     in (sha256_round j w r, W[j mod 16 := w]))"

definition SHA256Transform :: "u32 list \<Rightarrow> u8 list \<Rightarrow> u32 list" where
  "SHA256Transform state data =
     (let s = fold (sha256_first data) [0..<16] (sha256_load state, replicate 16 0);
          s = fold sha256_later [16..<64] s;
          (a, b, c, d, e, f, g, h) = fst s
      in [state ! 0 + a, state ! 1 + b, state ! 2 + c, state ! 3 + d, state ! 4 + e, state ! 5 + f, state ! 6 + g, state ! 7 + h])"

text \<open>
  The variant compiled under \<open>SHA2_UNROLL_TRANSFORM\<close>: the registers stay in place and the
  macro arguments rotate. A macro assigns to \<open>d\<close>, \<open>h\<close> and the schedule, which are returned.
\<close>

definition ROUND256_0_TO_15 ::
  "u8 list \<Rightarrow> u32 \<Rightarrow> u32 \<Rightarrow> u32 \<Rightarrow> u32 \<Rightarrow> u32 \<Rightarrow> u32 \<Rightarrow> u32 \<Rightarrow> u32 \<Rightarrow> u32 list \<Rightarrow> nat \<Rightarrow>
    u32 \<times> u32 \<times> u32 list" where
  "ROUND256_0_TO_15 data a b c d e f g h W j =
     (let W = W[j := BE_8_TO_32 data (4 * j)];
          T1 = h + Sigma1_256 e + Ch e f g + K256 ! j + W ! j
      in (d + T1, T1 + Sigma0_256 a + Maj a b c, W))"

definition ROUND256 ::
  "u32 \<Rightarrow> u32 \<Rightarrow> u32 \<Rightarrow> u32 \<Rightarrow> u32 \<Rightarrow> u32 \<Rightarrow> u32 \<Rightarrow> u32 \<Rightarrow> u32 list \<Rightarrow> nat \<Rightarrow>
    u32 \<times> u32 \<times> u32 list" where
  "ROUND256 a b c d e f g h W j =
     (let s0 = sigma0_256 (W ! ((j + 1) mod 16));
          s1 = sigma1_256 (W ! ((j + 14) mod 16));
          w = W ! (j mod 16) + (s1 + W ! ((j + 9) mod 16) + s0);
          T1 = h + Sigma1_256 e + Ch e f g + K256 ! j + w
      in (d + T1, T1 + Sigma0_256 a + Maj a b c, W[j mod 16 := w]))"

definition sha256_unrolled_first ::
  "u8 list \<Rightarrow> sha256_regs \<times> u32 list \<times> nat \<Rightarrow> sha256_regs \<times> u32 list \<times> nat" where
  "sha256_unrolled_first data s =
     (let (a, b, c, d, e, f, g, h) = fst s;
          (W, j) = snd s;
          (d, h, W) = ROUND256_0_TO_15 data a b c d e f g h W j;
          j = j + 1;
          (c, g, W) = ROUND256_0_TO_15 data h a b c d e f g W j;
          j = j + 1;
          (b, f, W) = ROUND256_0_TO_15 data g h a b c d e f W j;
          j = j + 1;
          (a, e, W) = ROUND256_0_TO_15 data f g h a b c d e W j;
          j = j + 1;
          (h, d, W) = ROUND256_0_TO_15 data e f g h a b c d W j;
          j = j + 1;
          (g, c, W) = ROUND256_0_TO_15 data d e f g h a b c W j;
          j = j + 1;
          (f, b, W) = ROUND256_0_TO_15 data c d e f g h a b W j;
          j = j + 1;
          (e, a, W) = ROUND256_0_TO_15 data b c d e f g h a W j;
          j = j + 1
      in ((a, b, c, d, e, f, g, h), W, j))"

definition sha256_unrolled_later ::
  "sha256_regs \<times> u32 list \<times> nat \<Rightarrow> sha256_regs \<times> u32 list \<times> nat" where
  "sha256_unrolled_later s =
     (let (a, b, c, d, e, f, g, h) = fst s;
          (W, j) = snd s;
          (d, h, W) = ROUND256 a b c d e f g h W j;
          j = j + 1;
          (c, g, W) = ROUND256 h a b c d e f g W j;
          j = j + 1;
          (b, f, W) = ROUND256 g h a b c d e f W j;
          j = j + 1;
          (a, e, W) = ROUND256 f g h a b c d e W j;
          j = j + 1;
          (h, d, W) = ROUND256 e f g h a b c d W j;
          j = j + 1;
          (g, c, W) = ROUND256 d e f g h a b c W j;
          j = j + 1;
          (f, b, W) = ROUND256 c d e f g h a b W j;
          j = j + 1;
          (e, a, W) = ROUND256 b c d e f g h a W j;
          j = j + 1
      in ((a, b, c, d, e, f, g, h), W, j))"

text \<open>One pass over the eight macros is eight rounds of the rolled loop.\<close>

lemma sha256_first_macro:
  "sha256_first data j ((a, b, c, d, e, f, g, h), W) =
    (case ROUND256_0_TO_15 data a b c d e f g h W j of (d', h', W') \<Rightarrow> ((h', a, b, c, d', e, f, g), W'))"
  by (simp add: sha256_first_def sha256_round_def ROUND256_0_TO_15_def Let_def add.assoc)

lemma sha256_later_macro:
  "sha256_later j ((a, b, c, d, e, f, g, h), W) =
    (case ROUND256 a b c d e f g h W j of (d', h', W') \<Rightarrow> ((h', a, b, c, d', e, f, g), W'))"
  by (simp add: sha256_later_def sha256_round_def ROUND256_def Let_def add.assoc)

lemma sha256_unrolled_first_eq:
  "sha256_unrolled_first data (r, W, j) =
    (case fold (sha256_first data) [j..<j + 8] (r, W) of (r, W) \<Rightarrow> (r, W, j + 8))"
  by (cases r) (simp add: sha256_unrolled_first_def upt_eight sha256_first_macro Let_def
    split: prod.split)

lemma sha256_unrolled_later_eq:
  "sha256_unrolled_later (r, W, j) =
    (case fold sha256_later [j..<j + 8] (r, W) of (r, W) \<Rightarrow> (r, W, j + 8))"
  by (cases r) (simp add: sha256_unrolled_later_def upt_eight sha256_later_macro Let_def
    split: prod.split)

function sha256_do_first ::
  "u8 list \<Rightarrow> sha256_regs \<times> u32 list \<times> nat \<Rightarrow> sha256_regs \<times> u32 list \<times> nat" where
  "sha256_do_first data s =
     (let s' = sha256_unrolled_first data s in
      if snd (snd s') < 16 then sha256_do_first data s' else s')"
  by pat_completeness auto
termination
  by (relation "measure (\<lambda>(data, r, W, j). 16 - j)")
    (auto simp: sha256_unrolled_first_eq split: prod.splits)

function sha256_do_later ::
  "sha256_regs \<times> u32 list \<times> nat \<Rightarrow> sha256_regs \<times> u32 list \<times> nat" where
  "sha256_do_later s =
     (let s' = sha256_unrolled_later s in
      if snd (snd s') < 64 then sha256_do_later s' else s')"
  by pat_completeness auto
termination
  by (relation "measure (\<lambda>(r, W, j). 64 - j)")
    (auto simp: sha256_unrolled_later_eq split: prod.splits)

declare sha256_do_first.simps [simp del] sha256_do_later.simps [simp del]

definition SHA256Transform_unrolled :: "u32 list \<Rightarrow> u8 list \<Rightarrow> u32 list" where
  "SHA256Transform_unrolled state data =
     (let s = sha256_do_first data (sha256_load state, replicate 16 0, 0);
          s = sha256_do_later s;
          (a, b, c, d, e, f, g, h) = fst s
      in [state ! 0 + a, state ! 1 + b, state ! 2 + c, state ! 3 + d, state ! 4 + e, state ! 5 + f, state ! 6 + g, state ! 7 + h])"

lemma sha256_do_first_eq:
  "j + 8 * Suc n = 16 \<Longrightarrow> sha256_do_first data (r, W, j) =
    (case fold (sha256_first data) [j..<16] (r, W) of (r, W) \<Rightarrow> (r, W, 16))"
proof (induction n arbitrary: r W j)
  case 0
  then show ?case
    by (subst sha256_do_first.simps) (simp add: sha256_unrolled_first_eq split: prod.split)
next
  case (Suc n)
  have "[j..<16] = [j..<j + 8] @ [j + 8..<16]"
    using Suc.prems upt_add_eq_append [of j "j + 8" "8 * Suc n"] by simp
  moreover obtain r' W' where s: "fold (sha256_first data) [j..<j + 8] (r, W) = (r', W')" by fastforce
  ultimately show ?case
    using Suc.IH [of "j + 8" r' W'] Suc.prems
    by (subst sha256_do_first.simps) (simp add: sha256_unrolled_first_eq)
qed

lemma sha256_do_later_eq:
  "j + 8 * Suc n = 64 \<Longrightarrow> sha256_do_later (r, W, j) =
    (case fold sha256_later [j..<64] (r, W) of (r, W) \<Rightarrow> (r, W, 64))"
proof (induction n arbitrary: r W j)
  case 0
  then have j: "[j..<64] = [j..<j + 8]" "j + 8 = 64" by simp_all
  show ?case
    by (subst sha256_do_later.simps, subst sha256_unrolled_later_eq, unfold j(1))
      (simp only: Let_def j(2) prod.case_eq_if fst_conv snd_conv less_irrefl if_False)
next
  case (Suc n)
  have "[j..<64] = [j..<j + 8] @ [j + 8..<64]"
    using Suc.prems upt_add_eq_append [of j "j + 8" "8 * Suc n"] by simp
  moreover obtain r' W' where s: "fold sha256_later [j..<j + 8] (r, W) = (r', W')" by fastforce
  moreover have "j + 8 < 64" "j + 8 + 8 * Suc n = 64" using Suc.prems by simp_all
  ultimately show ?case
    using Suc.IH [of "j + 8" r' W']
    by (subst sha256_do_later.simps, subst sha256_unrolled_later_eq)
      (simp only: Let_def s fold_append comp_apply prod.case snd_conv if_True)
qed

lemma sha256_unrolled_eq: "SHA256Transform_unrolled state data = SHA256Transform state data"
proof -
  obtain r W where s: "fold (sha256_first data) [0..<16] (sha256_load state, replicate 16 0) = (r, W)"
    by fastforce
  have "sha256_do_first data (sha256_load state, replicate 16 0, 0) = (r, W, 16)"
    using sha256_do_first_eq [of 0 1 data "sha256_load state" "replicate 16 0"] s by simp
  moreover have "fst (sha256_do_later (r, W, 16)) = fst (fold sha256_later [16..<64] (r, W))"
    using sha256_do_later_eq [of 16 "64 div 8 - 3" r W] by (simp split: prod.split)
  ultimately show ?thesis
    by (simp only: SHA256Transform_unrolled_def SHA256Transform_def Let_def s)
qed

section \<open>The SHA-512 compression function\<close>

type_synonym sha512_regs = "u64 \<times> u64 \<times> u64 \<times> u64 \<times> u64 \<times> u64 \<times> u64 \<times> u64"

definition K512 :: "u64 list" where
  "K512 = concat [
     [0x428a2f98d728ae22, 0x7137449123ef65cd],
     [0xb5c0fbcfec4d3b2f, 0xe9b5dba58189dbbc],
     [0x3956c25bf348b538, 0x59f111f1b605d019],
     [0x923f82a4af194f9b, 0xab1c5ed5da6d8118],
     [0xd807aa98a3030242, 0x12835b0145706fbe],
     [0x243185be4ee4b28c, 0x550c7dc3d5ffb4e2],
     [0x72be5d74f27b896f, 0x80deb1fe3b1696b1],
     [0x9bdc06a725c71235, 0xc19bf174cf692694],
     [0xe49b69c19ef14ad2, 0xefbe4786384f25e3],
     [0x0fc19dc68b8cd5b5, 0x240ca1cc77ac9c65],
     [0x2de92c6f592b0275, 0x4a7484aa6ea6e483],
     [0x5cb0a9dcbd41fbd4, 0x76f988da831153b5],
     [0x983e5152ee66dfab, 0xa831c66d2db43210],
     [0xb00327c898fb213f, 0xbf597fc7beef0ee4],
     [0xc6e00bf33da88fc2, 0xd5a79147930aa725],
     [0x06ca6351e003826f, 0x142929670a0e6e70],
     [0x27b70a8546d22ffc, 0x2e1b21385c26c926],
     [0x4d2c6dfc5ac42aed, 0x53380d139d95b3df],
     [0x650a73548baf63de, 0x766a0abb3c77b2a8],
     [0x81c2c92e47edaee6, 0x92722c851482353b],
     [0xa2bfe8a14cf10364, 0xa81a664bbc423001],
     [0xc24b8b70d0f89791, 0xc76c51a30654be30],
     [0xd192e819d6ef5218, 0xd69906245565a910],
     [0xf40e35855771202a, 0x106aa07032bbd1b8],
     [0x19a4c116b8d2d0c8, 0x1e376c085141ab53],
     [0x2748774cdf8eeb99, 0x34b0bcb5e19b48a8],
     [0x391c0cb3c5c95a63, 0x4ed8aa4ae3418acb],
     [0x5b9cca4f7763e373, 0x682e6ff3d6b2b8a3],
     [0x748f82ee5defb2fc, 0x78a5636f43172f60],
     [0x84c87814a1f0ab72, 0x8cc702081a6439ec],
     [0x90befffa23631e28, 0xa4506cebde82bde9],
     [0xbef9a3f7b2c67915, 0xc67178f2e372532b],
     [0xca273eceea26619c, 0xd186b8c721c0c207],
     [0xeada7dd6cde0eb1e, 0xf57d4f7fee6ed178],
     [0x06f067aa72176fba, 0x0a637dc5a2c898a6],
     [0x113f9804bef90dae, 0x1b710b35131c471b],
     [0x28db77f523047d84, 0x32caab7b40c72493],
     [0x3c9ebe0a15c9bebc, 0x431d67c49c100d4c],
     [0x4cc5d4becb3e42b6, 0x597f299cfc657e2a],
     [0x5fcb6fab3ad6faec, 0x6c44198c4a475817]]"

definition sha512_load :: "u64 list \<Rightarrow> sha512_regs" where
  "sha512_load state = (state ! 0, state ! 1, state ! 2, state ! 3, state ! 4, state ! 5,
     state ! 6, state ! 7)"

text \<open>The rolled loops: the registers shift by one position in every round.\<close>

definition sha512_round :: "nat \<Rightarrow> u64 \<Rightarrow> sha512_regs \<Rightarrow> sha512_regs" where
  "sha512_round j w r =
     (let (a, b, c, d, e, f, g, h) = r;
          T1 = h + Sigma1_512 e + Ch e f g + K512 ! j + w;
          T2 = Sigma0_512 a + Maj a b c
      in (T1 + T2, a, b, c, d + T1, e, f, g))"

definition sha512_first :: "u8 list \<Rightarrow> nat \<Rightarrow> sha512_regs \<times> u64 list \<Rightarrow> sha512_regs \<times> u64 list" where
  "sha512_first data j = (\<lambda>(r, W).
     let W = W[j := BE_8_TO_64 data (8 * j)] in (sha512_round j (W ! j) r, W))"

definition sha512_later :: "nat \<Rightarrow> sha512_regs \<times> u64 list \<Rightarrow> sha512_regs \<times> u64 list" where
  "sha512_later j = (\<lambda>(r, W).
     let s0 = sigma0_512 (W ! ((j + 1) mod 16));
         s1 = sigma1_512 (W ! ((j + 14) mod 16));
         w = W ! (j mod 16) + (s1 + W ! ((j + 9) mod 16) + s0)
     in (sha512_round j w r, W[j mod 16 := w]))"

definition SHA512Transform :: "u64 list \<Rightarrow> u8 list \<Rightarrow> u64 list" where
  "SHA512Transform state data =
     (let s = fold (sha512_first data) [0..<16] (sha512_load state, replicate 16 0);
          s = fold sha512_later [16..<80] s;
          (a, b, c, d, e, f, g, h) = fst s
      in [state ! 0 + a, state ! 1 + b, state ! 2 + c, state ! 3 + d, state ! 4 + e, state ! 5 + f, state ! 6 + g, state ! 7 + h])"

text \<open>
  The variant compiled under \<open>SHA2_UNROLL_TRANSFORM\<close>: the registers stay in place and the
  macro arguments rotate. A macro assigns to \<open>d\<close>, \<open>h\<close> and the schedule, which are returned.
\<close>

definition ROUND512_0_TO_15 ::
  "u8 list \<Rightarrow> u64 \<Rightarrow> u64 \<Rightarrow> u64 \<Rightarrow> u64 \<Rightarrow> u64 \<Rightarrow> u64 \<Rightarrow> u64 \<Rightarrow> u64 \<Rightarrow> u64 list \<Rightarrow> nat \<Rightarrow>
    u64 \<times> u64 \<times> u64 list" where
  "ROUND512_0_TO_15 data a b c d e f g h W j =
     (let W = W[j := BE_8_TO_64 data (8 * j)];
          T1 = h + Sigma1_512 e + Ch e f g + K512 ! j + W ! j
      in (d + T1, T1 + Sigma0_512 a + Maj a b c, W))"

definition ROUND512 ::
  "u64 \<Rightarrow> u64 \<Rightarrow> u64 \<Rightarrow> u64 \<Rightarrow> u64 \<Rightarrow> u64 \<Rightarrow> u64 \<Rightarrow> u64 \<Rightarrow> u64 list \<Rightarrow> nat \<Rightarrow>
    u64 \<times> u64 \<times> u64 list" where
  "ROUND512 a b c d e f g h W j =
     (let s0 = sigma0_512 (W ! ((j + 1) mod 16));
          s1 = sigma1_512 (W ! ((j + 14) mod 16));
          w = W ! (j mod 16) + (s1 + W ! ((j + 9) mod 16) + s0);
          T1 = h + Sigma1_512 e + Ch e f g + K512 ! j + w
      in (d + T1, T1 + Sigma0_512 a + Maj a b c, W[j mod 16 := w]))"

definition sha512_unrolled_first ::
  "u8 list \<Rightarrow> sha512_regs \<times> u64 list \<times> nat \<Rightarrow> sha512_regs \<times> u64 list \<times> nat" where
  "sha512_unrolled_first data s =
     (let (a, b, c, d, e, f, g, h) = fst s;
          (W, j) = snd s;
          (d, h, W) = ROUND512_0_TO_15 data a b c d e f g h W j;
          j = j + 1;
          (c, g, W) = ROUND512_0_TO_15 data h a b c d e f g W j;
          j = j + 1;
          (b, f, W) = ROUND512_0_TO_15 data g h a b c d e f W j;
          j = j + 1;
          (a, e, W) = ROUND512_0_TO_15 data f g h a b c d e W j;
          j = j + 1;
          (h, d, W) = ROUND512_0_TO_15 data e f g h a b c d W j;
          j = j + 1;
          (g, c, W) = ROUND512_0_TO_15 data d e f g h a b c W j;
          j = j + 1;
          (f, b, W) = ROUND512_0_TO_15 data c d e f g h a b W j;
          j = j + 1;
          (e, a, W) = ROUND512_0_TO_15 data b c d e f g h a W j;
          j = j + 1
      in ((a, b, c, d, e, f, g, h), W, j))"

definition sha512_unrolled_later ::
  "sha512_regs \<times> u64 list \<times> nat \<Rightarrow> sha512_regs \<times> u64 list \<times> nat" where
  "sha512_unrolled_later s =
     (let (a, b, c, d, e, f, g, h) = fst s;
          (W, j) = snd s;
          (d, h, W) = ROUND512 a b c d e f g h W j;
          j = j + 1;
          (c, g, W) = ROUND512 h a b c d e f g W j;
          j = j + 1;
          (b, f, W) = ROUND512 g h a b c d e f W j;
          j = j + 1;
          (a, e, W) = ROUND512 f g h a b c d e W j;
          j = j + 1;
          (h, d, W) = ROUND512 e f g h a b c d W j;
          j = j + 1;
          (g, c, W) = ROUND512 d e f g h a b c W j;
          j = j + 1;
          (f, b, W) = ROUND512 c d e f g h a b W j;
          j = j + 1;
          (e, a, W) = ROUND512 b c d e f g h a W j;
          j = j + 1
      in ((a, b, c, d, e, f, g, h), W, j))"

text \<open>One pass over the eight macros is eight rounds of the rolled loop.\<close>

lemma sha512_first_macro:
  "sha512_first data j ((a, b, c, d, e, f, g, h), W) =
    (case ROUND512_0_TO_15 data a b c d e f g h W j of (d', h', W') \<Rightarrow> ((h', a, b, c, d', e, f, g), W'))"
  by (simp add: sha512_first_def sha512_round_def ROUND512_0_TO_15_def Let_def add.assoc)

lemma sha512_later_macro:
  "sha512_later j ((a, b, c, d, e, f, g, h), W) =
    (case ROUND512 a b c d e f g h W j of (d', h', W') \<Rightarrow> ((h', a, b, c, d', e, f, g), W'))"
  by (simp add: sha512_later_def sha512_round_def ROUND512_def Let_def add.assoc)

lemma sha512_unrolled_first_eq:
  "sha512_unrolled_first data (r, W, j) =
    (case fold (sha512_first data) [j..<j + 8] (r, W) of (r, W) \<Rightarrow> (r, W, j + 8))"
  by (cases r) (simp add: sha512_unrolled_first_def upt_eight sha512_first_macro Let_def
    split: prod.split)

lemma sha512_unrolled_later_eq:
  "sha512_unrolled_later (r, W, j) =
    (case fold sha512_later [j..<j + 8] (r, W) of (r, W) \<Rightarrow> (r, W, j + 8))"
  by (cases r) (simp add: sha512_unrolled_later_def upt_eight sha512_later_macro Let_def
    split: prod.split)

function sha512_do_first ::
  "u8 list \<Rightarrow> sha512_regs \<times> u64 list \<times> nat \<Rightarrow> sha512_regs \<times> u64 list \<times> nat" where
  "sha512_do_first data s =
     (let s' = sha512_unrolled_first data s in
      if snd (snd s') < 16 then sha512_do_first data s' else s')"
  by pat_completeness auto
termination
  by (relation "measure (\<lambda>(data, r, W, j). 16 - j)")
    (auto simp: sha512_unrolled_first_eq split: prod.splits)

function sha512_do_later ::
  "sha512_regs \<times> u64 list \<times> nat \<Rightarrow> sha512_regs \<times> u64 list \<times> nat" where
  "sha512_do_later s =
     (let s' = sha512_unrolled_later s in
      if snd (snd s') < 80 then sha512_do_later s' else s')"
  by pat_completeness auto
termination
  by (relation "measure (\<lambda>(r, W, j). 80 - j)")
    (auto simp: sha512_unrolled_later_eq split: prod.splits)

declare sha512_do_first.simps [simp del] sha512_do_later.simps [simp del]

definition SHA512Transform_unrolled :: "u64 list \<Rightarrow> u8 list \<Rightarrow> u64 list" where
  "SHA512Transform_unrolled state data =
     (let s = sha512_do_first data (sha512_load state, replicate 16 0, 0);
          s = sha512_do_later s;
          (a, b, c, d, e, f, g, h) = fst s
      in [state ! 0 + a, state ! 1 + b, state ! 2 + c, state ! 3 + d, state ! 4 + e, state ! 5 + f, state ! 6 + g, state ! 7 + h])"

lemma sha512_do_first_eq:
  "j + 8 * Suc n = 16 \<Longrightarrow> sha512_do_first data (r, W, j) =
    (case fold (sha512_first data) [j..<16] (r, W) of (r, W) \<Rightarrow> (r, W, 16))"
proof (induction n arbitrary: r W j)
  case 0
  then show ?case
    by (subst sha512_do_first.simps) (simp add: sha512_unrolled_first_eq split: prod.split)
next
  case (Suc n)
  have "[j..<16] = [j..<j + 8] @ [j + 8..<16]"
    using Suc.prems upt_add_eq_append [of j "j + 8" "8 * Suc n"] by simp
  moreover obtain r' W' where s: "fold (sha512_first data) [j..<j + 8] (r, W) = (r', W')" by fastforce
  ultimately show ?case
    using Suc.IH [of "j + 8" r' W'] Suc.prems
    by (subst sha512_do_first.simps) (simp add: sha512_unrolled_first_eq)
qed

lemma sha512_do_later_eq:
  "j + 8 * Suc n = 80 \<Longrightarrow> sha512_do_later (r, W, j) =
    (case fold sha512_later [j..<80] (r, W) of (r, W) \<Rightarrow> (r, W, 80))"
proof (induction n arbitrary: r W j)
  case 0
  then have j: "[j..<80] = [j..<j + 8]" "j + 8 = 80" by simp_all
  show ?case
    by (subst sha512_do_later.simps, subst sha512_unrolled_later_eq, unfold j(1))
      (simp only: Let_def j(2) prod.case_eq_if fst_conv snd_conv less_irrefl if_False)
next
  case (Suc n)
  have "[j..<80] = [j..<j + 8] @ [j + 8..<80]"
    using Suc.prems upt_add_eq_append [of j "j + 8" "8 * Suc n"] by simp
  moreover obtain r' W' where s: "fold sha512_later [j..<j + 8] (r, W) = (r', W')" by fastforce
  moreover have "j + 8 < 80" "j + 8 + 8 * Suc n = 80" using Suc.prems by simp_all
  ultimately show ?case
    using Suc.IH [of "j + 8" r' W']
    by (subst sha512_do_later.simps, subst sha512_unrolled_later_eq)
      (simp only: Let_def s fold_append comp_apply prod.case snd_conv if_True)
qed

lemma sha512_unrolled_eq: "SHA512Transform_unrolled state data = SHA512Transform state data"
proof -
  obtain r W where s: "fold (sha512_first data) [0..<16] (sha512_load state, replicate 16 0) = (r, W)"
    by fastforce
  have "sha512_do_first data (sha512_load state, replicate 16 0, 0) = (r, W, 16)"
    using sha512_do_first_eq [of 0 1 data "sha512_load state" "replicate 16 0"] s by simp
  moreover have "fst (sha512_do_later (r, W, 16)) = fst (fold sha512_later [16..<80] (r, W))"
    using sha512_do_later_eq [of 16 "80 div 8 - 3" r W] by (simp split: prod.split)
  ultimately show ?thesis
    by (simp only: SHA512Transform_unrolled_def SHA512Transform_def Let_def s)
qed

section \<open>Properties\<close>

text \<open>
  C37. The two builds of the SHA-2 compression functions agree: with the loops unrolled eight
  rounds at a time (\<open>SHA2_UNROLL_TRANSFORM\<close>, rotating macro arguments, counter-driven do-while
  loops) \<open>SHA256Transform\<close> and \<open>SHA512Transform\<close> compute what the rolled versions compute, on
  every state and block.
\<close>

theorem sha2_unrolled_equiv:
  "SHA256Transform_unrolled state data = SHA256Transform state data \<and>
   SHA512Transform_unrolled state' data' = SHA512Transform state' data'"
  by (simp only: sha256_unrolled_eq sha512_unrolled_eq)

end
