(* ===== verification/Sha2.thy ===== *)
theory Sha2
  imports Sha2_Transform
begin

text \<open>
  The SHA-2 contexts (CLibrary/hash/sha2.c): SHA-224, SHA-256, SHA-384 and SHA-512. The union
  of the chaining states is two fields, of which each function uses one. A byte pointer with
  a length is the list of the bytes it points at; the array parameter of a transform is the
  first block of the buffer. SHA-224 and SHA-384 use the update and padding of SHA-256 and
  SHA-512, of which the source makes them aliases.
\<close>

record sha2_ctx =
  st32 :: "u32 list"
  st64 :: "u64 list"
  bitcount0 :: u64
  bitcount1 :: u64
  buffer :: "u8 list"

definition sha2_zero :: sha2_ctx where
  "sha2_zero = \<lparr>st32 = replicate 8 0, st64 = replicate 8 0, bitcount0 = 0, bitcount1 = 0,
     buffer = replicate 128 0\<rparr>"

definition ADDINC128 :: "sha2_ctx \<Rightarrow> u64 \<Rightarrow> sha2_ctx" where
  "ADDINC128 w n =
     (let w = w\<lparr>bitcount0 := bitcount0 w + n\<rparr>
      in if bitcount0 w < n then w\<lparr>bitcount1 := bitcount1 w + 1\<rparr> else w)"

definition sha224_initial_hash_value :: "u32 list" where
  "sha224_initial_hash_value = [0xc1059ed8, 0x367cd507, 0x3070dd17, 0xf70e5939,
     0xffc00b31, 0x68581511, 0x64f98fa7, 0xbefa4fa4]"

definition sha256_initial_hash_value :: "u32 list" where
  "sha256_initial_hash_value = [0x6a09e667, 0xbb67ae85, 0x3c6ef372, 0xa54ff53a,
     0x510e527f, 0x9b05688c, 0x1f83d9ab, 0x5be0cd19]"

definition sha384_initial_hash_value :: "u64 list" where
  "sha384_initial_hash_value = [0xcbbb9d5dc1059ed8, 0x629a292a367cd507,
     0x9159015a3070dd17, 0x152fecd8f70e5939,
     0x67332667ffc00b31, 0x8eb44a8768581511,
     0xdb0c2e0d64f98fa7, 0x47b5481dbefa4fa4]"

definition sha512_initial_hash_value :: "u64 list" where
  "sha512_initial_hash_value = [0x6a09e667f3bcc908, 0xbb67ae8584caa73b,
     0x3c6ef372fe94f82b, 0xa54ff53a5f1d36f1,
     0x510e527fade682d1, 0x9b05688c2b3e6c1f,
     0x1f83d9abfb41bd6b, 0x5be0cd19137e2179]"


section \<open>SHA-224 and SHA-256\<close>

definition SHA224Init :: "sha2_ctx \<Rightarrow> sha2_ctx" where
  "SHA224Init context = context\<lparr>st32 := sha224_initial_hash_value,
     buffer := replicate 128 0, bitcount0 := 0\<rparr>"

definition SHA256Init :: "sha2_ctx \<Rightarrow> sha2_ctx" where
  "SHA256Init context = context\<lparr>st32 := sha256_initial_hash_value,
     buffer := replicate 128 0, bitcount0 := 0\<rparr>"

text \<open>The loop over the complete blocks counts each of them.\<close>

function sha256_update_loop :: "sha2_ctx \<Rightarrow> u8 list \<Rightarrow> sha2_ctx \<times> u8 list" where
  "sha256_update_loop context data =
     (if length data \<ge> 64
      then
        let context = context\<lparr>st32 := SHA256Transform (st32 context) (take 64 data)\<rparr>;
            context = context\<lparr>bitcount0 := bitcount0 context + ucast (push_bit 3 64 :: u32)\<rparr>
        in sha256_update_loop context (drop 64 data)
      else (context, data))"
  by pat_completeness auto
termination by (relation "measure (\<lambda>(c, data). length data)") auto

declare sha256_update_loop.simps [simp del]

text \<open>Filling the buffered block and processing it; saving what is left over.\<close>

definition sha256_fill :: "sha2_ctx \<Rightarrow> nat \<Rightarrow> u8 list \<Rightarrow> sha2_ctx" where
  "sha256_fill context usedspace data =
     (let freespace = 64 - usedspace;
          context = context\<lparr>buffer := blit (buffer context) usedspace (take freespace data)\<rparr>;
          context = context\<lparr>bitcount0 := bitcount0 context + ucast (push_bit 3 (of_nat freespace) :: u32)\<rparr>
      in context\<lparr>st32 := SHA256Transform (st32 context) (take 64 (buffer context))\<rparr>)"

definition sha256_save :: "sha2_ctx \<Rightarrow> nat \<Rightarrow> u8 list \<Rightarrow> sha2_ctx" where
  "sha256_save context usedspace data =
     (let context = context\<lparr>buffer := blit (buffer context) usedspace data\<rparr>
      in context\<lparr>bitcount0 := bitcount0 context + ucast (push_bit 3 (of_nat (length data)) :: u32)\<rparr>)"

definition SHA256Update :: "sha2_ctx \<Rightarrow> u8 list \<Rightarrow> sha2_ctx" where
  "SHA256Update context data =
     (if data = [] then context
      else
        let usedspace = unat (drop_bit 3 (bitcount0 context) mod 64);
            freespace = 64 - usedspace
        in if usedspace > 0 \<and> length data < freespace
           then sha256_save context usedspace data
           else
             let (context, data) =
                   (if usedspace > 0
                    then (sha256_fill context usedspace data, drop freespace data)
                    else (context, data));
                 (context, data) = sha256_update_loop context data
             in if data \<noteq> [] then sha256_save context 0 data else context)"

definition SHA256Pad :: "sha2_ctx \<Rightarrow> sha2_ctx" where
  "SHA256Pad context =
     (let usedspace = unat (drop_bit 3 (bitcount0 context) mod 64);
          context =
            (if usedspace > 0
             then
               let context = context\<lparr>buffer := blit (buffer context) usedspace [0x80]\<rparr>;
                   usedspace = usedspace + 1
               in if usedspace \<le> 56
                  then context\<lparr>buffer := blit (buffer context) usedspace (replicate (56 - usedspace) 0)\<rparr>
                  else
                    let context = (if usedspace < 64
                          then context\<lparr>buffer := blit (buffer context) usedspace (replicate (64 - usedspace) 0)\<rparr>
                          else context);
                        context = context\<lparr>st32 := SHA256Transform (st32 context) (take 64 (buffer context))\<rparr>
                    in context\<lparr>buffer := blit (buffer context) 0 (replicate 56 0)\<rparr>
             else
               let context = context\<lparr>buffer := blit (buffer context) 0 (replicate 56 0)\<rparr>
               in context\<lparr>buffer := blit (buffer context) 0 [0x80]\<rparr>);
          context = context\<lparr>buffer := blit (buffer context) 56 (BE_64_TO_8 (bitcount0 context))\<rparr>
      in context\<lparr>st32 := SHA256Transform (st32 context) (take 64 (buffer context))\<rparr>)"

definition SHA256Final :: "sha2_ctx \<Rightarrow> u8 list \<times> sha2_ctx" where
  "SHA256Final context =
     (let context = SHA256Pad context
      in (concat (map (\<lambda>i. BE_32_TO_8 (st32 context ! i)) [0..<8]), sha2_zero))"

definition SHA224Final :: "sha2_ctx \<Rightarrow> u8 list \<times> sha2_ctx" where
  "SHA224Final context =
     (let context = SHA256Pad context
      in (concat (map (\<lambda>i. BE_32_TO_8 (st32 context ! i)) [0..<7]), sha2_zero))"

section \<open>SHA-384 and SHA-512\<close>

definition SHA384Init :: "sha2_ctx \<Rightarrow> sha2_ctx" where
  "SHA384Init context = context\<lparr>st64 := sha384_initial_hash_value,
     buffer := replicate 128 0, bitcount0 := 0, bitcount1 := 0\<rparr>"

definition SHA512Init :: "sha2_ctx \<Rightarrow> sha2_ctx" where
  "SHA512Init context = context\<lparr>st64 := sha512_initial_hash_value,
     buffer := replicate 128 0, bitcount0 := 0, bitcount1 := 0\<rparr>"

text \<open>The loop over the complete blocks counts each of them.\<close>

function sha512_update_loop :: "sha2_ctx \<Rightarrow> u8 list \<Rightarrow> sha2_ctx \<times> u8 list" where
  "sha512_update_loop context data =
     (if length data \<ge> 128
      then
        let context = context\<lparr>st64 := SHA512Transform (st64 context) (take 128 data)\<rparr>;
            context = ADDINC128 context (ucast (push_bit 3 128 :: u32))
        in sha512_update_loop context (drop 128 data)
      else (context, data))"
  by pat_completeness auto
termination by (relation "measure (\<lambda>(c, data). length data)") auto

declare sha512_update_loop.simps [simp del]

text \<open>Filling the buffered block and processing it; saving what is left over.\<close>

definition sha512_fill :: "sha2_ctx \<Rightarrow> nat \<Rightarrow> u8 list \<Rightarrow> sha2_ctx" where
  "sha512_fill context usedspace data =
     (let freespace = 128 - usedspace;
          context = context\<lparr>buffer := blit (buffer context) usedspace (take freespace data)\<rparr>;
          context = ADDINC128 context (ucast (push_bit 3 (of_nat freespace) :: u32))
      in context\<lparr>st64 := SHA512Transform (st64 context) (take 128 (buffer context))\<rparr>)"

definition sha512_save :: "sha2_ctx \<Rightarrow> nat \<Rightarrow> u8 list \<Rightarrow> sha2_ctx" where
  "sha512_save context usedspace data =
     (let context = context\<lparr>buffer := blit (buffer context) usedspace data\<rparr>
      in ADDINC128 context (ucast (push_bit 3 (of_nat (length data)) :: u32)))"

definition SHA512Update :: "sha2_ctx \<Rightarrow> u8 list \<Rightarrow> sha2_ctx" where
  "SHA512Update context data =
     (if data = [] then context
      else
        let usedspace = unat (drop_bit 3 (bitcount0 context) mod 128);
            freespace = 128 - usedspace
        in if usedspace > 0 \<and> length data < freespace
           then sha512_save context usedspace data
           else
             let (context, data) =
                   (if usedspace > 0
                    then (sha512_fill context usedspace data, drop freespace data)
                    else (context, data));
                 (context, data) = sha512_update_loop context data
             in if data \<noteq> [] then sha512_save context 0 data else context)"

definition SHA512Pad :: "sha2_ctx \<Rightarrow> sha2_ctx" where
  "SHA512Pad context =
     (let usedspace = unat (drop_bit 3 (bitcount0 context) mod 128);
          context =
            (if usedspace > 0
             then
               let context = context\<lparr>buffer := blit (buffer context) usedspace [0x80]\<rparr>;
                   usedspace = usedspace + 1
               in if usedspace \<le> 112
                  then context\<lparr>buffer := blit (buffer context) usedspace (replicate (112 - usedspace) 0)\<rparr>
                  else
                    let context = (if usedspace < 128
                          then context\<lparr>buffer := blit (buffer context) usedspace (replicate (128 - usedspace) 0)\<rparr>
                          else context);
                        context = context\<lparr>st64 := SHA512Transform (st64 context) (take 128 (buffer context))\<rparr>
                    in context\<lparr>buffer := blit (buffer context) 0 (replicate (128 - 2) 0)\<rparr>
             else
               let context = context\<lparr>buffer := blit (buffer context) 0 (replicate 112 0)\<rparr>
               in context\<lparr>buffer := blit (buffer context) 0 [0x80]\<rparr>);
          context = context\<lparr>buffer := blit (buffer context) 112 (BE_64_TO_8 (bitcount1 context))\<rparr>;
          context = context\<lparr>buffer := blit (buffer context) (112 + 8) (BE_64_TO_8 (bitcount0 context))\<rparr>
      in context\<lparr>st64 := SHA512Transform (st64 context) (take 128 (buffer context))\<rparr>)"

definition SHA512Final :: "sha2_ctx \<Rightarrow> u8 list \<times> sha2_ctx" where
  "SHA512Final context =
     (let context = SHA512Pad context
      in (concat (map (\<lambda>i. BE_64_TO_8 (st64 context ! i)) [0..<8]), sha2_zero))"

definition SHA384Final :: "sha2_ctx \<Rightarrow> u8 list \<times> sha2_ctx" where
  "SHA384Final context =
     (let context = SHA512Pad context
      in (concat (map (\<lambda>i. BE_64_TO_8 (st64 context ! i)) [0..<6]), sha2_zero))"

section \<open>Bit counts\<close>

definition sha256_bits :: "sha2_ctx \<Rightarrow> nat" where
  "sha256_bits c = unat (bitcount0 c)"

definition sha512_bits :: "sha2_ctx \<Rightarrow> nat" where
  "sha512_bits c = unat (bitcount0 c) + 2 ^ 64 * unat (bitcount1 c)"

text \<open>\<open>ADDINC128\<close> is addition modulo \<open>2 ^ 128\<close>: the carry is detected by the wrapped sum.\<close>

lemma unat_add_carry:
  "unat (a + b :: u64) + (if a + b < b then 2 ^ 64 else 0) = unat a + unat b"
proof -
  have lt: "unat a < 2 ^ 64" "unat b < 2 ^ 64" using unat_count_less [of a] unat_count_less [of b] by simp_all
  have s: "unat (a + b) = (if unat a + unat b < 2 ^ 64 then unat a + unat b else unat a + unat b - 2 ^ 64)"
    using lt by (simp add: unat_word_ariths mod_if)
  show ?thesis
  proof (cases "unat a + unat b < 2 ^ 64")
    case True
    then have "unat (a + b) = unat a + unat b" using s by (simp only: if_True)
    then show ?thesis by (simp add: word_less_nat_alt)
  next
    case False
    then have "unat (a + b) = unat a + unat b - 2 ^ 64" using s by (simp only: if_False)
    then show ?thesis using False lt by (simp add: word_less_nat_alt)
  qed
qed

lemma two_limbs_mod: "a < m \<Longrightarrow> a + m * (k mod m) = (a + m * k) mod (m * m :: nat)"
  by (simp add: mod_mult2_eq)

lemma sha512_bits_ADDINC128:
  "sha512_bits (ADDINC128 c n) = (sha512_bits c + unat n) mod 2 ^ 128"
proof -
  let ?k = "if bitcount0 c + n < n then 1 else 0 :: nat"
  have w1: "unat (bitcount1 (ADDINC128 c n)) = (unat (bitcount1 c) + ?k) mod 2 ^ 64"
    using unat_count_less [of "bitcount1 c"] by (simp add: ADDINC128_def Let_def unat_word_ariths)
  have w0: "unat (bitcount0 (ADDINC128 c n)) + 2 ^ 64 * ?k = unat (bitcount0 c) + unat n"
    using unat_add_carry [of "bitcount0 c" n] by (simp add: ADDINC128_def Let_def split: if_splits)
  have "sha512_bits (ADDINC128 c n) =
      unat (bitcount0 (ADDINC128 c n)) + 2 ^ 64 * ((unat (bitcount1 c) + ?k) mod 2 ^ 64)"
    by (simp only: sha512_bits_def w1)
  also have "\<dots> = (unat (bitcount0 (ADDINC128 c n)) + 2 ^ 64 * (unat (bitcount1 c) + ?k)) mod (2 ^ 64 * 2 ^ 64)"
    using unat_count_less [of "bitcount0 (ADDINC128 c n)"] by (intro two_limbs_mod) simp
  also have "unat (bitcount0 (ADDINC128 c n)) + 2 ^ 64 * (unat (bitcount1 c) + ?k)
      = sha512_bits c + unat n"
    using w0 by (simp add: sha512_bits_def algebra_simps)
  finally show ?thesis by (simp add: power_add [symmetric])
qed

lemma sha2_bits_fields [simp]:
  "sha256_bits (c\<lparr>st32 := s\<rparr>) = sha256_bits c" "sha256_bits (c\<lparr>buffer := b\<rparr>) = sha256_bits c"
  "sha512_bits (c\<lparr>st64 := t\<rparr>) = sha512_bits c" "sha512_bits (c\<lparr>buffer := b\<rparr>) = sha512_bits c"
  by (simp_all add: sha256_bits_def sha512_bits_def)

lemma sha256_bits_add:
  "sha256_bits (c\<lparr>bitcount0 := w\<rparr>) = unat w"
  "unat (bitcount0 c + n) = (sha256_bits c + unat n) mod 2 ^ 64"
  by (simp_all add: sha256_bits_def unat_word_ariths)

lemma sha256_bits_less: "sha256_bits c < 2 ^ 64"
  using unat_count_less [of "bitcount0 c"] by (simp add: sha256_bits_def)

lemma ADDINC128_fields [simp]:
  "st64 (ADDINC128 c n) = st64 c" "buffer (ADDINC128 c n) = buffer c"
  by (simp_all add: ADDINC128_def Let_def)

lemma sha512_used_bits: "unat (bitcount0 c) div 8 mod 128 = sha512_bits c div 8 mod 128"
proof -
  have "sha512_bits c div 8 = (8 * (2 ^ 61 * unat (bitcount1 c)) + unat (bitcount0 c)) div 8"
    by (simp add: sha512_bits_def)
  also have "\<dots> = 2 ^ 61 * unat (bitcount1 c) + unat (bitcount0 c) div 8"
    by (subst div_mult_self4) simp_all
  also have "2 ^ 61 * unat (bitcount1 c) = 128 * (2 ^ 54 * unat (bitcount1 c))" by simp
  finally show ?thesis by (simp only: mod_mult_self4)
qed

lemma sha512_bits_less: "sha512_bits c < 2 ^ 128"
proof -
  have "unat (bitcount0 c) < 2 ^ 64" "unat (bitcount1 c) < 2 ^ 64"
    using unat_count_less [of "bitcount0 c"] unat_count_less [of "bitcount1 c"] by simp_all
  then show ?thesis by (simp add: sha512_bits_def)
qed

lemma unat_size_bits:
  "n < 2 ^ 29 \<Longrightarrow> unat (ucast (push_bit 3 (of_nat n :: u32)) :: u64) = 8 * n"
  by (simp only: ucast_bit_length) (simp add: push_bit_eq_mult unat_word_ariths unat_of_nat)

lemma used_bits_add:
  assumes "8 * B dvd M"
  shows "((c + 8 * n) mod M) div 8 mod B = (c div 8 mod B + n) mod (B :: nat)"
proof -
  obtain k where M: "M = 8 * (B * k)" using assms by (metis dvd_def mult.assoc)
  have "(c + 8 * n) mod M = 8 * ((c + 8 * n) div 8 mod (B * k)) + (c + 8 * n) mod 8"
    unfolding M by (rule mod_mult2_eq)
  then have "((c + 8 * n) mod M) div 8 = (c + 8 * n) div 8 mod (B * k)" by simp
  then show ?thesis by (simp add: mod_mod_cancel mod_simps add.commute)
qed

lemma sha256_count_words: "sha256_bits c = n mod 2 ^ 64 \<Longrightarrow> bitcount0 c = of_nat n"
  by (intro count_eq_of_nat) (simp add: sha256_bits_def)

lemma sha512_count_words:
  assumes "sha512_bits c = n mod 2 ^ 128"
  shows "bitcount0 c = of_nat n" "bitcount1 c = of_nat (n div 2 ^ 64)"
proof -
  have "n mod (2 ^ 64 * 2 ^ 64) = 2 ^ 64 * (n div 2 ^ 64 mod 2 ^ 64) + n mod 2 ^ 64"
    by (rule mod_mult2_eq)
  then have eq: "unat (bitcount0 c) + 2 ^ 64 * unat (bitcount1 c) = n mod 2 ^ 64 + 2 ^ 64 * (n div 2 ^ 64 mod 2 ^ 64)"
    using assms by (simp add: sha512_bits_def)
  have "unat (bitcount0 c) < 2 ^ 64" using unat_count_less [of "bitcount0 c"] by simp
  then have "unat (bitcount0 c) = n mod 2 ^ 64 \<and> unat (bitcount1 c) = n div 2 ^ 64 mod 2 ^ 64"
    using arg_cong [OF eq, of "\<lambda>x. x mod 2 ^ 64"] arg_cong [OF eq, of "\<lambda>x. x div 2 ^ 64"] by simp
  then show "bitcount0 c = of_nat n" "bitcount1 c = of_nat (n div 2 ^ 64)"
    by (simp_all add: count_eq_of_nat)
qed

lemma map_map_nth: "n \<le> length xs \<Longrightarrow> map (\<lambda>i. f (xs ! i)) [0..<n] = map f (take n xs)"
  by (rule nth_equalityI) simp_all

section \<open>SHA-256 as an incremental hash\<close>

definition sha256_used :: "sha2_ctx \<Rightarrow> nat" where
  "sha256_used ctx = unat (bitcount0 ctx) div 8 mod 64"

lemma sha256_used_code: "unat (drop_bit 3 (bitcount0 ctx) mod 64) = sha256_used ctx"
  by (simp add: sha256_used_def drop_bit_eq_div unat_div unat_mod)

lemma sha256_used_of_bits: "sha256_used ctx = sha256_bits ctx div 8 mod 64"
  by (simp add: sha256_used_def sha256_bits_def)

lemma sha256_used_less: "sha256_used ctx < 64"
  by (simp add: sha256_used_def)

lemma sha256_loop:
  "st32 (fst (sha256_update_loop c data)) = absorb 64 SHA256Transform (st32 c) data \<and>
   snd (sha256_update_loop c data) = leftover 64 data \<and>
   buffer (fst (sha256_update_loop c data)) = buffer c \<and>
   sha256_bits (fst (sha256_update_loop c data)) =
     (sha256_bits c + 8 * (length data - length (leftover 64 data))) mod 2 ^ 64"
proof (induction c data rule: sha256_update_loop.induct)
  case (1 c data)
  show ?case
  proof (cases "64 \<le> length data")
    case True
    then have len: "8 * 64 + 8 * (length data - 64 - length (leftover 64 data)) =
        8 * (length data - length (leftover 64 data))"
      using leftover_unfold [of 64 data] length_leftover [of 64 "drop 64 data"]
        mod_less_eq_dividend [of "length data - 64" 64] by simp
    have "absorb 64 SHA256Transform (st32 c) data =
        absorb 64 SHA256Transform (SHA256Transform (st32 c) (take 64 data)) (drop 64 data)"
      using True by (subst absorb.simps) simp
    with 1 [OF True refl refl] True len leftover_unfold [of 64 data] show ?thesis
      by (subst (1 2 3 4) sha256_update_loop.simps)
        (simp add: Let_def sha256_bits_add mod_simps add.assoc del: diff_diff_left)
  next
    case False
    then show ?thesis
      by (subst (1 2 3 4) sha256_update_loop.simps)
        (simp add: absorb_short leftover_short sha256_bits_less [simplified])
  qed
qed

lemma sha256_save_fields:
  "st32 (sha256_save c u xs) = st32 c" "buffer (sha256_save c u xs) = blit (buffer c) u xs"
  "length xs < 64 \<Longrightarrow> sha256_bits (sha256_save c u xs) = (sha256_bits c + 8 * length xs) mod 2 ^ 64"
  by (simp_all add: sha256_save_def Let_def sha256_bits_add unat_size_bits)

lemma sha256_fill_fields:
  assumes "length (buffer c) = 128" "u < 64" "64 - u \<le> length xs"
  shows "st32 (sha256_fill c u xs) = SHA256Transform (st32 c) (take u (buffer c) @ take (64 - u) xs)"
    "length (buffer (sha256_fill c u xs)) = 128"
proof -
  have "take 64 (blit (buffer c) u (take (64 - u) xs)) = take u (buffer c) @ take (64 - u) xs"
    using assms by (intro take_blit_at) simp_all
  then show "st32 (sha256_fill c u xs) = SHA256Transform (st32 c) (take u (buffer c) @ take (64 - u) xs)"
    by (simp add: sha256_fill_def Let_def)
  show "length (buffer (sha256_fill c u xs)) = 128"
    using assms by (simp add: sha256_fill_def Let_def)
qed

lemma sha256_fill_bits:
  "sha256_bits (sha256_fill c u xs) = (sha256_bits c + 8 * (64 - u)) mod 2 ^ 64"
proof -
  have "unat (ucast (push_bit 3 (of_nat (64 - u) :: u32)) :: u64) = 8 * (64 - u)"
    by (rule unat_size_bits) simp
  then show ?thesis
    by (simp only: sha256_fill_def Let_def sha2_bits_fields sha256_bits_add)
qed

text \<open>The blocks and the rest, from a context whose buffer holds no pending byte.\<close>

definition sha256_bulk :: "sha2_ctx \<Rightarrow> u8 list \<Rightarrow> sha2_ctx" where
  "sha256_bulk c xs = (let (c, rest) = sha256_update_loop c xs in
     if rest \<noteq> [] then sha256_save c 0 rest else c)"

lemma sha256_bulk_fields:
  "st32 (sha256_bulk c xs) = absorb 64 SHA256Transform (st32 c) xs"
  "buffer (sha256_bulk c xs) = blit (buffer c) 0 (leftover 64 xs)"
  "sha256_bits (sha256_bulk c xs) = (sha256_bits c + 8 * length xs) mod 2 ^ 64"
proof -
  show "st32 (sha256_bulk c xs) = absorb 64 SHA256Transform (st32 c) xs"
    "buffer (sha256_bulk c xs) = blit (buffer c) 0 (leftover 64 xs)"
    by (simp_all add: sha256_bulk_def case_prod_beta Let_def sha256_loop sha256_save_fields blit_def)
  let ?rest = "leftover 64 xs"
  have "length ?rest \<le> length xs" "length ?rest < 64" by (simp_all add: length_leftover)
  then show "sha256_bits (sha256_bulk c xs) = (sha256_bits c + 8 * length xs) mod 2 ^ 64"
    by (cases "?rest = []")
      (simp_all add: sha256_bulk_def case_prod_beta Let_def sha256_loop sha256_save_fields mod_simps
        add.assoc distrib_left [symmetric])
qed

lemma SHA256Update_cases:
  "SHA256Update c xs =
    (if xs = [] then c
     else if sha256_used c = 0 then sha256_bulk c xs
     else if length xs < 64 - sha256_used c then sha256_save c (sha256_used c) xs
     else sha256_bulk (sha256_fill c (sha256_used c) xs) (drop (64 - sha256_used c) xs))"
  by (simp add: SHA256Update_def sha256_used_code sha256_bulk_def Let_def case_prod_beta)

lemma SHA256Update_bits:
  "sha256_bits (SHA256Update c xs) = (sha256_bits c + 8 * length xs) mod 2 ^ 64"
proof -
  have "8 * (64 - sha256_used c) + 8 * length (drop (64 - sha256_used c) xs) = 8 * length xs"
    if "\<not> length xs < 64 - sha256_used c" using that by simp
  then show ?thesis
    by (simp add: SHA256Update_cases sha256_bulk_fields sha256_save_fields sha256_fill_bits
      sha256_bits_less [simplified] mod_simps add.assoc del: length_drop)
qed

lemma sha256_used_update: "sha256_used (SHA256Update c xs) = (sha256_used c + length xs) mod 64"
  using used_bits_add [of 64 "2 ^ 64" "sha256_bits c" "length xs"]
  by (simp add: sha256_used_of_bits SHA256Update_bits)

lemma SHA256Update_short:
  assumes "length xs < 64 - sha256_used c"
  shows "st32 (SHA256Update c xs) = st32 c \<and> buffer (SHA256Update c xs) = blit (buffer c) (sha256_used c) xs"
  using assms
  by (auto simp: SHA256Update_cases sha256_bulk_fields sha256_save_fields absorb_short leftover_short blit_def)

lemma SHA256Update_long:
  assumes "length (buffer c) = 128" "64 - sha256_used c \<le> length xs"
  shows "st32 (SHA256Update c xs) = absorb 64 SHA256Transform
      (SHA256Transform (st32 c) (take (sha256_used c) (buffer c) @ take (64 - sha256_used c) xs))
      (drop (64 - sha256_used c) xs) \<and>
    (\<exists>b. length b = 128 \<and>
      buffer (SHA256Update c xs) = blit b 0 (leftover 64 (drop (64 - sha256_used c) xs)))"
proof (cases "sha256_used c = 0")
  case True
  then have "xs \<noteq> []" using assms(2) by auto
  then show ?thesis
    using assms True leftover_unfold [of 64 xs]
    by (auto simp: SHA256Update_cases sha256_bulk_fields absorb.simps [of 64 _ _ xs])
next
  case False
  then have "xs \<noteq> []" using assms(2) sha256_used_less [of c] by auto
  then show ?thesis
    using False assms sha256_fill_fields [OF assms(1) sha256_used_less assms(2)]
    by (auto simp: SHA256Update_cases sha256_bulk_fields)
qed

interpretation sha256: buffered_hash 64 SHA256Transform SHA256Update st32 buffer sha256_used 128
  sha256_bits "2 ^ 64" "\<lambda>xs. length xs < 2 ^ 32"
  using SHA256Update_short SHA256Update_long
  by unfold_locales (simp_all add: sha256_used_less sha256_used_update SHA256Update_bits sha256_bits_less [simplified])

text \<open>The in-place padding makes the last one or two blocks of the padded message.\<close>

definition sha256_lenbytes :: "sha2_ctx \<Rightarrow> u8 list" where
  "sha256_lenbytes c = BE_64_TO_8 (bitcount0 c)"

lemma SHA256Pad_one:
  assumes "length (buffer c) = 128" "sha256_used c + 1 \<le> 56"
  shows "st32 (SHA256Pad c) = SHA256Transform (st32 c)
    (take (sha256_used c) (buffer c) @ 0x80 # replicate (56 - 1 - sha256_used c) 0 @ sha256_lenbytes c)"
proof (cases "sha256_used c = 0")
  case True
  have "blit (blit (buffer c) 0 (replicate 56 0)) 0 [0x80] = blit (buffer c) 0 (0x80 # replicate (56 - 1) 0)"
    by (simp add: blit_def numeral_eq_Suc)
  then show ?thesis
    using assms True
    by (simp add: SHA256Pad_def Let_def sha256_used_code sha256_lenbytes_def blit_blit take_blit_at blit_whole)
next
  case False
  then show ?thesis
    using assms
    by (simp add: SHA256Pad_def Let_def sha256_used_code sha256_lenbytes_def blit_blit take_blit_at blit_whole)
qed

lemma SHA256Pad_two:
  assumes "length (buffer c) = 128" "56 < sha256_used c + 1"
  shows "st32 (SHA256Pad c) = SHA256Transform (SHA256Transform (st32 c)
    (take (sha256_used c) (buffer c) @ 0x80 # replicate (64 - 1 - sha256_used c) 0))
    (replicate 56 0 @ sha256_lenbytes c)"
proof -
  have "take 64 (blit (blit b 0 (replicate 56 0)) 56 (sha256_lenbytes c))
      = replicate 56 0 @ sha256_lenbytes c" if "length b = 128" for b
    using that by (subst take_blit_at) (simp_all add: sha256_lenbytes_def, simp add: blit_def)
  then show ?thesis
    using assms sha256_used_less [of c]
    by (simp add: SHA256Pad_def Let_def sha256_used_code sha256_lenbytes_def blit_blit take_blit_at blit_whole)
qed

text \<open>The reference digests.\<close>

definition sha256_pad :: "u8 list \<Rightarrow> u8 list" where
  "sha256_pad msg = md_pad 64 (BE_64_TO_8 (of_nat (8 * length msg))) msg"

definition sha256_digest :: "u8 list \<Rightarrow> u8 list" where
  "sha256_digest msg =
     concat (map BE_32_TO_8 (take 8 (absorb 64 SHA256Transform sha256_initial_hash_value (sha256_pad msg))))"

definition sha224_digest :: "u8 list \<Rightarrow> u8 list" where
  "sha224_digest msg =
     concat (map BE_32_TO_8 (take 7 (absorb 64 SHA256Transform sha224_initial_hash_value (sha256_pad msg))))"

lemma SHA256Pad_stream:
  assumes "length (buffer c) = 128" "st32 c = absorb 64 SHA256Transform st0 msg"
    and "take (sha256_used c) (buffer c) = leftover 64 msg"
    and "sha256_bits c = (8 * length msg) mod 2 ^ 64"
  shows "st32 (SHA256Pad c) = absorb 64 SHA256Transform st0 (sha256_pad msg)"
proof -
  have used: "sha256_used c = length msg mod 64"
    using assms(4) used_bits_add [of 64 "2 ^ 64" 0 "length msg"] by (simp add: sha256_used_of_bits)
  have lenb: "sha256_lenbytes c = BE_64_TO_8 (of_nat (8 * length msg))"
    using assms(4) by (simp add: sha256_lenbytes_def sha256_count_words)
  show ?thesis
  proof (cases "sha256_used c + 1 \<le> 56")
    case True
    then show ?thesis
      using SHA256Pad_one [OF assms(1) True] assms(2,3)
      by (simp add: sha256_pad_def absorb_pad_one used lenb)
  next
    case False
    then show ?thesis
      using SHA256Pad_two [OF assms(1)] assms(2,3)
      by (simp add: sha256_pad_def absorb_pad_two used lenb)
  qed
qed

lemma SHA256Transform_length [simp]: "length (SHA256Transform s d) = 8"
  by (simp add: SHA256Transform_def Let_def case_prod_beta)

lemma absorb_SHA256_length:
  "length s = 8 \<Longrightarrow> length (absorb 64 SHA256Transform s msg) = 8"
proof (induction "64 :: nat" SHA256Transform s msg rule: absorb.induct)
  case (1 s msg)
  then show ?case by (subst absorb.simps) simp
qed

lemma sha256_start:
  assumes "\<forall>xs \<in> set xss. length xs < 2 ^ 32" "length (buffer c) = 128"
    and "sha256_used c = 0" "sha256_bits c = 0" "length (st32 c) = 8"
  defines "p \<equiv> SHA256Pad (foldl SHA256Update c xss)"
  shows "st32 p = absorb 64 SHA256Transform (st32 c) (sha256_pad (concat xss))" "length (st32 p) = 8"
proof -
  show "st32 p = absorb 64 SHA256Transform (st32 c) (sha256_pad (concat xss))"
    unfolding p_def using sha256.update_chunks [OF assms(2,1)] assms(3,4)
    by (intro SHA256Pad_stream) simp_all
  then show "length (st32 p) = 8" using assms(5) by (simp add: absorb_SHA256_length)
qed

text \<open>
  SHA-256 and SHA-224 are independent of how the message is cut: for every list of pieces,
  of any size a \<open>size_t\<close> can describe, initialising a context, feeding the pieces through
  \<open>SHA256Update\<close> and finishing (with the padding written into the buffer in place) yields the
  digest of the whole message: the compression function folded over the padded message,
  whose length field counts modulo \<open>2 ^ 64\<close>, written out big-endian and cut to the digest size.
\<close>

theorem sha256_streaming:
  assumes "\<forall>xs \<in> set xss. length xs < 2 ^ 32"
  shows "fst (SHA256Final (foldl SHA256Update (SHA256Init ctx) xss)) = sha256_digest (concat xss) \<and>
    fst (SHA224Final (foldl SHA256Update (SHA224Init ctx) xss)) = sha224_digest (concat xss)"
proof -
  have i: "length (buffer (SHA256Init ctx)) = 128" "sha256_used (SHA256Init ctx) = 0"
    "sha256_bits (SHA256Init ctx) = 0" "length (st32 (SHA256Init ctx)) = 8"
    "length (buffer (SHA224Init ctx)) = 128" "sha256_used (SHA224Init ctx) = 0"
    "sha256_bits (SHA224Init ctx) = 0" "length (st32 (SHA224Init ctx)) = 8"
    by (simp_all add: SHA256Init_def SHA224Init_def sha256_used_def sha256_bits_def
      sha256_initial_hash_value_def sha224_initial_hash_value_def)
  note s = sha256_start [OF assms i(1-4)] sha256_start [OF assms i(5-8)]
  have "st32 (SHA256Init ctx) = sha256_initial_hash_value" "st32 (SHA224Init ctx) = sha224_initial_hash_value"
    by (simp_all add: SHA256Init_def SHA224Init_def)
  then show ?thesis
    using s by (simp add: SHA256Final_def SHA224Final_def Let_def sha256_digest_def sha224_digest_def
      map_map_nth)
qed

theorem sha256_streaming_witness:
  "fst (SHA256Final (foldl SHA256Update (SHA256Init sha2_zero) [[0x61], [], replicate 300 0x62]))
      = sha256_digest (0x61 # replicate 300 0x62) \<and>
    fst (SHA224Final (foldl SHA256Update (SHA224Init sha2_zero) [[0x61], [], replicate 300 0x62]))
      = sha224_digest (0x61 # replicate 300 0x62)"
  using sha256_streaming [of "[[0x61], [], replicate 300 0x62]" sha2_zero] by simp


section \<open>SHA-512 as an incremental hash\<close>

definition sha512_used :: "sha2_ctx \<Rightarrow> nat" where
  "sha512_used ctx = unat (bitcount0 ctx) div 8 mod 128"

lemma sha512_used_code: "unat (drop_bit 3 (bitcount0 ctx) mod 128) = sha512_used ctx"
  by (simp add: sha512_used_def drop_bit_eq_div unat_div unat_mod)

lemma sha512_used_of_bits: "sha512_used ctx = sha512_bits ctx div 8 mod 128"
  by (simp add: sha512_used_def sha512_used_bits)

lemma sha512_used_less: "sha512_used ctx < 128"
  by (simp add: sha512_used_def)

lemma sha512_loop:
  "st64 (fst (sha512_update_loop c data)) = absorb 128 SHA512Transform (st64 c) data \<and>
   snd (sha512_update_loop c data) = leftover 128 data \<and>
   buffer (fst (sha512_update_loop c data)) = buffer c \<and>
   sha512_bits (fst (sha512_update_loop c data)) =
     (sha512_bits c + 8 * (length data - length (leftover 128 data))) mod 2 ^ 128"
proof (induction c data rule: sha512_update_loop.induct)
  case (1 c data)
  show ?case
  proof (cases "128 \<le> length data")
    case True
    then have len: "8 * 128 + 8 * (length data - 128 - length (leftover 128 data)) =
        8 * (length data - length (leftover 128 data))"
      using leftover_unfold [of 128 data] length_leftover [of 128 "drop 128 data"]
        mod_less_eq_dividend [of "length data - 128" 128] by simp
    have "absorb 128 SHA512Transform (st64 c) data =
        absorb 128 SHA512Transform (SHA512Transform (st64 c) (take 128 data)) (drop 128 data)"
      using True by (subst absorb.simps) simp
    with 1 [OF True refl refl] True len leftover_unfold [of 128 data] show ?thesis
      by (subst (1 2 3 4) sha512_update_loop.simps)
        (simp add: Let_def sha512_bits_ADDINC128 mod_simps add.assoc del: diff_diff_left)
  next
    case False
    then show ?thesis
      by (subst (1 2 3 4) sha512_update_loop.simps)
        (simp add: absorb_short leftover_short sha512_bits_less [simplified])
  qed
qed

lemma sha512_save_fields:
  "st64 (sha512_save c u xs) = st64 c" "buffer (sha512_save c u xs) = blit (buffer c) u xs"
  "length xs < 128 \<Longrightarrow> sha512_bits (sha512_save c u xs) = (sha512_bits c + 8 * length xs) mod 2 ^ 128"
  by (simp_all add: sha512_save_def Let_def sha512_bits_ADDINC128 unat_size_bits)

lemma sha512_fill_fields:
  assumes "length (buffer c) = 128" "u < 128" "128 - u \<le> length xs"
  shows "st64 (sha512_fill c u xs) = SHA512Transform (st64 c) (take u (buffer c) @ take (128 - u) xs)"
    "length (buffer (sha512_fill c u xs)) = 128"
proof -
  have "take 128 (blit (buffer c) u (take (128 - u) xs)) = take u (buffer c) @ take (128 - u) xs"
    using assms by (intro take_blit_at) simp_all
  then show "st64 (sha512_fill c u xs) = SHA512Transform (st64 c) (take u (buffer c) @ take (128 - u) xs)"
    by (simp add: sha512_fill_def Let_def)
  show "length (buffer (sha512_fill c u xs)) = 128"
    using assms by (simp add: sha512_fill_def Let_def)
qed

lemma sha512_fill_bits:
  "sha512_bits (sha512_fill c u xs) = (sha512_bits c + 8 * (128 - u)) mod 2 ^ 128"
proof -
  have "unat (ucast (push_bit 3 (of_nat (128 - u) :: u32)) :: u64) = 8 * (128 - u)"
    by (rule unat_size_bits) simp
  then show ?thesis
    by (simp only: sha512_fill_def Let_def sha2_bits_fields sha512_bits_ADDINC128)
qed

text \<open>The blocks and the rest, from a context whose buffer holds no pending byte.\<close>

definition sha512_bulk :: "sha2_ctx \<Rightarrow> u8 list \<Rightarrow> sha2_ctx" where
  "sha512_bulk c xs = (let (c, rest) = sha512_update_loop c xs in
     if rest \<noteq> [] then sha512_save c 0 rest else c)"

lemma sha512_bulk_fields:
  "st64 (sha512_bulk c xs) = absorb 128 SHA512Transform (st64 c) xs"
  "buffer (sha512_bulk c xs) = blit (buffer c) 0 (leftover 128 xs)"
  "sha512_bits (sha512_bulk c xs) = (sha512_bits c + 8 * length xs) mod 2 ^ 128"
proof -
  show "st64 (sha512_bulk c xs) = absorb 128 SHA512Transform (st64 c) xs"
    "buffer (sha512_bulk c xs) = blit (buffer c) 0 (leftover 128 xs)"
    by (simp_all add: sha512_bulk_def case_prod_beta Let_def sha512_loop sha512_save_fields blit_def)
  let ?rest = "leftover 128 xs"
  have "length ?rest \<le> length xs" "length ?rest < 128" by (simp_all add: length_leftover)
  then show "sha512_bits (sha512_bulk c xs) = (sha512_bits c + 8 * length xs) mod 2 ^ 128"
    by (cases "?rest = []")
      (simp_all add: sha512_bulk_def case_prod_beta Let_def sha512_loop sha512_save_fields mod_simps
        add.assoc distrib_left [symmetric])
qed

lemma SHA512Update_cases:
  "SHA512Update c xs =
    (if xs = [] then c
     else if sha512_used c = 0 then sha512_bulk c xs
     else if length xs < 128 - sha512_used c then sha512_save c (sha512_used c) xs
     else sha512_bulk (sha512_fill c (sha512_used c) xs) (drop (128 - sha512_used c) xs))"
  by (simp add: SHA512Update_def sha512_used_code sha512_bulk_def Let_def case_prod_beta)

lemma SHA512Update_bits:
  "sha512_bits (SHA512Update c xs) = (sha512_bits c + 8 * length xs) mod 2 ^ 128"
proof -
  have "8 * (128 - sha512_used c) + 8 * length (drop (128 - sha512_used c) xs) = 8 * length xs"
    if "\<not> length xs < 128 - sha512_used c" using that by simp
  then show ?thesis
    by (simp add: SHA512Update_cases sha512_bulk_fields sha512_save_fields sha512_fill_bits
      sha512_bits_less [simplified] mod_simps add.assoc del: length_drop)
qed

lemma sha512_used_update: "sha512_used (SHA512Update c xs) = (sha512_used c + length xs) mod 128"
  using used_bits_add [of 128 "2 ^ 128" "sha512_bits c" "length xs"]
  by (simp add: sha512_used_of_bits SHA512Update_bits)

lemma SHA512Update_short:
  assumes "length xs < 128 - sha512_used c"
  shows "st64 (SHA512Update c xs) = st64 c \<and> buffer (SHA512Update c xs) = blit (buffer c) (sha512_used c) xs"
  using assms
  by (auto simp: SHA512Update_cases sha512_bulk_fields sha512_save_fields absorb_short leftover_short blit_def)

lemma SHA512Update_long:
  assumes "length (buffer c) = 128" "128 - sha512_used c \<le> length xs"
  shows "st64 (SHA512Update c xs) = absorb 128 SHA512Transform
      (SHA512Transform (st64 c) (take (sha512_used c) (buffer c) @ take (128 - sha512_used c) xs))
      (drop (128 - sha512_used c) xs) \<and>
    (\<exists>b. length b = 128 \<and>
      buffer (SHA512Update c xs) = blit b 0 (leftover 128 (drop (128 - sha512_used c) xs)))"
proof (cases "sha512_used c = 0")
  case True
  then have "xs \<noteq> []" using assms(2) by auto
  then show ?thesis
    using assms True leftover_unfold [of 128 xs]
    by (auto simp: SHA512Update_cases sha512_bulk_fields absorb.simps [of 128 _ _ xs])
next
  case False
  then have "xs \<noteq> []" using assms(2) sha512_used_less [of c] by auto
  then show ?thesis
    using False assms sha512_fill_fields [OF assms(1) sha512_used_less assms(2)]
    by (auto simp: SHA512Update_cases sha512_bulk_fields)
qed

interpretation sha512: buffered_hash 128 SHA512Transform SHA512Update st64 buffer sha512_used 128
  sha512_bits "2 ^ 128" "\<lambda>xs. length xs < 2 ^ 32"
  using SHA512Update_short SHA512Update_long
  by unfold_locales (simp_all add: sha512_used_less sha512_used_update SHA512Update_bits sha512_bits_less [simplified])

text \<open>The in-place padding makes the last one or two blocks of the padded message.\<close>

definition sha512_lenbytes :: "sha2_ctx \<Rightarrow> u8 list" where
  "sha512_lenbytes c = BE_64_TO_8 (bitcount1 c) @ BE_64_TO_8 (bitcount0 c)"

lemma SHA512Pad_one:
  assumes "length (buffer c) = 128" "sha512_used c + 1 \<le> 112"
  shows "st64 (SHA512Pad c) = SHA512Transform (st64 c)
    (take (sha512_used c) (buffer c) @ 0x80 # replicate (112 - 1 - sha512_used c) 0 @ sha512_lenbytes c)"
proof (cases "sha512_used c = 0")
  case True
  have "blit (blit (buffer c) 0 (replicate 112 0)) 0 [0x80] = blit (buffer c) 0 (0x80 # replicate (112 - 1) 0)"
    by (simp add: blit_def numeral_eq_Suc)
  then show ?thesis
    using assms True
    by (simp add: SHA512Pad_def Let_def sha512_used_code sha512_lenbytes_def blit_blit take_blit_at blit_whole)
next
  case False
  then show ?thesis
    using assms
    by (simp add: SHA512Pad_def Let_def sha512_used_code sha512_lenbytes_def blit_blit take_blit_at blit_whole)
qed

lemma SHA512Pad_two:
  assumes "length (buffer c) = 128" "112 < sha512_used c + 1"
  shows "st64 (SHA512Pad c) = SHA512Transform (SHA512Transform (st64 c)
    (take (sha512_used c) (buffer c) @ 0x80 # replicate (128 - 1 - sha512_used c) 0))
    (replicate 112 0 @ sha512_lenbytes c)"
proof -
  have "take 128 (blit (blit b 0 (replicate 126 0)) 112 (sha512_lenbytes c))
      = replicate 112 0 @ sha512_lenbytes c" if "length b = 128" for b
    using that by (subst take_blit_at) (simp_all add: sha512_lenbytes_def, simp add: blit_def)
  then show ?thesis
    using assms sha512_used_less [of c]
    by (simp add: SHA512Pad_def Let_def sha512_used_code sha512_lenbytes_def blit_blit take_blit_at blit_whole)
qed

text \<open>The reference digests.\<close>

definition sha512_pad :: "u8 list \<Rightarrow> u8 list" where
  "sha512_pad msg = md_pad 128 (BE_64_TO_8 (of_nat (8 * length msg div 2 ^ 64)) @ BE_64_TO_8 (of_nat (8 * length msg))) msg"

definition sha512_digest :: "u8 list \<Rightarrow> u8 list" where
  "sha512_digest msg =
     concat (map BE_64_TO_8 (take 8 (absorb 128 SHA512Transform sha512_initial_hash_value (sha512_pad msg))))"

definition sha384_digest :: "u8 list \<Rightarrow> u8 list" where
  "sha384_digest msg =
     concat (map BE_64_TO_8 (take 6 (absorb 128 SHA512Transform sha384_initial_hash_value (sha512_pad msg))))"

lemma SHA512Pad_stream:
  assumes "length (buffer c) = 128" "st64 c = absorb 128 SHA512Transform st0 msg"
    and "take (sha512_used c) (buffer c) = leftover 128 msg"
    and "sha512_bits c = (8 * length msg) mod 2 ^ 128"
  shows "st64 (SHA512Pad c) = absorb 128 SHA512Transform st0 (sha512_pad msg)"
proof -
  have used: "sha512_used c = length msg mod 128"
    using assms(4) used_bits_add [of 128 "2 ^ 128" 0 "length msg"] by (simp add: sha512_used_of_bits)
  have lenb: "sha512_lenbytes c = BE_64_TO_8 (of_nat (8 * length msg div 2 ^ 64)) @ BE_64_TO_8 (of_nat (8 * length msg))"
    using assms(4) by (simp add: sha512_lenbytes_def sha512_count_words)
  show ?thesis
  proof (cases "sha512_used c + 1 \<le> 112")
    case True
    then show ?thesis
      using SHA512Pad_one [OF assms(1) True] assms(2,3)
      by (simp add: sha512_pad_def absorb_pad_one used lenb)
  next
    case False
    then show ?thesis
      using SHA512Pad_two [OF assms(1)] assms(2,3)
      by (simp add: sha512_pad_def absorb_pad_two used lenb)
  qed
qed

lemma SHA512Transform_length [simp]: "length (SHA512Transform s d) = 8"
  by (simp add: SHA512Transform_def Let_def case_prod_beta)

lemma absorb_SHA512_length:
  "length s = 8 \<Longrightarrow> length (absorb 128 SHA512Transform s msg) = 8"
proof (induction "128 :: nat" SHA512Transform s msg rule: absorb.induct)
  case (1 s msg)
  then show ?case by (subst absorb.simps) simp
qed

lemma sha512_start:
  assumes "\<forall>xs \<in> set xss. length xs < 2 ^ 32" "length (buffer c) = 128"
    and "sha512_used c = 0" "sha512_bits c = 0" "length (st64 c) = 8"
  defines "p \<equiv> SHA512Pad (foldl SHA512Update c xss)"
  shows "st64 p = absorb 128 SHA512Transform (st64 c) (sha512_pad (concat xss))" "length (st64 p) = 8"
proof -
  show "st64 p = absorb 128 SHA512Transform (st64 c) (sha512_pad (concat xss))"
    unfolding p_def using sha512.update_chunks [OF assms(2,1)] assms(3,4)
    by (intro SHA512Pad_stream) simp_all
  then show "length (st64 p) = 8" using assms(5) by (simp add: absorb_SHA512_length)
qed

text \<open>
  SHA-512 and SHA-384 are independent of how the message is cut: for every list of pieces,
  of any size a \<open>size_t\<close> can describe, initialising a context, feeding the pieces through
  \<open>SHA512Update\<close> and finishing (with the padding written into the buffer in place) yields the
  digest of the whole message: the compression function folded over the padded message,
  whose length field counts modulo \<open>2 ^ 128\<close>, written out big-endian and cut to the digest size.
\<close>

theorem sha512_streaming:
  assumes "\<forall>xs \<in> set xss. length xs < 2 ^ 32"
  shows "fst (SHA512Final (foldl SHA512Update (SHA512Init ctx) xss)) = sha512_digest (concat xss) \<and>
    fst (SHA384Final (foldl SHA512Update (SHA384Init ctx) xss)) = sha384_digest (concat xss)"
proof -
  have i: "length (buffer (SHA512Init ctx)) = 128" "sha512_used (SHA512Init ctx) = 0"
    "sha512_bits (SHA512Init ctx) = 0" "length (st64 (SHA512Init ctx)) = 8"
    "length (buffer (SHA384Init ctx)) = 128" "sha512_used (SHA384Init ctx) = 0"
    "sha512_bits (SHA384Init ctx) = 0" "length (st64 (SHA384Init ctx)) = 8"
    by (simp_all add: SHA512Init_def SHA384Init_def sha512_used_def sha512_bits_def
      sha512_initial_hash_value_def sha384_initial_hash_value_def)
  note s = sha512_start [OF assms i(1-4)] sha512_start [OF assms i(5-8)]
  have "st64 (SHA512Init ctx) = sha512_initial_hash_value" "st64 (SHA384Init ctx) = sha384_initial_hash_value"
    by (simp_all add: SHA512Init_def SHA384Init_def)
  then show ?thesis
    using s by (simp add: SHA512Final_def SHA384Final_def Let_def sha512_digest_def sha384_digest_def
      map_map_nth)
qed

theorem sha512_streaming_witness:
  "fst (SHA512Final (foldl SHA512Update (SHA512Init sha2_zero) [[0x61], [], replicate 300 0x62]))
      = sha512_digest (0x61 # replicate 300 0x62) \<and>
    fst (SHA384Final (foldl SHA512Update (SHA384Init sha2_zero) [[0x61], [], replicate 300 0x62]))
      = sha384_digest (0x61 # replicate 300 0x62)"
  using sha512_streaming [of "[[0x61], [], replicate 300 0x62]" sha2_zero] by simp


end
