(* ===== verification/Hashes.thy ===== *)
theory Hashes
  imports Md5 Rmd160 Sha1 Sha2
begin

text \<open>
  The hash functions of CLibrary/hash together. Each has its own theory; what a program that hashes a
  stream relies on is the same for all of them.
\<close>

text \<open>
  C36. Every hash function is independent of how the message is cut: for every list of pieces, each
  shorter than \<open>2 ^ 29\<close> bytes, initialising a context of any content, feeding the pieces through the
  update function and finishing gives the digest of the whole message, the compression function
  folded over the padded message. This holds for MD5, RIPEMD-160, SHA-1, SHA-224, SHA-256, SHA-384 and
  SHA-512.
\<close>

theorem hashes_stream:
  assumes "\<forall>xs \<in> set xss. length xs < 2 ^ 29"
    and "length (md5_ctx.buffer m) = 64" "length (rmd160_ctx.buffer r) = 64" "length (sha1_ctx.buffer s) = 64"
  shows "fst (MD5Final (foldl MD5Update (MD5Init m) xss)) = md5_digest (concat xss) \<and>
    fst (RMD160Final (foldl RMD160Update (RMD160Init r) xss)) = rmd160_digest (concat xss) \<and>
    fst (SHA1Final (foldl SHA1Update (SHA1Init s) xss)) = sha1_digest (concat xss) \<and>
    fst (SHA224Final (foldl SHA256Update (SHA224Init t) xss)) = sha224_digest (concat xss) \<and>
    fst (SHA256Final (foldl SHA256Update (SHA256Init t) xss)) = sha256_digest (concat xss) \<and>
    fst (SHA384Final (foldl SHA512Update (SHA384Init u) xss)) = sha384_digest (concat xss) \<and>
    fst (SHA512Final (foldl SHA512Update (SHA512Init u) xss)) = sha512_digest (concat xss)"
proof -
  have big: "\<forall>xs \<in> set xss. length xs < 2 ^ 32" using assms(1) by force
  show ?thesis
    using md5_streaming [OF assms(2) big] rmd160_streaming [OF assms(3,1)] sha1_streaming [OF assms(4,1)]
      sha256_streaming [OF big] sha512_streaming [OF big] by blast
qed

theorem hashes_stream_witness:
  "fst (MD5Final (foldl MD5Update (MD5Init md5_blank) [[0x61], [], replicate 100 0x62]))
     = md5_digest (0x61 # replicate 100 0x62) \<and>
   fst (SHA512Final (foldl SHA512Update (SHA512Init sha2_zero) [[0x61], [], replicate 100 0x62]))
     = sha512_digest (0x61 # replicate 100 0x62)"
  using hashes_stream [of "[[0x61], [], replicate 100 0x62]" md5_blank rmd160_blank sha1_blank sha2_zero sha2_zero]
  by (simp add: md5_blank_def rmd160_blank_def sha1_blank_def)

end
