(* ===== verification/C_Search.thy ===== *)
theory C_Search
  imports C_String Ctype
begin

text \<open>
  Comparing, searching, splitting and duplicating strings (CLibrary/string). \<open>strchr\<close> and
  \<open>strrchr\<close> are \<open>index\<close> and \<open>rindex\<close> compiled under another name, \<open>strcoll\<close> is \<open>strcmp\<close>.
  A loop over a string is a partial function, as in the previous theory.
\<close>

section \<open>Comparing\<close>

partial_function (option) strcmp :: "mem \<Rightarrow> u32 \<Rightarrow> u32 \<Rightarrow> int option" where
  "strcmp m s1 s2 =
     (if m s1 = m s2
      then if m s1 = 0 then Some 0 else strcmp m (s1 + 1) (s2 + 1)
      else Some (uint (m s1) - uint (m s2)))"

definition strcoll :: "mem \<Rightarrow> u32 \<Rightarrow> u32 \<Rightarrow> int option" where
  "strcoll m s1 s2 = strcmp m s1 s2"

function strncmp_loop :: "mem \<Rightarrow> u32 \<Rightarrow> u32 \<Rightarrow> u32 \<Rightarrow> int" where
  "strncmp_loop m s1 s2 n =
     (if m s1 \<noteq> m s2 then uint (m s1) - uint (m s2)
      else if m s1 = 0 then 0
      else if n - 1 \<noteq> 0 then strncmp_loop m (s1 + 1) (s2 + 1) (n - 1) else 0)"
  by pat_completeness auto
termination by (relation "measure (\<lambda>(m, s1, s2, n). unat (n - 1))") simp_all

definition strncmp :: "mem \<Rightarrow> u32 \<Rightarrow> u32 \<Rightarrow> u32 \<Rightarrow> int" where
  "strncmp m s1 s2 n = (if n = 0 then 0 else strncmp_loop m s1 s2 n)"

partial_function (option) strcasecmp :: "mem \<Rightarrow> u32 \<Rightarrow> u32 \<Rightarrow> int option" where
  "strcasecmp m us1 us2 =
     (if charmap ! unat (m us1) = charmap ! unat (m us2)
      then if m us1 = 0 then Some 0 else strcasecmp m (us1 + 1) (us2 + 1)
      else Some (uint (charmap ! unat (m us1)) - uint (charmap ! unat (m us2))))"

function strncasecmp_loop :: "mem \<Rightarrow> u32 \<Rightarrow> u32 \<Rightarrow> u32 \<Rightarrow> int" where
  "strncasecmp_loop m us1 us2 n =
     (if charmap ! unat (m us1) \<noteq> charmap ! unat (m us2)
      then uint (charmap ! unat (m us1)) - uint (charmap ! unat (m us2))
      else if m us1 = 0 then 0
      else if n - 1 \<noteq> 0 then strncasecmp_loop m (us1 + 1) (us2 + 1) (n - 1) else 0)"
  by pat_completeness auto
termination by (relation "measure (\<lambda>(m, s1, s2, n). unat (n - 1))") simp_all

definition strncasecmp :: "mem \<Rightarrow> u32 \<Rightarrow> u32 \<Rightarrow> u32 \<Rightarrow> int" where
  "strncasecmp m s1 s2 n = (if n \<noteq> 0 then strncasecmp_loop m s1 s2 n else 0)"

declare strncmp_loop.simps [simp del] strncasecmp_loop.simps [simp del]

section \<open>Searching\<close>

text \<open>The comparison \<open>*p == ch\<close> promotes the signed \<open>char\<close> to \<open>int\<close>.\<close>

partial_function (option) index :: "mem \<Rightarrow> u32 \<Rightarrow> u32 \<Rightarrow> u32 option" where
  "index m p ch =
     (if scast (m p) = ch then Some p
      else if m p = 0 then Some 0
      else index m (p + 1) ch)"

partial_function (option) rindex_loop :: "mem \<Rightarrow> u32 \<Rightarrow> u32 \<Rightarrow> u32 \<Rightarrow> u32 option" where
  "rindex_loop m p ch save =
     (let save = (if scast (m p) = ch then p else save)
      in if m p = 0 then Some save else rindex_loop m (p + 1) ch save)"

definition rindex :: "mem \<Rightarrow> u32 \<Rightarrow> u32 \<Rightarrow> u32 option" where
  "rindex m p ch = rindex_loop m p ch 0"

definition strchr :: "mem \<Rightarrow> u32 \<Rightarrow> u32 \<Rightarrow> u32 option" where
  "strchr m p ch = index m p ch"

definition strrchr :: "mem \<Rightarrow> u32 \<Rightarrow> u32 \<Rightarrow> u32 option" where
  "strrchr m p ch = rindex m p ch"

text \<open>
  The inner loops over a set of characters: up to the NUL, which does not count
  (\<open>strspn\<close>, \<open>strpbrk\<close>, the first loop of \<open>strtok_r\<close>), or the NUL included (\<open>strcspn\<close>, \<open>strsep\<close>, the
  second loop of \<open>strtok_r\<close>).
\<close>

partial_function (option) in_set :: "mem \<Rightarrow> u32 \<Rightarrow> u8 \<Rightarrow> bool option" where
  "in_set m spanp c =
     (if m spanp \<noteq> 0
      then if m spanp = c then Some True else in_set m (spanp + 1) c
      else Some False)"

partial_function (option) in_set_nul :: "mem \<Rightarrow> u32 \<Rightarrow> u8 \<Rightarrow> bool option" where
  "in_set_nul m spanp c =
     (if m spanp = c then Some True
      else if m spanp \<noteq> 0 then in_set_nul m (spanp + 1) c else Some False)"

partial_function (option) strspn_loop :: "mem \<Rightarrow> u32 \<Rightarrow> u32 \<Rightarrow> u32 option" where
  "strspn_loop m p s2 = do {
     b \<leftarrow> in_set m s2 (m p);
     if b then strspn_loop m (p + 1) s2 else Some p }"

definition strspn :: "mem \<Rightarrow> u32 \<Rightarrow> u32 \<Rightarrow> u32 option" where
  "strspn m s1 s2 = do { p \<leftarrow> strspn_loop m s1 s2; Some (p - s1) }"

partial_function (option) strcspn_loop :: "mem \<Rightarrow> u32 \<Rightarrow> u32 \<Rightarrow> u32 option" where
  "strcspn_loop m p s2 = do {
     b \<leftarrow> in_set_nul m s2 (m p);
     if b then Some p else strcspn_loop m (p + 1) s2 }"

definition strcspn :: "mem \<Rightarrow> u32 \<Rightarrow> u32 \<Rightarrow> u32 option" where
  "strcspn m s1 s2 = do { p \<leftarrow> strcspn_loop m s1 s2; Some (p - s1) }"

partial_function (option) strpbrk :: "mem \<Rightarrow> u32 \<Rightarrow> u32 \<Rightarrow> u32 option" where
  "strpbrk m s1 s2 =
     (if m s1 \<noteq> 0
      then do {
        b \<leftarrow> in_set m s2 (m s1);
        if b then Some s1 else strpbrk m (s1 + 1) s2 }
      else Some 0)"

text \<open>The inner loop of \<open>strstr\<close>: the address after the next \<open>c\<close>, or no such character.\<close>

partial_function (option) strstr_scan :: "mem \<Rightarrow> u32 \<Rightarrow> u8 \<Rightarrow> u32 option option" where
  "strstr_scan m s c =
     (if m s = 0 then Some None
      else if m s \<noteq> c then strstr_scan m (s + 1) c
      else Some (Some (s + 1)))"

partial_function (option) strstr_loop :: "mem \<Rightarrow> u32 \<Rightarrow> u8 \<Rightarrow> u32 \<Rightarrow> u32 \<Rightarrow> u32 option" where
  "strstr_loop m s c fnd len = do {
     r \<leftarrow> strstr_scan m s c;
     case r of None \<Rightarrow> Some 0
     | Some s \<Rightarrow> if strncmp m s fnd len \<noteq> 0 then strstr_loop m s c fnd len else Some (s - 1) }"

definition strstr :: "mem \<Rightarrow> u32 \<Rightarrow> u32 \<Rightarrow> u32 option" where
  "strstr m s fnd =
     (if m fnd \<noteq> 0
      then do {
        len \<leftarrow> strlen m (fnd + 1);
        strstr_loop m s (m fnd) (fnd + 1) len }
      else Some s)"

partial_function (option) strcasestr_scan :: "mem \<Rightarrow> u32 \<Rightarrow> u8 \<Rightarrow> u32 option option" where
  "strcasestr_scan m s c =
     (if m s = 0 then Some None
      else if word_of_int (tolower (uint (m s))) \<noteq> c then strcasestr_scan m (s + 1) c
      else Some (Some (s + 1)))"

partial_function (option) strcasestr_loop :: "mem \<Rightarrow> u32 \<Rightarrow> u8 \<Rightarrow> u32 \<Rightarrow> u32 \<Rightarrow> u32 option" where
  "strcasestr_loop m s c fnd len = do {
     r \<leftarrow> strcasestr_scan m s c;
     case r of None \<Rightarrow> Some 0
     | Some s \<Rightarrow> if strncasecmp m s fnd len \<noteq> 0 then strcasestr_loop m s c fnd len else Some (s - 1) }"

definition strcasestr :: "mem \<Rightarrow> u32 \<Rightarrow> u32 \<Rightarrow> u32 option" where
  "strcasestr m s fnd =
     (if m fnd \<noteq> 0
      then do {
        let c = word_of_int (tolower (uint (m fnd)));
        len \<leftarrow> strlen m (fnd + 1);
        strcasestr_loop m s c (fnd + 1) len }
      else Some s)"

section \<open>Splitting and duplicating\<close>

text \<open>
  \<open>strsep\<close> and \<open>strtok_r\<close> return the token, the new value of the saved pointer and the memory.
  The common loop finds the first delimiter or NUL from \<open>s\<close> on and ends the token there.
\<close>

definition end_token :: "mem \<Rightarrow> u32 \<Rightarrow> mem \<times> u32" where
  "end_token m e = (if m e = 0 then (m, 0) else (m(e := 0), e + 1))"

definition strsep :: "mem \<Rightarrow> u32 \<Rightarrow> u32 \<Rightarrow> (mem \<times> u32 \<times> u32) option" where
  "strsep m stringp delim =
     (if stringp = 0 then Some (m, 0, stringp)
      else do {
        e \<leftarrow> strcspn_loop m stringp delim;
        let (m, s) = end_token m e;
        Some (m, stringp, s) })"

definition strtok_r :: "mem \<Rightarrow> u32 \<Rightarrow> u32 \<Rightarrow> u32 \<Rightarrow> (mem \<times> u32 \<times> u32) option" where
  "strtok_r m s delim lst =
     (let s = (if s = 0 then lst else s)
      in if s = 0 then Some (m, 0, lst)
         else do {
           tok \<leftarrow> strspn_loop m s delim;
           if m tok = 0 then Some (m, 0, 0)
           else do {
             e \<leftarrow> strcspn_loop m (tok + 1) delim;
             let (m, s) = end_token m e;
             Some (m, tok, s) } })"

text \<open>\<open>strtok\<close> keeps the saved pointer in a static variable, which is passed and returned.\<close>

definition strtok :: "mem \<Rightarrow> u32 \<Rightarrow> u32 \<Rightarrow> u32 \<Rightarrow> (mem \<times> u32 \<times> u32) option" where
  "strtok m s delim static_last = strtok_r m s delim static_last"

definition strdup :: "(u32 \<Rightarrow> u32) \<Rightarrow> mem \<Rightarrow> u32 \<Rightarrow> (mem \<times> u32) res option" where
  "strdup malloc m str = do {
     l \<leftarrow> strlen m str;
     let siz = l + 1;
     let copy = malloc siz;
     if copy = 0 then Some (Inr (m, 0))
     else Some (case memcpy m copy str siz of Inl e \<Rightarrow> Inl e | Inr (m, p) \<Rightarrow> Inr (m, copy)) }"

definition strndup :: "(u32 \<Rightarrow> u32) \<Rightarrow> mem \<Rightarrow> u32 \<Rightarrow> u32 \<Rightarrow> (mem \<times> u32) res" where
  "strndup malloc m str maxlen =
     (let len = strnlen m str maxlen;
          copy = malloc (len + 1)
      in if copy \<noteq> 0
         then (case memcpy m copy str len of
             Inl e \<Rightarrow> Inl e
           | Inr (m, p) \<Rightarrow> Inr (m(copy + len := 0), copy))
         else Inr (m, copy))"

definition strerror :: "u32 \<Rightarrow> u32 res" where
  "strerror num = Inl (KASSERT ''0'')"

section \<open>Comparison up to a key\<close>

text \<open>
  \<open>strcmp\<close> and \<open>strcasecmp\<close>, and their counted versions, are the same comparison of characters
  under a key: the identity and the case table. The search functions on top of them are the
  same search.
\<close>

locale string_order =
  fixes key :: "u8 \<Rightarrow> u8"
    and cmp :: "mem \<Rightarrow> u32 \<Rightarrow> u32 \<Rightarrow> int option"
    and ncmp :: "mem \<Rightarrow> u32 \<Rightarrow> u32 \<Rightarrow> u32 \<Rightarrow> int"
  assumes key_nul: "key b = key 0 \<longleftrightarrow> b = 0"
    and cmp_step: "cmp m p q =
      (if key (m p) = key (m q)
       then if m p = 0 then Some 0 else cmp m (p + 1) (q + 1)
       else Some (uint (key (m p)) - uint (key (m q))))"
    and ncmp_0: "ncmp m p q 0 = 0"
    and ncmp_step: "n \<noteq> 0 \<Longrightarrow> ncmp m p q n =
      (if key (m p) \<noteq> key (m q) then uint (key (m p)) - uint (key (m q))
       else if m p = 0 then 0 else ncmp m (p + 1) (q + 1) (n - 1))"
begin

lemma cmp_eq:
  "cstr m p xs \<Longrightarrow> cstr m q ys \<Longrightarrow>
    cmp m p q = Some (first_difference (map key (xs @ [0])) (map key (ys @ [0])))"
proof (induction xs arbitrary: p q ys)
  case Nil
  then show ?case using key_nul by (cases ys; subst cmp_step) auto
next
  case (Cons x xs)
  then show ?case using key_nul by (cases ys; subst cmp_step) auto
qed

lemma ncmp_eq:
  "cstr m p xs \<Longrightarrow> cstr m q ys \<Longrightarrow> ncmp m p q n =
    first_difference (take (unat n) (map key (xs @ [0]))) (take (unat n) (map key (ys @ [0])))"
proof (induction xs arbitrary: p q ys n)
  case Nil
  then show ?case
  proof (cases "n = 0")
    case False
    then show ?thesis
      using Nil key_nul unat_minus_one_word [OF False] by (cases ys; subst ncmp_step) auto
  qed (simp add: ncmp_0)
next
  case (Cons x xs)
  then show ?case
  proof (cases "n = 0")
    case False
    then show ?thesis
      using Cons key_nul unat_minus_one_word [OF False] by (cases ys; subst ncmp_step) auto
  qed (simp add: ncmp_0)
qed

text \<open>With the length of the second string as the bound, it is a test for a prefix.\<close>

definition key_prefix :: "u8 list \<Rightarrow> u8 list \<Rightarrow> bool" where
  "key_prefix ys xs \<longleftrightarrow> map key (take (length ys) xs) = map key ys"

lemma first_difference_prefix:
  "0 \<notin> set ys \<Longrightarrow> first_difference (take (length ys) (map key (xs @ [0])))
    (take (length ys) (map key (ys @ [0]))) = 0 \<longleftrightarrow> key_prefix ys xs"
proof (induction ys arbitrary: xs)
  case (Cons y ys)
  then show ?case
    using key_nul [of y] by (cases xs) (auto simp: key_prefix_def word_uint_eq_iff [symmetric])
qed (simp add: key_prefix_def)

lemma ncmp_prefix:
  assumes "cstr m p xs" "cstr m q ys"
  shows "ncmp m p q (of_nat (length ys)) = 0 \<longleftrightarrow> key_prefix ys xs"
proof -
  have "unat (of_nat (length ys) :: u32) = length ys"
    using cstr_length [OF assms(2)] by (simp add: unat_of_nat)
  moreover have "0 \<notin> set ys" using assms(2) by (simp add: cstr_iff)
  ultimately show ?thesis using ncmp_eq [OF assms] first_difference_prefix by metis
qed

end

locale substring_search = string_order +
  fixes loop :: "mem \<Rightarrow> u32 \<Rightarrow> u8 \<Rightarrow> u32 \<Rightarrow> u32 \<Rightarrow> u32 option"
  assumes loop_step: "loop m s c f n =
    (if m s = 0 then Some 0
     else if key (m s) = c \<and> ncmp m (s + 1) f n = 0 then Some s
     else loop m (s + 1) c f n)"
begin

lemma loop_eq:
  assumes "cstr m f ys"
  shows "cstr m s xs \<Longrightarrow> loop m s (key y) f (of_nat (length ys)) =
    Some (found s (find (\<lambda>i. key_prefix (y # ys) (drop i xs)) [0..<length xs]))"
proof (induction xs arbitrary: s)
  case Nil
  then show ?case by (subst loop_step) simp
next
  case (Cons x xs)
  have "key_prefix (y # ys) (x # xs) \<longleftrightarrow> key x = key y \<and> ncmp m (s + 1) f (of_nat (length ys)) = 0"
    using ncmp_prefix [of m "s + 1" xs f ys] Cons.prems assms by (auto simp: key_prefix_def)
  then show ?case
    using Cons by (subst loop_step) (auto simp: find_upt_Suc found_Suc simp del: upt_Suc)
qed

end

lemma charmap_word: "word_of_int (tolower (uint (b :: u8))) = charmap ! unat b"
  by (simp add: charmap_tolower [symmetric])

lemma charmap_nul: "charmap ! unat (b :: u8) = charmap ! unat (0 :: u8) \<longleftrightarrow> b = 0"
proof -
  have "uint (charmap ! unat b) = uint (charmap ! unat (0 :: u8)) \<longleftrightarrow> b = 0"
    using charmap_tolower [of b] charmap_tolower [of 0] uint_bounded [of b]
    by (auto simp: tolower_eq isupper_def word_uint_eq_iff split: if_splits)
  then show ?thesis by (simp only: word_uint_eq_iff)
qed

lemma strstr_loop_step:
  "strstr_loop m s c f n =
    (if m s = 0 then Some 0
     else if m s = c \<and> strncmp m (s + 1) f n = 0 then Some s
     else strstr_loop m (s + 1) c f n)"
  by (subst (1 2) strstr_loop.simps) (subst strstr_scan.simps, auto simp: strstr_loop.simps)

lemma strcasestr_loop_step:
  "strcasestr_loop m s c f n =
    (if m s = 0 then Some 0
     else if charmap ! unat (m s) = c \<and> strncasecmp m (s + 1) f n = 0 then Some s
     else strcasestr_loop m (s + 1) c f n)"
  by (subst (1 2) strcasestr_loop.simps)
    (subst strcasestr_scan.simps, auto simp: strcasestr_loop.simps charmap_word)

interpretation exact: string_order "\<lambda>b. b" strcmp strncmp
proof
  fix m p q
  show "strcmp m p q = (if m p = m q
       then if m p = 0 then Some 0 else strcmp m (p + 1) (q + 1)
       else Some (uint (m p) - uint (m q)))" by (rule strcmp.simps)
qed (simp_all add: strncmp_def strncmp_loop.simps)

interpretation nocase: string_order "\<lambda>b. charmap ! unat b" strcasecmp strncasecmp
proof
  fix m p q
  show "strcasecmp m p q = (if charmap ! unat (m p) = charmap ! unat (m q)
       then if m p = 0 then Some 0 else strcasecmp m (p + 1) (q + 1)
       else Some (uint (charmap ! unat (m p)) - uint (charmap ! unat (m q))))"
    by (rule strcasecmp.simps)
qed (simp_all add: charmap_nul [simplified] strncasecmp_def strncasecmp_loop.simps)

interpretation exact: substring_search "\<lambda>b. b" strcmp strncmp strstr_loop
  by unfold_locales (rule strstr_loop_step)

interpretation nocase: substring_search "\<lambda>b. charmap ! unat b" strcasecmp strncasecmp strcasestr_loop
  by unfold_locales (rule strcasestr_loop_step)

section \<open>Searching: the results\<close>

lemma find_snoc:
  "find P (xs @ [x]) = (case find P xs of None \<Rightarrow> if P x then Some x else None | Some y \<Rightarrow> Some y)"
  by (induction xs) auto

lemma index_eq:
  "cstr m p xs \<Longrightarrow>
    index m p ch = Some (found p (find (\<lambda>i. scast ((xs @ [0]) ! i) = ch) [0..<Suc (length xs)]))"
proof (induction xs arbitrary: p)
  case Nil
  then show ?case by (subst index.simps) simp
next
  case (Cons x xs)
  then show ?case
    by (subst index.simps) (simp add: find_upt_Suc [of _ "Suc (length xs)"] found_Suc del: upt_Suc)
qed

lemma rev_upt_Suc: "rev [0..<Suc n] = map Suc (rev [0..<n]) @ [0]"
  by (simp add: upt_conv_Cons map_Suc_upt [symmetric] rev_map del: upt_Suc)

lemma rindex_loop_eq:
  "cstr m p xs \<Longrightarrow> rindex_loop m p ch save =
    Some (case find (\<lambda>i. scast ((xs @ [0]) ! i) = ch) (rev [0..<Suc (length xs)]) of
      None \<Rightarrow> save | Some i \<Rightarrow> p + of_nat i)"
proof (induction xs arbitrary: p save)
  case Nil
  then show ?case by (subst rindex_loop.simps) simp
next
  case (Cons x xs)
  then show ?case
    by (subst rindex_loop.simps)
      (auto simp: rev_upt_Suc [of "Suc (length xs)"] find_snoc find_map Let_def add.assoc
        simp del: upt_Suc split: option.split)
qed

lemma in_set_eq: "cstr m q ys \<Longrightarrow> in_set m q c = Some (c \<in> set ys)"
  by (induction ys arbitrary: q; subst in_set.simps) auto

lemma in_set_nul_eq: "cstr m q ys \<Longrightarrow> in_set_nul m q c = Some (c \<in> set ys \<or> c = 0)"
  by (induction ys arbitrary: q; subst in_set_nul.simps) auto

lemma strspn_loop_eq:
  assumes "cstr m q ys"
  shows "cstr m p xs \<Longrightarrow>
    strspn_loop m p q = Some (p + of_nat (length (takeWhile (\<lambda>c. c \<in> set ys) xs)))"
proof (induction xs arbitrary: p)
  case Nil
  moreover have "0 \<notin> set ys" using assms by (simp add: cstr_iff)
  ultimately show ?case by (subst strspn_loop.simps) (simp add: in_set_eq [OF assms])
next
  case (Cons x xs)
  then show ?case by (subst strspn_loop.simps) (simp add: in_set_eq [OF assms] add.assoc)
qed

lemma strcspn_loop_eq:
  assumes "cstr m q ys"
  shows "cstr m p xs \<Longrightarrow>
    strcspn_loop m p q = Some (p + of_nat (length (takeWhile (\<lambda>c. c \<notin> set ys) xs)))"
  by (induction xs arbitrary: p; subst strcspn_loop.simps)
    (auto simp: in_set_nul_eq [OF assms] algebra_simps)

lemma strpbrk_eq:
  assumes "cstr m q ys"
  shows "cstr m p xs \<Longrightarrow>
    strpbrk m p q = Some (found p (find (\<lambda>i. xs ! i \<in> set ys) [0..<length xs]))"
proof (induction xs arbitrary: p)
  case Nil
  then show ?case by (subst strpbrk.simps) simp
next
  case (Cons x xs)
  then show ?case
    by (subst strpbrk.simps) (simp add: in_set_eq [OF assms] find_upt_Suc found_Suc del: upt_Suc)
qed

section \<open>Splitting: the result\<close>

lemma cstr_cut:
  assumes "cstr m p (as @ b # bs)"
  defines "e \<equiv> p + of_nat (length as)"
  shows "cstr (m(e := 0)) p as" "cstr (m(e := 0)) (e + 1) bs" "m e = b" "b \<noteq> 0"
proof -
  have len: "length as + Suc (length bs) < 2 ^ 32" using cstr_length [OF assms(1)] by simp
  have ne: "e \<noteq> p + of_nat i" if "i < 2 ^ 32" "i \<noteq> length as" for i
    unfolding e_def using that len by (subst add_of_nat_inject) simp_all
  have rd: "(m(e := 0)) (p + of_nat i) = as ! i" if "i < length as" for i
    using that ne [of i] len cstr_nth [OF assms(1), of i] by (simp add: nth_append)
  have "bytes (m(e := 0)) p (length as) = as"
    by (rule nth_equalityI) (simp_all add: rd del: fun_upd_apply)
  then show "cstr (m(e := 0)) p as" using assms(1) by (auto simp: cstr_iff e_def)
  have "cstr m (p + of_nat (Suc (length as))) (drop (Suc (length as)) (as @ b # bs))"
    using cstr_drop [OF assms(1), of "Suc (length as)"] by simp
  then have "cstr m (e + 1) bs" by (simp add: e_def algebra_simps)
  moreover have "e + 1 + of_nat i = p + of_nat (length as + 1 + i)" for i by (simp add: e_def algebra_simps)
  then have "e \<noteq> e + 1 + of_nat i" if "i < Suc (length bs)" for i
    using that ne [of "length as + 1 + i"] len by simp
  ultimately show "cstr (m(e := 0)) (e + 1) bs" by (simp add: cstr_upd del: fun_upd_apply)
  show "m e = b" using cstr_nth [OF assms(1), of "length as"] by (simp add: e_def)
  show "b \<noteq> 0" using assms(1) by (auto simp: cstr_iff)
qed

text \<open>The token that starts at \<open>p\<close>: the text up to a delimiter, and where the rest starts.\<close>

definition token_split :: "mem \<Rightarrow> u32 \<Rightarrow> u8 list \<Rightarrow> u8 list \<Rightarrow> mem \<Rightarrow> u32 \<Rightarrow> bool" where
  "token_split m p ys xs m' nxt \<longleftrightarrow>
     (case dropWhile (\<lambda>c. c \<notin> set ys) xs of
       [] \<Rightarrow> m' = m \<and> nxt = 0 \<and> cstr m' p xs
     | d # zs \<Rightarrow> nxt = p + of_nat (Suc (length (takeWhile (\<lambda>c. c \<notin> set ys) xs))) \<and>
         m' = m(nxt - 1 := 0) \<and> cstr m' p (takeWhile (\<lambda>c. c \<notin> set ys) xs) \<and> cstr m' nxt zs)"

lemma end_token_split:
  fixes ys :: "u8 list"
  assumes "cstr m p xs"
  defines "e \<equiv> p + of_nat (length (takeWhile (\<lambda>c. c \<notin> set ys) xs))"
  shows "token_split m p ys xs (fst (end_token m e)) (snd (end_token m e))"
proof (cases "dropWhile (\<lambda>c. c \<notin> set ys) xs")
  case Nil
  then have "takeWhile (\<lambda>c. c \<notin> set ys) xs = xs"
    by (metis append_Nil2 takeWhile_dropWhile_id)
  then have "e = p + of_nat (length xs)" by (simp only: e_def)
  then have "m e = 0" using assms(1) by (simp add: cstr_iff)
  then show ?thesis unfolding token_split_def Nil using assms(1) by (simp add: end_token_def)
next
  case (Cons d zs)
  then have "xs = takeWhile (\<lambda>c. c \<notin> set ys) xs @ d # zs" by (metis takeWhile_dropWhile_id)
  then have "cstr m p (takeWhile (\<lambda>c. c \<notin> set ys) xs @ d # zs)" using assms(1) by simp
  note cut = cstr_cut [OF this]
  show ?thesis
    using cut Cons by (simp add: token_split_def end_token_def e_def algebra_simps del: fun_upd_apply)
qed

section \<open>Properties\<close>

text \<open>
  Comparison of strings: \<open>strcmp\<close> (and \<open>strcoll\<close>) returns for every two strings the
  difference of the first characters, as unsigned bytes, in which they differ, the
  terminating NUL included; \<open>strncmp\<close> does so for the first \<open>n\<close> characters, and \<open>strcasecmp\<close> and
  \<open>strncasecmp\<close> after mapping ASCII capitals to small letters.
\<close>

theorem string_comparison:
  assumes "cstr m p xs" "cstr m q ys"
  defines "lower \<equiv> \<lambda>b. charmap ! unat b"
  shows "strcmp m p q = Some (first_difference (xs @ [0]) (ys @ [0])) \<and> strcoll m p q = strcmp m p q \<and>
    strncmp m p q n = first_difference (take (unat n) (xs @ [0])) (take (unat n) (ys @ [0])) \<and>
    strcasecmp m p q = Some (first_difference (map lower (xs @ [0])) (map lower (ys @ [0]))) \<and>
    strncasecmp m p q n = first_difference (take (unat n) (map lower (xs @ [0])))
      (take (unat n) (map lower (ys @ [0])))"
  using exact.cmp_eq [OF assms(1,2)] exact.ncmp_eq [OF assms(1,2), of n]
    nocase.cmp_eq [OF assms(1,2)] nocase.ncmp_eq [OF assms(1,2), of n]
  by (simp add: strcoll_def lower_def)

theorem string_comparison_witness:
  "strcmp sample_mem 0x1000 0x2000 = Some (- 17)"
  using string_comparison [OF sample_strings] by simp

text \<open>
  C35. \<open>strstr\<close> and \<open>strcasestr\<close> return the address of the first place at which the second string
  occurs in the first, exactly or up to ASCII case, the first string itself when the second
  one is empty, and the null pointer when there is none; they return for every two strings.
\<close>

theorem substring_found:
  assumes "cstr m s xs" "cstr m f ys"
  defines "lower \<equiv> \<lambda>b. charmap ! unat b"
  shows "strstr m s f =
      Some (found s (find (\<lambda>i. take (length ys) (drop i xs) = ys) [0..<Suc (length xs)])) \<and>
    strcasestr m s f = Some (found s (find
      (\<lambda>i. map lower (take (length ys) (drop i xs)) = map lower ys) [0..<Suc (length xs)]))"
proof (cases ys)
  case Nil
  then show ?thesis
    using assms(2) by (simp add: strstr_def strcasestr_def find_upt_Suc del: upt_Suc)
next
  case (Cons y zs)
  then have f: "m f = y" "y \<noteq> 0" "cstr m (f + 1) zs" using assms(2) by simp_all
  have snoc: "find P [0..<Suc (length xs)] = find P [0..<length xs]" if "\<not> P (length xs)" for P
    using that by (simp add: find_snoc split: option.split)
  show ?thesis
    using exact.loop_eq [OF f(3) assms(1), of y] nocase.loop_eq [OF f(3) assms(1), of y] f
    by (simp add: strstr_def strcasestr_def strlen_eq charmap_word snoc Cons lower_def
      exact.key_prefix_def nocase.key_prefix_def del: upt_Suc)
qed

theorem substring_found_witness:
  "strstr sample_mem 0x1003 0x2001 = Some 0x1004"
proof -
  have "cstr sample_mem 0x1003 [0x6c, 0x6f]" "cstr sample_mem 0x2001 [0x6f]"
    using cstr_drop [OF sample_strings(1), of 3] cstr_drop [OF sample_strings(2), of 1] by simp_all
  from substring_found [OF this] show ?thesis by (simp add: find_upt_Suc)
qed

text \<open>
  Sets of characters: \<open>strspn\<close> and \<open>strcspn\<close> are the lengths of the longest prefixes of
  characters in and outside the set, \<open>strpbrk\<close> the address of the first character in the set;
  \<open>strsep\<close> cuts the string at the first delimiter with a NUL, returns the start and leaves the
  saved pointer after the cut (or null at the end), and \<open>strtok_r\<close> (and \<open>strtok\<close>) does the same
  after skipping leading delimiters, returning null when nothing else is left.
\<close>

theorem character_sets:
  assumes "cstr m p xs" "cstr m q ys" "p \<noteq> 0"
  defines "lead \<equiv> length (takeWhile (\<lambda>c. c \<in> set ys) xs)"
  shows "strspn m p q = Some (of_nat lead) \<and>
    strcspn m p q = Some (of_nat (length (takeWhile (\<lambda>c. c \<notin> set ys) xs))) \<and>
    strpbrk m p q = Some (found p (find (\<lambda>i. xs ! i \<in> set ys) [0..<length xs])) \<and>
    (\<exists>m' nxt. strsep m p q = Some (m', p, nxt) \<and> token_split m p ys xs m' nxt) \<and>
    (if dropWhile (\<lambda>c. c \<in> set ys) xs = [] then strtok_r m p q lst = Some (m, 0, 0)
     else \<exists>m' nxt. strtok_r m p q lst = Some (m', p + of_nat lead, nxt) \<and>
       token_split m (p + of_nat lead) ys (dropWhile (\<lambda>c. c \<in> set ys) xs) m' nxt) \<and>
    strtok m 0 q p = strtok_r m p q lst"
proof -
  have drop: "drop lead xs = dropWhile (\<lambda>c. c \<in> set ys) xs"
    by (simp add: lead_def dropWhile_eq_drop)
  have sep: "strsep m p q = Some (fst (end_token m e), p, snd (end_token m e))"
    if "e = p + of_nat (length (takeWhile (\<lambda>c. c \<notin> set ys) xs))" for e
    using that assms(3) strcspn_loop_eq [OF assms(2,1)] by (simp add: strsep_def case_prod_beta)
  have spn: "strspn_loop m p q = Some (p + of_nat lead)"
    unfolding lead_def by (rule strspn_loop_eq [OF assms(2,1)])
  have "lead \<le> length xs" by (simp add: lead_def length_takeWhile_le)
  then have tok: "cstr m (p + of_nat lead) (dropWhile (\<lambda>c. c \<in> set ys) xs)"
    using cstr_drop [OF assms(1)] drop by metis
  have tk: "if dropWhile (\<lambda>c. c \<in> set ys) xs = [] then strtok_r m p q lst = Some (m, 0, 0)
     else \<exists>m' nxt. strtok_r m p q lst = Some (m', p + of_nat lead, nxt) \<and>
       token_split m (p + of_nat lead) ys (dropWhile (\<lambda>c. c \<in> set ys) xs) m' nxt" for lst
  proof (cases "dropWhile (\<lambda>c. c \<in> set ys) xs")
    case Nil
    then have "m (p + of_nat lead) = 0" using tok [unfolded Nil] by simp
    then show ?thesis using assms(3) spn Nil
      by (simp add: strtok_r_def Let_def del: dropWhile_eq_Nil_conv)
  next
    case (Cons d zs)
    then have d: "d \<notin> set ys" by (metis dropWhile_eq_Cons_conv)
    then have tw: "takeWhile (\<lambda>c. c \<notin> set ys) (d # zs) = d # takeWhile (\<lambda>c. c \<notin> set ys) zs" by simp
    have "cstr m (p + of_nat lead + 1) zs" "m (p + of_nat lead) \<noteq> 0" using tok Cons by simp_all
    moreover note end_token_split [OF tok [unfolded Cons], of ys, unfolded tw]
    ultimately show ?thesis
      using assms(3) spn strcspn_loop_eq [OF assms(2)] Cons
      by (auto simp: strtok_r_def Let_def case_prod_beta add.assoc)
  qed
  have "strspn m p q = Some (of_nat lead)" using spn by (simp add: strspn_def)
  moreover have "strcspn m p q = Some (of_nat (length (takeWhile (\<lambda>c. c \<notin> set ys) xs)))"
    using strcspn_loop_eq [OF assms(2,1)] by (simp add: strcspn_def)
  moreover have "\<exists>m' nxt. strsep m p q = Some (m', p, nxt) \<and> token_split m p ys xs m' nxt"
    using sep [OF refl] end_token_split [OF assms(1), of ys] by blast
  moreover have "strtok m 0 q p = strtok_r m p q lst"
    using assms(3) by (simp add: strtok_def strtok_r_def)
  ultimately show ?thesis using strpbrk_eq [OF assms(2,1)] tk [of lst] by blast
qed

theorem character_sets_witness:
  "strspn sample_mem 0x1000 0x2000 = Some 0 \<and> strcspn sample_mem 0x1000 0x2000 = Some 4 \<and>
   (\<exists>m'. strsep sample_mem 0x1000 0x2000 = Some (m', 0x1000, 0x1005) \<and>
     cstr m' 0x1000 [0x68, 0x65, 0x6c, 0x6c])"
  using character_sets [OF sample_strings] by (auto simp: token_split_def)

end
