(* ===== verification/Quad.thy ===== *)
theory Quad
  imports Prelude "HOL-Library.Monad_Syntax"
begin

text \<open>
  The 64-bit arithmetic of the C library on a 32-bit machine (CLibrary/quad): addition,
  subtraction, the bitwise operations, shifts, comparisons and the multiplication after
  Karatsuba, all on the two halves of a \<open>long long\<close>. A \<open>quad_t\<close> and a \<open>u_quad_t\<close> are 64-bit words;
  the signed reading is \<open>sint\<close> and \<open><s\<close>. Each function is proved equal to the operation on
  the 64-bit word.
\<close>

section \<open>The halves of a quad\<close>

text \<open>\<open>union uu\<close>: \<open>ul[H]\<close>, \<open>ul[L]\<close> and the quad that two given halves make.\<close>

definition quad_H :: "u64 \<Rightarrow> u32" where
  "quad_H q = ucast (drop_bit 32 q)"

definition quad_L :: "u64 \<Rightarrow> u32" where
  "quad_L q = ucast q"

definition quad_of :: "u32 \<Rightarrow> u32 \<Rightarrow> u64" where
  "quad_of h l = push_bit 32 (ucast h) OR ucast l"

definition INT_BITS :: u32 where
  "INT_BITS = 32"

definition HHALF :: "u32 \<Rightarrow> u32" where
  "HHALF x = drop_bit 16 x"

definition LHALF :: "u32 \<Rightarrow> u32" where
  "LHALF x = x AND (push_bit 16 1 - 1)"

definition LHUP :: "u32 \<Rightarrow> u32" where
  "LHUP x = push_bit 16 x"

abbreviation up32 :: "u32 \<Rightarrow> u64" where
  "up32 h \<equiv> 2 ^ 32 * ucast h"

lemma quad_of_sum: "quad_of h l = up32 h + ucast l"
proof -
  have "push_bit 32 (ucast h :: u64) OR ucast l = push_bit 32 (ucast h) + ucast l"
    by (rule disjunctive_add [symmetric]) (auto simp: bit_simps dest: bit_imp_le_length)
  then show ?thesis by (simp add: quad_of_def push_bit_eq_mult mult.commute)
qed

lemma quad_parts [simp]:
  "quad_H (quad_of h l) = h" "quad_L (quad_of h l) = l" "quad_of (quad_H q) (quad_L q) = q"
proof -
  show "quad_H (quad_of h l) = h"
    by (rule bit_word_eqI)
      (auto simp: quad_H_def quad_of_def bit_simps ac_simps dest: bit_imp_le_length)
  show "quad_L (quad_of h l) = l"
    by (rule bit_word_eqI) (auto simp: quad_L_def quad_of_def bit_simps)
  show "quad_of (quad_H q) (quad_L q) = q"
    by (rule bit_word_eqI) (auto simp: quad_H_def quad_L_def quad_of_def bit_simps)
qed

lemma quad_split: "q = up32 (quad_H q) + ucast (quad_L q)"
  by (metis quad_of_sum quad_parts(3))

lemma ucast_u64_of_nat: "(ucast (x :: u32) :: u64) = word_of_nat (unat x)"
  by simp

lemma quad_of_nat: "quad_of h l = word_of_nat (unat h * 2 ^ 32 + unat l)"
  by (simp only: quad_of_sum ucast_u64_of_nat of_nat_add of_nat_mult of_nat_power of_nat_numeral
      mult.commute)

lemma unat_quad_of: "unat (quad_of h l) = unat h * 2 ^ 32 + unat l"
proof -
  have "unat h < 2 ^ 32" "unat l < 2 ^ 32" by (rule unat_u32_less)+
  then have "unat h * 2 ^ 32 + unat l < 2 ^ 64" by simp
  then show ?thesis unfolding quad_of_nat by (simp only: unat_of_nat) simp
qed

lemma unat_quad: "unat q = unat (quad_H q) * 2 ^ 32 + unat (quad_L q)"
  by (metis unat_quad_of quad_parts(3))

text \<open>The upper half is a ring homomorphism: what overflows there is lost in the quad as well.\<close>

lemma up32_of_nat_mod: "(2 ^ 32 * word_of_nat (n mod 2 ^ 32) :: u64) = 2 ^ 32 * word_of_nat n"
proof -
  have "(2 ^ 32 * word_of_nat n :: u64)
      = 2 ^ 32 * word_of_nat (2 ^ 32 * (n div 2 ^ 32) + n mod 2 ^ 32)" by simp
  also have "\<dots> = 2 ^ 64 * word_of_nat (n div 2 ^ 32) + 2 ^ 32 * word_of_nat (n mod 2 ^ 32)"
    by (simp only: of_nat_add of_nat_mult of_nat_power of_nat_numeral) (simp add: algebra_simps)
  also have "(2 ^ 64 :: u64) = 0" by (simp only: exp_eq_zero_iff) simp
  finally show ?thesis by simp
qed

lemma up32_add: "up32 (x + y) = up32 x + up32 y"
proof -
  have "up32 (x + y) = 2 ^ 32 * word_of_nat ((unat x + unat y) mod 2 ^ 32)"
    by (simp only: ucast_u64_of_nat unat_word_ariths) simp
  then show ?thesis
    by (simp only: up32_of_nat_mod of_nat_add ucast_u64_of_nat distrib_left)
qed

lemma up32_mult: "up32 (x * y) = up32 x * ucast y"
proof -
  have "up32 (x * y) = 2 ^ 32 * word_of_nat ((unat x * unat y) mod 2 ^ 32)"
    by (simp only: ucast_u64_of_nat unat_word_ariths) simp
  then show ?thesis
    by (simp only: up32_of_nat_mod of_nat_mult ucast_u64_of_nat mult.assoc)
qed

lemma up32_0 [simp]: "up32 0 = 0"
  by simp

lemma up32_minus: "up32 (x - y) = up32 x - up32 y"
  using up32_add [of "x - y" y] by simp

lemma up32_uminus: "up32 (- x) = - up32 x"
  using up32_minus [of 0 x] by simp

lemmas up32_ring = up32_add up32_minus up32_uminus up32_mult

lemma unat_quad_L: "unat (quad_L q) = unat q mod 2 ^ 32"
  by (simp add: quad_L_def unsigned_ucast_eq take_bit_eq_mod)

lemma unat_ucast_u64 [simp]: "unat (ucast (x :: u32) :: u64) = unat x"
  using unat_quad_of [of 0 x] by (simp add: quad_of_sum)

lemma quad_L_product: "quad_L (ucast x * ucast y) = x * y"
proof -
  have "unat (quad_L (ucast x * ucast y)) = unat x * unat y mod 2 ^ 64 mod 2 ^ 32"
    by (simp only: unat_quad_L unat_word_ariths) simp
  also have "\<dots> = unat (x * y)"
    by (simp only: unat_word_ariths mod_mod_cancel le_imp_power_dvd) (simp add: mod_mod_cancel)
  finally show ?thesis by (simp only: word_unat_eq_iff)
qed

text \<open>Sum and difference with the carry found by a comparison, as the functions do it.\<close>

lemma ucast_add_carry:
  fixes x y :: u32
  shows "(ucast (x + y) :: u64) = ucast x + ucast y - (if x + y < y then 2 ^ 32 else 0)"
proof -
  have b: "unat x < 2 ^ 32" "unat y < 2 ^ 32" by (rule unat_u32_less)+
  show ?thesis
  proof (cases "unat x + unat y < 2 ^ 32")
    case True
    then have "unat (x + y) = unat x + unat y" by (simp add: unat_word_ariths)
    then show ?thesis by (simp add: ucast_u64_of_nat word_less_nat_alt del: of_nat_unat)
  next
    case False
    then have "unat (x + y) + 2 ^ 32 = unat x + unat y"
      using b by (simp add: unat_word_ariths mod_if) linarith
    moreover from this have "x + y < y" using b by (simp add: word_less_nat_alt)
    moreover have "(word_of_nat (unat (x + y) + 2 ^ 32) :: u64) = ucast (x + y) + 2 ^ 32"
      by simp
    ultimately show ?thesis by simp
  qed
qed

lemma quad_add_carry:
  "quad_of (h + (h' + (if l + l' < l' then 1 else 0))) (l + l') = quad_of h l + quad_of h' l'"
  by (simp add: quad_of_sum up32_ring ucast_add_carry)

lemma borrow_iff: "(l :: u32) - l' > l \<longleftrightarrow> l < l'"
  using unat_u32_less [of l'] by (simp add: word_less_nat_alt unat_sub_if') linarith

lemma quad_sub_borrow:
  "quad_of (h - (h' + (if l - l' > l then 1 else 0))) (l - l') = quad_of h l - quad_of h' l'"
  using quad_add_carry [of "h - (h' + (if l - l' > l then 1 else 0))" h' "l - l'" l']
  by (simp add: borrow_iff split: if_splits)

section \<open>Sum, difference, bitwise operations\<close>

definition adddi3 :: "u64 \<Rightarrow> u64 \<Rightarrow> u64" where
  "adddi3 a b =
     (let sum_L = quad_L a + quad_L b;
          sum_H = quad_H a + quad_H b + (if sum_L < quad_L b then 1 else 0)
      in quad_of sum_H sum_L)"

definition subdi3 :: "u64 \<Rightarrow> u64 \<Rightarrow> u64" where
  "subdi3 a b =
     (let diff_L = quad_L a - quad_L b;
          diff_H = quad_H a - quad_H b - (if diff_L > quad_L a then 1 else 0)
      in quad_of diff_H diff_L)"

definition negdi2 :: "u64 \<Rightarrow> u64" where
  "negdi2 a =
     (let res_L = - quad_L a;
          res_H = - quad_H a - (if res_L > 0 then 1 else 0)
      in quad_of res_H res_L)"

definition anddi3 :: "u64 \<Rightarrow> u64 \<Rightarrow> u64" where
  "anddi3 a b = quad_of (quad_H a AND quad_H b) (quad_L a AND quad_L b)"

definition iordi3 :: "u64 \<Rightarrow> u64 \<Rightarrow> u64" where
  "iordi3 a b = quad_of (quad_H a OR quad_H b) (quad_L a OR quad_L b)"

definition xordi3 :: "u64 \<Rightarrow> u64 \<Rightarrow> u64" where
  "xordi3 a b = quad_of (quad_H a XOR quad_H b) (quad_L a XOR quad_L b)"

definition one_cmpldi2 :: "u64 \<Rightarrow> u64" where
  "one_cmpldi2 a = quad_of (NOT (quad_H a)) (NOT (quad_L a))"

lemma adddi3_sum: "adddi3 a b = a + b"
  using quad_add_carry [of "quad_H a" "quad_H b" "quad_L a" "quad_L b"]
  by (simp add: adddi3_def Let_def add.assoc)

lemma subdi3_difference: "subdi3 a b = a - b"
  using quad_sub_borrow [of "quad_H a" "quad_H b" "quad_L a" "quad_L b"]
  by (simp add: subdi3_def Let_def diff_diff_eq)

lemma negdi2_negative: "negdi2 a = - a"
proof -
  have "negdi2 a = quad_of (0 - (quad_H a + (if 0 - quad_L a > 0 then 1 else 0))) (0 - quad_L a)"
    by (simp add: negdi2_def Let_def)
  also have "\<dots> = quad_of 0 0 - quad_of (quad_H a) (quad_L a)" by (rule quad_sub_borrow)
  finally show ?thesis by (simp add: quad_of_sum [of 0 0])
qed

lemma quad_bitwise:
  "anddi3 a b = a AND b" "iordi3 a b = a OR b" "xordi3 a b = a XOR b" "one_cmpldi2 a = NOT a"
  by (rule bit_word_eqI,
      auto simp: anddi3_def iordi3_def xordi3_def one_cmpldi2_def quad_of_def quad_H_def quad_L_def
        bit_simps)+

section \<open>Shifts\<close>

text \<open>
  A shift of a 32-bit operand by 32 or more is undefined in C: such a call has no value. The
  right shift of an \<open>int\<close> copies the sign bit, as the compilers of the target do.
\<close>

definition shl32 :: "u32 \<Rightarrow> u32 \<Rightarrow> u32 option" where
  "shl32 x n = (if n < 32 then Some (push_bit (unat n) x) else None)"

definition shr32 :: "u32 \<Rightarrow> u32 \<Rightarrow> u32 option" where
  "shr32 x n = (if n < 32 then Some (drop_bit (unat n) x) else None)"

definition sar32 :: "u32 \<Rightarrow> u32 \<Rightarrow> u32 option" where
  "sar32 x n = (if n < 32 then Some (signed_drop_bit (unat n) x) else None)"

definition ashldi3 :: "u64 \<Rightarrow> u32 \<Rightarrow> u64 option" where
  "ashldi3 a shift =
     (if shift = 0 then Some a
      else if shift \<ge> INT_BITS then
        do {
          h \<leftarrow> shl32 (quad_L a) (shift - INT_BITS);
          Some (quad_of h 0)
        }
      else
        do {
          h1 \<leftarrow> shl32 (quad_H a) shift;
          h2 \<leftarrow> shr32 (quad_L a) (INT_BITS - shift);
          l \<leftarrow> shl32 (quad_L a) shift;
          Some (quad_of (h1 OR h2) l)
        })"

definition lshrdi3 :: "u64 \<Rightarrow> u32 \<Rightarrow> u64 option" where
  "lshrdi3 a shift =
     (if shift = 0 then Some a
      else if shift \<ge> INT_BITS then
        do {
          l \<leftarrow> shr32 (quad_H a) (shift - INT_BITS);
          Some (quad_of 0 l)
        }
      else
        do {
          l1 \<leftarrow> shr32 (quad_L a) shift;
          l2 \<leftarrow> shl32 (quad_H a) (INT_BITS - shift);
          h \<leftarrow> shr32 (quad_H a) shift;
          Some (quad_of h (l1 OR l2))
        })"

definition ashrdi3 :: "u64 \<Rightarrow> u32 \<Rightarrow> u64 option" where
  "ashrdi3 a shift =
     (if shift = 0 then Some a
      else if shift \<ge> INT_BITS then
        do {
          s1 \<leftarrow> sar32 (quad_H a) (INT_BITS - 1);
          s \<leftarrow> sar32 s1 1;
          l \<leftarrow> sar32 (quad_H a) (shift - INT_BITS);
          Some (quad_of s l)
        }
      else
        do {
          l1 \<leftarrow> shr32 (quad_L a) shift;
          l2 \<leftarrow> shl32 (quad_H a) (INT_BITS - shift);
          h \<leftarrow> sar32 (quad_H a) shift;
          Some (quad_of h (l1 OR l2))
        })"

definition lshldi3 :: "u64 \<Rightarrow> u32 \<Rightarrow> u64 option" where
  "lshldi3 a shift =
     (if shift = 0 then Some a
      else if shift \<ge> INT_BITS then
        do {
          h \<leftarrow> shl32 (quad_L a) (shift - INT_BITS);
          Some (quad_of h 0)
        }
      else
        do {
          h1 \<leftarrow> shl32 (quad_H a) shift;
          h2 \<leftarrow> shr32 (quad_L a) (INT_BITS - shift);
          l \<leftarrow> shl32 (quad_L a) shift;
          Some (quad_of (h1 OR h2) l)
        })"

lemma shift_cases:
  fixes shift :: u32
  obtains (none) "shift = 0"
    | (low) n where "unat shift = n" "0 < n" "n < 32" "\<not> INT_BITS \<le> shift" "shift < 64"
      "unat (INT_BITS - shift) = 32 - n" "shift \<noteq> 0" "shift < 32" "INT_BITS - shift < 32"
    | (high) n where "unat shift = n" "32 \<le> n" "n < 64" "INT_BITS \<le> shift" "shift < 64"
      "unat (shift - INT_BITS) = n - 32" "shift \<noteq> 0" "shift - INT_BITS < 32"
    | (out) "shift \<noteq> 0" "INT_BITS \<le> shift" "\<not> shift - INT_BITS < 32" "\<not> shift < 64"
proof -
  have s: "unat (shift - 32) = unat shift - 32" if "32 \<le> unat shift"
    using that by (simp add: unat_sub_if')
  have s': "unat (32 - shift) = 32 - unat shift" if "unat shift < 32"
    using that by (simp add: unat_sub_if')
  have nz: "shift \<noteq> 0" if "0 < unat shift" using that by auto
  consider "unat shift = 0" | "0 < unat shift" "unat shift < 32"
    | "32 \<le> unat shift" "unat shift < 64" | "64 \<le> unat shift" by linarith
  then show thesis
  proof cases
    case 1
    then show ?thesis using none by (simp add: unat_eq_0)
  next
    case 2
    then show ?thesis using low [of "unat shift"] s' nz
      by (simp add: INT_BITS_def word_less_nat_alt word_le_nat_alt)
  next
    case 3
    then show ?thesis using high [of "unat shift"] s nz
      by (simp add: INT_BITS_def word_less_nat_alt word_le_nat_alt)
  next
    case 4
    then show ?thesis using out s nz
      by (simp add: INT_BITS_def word_less_nat_alt word_le_nat_alt)
  qed
qed

text \<open>The bits of a quad that is put together, lower and upper half.\<close>

lemma bit_quad:
  "i < 32 \<Longrightarrow> bit (quad_of h l) i \<longleftrightarrow> bit l i"
  "bit (quad_of h l) (32 + i) \<longleftrightarrow> i < 32 \<and> bit h i"
  "bit (quad_H a) i \<longleftrightarrow> i < 32 \<and> bit a (32 + i)"
  "bit (quad_L a) i \<longleftrightarrow> i < 32 \<and> bit a i"
  by (auto simp: quad_of_def quad_H_def quad_L_def bit_simps dest: bit_imp_le_length)

lemma quad_eq_bitsI:
  assumes "\<And>i. i < 32 \<Longrightarrow> bit l i \<longleftrightarrow> bit q i"
    and "\<And>i. i < 32 \<Longrightarrow> bit h i \<longleftrightarrow> bit q (32 + i)"
  shows "quad_of h l = q"
proof (rule bit_word_eqI)
  fix i assume "i < LENGTH(64)"
  show "bit (quad_of h l) i = bit q i"
  proof (cases "i < 32")
    case True
    then show ?thesis using assms(1) by (simp add: bit_quad)
  next
    case False
    then obtain k where "i = 32 + k" using le_Suc_ex [of 32 i] by auto
    then show ?thesis using assms(2) \<open>i < LENGTH(64)\<close> by (simp add: bit_quad(2))
  qed
qed

lemma ashldi3_push: "ashldi3 a shift = (if shift < 64 then Some (push_bit (unat shift) a) else None)"
proof (cases shift rule: shift_cases)
  case (low n)
  have "quad_of (push_bit n (quad_H a) OR drop_bit (32 - n) (quad_L a)) (push_bit n (quad_L a))
      = push_bit n a"
    by (rule quad_eq_bitsI) (use low(2,3) in \<open>auto simp: bit_quad(3,4) bit_simps\<close>)
  then show ?thesis using low by (simp add: ashldi3_def shl32_def shr32_def)
next
  case (high n)
  have "quad_of (push_bit (n - 32) (quad_L a)) 0 = push_bit n a"
    by (rule quad_eq_bitsI) (use high(2,3) in \<open>auto simp: bit_quad(3,4) bit_simps ac_simps\<close>)
  then show ?thesis using high by (simp add: ashldi3_def shl32_def)
qed (simp_all add: ashldi3_def shl32_def)

lemma lshldi3_push: "lshldi3 a shift = (if shift < 64 then Some (push_bit (unat shift) a) else None)"
  using ashldi3_push by (simp add: lshldi3_def ashldi3_def)

lemma lshrdi3_drop: "lshrdi3 a shift = (if shift < 64 then Some (drop_bit (unat shift) a) else None)"
proof (cases shift rule: shift_cases)
  case (low n)
  have "quad_of (drop_bit n (quad_H a)) (drop_bit n (quad_L a) OR push_bit (32 - n) (quad_H a))
      = drop_bit n a"
    by (rule quad_eq_bitsI)
      (use low(2,3) in \<open>auto simp: bit_quad(3,4) bit_simps ac_simps dest: bit_imp_le_length\<close>)
  then show ?thesis using low by (simp add: lshrdi3_def shl32_def shr32_def)
next
  case (high n)
  have "quad_of 0 (drop_bit (n - 32) (quad_H a)) = drop_bit n a"
    by (rule quad_eq_bitsI)
      (use high(2,3) in \<open>auto simp: bit_quad(3,4) bit_simps dest: bit_imp_le_length\<close>)
  then show ?thesis using high by (simp add: lshrdi3_def shr32_def)
qed (simp_all add: lshrdi3_def shr32_def)

lemma bit_sar:
  fixes x :: u32 and y :: u64
  shows "i < 32 \<Longrightarrow> bit (signed_drop_bit n x) i = bit x (if i + n < 32 then i + n else 31)"
    and "i < 64 \<Longrightarrow> bit (signed_drop_bit n y) i = bit y (if i + n < 64 then i + n else 63)"
  by (auto simp: bit_simps ac_simps eval_nat_numeral)

lemma bit_push_bit_iff_u32: "bit (push_bit n (x :: u32)) i \<longleftrightarrow> n \<le> i \<and> i < 32 \<and> bit x (i - n)"
  by (auto simp: bit_simps)

lemma ashrdi3_drop:
  "ashrdi3 a shift = (if shift < 64 then Some (signed_drop_bit (unat shift) a) else None)"
proof (cases shift rule: shift_cases)
  case (low n)
  have "quad_of (signed_drop_bit n (quad_H a)) (drop_bit n (quad_L a) OR push_bit (32 - n) (quad_H a))
      = signed_drop_bit n a"
    by (rule quad_eq_bitsI)
      (use low(2,3) in \<open>auto simp: bit_quad(3,4) bit_sar bit_or_iff bit_push_bit_iff_u32 bit_drop_bit_eq ac_simps dest: bit_imp_le_length\<close>)
  then show ?thesis using low by (simp add: ashrdi3_def shl32_def shr32_def sar32_def)
next
  case (high n)
  have "quad_of (signed_drop_bit 1 (signed_drop_bit 31 (quad_H a)))
      (signed_drop_bit (n - 32) (quad_H a)) = signed_drop_bit n a"
    by (rule quad_eq_bitsI)
      (use high(2,3) in \<open>auto simp: bit_quad(3,4) bit_sar bit_or_iff bit_push_bit_iff_u32 bit_drop_bit_eq dest: bit_imp_le_length\<close>)
  then show ?thesis using high by (simp add: ashrdi3_def sar32_def INT_BITS_def)
qed (simp_all add: ashrdi3_def sar32_def)

section \<open>Comparisons\<close>

definition cmpdi2 :: "u64 \<Rightarrow> u64 \<Rightarrow> int" where
  "cmpdi2 a b =
     (if quad_H a <s quad_H b then 0 else if quad_H b <s quad_H a then 2
      else if quad_L a < quad_L b then 0 else if quad_L a > quad_L b then 2 else 1)"

definition ucmpdi2 :: "u64 \<Rightarrow> u64 \<Rightarrow> int" where
  "ucmpdi2 a b =
     (if quad_H a < quad_H b then 0 else if quad_H a > quad_H b then 2
      else if quad_L a < quad_L b then 0 else if quad_L a > quad_L b then 2 else 1)"

lemma sint_uint_sign:
  fixes x :: u32 and y :: u64
  shows "sint x = uint x - 2 ^ 32 * of_bool (bit x 31)"
    and "sint y = uint y - 2 ^ 64 * of_bool (bit y 63)"
proof -
  have "sint x = signed_take_bit 31 (uint x)" "sint y = signed_take_bit 63 (uint y)"
    by (simp_all add: sint_uint)
  moreover have "take_bit (Suc 31) (uint x) = uint x" "take_bit (Suc 63) (uint y) = uint y"
    using take_bit_int_eq_self_iff [of 32 "uint x"] take_bit_int_eq_self_iff [of 64 "uint y"]
      uint_bounded [of x] uint_bounded [of y]
    by simp_all
  ultimately show "sint x = uint x - 2 ^ 32 * of_bool (bit x 31)"
    "sint y = uint y - 2 ^ 64 * of_bool (bit y 63)"
    by (simp_all add: signed_take_bit_eq_take_bit_minus bit_uint_iff)
qed

lemma sint_quad: "sint q = sint (quad_H q) * 2 ^ 32 + int (unat (quad_L q))"
proof -
  have "bit (quad_H q) 31 = bit q 63" by (simp add: bit_quad(3))
  moreover have "uint q = uint (quad_H q) * 2 ^ 32 + int (unat (quad_L q))"
    using arg_cong [OF unat_quad [of q], of int] by simp
  ultimately show ?thesis
    by (simp add: sint_uint_sign)
qed

lemma lex_compare:
  fixes h h' :: int and l l' :: nat
  assumes "l < 2 ^ 32" "l' < 2 ^ 32"
  shows "h * 2 ^ 32 + int l < h' * 2 ^ 32 + int l' \<longleftrightarrow> h < h' \<or> h = h' \<and> l < l'"
  using assms by auto

lemma cmpdi2_compares:
  "cmpdi2 a b = (if sint a < sint b then 0 else if sint b < sint a then 2 else 1)"
  unfolding cmpdi2_def sint_quad lex_compare [OF unat_u32_less unat_u32_less]
  by (auto simp: word_sless_alt word_less_nat_alt)

lemma ucmpdi2_compares:
  "ucmpdi2 a b = (if a < b then 0 else if b < a then 2 else 1)"
proof -
  have "a < b \<longleftrightarrow> quad_H a < quad_H b \<or> quad_H a = quad_H b \<and> quad_L a < quad_L b" for a b
    using unat_u32_less [of "quad_L a"] unat_u32_less [of "quad_L b"]
    by (auto simp: word_less_nat_alt unat_quad [of a] unat_quad [of b] word_unat_eq_iff)
  then show ?thesis by (auto simp: ucmpdi2_def)
qed

section \<open>Multiplication\<close>

definition lmulq :: "u32 \<Rightarrow> u32 \<Rightarrow> u64" where
  "lmulq u v =
     (let u1 = HHALF u; u0 = LHALF u; v1 = HHALF v; v0 = LHALF v;
          low = u0 * v0
      in
      if u1 = 0 \<and> v1 = 0 then ucast low
      else
        let (udiff, neg) = (if u1 \<ge> u0 then (u1 - u0, False) else (u0 - u1, True));
            (vdiff, neg) = (if v0 \<ge> v1 then (v0 - v1, neg) else (v1 - v0, \<not> neg));
            mid = udiff * vdiff;
            high = u1 * v1;
            prodh = high + HHALF high;
            prodl = LHUP high;
            (prodh, prodl) =
              (if neg then
                 (let was = prodl; prodl = prodl - LHUP mid
                  in (prodh - (HHALF mid + (if prodl > was then 1 else 0)), prodl))
               else
                 (let was = prodl; prodl = prodl + LHUP mid
                  in (prodh + (HHALF mid + (if prodl < was then 1 else 0)), prodl)));
            was = prodl;
            prodl = prodl + LHUP low;
            prodh = prodh + (HHALF low + (if prodl < was then 1 else 0));
            prodl = prodl + low;
            prodh = (if prodl < low then prodh + 1 else prodh)
        in quad_of prodh prodl)"

text \<open>\<open>-a\<close> of a signed quad wraps, by the two's complement assumption of \<open>quad.h\<close>.\<close>

definition muldi3 :: "u64 \<Rightarrow> u64 \<Rightarrow> u64" where
  "muldi3 a b =
     (let (u, negall) = (if \<not> a <s 0 then (a, False) else (- a, True));
          (v, negall) = (if \<not> b <s 0 then (b, negall) else (- b, \<not> negall));
          u1 = quad_H u; u0 = quad_L u; v1 = quad_H v; v0 = quad_L v;
          prod =
            (if u1 = 0 \<and> v1 = 0 then lmulq u0 v0
             else
               let low = lmulq u0 v0;
                   (negmid, udiff) = (if u1 \<ge> u0 then (False, u1 - u0) else (True, u0 - u1));
                   (negmid, vdiff) = (if v0 \<ge> v1 then (negmid, v0 - v1) else (\<not> negmid, v1 - v0));
                   mid = udiff * vdiff;
                   high = u1 * v1
               in quad_of (high + (if negmid then - mid else mid) + quad_L low + quad_H low)
                    (quad_L low))
      in if negall then - prod else prod)"

lemma LHALF_take: "LHALF x = take_bit 16 x"
  by (simp add: LHALF_def take_bit_eq_mask mask_eq_exp_minus_1)

lemma unat_LHALF: "unat (LHALF x) = unat x mod 2 ^ 16"
  unfolding LHALF_take unsigned_take_bit_eq by (simp add: take_bit_eq_mod)

lemma unat_HHALF: "unat (HHALF x) = unat x div 2 ^ 16"
  unfolding HHALF_def unat_drop_bit_eq by (simp add: drop_bit_eq_div)

lemma halves_u64:
  "(ucast x :: u64) = 2 ^ 16 * ucast (HHALF x) + ucast (LHALF x)"
  "quad_of (HHALF x) (LHUP x) = 2 ^ 16 * ucast x"
  "unat (HHALF x) < 2 ^ 16" "unat (LHALF x) < 2 ^ 16"
proof -
  have "push_bit 16 (ucast (HHALF x) :: u64) OR ucast (LHALF x)
      = push_bit 16 (ucast (HHALF x)) + ucast (LHALF x)"
    by (rule disjunctive_add [symmetric]) (auto simp: LHALF_take bit_simps)
  moreover have "push_bit 16 (ucast (HHALF x) :: u64) OR ucast (LHALF x) = ucast x"
    by (rule bit_word_eqI)
      (auto simp: HHALF_def LHALF_take bit_simps dest: bit_imp_le_length)
  ultimately show "(ucast x :: u64) = 2 ^ 16 * ucast (HHALF x) + ucast (LHALF x)"
    by (simp add: push_bit_eq_mult mult.commute)
  have "quad_of (HHALF x) (LHUP x) = push_bit 16 (ucast x)"
    by (rule quad_eq_bitsI) (auto simp: HHALF_def LHUP_def bit_simps dest: bit_imp_le_length)
  then show "quad_of (HHALF x) (LHUP x) = 2 ^ 16 * ucast x"
    by (simp add: push_bit_eq_mult mult.commute)
  show "unat (HHALF x) < 2 ^ 16"
    using unat_u32_less [of x] by (simp add: unat_HHALF)
  show "unat (LHALF x) < 2 ^ 16"
    by (simp add: unat_LHALF)
qed

text \<open>Products and differences of 16-bit halves are exact in 32 bits.\<close>

lemma ucast_product:
  fixes x y :: u32
  assumes "unat x < 2 ^ 16" "unat y < 2 ^ 16"
  shows "(ucast (x * y) :: u64) = ucast x * ucast y"
proof -
  have "unat x * unat y \<le> (2 ^ 16 - 1) * (2 ^ 16 - 1)"
    using assms by (intro mult_le_mono) auto
  then have "unat (x * y) = unat x * unat y" by (simp add: unat_word_ariths)
  then show ?thesis unfolding ucast_u64_of_nat by (simp only: of_nat_mult)
qed

lemma ucast_diff:
  fixes x y :: u32
  assumes "y \<le> x"
  shows "(ucast (x - y) :: u64) = ucast x - ucast y"
proof -
  have "unat (x - y) + unat y = unat x"
    using assms by (simp add: unat_sub word_le_nat_alt)
  from arg_cong [OF this, of "word_of_nat :: nat \<Rightarrow> u64"] show ?thesis
    by (simp add: eq_diff_eq)
qed

lemma quad_add_carry':
  "quad_of (h + (h' + (if l + l' < l then 1 else 0))) (l + l') = quad_of h l + quad_of h' l'"
  using quad_add_carry [of h' h l' l] by (simp add: ac_simps)

lemma quad_add_shifted:
  "quad_of (h + (HHALF x + (if l + LHUP x < l then 1 else 0))) (l + LHUP x)
     = quad_of h l + 2 ^ 16 * ucast x"
  by (simp only: quad_add_carry' halves_u64(2))

lemma quad_sub_shifted:
  "quad_of (h - (HHALF x + (if l - LHUP x > l then 1 else 0))) (l - LHUP x)
     = quad_of h l - 2 ^ 16 * ucast x"
  by (simp only: quad_sub_borrow halves_u64(2))

lemma quad_add_low:
  "quad_of (if l + x < x then h + 1 else h) (l + x) = quad_of h l + ucast x"
  using quad_add_carry [of h 0 l x] by (simp add: quad_of_sum [of 0] split: if_splits)

lemma lmulq_product: "lmulq u v = ucast u * ucast v"
proof -
  let ?u1 = "HHALF u" and ?u0 = "LHALF u" and ?v1 = "HHALF v" and ?v0 = "LHALF v"
  define s where "s = (?u0 \<le> ?u1)"
  define t where "t = (?v1 \<le> ?v0)"
  define ud where "ud = (if s then ?u1 - ?u0 else ?u0 - ?u1)"
  define vd where "vd = (if t then ?v0 - ?v1 else ?v1 - ?v0)"
  define mid where "mid = ud * vd"
  define high where "high = ?u1 * ?v1"
  define low where "low = ?u0 * ?v0"
  note bounds = halves_u64(3,4) [of u] halves_u64(3,4) [of v]
  have ud: "(ucast ud :: u64) = (if s then ucast ?u1 - ucast ?u0 else ucast ?u0 - ucast ?u1)"
    and vd: "(ucast vd :: u64) = (if t then ucast ?v0 - ucast ?v1 else ucast ?v1 - ucast ?v0)"
    by (simp_all add: ud_def vd_def s_def t_def ucast_diff)
  have "unat ud < 2 ^ 16" "unat vd < 2 ^ 16"
    using bounds by (auto simp: ud_def vd_def s_def t_def unat_sub word_le_nat_alt)
  then have mid: "(ucast mid :: u64) = ucast ud * ucast vd"
    unfolding mid_def by (rule ucast_product)
  have high: "(ucast high :: u64) = ucast ?u1 * ucast ?v1"
    and low: "(ucast low :: u64) = ucast ?u0 * ucast ?v0"
    unfolding high_def low_def using bounds by (simp_all add: ucast_product)
  show ?thesis
  proof (cases "?u1 = 0 \<and> ?v1 = 0")
    case True
    then have "lmulq u v = ucast low" by (simp add: lmulq_def low_def Let_def)
    with low True show ?thesis by (simp add: halves_u64(1) [of u] halves_u64(1) [of v])
  next
    case False
    define prod where "prod = (if s = t
        then (high + HHALF high + (HHALF mid + (if LHUP high + LHUP mid < LHUP high then 1 else 0)),
              LHUP high + LHUP mid)
        else (high + HHALF high - (HHALF mid + (if LHUP high - LHUP mid > LHUP high then 1 else 0)),
              LHUP high - LHUP mid))"
    define ph where "ph = fst prod + (HHALF low + (if snd prod + LHUP low < snd prod then 1 else 0))"
    define pl where "pl = snd prod + LHUP low"
    have "lmulq u v = quad_of (if pl + low < low then ph + 1 else ph) (pl + low)"
      using False unfolding lmulq_def Let_def ph_def pl_def prod_def high_def low_def mid_def
        ud_def vd_def s_def t_def
      by (cases "?u0 \<le> ?u1"; cases "?v1 \<le> ?v0") 
        (simp_all only: if_True if_False prod.case fst_conv snd_conv simp_thms)
    also have "\<dots> = quad_of (fst prod) (snd prod) + 2 ^ 16 * ucast low + ucast low"
      unfolding quad_add_low ph_def pl_def quad_add_shifted ..
    also have "quad_of (fst prod) (snd prod) = up32 high + 2 ^ 16 * ucast high
        + (if s = t then 2 ^ 16 * ucast mid else - (2 ^ 16 * ucast mid))"
    proof -
      have "quad_of (high + HHALF high) (LHUP high) = up32 high + 2 ^ 16 * ucast high"
        unfolding halves_u64(2) [of high, symmetric] quad_of_sum up32_add by (simp only: add.assoc)
      then show ?thesis
        by (simp add: prod_def quad_add_shifted quad_sub_shifted)
    qed
    finally show ?thesis
      unfolding high low mid ud vd halves_u64(1) [of u] halves_u64(1) [of v]
      by (cases s; cases t) (simp_all add: algebra_simps)
  qed
qed

text \<open>The product of the absolute values, with the factors of \<open>2 ^ 64\<close> gone.\<close>

lemma quad_karatsuba:
  fixes u v :: u64
  defines "u1 \<equiv> quad_H u" and "u0 \<equiv> quad_L u" and "v1 \<equiv> quad_H v" and "v0 \<equiv> quad_L v"
  assumes "low = ucast u0 * ucast v0"
  shows "quad_of (u1 * v1 + (u1 - u0) * (v0 - v1) + quad_L low + quad_H low) (quad_L low) = u * v"
proof -
  have z: "(2 ^ 32 * 2 ^ 32 :: u64) = 0"
    by (simp only: power_add [symmetric] exp_eq_zero_iff) simp
  have "quad_of (u1 * v1 + (u1 - u0) * (v0 - v1) + quad_L low + quad_H low) (quad_L low)
      = up32 (u1 * v1 + (u1 - u0) * (v0 - v1) + quad_L low) + low"
  proof -
    have "quad_of (x + quad_H low) (quad_L low) = up32 x + low" for x
      unfolding quad_of_sum up32_add add.assoc by (simp only: quad_split [of low, symmetric])
    then show ?thesis .
  qed
  also have "\<dots> = up32 (u1 * v0 + v1 * u0) + low"
  proof -
    have "u1 * v1 + (u1 - u0) * (v0 - v1) + quad_L low = u1 * v0 + v1 * u0"
      using assms(5) by (simp add: quad_L_product algebra_simps)
    then show ?thesis by (simp only:)
  qed
  also have "\<dots> = (up32 u1 + ucast u0) * (up32 v1 + ucast v0)"
  proof -
    have "up32 u1 * up32 v1 = (2 ^ 32 * 2 ^ 32) * (ucast u1 * ucast v1)" by (simp add: algebra_simps)
    then have "up32 u1 * up32 v1 = 0" unfolding z by simp
    then show ?thesis unfolding assms(5) up32_add up32_mult by (simp add: algebra_simps)
  qed
  finally show ?thesis unfolding u1_def u0_def v1_def v0_def quad_split [symmetric] .
qed

lemma muldi3_product: "muldi3 a b = a * b"
proof -
  define u where "u = (if \<not> a <s 0 then a else - a)"
  define v where "v = (if \<not> b <s 0 then b else - b)"
  let ?u1 = "quad_H u" and ?u0 = "quad_L u" and ?v1 = "quad_H v" and ?v0 = "quad_L v"
  define prod where "prod = (if ?u1 = 0 \<and> ?v1 = 0 then lmulq ?u0 ?v0
      else quad_of (?u1 * ?v1 + (?u1 - ?u0) * (?v0 - ?v1) + quad_L (lmulq ?u0 ?v0)
             + quad_H (lmulq ?u0 ?v0)) (quad_L (lmulq ?u0 ?v0)))"
  have "muldi3 a b = (if (a <s 0) = (b <s 0) then prod else - prod)"
    unfolding muldi3_def Let_def u_def v_def prod_def
    by (cases "a <s 0"; cases "b <s 0") (auto simp: algebra_simps)
  moreover have "prod = u * v"
  proof (cases "?u1 = 0 \<and> ?v1 = 0")
    case True
    then show ?thesis
      using quad_split [of u] quad_split [of v] by (simp add: prod_def lmulq_product)
  next
    case False
    then show ?thesis unfolding prod_def by (simp only: if_False quad_karatsuba lmulq_product)
  qed
  ultimately show ?thesis by (simp add: u_def v_def split: if_splits)
qed

text \<open>
  The quad functions are the operations of 64-bit arithmetic: sum, difference, negative and
  product modulo \<open>2 ^ 64\<close>, the bitwise operations, the left shift, the logical and the
  arithmetic right shift for every count below 64 (for a larger one the C shift inside is
  undefined), and the signed and unsigned three-way comparison with 0, 1 and 2.
\<close>

theorem quad_arithmetic:
  "adddi3 a b = a + b \<and> subdi3 a b = a - b \<and> negdi2 a = - a \<and> muldi3 a b = a * b \<and>
   anddi3 a b = a AND b \<and> iordi3 a b = a OR b \<and> xordi3 a b = a XOR b \<and> one_cmpldi2 a = NOT a \<and>
   ashldi3 a n = (if n < 64 then Some (push_bit (unat n) a) else None) \<and>
   lshldi3 a n = ashldi3 a n \<and>
   lshrdi3 a n = (if n < 64 then Some (drop_bit (unat n) a) else None) \<and>
   ashrdi3 a n = (if n < 64 then Some (signed_drop_bit (unat n) a) else None) \<and>
   cmpdi2 a b = (if sint a < sint b then 0 else if sint b < sint a then 2 else 1) \<and>
   ucmpdi2 a b = (if a < b then 0 else if b < a then 2 else 1)"
  by (simp only: adddi3_sum subdi3_difference negdi2_negative muldi3_product quad_bitwise
      ashldi3_push lshldi3_push lshrdi3_drop ashrdi3_drop cmpdi2_compares ucmpdi2_compares simp_thms)

end
