(* ===== verification/Quad_Divide.thy ===== *)
theory Quad_Divide
  imports Quad "HOL-Library.Signed_Division"
begin

text \<open>
  Division of 64-bit numbers on a 32-bit machine (CLibrary/quad/qdivrem.c): the multiprecision
  division of Knuth in base \<open>2 ^ 16\<close> on arrays of five digits, with the pointers \<open>u\<close>, \<open>v\<close> and \<open>q\<close>
  into them as offsets. The result is proved to be the quotient and the remainder; the signed
  divisions of divdi3.c and moddi3.c truncate towards zero.
\<close>

section \<open>The code\<close>

type_synonym digits = "u16 list"

definition COMBINE :: "u32 \<Rightarrow> u32 \<Rightarrow> u32" where
  "COMBINE a b = push_bit 16 a OR b"

text \<open>A digit is promoted before it is used; a value is cut to 16 bits when it is stored.\<close>

abbreviation dg :: "digits \<Rightarrow> nat \<Rightarrow> u32" where
  "dg a i \<equiv> ucast (a ! i)"

fun shl :: "nat \<Rightarrow> nat \<Rightarrow> nat \<Rightarrow> digits \<Rightarrow> digits" where
  "shl p 0 sh a = a[p := ucast (LHALF (push_bit sh (dg a p)))]"
| "shl p (Suc len) sh a =
     shl (Suc p) len sh
       (a[p := ucast (LHALF (push_bit sh (dg a p)) OR drop_bit (16 - sh) (dg a (Suc p)))])"

text \<open>
  The loop that finds the first digit of the divisor: the number of digits and the offset, or
  \<open>Inl\<close> of the offset when only one digit is left and the simple division takes over.
\<close>

fun skip_v :: "digits \<Rightarrow> nat \<Rightarrow> nat \<Rightarrow> nat + nat \<times> nat" where
  "skip_v v vo n =
     (if v ! (vo + 1) \<noteq> 0 then Inr (n, vo)
      else if n - 1 \<le> 1 then Inl vo
      else skip_v v (vo + 1) (n - 1))"

text \<open>
  The same for the dividend, where \<open>m\<close> counts down. A negative \<open>m\<close> would move \<open>q\<close> past its array:
  there is no value then.
\<close>

fun skip_u :: "digits \<Rightarrow> nat \<Rightarrow> nat \<Rightarrow> (nat \<times> nat) option" where
  "skip_u u uo m =
     (if u ! (uo + 1) \<noteq> 0 then Some (m, uo)
      else if m = 0 then None
      else skip_u u (uo + 1) (m - 1))"

partial_function (option) norm_loop :: "u32 \<Rightarrow> nat \<Rightarrow> nat option" where
  "norm_loop t d = (if t < 0x8000 then norm_loop (push_bit 1 t) (d + 1) else Some d)"

text \<open>D3: the trial quotient. The jump to \<open>qhat_too_big\<close> enters the loop at its body.\<close>

function qhat_loop :: "u32 \<Rightarrow> u32 \<Rightarrow> u32 \<Rightarrow> u32 \<Rightarrow> u32 \<Rightarrow> u32" where
  "qhat_loop v1 v2 uj2 qhat rhat =
     (if v2 * qhat > COMBINE rhat uj2
      then let qhat = qhat - 1; rhat = rhat + v1
           in if rhat \<ge> 0x10000 then qhat else qhat_loop v1 v2 uj2 qhat rhat
      else qhat)"
  by pat_completeness auto
termination
proof (relation "measure (\<lambda>(v1, v2, uj2, qhat, rhat). unat qhat)")
  fix v1 v2 uj2 qhat rhat x xa :: u32
  assume "v2 * qhat > COMBINE rhat uj2" "x = qhat - 1"
  then have "qhat \<noteq> 0" by auto
  then show "((v1, v2, uj2, x, xa), (v1, v2, uj2, qhat, rhat))
      \<in> measure (\<lambda>(v1, v2, uj2, qhat, rhat). unat qhat)"
    using \<open>x = qhat - 1\<close> by simp
qed simp

declare qhat_loop.simps [simp del] skip_v.simps [simp del] skip_u.simps [simp del]

definition trial_qhat :: "u32 \<Rightarrow> u32 \<Rightarrow> u32 \<Rightarrow> u32 \<Rightarrow> u32 \<Rightarrow> u32" where
  "trial_qhat v1 v2 uj0 uj1 uj2 =
     (if uj0 = v1 then
        let qhat = 0x10000 - 1; rhat = uj1 + v1
        in if rhat \<ge> 0x10000 then qhat else qhat_loop v1 v2 uj2 qhat rhat
      else
        let nn = COMBINE uj0 uj1
        in qhat_loop v1 v2 uj2 (nn div v1) (nn mod v1))"

text \<open>D4, the multiplication and subtraction, and D6, adding back; \<open>p\<close> is the position of \<open>u[j]\<close>.\<close>

fun mul_sub :: "digits \<Rightarrow> nat \<Rightarrow> u32 \<Rightarrow> nat \<Rightarrow> nat \<Rightarrow> u32 \<Rightarrow> digits \<Rightarrow> u32 \<times> digits" where
  "mul_sub v vo qhat p 0 t u = (t, u)"
| "mul_sub v vo qhat p (Suc i) t u =
     (let t = dg u (p + Suc i) - dg v (vo + Suc i) * qhat - t
      in mul_sub v vo qhat p i ((0x10000 - HHALF t) AND 0xFFFF)
           (u[p + Suc i := ucast (LHALF t)]))"

fun add_back :: "digits \<Rightarrow> nat \<Rightarrow> nat \<Rightarrow> nat \<Rightarrow> u32 \<Rightarrow> digits \<Rightarrow> u32 \<times> digits" where
  "add_back v vo p 0 t u = (t, u)"
| "add_back v vo p (Suc i) t u =
     (let t = t + (dg u (p + Suc i) + dg v (vo + Suc i))
      in add_back v vo p i (HHALF t) (u[p + Suc i := ucast (LHALF t)]))"

definition div_step :: "digits \<Rightarrow> nat \<Rightarrow> nat \<Rightarrow> nat \<Rightarrow> digits \<Rightarrow> u32 \<times> digits" where
  "div_step v vo n p u =
     (let qhat = trial_qhat (dg v (vo + 1)) (dg v (vo + 2)) (dg u p) (dg u (p + 1)) (dg u (p + 2));
          (t, u) = mul_sub v vo qhat p n 0 u;
          t = dg u p - t;
          u = u[p := ucast (LHALF t)]
      in if HHALF t \<noteq> 0 then
           let qhat = qhat - 1;
               (t, u) = add_back v vo p n 0 u;
               u = u[p := ucast (LHALF (dg u p + t))]
           in (qhat, u)
         else (qhat, u))"

text \<open>The loop over \<open>j\<close>; \<open>k\<close> is the number of rounds after this one.\<close>

fun div_loop :: "digits \<Rightarrow> nat \<Rightarrow> nat \<Rightarrow> nat \<Rightarrow> nat \<Rightarrow> nat \<Rightarrow> nat \<Rightarrow> digits \<Rightarrow> digits \<Rightarrow> digits \<times> digits" where
  "div_loop v vo n uo qo 0 j u q =
     (let (qhat, u) = div_step v vo n (uo + j) u in (u, q[qo + j := ucast qhat]))"
| "div_loop v vo n uo qo (Suc k) j u q =
     (let (qhat, u) = div_step v vo n (uo + j) u
      in div_loop v vo n uo qo k (j + 1) u (q[qo + j := ucast qhat]))"

fun unshift :: "nat \<Rightarrow> nat \<Rightarrow> nat \<Rightarrow> digits \<Rightarrow> digits" where
  "unshift p 0 d u = u[p := 0]"
| "unshift p (Suc k) d u =
     unshift p k d
       (u[p + Suc k := ucast (drop_bit d (dg u (p + Suc k)) OR LHALF (push_bit (16 - d) (dg u (p + k))))])"

definition digit_list :: "u16 \<Rightarrow> u64 \<Rightarrow> digits" where
  "digit_list x q = [x, ucast (HHALF (quad_H q)), ucast (LHALF (quad_H q)),
     ucast (HHALF (quad_L q)), ucast (LHALF (quad_L q))]"

definition digits_quad :: "digits \<Rightarrow> u64" where
  "digits_quad a = quad_of (COMBINE (dg a 1) (dg a 2)) (COMBINE (dg a 3) (dg a 4))"

definition divide_one :: "digits \<Rightarrow> u32 \<Rightarrow> u64 \<times> u64" where
  "divide_one u t =
     (let q1 = ucast (dg u 1 div t) :: u16;
          rbj = COMBINE (dg u 1 mod t) (dg u 2);
          q2 = ucast (rbj div t) :: u16;
          rbj = COMBINE (rbj mod t) (dg u 3);
          q3 = ucast (rbj div t) :: u16;
          rbj = COMBINE (rbj mod t) (dg u 4);
          q4 = ucast (rbj div t) :: u16
      in (quad_of (COMBINE (ucast q1) (ucast q2)) (COMBINE (ucast q3) (ucast q4)),
          ucast (rbj mod t)))"

text \<open>
  The result is the quotient and what is stored through \<open>arq\<close> when it is not null. The arrays
  \<open>vspace\<close> and \<open>qspace\<close> start uninitialised: \<open>junk\<close> stands for what they hold. \<open>1 / zero\<close> is the
  divide error of the processor.
\<close>

definition qdivrem :: "u16 \<Rightarrow> u64 \<Rightarrow> u64 \<Rightarrow> (u64 \<times> u64) res option" where
  "qdivrem junk uq vq =
     (if vq = 0 then Some (Inl (PANIC ''divide error''))
      else if uq < vq then Some (Inr (0, uq))
      else
        let u = digit_list 0 uq; v = digit_list junk vq in
        case skip_v v 0 4 of
          Inl vo \<Rightarrow> Some (Inr (divide_one u (dg v (vo + 2))))
        | Inr (n, vo) \<Rightarrow>
            do {
              (m, uo) \<leftarrow> skip_u u 0 (4 - n);
              let q = replicate (4 - m) 0 @ replicate (Suc m) junk;
              d \<leftarrow> norm_loop (dg v (vo + 1)) 0;
              let u = (if d > 0 then shl uo (m + n) d u else u);
              let v = (if d > 0 then shl (vo + 1) (n - 1) d v else v);
              let (u, q) = div_loop v vo n uo (4 - m) m 0 u q;
              let u = (if d > 0 then unshift (uo + m) n d u else u);
              Some (Inr (digits_quad q, digits_quad u))
            })"

section \<open>Values of digit ranges\<close>

text \<open>The number whose digits are \<open>a[p]\<close> to \<open>a[p+k-1]\<close>, most significant first.\<close>

fun dval :: "digits \<Rightarrow> nat \<Rightarrow> nat \<Rightarrow> nat" where
  "dval a p 0 = 0"
| "dval a p (Suc k) = dval a p k * 2 ^ 16 + unat (a ! (p + k))"

lemma unat_u16_less: "unat (x :: u16) < 2 ^ 16"
  using unsigned_less [of x] by simp

lemma dval_front: "dval a p (Suc k) = unat (a ! p) * (2 ^ 16) ^ k + dval a (Suc p) k"
  by (induction k) (simp_all add: algebra_simps)

lemma dval_less: "dval a p k < (2 ^ 16) ^ k"
proof (induction k)
  case (Suc k)
  have "dval a p k * 2 ^ 16 + unat (a ! (p + k)) < (dval a p k + 1) * 2 ^ 16"
    using unat_u16_less [of "a ! (p + k)"] by simp
  also have "\<dots> \<le> (2 ^ 16) ^ k * 2 ^ 16" using Suc by (intro mult_le_mono1) simp
  finally show ?case by (simp add: mult.commute)
qed simp

lemma dval_cong: "(\<And>i. p \<le> i \<Longrightarrow> i < p + k \<Longrightarrow> a ! i = b ! i) \<Longrightarrow> dval a p k = dval b p k"
  by (induction k) simp_all

lemma dval_update [simp]: "i < p \<or> p + k \<le> i \<Longrightarrow> dval (a[i := x]) p k = dval a p k"
  by (rule dval_cong) auto

lemma dval_append: "dval a p (k + l) = dval a p k * (2 ^ 16) ^ l + dval a (p + k) l"
  by (induction l) (simp_all add: algebra_simps)

lemma dval_zeros: "(\<And>i. i < k \<Longrightarrow> a ! (p + i) = 0) \<Longrightarrow> dval a p k = 0"
  by (induction k) simp_all

lemma unat_dg: "unat (dg a i) = unat (a ! i)"
  by (simp add: unsigned_ucast_eq take_bit_nat_eq_self_iff less_le_trans [OF unat_u16_less])

lemma dg_less: "unat (dg a i) < 2 ^ 16"
  by (simp only: unat_dg unat_u16_less)

text \<open>The value of a stored digit.\<close>

lemma unat_store: "unat (x :: u32) < 2 ^ 16 \<Longrightarrow> unat (ucast x :: u16) = unat x"
  by (simp add: unsigned_ucast_eq take_bit_nat_eq_self_iff)

lemma unat_store_LHALF: "unat (ucast (LHALF x) :: u16) = unat x mod 2 ^ 16"
  using unat_store [of "LHALF x"] by (simp add: unat_LHALF)

text \<open>A disjunction of a number below \<open>2 ^ n\<close> with one whose low \<open>n\<close> bits are 0 is their sum.\<close>

lemma or_low_bits:
  fixes a b :: "'a::len word"
  assumes "unat b < 2 ^ n" "\<And>i. i < n \<Longrightarrow> \<not> bit a i"
  shows "a OR b = a + b"
proof -
  have "unat (take_bit n b) = unat b"
    using assms(1) by (simp add: unsigned_take_bit_eq take_bit_nat_eq_self_iff)
  then have "take_bit n b = b" by (simp only: word_unat_eq_iff)
  then have "i < n" if "bit b i" for i using that by (metis bit_take_bit_iff)
  then show ?thesis using assms(2) by (intro disjunctive_add [symmetric]) blast
qed

lemma unat_COMBINE:
  assumes "unat a < 2 ^ 16" "unat b < 2 ^ 16"
  shows "unat (COMBINE a b) = unat a * 2 ^ 16 + unat b"
proof -
  have "COMBINE a b = push_bit 16 a + b"
    unfolding COMBINE_def by (rule or_low_bits [OF assms(2)]) (simp add: bit_simps)
  also have "\<dots> = word_of_nat (unat a * 2 ^ 16 + unat b)" by (simp add: push_bit_eq_mult)
  finally show ?thesis using assms by (simp only: unat_of_nat) simp
qed

lemma unat_push_low:
  fixes x :: u32
  assumes "unat x < 2 ^ 16" "sh \<le> 16"
  shows "unat (push_bit sh x) = unat x * 2 ^ sh"
proof -
  have "unat x * 2 ^ sh < 2 ^ 16 * 2 ^ 16"
    using assms by (intro mult_less_le_imp_less power_increasing) auto
  moreover have "push_bit sh x = word_of_nat (unat x * 2 ^ sh)" by (simp add: push_bit_eq_mult)
  ultimately show ?thesis by (simp only: unat_of_nat) simp
qed

lemma unat_drop: "unat (drop_bit n (x :: u32)) = unat x div 2 ^ n"
  unfolding unat_drop_bit_eq by (simp add: drop_bit_eq_div)

text \<open>The two ways in which a shift puts a digit together.\<close>

lemma pow16_split: "sh \<le> 16 \<Longrightarrow> (2 :: nat) ^ 16 = 2 ^ sh * 2 ^ (16 - sh)"
  by (metis le_add_diff_inverse power_add)

lemma merge_bounds:
  fixes x y :: nat
  assumes "x < 2 ^ 16" "y < 2 ^ 16" "sh \<le> 16"
  shows "y div 2 ^ (16 - sh) < 2 ^ sh" "x * 2 ^ sh mod 2 ^ 16 = x mod 2 ^ (16 - sh) * 2 ^ sh"
    "x * 2 ^ sh mod 2 ^ 16 + y div 2 ^ (16 - sh) < 2 ^ 16"
proof -
  note e = pow16_split [OF assms(3)]
  show b: "y div 2 ^ (16 - sh) < 2 ^ sh"
    using assms(2) unfolding e by (rule less_mult_imp_div_less)
  show a: "x * 2 ^ sh mod 2 ^ 16 = x mod 2 ^ (16 - sh) * 2 ^ sh"
    unfolding e mult.commute [of x] mult.commute [of "x mod 2 ^ (16 - sh)"] by (rule mult_mod_right [symmetric])
  have "x mod 2 ^ (16 - sh) + 1 \<le> 2 ^ (16 - sh)" by (simp add: Suc_le_eq)
  then have "(x mod 2 ^ (16 - sh) + 1) * 2 ^ sh \<le> 2 ^ (16 - sh) * 2 ^ sh" by (rule mult_le_mono1)
  then have "x mod 2 ^ (16 - sh) * 2 ^ sh + 2 ^ sh \<le> 2 ^ 16" unfolding e by (simp add: mult.commute)
  then show "x * 2 ^ sh mod 2 ^ 16 + y div 2 ^ (16 - sh) < 2 ^ 16" unfolding a using b by linarith
qed

lemma unat_add_no_overflow:
  fixes a b :: u32
  assumes "unat a + unat b < 2 ^ 16"
  shows "unat (a + b) = unat a + unat b"
  using assms by (simp add: unat_word_ariths)

lemma unat_merge:
  fixes x y :: u32
  assumes "unat x < 2 ^ 16" "unat y < 2 ^ 16" "sh \<le> 16"
  shows "unat (ucast (LHALF (push_bit sh x) OR drop_bit (16 - sh) y) :: u16)
      = unat x * 2 ^ sh mod 2 ^ 16 + unat y div 2 ^ (16 - sh)"
proof -
  let ?a = "LHALF (push_bit sh x)" and ?b = "drop_bit (16 - sh) y"
  have u: "unat ?a = unat x * 2 ^ sh mod 2 ^ 16" "unat ?b = unat y div 2 ^ (16 - sh)"
    by (simp_all only: unat_LHALF unat_push_low [OF assms(1,3)] unat_drop)
  have "?a OR ?b = ?a + ?b"
    using merge_bounds(1) [OF assms] unfolding u(2) [symmetric]
    by (rule or_low_bits) (simp add: LHALF_take bit_simps)
  moreover have "unat (?a + ?b) = unat x * 2 ^ sh mod 2 ^ 16 + unat y div 2 ^ (16 - sh)"
    using unat_add_no_overflow [of ?a ?b] merge_bounds(3) [OF assms] unfolding u by blast
  ultimately show ?thesis
    using unat_store [of "?a OR ?b"] merge_bounds(3) [OF assms] by metis
qed

section \<open>Shifts of digit ranges\<close>

lemma shl_length [simp]: "length (shl p len sh a) = length a"
  by (induction len arbitrary: p a) simp_all

lemma shl_outside: "i < p \<or> p + len < i \<Longrightarrow> shl p len sh a ! i = a ! i"
  by (induction len arbitrary: p a) auto

lemma digit_shift:
  assumes "x < 2 ^ 16" "sh \<le> 16"
  shows "x div 2 ^ (16 - sh) * 2 ^ 16 + x * 2 ^ sh mod 2 ^ 16 = x * (2 :: nat) ^ sh"
proof -
  have "x * 2 ^ sh div 2 ^ 16 = x div 2 ^ (16 - sh)"
    unfolding pow16_split [OF assms(2)] mult.commute [of x] by simp
  then show ?thesis by (metis div_mult_mod_eq)
qed

lemma carry_into_front:
  fixes K :: nat
  assumes "D' + s * K = D * e" "hi * B + lo = X * e"
  shows "(lo + s) * K + D' + hi * (B * K) = (X * K + D) * e"
proof -
  have "(lo + s) * K + D' + hi * (B * K) = (hi * B + lo) * K + (D' + s * K)"
    by (simp add: algebra_simps)
  then show ?thesis unfolding assms by (simp add: algebra_simps)
qed

lemma shl_value:
  assumes "sh \<le> 16" "p + len < length a"
  shows "dval (shl p len sh a) p (Suc len) + unat (a ! p) div 2 ^ (16 - sh) * (2 ^ 16) ^ Suc len
      = dval a p (Suc len) * 2 ^ sh"
  using assms(2)
proof (induction len arbitrary: p a)
  case 0
  have "unat (ucast (LHALF (push_bit sh (dg a p))) :: u16) = unat (a ! p) * 2 ^ sh mod 2 ^ 16"
    unfolding unat_store_LHALF unat_push_low [OF dg_less assms(1)] unat_dg ..
  then show ?case
    using 0 digit_shift [OF unat_u16_less assms(1), of "a ! p"] by simp
next
  case (Suc len)
  let ?x = "ucast (LHALF (push_bit sh (dg a p)) OR drop_bit (16 - sh) (dg a (Suc p))) :: u16"
  let ?b = "a[p := ?x]" and ?s = "unat (a ! Suc p) div 2 ^ (16 - sh)" and ?B = "(2 :: nat) ^ 16"
  have x: "unat ?x = unat (a ! p) * 2 ^ sh mod 2 ^ 16 + ?s"
    unfolding unat_merge [OF dg_less dg_less assms(1)] unat_dg ..
  have p: "shl p (Suc len) sh a ! p = ?x"
    using Suc.prems by (simp add: shl_outside)
  have IH: "dval (shl p (Suc len) sh a) (Suc p) (Suc len) + ?s * ?B ^ Suc len
      = dval a (Suc p) (Suc len) * 2 ^ sh"
    using Suc.IH [of "Suc p" ?b] Suc.prems by (simp del: dval.simps power_Suc)
  show ?case
    unfolding dval_front [of _ p "Suc len"] p x power_Suc [of _ "Suc len"]
    by (rule carry_into_front [OF IH digit_shift [OF unat_u16_less assms(1)]])
qed

text \<open>Without overflow from the first digit, the range is multiplied.\<close>

lemma shl_multiplies:
  assumes "sh \<le> 16" "p + len < length a" "unat (a ! p) < 2 ^ (16 - sh)"
  shows "dval (shl p len sh a) p (Suc len) = dval a p (Suc len) * 2 ^ sh"
  using shl_value [OF assms(1,2)] assms(3) by simp

lemma unshift_length [simp]: "length (unshift p k d u) = length u"
  by (induction k arbitrary: u) simp_all

lemma unshift_outside: "i < p \<or> p + k < i \<Longrightarrow> unshift p k d u ! i = u ! i"
  by (induction k arbitrary: u) auto

lemma unshift_first: "p < length u \<Longrightarrow> unshift p k d u ! p = 0"
  by (induction k arbitrary: u) auto

lemma digit_unshift:
  assumes "x < 2 ^ 16" "y < 2 ^ 16" "d \<le> 16"
  shows "(y * 2 ^ (16 - d) mod 2 ^ 16 + x div 2 ^ d) * 2 ^ d + x mod 2 ^ d = (y mod 2 ^ d) * 2 ^ 16 + (x :: nat)"
proof -
  have "y * 2 ^ (16 - d) mod 2 ^ 16 = y mod 2 ^ d * 2 ^ (16 - d)"
    using merge_bounds(2) [OF assms(2) assms(1), of "16 - d"] assms(3) by simp
  then have "y * 2 ^ (16 - d) mod 2 ^ 16 * 2 ^ d = y mod 2 ^ d * 2 ^ 16"
    unfolding pow16_split [OF assms(3)] by simp
  then show ?thesis using div_mult_mod_eq [of x "2 ^ d"] unfolding add_mult_distrib by linarith
qed

lemma borrow_into_back:
  fixes K :: nat
  assumes "D' * e + y = z * K + D" "X' * e + x = y * B + X"
  shows "(D' * B + X') * e + x = z * (B * K) + (D * B + X)"
proof -
  have "(D' * B + X') * e + x = D' * e * B + (X' * e + x)" by (simp add: algebra_simps)
  also have "\<dots> = (D' * e + y) * B + X" unfolding assms(2) by (simp add: algebra_simps)
  finally show ?thesis unfolding assms(1) by (simp add: algebra_simps)
qed

lemma unshift_value:
  assumes "d \<le> 16" "p + k < length u"
  shows "dval (unshift p k d u) (Suc p) k * 2 ^ d + unat (u ! (p + k)) mod 2 ^ d
      = unat (u ! p) mod 2 ^ d * (2 ^ 16) ^ k + dval u (Suc p) k"
  using assms(2)
proof (induction k arbitrary: u)
  case (Suc k)
  let ?x = "ucast (drop_bit d (dg u (p + Suc k)) OR LHALF (push_bit (16 - d) (dg u (p + k)))) :: u16"
  let ?u = "u[p + Suc k := ?x]"
  have x: "unat ?x = unat (u ! (p + k)) * 2 ^ (16 - d) mod 2 ^ 16 + unat (u ! (p + Suc k)) div 2 ^ d"
    using unat_merge [OF dg_less dg_less, of "16 - d" u "p + k" u "p + Suc k"] assms(1)
    unfolding unat_dg by (simp only: or.commute [of "drop_bit _ _"]) simp
  have k: "unshift p (Suc k) d u ! (p + Suc k) = ?x"
    using Suc.prems by (simp add: unshift_outside)
  have IH: "dval (unshift p (Suc k) d u) (Suc p) k * 2 ^ d + unat (u ! (p + k)) mod 2 ^ d
      = unat (u ! p) mod 2 ^ d * (2 ^ 16) ^ k + dval u (Suc p) k"
    using Suc.IH [of ?u] Suc.prems by simp
  have i: "Suc p + k = p + Suc k" by simp
  show ?case
    unfolding dval.simps(2) i k x power_Suc
    by (rule borrow_into_back [OF IH digit_unshift [OF unat_u16_less unat_u16_less assms(1)]])
qed simp

lemma unshift_divides:
  assumes "d \<le> 16" "p + k < length u" "u ! p = 0"
  shows "dval (unshift p k d u) (Suc p) k = dval u (Suc p) k div 2 ^ d"
proof -
  have "dval u (Suc p) k = dval (unshift p k d u) (Suc p) k * 2 ^ d + unat (u ! (p + k)) mod 2 ^ d"
    using unshift_value [OF assms(1,2)] assms(3) by simp
  then show ?thesis by simp
qed

section \<open>Multiply and subtract, add back\<close>

lemma unat_mask16: "unat (x AND 0xFFFF :: u32) = unat x mod 2 ^ 16"
  using unat_LHALF [of x] by (simp add: LHALF_def)

lemma borrow_arith:
  fixes T X U H L :: nat
  assumes "T + X = 65536 * 65536 + U" "T = H * 65536 + L" "H \<le> 65536"
  shows "L + X = U + (65536 - H) * 65536"
proof -
  have "(65536 - H) * 65536 + H * 65536 = 65536 * 65536"
    using assms(3) by (simp flip: add_mult_distrib)
  then show ?thesis using assms(1,2) by linarith
qed

text \<open>One digit of D4: what is borrowed from the next digit is in the upper half of the difference.\<close>

lemma sub_digit:
  fixes U V q t :: u32
  defines "T \<equiv> U - V * q - t" and "t' \<equiv> (0x10000 - HHALF (U - V * q - t)) AND 0xFFFF"
  assumes "unat U < 2 ^ 16" "unat V < 2 ^ 16" "unat q < 2 ^ 16" "unat t < 2 ^ 16"
  shows "unat T mod 2 ^ 16 + unat q * unat V + unat t = unat U + unat t' * 2 ^ 16"
    and "unat t' < 2 ^ 16"
proof -
  have t': "unat t' = (65536 - unat T div 65536) mod 65536"
  proof -
    have "unat T div 65536 < 65536" using unat_u32_less [of T] by simp
    then have "unat (0x10000 - HHALF T) = 65536 - unat T div 65536"
      using unat_HHALF [of T] by (simp add: unat_sub word_le_nat_alt)
    then show ?thesis unfolding t'_def T_def unat_mask16 by simp
  qed
  then show "unat t' < 2 ^ 16" by simp
  let ?X = "unat q * unat V + unat t"
  have "unat q * unat V \<le> 65535 * 65535" using assms(4,5) by (intro mult_le_mono) auto
  then have X: "?X \<le> 65535 * 65536" and XW: "unat (V * q + t) = ?X"
    using assms(6) by (simp_all add: unat_word_ariths mult.commute)
  have T: "T = U - (V * q + t)" unfolding T_def by (simp add: algebra_simps)
  show "unat T mod 2 ^ 16 + unat q * unat V + unat t = unat U + unat t' * 2 ^ 16"
  proof (cases "?X \<le> unat U")
    case True
    then have "unat T = unat U - ?X" unfolding T using XW by (simp add: unat_sub word_le_nat_alt)
    then show ?thesis using t' True assms(3) by simp
  next
    case False
    then have T': "unat T = 65536 * 65536 + unat U - ?X"
      unfolding T unat_sub_if' XW using assms(3) by simp
    then have "65536 \<le> unat T" using X by linarith
    then have "1 \<le> unat T div 65536" by simp
    moreover have "unat T div 65536 < 65536" using unat_u32_less [of T] by simp
    ultimately have "unat t' = 65536 - unat T div 65536" using t' by simp
    moreover have "unat T + ?X = 65536 * 65536 + unat U" using T' X by simp
    ultimately show ?thesis
      using borrow_arith [of "unat T" ?X "unat U" "unat T div 65536" "unat T mod 65536"]
        \<open>unat T div 65536 < 65536\<close> by simp
  qed
qed

lemma digit_step:
  fixes B K :: nat
  assumes "D' + q * W + t1 = D + t' * K" "X' + q * V + t = X + t1 * B"
  shows "(D' * B + X') + q * (W * B + V) + t = (D * B + X) + t' * (B * K)"
proof -
  have "(D' * B + X') + q * (W * B + V) + t = (D' + q * W) * B + (X' + q * V + t)"
    by (simp add: algebra_simps)
  also have "\<dots> = (D' + q * W + t1) * B + X" unfolding assms(2) by (simp add: algebra_simps)
  finally show ?thesis unfolding assms(1) by (simp add: algebra_simps)
qed

lemma mul_sub_value:
  assumes "unat qhat < 2 ^ 16" "unat t < 2 ^ 16" "p + i < length u" "mul_sub v vo qhat p i t u = (t', u')"
  shows "length u' = length u \<and> (\<forall>x. x \<le> p \<or> p + i < x \<longrightarrow> u' ! x = u ! x) \<and> unat t' < 2 ^ 16 \<and>
    dval u' (Suc p) i + unat qhat * dval v (Suc vo) i + unat t = dval u (Suc p) i + unat t' * (2 ^ 16) ^ i"
  using assms(2-)
proof (induction i arbitrary: t u)
  case (Suc i)
  let ?U = "dg u (p + Suc i)" and ?V = "dg v (vo + Suc i)"
  define T where "T = ?U - ?V * qhat - t"
  define t1 where "t1 = (0x10000 - HHALF T) AND 0xFFFF"
  define u1 where "u1 = u[p + Suc i := ucast (LHALF T)]"
  note d = sub_digit [OF dg_less dg_less assms(1) Suc.prems(1), of u "p + Suc i" v "vo + Suc i",
      folded T_def, folded t1_def, unfolded unat_dg]
  have "mul_sub v vo qhat p i t1 u1 = (t', u')"
    using Suc.prems(3) by (simp add: T_def t1_def u1_def Let_def)
  from Suc.IH [OF d(2) _ this] Suc.prems(2)
  have IH: "length u' = length u1" "\<forall>x. x \<le> p \<or> p + i < x \<longrightarrow> u' ! x = u1 ! x" "unat t' < 2 ^ 16"
    "dval u' (Suc p) i + unat qhat * dval v (Suc vo) i + unat t1
      = dval u (Suc p) i + unat t' * (2 ^ 16) ^ i"
    by (simp_all add: u1_def)
  have "unat (u' ! (p + Suc i)) = unat T mod 2 ^ 16"
    using IH(2) Suc.prems(2) by (simp add: u1_def unat_store_LHALF)
  then have "dval u' (Suc p) (Suc i) + unat qhat * dval v (Suc vo) (Suc i) + unat t
      = dval u (Suc p) (Suc i) + unat t' * (2 ^ 16) ^ Suc i"
    using digit_step [OF IH(4) d(1)] by (simp only: dval.simps add_Suc add_Suc_right power_Suc)
  moreover have "\<forall>x. x \<le> p \<or> p + Suc i < x \<longrightarrow> u' ! x = u ! x"
    using IH(2) by (simp add: u1_def)
  ultimately show ?case using IH(1,3) by (simp add: u1_def)
qed simp

lemma add_back_value:
  assumes "unat t \<le> 1" "p + i < length u" "add_back v vo p i t u = (t', u')"
  shows "length u' = length u \<and> (\<forall>x. x \<le> p \<or> p + i < x \<longrightarrow> u' ! x = u ! x) \<and> unat t' \<le> 1 \<and>
    dval u' (Suc p) i + unat t' * (2 ^ 16) ^ i = dval u (Suc p) i + dval v (Suc vo) i + unat t"
  using assms
proof (induction i arbitrary: t u)
  case (Suc i)
  define T where "T = t + (dg u (p + Suc i) + dg v (vo + Suc i))"
  define u1 where "u1 = u[p + Suc i := ucast (LHALF T)]"
  have T: "unat T = unat t + unat (u ! (p + Suc i)) + unat (v ! (vo + Suc i))"
    using Suc.prems(1) unat_u16_less [of "u ! (p + Suc i)"] unat_u16_less [of "v ! (vo + Suc i)"]
    unfolding T_def unat_word_ariths unat_dg by simp
  have H: "unat (HHALF T) \<le> 1" "unat T mod 2 ^ 16 + unat (HHALF T) * 2 ^ 16 = unat T"
    using T Suc.prems(1) unat_u16_less [of "u ! (p + Suc i)"] unat_u16_less [of "v ! (vo + Suc i)"]
    by (simp_all add: unat_HHALF)
  have "add_back v vo p i (HHALF T) u1 = (t', u')"
    using Suc.prems(3) by (simp add: T_def u1_def Let_def)
  from Suc.IH [OF H(1) _ this] Suc.prems(2)
  have IH: "length u' = length u1" "\<forall>x. x \<le> p \<or> p + i < x \<longrightarrow> u' ! x = u1 ! x" "unat t' \<le> 1"
    "dval u' (Suc p) i + unat t' * (2 ^ 16) ^ i = dval u (Suc p) i + dval v (Suc vo) i + unat (HHALF T)"
    by (simp_all add: u1_def)
  have "unat (u' ! (p + Suc i)) = unat T mod 2 ^ 16"
    using IH(2) Suc.prems(2) by (simp add: u1_def unat_store_LHALF)
  then have "dval u' (Suc p) (Suc i) + unat t' * (2 ^ 16) ^ Suc i
      = dval u (Suc p) (Suc i) + dval v (Suc vo) (Suc i) + unat t"
    using IH(4) H(2) T
    by (simp only: dval.simps add_Suc add_Suc_right power_Suc) (simp add: algebra_simps)
  moreover have "\<forall>x. x \<le> p \<or> p + Suc i < x \<longrightarrow> u' ! x = u ! x"
    using IH(2) by (simp add: u1_def)
  ultimately show ?case using IH(1,3) by (simp add: u1_def)
qed simp

text \<open>
  D4 to D6 on the window \<open>u[p]\<close> to \<open>u[p+n]\<close>, for a trial quotient that is right or too large by
  one: the window becomes the remainder and the quotient is right.
\<close>

lemma wrapped_digit:
  fixes a t :: nat
  assumes "a < t" "t < 65536"
  shows "65536 \<le> a + 4294967296 - t" "(a + 4294967296 - t) mod 65536 = 65536 + a - t"
proof -
  have e: "a + 4294967296 - t = (65536 + a - t) + 65535 * 65536" using assms by linarith
  show "65536 \<le> a + 4294967296 - t" using assms by linarith
  show "(a + 4294967296 - t) mod 65536 = 65536 + a - t"
    unfolding e mod_mult_self1 using assms by (intro mod_less) linarith
qed

lemma top_digit_sub:
  fixes a t :: u32
  assumes "unat a < 2 ^ 16" "unat t < 2 ^ 16"
  shows "HHALF (a - t) \<noteq> 0 \<longleftrightarrow> unat a < unat t"
    and "unat (a - t) mod 2 ^ 16 + unat t = unat a + (if unat a < unat t then 2 ^ 16 else 0)"
proof -
  have u: "unat (a - t) = (if unat a < unat t then unat a + 4294967296 - unat t else unat a - unat t)"
    using assms by (simp add: unat_sub_if')
  have "HHALF (a - t) \<noteq> 0 \<longleftrightarrow> 2 ^ 16 \<le> unat (a - t)"
    using unat_HHALF [of "a - t"] by (simp add: word_unat_eq_iff [of "HHALF (a - t)"] div_greater_zero_iff)
  then show "HHALF (a - t) \<noteq> 0 \<longleftrightarrow> unat a < unat t"
    unfolding u using wrapped_digit(1) [of "unat a" "unat t"] assms by (cases "unat a < unat t") simp_all
  show "unat (a - t) mod 2 ^ 16 + unat t = unat a + (if unat a < unat t then 2 ^ 16 else 0)"
    unfolding u using wrapped_digit(2) [of "unat a" "unat t"] assms by (cases "unat a < unat t") simp_all
qed

lemma sub_window:
  assumes "unat qhat < 2 ^ 16" "p + n < length u" "mul_sub v vo qhat p n 0 u = (t, u1)"
  defines "u2 \<equiv> u1[p := ucast (LHALF (dg u1 p - t))]" and "V \<equiv> dval v (Suc vo) n"
    and "W \<equiv> dval u p (Suc n)"
  shows "length u2 = length u" "\<forall>x. x < p \<or> p + n < x \<longrightarrow> u2 ! x = u ! x"
    and "HHALF (dg u1 p - t) \<noteq> 0 \<longleftrightarrow> W < unat qhat * V"
    and "dval u2 p (Suc n) + unat qhat * V
      = W + (if W < unat qhat * V then (2 ^ 16) ^ Suc n else 0)"
proof -
  from mul_sub_value [OF assms(1) _ assms(2,3)]
  have m: "length u1 = length u" "\<forall>x. x \<le> p \<or> p + n < x \<longrightarrow> u1 ! x = u ! x" "unat t < 2 ^ 16"
    "dval u1 (Suc p) n + unat qhat * V = dval u (Suc p) n + unat t * (2 ^ 16) ^ n"
    by (simp_all add: V_def)
  show "length u2 = length u" "\<forall>x. x < p \<or> p + n < x \<longrightarrow> u2 ! x = u ! x"
    using m(1,2) by (simp_all add: u2_def)
  let ?a = "unat (u ! p)" and ?b = "unat (u ! p) < unat t" and ?B = "(2 :: nat) ^ 16"
  have up: "u1 ! p = u ! p" using m(2) by simp
  have top: "HHALF (dg u1 p - t) \<noteq> 0 \<longleftrightarrow> ?b" "unat (u2 ! p) + unat t = ?a + (if ?b then 2 ^ 16 else 0)"
    using top_digit_sub [OF dg_less m(3), of u p] assms(2) m(1)
    unfolding u2_def up unat_dg by (simp_all add: unat_store_LHALF)
  have "dval u2 p (Suc n) + unat qhat * V + unat t * ?B ^ n
      = (unat (u2 ! p) + unat t) * ?B ^ n + (dval u1 (Suc p) n + unat qhat * V)"
    unfolding dval_front [of _ p] by (simp add: u2_def algebra_simps)
  also have "\<dots> = ?a * ?B ^ n + dval u (Suc p) n + unat t * ?B ^ n + (if ?b then ?B ^ Suc n else 0)"
    unfolding top(2) m(4) by (simp add: algebra_simps)
  finally have e: "dval u2 p (Suc n) + unat qhat * V = W + (if ?b then ?B ^ Suc n else 0)"
    unfolding W_def dval_front [of u p] by simp
  have "?b \<longleftrightarrow> W < unat qhat * V"
    using e dval_less [of u2 p "Suc n"] by (cases ?b) (simp_all del: power_Suc)
  with e top(1) show "HHALF (dg u1 p - t) \<noteq> 0 \<longleftrightarrow> W < unat qhat * V"
    "dval u2 p (Suc n) + unat qhat * V = W + (if W < unat qhat * V then ?B ^ Suc n else 0)"
    by simp_all
qed

lemma mod_top_digit:
  fixes x d K B :: nat
  assumes "d < K"
  shows "(x * K + d) mod (B * K) = x mod B * K + d"
  using assms mod_mult2_eq [of "x * K + d" K B] by (simp add: mult.commute [of B])

lemma add_window:
  assumes "p + n < length u" "add_back v vo p n 0 u = (t, u1)"
  defines "u2 \<equiv> u1[p := ucast (LHALF (dg u1 p + t))]"
  shows "length u2 = length u" "\<forall>x. x < p \<or> p + n < x \<longrightarrow> u2 ! x = u ! x"
    and "dval u2 p (Suc n) = (dval u p (Suc n) + dval v (Suc vo) n) mod (2 ^ 16) ^ Suc n"
proof -
  from add_back_value [OF _ assms(1,2)]
  have m: "length u1 = length u" "\<forall>x. x \<le> p \<or> p + n < x \<longrightarrow> u1 ! x = u ! x" "unat t \<le> 1"
    "dval u1 (Suc p) n + unat t * (2 ^ 16) ^ n = dval u (Suc p) n + dval v (Suc vo) n"
    by simp_all
  show "length u2 = length u" "\<forall>x. x < p \<or> p + n < x \<longrightarrow> u2 ! x = u ! x"
    using m(1,2) by (simp_all add: u2_def)
  have "unat (dg u1 p + t) = unat (u ! p) + unat t"
    using m(2,3) unat_u16_less [of "u ! p"] unfolding unat_word_ariths unat_dg by simp
  then have top: "unat (u2 ! p) = (unat (u ! p) + unat t) mod 2 ^ 16"
    using assms(1) m(1) by (simp add: u2_def unat_store_LHALF)
  have "dval u p (Suc n) + dval v (Suc vo) n
      = (unat (u ! p) + unat t) * (2 ^ 16) ^ n + dval u1 (Suc p) n"
    using m(4) unfolding dval_front [of u p] by (simp add: algebra_simps)
  then show "dval u2 p (Suc n) = (dval u p (Suc n) + dval v (Suc vo) n) mod (2 ^ 16) ^ Suc n"
    unfolding power_Suc using mod_top_digit [OF dval_less [of u1 "Suc p" n]] top
    unfolding dval_front [of u2 p] by (simp add: u2_def)
qed

lemma div_step_correct:
  fixes v u :: digits and vo n p :: nat
  defines "V \<equiv> dval v (Suc vo) n" and "W \<equiv> dval u p (Suc n)"
    and "qhat \<equiv> trial_qhat (dg v (vo + 1)) (dg v (vo + 2)) (dg u p) (dg u (p + 1)) (dg u (p + 2))"
  assumes "p + n < length u" "0 < V" "unat qhat < 2 ^ 16"
    and "W div V \<le> unat qhat" "unat qhat \<le> W div V + 1" "div_step v vo n p u = (q, u')"
  shows "unat q = W div V \<and> dval u' p (Suc n) = W mod V \<and> length u' = length u \<and>
    (\<forall>x. x < p \<or> p + n < x \<longrightarrow> u' ! x = u ! x)"
proof -
  obtain t u1 where ms: "mul_sub v vo qhat p n 0 u = (t, u1)" by fastforce
  define u2 where "u2 = u1[p := ucast (LHALF (dg u1 p - t))]"
  note s = sub_window [OF assms(6,4) ms, folded u2_def V_def W_def]
  define Q where "Q = W div V"
  define R where "R = W mod V"
  have W: "W = Q * V + R" and Q: "Q \<le> unat qhat" "unat qhat \<le> Q + 1"
    using assms(7,8) by (simp_all add: Q_def R_def)
  show ?thesis
  proof (cases "W < unat qhat * V")
    case False
    then have "unat qhat \<le> Q" using assms(5) by (simp add: Q_def less_eq_div_iff_mult_less_eq)
    then have q: "unat qhat = Q" using Q(1) by simp
    have "(q, u') = (qhat, u2)"
      using assms(9) ms False s(3) unfolding div_step_def qhat_def u2_def by (simp add: Let_def)
    moreover have "dval u2 p (Suc n) + Q * V = W" using s(4) False unfolding q by (simp only: if_False)
    then have "dval u2 p (Suc n) = R" unfolding W by (simp only: add_right_cancel add.commute)
    ultimately show ?thesis using s(1,2) q unfolding Q_def R_def by blast
  next
    case True
    then have "\<not> unat qhat \<le> Q" using assms(5) by (simp add: Q_def less_eq_div_iff_mult_less_eq)
    then have q: "unat qhat = Q + 1" using Q(2) by simp
    then have "qhat \<noteq> 0" by auto
    then have q1: "unat (qhat - 1) = Q" using q unat_minus_one_word [of qhat] by simp
    obtain t' u3 where ab: "add_back v vo p n 0 u2 = (t', u3)" by fastforce
    define u4 where "u4 = u3[p := ucast (LHALF (dg u3 p + t'))]"
    have "p + n < length u2" using assms(4) s(1) by simp
    note a = add_window [OF this ab, folded u4_def V_def]
    have "(q, u') = (qhat - 1, u4)"
      using assms(9) ms ab True s(3) unfolding div_step_def qhat_def u2_def u4_def by (simp add: Let_def)
    moreover have "dval u4 p (Suc n) = R"
    proof -
      define M where "M = ((2 :: nat) ^ 16) ^ Suc n"
      have "dval u2 p (Suc n) + (Q + 1) * V = W + M"
        using s(4) True unfolding q M_def by (simp only: if_True)
      then have "dval u2 p (Suc n) + V = R + M" unfolding W by (simp add: algebra_simps)
      then have "dval u4 p (Suc n) = R mod M" using a(3) unfolding M_def [symmetric] by simp
      moreover have "R < M"
        using dval_less [of u p "Suc n"] mod_less_eq_dividend [of W V]
        unfolding W_def [symmetric] M_def [symmetric] R_def [symmetric] by linarith
      ultimately show ?thesis by simp
    qed
    moreover have "length u4 = length u" "\<forall>x. x < p \<or> p + n < x \<longrightarrow> u4 ! x = u ! x"
      using a(1,2) s(1,2) by simp_all
    ultimately show ?thesis using q1 unfolding Q_def R_def by blast
  qed
qed

section \<open>The trial quotient\<close>

text \<open>
  The bounds of D3 on natural numbers: \<open>v1\<close>, \<open>v2\<close> are the first two digits of the divisor \<open>V\<close>, \<open>U3\<close>
  the first three of the window \<open>W\<close>, \<open>K\<close> the weight of the third. A trial quotient that does not
  exceed \<open>U3\<close> over the two digits is at most one too large, one that does is too large.
\<close>

lemma trial_not_much_larger:
  fixes V W K :: nat
  assumes "V = (v1 * B + v2) * K + Vr" "Vr < K" "W = U3 * K + Ur" "0 < v1"
    and "qh * (v1 * B + v2) \<le> U3" "qh \<le> B"
  shows "qh \<le> W div V + 1"
proof (cases qh)
  case (Suc k)
  have "K \<le> V" using assms(4) Suc assms(6) unfolding assms(1)
    by (cases "v1 * B + v2") auto
  then have "0 < V" using assms(2) by linarith
  have "qh * (v1 * B + v2) * K \<le> U3 * K" using assms(5) by (rule mult_le_mono1)
  then have "qh * V \<le> W + qh * Vr"
    unfolding assms(1,3) by (simp add: algebra_simps)
  also have "qh * Vr \<le> B * K" using assms(2,6) by (intro mult_le_mono) auto
  also have "B * K \<le> V" using assms(4) unfolding assms(1) by (cases v1) (auto simp: algebra_simps)
  finally have "k * V \<le> W" using Suc by simp
  then show ?thesis using \<open>0 < V\<close> Suc by (simp add: less_eq_div_iff_mult_less_eq)
qed simp

lemma trial_too_large:
  fixes V W K :: nat
  assumes "V = (v1 * B + v2) * K + Vr" "W = U3 * K + Ur" "Ur < K"
    and "U3 < qh * (v1 * B + v2)"
  shows "W div V < qh"
proof -
  have "W < (U3 + 1) * K" unfolding assms(2) using assms(3) by simp
  also have "\<dots> \<le> qh * (v1 * B + v2) * K" using assms(4) by (intro mult_le_mono1) simp
  also have "\<dots> \<le> qh * V" unfolding assms(1) by (simp add: algebra_simps)
  finally show ?thesis by (simp add: less_mult_imp_div_less)
qed

lemma trial_first:
  fixes V W K :: nat
  assumes "V = (v1 * B + v2) * K + Vr" "W = (N * B + u2) * K + Ur" "u2 < B" "Ur < K" "0 < v1" "0 < B"
  shows "W div V \<le> N div v1"
proof -
  have "W < (N * B + u2 + 1) * K" unfolding assms(2) using assms(4) by simp
  also have "\<dots> \<le> ((N + 1) * B) * K" using assms(3) by (intro mult_le_mono1) simp
  finally have "W < (N + 1) * (B * K)" by (simp only: mult.assoc)
  have "W div V * v1 * (B * K) \<le> W div V * V"
    unfolding assms(1) mult.assoc by (intro mult_le_mono2) (simp add: algebra_simps)
  also have "\<dots> \<le> W" by simp
  also have "\<dots> < (N + 1) * (B * K)" by fact
  finally have "W div V * v1 * (B * K) < (N + 1) * (B * K)" .
  then have "W div V * v1 < N + 1" by (simp only: mult_less_cancel2)
  then show ?thesis using assms(5) by (simp add: less_eq_div_iff_mult_less_eq)
qed

text \<open>The two numbers that the test of the loop compares.\<close>

lemma test_arith:
  fixes B :: nat
  shows "(q * v + r) * B + u < q * (v * B + w) \<longleftrightarrow> r * B + u < w * q"
  by (simp add: algebra_simps)

lemma large_rest:
  fixes B :: nat
  assumes "q * v + r = N" "B \<le> r" "q \<le> B" "w \<le> B"
  shows "q * (v * B + w) \<le> N * B + u"
proof -
  have "q * w \<le> B * B" using assms(3,4) by (rule mult_le_mono)
  also have "\<dots> \<le> r * B" using assms(2) by simp
  finally show ?thesis unfolding assms(1) [symmetric] by (simp add: algebra_simps)
qed

lemma qhat_test:
  assumes "unat v2 < 2 ^ 16" "unat qhat < 2 ^ 16" "unat rhat < 2 ^ 16" "unat uj2 < 2 ^ 16"
    and "unat qhat * unat v1 + unat rhat = N"
  shows "v2 * qhat > COMBINE rhat uj2 \<longleftrightarrow>
    N * 2 ^ 16 + unat uj2 < unat qhat * (unat v1 * 2 ^ 16 + unat v2)"
proof -
  have "unat v2 * unat qhat \<le> 65535 * 65535" using assms(1,2) by (intro mult_le_mono) auto
  then have "unat (v2 * qhat) = unat v2 * unat qhat" by (simp add: unat_word_ariths)
  moreover have "N * 2 ^ 16 + unat uj2 < unat qhat * (unat v1 * 2 ^ 16 + unat v2)
      \<longleftrightarrow> unat rhat * 2 ^ 16 + unat uj2 < unat v2 * unat qhat"
    unfolding assms(5) [symmetric] by (rule test_arith)
  ultimately show ?thesis
    by (simp only: word_less_nat_alt unat_COMBINE [OF assms(3,4)])
qed

lemma qhat_loop_bounds:
  fixes V W K :: nat and v1 v2 uj2 qhat rhat :: u32
  assumes V: "V = (unat v1 * 2 ^ 16 + unat v2) * K + Vr" "Vr < K" "0 < unat v1"
    and W: "W = (N * 2 ^ 16 + unat uj2) * K + Ur" "Ur < K"
    and d: "unat v1 < 2 ^ 16" "unat v2 < 2 ^ 16" "unat uj2 < 2 ^ 16"
    and "unat qhat < 2 ^ 16" "unat rhat < 2 ^ 16" "unat qhat * unat v1 + unat rhat = N"
    and "W div V \<le> unat qhat"
  shows "W div V \<le> unat (qhat_loop v1 v2 uj2 qhat rhat) \<and>
    unat (qhat_loop v1 v2 uj2 qhat rhat) \<le> W div V + 1 \<and>
    unat (qhat_loop v1 v2 uj2 qhat rhat) < 2 ^ 16"
  using assms(9-)
proof (induction "unat qhat" arbitrary: qhat rhat)
  case 0
  then have "\<not> v2 * qhat > COMBINE rhat uj2" by (simp add: unat_eq_0)
  then have "qhat_loop v1 v2 uj2 qhat rhat = qhat" by (subst qhat_loop.simps) (simp only: if_False)
  with 0 show ?case by simp
next
  case (Suc k)
  note test = qhat_test [OF d(2) Suc.prems(1,2) d(3) Suc.prems(3)]
  show ?case
  proof (cases "v2 * qhat > COMBINE rhat uj2")
    case False
    then have "unat qhat * (unat v1 * 2 ^ 16 + unat v2) \<le> N * 2 ^ 16 + unat uj2"
      unfolding test by (simp only: not_less)
    then have "unat qhat \<le> W div V + 1"
      by (rule trial_not_much_larger [OF V(1,2) W(1) V(3)]) (use Suc.prems(1) in simp)
    moreover have "qhat_loop v1 v2 uj2 qhat rhat = qhat"
      using False by (subst qhat_loop.simps) (simp only: if_False)
    ultimately show ?thesis using Suc.prems(1,4) by simp
  next
    case True
    then have less: "W div V < unat qhat"
      unfolding test by (rule trial_too_large [OF V(1) W])
    then have "qhat \<noteq> 0" by auto
    then have k: "unat qhat = Suc k" "unat (qhat - 1) = k"
      using Suc.hyps(2) unat_minus_one_word [of qhat] by simp_all
    have r: "unat (rhat + v1) = unat rhat + unat v1"
      using Suc.prems(2) d(1) by (simp add: unat_word_ariths)
    have N: "unat (qhat - 1) * unat v1 + unat (rhat + v1) = N"
      using Suc.prems(3) unfolding r k by simp
    show ?thesis
    proof (cases "rhat + v1 \<ge> 0x10000")
      case True
      have "unat (qhat - 1) * (unat v1 * 2 ^ 16 + unat v2) \<le> N * 2 ^ 16 + unat uj2"
        using True k Suc.prems(1) d(2) by (intro large_rest [OF N]) (simp_all add: word_le_nat_alt)
      then have "unat (qhat - 1) \<le> W div V + 1"
        by (rule trial_not_much_larger [OF V(1,2) W(1) V(3)]) (use k Suc.prems(1) in simp)
      moreover have "qhat_loop v1 v2 uj2 qhat rhat = qhat - 1"
        using True \<open>v2 * qhat > COMBINE rhat uj2\<close>
        by (subst qhat_loop.simps) (simp only: if_True Let_def)
      ultimately show ?thesis using less k Suc.prems(1) by simp
    next
      case False
      then have "qhat_loop v1 v2 uj2 qhat rhat = qhat_loop v1 v2 uj2 (qhat - 1) (rhat + v1)"
        using \<open>v2 * qhat > COMBINE rhat uj2\<close>
        by (subst qhat_loop.simps) (simp only: if_True if_False Let_def)
      moreover have "unat (rhat + v1) < 2 ^ 16"
        using False by (simp add: word_le_nat_alt not_le)
      ultimately show ?thesis
        using Suc.hyps(1) [of "qhat - 1" "rhat + v1"] N k less Suc.prems(1) by simp
    qed
  qed
qed

lemma top_digit_bound:
  fixes V W K B :: nat
  assumes "V = (v1 * B + v2) * K + Vr" "Vr < K" "W = ((u0 * B + u1) * B + u2) * K + Ur"
    and "W < B * V" "v2 < B"
  shows "u0 \<le> v1"
proof (rule ccontr)
  assume "\<not> u0 \<le> v1"
  then have "v1 + 1 \<le> u0" by simp
  then have "(v1 + 1) * B * B * K \<le> u0 * B * B * K" by (intro mult_le_mono1)
  also have "\<dots> \<le> W" unfolding assms(3) by (simp add: algebra_simps)
  finally have "(v1 + 1) * B * B * K \<le> W" .
  moreover have "B * V \<le> B * ((v1 * B + v2 + 1) * K)"
    unfolding assms(1) using assms(2) by (intro mult_le_mono2) simp
  moreover have "B * ((v1 * B + v2 + 1) * K) \<le> B * (((v1 + 1) * B) * K)"
    using assms(5) by (intro mult_le_mono) simp_all
  moreover have "B * (((v1 + 1) * B) * K) = (v1 + 1) * B * B * K" by (simp add: algebra_simps)
  ultimately show False using assms(4) by linarith
qed

lemma trial_qhat_bounds:
  fixes V W K :: nat and v1 v2 uj0 uj1 uj2 :: u32
  assumes V: "V = (unat v1 * 2 ^ 16 + unat v2) * K + Vr" "Vr < K" "0 < unat v1"
    and W: "W = ((unat uj0 * 2 ^ 16 + unat uj1) * 2 ^ 16 + unat uj2) * K + Ur" "Ur < K"
    and d: "unat v1 < 2 ^ 16" "unat v2 < 2 ^ 16" "unat uj2 < 2 ^ 16"
    and d': "unat uj0 < 2 ^ 16" "unat uj1 < 2 ^ 16" and less: "W < 2 ^ 16 * V"
  shows "W div V \<le> unat (trial_qhat v1 v2 uj0 uj1 uj2) \<and>
    unat (trial_qhat v1 v2 uj0 uj1 uj2) \<le> W div V + 1 \<and>
    unat (trial_qhat v1 v2 uj0 uj1 uj2) < 2 ^ 16"
proof (cases "uj0 = v1")
  case True
  have q: "W div V < 2 ^ 16" using less by (rule less_mult_imp_div_less)
  have r: "unat (uj1 + v1) = unat uj1 + unat v1"
    using d(1) d'(2) by (simp add: unat_word_ariths)
  have N: "unat (0x10000 - 1 :: u32) * unat v1 + unat (uj1 + v1) = unat uj0 * 2 ^ 16 + unat uj1"
    unfolding r True by simp
  show ?thesis
  proof (cases "uj1 + v1 \<ge> 0x10000")
    case big: True
    have "unat (0x10000 - 1 :: u32) * (unat v1 * 2 ^ 16 + unat v2)
        \<le> (unat uj0 * 2 ^ 16 + unat uj1) * 2 ^ 16 + unat uj2"
      using big d(2) by (intro large_rest [OF N]) (simp_all add: word_le_nat_alt)
    then have "unat (0x10000 - 1 :: u32) \<le> W div V + 1"
      by (rule trial_not_much_larger [OF V(1,2) W(1) V(3)]) simp
    moreover have "trial_qhat v1 v2 uj0 uj1 uj2 = 0x10000 - 1"
      using True big by (simp only: trial_qhat_def if_True Let_def simp_thms)
    ultimately show ?thesis using q by simp
  next
    case False
    then have "trial_qhat v1 v2 uj0 uj1 uj2 = qhat_loop v1 v2 uj2 (0x10000 - 1) (uj1 + v1)"
      using True by (simp only: trial_qhat_def if_True if_False Let_def simp_thms)
    moreover have "unat (uj1 + v1) < 2 ^ 16" using False by (simp add: word_le_nat_alt not_le)
    ultimately show ?thesis
      using qhat_loop_bounds [OF V W d _ _ N] q by simp
  qed
next
  case False
  let ?N = "unat uj0 * 2 ^ 16 + unat uj1" and ?nn = "COMBINE uj0 uj1"
  have nn: "unat ?nn = ?N" by (rule unat_COMBINE [OF d'])
  have "unat uj0 \<le> unat v1" by (rule top_digit_bound [OF V(1,2) W(1) less d(2)])
  then have "unat uj0 < unat v1" using False by (simp add: word_unat_eq_iff order_less_le)
  then have "(unat uj0 + 1) * 2 ^ 16 \<le> unat v1 * 2 ^ 16" by (intro mult_le_mono1) simp
  then have "?N < 2 ^ 16 * unat v1" using d'(2) by simp
  then have q: "unat (?nn div v1) < 2 ^ 16"
    unfolding unat_div nn by (rule less_mult_imp_div_less)
  have r: "unat (?nn mod v1) < 2 ^ 16"
    unfolding unat_mod nn using V(3) d(1) by (meson less_trans mod_less_divisor)
  have N: "unat (?nn div v1) * unat v1 + unat (?nn mod v1) = ?N"
    unfolding unat_div unat_mod nn by simp
  have "W div V \<le> unat (?nn div v1)"
    unfolding unat_div nn by (rule trial_first [OF V(1) W(1) d(3) W(2) V(3)]) simp
  moreover have "trial_qhat v1 v2 uj0 uj1 uj2 = qhat_loop v1 v2 uj2 (?nn div v1) (?nn mod v1)"
    using False by (simp only: trial_qhat_def if_False Let_def)
  ultimately show ?thesis using qhat_loop_bounds [OF V W d q r N] by simp
qed

section \<open>The division loop\<close>

lemma dval_two: "dval a p 2 = unat (a ! p) * 2 ^ 16 + unat (a ! (p + 1))"
  by (simp add: numeral_2_eq_2)

lemma dval_three: "dval a p 3 = (unat (a ! p) * 2 ^ 16 + unat (a ! (p + 1))) * 2 ^ 16 + unat (a ! (p + 2))"
  by (simp add: numeral_3_eq_3)

text \<open>One round: the digit of the quotient, and the window reduced to the remainder.\<close>

lemma div_step_divides:
  fixes v u :: digits and vo n p :: nat
  defines "V \<equiv> dval v (Suc vo) n" and "W \<equiv> dval u p (Suc n)"
  assumes "p + n < length u" "2 \<le> n" "v ! Suc vo \<noteq> 0" "W < 2 ^ 16 * V" "div_step v vo n p u = (q, u')"
  shows "unat q = W div V \<and> dval u' p (Suc n) = W mod V \<and> length u' = length u \<and>
    (\<forall>x. x < p \<or> p + n < x \<longrightarrow> u' ! x = u ! x)"
proof -
  obtain k where k: "n = 2 + k" using assms(4) le_Suc_ex by blast
  let ?K = "((2 :: nat) ^ 16) ^ k"
  have V: "V = (unat (dg v (vo + 1)) * 2 ^ 16 + unat (dg v (vo + 2))) * ?K + dval v (Suc vo + 2) k"
    unfolding V_def k dval_append dval_two unat_dg by simp
  have W: "W = ((unat (dg u p) * 2 ^ 16 + unat (dg u (p + 1))) * 2 ^ 16 + unat (dg u (p + 2))) * ?K
      + dval u (p + 3) k"
  proof -
    have "Suc n = 3 + k" by (simp add: k)
    then show ?thesis unfolding W_def by (simp only: dval_append dval_three unat_dg)
  qed
  have v1: "0 < unat (dg v (vo + 1))"
    unfolding unat_dg using assms(5) by (simp add: unat_gt_0)
  note t = trial_qhat_bounds [OF V dval_less v1 W dval_less dg_less dg_less dg_less dg_less dg_less assms(6)]
  have "0 < V" using assms(6) by (cases V) auto
  then show ?thesis
    using div_step_correct [OF assms(3) _ _ _ _ assms(7)] t unfolding V_def W_def by blast
qed

lemma quotient_digits:
  fixes K :: nat
  assumes "Q * V + R = (W mod V) * K + T"
  shows "(W div V * K + Q) * V + R = W * K + T"
proof -
  have "(d * K + Q) * V + R = (d * V + m) * K + T" if "Q * V + R = m * K + T" for d m
    using that by (simp add: algebra_simps)
  from this [OF assms, of "W div V"] show ?thesis by (simp only: div_mult_mod_eq)
qed

text \<open>What the loop from round \<open>j\<close> on leaves: quotient digits, zeros and the remainder.\<close>

definition loop_result :: "nat \<Rightarrow> nat \<Rightarrow> nat \<Rightarrow> nat \<Rightarrow> nat \<Rightarrow> digits \<Rightarrow> digits \<Rightarrow> digits \<Rightarrow> digits \<Rightarrow> bool" where
  "loop_result V n p r k u q u' q' \<longleftrightarrow>
     length u' = length u \<and> length q' = length q \<and>
     dval q' r (Suc k) * V + dval u' (p + Suc k) n = dval u p (n + Suc k) \<and>
     dval u' (p + Suc k) n < V \<and>
     (\<forall>x. x < p \<longrightarrow> u' ! x = u ! x) \<and> (\<forall>x. p \<le> x \<and> x \<le> p + k \<longrightarrow> u' ! x = 0) \<and>
     (\<forall>x. x < r \<longrightarrow> q' ! x = q ! x)"

lemma div_round:
  fixes v u :: digits and vo n p :: nat
  defines "V \<equiv> dval v (Suc vo) n"
  assumes "p + n < length u" "2 \<le> n" "v ! Suc vo \<noteq> 0" "dval u p n < V" "div_step v vo n p u = (qd, u1)"
  defines "W \<equiv> dval u p (Suc n)"
  shows "unat (ucast qd :: u16) = W div V" "dval u1 (Suc p) n = W mod V" "u1 ! p = 0"
    "length u1 = length u" "\<forall>x. x < p \<or> p + n < x \<longrightarrow> u1 ! x = u ! x" "W mod V < V"
proof -
  have "dval u p n * 2 ^ 16 + unat (u ! (p + n)) < (dval u p n + 1) * 2 ^ 16"
    using unat_u16_less [of "u ! (p + n)"] by simp
  also have "\<dots> \<le> V * 2 ^ 16" using assms(5) by (intro mult_le_mono1) simp
  finally have W: "W < 2 ^ 16 * V" unfolding W_def by (simp add: mult.commute)
  note s = div_step_divides [OF assms(2-4) W [unfolded W_def V_def] assms(6), folded V_def W_def]
  show "length u1 = length u" "\<forall>x. x < p \<or> p + n < x \<longrightarrow> u1 ! x = u ! x" using s by blast+
  have "unat qd < 2 ^ 16" using s W by (simp only: less_mult_imp_div_less)
  then show "unat (ucast qd :: u16) = W div V" using s by (simp only: unat_store)
  show "W mod V < V" using assms(5) by simp
  then have "dval u1 p (Suc n) < (2 ^ 16) ^ n"
    using s dval_less [of v "Suc vo" n] unfolding V_def by simp
  then have "unat (u1 ! p) = 0" unfolding dval_front by (cases "unat (u1 ! p)") auto
  then show "u1 ! p = 0" by (simp add: unat_eq_0)
  then show "dval u1 (Suc p) n = W mod V" using s unfolding dval_front [of u1] by simp
qed

lemma div_loop_value:
  fixes v :: digits and vo n :: nat
  defines "V \<equiv> dval v (Suc vo) n"
  assumes "2 \<le> n" "v ! Suc vo \<noteq> 0"
    and "uo + j + k + n < length u" "qo + j + k < length q" "dval u (uo + j) n < V"
    and "div_loop v vo n uo qo k j u q = (u', q')"
  shows "loop_result V n (uo + j) (qo + j) k u q u' q'"
  using assms(4-)
proof (induction k arbitrary: j u q)
  case 0
  obtain qd u1 where d: "div_step v vo n (uo + j) u = (qd, u1)" by fastforce
  note r = div_round [OF _ assms(2,3) 0(3) [unfolded V_def] d]
  have "u' = u1" "q' = q[qo + j := ucast qd]" using 0(4) d by simp_all
  moreover have "\<forall>x. uo + j \<le> x \<and> x \<le> uo + j \<longrightarrow> u1 ! x = 0"
    using r(3) 0(1) le_antisym by fastforce
  ultimately show ?case using r 0(1,2) unfolding loop_result_def V_def by simp
next
  case (Suc k)
  let ?p = "uo + j" and ?r = "qo + j" and ?K = "((2 :: nat) ^ 16) ^ Suc k"
  obtain qd u1 where d: "div_step v vo n ?p u = (qd, u1)" by fastforce
  let ?W = "dval u ?p (Suc n)" and ?q1 = "q[?r := ucast qd]"
  have pn: "?p + n < length u" using Suc.prems(1) by simp
  note r = div_round [OF pn assms(2,3) Suc.prems(3) [unfolded V_def] d, folded V_def]
  have "div_loop v vo n uo qo k (Suc j) u1 ?q1 = (u', q')"
    using Suc.prems(4) d by simp
  from Suc.IH [OF _ _ _ this] have IH: "loop_result V n (Suc ?p) (Suc ?r) k u1 ?q1 u' q'"
    using Suc.prems(1,2) r by simp
  note l = IH [unfolded loop_result_def]
  have q: "q' ! ?r = ucast qd" using l Suc.prems(2) by simp
  have "dval u1 (Suc ?p + n) (Suc k) = dval u (Suc ?p + n) (Suc k)"
    using r(5) by (intro dval_cong) simp
  then have "dval q' (Suc ?r) (Suc k) * V + dval u' (?p + Suc (Suc k)) n
      = (?W mod V) * ?K + dval u (Suc ?p + n) (Suc k)"
    using l unfolding dval_append [of u1 "Suc ?p" n "Suc k"] r(2) by simp
  from quotient_digits [OF this]
  have "dval q' ?r (Suc (Suc k)) * V + dval u' (?p + Suc (Suc k)) n = dval u ?p (n + Suc (Suc k))"
    unfolding dval_front [of q'] q r(1)
    using dval_append [of u ?p "Suc n" "Suc k"] by (simp del: dval.simps)
  moreover have "u' ! x = 0" if "?p \<le> x" "x \<le> ?p + Suc k" for x
  proof (cases "x = ?p")
    case True
    then show ?thesis using l r(3) by simp
  next
    case False
    then show ?thesis using l that by simp
  qed
  moreover have "q' ! x = q ! x" if "x < ?r" for x using l that by simp
  moreover have "u' ! x = u ! x" if "x < ?p" for x using l r(5) that by simp
  ultimately show ?case using l r(4) unfolding loop_result_def by simp
qed

section \<open>Setting up: digits, leading zeros, normalisation\<close>

lemma dval_four: "dval a 1 4 = (unat (a ! 1) * 2 ^ 16 + unat (a ! 2)) * 2 ^ 32
    + (unat (a ! 3) * 2 ^ 16 + unat (a ! 4))"
proof -
  have i: "(1 :: nat) + 1 = 2" "1 + (2 :: nat) = 3" "3 + (1 :: nat) = 4" "2 + (2 :: nat) = 4"
    by simp_all
  have "dval a 1 (2 + 2) = dval a 1 2 * (2 ^ 16) ^ 2 + dval a (1 + 2) 2" by (rule dval_append)
  then show ?thesis
    unfolding dval_two power_mult [symmetric] i by (simp only: semiring_norm mult_2 arith_simps)
qed

lemma digit_list_nth:
  "digit_list x q ! 0 = x" "digit_list x q ! 1 = ucast (HHALF (quad_H q))"
  "digit_list x q ! 2 = ucast (LHALF (quad_H q))" "digit_list x q ! 3 = ucast (HHALF (quad_L q))"
  "digit_list x q ! 4 = ucast (LHALF (quad_L q))" "length (digit_list x q) = 5"
  by (simp_all add: digit_list_def)

lemma halves_digits:
  "unat (ucast (HHALF w) :: u16) * 2 ^ 16 + unat (ucast (LHALF w) :: u16) = unat w"
proof -
  have "unat (ucast (HHALF w) :: u16) = unat w div 2 ^ 16"
    using unat_store [OF halves_u64(3) [of w]] by (simp only: unat_HHALF)
  then show ?thesis by (simp only: unat_store_LHALF div_mult_mod_eq)
qed

lemma digit_list_value: "dval (digit_list x q) 1 4 = unat q"
  by (simp only: dval_four digit_list_nth halves_digits unat_quad [of q])

lemma digits_quad_value: "unat (digits_quad a) = dval a 1 4"
  unfolding digits_quad_def unat_quad_of dval_four
  by (simp only: unat_COMBINE unat_u16_less unat_dg)

lemma dval_skip_zeros:
  assumes "\<And>i. p \<le> i \<Longrightarrow> i < p + k \<Longrightarrow> a ! i = 0"
  shows "dval a p (k + n) = dval a (p + k) n"
  unfolding dval_append using assms by (simp add: dval_zeros)

lemma skip_v_Inr:
  assumes "skip_v v vo n = Inr (n', vo')" "2 \<le> n"
  shows "2 \<le> n' \<and> vo' + n' = vo + n \<and> vo \<le> vo' \<and> v ! (vo' + 1) \<noteq> 0 \<and>
    (\<forall>i. vo < i \<and> i \<le> vo' \<longrightarrow> v ! i = 0)"
  using assms
proof (induction n arbitrary: vo)
  case (Suc n)
  show ?case
  proof (cases "v ! (vo + 1) \<noteq> 0")
    case True
    then show ?thesis using Suc.prems by (subst (asm) skip_v.simps) auto
  next
    case False
    then have "2 \<le> n" "skip_v v (vo + 1) n = Inr (n', vo')"
      using Suc.prems by (subst (asm) skip_v.simps, simp split: if_splits)+
    from Suc.IH [OF this(2,1)] have *: "2 \<le> n' \<and> vo' + n' = vo + 1 + n \<and> vo + 1 \<le> vo' \<and>
        v ! (vo' + 1) \<noteq> 0 \<and> (\<forall>i. vo + 1 < i \<and> i \<le> vo' \<longrightarrow> v ! i = 0)" .
    have "v ! i = 0" if "vo < i" "i \<le> vo'" for i
      using * False that by (cases "i = vo + 1") auto
    with * show ?thesis by auto
  qed
qed simp

lemma skip_v_Inl:
  assumes "skip_v v vo n = Inl vo'" "2 \<le> n"
  shows "vo' + 2 = vo + n \<and> (\<forall>i. vo < i \<and> i \<le> vo' + 1 \<longrightarrow> v ! i = 0)"
  using assms
proof (induction n arbitrary: vo)
  case (Suc n)
  have z: "v ! (vo + 1) = 0"
    using Suc.prems by (subst (asm) skip_v.simps) (simp split: if_splits)
  show ?case
  proof (cases "n \<le> 1")
    case True
    then have "vo' = vo" "n = 1" using Suc.prems z by (subst (asm) skip_v.simps, simp)+
    then show ?thesis using z by (auto simp: le_Suc_eq)
  next
    case False
    then have "2 \<le> n" "skip_v v (vo + 1) n = Inl vo'"
      using Suc.prems z by (subst (asm) skip_v.simps, simp split: if_splits)+
    from Suc.IH [OF this(2,1)]
    have *: "vo' + 2 = vo + 1 + n \<and> (\<forall>i. vo + 1 < i \<and> i \<le> vo' + 1 \<longrightarrow> v ! i = 0)" .
    have "v ! i = 0" if "vo < i" "i \<le> vo' + 1" for i
      using * z that by (cases "i = vo + 1") auto
    with * show ?thesis by auto
  qed
qed simp

lemma skip_u_Some:
  assumes "\<exists>i. uo < i \<and> i \<le> uo + m + 1 \<and> u ! i \<noteq> 0"
  shows "\<exists>m' uo'. skip_u u uo m = Some (m', uo') \<and> uo' + m' = uo + m \<and> uo \<le> uo' \<and>
    (\<forall>i. uo < i \<and> i \<le> uo' \<longrightarrow> u ! i = 0)"
  using assms
proof (induction m arbitrary: uo)
  case 0
  then have "u ! (uo + 1) \<noteq> 0" by (auto simp: le_Suc_eq less_Suc_eq_le)
  then show ?case by (subst skip_u.simps) auto
next
  case (Suc m)
  show ?case
  proof (cases "u ! (uo + 1) \<noteq> 0")
    case True
    then show ?thesis by (subst skip_u.simps) auto
  next
    case False
    obtain i where i: "uo < i" "i \<le> uo + Suc m + 1" "u ! i \<noteq> 0" using Suc.prems by blast
    with False have "uo + 1 < i" by (cases "i = uo + 1") auto
    with i have "\<exists>i. uo + 1 < i \<and> i \<le> uo + 1 + m + 1 \<and> u ! i \<noteq> 0" by (intro exI [of _ i]) simp
    from Suc.IH [OF this] obtain m' uo' where
      *: "skip_u u (uo + 1) m = Some (m', uo')" "uo' + m' = uo + 1 + m" "uo + 1 \<le> uo'"
        "\<forall>i. uo + 1 < i \<and> i \<le> uo' \<longrightarrow> u ! i = 0" by blast
    have "u ! i = 0" if "uo < i" "i \<le> uo'" for i
      using * False that by (cases "i = uo + 1") auto
    moreover have "skip_u u uo (Suc m) = Some (m', uo')"
      using False *(1) by (subst skip_u.simps) simp
    ultimately show ?thesis using *(2,3) by auto
  qed
qed

text \<open>D1 returns: the first digit is shifted until its top bit is set.\<close>

lemma norm_loop_returns:
  fixes t :: u32
  assumes "0 < unat t" "unat t < 2 ^ 16"
  shows "\<exists>k. norm_loop t d = Some (d + k) \<and> 2 ^ 15 \<le> unat t * 2 ^ k \<and> unat t * 2 ^ k < 2 ^ 16"
  using assms
proof (induction "2 ^ 16 - unat t" arbitrary: t d rule: less_induct)
  case less
  show ?case
  proof (cases "t < 0x8000")
    case True
    then have small: "unat t < 2 ^ 15" by (simp add: word_less_nat_alt)
    have u: "unat (push_bit 1 t) = unat t * 2" using unat_push_low [OF less.prems(2), of 1] by simp
    have "\<exists>k. norm_loop (push_bit 1 t) (d + 1) = Some (d + 1 + k) \<and>
        2 ^ 15 \<le> unat (push_bit 1 t) * 2 ^ k \<and> unat (push_bit 1 t) * 2 ^ k < 2 ^ 16"
    proof (rule less.hyps)
      show "2 ^ 16 - unat (push_bit 1 t) < 2 ^ 16 - unat t" "0 < unat (push_bit 1 t)"
        "unat (push_bit 1 t) < 2 ^ 16"
        unfolding u using less.prems small by simp_all
    qed
    then obtain k where k: "norm_loop (push_bit 1 t) (d + 1) = Some (d + 1 + k)"
      "2 ^ 15 \<le> unat (push_bit 1 t) * 2 ^ k" "unat (push_bit 1 t) * 2 ^ k < 2 ^ 16" by blast
    have "norm_loop t d = Some (d + Suc k)"
      using True k(1) by (subst norm_loop.simps) simp
    then show ?thesis using k(2,3) unfolding u by (intro exI [of _ "Suc k"]) (simp add: mult.assoc)
  next
    case False
    then have "norm_loop t d = Some (d + 0)" by (subst norm_loop.simps) simp
    moreover have "2 ^ 15 \<le> unat t * 2 ^ 0" using False by (simp add: word_less_nat_alt not_less)
    ultimately show ?thesis using less.prems(2) by (intro exI [of _ 0]) simp
  qed
qed

section \<open>The result\<close>

lemma one_digit:
  fixes r b t :: u32
  assumes "unat r < unat t" "unat t < 2 ^ 16" "unat b < 2 ^ 16"
  shows "unat (ucast (COMBINE r b div t) :: u16) * unat t + unat (COMBINE r b mod t)
      = unat r * 2 ^ 16 + unat b"
    and "unat (COMBINE r b mod t) < unat t"
proof -
  have c: "unat (COMBINE r b) = unat r * 2 ^ 16 + unat b"
    using assms by (intro unat_COMBINE) auto
  have "(unat r + 1) * 2 ^ 16 \<le> unat t * 2 ^ 16" using assms(1) by (intro mult_le_mono1) simp
  then have "unat r * 2 ^ 16 + unat b < 2 ^ 16 * unat t" using assms(3) by simp
  then have "unat (COMBINE r b div t) < 2 ^ 16"
    unfolding unat_div c by (rule less_mult_imp_div_less)
  then show "unat (ucast (COMBINE r b div t) :: u16) * unat t + unat (COMBINE r b mod t)
      = unat r * 2 ^ 16 + unat b"
    by (simp only: unat_store unat_div unat_mod c div_mult_mod_eq)
  show "unat (COMBINE r b mod t) < unat t"
    unfolding unat_mod using assms(1) by simp
qed

lemma horner_step:
  fixes B :: nat
  assumes "q * t + r = x * B + b" "Q * t + x = N"
  shows "(Q * B + q) * t + r = N * B + b"
proof -
  have "(Q * B + q) * t + r = Q * t * B + (q * t + r)" by (simp add: algebra_simps)
  also have "\<dots> = (Q * t + x) * B + b" unfolding assms(1) by (simp add: algebra_simps)
  finally show ?thesis unfolding assms(2) .
qed

lemma divide_one_value:
  assumes "0 < unat t" "unat t < 2 ^ 16"
  shows "unat (fst (divide_one u t)) = dval u 1 4 div unat t
    \<and> unat (snd (divide_one u t)) = dval u 1 4 mod unat t"
proof -
  define r1 where "r1 = dg u 1 mod t"
  define r2 where "r2 = COMBINE r1 (dg u 2) mod t"
  define r3 where "r3 = COMBINE r2 (dg u 3) mod t"
  define r4 where "r4 = COMBINE r3 (dg u 4) mod t"
  define q1 where "q1 = (ucast (dg u 1 div t) :: u16)"
  define q2 where "q2 = (ucast (COMBINE r1 (dg u 2) div t) :: u16)"
  define q3 where "q3 = (ucast (COMBINE r2 (dg u 3) div t) :: u16)"
  define q4 where "q4 = (ucast (COMBINE r3 (dg u 4) div t) :: u16)"
  let ?Q = "((unat q1 * 2 ^ 16 + unat q2) * 2 ^ 16 + unat q3) * 2 ^ 16 + unat q4"
  have d: "divide_one u t = (quad_of (COMBINE (ucast q1) (ucast q2)) (COMBINE (ucast q3) (ucast q4)), ucast r4)"
    by (simp only: divide_one_def Let_def r1_def r2_def r3_def r4_def q1_def q2_def q3_def q4_def)
  have r1: "unat r1 < unat t" unfolding r1_def unat_mod using assms(1) by simp
  note s2 = one_digit [OF r1 assms(2) dg_less, of u 2, folded r2_def q2_def, unfolded unat_dg]
  note s3 = one_digit [OF s2(2) assms(2) dg_less, of u 3, folded r3_def q3_def, unfolded unat_dg]
  note s4 = one_digit [OF s3(2) assms(2) dg_less, of u 4, folded r4_def q4_def, unfolded unat_dg]
  have "unat (dg u 1 div t) < 2 ^ 16"
    unfolding unat_div using dg_less [of u 1] div_le_dividend le_less_trans by blast
  then have "unat q1 * unat t + unat r1 = unat (u ! 1)"
    unfolding q1_def r1_def by (simp only: unat_store unat_div unat_mod unat_dg div_mult_mod_eq)
  from horner_step [OF s4(1) horner_step [OF s3(1) horner_step [OF s2(1) this]]]
  have e: "?Q * unat t + unat r4
      = ((unat (u ! 1) * 2 ^ 16 + unat (u ! 2)) * 2 ^ 16 + unat (u ! 3)) * 2 ^ 16 + unat (u ! 4)" .
  also have "\<dots> = dval u 1 4" unfolding dval_four by (simp add: algebra_simps)
  finally have D: "?Q * unat t + unat r4 = dval u 1 4" .
  have w: "unat (ucast q :: u32) = unat q" for q :: u16
    by (simp add: unsigned_ucast_eq take_bit_nat_eq_self_iff less_le_trans [OF unat_u16_less])
  then have c: "unat (COMBINE (ucast q) (ucast q')) = unat q * 2 ^ 16 + unat q'" for q q' :: u16
    by (simp only: unat_COMBINE unat_u16_less)
  have "unat (fst (divide_one u t)) = ?Q"
    unfolding d fst_conv unat_quad_of c by (simp add: algebra_simps)
  moreover have "unat (snd (divide_one u t)) = unat r4" unfolding d by simp
  moreover have "dval u 1 4 div unat t = ?Q" "dval u 1 4 mod unat t = unat r4"
    using s4(2) unfolding D [symmetric] by simp_all
  ultimately show ?thesis by simp
qed

text \<open>The normalised operands, from which the loop starts.\<close>

lemma normalised:
  fixes u v :: digits and n m uo vo d :: nat
  defines "u' \<equiv> if d > 0 then shl uo (m + n) d u else u"
    and "v' \<equiv> if d > 0 then shl (vo + 1) (n - 1) d v else v"
  assumes "length u = 5" "length v = 5" "uo + m + n = 4" "vo + n = 4" "2 \<le> n"
    and "u ! uo = 0" "2 ^ 15 \<le> unat (v ! Suc vo) * 2 ^ d" "unat (v ! Suc vo) * 2 ^ d < 2 ^ 16"
  shows "dval v' (Suc vo) n = dval v (Suc vo) n * 2 ^ d" "v' ! Suc vo \<noteq> 0"
    "dval u' uo (Suc (m + n)) = dval u uo (Suc (m + n)) * 2 ^ d" "dval u' uo n < dval v' (Suc vo) n"
    "length u' = 5" "\<forall>x < uo. u' ! x = u ! x"
proof -
  let ?v = "unat (v ! Suc vo)"
  have vpos: "1 \<le> ?v" using assms(9) by (cases ?v) auto
  have "1 * 2 ^ d \<le> ?v * 2 ^ d" using vpos by (rule mult_le_mono1)
  then have "(2 :: nat) ^ d < 2 ^ 16" using assms(10) by linarith
  then have d: "d < 16" by (rule power_less_imp_less_exp [rotated]) simp
  then have d15: "(2 :: nat) ^ d \<le> 2 ^ 15" by (intro power_increasing) auto
  have "?v * 2 ^ d < 2 ^ (16 - d) * 2 ^ d"
    using assms(10) pow16_split [of d] d by (simp add: mult.commute)
  then have v16: "?v < 2 ^ (16 - d)" by (simp only: mult_less_cancel2)
  obtain k where n: "n = Suc k" using assms(7) by (cases n) auto
  have vs: "dval v' (Suc vo) n = dval v (Suc vo) n * 2 ^ d"
    unfolding v'_def n using shl_multiplies [of d "Suc vo" k v] v16 d assms(4,6) n by simp
  then show "dval v' (Suc vo) n = dval v (Suc vo) n * 2 ^ d" .
  have "2 ^ 15 * (2 ^ 16) ^ k \<le> ?v * 2 ^ d * (2 ^ 16) ^ k" using assms(9) by (rule mult_le_mono1)
  also have "\<dots> = ?v * (2 ^ 16) ^ k * 2 ^ d" by simp
  also have "\<dots> \<le> dval v (Suc vo) n * 2 ^ d" unfolding n dval_front by (intro mult_le_mono1) simp
  finally have lead: "2 ^ 15 * (2 ^ 16) ^ k \<le> dval v' (Suc vo) n" unfolding vs .
  show "v' ! Suc vo \<noteq> 0"
  proof
    assume "v' ! Suc vo = 0"
    then have "dval v' (Suc vo) n < (2 ^ 16) ^ k" unfolding n dval_front using dval_less by simp
    then have "2 ^ 15 * (2 ^ 16) ^ k < ((2 :: nat) ^ 16) ^ k" using lead by linarith
    then show False by simp
  qed
  have us: "dval u' uo (Suc (m + n)) = dval u uo (Suc (m + n)) * 2 ^ d"
    unfolding u'_def using shl_multiplies [of d uo "m + n" u] d assms(3,5,8) by simp
  then show "dval u' uo (Suc (m + n)) = dval u uo (Suc (m + n)) * 2 ^ d" .
  show len: "length u' = 5" unfolding u'_def using assms(3) by simp
  show "\<forall>x < uo. u' ! x = u ! x" unfolding u'_def by (simp add: shl_outside)
  have "unat (u' ! uo) * (2 ^ 16) ^ (m + n) \<le> dval u' uo (Suc (m + n))" unfolding dval_front by simp
  also have "\<dots> = dval u (Suc uo) (m + n) * 2 ^ d" unfolding us dval_front [of u] using assms(8) by simp
  also have "\<dots> < (2 ^ 16) ^ (m + n) * 2 ^ d" using dval_less by (intro mult_strict_right_mono) auto
  finally have "unat (u' ! uo) < 2 ^ d" by (simp add: mult.commute)
  then have "unat (u' ! uo) + 1 \<le> 2 ^ 15" using d15 by linarith
  then have "(unat (u' ! uo) + 1) * (2 ^ 16) ^ k \<le> 2 ^ 15 * (2 ^ 16) ^ k" by (rule mult_le_mono1)
  moreover have "dval u' uo n < (unat (u' ! uo) + 1) * (2 ^ 16) ^ k"
    unfolding n dval_front [of u'] using dval_less [of u' "Suc uo" k] by simp
  ultimately show "dval u' uo n < dval v' (Suc vo) n" using lead by linarith
qed

lemma dval_tail:
  assumes "\<And>i. 1 \<le> i \<Longrightarrow> i \<le> p \<Longrightarrow> a ! i = 0" "p + n = 4"
  shows "dval a 1 4 = dval a (Suc p) n"
  using dval_skip_zeros [of 1 p a n] assms by (simp add: add.commute)

lemma div_mod_scaled:
  fixes U V Q R e :: nat
  assumes "Q * (V * e) + R = U * e" "R < V * e" "0 < e"
  shows "Q = U div V" "R div e = U mod V"
proof -
  have R: "R = (R div e) * e"
  proof -
    have "e dvd Q * (V * e) + R" unfolding assms(1) by simp
    then have "e dvd R" by (simp add: dvd_add_right_iff)
    then show ?thesis by simp
  qed
  then have "(Q * V + R div e) * e = U * e" using assms(1) by (simp add: algebra_simps)
  then have "Q * V + R div e = U" using assms(3) by simp
  moreover have "R div e < V" using assms(2) by (simp add: less_mult_imp_div_less)
  ultimately show "Q = U div V" "R div e = U mod V" by auto
qed

lemma qdivrem_loop_result:
  assumes "loop_result V n uo (4 - m) m u (replicate (4 - m) 0 @ x) u' q'" "V = V0 * 2 ^ d"
    and "dval u uo (Suc (m + n)) = unat uq * 2 ^ d" "V0 = unat vq" "d < 16"
    and "uo + m + n = 4" "2 \<le> n" "\<forall>i < uo. u ! i = 0" "length u = 5"
  shows "digits_quad q' = uq div vq" "digits_quad (if d > 0 then unshift (uo + m) n d u' else u') = uq mod vq"
proof -
  note l = assms(1) [unfolded loop_result_def]
  have "dval q' (4 - m) (Suc m) * (V0 * 2 ^ d) + dval u' (uo + Suc m) n = unat uq * 2 ^ d"
    "dval u' (uo + Suc m) n < V0 * 2 ^ d"
    using l assms(2,3) by (simp_all add: add.commute)
  note D = div_mod_scaled [OF this]
  have "q' ! i = 0" if "1 \<le> i" "i \<le> 3 - m" for i
    using l that by (simp add: nth_append)
  then have "dval q' 1 4 = dval q' (Suc (3 - m)) (Suc m)"
    using assms(6,7) by (intro dval_tail) auto
  also have "Suc (3 - m) = 4 - m" using assms(6,7) by simp
  finally have "unat (digits_quad q') = unat uq div V0"
    unfolding digits_quad_value using D(1) by simp
  then show "digits_quad q' = uq div vq" unfolding assms(4) by (simp add: word_unat_eq_iff unat_div)
  define u3 where "u3 = (if d > 0 then unshift (uo + m) n d u' else u')"
  have z: "u' ! i = 0" if "i \<le> uo + m" for i using l assms(8) that by (cases "i < uo") auto
  have "uo + m < length u'" using l assms(6,7,9) by simp
  then have "dval u3 1 4 = dval u3 (Suc (uo + m)) n"
    using assms(6) z unfolding u3_def
    by (intro dval_tail) (auto simp: unshift_outside unshift_first le_less)
  also have "\<dots> = dval u' (Suc (uo + m)) n div 2 ^ d"
    unfolding u3_def using unshift_divides [of d "uo + m" n u'] assms(5,6,9) l z [of "uo + m"] by simp
  finally have "unat (digits_quad u3) = unat uq mod V0"
    unfolding digits_quad_value using D(2) by simp
  then have "digits_quad u3 = uq mod vq" unfolding assms(4) by (simp add: word_unat_eq_iff unat_mod)
  then show "digits_quad (if d > 0 then unshift (uo + m) n d u' else u') = uq mod vq"
    unfolding u3_def .
qed

lemma qdivrem_long:
  assumes "vq \<noteq> 0" "vq \<le> uq" "skip_v (digit_list junk vq) 0 4 = Inr (n, vo)"
  shows "qdivrem junk uq vq = Some (Inr (uq div vq, uq mod vq))"
proof -
  let ?u = "digit_list 0 uq" and ?v = "digit_list junk vq"
  from skip_v_Inr [OF assms(3)]
  have n: "2 \<le> n" "vo + n = 4" and v1: "?v ! Suc vo \<noteq> 0" and vz: "\<And>i. 1 \<le> i \<Longrightarrow> i \<le> vo \<Longrightarrow> ?v ! i = 0"
    by auto
  have V: "dval ?v (Suc vo) n = unat vq"
    using dval_tail [of vo ?v n] vz n(2) digit_list_value [of junk vq] by simp
  have "\<exists>i. 0 < i \<and> i \<le> 0 + (4 - n) + 1 \<and> ?u ! i \<noteq> 0"
  proof (rule ccontr)
    assume no: "\<not> ?thesis"
    obtain k where k: "n = Suc k" using n(1) by (cases n) auto
    have "dval ?u 1 4 = dval ?u (Suc (Suc (3 - k))) k"
      using no n k by (intro dval_tail) auto
    also have "\<dots> < (2 ^ 16) ^ k" by (rule dval_less)
    also have "\<dots> \<le> unat (?v ! Suc vo) * (2 ^ 16) ^ k" using v1 by (cases "unat (?v ! Suc vo)") (auto simp: unat_eq_0)
    also have "\<dots> \<le> unat vq" unfolding V [symmetric] k dval_front by simp
    finally show False using assms(2) digit_list_value [of 0 uq] by (simp add: word_le_nat_alt)
  qed
  from skip_u_Some [OF this] obtain m uo where
    su: "skip_u ?u 0 (4 - n) = Some (m, uo)" "uo + m = 4 - n" "\<forall>i. 0 < i \<and> i \<le> uo \<longrightarrow> ?u ! i = 0"
    by auto
  then have uz: "?u ! i = 0" if "i \<le> uo" for i
    using that by (cases i) (auto simp: digit_list_nth(1))
  have umn: "uo + m + n = 4" using su(2) n by simp
  have U: "dval ?u uo (Suc (m + n)) = unat uq"
  proof -
    have a: "dval ?u 0 (uo + Suc (m + n)) = dval ?u (0 + uo) (Suc (m + n))"
      by (rule dval_skip_zeros) (use uz in auto)
    have e: "uo + Suc (m + n) = Suc 4" using umn by simp
    have "dval ?u 0 (Suc 4) = unat uq"
      unfolding dval_front using digit_list_value [of 0 uq] by (simp add: digit_list_nth(1))
    then show ?thesis using a unfolding e by (simp only: add_0)
  qed
  have "0 < unat (dg ?v (vo + 1))" unfolding unat_dg using v1 by (simp add: unat_gt_0)
  from norm_loop_returns [OF this dg_less, of 0] obtain d where
    d: "norm_loop (dg ?v (vo + 1)) 0 = Some d" "2 ^ 15 \<le> unat (?v ! Suc vo) * 2 ^ d"
      "unat (?v ! Suc vo) * 2 ^ d < 2 ^ 16"
    unfolding unat_dg by auto
  have "1 * 2 ^ d \<le> unat (?v ! Suc vo) * 2 ^ d"
    using d(2) by (intro mult_le_mono1) (cases "unat (?v ! Suc vo)"; simp)
  then have "(2 :: nat) ^ d < 2 ^ 16" using d(3) by linarith
  then have d16: "d < 16" by (rule power_less_imp_less_exp [rotated]) simp
  define u1 where "u1 = (if d > 0 then shl uo (m + n) d ?u else ?u)"
  define v1' where "v1' = (if d > 0 then shl (vo + 1) (n - 1) d ?v else ?v)"
  note N = normalised [OF digit_list_nth(6) digit_list_nth(6) umn n(2,1) uz [OF order_refl] d(2,3),
      folded u1_def v1'_def]
  let ?q = "replicate (4 - m) 0 @ replicate (Suc m) junk"
  obtain u2 q2 where loop: "div_loop v1' vo n uo (4 - m) m 0 u1 ?q = (u2, q2)" by fastforce
  have "loop_result (dval v1' (Suc vo) n) n (uo + 0) (4 - m + 0) m u1 ?q u2 q2"
    using div_loop_value [OF n(1) N(2) _ _ _ loop] N(4,5) umn by simp
  then have "loop_result (dval v1' (Suc vo) n) n uo (4 - m) m u1 ?q u2 q2" by simp
  from qdivrem_loop_result [OF this N(1) N(3) [unfolded U] V d16 umn n(1) _ N(5)] N(6) uz
  have res: "digits_quad q2 = uq div vq"
    "digits_quad (if d > 0 then unshift (uo + m) n d u2 else u2) = uq mod vq" by simp_all
  show ?thesis
    using assms(1,2) su(1) d(1) loop res
    unfolding qdivrem_def Let_def assms(3) by (simp add: u1_def v1'_def leD)
qed

lemma qdivrem_short:
  assumes "vq \<noteq> 0" "vq \<le> uq" "skip_v (digit_list junk vq) 0 4 = Inl vo"
  shows "qdivrem junk uq vq = Some (Inr (uq div vq, uq mod vq))"
proof -
  let ?u = "digit_list 0 uq" and ?v = "digit_list junk vq"
  from skip_v_Inl [OF assms(3)] have vo: "vo = 2" and z: "\<And>i. 1 \<le> i \<Longrightarrow> i \<le> 3 \<Longrightarrow> ?v ! i = 0"
    by auto
  have "dval ?v 1 4 = dval ?v (Suc 3) 1" using z by (intro dval_tail) auto
  then have t: "unat (dg ?v (vo + 2)) = unat vq"
    unfolding unat_dg vo digit_list_value by simp
  then have "0 < unat (dg ?v (vo + 2))" using assms(1) by (simp add: unat_gt_0)
  from divide_one_value [OF this dg_less, of ?u]
  have "divide_one ?u (dg ?v (vo + 2)) = (uq div vq, uq mod vq)"
    unfolding t digit_list_value by (simp add: prod_eq_iff word_unat_eq_iff unat_div unat_mod)
  then show ?thesis
    using assms(1,2) unfolding qdivrem_def Let_def assms(3) by (simp add: leD)
qed

lemma qdivrem_divides:
  "qdivrem junk uq vq =
     Some (if vq = 0 then Inl (PANIC ''divide error'') else Inr (uq div vq, uq mod vq))"
proof -
  consider "vq = 0" | "vq \<noteq> 0" "uq < vq" | "vq \<noteq> 0" "vq \<le> uq" by fastforce
  then show ?thesis
  proof cases
    case 1
    then show ?thesis by (simp add: qdivrem_def)
  next
    case 2
    then have "uq div vq = 0" "uq mod vq = uq"
      by (simp_all add: word_unat_eq_iff unat_div unat_mod word_less_nat_alt)
    then show ?thesis using 2 by (simp add: qdivrem_def)
  next
    case 3
    then show ?thesis
      using qdivrem_long [OF 3] qdivrem_short [OF 3]
      by (cases "skip_v (digit_list junk vq) 0 4") auto
  qed
qed

section \<open>The four divisions\<close>

definition udivdi3 :: "u16 \<Rightarrow> u64 \<Rightarrow> u64 \<Rightarrow> u64 res option" where
  "udivdi3 junk a b = map_option (map_sum id fst) (qdivrem junk a b)"

definition umoddi3 :: "u16 \<Rightarrow> u64 \<Rightarrow> u64 \<Rightarrow> u64 res option" where
  "umoddi3 junk a b = map_option (map_sum id snd) (qdivrem junk a b)"

definition divdi3 :: "u16 \<Rightarrow> u64 \<Rightarrow> u64 \<Rightarrow> u64 res option" where
  "divdi3 junk a b =
     (let (ua, neg) = (if a <s 0 then (- a, True) else (a, False));
          (ub, neg) = (if b <s 0 then (- b, \<not> neg) else (b, neg))
      in map_option (map_sum id (\<lambda>(uq, r). if neg then - uq else uq)) (qdivrem junk ua ub))"

definition moddi3 :: "u16 \<Rightarrow> u64 \<Rightarrow> u64 \<Rightarrow> u64 res option" where
  "moddi3 junk a b =
     (let (ua, neg) = (if a <s 0 then (- a, True) else (a, False));
          ub = (if b <s 0 then - b else b)
      in map_option (map_sum id (\<lambda>(q, ur). if neg then - ur else ur)) (qdivrem junk ua ub))"

lemma uint_abs:
  fixes a :: u64
  shows "uint (if a <s 0 then - a else a) = \<bar>sint a\<bar>"
proof -
  have r: "- (2 ^ 63) \<le> sint a" "sint a < 2 ^ 63"
    using sint_greater_eq [of a] sint_less [of a] by simp_all
  have "(if a <s 0 then - a else a) = word_of_int \<bar>sint a\<bar>"
    by (simp add: word_sless_alt)
  moreover have "uint (word_of_int \<bar>sint a\<bar> :: u64) = \<bar>sint a\<bar>"
    using r by (simp add: unsigned_of_int take_bit_int_eq_self_iff)
  ultimately show ?thesis by simp
qed

lemma signed_division:
  fixes a b :: u64
  defines "ua \<equiv> if a <s 0 then - a else a" and "ub \<equiv> if b <s 0 then - b else b"
  shows "(if (a <s 0) = (b <s 0) then ua div ub else - (ua div ub)) = word_of_int (sint a sdiv sint b)"
    and "(if a <s 0 then - (ua mod ub) else ua mod ub) = word_of_int (sint a smod sint b)"
proof -
  have u: "uint ua = \<bar>sint a\<bar>" "uint ub = \<bar>sint b\<bar>" unfolding ua_def ub_def by (rule uint_abs)+
  have d: "ua div ub = word_of_int (\<bar>sint a\<bar> div \<bar>sint b\<bar>)" "ua mod ub = word_of_int (\<bar>sint a\<bar> mod \<bar>sint b\<bar>)"
    using u by (simp_all add: word_div_def word_mod_def)
  show "(if (a <s 0) = (b <s 0) then ua div ub else - (ua div ub)) = word_of_int (sint a sdiv sint b)"
    unfolding d by (auto simp: signed_divide_int_def word_sless_alt sgn_if)
  show "(if a <s 0 then - (ua mod ub) else ua mod ub) = word_of_int (sint a smod sint b)"
    unfolding d by (auto simp: signed_modulo_int_def word_sless_alt sgn_if)
qed

lemma divdi3_truncates:
  "b \<noteq> 0 \<Longrightarrow> divdi3 junk a b = Some (Inr (word_of_int (sint a sdiv sint b)))"
  unfolding divdi3_def Let_def signed_division(1) [symmetric]
  by (cases "a <s 0"; cases "b <s 0") (simp_all add: qdivrem_divides)

lemma moddi3_truncates:
  "b \<noteq> 0 \<Longrightarrow> moddi3 junk a b = Some (Inr (word_of_int (sint a smod sint b)))"
  unfolding moddi3_def Let_def signed_division(2) [symmetric]
  by (cases "a <s 0"; cases "b <s 0") (simp_all add: qdivrem_divides)

text \<open>
  C40. Multiprecision division returns for every pair of operands and whatever its uninitialised
  arrays hold, and its results are those of 64-bit division: \<open>__qdivrem\<close> gives quotient and
  remainder, the unsigned functions one of them, the signed ones truncate towards zero with the
  remainder taking the sign of the dividend (the one overflow, the smallest number by \<open>-1\<close>,
  wraps); a divisor of 0 is a divide error of the processor.
\<close>

theorem quad_division:
  "qdivrem junk a b =
     Some (if b = 0 then Inl (PANIC ''divide error'') else Inr (a div b, a mod b)) \<and>
   udivdi3 junk a b = Some (if b = 0 then Inl (PANIC ''divide error'') else Inr (a div b)) \<and>
   umoddi3 junk a b = Some (if b = 0 then Inl (PANIC ''divide error'') else Inr (a mod b)) \<and>
   divdi3 junk a b = Some (if b = 0 then Inl (PANIC ''divide error'')
     else Inr (word_of_int (sint a sdiv sint b))) \<and>
   moddi3 junk a b = Some (if b = 0 then Inl (PANIC ''divide error'')
     else Inr (word_of_int (sint a smod sint b)))"
proof (cases "b = 0")
  case True
  then show ?thesis
    by (simp add: qdivrem_divides udivdi3_def umoddi3_def divdi3_def moddi3_def Let_def)
next
  case False
  then show ?thesis
    by (simp add: qdivrem_divides udivdi3_def umoddi3_def divdi3_truncates moddi3_truncates)
qed

end
