(* ===== verification/Spec2Isabelle.thy ===== *)
theory Spec2Isabelle
  imports Heap Scheduler Spin_Lock Driver_Manager Timers Pci Memory_Init Linked_Lists Runtime_Support
    Print_Parse Hashes C_Search Quad_Divide
begin

text \<open>
  A verification library for esrtk, a small i386 kernel in C++ with its own C library.

  The program. \<open>Kernel/\<close> and \<open>X86/\<close> hold the kernel: physical pages come from a pool of
  descriptors (\<open>Include/Platform/PageCluster.hh\<close>, \<open>Kernel/Memory.cc\<close>), are entered into page
  tables through the recursive directory slot (\<open>X86/PageDirectory.cc\<close>), and are handed out as
  kernel regions (\<open>Kernel/Memory.cc\<close>) and as heap blocks (\<open>Kernel/Heap.cc\<close>). Threads carry queues
  of jobs and are switched round robin (\<open>Kernel/Thread.cc\<close>, \<open>Kernel/Scheduler.cc\<close>); spin locks and
  mutexes protect what is shared (\<open>X86/SpinLock.cc\<close>, \<open>Kernel/Mutex.cc\<close>). Interrupts run the rings of
  handlers of their line (\<open>Kernel/Interrupt.cc\<close>); the console shows what is printed and buffers what
  is typed (\<open>Kernel/StdioSupport.cc\<close>, \<open>Drivers/\<close>). \<open>CLibrary/\<close> is the C library the kernel is linked
  with: formatted output, strings, memory blocks, number conversion, 64-bit arithmetic, character
  classes and hash functions.

  Conventions. The target has 32-bit pointers, \<open>int\<close> and \<open>long\<close>: they are \<open>32 word\<close>, with
  their wrap-around. \<open>Debug::panic\<close> and a failing \<open>KASSERT\<close> do not return: a function that can
  panic has a result in \<open>panic + 'a\<close>. A loop that need not end is a \<open>partial_function\<close>, and \<open>None\<close>
  says that it does not return (or, where the text says so, that the C standard leaves the
  case undefined); all other loops are total functions with a measure, so that no fuel is
  needed anywhere. Code that runs under a lock is one step. Every locale is an interface that
  a model in the code provides, and is interpreted on it where that model is declared.

  Kernel.
  \<^item> \<open>Prelude\<close>: machine types, panics, words.
  \<^item> \<open>Circular_List\<close>: the ring of linked nodes that both the page clusters and the free list of
    the heap are, as the locale \<open>linked_store\<close> over a store of nodes with \<open>next\<close> and \<open>prev\<close>.
  \<^item> \<open>Page_Cluster\<close>, \<open>Page_Allocator\<close>: \<open>PhysicalPage\<close>, \<open>PageCluster\<close>, \<open>Memory::getPage\<close> and
    \<open>putPage\<close>. Shown: a page moves from the free to the used cluster and back, no run of the two
    operations loses or duplicates a page, and putting back a page that is not in use does not
    return, because the search never recognises the sentinel (except at \<open>0xFFFFF000\<close>, which it takes
    for the sentinel's own address).
  \<^item> \<open>Paging\<close>: the page tables in physical memory, the walk of the processor through them with
    its look-aside buffer, and \<open>mapPage\<close>, \<open>unmapPage\<close> and the queries as accesses to virtual memory
    through the recursive slot. The abstract specification is a partial map from pages to frames
    with flags; \<open>mapPage\<close> and \<open>unmapPage\<close> refine its update and its deletion.
  \<^item> \<open>Memory_Map\<close>: the regions of \<open>Memory.cc\<close>: a physical range appears at consecutive addresses,
    an anonymous region consists of pages that nobody else has.
  \<^item> \<open>Heap\<close>: segments with their checksum, first fit over the free list, growth by regions. Shown:
    an allocated block is zeroed, large enough, and apart from every other block; a freed one is
    found again.
  \<^item> \<open>Scheduler\<close>: threads, jobs, \<open>insert\<close>, \<open>remove\<close>, \<open>schedule\<close>, \<open>init\<close>. Shown: every run of
    the operations keeps well-formed queues (\<open>Scheduler::init\<close> itself leaves the running thread queued,
    which is the one exception it makes), a runnable thread is chosen when there is one, and each
    ready thread has its turn after at most as many rounds as there are threads before it.
  \<^item> \<open>Spin_Lock\<close>: the interrupt flag, the atomic instructions, the spin lock for interrupt
    routines and \<open>Mutex\<close>, first on one processor, then as a step relation on any number of
    processors. Shown by induction over reachability: mutual exclusion, no failing assertion,
    interrupts off while a lock is awaited or held. Two theorems show what \<open>tryEnter\<close> and the
    early save of the flags break.
  \<^item> \<open>Interrupts\<close>: the rings of handlers. Shown: a registered handler runs at every interrupt of its
    line, in the order of registration, exactly once; deregistering removes the last one, whatever
    the argument is, and leaves a null pointer behind.
  \<^item> \<open>Text_Console\<close>: the VGA screen and the cursor logic of \<open>FrameBuffer.cc\<close>, which refine a terminal of
    25 lines of 80 cells; scrolling needs 2055 mapped cells, and faults with fewer.
  \<^item> \<open>Console_Io\<close>: the serial port, the list of consoles and the input buffer (\<open>StdioSupport.cc\<close>,
    \<open>EarlySerial.cc\<close>, \<open>stdio.c\<close>). Shown: what \<open>printf\<close> and \<open>puts\<close> leave on every enabled console and on
    the serial line, that a newline at the bottom faults with fewer than 2055 mapped cells, and that
    typed-ahead input is echoed and comes back reversed.
  \<^item> \<open>Keyboard\<close>: the scan-code table and the handler of \<open>Drivers/X86/Keyboard\<close>, on top of the input
    buffer. Shown: the keys of a printable text feed that text, with Enter, Space and Tab fed twice,
    once on release.
  \<^item> \<open>Boot_Paging\<close>: the pool of page frames (\<open>PageFrameAllocator.cc\<close>) and \<open>PageDirectory::init\<close>, which
    builds the first tables under the loader's directory. Shown: for a kernel that fits, the machine
    it starts has well-formed tables in three frames of the pool, and maps the kernel's memory at
    \<open>KernelVirtualBase\<close> and nothing else.
  \<^item> \<open>Memory_Init\<close>: the memory map of the loader (\<open>X86Memory.cc\<close>) and \<open>Memory::init\<close>, on the tables of
    \<open>Boot_Paging\<close>: the clusters, a descriptor for every page of the map, the kernel stack and the code
    area. The locks are not taken there. Shown: without modules and with 16 MB or more, it returns with
    the invariant \<open>mem_ok\<close> of \<open>Memory_Map\<close>, no page of the kernel is free, and what was mapped stays
    mapped. The descriptors are a store apart from the pages that hold them; that the tables, the
    stack and the code area are set up in other frames than theirs is proved. The page of the first
    descriptors is entered as free too; later calls that hand it out are outside the model.
  \<^item> \<open>Null_List\<close>: lists of objects that end with the null pointer, with the locale \<open>null_walk\<close> of the
    loops over them and the monad of calls that may panic or not return. Interpreted by
    \<open>Driver_Manager\<close> (\<open>Driver.cc\<close>, \<open>DriverManager.cc\<close>: every driver is initialised at most once; the
    keyboard gets its interrupts), \<open>Timers\<close> (clocks, system timers and watchdogs: the best provider is
    selected, each tick advances the uptime, switches threads and kicks every watchdog, and which
    watchdogs make that diverge; the lock of the watchdogs is not modelled) and \<open>Pci\<close> (\<open>Pci.cc\<close>, \<open>X86Pci.cc\<close>: the configuration space as bytes, and
    the enumeration that attaches and initialises for each function the first driver that wants it).
  \<^item> \<open>Linked_Lists\<close>: the list templates and the list of file systems, over the ring of
    \<open>Circular_List\<close>. \<open>Runtime_Support\<close>: constructors, destructors at exit, clearing of the
    uninitialised data.

  C library.
  \<^item> \<open>Printf\<close>, \<open>Printf_Numbers\<close>: \<open>kprintf\<close> with the scan of a conversion, the number conversion in its
    buffer, the layout of a field and the two sinks. Shown: what is written does not depend on the
    sink, so \<open>snprintf\<close> truncates what \<open>printf\<close> shows; the conversion buffer suffices for every number,
    and the digits denote it. \<open>Print_Parse\<close>: \<open>strtol\<close> and its relatives read back what \<open>printf\<close> prints.
  \<^item> \<open>C_Memory\<close>, \<open>Mem_Copy\<close>, \<open>Mem_Functions\<close>: a flat memory of bytes; the copies with their word loops,
    comparison, search, fill. \<open>C_String\<close>, \<open>C_Search\<close>: the string functions over the same memory; an
    unterminated string is one whose end does not exist, and the scan has no value then.
  \<^item> \<open>Ctype\<close>: functions, table and inline functions of the character classes. \<open>Stdlib\<close>: the four
    integer conversions over one locale of the digit loop, \<open>abs\<close> and \<open>rand\<close>.
  \<^item> \<open>Quad\<close>, \<open>Quad_Divide\<close>: 64-bit arithmetic from 32-bit halves, each function equal to the
    operation on \<open>64 word\<close>; the division of Knuth with its trial quotients, borrow and add-back
    steps is proved to give quotient and remainder.
  \<^item> \<open>Block_Hash\<close>, \<open>Md5\<close>, \<open>Rmd160\<close>, \<open>Sha1\<close>, \<open>Sha2_Transform\<close>, \<open>Sha2\<close>: the hash functions with their
    buffers. \<open>Block_Hash\<close> has the locale of a buffered block hash; each hash interprets it, and
    feeding a message in pieces gives the digest of the padded whole. \<open>Hashes\<close> states it for all seven.

  Not modelled. ACPICA, libelf, the FreeBSD headers, libc++ and its ABI library are third-party
  code. The other device drivers, port and register access apart from the configuration space,
  descriptor tables, context switches and the boot code are hardware or assembly. Process
  creation, the loading of ELF images and the RAM disk are left out: they read structures that the
  boot loader or a third-party format defines. The conversions between
  integers and floating point need a model of floating point.
\<close>

end
